(* ===== verification/Prelude.thy ===== *)
theory Prelude
  imports Main "HOL-Library.Word"
begin

unbundle bit_operations_syntax

text \<open>
  What every component shares: the names of the machine integers, the outcome of a kernel
  routine, and the lemma collections and list facts the component proofs draw on.

  A C \<^verbatim>\<open>uint\<close>, \<^verbatim>\<open>ushort\<close> or \<^verbatim>\<open>uchar\<close> is a word of its width, so it wraps as the
  code's does; a C \<^verbatim>\<open>int\<close>, whose overflow is undefined, is an \<open>int\<close>.
  A routine that may call \<^verbatim>\<open>panic\<close> returns an \<open>outcome\<close>: \<open>Ret\<close> of its result,
  \<open>Panic\<close> with the message, or \<open>Blocked\<close> when it would sleep for an event that nothing in the
  modelled run delivers.
\<close>

type_synonym u8 = "8 word"
type_synonym u16 = "16 word"
type_synonym u32 = "32 word"

datatype 'a outcome = Ret 'a | Panic string | Blocked

fun bindR :: "'a outcome \<Rightarrow> ('a \<Rightarrow> 'b outcome) \<Rightarrow> 'b outcome" where
  "bindR (Ret x) f = f x"
| "bindR (Panic e) f = Panic e"
| "bindR Blocked f = Blocked"

named_theorems kernel_simps \<open>how an operation acts on each field of the state\<close>
named_theorems kernel_inv \<open>invariants that an operation keeps\<close>

subsection \<open>Outcomes\<close>

lemma bindR_eq_Ret [simp]:
  "bindR m f = Ret y \<longleftrightarrow> (\<exists>x. m = Ret x \<and> f x = Ret y)"
  by (cases m) auto

lemma bindR_eq_Panic:
  "bindR m f = Panic e \<longleftrightarrow> m = Panic e \<or> (\<exists>x. m = Ret x \<and> f x = Panic e)"
  by (cases m) auto

lemma bindR_cong [fundef_cong]:
  "m = m' \<Longrightarrow> (\<And>x. m' = Ret x \<Longrightarrow> f x = g x) \<Longrightarrow> bindR m f = bindR m' g"
  by (cases m') auto

lemma bindR_assoc: "bindR (bindR m f) g = bindR m (\<lambda>x. bindR (f x) g)"
  by (cases m) auto

subsection \<open>Lists updated by index\<close>

lemma nth_list_update_eq_if:
  "i < length xs \<Longrightarrow> xs[i := v] ! j = (if i = j then v else xs ! j)"
  by simp

lemma list_all_update:
  "list_all P xs \<Longrightarrow> P v \<Longrightarrow> list_all P (xs[i := v])"
  using set_update_subset_insert [of xs i v] by (auto simp: list_all_iff)

lemma map_update_same:
  "f v = f (xs ! i) \<Longrightarrow> map f (xs[i := v]) = map f xs"
  by (metis list_update_id map_update)

text \<open>\<open>find_index P xs\<close> is the first index of an element with \<open>P\<close>, as a C loop that stops at
  the first match finds it.\<close>

fun find_index :: "('a \<Rightarrow> bool) \<Rightarrow> 'a list \<Rightarrow> nat option" where
  "find_index P [] = None"
| "find_index P (x # xs) = (if P x then Some 0 else map_option Suc (find_index P xs))"

lemma find_index_None: "find_index P xs = None \<longleftrightarrow> (\<forall>x \<in> set xs. \<not> P x)"
  by (induction xs) auto

lemma find_index_Some:
  "find_index P xs = Some i \<longleftrightarrow> i < length xs \<and> P (xs ! i) \<and> (\<forall>j < i. \<not> P (xs ! j))"
proof (induction xs arbitrary: i)
  case Nil
  show ?case by simp
next
  case (Cons x xs)
  show ?case
    by (cases i) (auto simp: Cons.IH less_Suc_eq_0_disj)
qed

lemma find_index_SomeD:
  "find_index P xs = Some i \<Longrightarrow> i < length xs \<and> P (xs ! i)"
  by (simp add: find_index_Some)

lemma find_index_replicate [simp]:
  "find_index P (replicate n x) = (if 0 < n \<and> P x then Some 0 else None)"
  by (induction n) auto

subsection \<open>Words\<close>

text \<open>The value a C \<^verbatim>\<open>int\<close> of 32 bits has after a computation whose mathematical result is \<open>x\<close>.\<close>

definition int32 :: "int \<Rightarrow> int" where
  "int32 x = signed_take_bit 31 x"

lemma int32_id: "- (2 ^ 31) \<le> x \<Longrightarrow> x < 2 ^ 31 \<Longrightarrow> int32 x = x"
  by (simp add: int32_def signed_take_bit_int_eq_self)

lemma int32_range: "- (2 ^ 31) \<le> int32 x" "int32 x < 2 ^ 31"
  unfolding int32_def by (rule signed_take_bit_int_greater_eq_minus_exp, rule signed_take_bit_int_less_exp)

lemma unat_of_nat_less:
  "n < 2 ^ LENGTH('a) \<Longrightarrow> unat (of_nat n :: 'a::len word) = n"
  by (simp add: unat_of_nat)

lemma uint_eq_iff: "uint (a :: 'a::len word) = uint b \<longleftrightarrow> a = b"
  by (metis unsigned_word_eqI)

lemma unat_u32_less: "unat (x :: u32) < 2 ^ 32"
  using unsigned_less [of x, where ?'a = nat] by simp

lemma unat_minus_1_u32: "unat (- 1 :: u32) = 2 ^ 32 - 1"
  by (simp add: unsigned_minus_1_eq_mask mask_eq_exp_minus_1)

lemma unat_plus_of_nat:
  fixes a :: u32
  assumes "unat a + n < 2 ^ 32"
  shows "unat (a + of_nat n) = unat a + n"
proof -
  have "unat (of_nat n :: u32) = n"
    using assms by (simp add: unat_of_nat)
  then show ?thesis
    using assms by (simp add: unat_word_ariths)
qed

lemma plus_of_nat_eq_iff:
  fixes a :: u32
  assumes "i < 2 ^ 32" and "j < 2 ^ 32"
  shows "a + of_nat i = a + of_nat j \<longleftrightarrow> i = j"
proof -
  have "unat (of_nat i :: u32) = i" and "unat (of_nat j :: u32) = j"
    using assms by (simp_all add: unat_of_nat)
  then show ?thesis by (metis add_left_cancel)
qed

end
