(* ===== verification/CString.thy ===== *)
theory CString
  imports Prelude
begin

text \<open>
  The byte and string routines of the kernel (\<^verbatim>\<open>string.c\<close>) and of the user library
  (\<^verbatim>\<open>ulib.c\<close>), with the \<^verbatim>\<open>rep stos\<close> instructions of \<^verbatim>\<open>x86.h\<close> they use.
  Routines whose meaning depends on how source and destination overlap work on a byte
  memory indexed by 32-bit addresses; routines over separate arrays take an array as the
  function from an offset to the byte there, so \<open>p\<close> advanced by one is
  \<open>\<lambda>i. p (Suc i)\<close>.
\<close>

type_synonym bytemem = "u32 \<Rightarrow> u8"

subsection \<open>memset\<close>

fun stosb :: "bytemem \<Rightarrow> u32 \<Rightarrow> u8 \<Rightarrow> nat \<Rightarrow> bytemem" where
  "stosb m a c 0 = m"
| "stosb m a c (Suc n) = stosb (m(a := c)) (a + 1) c n"

definition put_word :: "bytemem \<Rightarrow> u32 \<Rightarrow> u32 \<Rightarrow> bytemem" where
  "put_word m a w = m(a := ucast w, a + 1 := ucast (drop_bit 8 w),
                      a + 2 := ucast (drop_bit 16 w), a + 3 := ucast (drop_bit 24 w))"

fun stosl :: "bytemem \<Rightarrow> u32 \<Rightarrow> u32 \<Rightarrow> nat \<Rightarrow> bytemem" where
  "stosl m a w 0 = m"
| "stosl m a w (Suc n) = stosl (put_word m a w) (a + 4) w n"

definition memset :: "bytemem \<Rightarrow> u32 \<Rightarrow> u32 \<Rightarrow> u32 \<Rightarrow> bytemem" where
  "memset m dst c n =
     (if dst mod 4 = 0 \<and> n mod 4 = 0 then
        let c = c AND 0xFF in
        stosl m dst (push_bit 24 c OR push_bit 16 c OR push_bit 8 c OR c) (unat (n div 4))
      else stosb m dst (ucast c) (unat n))"

subsection \<open>memmove\<close>

fun copy_up :: "bytemem \<Rightarrow> u32 \<Rightarrow> u32 \<Rightarrow> nat \<Rightarrow> bytemem" where
  "copy_up m d s 0 = m"
| "copy_up m d s (Suc n) = copy_up (m(d := m s)) (d + 1) (s + 1) n"

fun copy_down :: "bytemem \<Rightarrow> u32 \<Rightarrow> u32 \<Rightarrow> nat \<Rightarrow> bytemem" where
  "copy_down m d s 0 = m"
| "copy_down m d s (Suc n) = copy_down (m(d - 1 := m (s - 1))) (d - 1) (s - 1) n"

definition memmove :: "bytemem \<Rightarrow> u32 \<Rightarrow> u32 \<Rightarrow> u32 \<Rightarrow> bytemem" where
  "memmove m d s n =
     (if s < d \<and> s + n > d then copy_down m (d + n) (s + n) (unat n)
      else copy_up m d s (unat n))"

definition memcpy :: "bytemem \<Rightarrow> u32 \<Rightarrow> u32 \<Rightarrow> u32 \<Rightarrow> bytemem" where
  "memcpy m dst src n = memmove m dst src n"

text \<open>The user library's \<^verbatim>\<open>memmove\<close> copies upwards only; its count is an \<^verbatim>\<open>int\<close>.\<close>

definition ulib_memmove :: "bytemem \<Rightarrow> u32 \<Rightarrow> u32 \<Rightarrow> int \<Rightarrow> bytemem" where
  "ulib_memmove m vdst vsrc n = copy_up m vdst vsrc (nat n)"

definition ulib_memset :: "bytemem \<Rightarrow> u32 \<Rightarrow> u32 \<Rightarrow> u32 \<Rightarrow> bytemem" where
  "ulib_memset m dst c n = stosb m dst (ucast c) (unat n)"

subsection \<open>Comparisons and string copies\<close>

fun memcmp :: "(nat \<Rightarrow> u8) \<Rightarrow> (nat \<Rightarrow> u8) \<Rightarrow> nat \<Rightarrow> int" where
  "memcmp s1 s2 0 = 0"
| "memcmp s1 s2 (Suc n) =
     (if s1 0 \<noteq> s2 0 then uint (s1 0) - uint (s2 0)
      else memcmp (\<lambda>i. s1 (Suc i)) (\<lambda>i. s2 (Suc i)) n)"

fun strncmp :: "(nat \<Rightarrow> u8) \<Rightarrow> (nat \<Rightarrow> u8) \<Rightarrow> nat \<Rightarrow> int" where
  "strncmp p q 0 = 0"
| "strncmp p q (Suc n) =
     (if p 0 \<noteq> 0 \<and> p 0 = q 0 then strncmp (\<lambda>i. p (Suc i)) (\<lambda>i. q (Suc i)) n
      else uint (p 0) - uint (q 0))"

text \<open>
  \<open>strncpy_from s t i n\<close> is \<^verbatim>\<open>while(n-- > 0 && (*s++ = *t++) != 0)\<close> with both pointers at index
  \<open>i\<close> and \<open>n\<close> bytes left, followed by the loop \<open>zero_from\<close> over the bytes left after a NUL
  was copied.
\<close>

fun zero_from :: "(nat \<Rightarrow> u8) \<Rightarrow> nat \<Rightarrow> nat \<Rightarrow> (nat \<Rightarrow> u8)" where
  "zero_from s i 0 = s"
| "zero_from s i (Suc n) = zero_from (s(i := 0)) (Suc i) n"

fun strncpy_from :: "(nat \<Rightarrow> u8) \<Rightarrow> (nat \<Rightarrow> u8) \<Rightarrow> nat \<Rightarrow> nat \<Rightarrow> (nat \<Rightarrow> u8)" where
  "strncpy_from s t i 0 = s"
| "strncpy_from s t i (Suc n) =
     (if t i \<noteq> 0 then strncpy_from (s(i := t i)) t (Suc i) n
      else zero_from (s(i := t i)) (Suc i) n)"

definition strncpy :: "(nat \<Rightarrow> u8) \<Rightarrow> (nat \<Rightarrow> u8) \<Rightarrow> int \<Rightarrow> (nat \<Rightarrow> u8)" where
  "strncpy s t n = strncpy_from s t 0 (nat n)"

text \<open>\<open>safestrcpy_from s t i n\<close> is the loop \<^verbatim>\<open>while(--n > 0 && (*s++ = *t++) != 0)\<close> and the
  store of the final NUL, with \<open>n\<close> the value before the decrement.  After a NUL was copied
  \<^verbatim>\<open>s\<close> has moved past it, so the final store goes to the next byte.\<close>

fun safestrcpy_from :: "(nat \<Rightarrow> u8) \<Rightarrow> (nat \<Rightarrow> u8) \<Rightarrow> nat \<Rightarrow> nat \<Rightarrow> (nat \<Rightarrow> u8)" where
  "safestrcpy_from s t i 0 = s(i := 0)"
| "safestrcpy_from s t i (Suc 0) = s(i := 0)"
| "safestrcpy_from s t i (Suc (Suc n)) =
     (if t i \<noteq> 0 then safestrcpy_from (s(i := t i)) t (Suc i) (Suc n)
      else s(i := t i, Suc i := 0))"

definition safestrcpy :: "(nat \<Rightarrow> u8) \<Rightarrow> (nat \<Rightarrow> u8) \<Rightarrow> int \<Rightarrow> (nat \<Rightarrow> u8)" where
  "safestrcpy s t n = (if n \<le> 0 then s else safestrcpy_from s t 0 (nat n))"

partial_function (option) strlen_from :: "(nat \<Rightarrow> u8) \<Rightarrow> nat \<Rightarrow> nat option" where
  "strlen_from s n = (if s n \<noteq> 0 then strlen_from s (Suc n) else Some n)"

definition strlen :: "(nat \<Rightarrow> u8) \<Rightarrow> nat option" where
  "strlen s = strlen_from s 0"

partial_function (option) strcpy_from :: "(nat \<Rightarrow> u8) \<Rightarrow> (nat \<Rightarrow> u8) \<Rightarrow> nat \<Rightarrow> (nat \<Rightarrow> u8) option" where
  "strcpy_from s t i =
     (if t i \<noteq> 0 then strcpy_from (s(i := t i)) t (Suc i) else Some (s(i := t i)))"

definition strcpy :: "(nat \<Rightarrow> u8) \<Rightarrow> (nat \<Rightarrow> u8) \<Rightarrow> (nat \<Rightarrow> u8) option" where
  "strcpy s t = strcpy_from s t 0"

partial_function (option) strcmp :: "(nat \<Rightarrow> u8) \<Rightarrow> (nat \<Rightarrow> u8) \<Rightarrow> int option" where
  "strcmp p q =
     (if p 0 \<noteq> 0 \<and> p 0 = q 0 then strcmp (\<lambda>i. p (Suc i)) (\<lambda>i. q (Suc i))
      else Some (uint (p 0) - uint (q 0)))"

text \<open>\<^verbatim>\<open>strchr\<close> returns a pointer or 0: here the offset of the match, or no match.\<close>

partial_function (option) strchr_from :: "(nat \<Rightarrow> u8) \<Rightarrow> u8 \<Rightarrow> nat \<Rightarrow> nat option option" where
  "strchr_from s c i =
     (if s i = 0 then Some None else if s i = c then Some (Some i) else strchr_from s c (Suc i))"

definition strchr :: "(nat \<Rightarrow> u8) \<Rightarrow> u8 \<Rightarrow> nat option option" where
  "strchr s c = strchr_from s c 0"

text \<open>\<open>'0'\<close> is 48 and \<open>'9'\<close> is 57; \<^verbatim>\<open>char\<close> is signed, and no byte from 128 up is in the range
  under either reading.\<close>

partial_function (option) atoi_from :: "(nat \<Rightarrow> u8) \<Rightarrow> nat \<Rightarrow> int \<Rightarrow> int option" where
  "atoi_from s i n =
     (if 48 \<le> s i \<and> s i \<le> 57 then atoi_from s (Suc i) (n * 10 + uint (s i) - 48) else Some n)"

definition atoi :: "(nat \<Rightarrow> u8) \<Rightarrow> int option" where
  "atoi s = atoi_from s 0 0"

subsection \<open>What the memory routines do to each byte\<close>

lemma unat_minus_Suc:
  fixes x a :: u32
  assumes "x \<noteq> a"
  shows "unat (x - a) = Suc (unat (x - (a + 1)))"
proof -
  have "x - a = 1 + (x - (a + 1))" by simp
  moreover have "1 + (x - (a + 1)) \<noteq> 0" using assms by (simp add: algebra_simps)
  ultimately show ?thesis by (metis unatSuc)
qed

lemma stosb_apply:
  "n \<le> 2 ^ 32 \<Longrightarrow> stosb m a c n x = (if unat (x - a) < n then c else m x)"
proof (induction n arbitrary: m a)
  case 0
  show ?case by simp
next
  case (Suc n)
  show ?case
  proof (cases "x = a")
    case True
    with Suc show ?thesis by simp
  next
    case False
    with Suc show ?thesis by (simp add: unat_minus_Suc)
  qed
qed

lemma stosb_add: "stosb m a c (k + n) = stosb (stosb m a c k) (a + of_nat k) c n"
  by (induction k arbitrary: m a) (simp_all add: add.assoc)

lemma bytes_of_repeated:
  fixes c :: u32
  defines "w \<equiv> push_bit 24 (c AND 0xFF) OR push_bit 16 (c AND 0xFF) OR push_bit 8 (c AND 0xFF)
                OR (c AND 0xFF)"
  shows "(ucast w :: u8) = ucast c" and "(ucast (drop_bit 8 w) :: u8) = ucast c"
    and "(ucast (drop_bit 16 w) :: u8) = ucast c" and "(ucast (drop_bit 24 w) :: u8) = ucast c"
proof -
  have "c AND 0xFF = take_bit 8 c"
    by (simp add: take_bit_eq_mask mask_numeral)
  then have w: "w = push_bit 24 (take_bit 8 c) OR push_bit 16 (take_bit 8 c)
                   OR push_bit 8 (take_bit 8 c) OR take_bit 8 c"
    by (simp add: w_def)
  show "(ucast w :: u8) = ucast c" and "(ucast (drop_bit 8 w) :: u8) = ucast c"
    and "(ucast (drop_bit 16 w) :: u8) = ucast c" and "(ucast (drop_bit 24 w) :: u8) = ucast c"
    unfolding w by (rule bit_word_eqI, force simp: bit_simps)+
qed

lemma stosl_repeated:
  assumes "(ucast w :: u8) = b" and "(ucast (drop_bit 8 w) :: u8) = b"
    and "(ucast (drop_bit 16 w) :: u8) = b" and "(ucast (drop_bit 24 w) :: u8) = b"
  shows "stosl m a w n = stosb m a b (4 * n)"
proof (induction n arbitrary: m a)
  case 0
  show ?case by simp
next
  case (Suc n)
  have "put_word m a w = stosb m a b 4"
    using assms by (simp add: put_word_def numeral_eq_Suc add.assoc)
  moreover have "stosb m a b (4 * Suc n) = stosb (stosb m a b 4) (a + 4) b (4 * n)"
    using stosb_add [of m a b 4 "4 * n"] by simp
  ultimately show ?case using Suc by simp
qed

lemma unat_div_mult_4:
  fixes n :: u32
  assumes "n mod 4 = 0"
  shows "4 * unat (n div 4) = unat n"
proof -
  have "unat n mod 4 = 0"
    using assms unat_mod [of n 4] by simp
  then have "4 * (unat n div 4) = unat n" by presburger
  then show ?thesis by (simp add: unat_div)
qed

lemma memset_apply:
  "memset m dst c n x = (if unat (x - dst) < unat n then ucast c else m x)"
proof -
  have "unat n \<le> 2 ^ 32" using unat_u32_less [of n] by simp
  moreover have "memset m dst c n = stosb m dst (ucast c) (unat n)"
    unfolding memset_def Let_def stosl_repeated [OF bytes_of_repeated]
    by (simp add: unat_div_mult_4)
  ultimately show ?thesis by (simp add: stosb_apply)
qed

lemma copy_up_apply:
  "d = s \<or> n \<le> unat (d - s) \<Longrightarrow> n \<le> 2 ^ 32 \<Longrightarrow>
   copy_up m d s n x = (if unat (x - d) < n then m (s + (x - d)) else m x)"
proof (induction n arbitrary: m d s)
  case 0
  show ?case by simp
next
  case (Suc n)
  have IH: "copy_up m d s (Suc n) x =
      (if unat (x - (d + 1)) < n then (m(d := m s)) (s + 1 + (x - (d + 1))) else (m(d := m s)) x)"
    using Suc.prems by (subst copy_up.simps, subst Suc.IH) auto
  show ?case
  proof (cases "x = d")
    case True
    then have "\<not> unat (x - (d + 1)) < n"
      using Suc.prems by (simp add: unat_minus_1_u32)
    with IH True show ?thesis by simp
  next
    case False
    have "s + (x - d) \<noteq> d" if "unat (x - d) < Suc n"
    proof
      assume "s + (x - d) = d"
      then have "x - d = d - s" by (simp add: algebra_simps)
      with that Suc.prems False show False by auto
    qed
    moreover have "s + 1 + (x - (d + 1)) = s + (x - d)" by simp
    ultimately show ?thesis
      using IH False by (simp add: unat_minus_Suc)
  qed
qed

lemma copy_down_apply:
  "d = s \<or> n \<le> unat (s - d) \<Longrightarrow> n \<le> 2 ^ 32 \<Longrightarrow>
   copy_down m d s n x = (if unat (d - 1 - x) < n then m (s - (d - x)) else m x)"
proof (induction n arbitrary: m d s)
  case 0
  show ?case by simp
next
  case (Suc n)
  have IH: "copy_down m d s (Suc n) x =
      (if unat (d - 1 - 1 - x) < n then (m(d - 1 := m (s - 1))) (s - 1 - (d - 1 - x))
       else (m(d - 1 := m (s - 1))) x)"
    using Suc.prems by (subst copy_down.simps, subst Suc.IH) auto
  show ?case
  proof (cases "x = d - 1")
    case True
    then have "\<not> unat (d - 1 - 1 - x) < n"
      using Suc.prems by (simp add: unat_minus_1_u32)
    with IH True show ?thesis by simp
  next
    case False
    then have off: "unat (d - 1 - x) = Suc (unat (d - 1 - 1 - x))"
      using unat_minus_Suc [of "d - 1" x] by (simp add: algebra_simps)
    have "s - (d - x) \<noteq> d - 1" if "unat (d - 1 - x) < Suc n"
    proof
      assume "s - (d - x) = d - 1"
      then have "d - 1 - x = s - d" by (simp add: algebra_simps)
      with that Suc.prems False show False by auto
    qed
    moreover have "s - 1 - (d - 1 - x) = s - (d - x)" by simp
    moreover have "m (s + (x - d)) = m (s - (d - x))"
      by (rule arg_cong [where f = m]) simp
    ultimately show ?thesis
      using IH False off by auto
  qed
qed

text \<open>The kernel's \<^verbatim>\<open>memmove\<close> copies the bytes the source held before the call, whichever
  way source and destination overlap, and changes nothing else, when neither region wraps
  around the address space.
\<close>

theorem memmove_copies:
  assumes "unat s + unat n < 2 ^ 32" and "unat d + unat n \<le> 2 ^ 32"
  shows "memmove m d s n x = (if unat (x - d) < unat n then m (s + (x - d)) else m x)"
proof (cases "s < d \<and> s + n > d")
  case True
  have n: "unat n \<le> unat (s - d)"
    using True assms by (simp add: unat_sub_if' word_less_nat_alt)
  have "memmove m d s n x = copy_down m (d + n) (s + n) (unat n) x"
    using True by (simp add: memmove_def)
  also have "\<dots> = (if unat (d + n - 1 - x) < unat n then m (s + n - (d + n - x)) else m x)"
    using n assms by (intro copy_down_apply) auto
  also have "s + n - (d + n - x) = s + (x - d)" by simp
  also have "unat (d + n - 1 - x) < unat n \<longleftrightarrow> unat (x - d) < unat n"
  proof -
    have "d + n - 1 - x = n - 1 - (x - d)" by simp
    moreover have "unat (n - 1 - (x - d)) < unat n \<longleftrightarrow> unat (x - d) < unat n"
    proof (cases "n = 0")
      case False
      then have "unat (n - 1) = unat n - 1" and "0 < unat n"
        by (simp_all add: unat_minus_one unat_gt_0)
      then show ?thesis
        using unat_u32_less [of "x - d"] by (auto simp: unat_sub_if' [of "n - 1" "x - d"])
    qed simp
    ultimately show ?thesis by metis
  qed
  finally show ?thesis .
next
  case False
  have "d = s \<or> unat n \<le> unat (d - s)"
  proof (cases "d = s")
    case True then show ?thesis ..
  next
    case neq: False
    have "unat (s + n) = unat s + unat n"
      using assms by (simp add: unat_word_ariths)
    moreover have "unat d \<noteq> unat s" using neq unsigned_word_eqI by metis
    ultimately have "unat n \<le> unat (d - s)"
      using False assms
      by (auto simp: unat_sub_if' word_less_nat_alt word_le_nat_alt not_less)
    then show ?thesis ..
  qed
  then have "copy_up m d s (unat n) x = (if unat (x - d) < unat n then m (s + (x - d)) else m x)"
    using assms by (intro copy_up_apply) auto
  with False show ?thesis by (auto simp: memmove_def)
qed

theorem memmove_copies_witness:
  "memmove (\<lambda>a. ucast a) 12 10 4 13 = (11 :: u8)"
  using memmove_copies [of 10 4 12 "\<lambda>a. ucast a" 13] by simp

subsection \<open>Strings\<close>

text \<open>\<open>cstr s xs\<close>: the array \<open>s\<close> starts with the string \<open>xs\<close>, which a NUL ends.\<close>

definition cstr :: "(nat \<Rightarrow> u8) \<Rightarrow> u8 list \<Rightarrow> bool" where
  "cstr s xs \<longleftrightarrow> (\<forall>i < length xs. s i = xs ! i) \<and> 0 \<notin> set xs \<and> s (length xs) = 0"

lemma cstr_Nil [simp]: "cstr s [] \<longleftrightarrow> s 0 = 0"
  by (simp add: cstr_def)

lemma cstr_Cons [simp]:
  "cstr s (x # xs) \<longleftrightarrow> s 0 = x \<and> x \<noteq> 0 \<and> cstr (\<lambda>i. s (Suc i)) xs"
  by (auto simp: cstr_def less_Suc_eq_0_disj)

lemma cstr_nth: "cstr s xs \<Longrightarrow> i < length xs \<Longrightarrow> s i = xs ! i \<and> s i \<noteq> 0"
  by (metis cstr_def nth_mem)

lemma cstr_end: "cstr s xs \<Longrightarrow> s (length xs) = 0"
  by (simp add: cstr_def)

lemma cstr_unique: "cstr s xs \<Longrightarrow> cstr s ys \<Longrightarrow> xs = ys"
proof (induction xs arbitrary: s ys)
  case Nil
  then show ?case by (cases ys) auto
next
  case (Cons x xs)
  then show ?case by (cases ys) auto
qed

lemma strlen_from_cstr:
  "cstr s xs \<Longrightarrow> n \<le> length xs \<Longrightarrow> strlen_from s n = Some (length xs)"
proof (induction "length xs - n" arbitrary: n)
  case 0
  then have "n = length xs" by simp
  with 0 show ?case by (subst strlen_from.simps) (metis cstr_end)
next
  case (Suc k)
  then have "n < length xs" by linarith
  with Suc.prems have "s n \<noteq> 0" using cstr_nth by blast
  with Suc show ?case by (subst strlen_from.simps) simp
qed

lemma strlen_cstr: "cstr s xs \<Longrightarrow> strlen s = Some (length xs)"
  by (simp add: strlen_def strlen_from_cstr)

lemma strncmp_cstr:
  "cstr p xs \<Longrightarrow> cstr q ys \<Longrightarrow> strncmp p q n = 0 \<longleftrightarrow> take n xs = take n ys"
proof (induction n arbitrary: p q xs ys)
  case 0
  show ?case by simp
next
  case (Suc n)
  show ?case
    by (cases xs; cases ys) (use Suc in \<open>auto simp: uint_0_iff uint_eq_iff\<close>)
qed

lemma strcmp_cstr:
  "cstr p xs \<Longrightarrow> cstr q ys \<Longrightarrow> \<exists>r. strcmp p q = Some r \<and> (r = 0 \<longleftrightarrow> xs = ys)"
proof (induction xs arbitrary: p q ys)
  case Nil
  then show ?case by (cases ys) (auto simp: strcmp.simps uint_0_iff)
next
  case (Cons x xs)
  then show ?case
    by (cases ys) (auto simp: strcmp.simps [of p q] uint_0_iff uint_eq_iff)
qed

lemma zero_from_apply: "zero_from s i n j = (if i \<le> j \<and> j < i + n then 0 else s j)"
  by (induction n arbitrary: s i) auto

lemma strncpy_from_apply:
  "cstr (\<lambda>k. t (i + k)) xs \<Longrightarrow>
   strncpy_from s t i n j =
     (if i \<le> j \<and> j < i + n then (if j - i < length xs then xs ! (j - i) else 0) else s j)"
proof (induction n arbitrary: s i xs)
  case 0
  then show ?case by auto
next
  case (Suc n)
  show ?case
  proof (cases xs)
    case Nil
    with Suc.prems show ?thesis by (auto simp: zero_from_apply)
  next
    case (Cons x zs)
    with Suc.prems have t: "t i \<noteq> 0" "xs = t i # zs" "cstr (\<lambda>k. t (Suc i + k)) zs" by auto
    have "strncpy_from s t i (Suc n) j = strncpy_from (s(i := t i)) t (Suc i) n j"
      using t by simp
    also have "\<dots> = (if Suc i \<le> j \<and> j < Suc i + n
        then (if j - Suc i < length zs then zs ! (j - Suc i) else 0) else (s(i := t i)) j)"
      by (rule Suc.IH [OF t(3)])
    also have "\<dots> = (if i \<le> j \<and> j < i + Suc n
        then (if j - i < length xs then xs ! (j - i) else 0) else s j)"
    proof (cases "Suc i \<le> j")
      case True
      then have "j - i = Suc (j - Suc i)" by simp
      with True show ?thesis unfolding t(2) by simp
    next
      case le: False
      show ?thesis
      proof (cases "j = i")
        case True
        then show ?thesis by (simp add: t(2))
      next
        case False
        with le have nle: "\<not> i \<le> j" by simp
        show ?thesis by (simp only: le nle False fun_upd_apply if_False simp_thms)
      qed
    qed
    finally show ?thesis .
  qed
qed

lemma strncmp_cong:
  "(\<And>i. i < n \<Longrightarrow> q i = q' i) \<Longrightarrow> strncmp p q n = strncmp p q' n"
proof (induction n arbitrary: p q q')
  case 0
  show ?case by simp
next
  case (Suc n)
  have eq: "strncmp (\<lambda>i. p (Suc i)) (\<lambda>i. q (Suc i)) n = strncmp (\<lambda>i. p (Suc i)) (\<lambda>i. q' (Suc i)) n"
    by (rule Suc.IH) (rule Suc.prems, simp)
  have "q 0 = q' 0" by (rule Suc.prems) simp
  with eq show ?case by (simp only: strncmp.simps)
qed

lemma strncpy_apply:
  "cstr t xs \<Longrightarrow>
   strncpy s t (int n) i = (if i < n then (if i < length xs then xs ! i else 0) else s i)"
  using strncpy_from_apply [of t 0 xs s n i] by (simp add: strncpy_def)

lemma cstr_padded: "0 \<notin> set xs \<Longrightarrow> cstr (\<lambda>i. if i < length xs then xs ! i else 0) xs"
  by (simp add: cstr_def)

text \<open>\<^verbatim>\<open>strncpy\<close> of a string leaves in the first \<^verbatim>\<open>n\<close> bytes the string cut at \<^verbatim>\<open>n\<close> and padded
  with NULs, touches no byte from \<^verbatim>\<open>n\<close> on, and \<^verbatim>\<open>strncmp\<close> over the same \<^verbatim>\<open>n\<close> finds the copy equal
  to exactly the strings that agree with the source in their first \<^verbatim>\<open>n\<close> bytes, although the copy
  of a string of \<^verbatim>\<open>n\<close> bytes or more has no NUL (this is how directory names are stored).
\<close>

theorem strncpy_strncmp:
  assumes t: "cstr t xs" and q: "cstr q ys"
  shows "(\<forall>i. strncpy s t (int n) i =
              (if i < n then (if i < length xs then xs ! i else 0) else s i)) \<and>
         (strncmp q (strncpy s t (int n)) n = 0 \<longleftrightarrow> take n ys = take n xs)"
proof -
  let ?pad = "\<lambda>i. if i < length xs then xs ! i else 0"
  have "strncmp q (strncpy s t (int n)) n = strncmp q ?pad n"
    by (rule strncmp_cong) (simp add: strncpy_apply [OF t])
  moreover have "cstr ?pad xs"
    using t by (intro cstr_padded) (simp add: cstr_def)
  ultimately have "strncmp q (strncpy s t (int n)) n = 0 \<longleftrightarrow> take n ys = take n xs"
    using strncmp_cstr [OF q] by simp
  then show ?thesis by (simp only: strncpy_apply [OF t] simp_thms)
qed

theorem strncpy_strncmp_witness:
  "strncmp ((!) [97, 98, 99, 0]) (strncpy (\<lambda>_. 7) ((!) [97, 98, 100, 0]) 2) 2 = 0"
  using strncpy_strncmp [of "(!) [97, 98, 100, 0]" "[97, 98, 100]" "(!) [97, 98, 99, 0]"
      "[97, 98, 99]" "\<lambda>_. 7" 2] by simp

lemma safestrcpy_from_apply:
  "cstr (\<lambda>k. t (i + k)) xs \<Longrightarrow> 0 < n \<Longrightarrow>
   cstr (\<lambda>k. safestrcpy_from s t i n (i + k)) (take (n - 1) xs) \<and>
   (\<forall>j. j < i \<or> i + n \<le> j \<longrightarrow> safestrcpy_from s t i n j = s j)"
proof (induction s t i n arbitrary: xs rule: safestrcpy_from.induct)
  case (3 s t i n)
  show ?case
  proof (cases xs)
    case Nil
    with "3.prems" show ?thesis by auto
  next
    case (Cons x zs)
    with "3.prems" have t: "t i \<noteq> 0" "xs = t i # zs" "cstr (\<lambda>k. t (Suc i + k)) zs" by auto
    define r where "r = safestrcpy_from (s(i := t i)) t (Suc i) (Suc n)"
    have IH: "cstr (\<lambda>k. r (Suc i + k)) (take n zs)"
        "\<forall>j. j < Suc i \<or> Suc i + Suc n \<le> j \<longrightarrow> r j = (s(i := t i)) j"
      using "3.IH" [OF t(1) t(3)] unfolding r_def by (simp_all add: fun_upd_def)
    moreover have "safestrcpy_from s t i (Suc (Suc n)) = r"
      using t by (simp add: r_def)
    ultimately show ?thesis using t by auto
  qed
qed simp_all

text \<open>\<^verbatim>\<open>safestrcpy\<close> with a positive count always leaves a NUL-terminated string, the source cut
  at \<^verbatim>\<open>n - 1\<close> bytes, and writes no byte from \<^verbatim>\<open>n\<close> on.
\<close>

theorem safestrcpy_terminates_string:
  assumes "cstr t xs" and "0 < n"
  shows "cstr (safestrcpy s t (int n)) (take (n - 1) xs) \<and>
         (\<forall>j \<ge> n. safestrcpy s t (int n) j = s j)"
  using safestrcpy_from_apply [of t 0 xs n s] assms by (simp add: safestrcpy_def)

theorem safestrcpy_terminates_string_witness:
  "cstr (safestrcpy (\<lambda>_. 7) ((!) [97, 98, 99, 0]) 3) [97, 98]"
  using safestrcpy_terminates_string [of "(!) [97, 98, 99, 0]" "[97, 98, 99]" 3 "\<lambda>_. 7"] by simp

subsection \<open>Numbers\<close>

text \<open>\<open>dec_val ds\<close>: the number whose decimal digits, most significant first, are the bytes \<open>ds\<close>.\<close>

definition dec_val :: "u8 list \<Rightarrow> int" where
  "dec_val ds = foldl (\<lambda>n d. n * 10 + (uint d - 48)) 0 ds"

lemma atoi_from_digits:
  "(\<forall>k < length ds. s (i + k) = ds ! k) \<Longrightarrow> (\<forall>d \<in> set ds. 48 \<le> d \<and> d \<le> 57) \<Longrightarrow>
   \<not> (48 \<le> s (i + length ds) \<and> s (i + length ds) \<le> 57) \<Longrightarrow>
   atoi_from s i n = Some (foldl (\<lambda>n d. n * 10 + (uint d - 48)) n ds)"
proof (induction ds arbitrary: i n)
  case Nil
  then show ?case by (subst atoi_from.simps) auto
next
  case (Cons d ds)
  have "s i = d" using Cons.prems(1) by force
  moreover have "\<forall>k < length ds. s (Suc i + k) = ds ! k" using Cons.prems(1) by force
  moreover have "48 \<le> d \<and> d \<le> 57" using Cons.prems(2) by simp
  ultimately show ?case
    using Cons.IH [of "Suc i" "n * 10 + uint d - 48"] Cons.prems
    by (subst atoi_from.simps) (simp add: algebra_simps)
qed

lemma atoi_digits:
  assumes "cstr s (ds @ zs)" and "\<forall>d \<in> set ds. 48 \<le> d \<and> d \<le> 57"
    and "zs = [] \<or> \<not> (48 \<le> hd zs \<and> hd zs \<le> 57)"
  shows "atoi s = Some (dec_val ds)"
proof -
  have "s (length ds) = (if zs = [] then 0 else hd zs)"
    using assms(1) by (cases zs) (auto simp: cstr_def nth_append)
  moreover have "\<forall>k < length ds. s (0 + k) = ds ! k"
    using assms(1) by (simp add: cstr_def nth_append)
  ultimately show ?thesis
    using assms(2,3) unfolding atoi_def dec_val_def by (intro atoi_from_digits) (auto split: if_splits)
qed

end
