(* ===== verification/Printf.thy ===== *)
theory Printf
  imports CString
begin

text \<open>
  Formatted output: the user library's \<^verbatim>\<open>printint\<close> and \<^verbatim>\<open>printf\<close> (\<^verbatim>\<open>printf.c\<close>) and the
  kernel's \<^verbatim>\<open>printint\<close> and \<^verbatim>\<open>cprintf\<close> (\<^verbatim>\<open>console.c\<close>), as the list of bytes they hand to
  \<^verbatim>\<open>putc\<close> or \<^verbatim>\<open>consputc\<close>.  The variable arguments are the stack words after \<^verbatim>\<open>fmt\<close>, a function
  from their position; strings are read from a byte memory.
\<close>

subsection \<open>Integers\<close>

text \<open>\<^verbatim>\<open>do { buf[i++] = digits[x % base]; } while((x /= base) != 0)\<close>, as the list of digit
  values in the order they are stored.  The code calls it with base 10 and 16 only; under base
  0 or 1 the loop would trap or not end, and the guard stops it here.\<close>

function digit_loop :: "nat \<Rightarrow> nat \<Rightarrow> nat list" where
  "digit_loop base x =
     x mod base # (if 2 \<le> base \<and> x div base \<noteq> 0 then digit_loop base (x div base) else [])"
  by pat_completeness auto
termination
  by (relation "measure snd") (auto intro!: div_less_dividend intro: gr0I)

declare digit_loop.simps [simp del]

definition udigit :: "nat \<Rightarrow> u8" where
  "udigit d = (if d < 10 then of_nat (48 + d) else of_nat (55 + d))"

definition kdigit :: "nat \<Rightarrow> u8" where
  "kdigit d = (if d < 10 then of_nat (48 + d) else of_nat (87 + d))"

text \<open>\<^verbatim>\<open>printint\<close> of the user library: the digits \<^verbatim>\<open>0123456789ABCDEF\<close>, a minus sign (45) when
  \<^verbatim>\<open>sgn\<close> is set and the argument negative.  \<open>printint_buf\<close> is the content of \<^verbatim>\<open>buf\<close> before it
  is written out backwards.\<close>

definition printint_buf :: "u32 \<Rightarrow> nat \<Rightarrow> bool \<Rightarrow> u8 list" where
  "printint_buf xx base sg =
     (let neg = sg \<and> sint xx < 0;
          x = (if neg then - xx else xx)
      in map udigit (digit_loop base (unat x)) @ (if neg then [45] else []))"

definition printint :: "u32 \<Rightarrow> nat \<Rightarrow> bool \<Rightarrow> u8 list" where
  "printint xx base sg = rev (printint_buf xx base sg)"

text \<open>The kernel's copy has the digits \<^verbatim>\<open>0123456789abcdef\<close> and reuses \<^verbatim>\<open>sign\<close> as the flag.\<close>

definition kprintint_buf :: "u32 \<Rightarrow> nat \<Rightarrow> bool \<Rightarrow> u8 list" where
  "kprintint_buf xx base sign =
     (let sign' = sign \<and> sint xx < 0;
          x = (if sign' then - xx else xx)
      in map kdigit (digit_loop base (unat x)) @ (if sign' then [45] else []))"

definition kprintint :: "u32 \<Rightarrow> nat \<Rightarrow> bool \<Rightarrow> u8 list" where
  "kprintint xx base sign = rev (kprintint_buf xx base sign)"

subsection \<open>Formats\<close>

partial_function (option) emit_str :: "bytemem \<Rightarrow> u32 \<Rightarrow> u8 list option" where
  "emit_str m s =
     (if m s \<noteq> 0 then Option.bind (emit_str m (s + 1)) (\<lambda>t. Some (m s # t)) else Some [])"

text \<open>The string a null pointer prints as: \<^verbatim>\<open>(null)\<close>.\<close>

definition null_str :: "u8 list" where
  "null_str = [40, 110, 117, 108, 108, 41]"

definition put_str :: "bytemem \<Rightarrow> u32 \<Rightarrow> u8 list option" where
  "put_str m s = (if s = 0 then Some null_str else emit_str m s)"

text \<open>
  \<^verbatim>\<open>printf\<close> is a two-state machine over the bytes of the format: \<open>False\<close> is state 0 and
  \<open>True\<close> the state after a percent sign (37).  100 is \<^verbatim>\<open>d\<close>, 120 \<^verbatim>\<open>x\<close>, 112 \<^verbatim>\<open>p\<close>, 115 \<^verbatim>\<open>s\<close>
  and 99 \<^verbatim>\<open>c\<close>.  \<open>ap\<close> counts the arguments consumed.
\<close>

fun printf_from :: "bytemem \<Rightarrow> (nat \<Rightarrow> u32) \<Rightarrow> u8 list \<Rightarrow> bool \<Rightarrow> nat \<Rightarrow> u8 list option" where
  "printf_from m args [] st ap = Some []"
| "printf_from m args (c # fmt) False ap =
     (if c = 37 then printf_from m args fmt True ap
      else map_option ((#) c) (printf_from m args fmt False ap))"
| "printf_from m args (c # fmt) True ap =
     (if c = 100 then
        map_option ((@) (printint (args ap) 10 True)) (printf_from m args fmt False (Suc ap))
      else if c = 120 \<or> c = 112 then
        map_option ((@) (printint (args ap) 16 False)) (printf_from m args fmt False (Suc ap))
      else if c = 115 then
        Option.bind (put_str m (args ap))
          (\<lambda>t. map_option ((@) t) (printf_from m args fmt False (Suc ap)))
      else if c = 99 then
        map_option ((#) (ucast (args ap))) (printf_from m args fmt False (Suc ap))
      else if c = 37 then map_option ((#) c) (printf_from m args fmt False ap)
      else map_option (\<lambda>out. 37 # c # out) (printf_from m args fmt False ap))"

definition printf :: "bytemem \<Rightarrow> (nat \<Rightarrow> u32) \<Rightarrow> u8 list \<Rightarrow> u8 list option" where
  "printf m args fmt = printf_from m args fmt False 0"

text \<open>
  \<^verbatim>\<open>cprintf\<close> looks one byte ahead instead: after a percent sign it takes the next byte at
  once and stops if the format ends there.  It knows no \<^verbatim>\<open>%c\<close>.
\<close>

fun cprintf_from :: "bytemem \<Rightarrow> (nat \<Rightarrow> u32) \<Rightarrow> u8 list \<Rightarrow> nat \<Rightarrow> u8 list option" where
  "cprintf_from m args [] ap = Some []"
| "cprintf_from m args (c # fmt) ap =
     (if c \<noteq> 37 then map_option ((#) c) (cprintf_from m args fmt ap)
      else (case fmt of
        [] \<Rightarrow> Some []
      | c # fmt \<Rightarrow>
          if c = 100 then
            map_option ((@) (kprintint (args ap) 10 True)) (cprintf_from m args fmt (Suc ap))
          else if c = 120 \<or> c = 112 then
            map_option ((@) (kprintint (args ap) 16 False)) (cprintf_from m args fmt (Suc ap))
          else if c = 115 then
            Option.bind (put_str m (args ap))
              (\<lambda>t. map_option ((@) t) (cprintf_from m args fmt (Suc ap)))
          else if c = 37 then map_option ((#) 37) (cprintf_from m args fmt ap)
          else map_option (\<lambda>out. 37 # c # out) (cprintf_from m args fmt ap)))"

definition cprintf :: "bytemem \<Rightarrow> (nat \<Rightarrow> u32) \<Rightarrow> u8 list \<Rightarrow> u8 list option" where
  "cprintf m args fmt = cprintf_from m args fmt 0"

subsection \<open>The digit loop\<close>

lemma digit_loop_less: "2 \<le> base \<Longrightarrow> d \<in> set (digit_loop base x) \<Longrightarrow> d < base"
proof (induction base x rule: digit_loop.induct)
  case (1 base x)
  from "1.prems"(2) show ?case
    by (subst (asm) digit_loop.simps) (use 1 in \<open>auto split: if_splits\<close>)
qed

lemma digit_loop_ne [simp]: "digit_loop base x \<noteq> []"
  by (subst digit_loop.simps) simp

lemma digit_loop_value:
  "2 \<le> base \<Longrightarrow> foldr (\<lambda>d n. n * base + d) (digit_loop base x) 0 = x"
proof (induction base x rule: digit_loop.induct)
  case (1 base x)
  show ?case
  proof (cases "x div base = 0")
    case True
    with "1.prems" have "x mod base = x" by (simp add: div_eq_0_iff)
    with True show ?thesis by (subst digit_loop.simps) simp
  next
    case False
    with 1 show ?thesis by (subst digit_loop.simps) simp
  qed
qed

lemma digit_loop_length:
  "2 \<le> base \<Longrightarrow> x < base ^ Suc k \<Longrightarrow> length (digit_loop base x) \<le> Suc k"
proof (induction k arbitrary: x)
  case 0
  then show ?case by (subst digit_loop.simps) simp
next
  case (Suc k)
  then have "x div base < base ^ Suc k"
    by (simp add: less_mult_imp_div_less mult.commute)
  with Suc have "length (digit_loop base (x div base)) \<le> Suc k" by blast
  then show ?case by (subst digit_loop.simps) simp
qed

lemma sint_u32_range: "- (2 ^ 31) \<le> sint (x :: u32) \<and> sint x < 2 ^ 31"
  using sint_range_size [of x] by (simp add: word_size)

lemma unat_neg_sint: "sint (xx :: u32) < 0 \<Longrightarrow> int (unat (- xx)) = - sint xx"
proof -
  assume neg: "sint xx < 0"
  have "uint (word_of_int (- sint xx) :: u32) = (- sint xx) mod 2 ^ 32"
    by (subst uint_word_of_int) simp
  also have "(word_of_int (- sint xx) :: u32) = - xx" by simp
  finally have "uint (- xx) = - sint xx"
    using neg sint_u32_range [of xx] by (simp add: mod_pos_pos_trivial)
  then show ?thesis by simp
qed

lemma unat_nonneg_sint: "0 \<le> sint (xx :: u32) \<Longrightarrow> int (unat xx) = sint xx"
  using sint_u32_range [of xx] by (simp add: uint_sint take_bit_eq_mod)

lemma udigit_range:
  assumes "d < 10"
  shows "48 \<le> udigit d \<and> udigit d \<le> 57 \<and> uint (udigit d) = 48 + int d"
proof -
  have "unat (of_nat (48 + d) :: u8) = 48 + d"
    using assms by (intro unat_of_nat_less) simp
  then have u: "unat (udigit d) = 48 + d" using assms by (simp add: udigit_def)
  have "int (unat (udigit d)) = 48 + int d" by (simp only: u of_nat_add of_nat_numeral)
  then have "uint (udigit d) = 48 + int d" by simp
  moreover have "48 \<le> udigit d \<and> udigit d \<le> 57"
    unfolding word_le_nat_alt u using assms by simp
  ultimately show ?thesis by simp
qed

text \<open>\<open>decimal n\<close>: what the two \<^verbatim>\<open>printint\<close>s write for the number \<open>n\<close> in base 10.\<close>

definition decimal :: "nat \<Rightarrow> u8 list" where
  "decimal n = rev (map udigit (digit_loop 10 n))"

lemma decimal_digits: "d \<in> set (decimal n) \<Longrightarrow> 48 \<le> d \<and> d \<le> 57"
  using digit_loop_less [of 10 _ n] udigit_range by (auto simp: decimal_def)

lemma dec_val_decimal: "dec_val (decimal n) = int n"
proof -
  have "foldr (\<lambda>d n. n * 10 + (uint (udigit d) - 48)) ds 0 = int (foldr (\<lambda>d n. n * 10 + d) ds 0)"
    if "\<forall>d \<in> set ds. d < 10" for ds
    using that by (induction ds) (simp_all add: udigit_range)
  then have "foldr (\<lambda>d n. n * 10 + (uint (udigit d) - 48)) (digit_loop 10 n) 0 = int n"
    using digit_loop_less [of 10 _ n] digit_loop_value [of 10 n] by simp
  then show ?thesis
    by (simp add: dec_val_def decimal_def foldl_conv_foldr foldr_map comp_def)
qed

lemma kdigit_dec: "d < 10 \<Longrightarrow> kdigit d = udigit d"
  by (simp add: kdigit_def udigit_def)

lemma printint_decimal:
  "printint xx 10 True =
     (if sint xx < 0 then 45 # decimal (nat (- sint xx)) else decimal (nat (sint xx)))"
proof -
  have "unat (- xx) = nat (- sint xx)" if "sint xx < 0"
    using unat_neg_sint [OF that] by linarith
  moreover have "unat xx = nat (sint xx)" if "\<not> sint xx < 0"
    using unat_nonneg_sint [of xx] that by linarith
  ultimately show ?thesis
    by (simp add: printint_def printint_buf_def decimal_def Let_def)
qed

lemma kprintint_decimal: "kprintint xx 10 sg = printint xx 10 sg"
proof -
  have "map kdigit (digit_loop 10 x) = map udigit (digit_loop 10 x)" for x
    using digit_loop_less [of 10 _ x] by (auto simp: kdigit_dec)
  then show ?thesis
    unfolding kprintint_def kprintint_buf_def printint_def printint_buf_def Let_def by simp
qed

text \<open>C34: reading back with \<^verbatim>\<open>atoi\<close> what \<^verbatim>\<open>printint\<close> wrote in base 10 for a non-negative
  integer gives that integer, whatever non-digit bytes follow in the string.
\<close>

theorem atoi_printint:
  assumes "0 \<le> sint xx" and "cstr s (printint xx 10 True @ zs)"
    and "zs = [] \<or> \<not> (48 \<le> hd zs \<and> hd zs \<le> 57)"
  shows "atoi s = Some (sint xx)"
proof -
  have "printint xx 10 True = decimal (nat (sint xx))"
    using assms(1) by (simp add: printint_decimal)
  with assms(2,3) have "atoi s = Some (dec_val (decimal (nat (sint xx))))"
    by (intro atoi_digits) (auto dest: decimal_digits)
  with assms(1) show ?thesis by (simp add: dec_val_decimal)
qed

theorem atoi_printint_witness: "atoi ((!) [52, 50, 10, 0]) = Some 42"
proof -
  have "printint 42 10 True = [52, 50]"
    by (simp add: printint_def printint_buf_def digit_loop.simps udigit_def)
  then show ?thesis
    using atoi_printint [of 42 "(!) [52, 50, 10, 0]" "[10]"] by simp
qed

lemma digit_loop_fits: "2 \<le> base \<Longrightarrow> x < base ^ 10 \<Longrightarrow> length (digit_loop base x) \<le> 10"
  using digit_loop_length [of base x 9] by simp

text \<open>Neither \<^verbatim>\<open>printint\<close> runs over its 16-byte buffer, for any argument, in either base the
  code calls it with.
\<close>

theorem printint_buf_fits:
  "base \<in> {10, 16} \<Longrightarrow>
   length (printint_buf xx base sg) \<le> 16 \<and> length (kprintint_buf xx base sg) \<le> 16"
proof -
  assume base: "base \<in> {10, 16}"
  have "length (digit_loop base (unat x)) \<le> 10" for x :: u32
    using base unat_u32_less [of x] by (intro digit_loop_fits) auto
  then have "length (digit_loop base (unat x)) \<le> 15" and "length (digit_loop base (unat x)) \<le> 16"
    for x :: u32 by (meson le_trans numeral_le_iff semiring_norm)+
  then show ?thesis
    unfolding printint_buf_def kprintint_buf_def Let_def by simp
qed

theorem printint_buf_fits_witness: "length (printint_buf 0x80000000 10 True) \<le> 16"
  using printint_buf_fits [of 10 "0x80000000" True] by simp

subsection \<open>The two formatters\<close>

text \<open>\<open>common_fmt fmt\<close>: every conversion of \<open>fmt\<close> is neither hexadecimal, whose digits the two
  libraries write in different case, nor \<^verbatim>\<open>%c\<close>, which only the user library has.\<close>

fun common_fmt :: "u8 list \<Rightarrow> bool" where
  "common_fmt [] = True"
| "common_fmt [c] = True"
| "common_fmt (c # d # fmt) =
     (if c = 37 then d \<notin> {120, 112, 99} \<and> common_fmt fmt else common_fmt (d # fmt))"

lemma cprintf_from_printf_from:
  "common_fmt fmt \<Longrightarrow> cprintf_from m args fmt ap = printf_from m args fmt False ap"
proof (induction fmt arbitrary: ap rule: common_fmt.induct)
  case (3 c d fmt)
  then show ?case by (cases "c = 37") (auto simp: kprintint_decimal)
qed simp_all

text \<open>on every format with only literal bytes, \<^verbatim>\<open>%d\<close>, \<^verbatim>\<open>%s\<close>, \<^verbatim>\<open>%%\<close> and unknown conversions,
  the kernel's look-ahead loop and the user library's two-state machine print the same bytes,
  a trailing lone percent sign and null string pointers included.
\<close>

theorem cprintf_printf: "common_fmt fmt \<Longrightarrow> cprintf m args fmt = printf m args fmt"
  by (simp add: cprintf_def printf_def cprintf_from_printf_from)

theorem cprintf_printf_witness:
  "cprintf (\<lambda>_. 0) (\<lambda>_. 0) [65, 37, 115, 37, 37, 37] = printf (\<lambda>_. 0) (\<lambda>_. 0) [65, 37, 115, 37, 37, 37]"
  using cprintf_printf [of "[65, 37, 115, 37, 37, 37]"] by simp

end
