(* ===== verification/Spinlock.thy ===== *)
theory Spinlock
  imports Prelude
begin

text \<open>
  Spin locks and the interrupt flag (\<^verbatim>\<open>spinlock.c\<close>, and \<^verbatim>\<open>mycpu\<close>, \<^verbatim>\<open>cpuid\<close> of \<^verbatim>\<open>proc.c\<close>).
  The first part is the code as one CPU runs it: \<open>core\<close> is the executing processor (its local
  APIC id and interrupt flag) with the array \<^verbatim>\<open>cpus\<close>.  The second part cuts \<^verbatim>\<open>acquire\<close> and
  \<^verbatim>\<open>release\<close> at their memory accesses and lets any number of CPUs interleave them.
\<close>

subsection \<open>CPUs and the interrupt flag\<close>

record cpu =
  apicid :: u8
  ncli :: int
  intena :: bool

record core =
  lapicid :: u8
  if_flag :: bool
  cpus :: "cpu list"

definition mycpu :: "core \<Rightarrow> nat outcome" where
  "mycpu s =
     (if if_flag s then Panic ''mycpu called with interrupts enabled''
      else (case find_index (\<lambda>c. apicid c = lapicid s) (cpus s) of
              Some i \<Rightarrow> Ret i
            | None \<Rightarrow> Panic ''unknown apicid''))"

definition cpuid :: "core \<Rightarrow> nat outcome" where
  "cpuid s = mycpu s"

definition pushcli :: "core \<Rightarrow> core outcome" where
  "pushcli s =
     (let eflags = if_flag s; s = s\<lparr>if_flag := False\<rparr> in
      bindR (mycpu s) (\<lambda>i.
        let c = cpus s ! i;
            c = (if ncli c = 0 then c\<lparr>intena := eflags\<rparr> else c)
        in Ret (s\<lparr>cpus := (cpus s)[i := c\<lparr>ncli := ncli c + 1\<rparr>]\<rparr>)))"

definition popcli :: "core \<Rightarrow> core outcome" where
  "popcli s =
     (if if_flag s then Panic ''popcli - interruptible''
      else bindR (mycpu s) (\<lambda>i.
        let c = (cpus s ! i)\<lparr>ncli := ncli (cpus s ! i) - 1\<rparr>;
            s = s\<lparr>cpus := (cpus s)[i := c]\<rparr>
        in if ncli c < 0 then Panic ''popcli''
           else if ncli c = 0 \<and> intena c then Ret (s\<lparr>if_flag := True\<rparr>)
           else Ret s))"

subsection \<open>The lock as one CPU sees it\<close>

record spinlock =
  locked :: u32
  holder :: "nat option"
  pcs :: "u32 list"

definition initlock :: "spinlock \<Rightarrow> spinlock" where
  "initlock lk = lk\<lparr>locked := 0, holder := None\<rparr>"

text \<open>\<^verbatim>\<open>getcallerpcs\<close> walks at most ten saved frame pointers in the stack memory \<open>m\<close> and clears
  the rest of the array; \<^verbatim>\<open>KERNBASE\<close> is \<open>0x80000000\<close>.\<close>

fun callerpcs_from :: "(u32 \<Rightarrow> u32) \<Rightarrow> u32 \<Rightarrow> nat \<Rightarrow> u32 list" where
  "callerpcs_from m ebp 0 = []"
| "callerpcs_from m ebp (Suc n) =
     (if ebp = 0 \<or> ebp < 0x80000000 \<or> ebp = 0xffffffff then replicate (Suc n) 0
      else m (ebp + 4) # callerpcs_from m (m ebp) n)"

definition getcallerpcs :: "(u32 \<Rightarrow> u32) \<Rightarrow> u32 \<Rightarrow> u32 list" where
  "getcallerpcs m v = callerpcs_from m (v - 8) 10"

definition holding :: "spinlock \<Rightarrow> core \<Rightarrow> (bool \<times> core) outcome" where
  "holding lk s =
     bindR (pushcli s) (\<lambda>s.
     bindR (mycpu s) (\<lambda>i.
     let r = locked lk \<noteq> 0 \<and> holder lk = Some i in
     bindR (popcli s) (\<lambda>s. Ret (r, s))))"

text \<open>\<^verbatim>\<open>acquire\<close> of a lock that is taken spins: for a single CPU that is \<open>Blocked\<close>.  \<open>m\<close> and \<open>v\<close>
  are the stack memory and the address of the parameter, which only \<^verbatim>\<open>getcallerpcs\<close> reads.\<close>

definition acquire ::
  "(u32 \<Rightarrow> u32) \<Rightarrow> u32 \<Rightarrow> spinlock \<Rightarrow> core \<Rightarrow> (spinlock \<times> core) outcome" where
  "acquire m v lk s =
     bindR (pushcli s) (\<lambda>s.
     bindR (holding lk s) (\<lambda>(h, s).
     if h then Panic ''acquire''
     else if locked lk \<noteq> 0 then Blocked
     else bindR (mycpu s) (\<lambda>i.
       Ret (lk\<lparr>locked := 1, holder := Some i, pcs := getcallerpcs m v\<rparr>, s))))"

definition release :: "spinlock \<Rightarrow> core \<Rightarrow> (spinlock \<times> core) outcome" where
  "release lk s =
     bindR (holding lk s) (\<lambda>(h, s).
     if \<not> h then Panic ''release''
     else bindR (popcli s) (\<lambda>s.
       Ret (lk\<lparr>pcs := (pcs lk)[0 := 0], holder := None, locked := 0\<rparr>, s)))"

subsection \<open>Nesting of pushcli and popcli\<close>

text \<open>\<open>on_cpu s i\<close>: the executing processor is entry \<open>i\<close> of \<^verbatim>\<open>cpus\<close>.  \<open>cli_inv\<close>: interrupts are
  off while some \<^verbatim>\<open>pushcli\<close> is open.\<close>

definition on_cpu :: "core \<Rightarrow> nat \<Rightarrow> bool" where
  "on_cpu s i \<longleftrightarrow> find_index (\<lambda>c. apicid c = lapicid s) (cpus s) = Some i"

definition cli_inv :: "core \<Rightarrow> nat \<Rightarrow> bool" where
  "cli_inv s i \<longleftrightarrow> 0 \<le> ncli (cpus s ! i) \<and> (0 < ncli (cpus s ! i) \<longrightarrow> \<not> if_flag s)"

lemma on_cpu_less: "on_cpu s i \<Longrightarrow> i < length (cpus s)"
  by (auto simp: on_cpu_def dest: find_index_SomeD)

lemma mycpu_on: "on_cpu s i \<Longrightarrow> \<not> if_flag s \<Longrightarrow> mycpu s = Ret i"
  by (simp add: on_cpu_def mycpu_def)

lemma find_index_map_cong:
  "map f xs = map f ys \<Longrightarrow> find_index (\<lambda>x. P (f x)) xs = find_index (\<lambda>x. P (f x)) ys"
proof (induction xs arbitrary: ys)
  case Nil
  then show ?case by simp
next
  case (Cons x xs)
  then show ?case by (cases ys) auto
qed

lemma on_cpu_update [simp]:
  "apicid c = apicid (cpus s ! j) \<Longrightarrow>
   on_cpu (s\<lparr>if_flag := b, cpus := (cpus s)[j := c]\<rparr>) i = on_cpu s i"
  "apicid c = apicid (cpus s ! j) \<Longrightarrow> on_cpu (s\<lparr>cpus := (cpus s)[j := c]\<rparr>) i = on_cpu s i"
  using find_index_map_cong [of apicid "(cpus s)[j := c]" "cpus s" "\<lambda>a. a = lapicid s"]
  by (simp_all add: on_cpu_def map_update_same)

lemma on_cpu_if_flag [simp]: "on_cpu (s\<lparr>if_flag := b\<rparr>) i = on_cpu s i"
  by (simp add: on_cpu_def)

definition pushed :: "core \<Rightarrow> nat \<Rightarrow> core" where
  "pushed s i = s\<lparr>if_flag := False, cpus := (cpus s)[i := (cpus s ! i)\<lparr>
      intena := (if ncli (cpus s ! i) = 0 then if_flag s else intena (cpus s ! i)),
      ncli := ncli (cpus s ! i) + 1\<rparr>]\<rparr>"

lemma pushcli_on: "on_cpu s i \<Longrightarrow> pushcli s = Ret (pushed s i)"
  by (cases "cpus s ! i") (simp add: pushcli_def pushed_def Let_def mycpu_on)

lemma on_cpu_pushed [simp]: "on_cpu (pushed s i) j = on_cpu s j"
  by (simp add: pushed_def)

lemma if_flag_pushed [simp]: "\<not> if_flag (pushed s i)"
  by (simp add: pushed_def)

lemma popcli_pushed:
  assumes "on_cpu s i" and "cli_inv s i"
  shows "\<exists>s'. popcli (pushed s i) = Ret s' \<and> if_flag s' = if_flag s \<and>
     lapicid s' = lapicid s \<and> on_cpu s' i \<and>
     cpus s' = (cpus s)[i := (cpus s ! i)\<lparr>intena := intena (cpus (pushed s i) ! i)\<rparr>]"
  using assms on_cpu_less [OF assms(1)]
  by (cases "cpus s ! i") (auto simp: popcli_def mycpu_on cli_inv_def pushed_def Let_def)

lemma cli_inv_pushed: "on_cpu s i \<Longrightarrow> cli_inv s i \<Longrightarrow> cli_inv (pushed s i) i"
  using on_cpu_less [of s i] by (auto simp: cli_inv_def pushed_def)

lemma holding_on:
  assumes "on_cpu s i" and "cli_inv s i"
  shows "\<exists>s'. holding lk s = Ret (locked lk \<noteq> 0 \<and> holder lk = Some i, s') \<and>
     if_flag s' = if_flag s \<and> lapicid s' = lapicid s \<and> on_cpu s' i \<and>
     cpus s' = (cpus s)[i := (cpus s ! i)\<lparr>intena := intena (cpus (pushed s i) ! i)\<rparr>]"
proof -
  obtain s' where "popcli (pushed s i) = Ret s'" and "if_flag s' = if_flag s"
    "lapicid s' = lapicid s" "on_cpu s' i"
    "cpus s' = (cpus s)[i := (cpus s ! i)\<lparr>intena := intena (cpus (pushed s i) ! i)\<rparr>]"
    using popcli_pushed [OF assms] by blast
  then show ?thesis
    using assms by (auto simp: holding_def pushcli_on mycpu_on Let_def)
qed

text \<open>
  \<open>pushes n\<close> and \<open>pops n\<close> are \<open>n\<close> calls in a row.
\<close>

fun pushes :: "nat \<Rightarrow> core \<Rightarrow> core outcome" where
  "pushes 0 s = Ret s"
| "pushes (Suc n) s = bindR (pushcli s) (pushes n)"

fun pops :: "nat \<Rightarrow> core \<Rightarrow> core outcome" where
  "pops 0 s = Ret s"
| "pops (Suc n) s = bindR (popcli s) (pops n)"

text \<open>The state up to the value of \<^verbatim>\<open>intena\<close> of a CPU with no open \<^verbatim>\<open>pushcli\<close>, which is dead.\<close>

definition same_cli :: "nat \<Rightarrow> core \<Rightarrow> core \<Rightarrow> bool" where
  "same_cli i s t \<longleftrightarrow> if_flag t = if_flag s \<and> lapicid t = lapicid s \<and>
     length (cpus t) = length (cpus s) \<and> (\<forall>j. j \<noteq> i \<longrightarrow> cpus t ! j = cpus s ! j) \<and>
     apicid (cpus t ! i) = apicid (cpus s ! i) \<and> ncli (cpus t ! i) = ncli (cpus s ! i) \<and>
     (0 < ncli (cpus s ! i) \<longrightarrow> intena (cpus t ! i) = intena (cpus s ! i))"

lemma same_cli_refl: "same_cli i s s"
  by (simp add: same_cli_def)

lemma same_cli_on_cpu:
  assumes "same_cli i s t" and "i < length (cpus s)"
  shows "on_cpu t j = on_cpu s j"
proof -
  have "map apicid (cpus t) = map apicid (cpus s)"
    using assms by (auto simp: same_cli_def list_eq_iff_nth_eq)
  then show ?thesis
    using find_index_map_cong [of apicid "cpus t" "cpus s" "\<lambda>a. a = lapicid s"] assms
    by (simp add: on_cpu_def same_cli_def)
qed

lemma popcli_undo:
  assumes on: "on_cpu s i" and inv: "cli_inv s i" and same: "same_cli i (pushed s i) t"
  shows "\<exists>s'. popcli t = Ret s' \<and> same_cli i s s'"
proof -
  have i: "i < length (cpus s)" using on by (rule on_cpu_less)
  have len: "length (cpus t) = length (cpus s)" and flag: "\<not> if_flag t"
    and n: "ncli (cpus t ! i) = ncli (cpus s ! i) + 1"
    and e: "intena (cpus t ! i) = intena (cpus (pushed s i) ! i)"
    using same inv i by (auto simp: same_cli_def pushed_def cli_inv_def)
  have "on_cpu t i"
    using same_cli_on_cpu [OF same, of i] on i by (simp add: pushed_def)
  then have "mycpu t = Ret i" using flag by (rule mycpu_on)
  then show ?thesis
    using same inv i len flag n e
    by (auto simp: popcli_def Let_def same_cli_def pushed_def cli_inv_def nth_list_update_eq_if)
qed

lemma same_cli_trans: "same_cli i s t \<Longrightarrow> same_cli i t u \<Longrightarrow> same_cli i s u"
  by (auto simp: same_cli_def)

lemma pops_Suc_last: "pops (Suc n) s = bindR (pops n s) popcli"
proof (induction n arbitrary: s)
  case 0
  show ?case by (cases "popcli s") simp_all
next
  case (Suc n)
  have "pops (Suc (Suc n)) s = bindR (popcli s) (\<lambda>x. bindR (pops n x) popcli)"
    by (cases "popcli s") (simp_all only: pops.simps(2) [of "Suc n"] bindR.simps Suc)
  then show ?case by (simp only: pops.simps(2) [of n] bindR_assoc)
qed

lemma pushes_pops:
  "on_cpu s i \<Longrightarrow> cli_inv s i \<Longrightarrow> \<exists>s'. bindR (pushes n s) (pops n) = Ret s' \<and> same_cli i s s'"
proof (induction n arbitrary: s)
  case 0
  show ?case by (simp add: same_cli_refl)
next
  case (Suc n)
  have "on_cpu (pushed s i) i" and "cli_inv (pushed s i) i"
    using Suc.prems by (simp_all add: cli_inv_pushed)
  then obtain t where t: "bindR (pushes n (pushed s i)) (pops n) = Ret t"
      "same_cli i (pushed s i) t"
    using Suc.IH by blast
  obtain s' where "popcli t = Ret s'" and "same_cli i s s'"
    using popcli_undo [OF Suc.prems t(2)] by blast
  moreover have "bindR (pushes (Suc n) s) (pops (Suc n)) =
      bindR (bindR (pushes n (pushed s i)) (pops n)) popcli"
  proof -
    have "pops (Suc n) = (\<lambda>x. bindR (pops n x) popcli)" by (rule ext) (rule pops_Suc_last)
    then show ?thesis using Suc.prems by (simp only: pushes.simps pushcli_on bindR.simps bindR_assoc)
  qed
  ultimately show ?case using t(1) by (metis bindR.simps(1))
qed

text \<open>\<^verbatim>\<open>pushcli\<close> and \<^verbatim>\<open>popcli\<close> nest: any number of \<^verbatim>\<open>pushcli\<close>s undone by as many
  \<^verbatim>\<open>popcli\<close>s return without a panic and restore the interrupt flag, the nesting depth and the
  saved flag of every open level.
\<close>

theorem pushcli_popcli_nest:
  assumes "on_cpu s i" and "cli_inv s i"
  shows "\<exists>s'. bindR (pushes n s) (pops n) = Ret s' \<and> same_cli i s s'"
  using assms by (rule pushes_pops)

definition boot_core :: core where
  "boot_core = \<lparr>lapicid = 3, if_flag = True,
      cpus = [\<lparr>apicid = 0, ncli = 0, intena = False\<rparr>, \<lparr>apicid = 3, ncli = 0, intena = False\<rparr>]\<rparr>"

lemma boot_core_ok: "on_cpu boot_core 1" "cli_inv boot_core 1"
  by (simp_all add: on_cpu_def cli_inv_def boot_core_def)

theorem pushcli_popcli_nest_witness:
  "\<exists>s'. bindR (pushes 5 boot_core) (pops 5) = Ret s' \<and> same_cli 1 boot_core s'"
  using pushcli_popcli_nest [OF boot_core_ok] .

lemma acquire_free:
  assumes on: "on_cpu s i" and inv: "cli_inv s i" and free: "locked lk = 0"
  shows "\<exists>t. acquire m v lk s =
      Ret (lk\<lparr>locked := 1, holder := Some i, pcs := getcallerpcs m v\<rparr>, t) \<and>
      same_cli i (pushed s i) t \<and> on_cpu t i \<and> cli_inv t i \<and> \<not> if_flag t"
proof -
  have on': "on_cpu (pushed s i) i" and inv': "cli_inv (pushed s i) i"
    using on inv by (simp_all add: cli_inv_pushed)
  have i: "i < length (cpus s)" using on by (rule on_cpu_less)
  obtain t where t: "holding lk (pushed s i) = Ret (False, t)"
      "if_flag t = if_flag (pushed s i)" "lapicid t = lapicid (pushed s i)" "on_cpu t i"
      "cpus t = (cpus (pushed s i))[i := (cpus (pushed s i) ! i)
         \<lparr>intena := intena (cpus (pushed (pushed s i) i) ! i)\<rparr>]"
    using holding_on [OF on' inv', of lk] free by auto
  have "same_cli i (pushed s i) t"
    using t i inv by (auto simp: same_cli_def pushed_def cli_inv_def)
  moreover have "cli_inv t i"
    using t i inv' by (auto simp: cli_inv_def pushed_def)
  ultimately show ?thesis
    using t on free by (auto simp: acquire_def pushcli_on mycpu_on)
qed

lemma release_held:
  assumes on: "on_cpu t i" and inv: "cli_inv t i" and held: "locked lk \<noteq> 0" "holder lk = Some i"
    and same: "same_cli i (pushed s i) t" and on_s: "on_cpu s i" and inv_s: "cli_inv s i"
  shows "\<exists>u. release lk t = Ret (lk\<lparr>pcs := (pcs lk)[0 := 0], holder := None, locked := 0\<rparr>, u) \<and>
      same_cli i s u"
proof -
  have i: "i < length (cpus t)" using on by (rule on_cpu_less)
  obtain w where w: "holding lk t = Ret (True, w)" "if_flag w = if_flag t" "lapicid w = lapicid t"
      "cpus w = (cpus t)[i := (cpus t ! i)\<lparr>intena := intena (cpus (pushed t i) ! i)\<rparr>]"
    using holding_on [OF on inv, of lk] held by auto
  have "0 < ncli (cpus t ! i)"
    using same inv_s on_cpu_less [OF on_s] by (auto simp: same_cli_def pushed_def cli_inv_def)
  then have "same_cli i t w"
    using w i by (auto simp: same_cli_def pushed_def)
  with same have "same_cli i (pushed s i) w" by (rule same_cli_trans)
  then obtain u where "popcli w = Ret u" "same_cli i s u"
    using popcli_undo [OF on_s inv_s] by blast
  with w(1) show ?thesis by (simp add: release_def)
qed

text \<open>on a free lock \<^verbatim>\<open>acquire\<close> returns with interrupts off and the lock held by this CPU, and
  the \<^verbatim>\<open>release\<close> that follows returns, frees the lock and restores the interrupt state the
  critical section started in.  The components below therefore model a critical section by its
  body.
\<close>

theorem acquire_release:
  assumes "on_cpu s i" and "cli_inv s i" and "locked lk = 0"
  shows "\<exists>lk' t lk'' u. acquire m v lk s = Ret (lk', t) \<and> \<not> if_flag t \<and>
     holding lk' t \<noteq> Blocked \<and> holder lk' = Some i \<and> locked lk' \<noteq> 0 \<and>
     release lk' t = Ret (lk'', u) \<and> locked lk'' = 0 \<and> holder lk'' = None \<and> same_cli i s u"
proof -
  let ?lk = "lk\<lparr>locked := 1, holder := Some i, pcs := getcallerpcs m v\<rparr>"
  obtain t where t: "acquire m v lk s = Ret (?lk, t)" "same_cli i (pushed s i) t" "on_cpu t i"
      "cli_inv t i" "\<not> if_flag t"
    using acquire_free [OF assms] by blast
  moreover obtain u where "release ?lk t =
        Ret (?lk\<lparr>pcs := (pcs ?lk)[0 := 0], holder := None, locked := 0\<rparr>, u)" "same_cli i s u"
    using release_held [OF t(3,4) _ _ t(2) assms(1,2), of ?lk] by auto
  moreover have "holding ?lk t \<noteq> Blocked"
    using holding_on [OF t(3,4), of ?lk] by auto
  ultimately show ?thesis by fastforce
qed

definition fresh_lock :: spinlock where
  "fresh_lock = initlock \<lparr>locked = 7, holder = Some 4, pcs = []\<rparr>"

theorem acquire_release_witness:
  "\<exists>lk' t. acquire (\<lambda>_. 0) 0 fresh_lock boot_core = Ret (lk', t) \<and> holder lk' = Some 1"
  using acquire_release [OF boot_core_ok, of fresh_lock "\<lambda>_. 0" 0]
  by (auto simp: fresh_lock_def initlock_def)

subsection \<open>Many CPUs\<close>

text \<open>
  A CPU is outside (\<open>Out\<close>), spins on \<^verbatim>\<open>xchg\<close> after its check that it does not hold the lock
  (\<open>Spin\<close>), has exchanged in the 1 but not yet recorded itself (\<open>Got\<close>), is in the critical
  section (\<open>Crit\<close>), or has cleared \<^verbatim>\<open>lk->cpu\<close> and not yet stored the 0 (\<open>Rel\<close>).  Each rule
  is one access to the lock's memory; which CPU moves is not determined.  The two panics of
  the code are the states in which a CPU has no step: \<open>Out\<close> with the lock recorded as its own
  (\<^verbatim>\<open>panic("acquire")\<close>) and \<open>Crit\<close> with the lock not recorded as its own
  (\<^verbatim>\<open>panic("release")\<close>).
\<close>

datatype lock_pc = Out | Spin | Got | Crit | Rel

record lock_sys =
  lk :: spinlock
  at :: "nat \<Rightarrow> lock_pc"

definition mine :: "lock_sys \<Rightarrow> nat \<Rightarrow> bool" where
  "mine s i \<longleftrightarrow> locked (lk s) \<noteq> 0 \<and> holder (lk s) = Some i"

inductive lock_step :: "lock_sys \<Rightarrow> lock_sys \<Rightarrow> bool" where
  enter: "at s i = Out \<Longrightarrow> \<not> mine s i \<Longrightarrow> lock_step s (s\<lparr>at := (at s)(i := Spin)\<rparr>)"
| xchg_busy: "at s i = Spin \<Longrightarrow> locked (lk s) \<noteq> 0 \<Longrightarrow>
     lock_step s (s\<lparr>lk := (lk s)\<lparr>locked := 1\<rparr>\<rparr>)"
| xchg_won: "at s i = Spin \<Longrightarrow> locked (lk s) = 0 \<Longrightarrow>
     lock_step s (s\<lparr>lk := (lk s)\<lparr>locked := 1\<rparr>, at := (at s)(i := Got)\<rparr>)"
| record_cpu: "at s i = Got \<Longrightarrow>
     lock_step s (s\<lparr>lk := (lk s)\<lparr>holder := Some i\<rparr>, at := (at s)(i := Crit)\<rparr>)"
| clear_cpu: "at s i = Crit \<Longrightarrow> mine s i \<Longrightarrow>
     lock_step s (s\<lparr>lk := (lk s)\<lparr>holder := None\<rparr>, at := (at s)(i := Rel)\<rparr>)"
| store_zero: "at s i = Rel \<Longrightarrow>
     lock_step s (s\<lparr>lk := (lk s)\<lparr>locked := 0\<rparr>, at := (at s)(i := Out)\<rparr>)"

inductive_cases lock_stepE: "lock_step s t"

definition lock_init :: lock_sys where
  "lock_init = \<lparr>lk = fresh_lock, at = (\<lambda>_. Out)\<rparr>"

inductive lock_reachable :: "lock_sys \<Rightarrow> bool" where
  init: "lock_reachable lock_init"
| step: "lock_reachable s \<Longrightarrow> lock_step s t \<Longrightarrow> lock_reachable t"

definition inside :: "lock_sys \<Rightarrow> nat set" where
  "inside s = {i. at s i = Got \<or> at s i = Crit \<or> at s i = Rel}"

definition lock_inv :: "lock_sys \<Rightarrow> bool" where
  "lock_inv s \<longleftrightarrow>
     (\<forall>i j. i \<in> inside s \<and> j \<in> inside s \<longrightarrow> i = j) \<and>
     (locked (lk s) \<noteq> 0 \<longleftrightarrow> inside s \<noteq> {}) \<and>
     (\<forall>i. holder (lk s) = Some i \<longleftrightarrow> at s i = Crit)"

lemma lock_inv_unique: "lock_inv s \<Longrightarrow> i \<in> inside s \<Longrightarrow> j \<in> inside s \<Longrightarrow> i = j"
  by (simp add: lock_inv_def)

lemma lock_inv_init: "lock_inv lock_init"
  by (simp add: lock_inv_def lock_init_def inside_def fresh_lock_def initlock_def)

lemma lock_step_inv: "lock_step s t \<Longrightarrow> lock_inv s \<Longrightarrow> lock_inv t"
proof (induction rule: lock_step.induct)
  case (enter s i)
  then have "inside (s\<lparr>at := (at s)(i := Spin)\<rparr>) = inside s"
    by (auto simp: inside_def)
  with enter show ?case by (auto simp: lock_inv_def)
next
  case (xchg_busy s i)
  then have "inside (s\<lparr>lk := (lk s)\<lparr>locked := 1\<rparr>\<rparr>) = inside s"
    by (auto simp: inside_def)
  with xchg_busy show ?case by (auto simp: lock_inv_def)
next
  case (xchg_won s i)
  then have "inside s = {}" by (auto simp: lock_inv_def)
  then have "inside (s\<lparr>lk := (lk s)\<lparr>locked := 1\<rparr>, at := (at s)(i := Got)\<rparr>) = {i}"
    by (auto simp: inside_def)
  with xchg_won show ?case by (auto simp: lock_inv_def)
next
  case (record_cpu s i)
  then have "inside (s\<lparr>lk := (lk s)\<lparr>holder := Some i\<rparr>, at := (at s)(i := Crit)\<rparr>) = inside s"
    by (auto simp: inside_def)
  moreover have "at s j \<noteq> Crit" for j
    using lock_inv_unique [of s i j] record_cpu by (auto simp: inside_def)
  ultimately show ?case using record_cpu by (auto simp: lock_inv_def)
next
  case (clear_cpu s i)
  then have "inside (s\<lparr>lk := (lk s)\<lparr>holder := None\<rparr>, at := (at s)(i := Rel)\<rparr>) = inside s"
    by (auto simp: inside_def)
  moreover have "at s j \<noteq> Crit" if "j \<noteq> i" for j
    using lock_inv_unique [of s i j] clear_cpu that by (auto simp: inside_def)
  ultimately show ?case using clear_cpu by (auto simp: lock_inv_def)
next
  case (store_zero s i)
  then have "inside (s\<lparr>lk := (lk s)\<lparr>locked := 0\<rparr>, at := (at s)(i := Out)\<rparr>) = {}"
    by (auto simp: lock_inv_def inside_def)
  with store_zero show ?case by (auto simp: lock_inv_def)
qed

lemma reachable_lock_inv: "lock_reachable s \<Longrightarrow> lock_inv s"
  by (induction rule: lock_reachable.induct) (auto intro: lock_inv_init lock_step_inv)

text \<open>C26: in every state any number of CPUs can reach, at most one is in the critical section of
  a lock, the lock word is set while it is, and neither panic of \<^verbatim>\<open>acquire\<close> and \<^verbatim>\<open>release\<close>
  can fire: a CPU outside never finds the lock recorded as its own, and one inside always does.
\<close>

theorem spinlock_mutual_exclusion:
  assumes "lock_reachable s"
  shows "(at s i = Crit \<and> at s j = Crit \<longrightarrow> i = j) \<and> (at s i = Crit \<longrightarrow> mine s i) \<and>
     (at s i = Out \<longrightarrow> \<not> mine s i)"
  using reachable_lock_inv [OF assms] by (auto simp: lock_inv_def inside_def mine_def)

theorem spinlock_mutual_exclusion_witness:
  "\<exists>s. lock_reachable s \<and> at s 2 = Crit \<and> mine s 2 \<and> at s 5 = Spin"
proof -
  define s1 where "s1 = lock_init\<lparr>at := (at lock_init)(2 := Spin)\<rparr>"
  define s2 where "s2 = s1\<lparr>lk := (lk s1)\<lparr>locked := 1\<rparr>, at := (at s1)(2 := Got)\<rparr>"
  define s3 where "s3 = s2\<lparr>lk := (lk s2)\<lparr>holder := Some 2\<rparr>, at := (at s2)(2 := Crit)\<rparr>"
  define s4 where "s4 = s3\<lparr>at := (at s3)(5 := Spin)\<rparr>"
  note defs = s1_def s2_def s3_def s4_def lock_init_def fresh_lock_def initlock_def mine_def
  have "lock_step lock_init s1" unfolding s1_def by (rule lock_step.enter) (simp_all add: defs)
  moreover have "lock_step s1 s2" unfolding s2_def by (rule lock_step.xchg_won) (simp_all add: defs)
  moreover have "lock_step s2 s3" unfolding s3_def by (rule lock_step.record_cpu) (simp add: defs)
  moreover have "lock_step s3 s4" unfolding s4_def by (rule lock_step.enter) (simp_all add: defs)
  ultimately have r: "lock_reachable s4"
    using lock_reachable.intros by blast
  moreover have "at s4 2 = Crit" "at s4 5 = Spin" by (simp_all add: defs)
  ultimately show ?thesis using spinlock_mutual_exclusion [OF r, of 2 2] by blast
qed

end
