(* ===== verification/Kalloc.thy ===== *)
theory Kalloc
  imports Prelude
begin

text \<open>
  The physical page allocator (\<^verbatim>\<open>kalloc.c\<close>).  Kernel memory is a function from the address of an
  aligned word to the word there; a free page holds in its first word the address of the next
  free page, 0 at the end.  \<open>kend\<close> is the linker's symbol \<^verbatim>\<open>end\<close>.  The critical sections under
  \<^verbatim>\<open>kmem.lock\<close> are modelled by their bodies.
\<close>

definition PGSIZE :: u32 where "PGSIZE = 4096"
definition KERNBASE :: u32 where "KERNBASE = 0x80000000"
definition PHYSTOP :: u32 where "PHYSTOP = 0x00400000"
definition EXTMEM :: u32 where "EXTMEM = 0x100000"
definition DEVSPACE :: u32 where "DEVSPACE = 0xFE000000"

definition V2P :: "u32 \<Rightarrow> u32" where "V2P a = a - KERNBASE"
definition P2V :: "u32 \<Rightarrow> u32" where "P2V a = a + KERNBASE"

definition PGROUNDUP :: "u32 \<Rightarrow> u32" where "PGROUNDUP sz = (sz + PGSIZE - 1) AND NOT (PGSIZE - 1)"
definition PGROUNDDOWN :: "u32 \<Rightarrow> u32" where "PGROUNDDOWN a = a AND NOT (PGSIZE - 1)"

lemmas layout_defs = PGSIZE_def KERNBASE_def PHYSTOP_def EXTMEM_def DEVSPACE_def V2P_def P2V_def

record kmem =
  mem :: "u32 \<Rightarrow> u32"
  kend :: u32
  use_lock :: bool
  freelist :: u32
  free_pages :: int

text \<open>\<^verbatim>\<open>memset(v, c, PGSIZE)\<close> of an aligned page stores \<open>n\<close> words of four copies of the byte.\<close>

fun fill_words :: "(u32 \<Rightarrow> u32) \<Rightarrow> u32 \<Rightarrow> u32 \<Rightarrow> nat \<Rightarrow> (u32 \<Rightarrow> u32)" where
  "fill_words m a w 0 = m"
| "fill_words m a w (Suc n) = fill_words (m(a := w)) (a + 4) w n"

definition kfree :: "u32 \<Rightarrow> 'a kmem_scheme \<Rightarrow> 'a kmem_scheme outcome" where
  "kfree v s =
     (if v mod PGSIZE \<noteq> 0 \<or> v < kend s \<or> V2P v \<ge> PHYSTOP then Panic ''kfree''
      else
        let m = fill_words (mem s) v 0x01010101 1024;
            m = m(v := freelist s)
        in Ret (s\<lparr>mem := m, freelist := v, free_pages := free_pages s + 1\<rparr>))"

definition kalloc :: "'a kmem_scheme \<Rightarrow> u32 \<times> 'a kmem_scheme" where
  "kalloc s =
     (let r = freelist s in
      if r \<noteq> 0 then (r, s\<lparr>freelist := mem s r, free_pages := free_pages s - 1\<rparr>)
      else (r, s))"

subsection \<open>Initialisation\<close>

lemma kfree_range: "kfree p s = Ret s' \<Longrightarrow> unat p < unat (p + PGSIZE)"
proof -
  assume "kfree p s = Ret s'"
  then have "unat (p - KERNBASE) < unat PHYSTOP"
    by (auto simp: kfree_def V2P_def word_le_nat_alt not_le split: if_splits)
  then have "unat p + 4096 < 2 ^ 32"
    by (auto simp: layout_defs unat_sub_if' split: if_splits)
  then have "unat (p + 4096) = unat p + 4096"
    using unat_plus_of_nat [of p 4096] by simp
  then show ?thesis by (simp add: PGSIZE_def)
qed

function freerange_from :: "u32 \<Rightarrow> u32 \<Rightarrow> 'a kmem_scheme \<Rightarrow> 'a kmem_scheme outcome" where
  "freerange_from p vend s =
     (if p + PGSIZE \<le> vend
      then bindR (kfree p s) (\<lambda>s. freerange_from (p + PGSIZE) vend s)
      else Ret s)"
  by pat_completeness auto
termination
proof (relation "measure (\<lambda>(p, vend, s). 2 ^ 32 - unat p)")
  fix p vend :: u32 and s x :: "'a kmem_scheme"
  assume "kfree p s = Ret x"
  then have "unat p < unat (p + PGSIZE)" by (rule kfree_range)
  then show "((p + PGSIZE, vend, x), p, vend, s) \<in> measure (\<lambda>(p, vend, s). 2 ^ 32 - unat p)"
    using unat_u32_less [of "p + PGSIZE"] by simp
qed simp

declare freerange_from.simps [simp del]

definition freerange :: "u32 \<Rightarrow> u32 \<Rightarrow> 'a kmem_scheme \<Rightarrow> 'a kmem_scheme outcome" where
  "freerange vstart vend s = freerange_from (PGROUNDUP vstart) vend s"

definition kinit1 :: "u32 \<Rightarrow> u32 \<Rightarrow> 'a kmem_scheme \<Rightarrow> 'a kmem_scheme outcome" where
  "kinit1 vstart vend s = freerange vstart vend (s\<lparr>use_lock := False\<rparr>)"

definition kinit2 :: "u32 \<Rightarrow> u32 \<Rightarrow> 'a kmem_scheme \<Rightarrow> 'a kmem_scheme outcome" where
  "kinit2 vstart vend s =
     bindR (freerange vstart vend s) (\<lambda>s. Ret (s\<lparr>use_lock := True\<rparr>))"

subsection \<open>The free list\<close>

fun free_chain :: "(u32 \<Rightarrow> u32) \<Rightarrow> u32 \<Rightarrow> u32 list \<Rightarrow> bool" where
  "free_chain m p [] \<longleftrightarrow> p = 0"
| "free_chain m p (x # xs) \<longleftrightarrow> p = x \<and> x \<noteq> 0 \<and> free_chain m (m x) xs"

definition valid_page :: "'a kmem_scheme \<Rightarrow> u32 \<Rightarrow> bool" where
  "valid_page s v \<longleftrightarrow> v mod PGSIZE = 0 \<and> kend s \<le> v \<and> V2P v < PHYSTOP"

definition kmem_inv :: "'a kmem_scheme \<Rightarrow> u32 list \<Rightarrow> bool" where
  "kmem_inv s xs \<longleftrightarrow> free_chain (mem s) (freelist s) xs \<and> distinct xs \<and>
     (\<forall>x \<in> set xs. valid_page s x) \<and> free_pages s = int (length xs)"

lemma free_chain_unique: "free_chain m p xs \<Longrightarrow> free_chain m p ys \<Longrightarrow> xs = ys"
proof (induction xs arbitrary: p ys)
  case Nil
  then show ?case by (cases ys) auto
next
  case (Cons x xs)
  then show ?case by (cases ys) auto
qed

lemma free_chain_cong:
  "(\<And>x. x \<in> set xs \<Longrightarrow> m' x = m x) \<Longrightarrow> free_chain m' p xs = free_chain m p xs"
  by (induction xs arbitrary: p) auto

lemma valid_page_nonzero: "valid_page s v \<Longrightarrow> v \<noteq> 0"
  by (auto simp: valid_page_def layout_defs)

text \<open>\<open>in_page v a\<close>: the word address \<open>a\<close> is in the page at \<open>v\<close>.\<close>

definition in_page :: "u32 \<Rightarrow> u32 \<Rightarrow> bool" where
  "in_page v a \<longleftrightarrow> unat (a - v) < 4096"

lemma fill_words_outside:
  "unat (a - v) \<ge> 4 * n \<Longrightarrow> n \<le> 2 ^ 30 \<Longrightarrow> fill_words m v w n a = m a"
proof (induction n arbitrary: m v)
  case 0
  show ?case by simp
next
  case (Suc n)
  have "unat (a - (v + 4)) \<ge> 4 * n"
  proof -
    have "unat (4 :: u32) \<le> unat (a - v)" using Suc.prems by simp
    then have "unat (a - v - 4) = unat (a - v) - 4"
      using unat_sub [of 4 "a - v"] by (simp add: word_le_nat_alt)
    then show ?thesis using Suc.prems by (simp add: diff_diff_eq)
  qed
  moreover have "a \<noteq> v" using Suc.prems by auto
  ultimately show ?case using Suc by simp
qed

lemma aligned_in_page:
  assumes "v mod PGSIZE = 0" and "x mod PGSIZE = 0" and "in_page v x"
  shows "x = v"
proof -
  have "unat (v mod 4096) = 0" and "unat (x mod 4096) = 0"
    using assms by (simp_all add: PGSIZE_def)
  then have "4096 dvd unat v" and "4096 dvd unat x"
    by (simp_all add: unat_mod dvd_eq_mod_eq_0)
  then obtain k l where v: "unat v = 4096 * k" and x: "unat x = 4096 * l"
    by (elim dvdE)
  have "k = l"
  proof (cases "unat v \<le> unat x")
    case True
    then have "4096 * l - 4096 * k < 4096"
      using assms(3) by (simp add: in_page_def unat_sub_if' v x)
    with True v x show ?thesis by simp
  next
    case False
    then have "2 ^ 32 + 4096 * l - 4096 * k < 4096"
      using assms(3) by (simp add: in_page_def unat_sub_if' v x)
    moreover have "4096 * k < 2 ^ 32" using unat_u32_less [of v] v by simp
    ultimately show ?thesis by simp
  qed
  with v x show ?thesis by (simp add: word_unat_eq_iff)
qed

subsection \<open>What kfree and kalloc do to the list\<close>

lemma kfree_Ret:
  "kfree v s = Ret s' \<longleftrightarrow> valid_page s v \<and>
     s' = s\<lparr>mem := (fill_words (mem s) v 0x01010101 1024)(v := freelist s),
            freelist := v, free_pages := free_pages s + 1\<rparr>"
  by (auto simp: kfree_def valid_page_def Let_def not_less not_le)

lemma kfree_mem:
  "kfree v s = Ret s' \<Longrightarrow> \<not> in_page v a \<Longrightarrow> mem s' a = mem s a"
  using fill_words_outside [of 1024 a v] by (auto simp: kfree_Ret in_page_def)

lemma kfree_inv:
  assumes inv: "kmem_inv s xs" and v: "valid_page s v" "v \<notin> set xs"
  shows "\<exists>s'. kfree v s = Ret s' \<and> kmem_inv s' (v # xs)"
proof -
  obtain s' where s': "kfree v s = Ret s'" using v(1) by (simp add: kfree_Ret)
  have "mem s' x = mem s x" if "x \<in> set xs" for x
  proof (rule kfree_mem [OF s'])
    show "\<not> in_page v x"
      using aligned_in_page [of v x] that inv v by (auto simp: kmem_inv_def valid_page_def)
  qed
  then have "free_chain (mem s') (freelist s) xs"
    using inv free_chain_cong [of xs "mem s'" "mem s"] by (simp add: kmem_inv_def)
  moreover have "mem s' v = freelist s" "freelist s' = v" "free_pages s' = free_pages s + 1"
    "valid_page s' = valid_page s"
    using s' by (auto simp: kfree_Ret valid_page_def fun_eq_iff)
  ultimately show ?thesis
    using s' inv v valid_page_nonzero [OF v(1)] by (auto simp: kmem_inv_def)
qed

lemma kalloc_inv:
  assumes "kmem_inv s xs"
  shows "(case xs of
            [] \<Rightarrow> kalloc s = (0, s)
          | x # ys \<Rightarrow> fst (kalloc s) = x \<and> kmem_inv (snd (kalloc s)) ys \<and>
              mem (snd (kalloc s)) = mem s \<and> x \<notin> set ys \<and> valid_page s x)"
  using assms
  by (cases xs) (auto simp: kmem_inv_def kalloc_def Let_def valid_page_def)

lemma kalloc_kend [simp]: "kend (snd (kalloc s)) = kend s"
  by (simp add: kalloc_def Let_def)

subsection \<open>The allocator as its clients see it\<close>

text \<open>A client allocates and frees pages it holds, the \<open>k\<close>th of those it holds by \<open>Free k\<close>.\<close>

datatype page_op = Alloc | Free nat

fun client_step ::
  "('s \<Rightarrow> u32 \<times> 's) \<Rightarrow> (u32 \<Rightarrow> 's \<Rightarrow> 's outcome) \<Rightarrow> page_op \<Rightarrow> 's \<times> u32 list \<Rightarrow>
   ('s \<times> u32 list) outcome" where
  "client_step alloc free Alloc (s, held) =
     (let (r, s) = alloc s in Ret (s, if r = 0 then held else r # held))"
| "client_step alloc free (Free k) (s, held) =
     (if k < length held
      then bindR (free (held ! k) s) (\<lambda>s. Ret (s, take k held @ drop (Suc k) held))
      else Ret (s, held))"

fun client_run ::
  "('s \<Rightarrow> u32 \<times> 's) \<Rightarrow> (u32 \<Rightarrow> 's \<Rightarrow> 's outcome) \<Rightarrow> page_op list \<Rightarrow> 's \<times> u32 list \<Rightarrow>
   ('s \<times> u32 list) outcome" where
  "client_run alloc free [] c = Ret c"
| "client_run alloc free (op # ops) c =
     bindR (client_step alloc free op c) (client_run alloc free ops)"

locale page_alloc =
  fixes alloc :: "'s \<Rightarrow> u32 \<times> 's" and free :: "u32 \<Rightarrow> 's \<Rightarrow> 's outcome"
    and inv :: "'s \<Rightarrow> u32 list \<Rightarrow> bool" and valid :: "'s \<Rightarrow> u32 \<Rightarrow> bool"
  assumes alloc_empty: "inv s [] \<Longrightarrow> alloc s = (0, s)"
    and alloc_page: "inv s (x # xs) \<Longrightarrow> \<exists>s'. alloc s = (x, s') \<and> inv s' xs \<and> valid s' = valid s"
    and free_page: "inv s xs \<Longrightarrow> valid s v \<Longrightarrow> v \<notin> set xs \<Longrightarrow>
          \<exists>s'. free v s = Ret s' \<and> inv s' (v # xs) \<and> valid s' = valid s"
    and inv_pages: "inv s xs \<Longrightarrow> distinct xs \<and> (\<forall>x \<in> set xs. valid s x \<and> x \<noteq> 0)"
begin

definition client_ok :: "'s \<times> u32 list \<Rightarrow> u32 list \<Rightarrow> bool" where
  "client_ok c xs \<longleftrightarrow> inv (fst c) xs \<and> distinct (xs @ snd c) \<and> (\<forall>h \<in> set (snd c). valid (fst c) h)"

lemma client_step_ok:
  assumes "client_ok c xs"
  shows "\<exists>c' xs'. client_step alloc free op c = Ret c' \<and> client_ok c' xs' \<and>
     set (xs' @ snd c') = set (xs @ snd c)"
proof (cases op)
  case Alloc
  show ?thesis
  proof (cases xs)
    case Nil
    then have "client_step alloc free op c = Ret c"
      using assms Alloc alloc_empty by (cases c) (simp add: client_ok_def)
    with assms show ?thesis by blast
  next
    case (Cons x ys)
    with assms obtain s' where s': "alloc (fst c) = (x, s')" "inv s' ys" "valid s' = valid (fst c)"
      using alloc_page [of "fst c" x ys] by (auto simp: client_ok_def)
    have x: "x \<noteq> 0" "valid (fst c) x"
      using inv_pages [of "fst c" xs] assms Cons by (simp_all add: client_ok_def)
    then have "client_step alloc free op c = Ret (s', x # snd c)"
      using s' Alloc by (cases c) simp
    moreover have "client_ok (s', x # snd c) ys"
      using assms s' x Cons by (auto simp: client_ok_def)
    moreover have "set (ys @ x # snd c) = set (xs @ snd c)" using Cons by auto
    ultimately show ?thesis by fastforce
  qed
next
  case (Free k)
  show ?thesis
  proof (cases "k < length (snd c)")
    case True
    define pre v post where "pre = take k (snd c)" and "v = snd c ! k"
      and "post = drop (Suc k) (snd c)"
    have held: "snd c = pre @ v # post"
      unfolding pre_def v_def post_def using True by (rule id_take_nth_drop)
    have v: "valid (fst c) v" "v \<notin> set xs" and i: "inv (fst c) xs"
      using assms held by (auto simp: client_ok_def)
    obtain s' where s': "free v (fst c) = Ret s'" "inv s' (v # xs)" "valid s' = valid (fst c)"
      using free_page [OF i v] by blast
    have "client_step alloc free op c = Ret (s', pre @ post)"
      using s'(1) True by (cases c) (simp add: Free pre_def v_def post_def)
    moreover have "client_ok (s', pre @ post) (v # xs)"
      using assms held s' by (auto simp: client_ok_def)
    moreover have "set ((v # xs) @ pre @ post) = set (xs @ snd c)"
      by (auto simp: held)
    ultimately show ?thesis by fastforce
  next
    case False
    with assms Free show ?thesis by (cases c) auto
  qed
qed

lemma client_run_ok:
  assumes "client_ok c xs"
  shows "\<exists>c' xs'. client_run alloc free ops c = Ret c' \<and> client_ok c' xs' \<and>
     set (xs' @ snd c') = set (xs @ snd c)"
  using assms
proof (induction ops arbitrary: c xs)
  case Nil
  then show ?case by auto
next
  case (Cons op ops)
  obtain c1 xs1 where 1: "client_step alloc free op c = Ret c1" "client_ok c1 xs1"
      "set (xs1 @ snd c1) = set (xs @ snd c)"
    using client_step_ok [OF Cons.prems] by blast
  from Cons.IH [OF 1(2)] 1 show ?case by fastforce
qed

end

interpretation kp: page_alloc kalloc kfree kmem_inv valid_page
proof unfold_locales
  fix s :: "'a kmem_scheme" and xs :: "u32 list" and x v :: u32
  show "kmem_inv s [] \<Longrightarrow> kalloc s = (0, s)"
    using kalloc_inv [of s "[]"] by simp
  have "valid_page (snd (kalloc s)) = valid_page s"
    by (simp add: valid_page_def fun_eq_iff)
  then show "kmem_inv s (x # xs) \<Longrightarrow>
      \<exists>s'. kalloc s = (x, s') \<and> kmem_inv s' xs \<and> valid_page s' = valid_page s"
    using kalloc_inv [of s "x # xs"] by (cases "kalloc s") simp
  show "kmem_inv s xs \<Longrightarrow> valid_page s v \<Longrightarrow> v \<notin> set xs \<Longrightarrow>
      \<exists>s'. kfree v s = Ret s' \<and> kmem_inv s' (v # xs) \<and> valid_page s' = valid_page s"
    using kfree_inv [of s xs v]
    by (auto simp: kfree_Ret valid_page_def fun_eq_iff)
  show "kmem_inv s xs \<Longrightarrow> distinct xs \<and> (\<forall>x \<in> set xs. valid_page s x \<and> x \<noteq> 0)"
    using valid_page_nonzero by (fastforce simp: kmem_inv_def)
qed

subsection \<open>Initialisation of the free list\<close>

lemma page_aligned_cases:
  assumes "a mod PGSIZE = 0" and "p mod PGSIZE = 0" and "unat p + 4096 < 2 ^ 32"
  shows "p < a \<longleftrightarrow> p + PGSIZE \<le> a"
proof -
  have p: "unat (p + PGSIZE) = unat p + 4096"
    using unat_plus_of_nat [of p 4096] assms(3) by (simp add: PGSIZE_def)
  have "4096 dvd unat a" and "4096 dvd unat p"
    using assms(1,2) by (simp_all add: PGSIZE_def word_unat_eq_iff unat_mod dvd_eq_mod_eq_0)
  then show ?thesis
    by (auto simp: word_less_nat_alt word_le_nat_alt p elim!: dvdE)
qed

lemma valid_page_unat:
  assumes "KERNBASE \<le> kend s"
  shows "valid_page s a \<longleftrightarrow> a mod PGSIZE = 0 \<and> kend s \<le> a \<and> unat a < 0x80400000"
proof -
  have "V2P a < PHYSTOP \<longleftrightarrow> unat a < 0x80400000" if "kend s \<le> a"
  proof -
    have "unat (0x80000000 :: u32) \<le> unat a"
      using assms that by (simp add: word_le_nat_alt KERNBASE_def)
    then show ?thesis
      by (auto simp: V2P_def KERNBASE_def PHYSTOP_def word_less_nat_alt unat_sub_if')
  qed
  then show ?thesis unfolding valid_page_def by blast
qed

lemma aligned_plus: "a mod PGSIZE = 0 \<Longrightarrow> (a + PGSIZE) mod PGSIZE = 0"
  by (simp add: PGSIZE_def word_unat_eq_iff unat_mod unat_word_ariths mod_mod_cancel)

lemma freerange_from_inv:
  assumes "kmem_inv s xs" and "p mod PGSIZE = 0" and "kend s \<le> p" and "KERNBASE \<le> kend s"
    and "p \<le> P2V PHYSTOP" and "vend \<le> P2V PHYSTOP" and "\<forall>x \<in> set xs. x < p"
  shows "\<exists>s' ys. freerange_from p vend s = Ret s' \<and> kmem_inv s' (ys @ xs) \<and>
    set ys = {a. valid_page s a \<and> p \<le> a \<and> a + PGSIZE \<le> vend} \<and> kend s' = kend s"
  using assms
proof (induction p vend s arbitrary: xs rule: freerange_from.induct)
  case (1 p vend s)
  have top: "P2V PHYSTOP = 0x80400000" by (simp add: layout_defs)
  have up: "unat p + 4096 < 2 ^ 32"
    using 1(6) top by (simp add: word_le_nat_alt)
  then have p4: "unat (p + PGSIZE) = unat p + 4096"
    using unat_plus_of_nat [of p 4096] by (simp add: PGSIZE_def)
  have a4: "unat (a + PGSIZE) = unat a + 4096" if "valid_page s a" for a
    using that unat_plus_of_nat [of a 4096] by (simp add: valid_page_unat [OF 1(5)] PGSIZE_def)
  show ?case
  proof (cases "p + PGSIZE \<le> vend")
    case False
    then have none: "\<not> (valid_page s a \<and> p \<le> a \<and> a + PGSIZE \<le> vend)" for a
      using a4 [of a] p4 by (auto simp: word_le_nat_alt)
    have "freerange_from p vend s = Ret s" using False by (simp add: freerange_from.simps)
    with 1(2) none show ?thesis by (auto intro!: exI [of _ "[]"])
  next
    case True
    have v: "valid_page s p"
      using True 1 p4 top by (simp add: valid_page_unat word_le_nat_alt)
    moreover have "p \<notin> set xs" using 1(8) by auto
    ultimately obtain s1 where s1: "kfree p s = Ret s1" "kmem_inv s1 (p # xs)"
      using kfree_inv [OF 1(2)] by blast
    have k: "kend s1 = kend s" and vp: "valid_page s1 = valid_page s"
      using s1(1) by (auto simp: kfree_Ret valid_page_def fun_eq_iff)
    have "p < p + PGSIZE" using p4 by (simp add: word_less_nat_alt)
    then have "\<exists>s' ys. freerange_from (p + PGSIZE) vend s1 = Ret s' \<and> kmem_inv s' (ys @ p # xs) \<and>
        set ys = {a. valid_page s1 a \<and> p + PGSIZE \<le> a \<and> a + PGSIZE \<le> vend} \<and>
        kend s' = kend s1"
      using 1 True s1 k by (intro 1(1) aligned_plus) auto
    then obtain s' ys where s': "freerange_from (p + PGSIZE) vend s1 = Ret s'"
        "kmem_inv s' (ys @ p # xs)" "kend s' = kend s1"
        "set ys = {a. valid_page s a \<and> p + PGSIZE \<le> a \<and> a + PGSIZE \<le> vend}"
      using vp by auto
    have "p \<le> a \<longleftrightarrow> a = p \<or> p + PGSIZE \<le> a" if "valid_page s a" for a
      using page_aligned_cases [of a p] that 1(3) up by (auto simp: valid_page_def)
    then have "set (ys @ [p]) = {a. valid_page s a \<and> p \<le> a \<and> a + PGSIZE \<le> vend}"
      using s'(4) v True by auto
    then show ?thesis
      using s' s1 k True by (intro exI [of _ s'] exI [of _ "ys @ [p]"]) (simp add: freerange_from.simps [of p])
  qed
qed

lemma unat_and_not_mask:
  fixes x :: u32
  shows "unat (x AND NOT (mask 12)) = unat x - unat x mod 4096"
proof -
  have "x AND NOT (mask 12) = push_bit 12 (drop_bit 12 x)"
    by (rule bit_eqI) (auto simp: bit_simps)
  also have "\<dots> = x - take_bit 12 x"
    using bits_ident [of 12 x] by (simp add: algebra_simps)
  finally have e: "x AND NOT (mask 12) = x - take_bit 12 x" .
  have t: "unat (take_bit 12 x) = unat x mod 4096"
    by (simp add: take_bit_eq_mod unat_mod)
  then have "take_bit 12 x \<le> x" by (simp add: word_le_nat_alt)
  then show ?thesis unfolding e by (simp add: unat_sub t)
qed

lemma PGROUNDDOWN_unat: "unat (PGROUNDDOWN a) = unat a - unat a mod 4096"
  using unat_and_not_mask [of a] by (simp add: PGROUNDDOWN_def PGSIZE_def mask_eq_exp_minus_1)

lemma PGROUNDUP_unat:
  "unat sz + 4095 < 2 ^ 32 \<Longrightarrow> unat (PGROUNDUP sz) = (unat sz + 4095) div 4096 * 4096"
  using unat_and_not_mask [of "sz + 4095"] unat_plus_of_nat [of sz 4095]
  by (simp add: PGROUNDUP_def PGSIZE_def mask_eq_exp_minus_1 minus_mod_eq_div_mult add.commute)

lemma page_aligned_unat: "a mod PGSIZE = 0 \<longleftrightarrow> unat a mod 4096 = 0"
  by (simp add: PGSIZE_def word_unat_eq_iff unat_mod)

text \<open>The calls that \<^verbatim>\<open>main\<close> makes, with the other processors started between them.\<close>

definition kinit :: "'a kmem_scheme \<Rightarrow> 'a kmem_scheme outcome" where
  "kinit s =
     bindR (kinit1 (kend s) (P2V (4 * 1024 * 1024)) s)
       (kinit2 (P2V (4 * 1024 * 1024)) (P2V PHYSTOP))"

lemma kinit_inv:
  assumes "KERNBASE \<le> kend s" and "kend s \<le> P2V PHYSTOP"
    and "freelist s = 0" and "free_pages s = 0"
  shows "\<exists>s' xs. kinit s = Ret s' \<and> kmem_inv s' xs \<and> use_lock s' \<and>
    set xs = {a. a mod PGSIZE = 0 \<and> kend s \<le> a \<and> a < P2V PHYSTOP}"
proof -
  have top: "P2V PHYSTOP = 0x80400000" and m4: "P2V (4 * 1024 * 1024) = P2V PHYSTOP"
    and pk: "P2V PHYSTOP mod PGSIZE = 0" "PGROUNDUP (P2V PHYSTOP) = P2V PHYSTOP"
    by (simp_all add: layout_defs PGROUNDUP_def)
  have k: "unat (kend s) \<le> 0x80400000" using assms top by (simp add: word_le_nat_alt)
  let ?p = "PGROUNDUP (kend s)" and ?s = "s\<lparr>use_lock := False\<rparr>"
  have p: "unat ?p = (unat (kend s) + 4095) div 4096 * 4096"
    using k by (intro PGROUNDUP_unat) simp
  have lo: "kend s \<le> a \<longleftrightarrow> ?p \<le> a" and hi: "a + PGSIZE \<le> P2V PHYSTOP \<longleftrightarrow> a < P2V PHYSTOP"
    if a: "a mod PGSIZE = 0" "unat a < 0x80400000" for a
  proof -
    obtain n where "unat a = 4096 * n"
      using a(1) by (auto simp: page_aligned_unat)
    moreover have "unat (a + PGSIZE) = unat a + 4096"
      using unat_plus_of_nat [of a 4096] a(2) by (simp add: PGSIZE_def)
    ultimately show "kend s \<le> a \<longleftrightarrow> ?p \<le> a" and "a + PGSIZE \<le> P2V PHYSTOP \<longleftrightarrow> a < P2V PHYSTOP"
      using a(2) p k by (auto simp: word_le_nat_alt word_less_nat_alt top)
  qed
  have "?p mod PGSIZE = 0" "?p \<le> P2V PHYSTOP" "kend s \<le> ?p"
    using k p by (auto simp: page_aligned_unat word_le_nat_alt top)
  then obtain s1 xs where s1: "freerange_from ?p (P2V PHYSTOP) ?s = Ret s1" "kmem_inv s1 xs"
      "set xs = {a. valid_page ?s a \<and> ?p \<le> a \<and> a + PGSIZE \<le> P2V PHYSTOP}"
    using freerange_from_inv [of ?s "[]" ?p "P2V PHYSTOP"] assms
    by (auto simp: kmem_inv_def)
  have "set xs = {a. a mod PGSIZE = 0 \<and> kend s \<le> a \<and> a < P2V PHYSTOP}"
  proof -
    have v: "valid_page ?s a \<longleftrightarrow> a mod PGSIZE = 0 \<and> kend s \<le> a \<and> unat a < 0x80400000" for a
      using valid_page_unat [of ?s a] assms(1) by simp
    have t: "a < P2V PHYSTOP \<longleftrightarrow> unat a < 0x80400000" for a
      by (simp add: top word_less_nat_alt)
    have "(valid_page ?s a \<and> ?p \<le> a \<and> a + PGSIZE \<le> P2V PHYSTOP) \<longleftrightarrow>
        (a mod PGSIZE = 0 \<and> kend s \<le> a \<and> a < P2V PHYSTOP)" for a
      unfolding v t using lo [of a] hi [of a] unfolding t by argo
    then show ?thesis unfolding s1(3) by simp
  qed
  moreover have "freerange_from (P2V PHYSTOP) (P2V PHYSTOP) s1 = Ret s1"
    by (subst freerange_from.simps) (simp add: top PGSIZE_def)
  then have "kinit s = Ret (s1\<lparr>use_lock := True\<rparr>)"
    using s1(1) pk by (simp only: kinit_def m4 kinit1_def kinit2_def freerange_def bindR.simps)
  moreover have "kmem_inv (s1\<lparr>use_lock := True\<rparr>) xs"
    using s1(2) by (simp add: kmem_inv_def valid_page_def)
  ultimately show ?thesis by auto
qed

subsection \<open>Properties\<close>

text \<open>After the two boot calls, the free list holds every page between the end of the kernel
  and the top of memory exactly once, the counter is their number and the allocator takes its
  lock; none of the calls panics.\<close>
theorem kinit_frees_all_pages:
  assumes "KERNBASE \<le> kend s" and "kend s \<le> P2V PHYSTOP"
    and "freelist s = 0" and "free_pages s = 0"
  shows "\<exists>s' xs. kinit s = Ret s' \<and> free_chain (mem s') (freelist s') xs \<and> distinct xs \<and>
    set xs = {a. a mod PGSIZE = 0 \<and> kend s \<le> a \<and> a < P2V PHYSTOP} \<and>
    free_pages s' = int (length xs) \<and> use_lock s'"
  using kinit_inv [OF assms] by (auto simp: kmem_inv_def)

theorem kinit_frees_all_pages_witness:
  "\<exists>s' xs. kinit \<lparr>mem = (\<lambda>_. 0), kend = 0x80115000, use_lock = True, freelist = 0, free_pages = 0\<rparr> =
      Ret s' \<and> distinct xs \<and> free_chain (mem s') (freelist s') xs \<and> 0x80115000 \<in> set xs"
  using kinit_frees_all_pages [of "\<lparr>mem = (\<lambda>_. 0), kend = 0x80115000, use_lock = True,
      freelist = 0, free_pages = 0\<rparr>"]
  by (simp add: layout_defs) fastforce

text \<open>C24: A client of the allocator, whatever it allocates and frees, is never handed a page twice,
  never has a page it holds on the free list and loses no page.\<close>
theorem pages_never_shared:
  assumes "kmem_inv s xs"
  shows "\<exists>s' held xs'. client_run kalloc kfree ops (s, []) = Ret (s', held) \<and> kmem_inv s' xs' \<and>
     distinct (xs' @ held) \<and> set (xs' @ held) = set xs"
  using kp.client_run_ok [of "(s, [])" xs ops] assms
  by (auto simp: kp.client_ok_def kmem_inv_def)

theorem pages_never_shared_witness:
  "\<exists>s' held xs'. client_run kalloc kfree [Alloc, Alloc, Free 1, Alloc]
      (\<lparr>mem = (\<lambda>_. 0)(0x80200000 := 0x80201000), kend = 0x80115000, use_lock = True,
        freelist = 0x80200000, free_pages = 2\<rparr>, []) = Ret (s', held) \<and>
      distinct (xs' @ held) \<and> set (xs' @ held) = {0x80200000, 0x80201000}"
  using pages_never_shared [of "\<lparr>mem = (\<lambda>_. 0)(0x80200000 := 0x80201000), kend = 0x80115000,
      use_lock = True, freelist = 0x80200000, free_pages = 2\<rparr>" "[0x80200000, 0x80201000]"
      "[Alloc, Alloc, Free 1, Alloc]"]
  by (simp add: kmem_inv_def valid_page_def layout_defs) fastforce

end
