(* ===== verification/Ptable.thy ===== *)
theory Ptable
  imports Kalloc Spinlock CString
begin

text \<open>
  The process table and the scheduling primitives (\<^verbatim>\<open>proc.c\<close>).  A process is its index in
  \<^verbatim>\<open>ptable.proc\<close>; \<open>cur\<close> is \<^verbatim>\<open>cpu->proc\<close> of the executing CPU.  The critical sections under
  \<^verbatim>\<open>ptable.lock\<close> are modelled by their bodies.  A C pointer that is null is dereferenced at a
  page the kernel does not map: such a step is \<open>Panic ''trap''\<close>, the panic of \<^verbatim>\<open>trap.c\<close>.
\<close>

definition NPROC :: nat where "NPROC = 64"
definition NOFILE :: nat where "NOFILE = 16"
definition KSTACKSIZE :: u32 where "KSTACKSIZE = 4096"

datatype procstate = UNUSED | EMBRYO | SLEEPING | RUNNABLE | RUNNING | ZOMBIE

text \<open>The objects whose addresses the kernel sleeps on.\<close>

datatype chan =
    NoChan | ChanProc nat | ChanTicks | ChanInput | ChanLog
  | ChanBuf nat | ChanLock nat | ChanRead u32 | ChanWrite u32

record proc =
  sz :: u32
  pgdir :: u32
  kstack :: u32
  pstate :: procstate
  pid :: int
  parent :: "nat option"
  tf :: u32
  ctxt :: u32
  chan :: chan
  killed :: bool
  ofile :: "nat option list"
  cwd :: "nat option"
  name :: "u8 list"
  rss :: int

record ksys = kmem +
  ptable :: "proc list"
  cur :: "nat option"
  initproc :: "nat option"
  nextpid :: int
  kdata :: u32
  trapret :: u32
  forkret :: u32
  kpgdir :: u32
  hw_pgdir :: u32

definition upd_proc :: "nat \<Rightarrow> (proc \<Rightarrow> proc) \<Rightarrow> 'a ksys_scheme \<Rightarrow> 'a ksys_scheme" where
  "upd_proc i f s = s\<lparr>ptable := (ptable s)[i := f (ptable s ! i)]\<rparr>"

definition myproc :: "'a ksys_scheme \<Rightarrow> nat outcome" where
  "myproc s = (case cur s of None \<Rightarrow> Panic ''trap'' | Some i \<Rightarrow> Ret i)"

subsection \<open>A new process\<close>

text \<open>
  \<^verbatim>\<open>allocproc\<close>: the first unused slot becomes an embryo with the next pid and a kernel stack.
  Below the top of the stack come the trap frame (76 bytes), the return address \<^verbatim>\<open>trapret\<close> and
  the context (20 bytes, \<^verbatim>\<open>eip\<close> last).  The result \<open>None\<close> is a null pointer.
\<close>

definition allocproc :: "'a ksys_scheme \<Rightarrow> nat option \<times> 'a ksys_scheme" where
  "allocproc s =
     (case find_index (\<lambda>p. pstate p = UNUSED) (ptable s) of
        None \<Rightarrow> (None, s)
      | Some i \<Rightarrow>
          let s = upd_proc i (\<lambda>p. p\<lparr>pstate := EMBRYO, pid := nextpid s, rss := 0\<rparr>) s;
              s = s\<lparr>nextpid := int32 (nextpid s + 1)\<rparr>;
              (k, s) = kalloc s;
              s = upd_proc i (\<lambda>p. p\<lparr>kstack := k\<rparr>) s
          in if k = 0 then (None, upd_proc i (\<lambda>p. p\<lparr>pstate := UNUSED\<rparr>) s)
             else
               let sp = k + KSTACKSIZE - 76;
                   s = upd_proc i (\<lambda>p. p\<lparr>tf := sp\<rparr>) s;
                   sp = sp - 4;
                   s = s\<lparr>mem := (mem s)(sp := trapret s)\<rparr>;
                   sp = sp - 20;
                   s = upd_proc i (\<lambda>p. p\<lparr>ctxt := sp\<rparr>) s;
                   s = s\<lparr>mem := fill_words (mem s) sp 0 5\<rparr>;
                   s = s\<lparr>mem := (mem s)(sp + 16 := forkret s)\<rparr>
               in (Some i, s))"

subsection \<open>Sleep and wakeup\<close>

definition wakeup1 :: "chan \<Rightarrow> 'a ksys_scheme \<Rightarrow> 'a ksys_scheme" where
  "wakeup1 c s = s\<lparr>ptable := map (\<lambda>p.
     if pstate p = SLEEPING \<and> chan p = c then p\<lparr>pstate := RUNNABLE\<rparr> else p) (ptable s)\<rparr>"

definition wakeup :: "chan \<Rightarrow> 'a ksys_scheme \<Rightarrow> 'a ksys_scheme" where
  "wakeup c s = wakeup1 c s"

text \<open>\<^verbatim>\<open>sleep\<close> up to its call of \<^verbatim>\<open>sched\<close>, and what it does once it runs again.\<close>

definition sleep :: "chan \<Rightarrow> 'a ksys_scheme \<Rightarrow> 'a ksys_scheme outcome" where
  "sleep c s =
     (case cur s of
        None \<Rightarrow> Panic ''sleep''
      | Some i \<Rightarrow> Ret (upd_proc i (\<lambda>p. p\<lparr>chan := c, pstate := SLEEPING\<rparr>) s))"

definition sleep_return :: "'a ksys_scheme \<Rightarrow> 'a ksys_scheme outcome" where
  "sleep_return s =
     bindR (myproc s) (\<lambda>i. Ret (upd_proc i (\<lambda>p. p\<lparr>chan := NoChan\<rparr>) s))"

definition kill :: "int \<Rightarrow> 'a ksys_scheme \<Rightarrow> int \<times> 'a ksys_scheme" where
  "kill k s =
     (case find_index (\<lambda>p. pid p = k) (ptable s) of
        None \<Rightarrow> (-1, s)
      | Some i \<Rightarrow>
          let s = upd_proc i (\<lambda>p. p\<lparr>killed := True\<rparr>) s;
              s = (if pstate (ptable s ! i) = SLEEPING
                   then upd_proc i (\<lambda>p. p\<lparr>pstate := RUNNABLE\<rparr>) s else s)
          in (0, s))"

subsection \<open>The scheduler\<close>

text \<open>\<^verbatim>\<open>sched\<close> checks, with \<open>l\<close> the table lock and \<open>c\<close> the CPU, that it is called as it must
  be; then it switches to the scheduler's stack.\<close>

definition sched :: "spinlock \<Rightarrow> core \<Rightarrow> 'a ksys_scheme \<Rightarrow> core outcome" where
  "sched l c s =
     bindR (myproc s) (\<lambda>p.
     bindR (holding l c) (\<lambda>(h, c).
     if \<not> h then Panic ''sched ptable.lock''
     else bindR (mycpu c) (\<lambda>k.
       if ncli (cpus c ! k) \<noteq> 1 then Panic ''sched locks''
       else if pstate (ptable s ! p) = RUNNING then Panic ''sched running''
       else if if_flag c then Panic ''sched interruptible''
       else Ret c)))"

definition switchkvm :: "'a ksys_scheme \<Rightarrow> 'a ksys_scheme" where
  "switchkvm s = s\<lparr>hw_pgdir := V2P (kpgdir s)\<rparr>"

definition switchuvm :: "nat \<Rightarrow> 'a ksys_scheme \<Rightarrow> 'a ksys_scheme outcome" where
  "switchuvm i s =
     (let p = ptable s ! i in
      if kstack p = 0 then Panic ''switchuvm: no kstack''
      else if pgdir p = 0 then Panic ''switchuvm: no pgdir''
      else Ret (s\<lparr>hw_pgdir := V2P (pgdir p)\<rparr>))"

text \<open>One turn of \<^verbatim>\<open>scheduler\<close>'s inner loop from position \<open>pos\<close> of the table: the next runnable
  process gets the CPU and the loop will go on behind it; at the end of the table the outer loop
  starts again at 0.  \<open>scheduler_return\<close> is what follows the \<^verbatim>\<open>swtch\<close>.\<close>

definition scheduler_step :: "nat \<Rightarrow> 'a ksys_scheme \<Rightarrow> (nat option \<times> nat \<times> 'a ksys_scheme) outcome" where
  "scheduler_step pos s =
     (case find_index (\<lambda>p. pstate p = RUNNABLE) (drop pos (ptable s)) of
        None \<Rightarrow> Ret (None, 0, s)
      | Some k \<Rightarrow>
          let i = pos + k in
          bindR (switchuvm i (s\<lparr>cur := Some i\<rparr>)) (\<lambda>s.
            Ret (Some i, i + 1, upd_proc i (\<lambda>p. p\<lparr>pstate := RUNNING\<rparr>) s)))"

definition scheduler_return :: "'a ksys_scheme \<Rightarrow> 'a ksys_scheme" where
  "scheduler_return s = (switchkvm s)\<lparr>cur := None\<rparr>"

definition yield :: "'a ksys_scheme \<Rightarrow> 'a ksys_scheme outcome" where
  "yield s = bindR (myproc s) (\<lambda>i. Ret (upd_proc i (\<lambda>p. p\<lparr>pstate := RUNNABLE\<rparr>) s))"

subsection \<open>Properties\<close>

text \<open>How far the scheduler at position \<open>pos\<close> of a table of \<open>n\<close> is from process \<open>j\<close>.\<close>

definition turns_left :: "nat \<Rightarrow> nat \<Rightarrow> nat \<Rightarrow> nat" where
  "turns_left n j pos = (if pos \<le> j then j - pos else n - pos + 1 + j)"

lemma scheduler_step_turns:
  assumes "scheduler_step pos s = Ret (r, pos', s')" and "pstate (ptable s ! j) = RUNNABLE"
    and "j < length (ptable s)" and "pos \<le> length (ptable s)" and "r \<noteq> Some j"
  shows "pos' \<le> length (ptable s) \<and>
    turns_left (length (ptable s)) j pos' < turns_left (length (ptable s)) j pos"
proof (cases "find_index (\<lambda>p. pstate p = RUNNABLE) (drop pos (ptable s))")
  case None
  then have "pos' = 0" using assms(1) by (simp add: scheduler_step_def)
  moreover have "\<not> pos \<le> j"
  proof
    assume "pos \<le> j"
    then have "drop pos (ptable s) ! (j - pos) \<in> set (drop pos (ptable s))"
      using assms(3) by (intro nth_mem) simp
    then show False
      using None assms(2,3) \<open>pos \<le> j\<close> by (auto simp: find_index_None)
  qed
  ultimately show ?thesis by (simp add: turns_left_def)
next
  case (Some k)
  then have r: "r = Some (pos + k)" "pos' = pos + k + 1"
    using assms(1) by (auto simp: scheduler_step_def Let_def)
  have k: "pos + k < length (ptable s)"
    using find_index_SomeD [OF Some] assms(4) by auto
  have "pos + k \<le> j" if "pos \<le> j"
  proof (rule ccontr)
    assume "\<not> pos + k \<le> j"
    then have "j - pos < k" using that by simp
    then show False
      using Some assms(2,3) that by (auto simp: find_index_Some)
  qed
  then show ?thesis
    using r k assms(5) by (auto simp: turns_left_def)
qed

text \<open>C32: a process that stays runnable gets the CPU within 65 turns of the scheduler's loop,
  whatever the other processes do to the table in between: no process is passed over for more
  than one round of the table.\<close>
theorem scheduler_round_robin:
  assumes "\<And>k. k \<le> NPROC \<Longrightarrow> scheduler_step (pos k) (s k) = Ret (run k, pos (Suc k), s' k)"
    and "\<And>k. k \<le> NPROC \<Longrightarrow> length (ptable (s k)) = NPROC"
    and "pos 0 \<le> NPROC" and "j < NPROC"
    and "\<And>k. k \<le> NPROC \<Longrightarrow> pstate (ptable (s k) ! j) = RUNNABLE"
  shows "\<exists>k \<le> NPROC. run k = Some j"
proof (rule ccontr)
  assume "\<not> ?thesis"
  then have not_j: "run k \<noteq> Some j" if "k \<le> NPROC" for k using that by auto
  have "pos k \<le> NPROC \<and> turns_left NPROC j (pos k) + k \<le> turns_left NPROC j (pos 0)"
    if "k \<le> Suc NPROC" for k
    using that
  proof (induction k)
    case 0
    show ?case using assms(3) by simp
  next
    case (Suc k)
    then show ?case
      using scheduler_step_turns [OF assms(1) [of k], of j] assms(2,4,5) not_j [of k] by fastforce
  qed
  from this [of "Suc NPROC"] have "Suc NPROC \<le> turns_left NPROC j (pos 0)" by simp
  then show False using assms(3,4) by (auto simp: turns_left_def split: if_splits)
qed

definition idle_proc :: proc where
  "idle_proc = \<lparr>sz = 0, pgdir = 0, kstack = 0, pstate = UNUSED, pid = 0, parent = None, tf = 0,
     ctxt = 0, chan = NoChan, killed = False, ofile = replicate 16 None, cwd = None,
     name = [], rss = 0\<rparr>"

definition boot_ksys :: ksys where
  "boot_ksys = \<lparr>mem = (\<lambda>_. 0), kend = 0x80115000, use_lock = True, freelist = 0, free_pages = 0,
     ptable = replicate 64 idle_proc, cur = None, initproc = None, nextpid = 1,
     kdata = 0x80108000, trapret = 0x80105000, forkret = 0x80103000, kpgdir = 0x803ff000,
     hw_pgdir = 0x3ff000\<rparr>"

theorem scheduler_round_robin_witness:
  "\<exists>k \<le> NPROC. \<exists>t. scheduler_step (if even k then 0 else 1)
     (boot_ksys\<lparr>ptable := idle_proc\<lparr>pstate := RUNNABLE, kstack := 0x80200000, pgdir := 0x80201000\<rparr> # replicate 63 idle_proc\<rparr>) =
     Ret (Some 0, if even k then 1 else 0, t)"
proof -
  let ?p = "idle_proc\<lparr>pstate := RUNNABLE, kstack := 0x80200000, pgdir := 0x80201000\<rparr>"
  let ?s = "boot_ksys\<lparr>ptable := ?p # replicate 63 idle_proc\<rparr>"
  let ?t = "\<lambda>k. if even k then ?s\<lparr>cur := Some 0, hw_pgdir := V2P 0x80201000,
      ptable := ?p\<lparr>pstate := RUNNING\<rparr> # replicate 63 idle_proc\<rparr> else ?s"
  let ?run = "\<lambda>k :: nat. if even k then Some (0 :: nat) else None"
  have st: "scheduler_step (if even k then 0 else 1) ?s = Ret (?run k, if even (Suc k) then 0 else 1, ?t k)" for k :: nat
    by (simp add: scheduler_step_def boot_ksys_def upd_proc_def idle_proc_def switchuvm_def)
  have "\<exists>k \<le> NPROC. ?run k = Some 0"
    using scheduler_round_robin [of "\<lambda>k. if even k then 0 else 1" "\<lambda>_. ?s" ?run ?t 0] st
    by (simp add: boot_ksys_def NPROC_def idle_proc_def)
  then obtain k where "k \<le> NPROC" "?run k = Some 0" by blast
  then show ?thesis using st [of k] by (intro exI [of _ k] conjI exI [of _ "?t k"]) (simp_all split: if_splits)
qed

text \<open>C33: \<^verbatim>\<open>kill(0)\<close> takes a free slot for a process: it succeeds, and since \<^verbatim>\<open>allocproc\<close> does
  not reset the mark, the next process created in that slot is born killed.\<close>
theorem kill_zero_dooms_newborn:
  assumes "find_index (\<lambda>p. pid p = 0) (ptable s) = Some i"
    and "find_index (\<lambda>p. pstate p = UNUSED) (ptable s) = Some i" and "freelist s \<noteq> 0"
  shows "fst (kill 0 s) = 0 \<and> fst (allocproc (snd (kill 0 s))) = Some i \<and>
    killed (ptable (snd (allocproc (snd (kill 0 s)))) ! i)"
proof -
  let ?s = "upd_proc i (\<lambda>p. p\<lparr>killed := True\<rparr>) s"
  have i: "i < length (ptable s)" "pstate (ptable s ! i) = UNUSED"
    using find_index_SomeD [OF assms(2)] by auto
  then have k: "kill 0 s = (0, ?s)"
    using assms(1) by (simp add: kill_def Let_def upd_proc_def)
  have "find_index (\<lambda>p. pstate p = UNUSED) (ptable ?s) = Some i"
    using assms(2) by (auto simp: find_index_Some upd_proc_def nth_list_update)
  then show ?thesis
    using i assms(3) by (simp add: k allocproc_def Let_def kalloc_def upd_proc_def)
qed

theorem kill_zero_dooms_newborn_witness:
  "killed (ptable (snd (allocproc (snd (kill 0 (boot_ksys\<lparr>freelist := 0x80200000\<rparr>))))) ! 0)"
  using kill_zero_dooms_newborn [of "boot_ksys\<lparr>freelist := 0x80200000\<rparr>" 0]
  by (simp add: boot_ksys_def idle_proc_def)

end
