(* ===== verification/Vm.thy ===== *)
theory Vm
  imports Ptable
begin

text \<open>
  Page tables and user memory (\<^verbatim>\<open>vm.c\<close> of \<^verbatim>\<open>Assignment_3/cs236-xv6-mac\<close>).  A page
  directory is the kernel address of its page; directory and tables lie in the same memory as
  everything else, so a page table freed too early is a page the allocator hands out again.
  Console messages are not part of the state.
\<close>

subsection \<open>Addresses and entries\<close>

definition PTE_P :: u32 where "PTE_P = 0x001"
definition PTE_W :: u32 where "PTE_W = 0x002"
definition PTE_U :: u32 where "PTE_U = 0x004"
definition PTE_PS :: u32 where "PTE_PS = 0x080"
definition PTE_A :: u32 where "PTE_A = 0x020"

lemmas pte_bits = PTE_P_def PTE_W_def PTE_U_def PTE_PS_def PTE_A_def

definition PDX :: "u32 \<Rightarrow> u32" where "PDX va = drop_bit 22 va AND 0x3FF"
definition PTX :: "u32 \<Rightarrow> u32" where "PTX va = drop_bit 12 va AND 0x3FF"
definition PGADDR :: "u32 \<Rightarrow> u32 \<Rightarrow> u32 \<Rightarrow> u32" where
  "PGADDR d t off = push_bit 22 d OR push_bit 12 t OR off"
definition PTE_ADDR :: "u32 \<Rightarrow> u32" where "PTE_ADDR pte = pte AND NOT 0xFFF"
definition PTE_FLAGS :: "u32 \<Rightarrow> u32" where "PTE_FLAGS pte = pte AND 0xFFF"
definition KERNLINK :: u32 where "KERNLINK = KERNBASE + EXTMEM"

text \<open>Bytes of the word memory, little-endian, and page copies.\<close>

definition load8 :: "(u32 \<Rightarrow> u32) \<Rightarrow> u32 \<Rightarrow> u8" where
  "load8 m a = ucast (drop_bit (8 * unat (a AND 3)) (m (a AND NOT 3)))"

definition store8 :: "(u32 \<Rightarrow> u32) \<Rightarrow> u32 \<Rightarrow> u8 \<Rightarrow> (u32 \<Rightarrow> u32)" where
  "store8 m a b =
     (let w = a AND NOT 3; k = 8 * unat (a AND 3) in
      m(w := (m w AND NOT (push_bit k 0xFF)) OR push_bit k (ucast b)))"

fun store_bytes :: "(u32 \<Rightarrow> u32) \<Rightarrow> u32 \<Rightarrow> u8 list \<Rightarrow> (u32 \<Rightarrow> u32)" where
  "store_bytes m a [] = m"
| "store_bytes m a (b # bs) = store_bytes (store8 m a b) (a + 1) bs"

fun copy_words :: "(u32 \<Rightarrow> u32) \<Rightarrow> u32 \<Rightarrow> u32 \<Rightarrow> nat \<Rightarrow> (u32 \<Rightarrow> u32)" where
  "copy_words m d a 0 = m"
| "copy_words m d a (Suc n) = copy_words (m(d := m a)) (d + 4) (a + 4) n"

definition add_rss :: "int \<Rightarrow> 'a ksys_scheme \<Rightarrow> 'a ksys_scheme outcome" where
  "add_rss d s = bindR (myproc s) (\<lambda>i. Ret (upd_proc i (\<lambda>p. p\<lparr>rss := rss p + d\<rparr>) s))"

subsection \<open>Walking and mapping\<close>

definition walkpgdir :: "u32 \<Rightarrow> u32 \<Rightarrow> bool \<Rightarrow> 'a kmem_scheme \<Rightarrow> u32 \<times> 'a kmem_scheme" where
  "walkpgdir pd va alloc s =
     (let pde = pd + 4 * PDX va in
      if mem s pde AND PTE_P \<noteq> 0 then (P2V (PTE_ADDR (mem s pde)) + 4 * PTX va, s)
      else if \<not> alloc then (0, s)
      else
        let (pgtab, s) = kalloc s in
        if pgtab = 0 then (0, s)
        else
          let m = fill_words (mem s) pgtab 0 1024;
              m = m(pde := V2P pgtab OR PTE_P OR PTE_W OR PTE_U)
          in (pgtab + 4 * PTX va, s\<lparr>mem := m\<rparr>))"

text \<open>The loop of \<^verbatim>\<open>mappages\<close>, from page \<open>a\<close> to page \<open>lst\<close>, has as many turns as there are pages
  between them; running out of them would be a loop that does not end.\<close>

fun mappages_from ::
  "u32 \<Rightarrow> u32 \<Rightarrow> nat \<Rightarrow> u32 \<Rightarrow> u32 \<Rightarrow> u32 \<Rightarrow> 'a kmem_scheme \<Rightarrow> (int \<times> 'a kmem_scheme) outcome" where
  "mappages_from pd perm 0 a lst pa s = Blocked"
| "mappages_from pd perm (Suc n) a lst pa s =
     (let (pte, s) = walkpgdir pd a True s in
      if pte = 0 then Ret (-1, s)
      else if mem s pte AND PTE_P \<noteq> 0 then Panic ''remap''
      else
        let s = s\<lparr>mem := (mem s)(pte := pa OR perm OR PTE_P)\<rparr> in
        if a = lst then Ret (0, s)
        else mappages_from pd perm n (a + PGSIZE) lst (pa + PGSIZE) s)"

definition mappages ::
  "u32 \<Rightarrow> u32 \<Rightarrow> u32 \<Rightarrow> u32 \<Rightarrow> u32 \<Rightarrow> 'a kmem_scheme \<Rightarrow> (int \<times> 'a kmem_scheme) outcome" where
  "mappages pd va len pa perm s =
     (let a = PGROUNDDOWN va; lst = PGROUNDDOWN (va + len - 1)
      in mappages_from pd perm (unat (lst - a) div 4096 + 1) a lst pa s)"

subsection \<open>Releasing memory\<close>

text \<open>\<open>dealloc_from\<close> is the loop of \<^verbatim>\<open>deallocuvm\<close>; an address space has at most \<open>unat oldsz div 4096 + 1\<close>
  pages below \<open>oldsz\<close>, and a run that needs more turns goes round for ever.\<close>

fun dealloc_from :: "nat \<Rightarrow> u32 \<Rightarrow> u32 \<Rightarrow> u32 \<Rightarrow> 'a kmem_scheme \<Rightarrow> 'a kmem_scheme outcome" where
  "dealloc_from 0 pd a oldsz s = Blocked"
| "dealloc_from (Suc n) pd a oldsz s =
     (if a < oldsz then
        let (pte, s) = walkpgdir pd a False s in
        if pte = 0 then dealloc_from n pd (PGADDR (PDX a + 1) 0 0 - PGSIZE + PGSIZE) oldsz s
        else if mem s pte AND PTE_P \<noteq> 0 then
          (let pa = PTE_ADDR (mem s pte) in
           if pa = 0 then Panic ''kfree''
           else bindR (kfree (P2V pa) s) (\<lambda>s.
             dealloc_from n pd (a + PGSIZE) oldsz (s\<lparr>mem := (mem s)(pte := 0)\<rparr>)))
        else dealloc_from n pd (a + PGSIZE) oldsz s
      else Ret s)"

definition deallocuvm :: "u32 \<Rightarrow> u32 \<Rightarrow> u32 \<Rightarrow> 'a kmem_scheme \<Rightarrow> (u32 \<times> 'a kmem_scheme) outcome" where
  "deallocuvm pd oldsz newsz s =
     (if newsz \<ge> oldsz then Ret (oldsz, s)
      else bindR (dealloc_from (unat oldsz div 4096 + 2) pd (PGROUNDUP newsz) oldsz s)
        (\<lambda>s. Ret (newsz, s)))"

fun free_tables :: "u32 \<Rightarrow> nat \<Rightarrow> u32 \<Rightarrow> 'a ksys_scheme \<Rightarrow> 'a ksys_scheme outcome" where
  "free_tables pd 0 i s = Ret s"
| "free_tables pd (Suc n) i s =
     (let pde = mem s (pd + 4 * i) in
      bindR (if pde AND PTE_P \<noteq> 0
             then bindR (kfree (P2V (PTE_ADDR pde)) s) (add_rss (-1))
             else Ret s)
        (free_tables pd n (i + 1)))"

definition freevm :: "u32 \<Rightarrow> 'a ksys_scheme \<Rightarrow> 'a ksys_scheme outcome" where
  "freevm pd s =
     (if pd = 0 then Panic ''freevm: no pgdir''
      else bindR (deallocuvm pd KERNBASE 0 s) (\<lambda>(_, s).
        bindR (free_tables pd 1024 0 s) (\<lambda>s.
        bindR (myproc s) (\<lambda>i.
          kfree pd (upd_proc i (\<lambda>p. p\<lparr>rss := 0\<rparr>) s)))))"

subsection \<open>Building address spaces\<close>

definition kmap :: "u32 \<Rightarrow> (u32 \<times> u32 \<times> u32 \<times> u32) list" where
  "kmap data =
     [(KERNBASE, 0, EXTMEM, PTE_W),
      (KERNLINK, V2P KERNLINK, V2P data, 0),
      (data, V2P data, PHYSTOP, PTE_W),
      (DEVSPACE, DEVSPACE, 0, PTE_W)]"

fun map_kernel :: "u32 \<Rightarrow> (u32 \<times> u32 \<times> u32 \<times> u32) list \<Rightarrow> 'a ksys_scheme \<Rightarrow> (u32 \<times> 'a ksys_scheme) outcome" where
  "map_kernel pd [] s = Ret (pd, s)"
| "map_kernel pd ((virt, phys_start, phys_end, perm) # ks) s =
     bindR (mappages pd virt (phys_end - phys_start) phys_start perm s) (\<lambda>(r, s).
       if r < 0 then bindR (freevm pd s) (\<lambda>s. Ret (0, s))
       else map_kernel pd ks s)"

definition setupkvm :: "'a ksys_scheme \<Rightarrow> (u32 \<times> 'a ksys_scheme) outcome" where
  "setupkvm s =
     (let (pd, s) = kalloc s in
      if pd = 0 then Ret (0, s)
      else
        let s = s\<lparr>mem := fill_words (mem s) pd 0 1024\<rparr> in
        if P2V PHYSTOP > DEVSPACE then Panic ''PHYSTOP too high''
        else map_kernel pd (kmap (kdata s)) s)"

definition kvmalloc :: "'a ksys_scheme \<Rightarrow> 'a ksys_scheme outcome" where
  "kvmalloc s = bindR (setupkvm s) (\<lambda>(pd, s). Ret (switchkvm (s\<lparr>kpgdir := pd\<rparr>)))"

definition inituvm :: "u32 \<Rightarrow> u8 list \<Rightarrow> 'a ksys_scheme \<Rightarrow> 'a ksys_scheme outcome" where
  "inituvm pd init s =
     (if length init \<ge> 4096 then Panic ''inituvm: more than a page''
      else
        let (v, s) = kalloc s in
        if v = 0 then Panic ''trap''
        else
          let s = s\<lparr>mem := fill_words (mem s) v 0 1024\<rparr> in
          bindR (mappages pd 0 PGSIZE (V2P v) (PTE_W OR PTE_U) s) (\<lambda>(_, s).
          bindR (add_rss 1 s) (\<lambda>s.
            Ret (s\<lparr>mem := store_bytes (mem s) v init\<rparr>))))"

fun alloc_from :: "nat \<Rightarrow> u32 \<Rightarrow> u32 \<Rightarrow> u32 \<Rightarrow> u32 \<Rightarrow> 'a ksys_scheme \<Rightarrow> (u32 \<times> 'a ksys_scheme) outcome" where
  "alloc_from 0 pd oldsz newsz a s = Blocked"
| "alloc_from (Suc n) pd oldsz newsz a s =
     (if a < newsz then
        let (v, s) = kalloc s in
        if v = 0 then bindR (deallocuvm pd newsz oldsz s) (\<lambda>(_, s). Ret (0, s))
        else
          let s = s\<lparr>mem := fill_words (mem s) v 0 1024\<rparr> in
          bindR (mappages pd a PGSIZE (V2P v) (PTE_W OR PTE_U) s) (\<lambda>(r, s).
            if r < 0 then
              bindR (deallocuvm pd newsz oldsz s) (\<lambda>(_, s).
              bindR (kfree v s) (\<lambda>s. Ret (0, s)))
            else bindR (add_rss 1 s) (alloc_from n pd oldsz newsz (a + PGSIZE)))
      else Ret (newsz, s))"

definition allocuvm :: "u32 \<Rightarrow> u32 \<Rightarrow> u32 \<Rightarrow> 'a ksys_scheme \<Rightarrow> (u32 \<times> 'a ksys_scheme) outcome" where
  "allocuvm pd oldsz newsz s =
     (if newsz \<ge> KERNBASE then Ret (0, s)
      else if newsz < oldsz then Ret (oldsz, s)
      else alloc_from (unat newsz div 4096 + 2) pd oldsz newsz (PGROUNDUP oldsz) s)"

definition clearpteu :: "u32 \<Rightarrow> u32 \<Rightarrow> 'a kmem_scheme \<Rightarrow> 'a kmem_scheme outcome" where
  "clearpteu pd uva s =
     (let (pte, s) = walkpgdir pd uva False s in
      if pte = 0 then Panic ''clearpteu''
      else Ret (s\<lparr>mem := (mem s)(pte := mem s pte AND NOT PTE_U)\<rparr>))"

fun copy_from ::
  "nat \<Rightarrow> u32 \<Rightarrow> u32 \<Rightarrow> u32 \<Rightarrow> u32 \<Rightarrow> 'a ksys_scheme \<Rightarrow> (u32 \<times> 'a ksys_scheme) outcome" where
  "copy_from 0 pd d i ssz s = Blocked"
| "copy_from (Suc n) pd d i ssz s =
     (if i < ssz then
        let (pte, s) = walkpgdir pd i False s in
        if pte = 0 then Panic ''copyuvm: pte should exist''
        else if mem s pte AND PTE_P = 0 then Panic ''copyuvm: page not present''
        else
          let pa = PTE_ADDR (mem s pte); flags = PTE_FLAGS (mem s pte); (v, s) = kalloc s in
          if v = 0 then bindR (freevm d s) (\<lambda>s. Ret (0, s))
          else
            let s = s\<lparr>mem := copy_words (mem s) v (P2V pa) 1024\<rparr> in
            bindR (mappages d i PGSIZE (V2P v) flags s) (\<lambda>(r, s).
              if r < 0 then
                bindR (kfree v s) (\<lambda>s. bindR (freevm d s) (\<lambda>s. Ret (0, s)))
              else copy_from n pd d (i + PGSIZE) ssz s)
      else Ret (d, s))"

definition copyuvm :: "u32 \<Rightarrow> u32 \<Rightarrow> 'a ksys_scheme \<Rightarrow> (u32 \<times> 'a ksys_scheme) outcome" where
  "copyuvm pd ssz s =
     bindR (setupkvm s) (\<lambda>(d, s).
       if d = 0 then Ret (0, s)
       else copy_from (unat ssz div 4096 + 2) pd d 0 ssz s)"

subsection \<open>Reaching user memory from the kernel\<close>

text \<open>\<^verbatim>\<open>uva2ka\<close> does not test the result of \<^verbatim>\<open>walkpgdir\<close>: where no page table covers \<open>uva\<close> it
  reads the entry at address 0, which is user memory of the page table the CPU runs on.\<close>

definition null_word :: "'a ksys_scheme \<Rightarrow> u32 outcome" where
  "null_word s =
     (let (pte, _) = walkpgdir (P2V (hw_pgdir s)) 0 False s in
      if pte = 0 \<or> mem s pte AND PTE_P = 0 then Panic ''trap''
      else Ret (mem s (P2V (PTE_ADDR (mem s pte)))))"

definition uva2ka :: "u32 \<Rightarrow> u32 \<Rightarrow> 'a ksys_scheme \<Rightarrow> u32 outcome" where
  "uva2ka pd uva s =
     (let (pte, _) = walkpgdir pd uva False s in
      bindR (if pte = 0 then null_word s else Ret (mem s pte)) (\<lambda>e.
        if e AND PTE_P = 0 then Ret 0
        else if e AND PTE_U = 0 then Ret 0
        else Ret (P2V (PTE_ADDR e))))"

function copyout :: "u32 \<Rightarrow> u32 \<Rightarrow> u8 list \<Rightarrow> 'a ksys_scheme \<Rightarrow> (int \<times> 'a ksys_scheme) outcome" where
  "copyout pd va p s =
     (if p = [] then Ret (0, s)
      else bindR (uva2ka pd (PGROUNDDOWN va) s) (\<lambda>pa0.
        if pa0 = 0 then Ret (-1, s)
        else
          let va0 = PGROUNDDOWN va;
              n = min (4096 - unat va mod 4096) (length p);
              m = store_bytes (mem s) (pa0 + (va - va0)) (take n p)
          in copyout pd (va0 + PGSIZE) (drop n p) (s\<lparr>mem := m\<rparr>)))"
  by pat_completeness auto
termination
  by (relation "measure (\<lambda>(pd, va, p, s). length p)") auto

declare copyout.simps [simp del]

subsection \<open>Pages and words\<close>

lemma in_page_rounddown:
  assumes "v mod PGSIZE = 0"
  shows "in_page v x \<longleftrightarrow> PGROUNDDOWN x = v"
proof -
  obtain n where n: "unat v = 4096 * n" using assms by (auto simp: page_aligned_unat)
  have x: "unat (PGROUNDDOWN x) = 4096 * (unat x div 4096)"
    by (simp add: PGROUNDDOWN_unat minus_mod_eq_mult_div)
  have b: "4096 * n < 2 ^ 32" using unat_u32_less [of v] n by simp
  have "in_page v x \<longleftrightarrow> unat x div 4096 = n"
  proof
    assume "in_page v x"
    then have "4096 * n \<le> unat x \<and> unat x < 4096 * n + 4096"
      using n b unat_u32_less [of x]
      by (auto simp: in_page_def unat_sub_if' split: if_splits)
    then show "unat x div 4096 = n" by (simp add: div_nat_eqI)
  next
    assume "unat x div 4096 = n"
    then have "4096 * n \<le> unat x \<and> unat x < 4096 * n + 4096"
      using mult_div_mod_eq [of 4096 "unat x"] mod_less_divisor [of 4096 "unat x"] by linarith
    then show "in_page v x" using n by (auto simp: in_page_def unat_sub_if')
  qed
  also have "\<dots> \<longleftrightarrow> PGROUNDDOWN x = v" using x n by (auto simp: word_unat_eq_iff)
  finally show ?thesis .
qed

lemma in_page_slot: "k < 1024 \<Longrightarrow> in_page v (v + 4 * k)"
  by (simp add: in_page_def word_less_nat_alt unat_word_ariths)

lemma slot_eq_iff:
  fixes v :: u32
  assumes "j < 1024" and "k < 1024"
  shows "v + 4 * j = v + 4 * k \<longleftrightarrow> j = k"
proof -
  have "unat (4 * j) = 4 * unat j" and "unat (4 * k) = 4 * unat k"
    using assms by (simp_all add: word_less_nat_alt unat_word_ariths)
  then show ?thesis by (metis add_left_cancel mult_left_cancel word_unat_eq_iff zero_neq_numeral)
qed

lemma fill_words_inside:
  "n \<le> 1024 \<Longrightarrow> k < of_nat n \<Longrightarrow> fill_words m v w n (v + 4 * k) = w"
proof (induction n arbitrary: m v k)
  case 0
  then show ?case by simp
next
  case (Suc n)
  have un: "unat (of_nat n :: u32) = n" "unat (of_nat (Suc n) :: u32) = Suc n"
    using Suc.prems(1) unat_of_nat_less [of n, where 'a = 32]
      unat_of_nat_less [of "Suc n", where 'a = 32] by simp_all
  show ?case
  proof (cases "k = 0")
    case True
    have "v - (v + 4) = - 4" by simp
    then have "unat (v - (v + 4)) \<ge> 4 * n" using Suc.prems(1) by simp
    then show ?thesis using True Suc.prems fill_words_outside [of n v "v + 4"] by simp
  next
    case False
    then have "k - 1 < of_nat n"
      using Suc.prems un unat_gt_0 [of k] by (auto simp: word_less_nat_alt unat_minus_one)
    then have "fill_words (m(v := w)) (v + 4) w n ((v + 4) + 4 * (k - 1)) = w"
      using Suc.prems(1) by (intro Suc.IH) simp_all
    moreover have "(v + 4) + 4 * (k - 1) = v + 4 * k" by (simp add: algebra_simps)
    ultimately show ?thesis by (simp only: fill_words.simps)
  qed
qed

lemma PDX_unat: "unat (PDX va) = unat va div 2 ^ 22 mod 1024"
proof -
  have "PDX va = take_bit 10 (drop_bit 22 va)"
    by (simp add: PDX_def take_bit_eq_mask mask_eq_exp_minus_1)
  then show ?thesis
    by (simp add: unsigned_take_bit_eq unsigned_drop_bit_eq take_bit_eq_mod drop_bit_eq_div
        unat_mod unat_div)
qed

lemma PTX_unat: "unat (PTX va) = unat va div 4096 mod 1024"
proof -
  have "PTX va = take_bit 10 (drop_bit 12 va)"
    by (simp add: PTX_def take_bit_eq_mask mask_eq_exp_minus_1)
  then show ?thesis
    by (simp add: unsigned_take_bit_eq unsigned_drop_bit_eq take_bit_eq_mod drop_bit_eq_div
        unat_mod unat_div)
qed

lemma PDX_less [simp]: "PDX va < 1024" and PTX_less [simp]: "PTX va < 1024"
  by (simp_all add: word_less_nat_alt PDX_unat PTX_unat)

lemma same_slot_iff: "PDX v = PDX w \<and> PTX v = PTX w \<longleftrightarrow> PGROUNDDOWN v = PGROUNDDOWN w"
proof -
  have "unat x div 4096 = unat (PDX x) * 1024 + unat (PTX x)" for x
  proof -
    have "unat x div 4096 < 1024 * 1024" using unat_u32_less [of x] by (simp add: less_mult_imp_div_less)
    moreover have "unat x div 2 ^ 22 = unat x div 4096 div 1024" by (simp add: div_mult2_eq)
    ultimately show ?thesis
      by (simp add: PDX_unat PTX_unat mod_less less_mult_imp_div_less)
  qed
  note page = this
  have "unat (PGROUNDDOWN x) = 4096 * (unat x div 4096)" for x
    by (simp add: PGROUNDDOWN_unat minus_mod_eq_mult_div)
  then have "PGROUNDDOWN v = PGROUNDDOWN w \<longleftrightarrow> unat v div 4096 = unat w div 4096"
    by (auto simp: word_unat_eq_iff)
  also have "\<dots> \<longleftrightarrow> PDX v = PDX w \<and> PTX v = PTX w"
  proof -
    have "a * 1024 + b = c * 1024 + d \<longleftrightarrow> a = c \<and> b = d" if "b < 1024" "d < 1024" for a b c d :: nat
    proof
      assume eq: "a * 1024 + b = c * 1024 + d"
      then have "(a * 1024 + b) mod 1024 = (c * 1024 + d) mod 1024" by (rule arg_cong)
      then have "b = d" using that by simp
      with eq show "a = c \<and> b = d" by simp
    qed simp
    then show ?thesis
      unfolding page using PTX_less [of v] PTX_less [of w]
      by (simp add: word_unat_eq_iff word_less_nat_alt)
  qed
  finally show ?thesis by simp
qed

subsection \<open>What a page directory maps\<close>

text \<open>\<open>table m pd i\<close> is the page table of directory entry \<open>i\<close>; \<open>pt_entry m pd va\<close> the entry that maps
  \<open>va\<close>, 0 where there is no table.\<close>

definition pde_present :: "(u32 \<Rightarrow> u32) \<Rightarrow> u32 \<Rightarrow> u32 \<Rightarrow> bool" where
  "pde_present m pd i \<longleftrightarrow> m (pd + 4 * i) AND PTE_P \<noteq> 0"

definition table :: "(u32 \<Rightarrow> u32) \<Rightarrow> u32 \<Rightarrow> u32 \<Rightarrow> u32" where
  "table m pd i = P2V (PTE_ADDR (m (pd + 4 * i)))"

definition pt_entry :: "(u32 \<Rightarrow> u32) \<Rightarrow> u32 \<Rightarrow> u32 \<Rightarrow> u32" where
  "pt_entry m pd va =
     (if pde_present m pd (PDX va) then m (table m pd (PDX va) + 4 * PTX va) else 0)"

definition pd_inv :: "'a kmem_scheme \<Rightarrow> u32 list \<Rightarrow> u32 \<Rightarrow> bool" where
  "pd_inv s xs pd \<longleftrightarrow> kmem_inv s xs \<and> valid_page s pd \<and> pd \<notin> set xs \<and>
     (\<forall>i < 1024. pde_present (mem s) pd i \<longrightarrow>
        valid_page s (table (mem s) pd i) \<and> table (mem s) pd i \<notin> set xs \<and> table (mem s) pd i \<noteq> pd) \<and>
     (\<forall>i < 1024. \<forall>j < 1024. pde_present (mem s) pd i \<longrightarrow> pde_present (mem s) pd j \<longrightarrow>
        table (mem s) pd i = table (mem s) pd j \<longrightarrow> i = j)"

lemma valid_page_aligned: "valid_page s v \<Longrightarrow> v mod PGSIZE = 0"
  by (simp add: valid_page_def)

lemma other_page:
  "in_page v x \<Longrightarrow> in_page w x \<Longrightarrow> v mod PGSIZE = 0 \<Longrightarrow> w mod PGSIZE = 0 \<Longrightarrow> v = w"
  by (simp add: in_page_rounddown)

lemma slot_neq:
  "v \<noteq> w \<Longrightarrow> v mod PGSIZE = 0 \<Longrightarrow> w mod PGSIZE = 0 \<Longrightarrow> j < 1024 \<Longrightarrow> k < 1024 \<Longrightarrow>
   v + 4 * j \<noteq> w + 4 * k"
  by (metis in_page_slot other_page)

lemma in_page_self: "in_page v v"
  by (simp add: in_page_def)

text \<open>A store outside the directory, its tables and the free pages changes none of them; a store
  through the entry of \<open>va\<close> changes the mapping of that page alone.\<close>

lemma pd_inv_store:
  assumes inv: "pd_inv s xs pd" and i: "i < 1024" "pde_present (mem s) pd i" and k: "k < 1024"
    and s': "s' = s\<lparr>mem := (mem s)(table (mem s) pd i + 4 * k := e)\<rparr>"
  shows "pd_inv s' xs pd"
    and "pt_entry (mem s') pd v = (if PDX v = i \<and> PTX v = k then e else pt_entry (mem s) pd v)"
proof -
  let ?t = "table (mem s) pd i" and ?a = "table (mem s) pd i + 4 * k"
  have t: "valid_page s ?t" "?t \<notin> set xs" "?t \<noteq> pd" and pd: "valid_page s pd" and km: "kmem_inv s xs"
    and inj: "\<And>j. j < 1024 \<Longrightarrow> pde_present (mem s) pd j \<Longrightarrow> table (mem s) pd j = ?t \<Longrightarrow> j = i"
    and tj: "\<And>j. j < 1024 \<Longrightarrow> pde_present (mem s) pd j \<Longrightarrow> valid_page s (table (mem s) pd j)"
    using inv i by (auto simp: pd_inv_def)
  have dir: "mem s' (pd + 4 * j) = mem s (pd + 4 * j)" if "j < 1024" for j
    using slot_neq [OF t(3) valid_page_aligned [OF t(1)] valid_page_aligned [OF pd] k that]
    by (auto simp: s')
  then have pr: "pde_present (mem s') pd j = pde_present (mem s) pd j"
      "table (mem s') pd j = table (mem s) pd j" if "j < 1024" for j
    using that by (simp_all add: pde_present_def table_def)
  have vp: "valid_page s' = valid_page s" by (simp add: s' valid_page_def fun_eq_iff)
  have "mem s' x = mem s x" if "x \<in> set xs" for x
  proof -
    have "valid_page s x" "x \<noteq> ?t" using that km t by (auto simp: kmem_inv_def)
    then have "x \<noteq> ?a"
      using slot_neq [of x ?t 0 k] k t valid_page_aligned by auto
    then show ?thesis by (simp add: s')
  qed
  then have "free_chain (mem s') (freelist s) xs"
    using km free_chain_cong [of xs "mem s'" "mem s"] by (simp add: kmem_inv_def)
  then have "kmem_inv s' xs" using km vp by (simp add: kmem_inv_def s')
  then show "pd_inv s' xs pd" using inv pr vp by (simp add: pd_inv_def)
  show "pt_entry (mem s') pd v = (if PDX v = i \<and> PTX v = k then e else pt_entry (mem s) pd v)"
  proof (cases "pde_present (mem s) pd (PDX v)")
    case True
    have "table (mem s) pd (PDX v) + 4 * PTX v = ?a \<longleftrightarrow> PDX v = i \<and> PTX v = k"
    proof (cases "PDX v = i")
      case True
      then show ?thesis using k slot_eq_iff by simp
    next
      case False
      then have "table (mem s) pd (PDX v) \<noteq> ?t" using inj True PDX_less by metis
      then show ?thesis
        using slot_neq [of "table (mem s) pd (PDX v)" ?t "PTX v" k] k tj [OF PDX_less True] t False
          valid_page_aligned by auto
    qed
    then show ?thesis using True i pr by (simp add: pt_entry_def) (simp add: s')
  next
    case False
    then show ?thesis using i pr by (auto simp: pt_entry_def)
  qed
qed

lemma PTE_ADDR_rounddown: "PTE_ADDR x = PGROUNDDOWN x"
  by (simp add: PTE_ADDR_def PGROUNDDOWN_def PGSIZE_def)

lemma PTE_ADDR_or:
  assumes "p mod PGSIZE = 0" and "unat f < 4096"
  shows "PTE_ADDR (p OR f) = p"
proof -
  have "unat p mod 4096 = 0" using assms(1) by (simp only: page_aligned_unat)
  then have "PTE_ADDR p = p" and "PTE_ADDR f = 0"
    using assms(2) by (simp_all add: PTE_ADDR_rounddown word_unat_eq_iff PGROUNDDOWN_unat)
  then show ?thesis by (simp add: PTE_ADDR_def bit.conj_disj_distrib2)
qed

lemma V2P_aligned: "V2P v mod PGSIZE = 0 \<longleftrightarrow> v mod PGSIZE = 0"
proof -
  have "(n + 2147483648) mod 4096 = n mod 4096" for n :: nat
    using mod_mult_self1 [of n 524288 4096] by simp
  note shift = this
  have "unat (V2P v) mod 4096 = unat v mod 4096"
  proof (cases "2147483648 \<le> unat v")
    case True
    then have "unat (V2P v) = unat v - 2147483648"
      by (simp add: V2P_def KERNBASE_def unat_sub_if')
    with True shift [of "unat v - 2147483648"] show ?thesis by simp
  next
    case False
    then have "unat (V2P v) = unat v + 2147483648"
      by (simp add: V2P_def KERNBASE_def unat_sub_if')
    with shift show ?thesis by simp
  qed
  then show ?thesis by (simp only: page_aligned_unat)
qed

lemma P2V_V2P [simp]: "P2V (V2P a) = a" and V2P_P2V [simp]: "V2P (P2V a) = a"
  by (simp_all add: P2V_def V2P_def)

lemma or_PTE_P [simp]: "(x OR PTE_P) AND PTE_P = PTE_P" and PTE_P_nonzero [simp]: "PTE_P \<noteq> 0"
  by (simp_all add: PTE_P_def bit.conj_disj_distrib2)

lemma walk_found:
  "pde_present (mem s) pd (PDX va) \<Longrightarrow>
   walkpgdir pd va al s = (table (mem s) pd (PDX va) + 4 * PTX va, s)"
  by (simp add: walkpgdir_def Let_def pde_present_def table_def)

lemma walk_absent:
  "\<not> pde_present (mem s) pd (PDX va) \<Longrightarrow> walkpgdir pd va False s = (0, s)"
  by (simp add: walkpgdir_def Let_def pde_present_def)

definition PTE_table :: u32 where "PTE_table = PTE_P OR PTE_W OR PTE_U"

lemma walk_alloc:
  assumes inv: "pd_inv s (x # ys) pd" and absent: "\<not> pde_present (mem s) pd (PDX va)"
    and s': "walkpgdir pd va True s = (e, s')"
  shows "pd_inv s' ys pd" and "pde_present (mem s') pd (PDX va)"
    and "e = table (mem s') pd (PDX va) + 4 * PTX va"
    and "pt_entry (mem s') pd v = pt_entry (mem s) pd v"
    and "\<lbrakk>valid_page s p; p \<noteq> pd; p \<noteq> x; in_page p a\<rbrakk> \<Longrightarrow> mem s' a = mem s a"
    and "valid_page s' = valid_page s"
    and "\<lbrakk>i < 1024; pde_present (mem s') pd i\<rbrakk> \<Longrightarrow>
      table (mem s') pd i = x \<or> pde_present (mem s) pd i \<and> table (mem s') pd i = table (mem s) pd i"
proof -
  let ?pde = "pd + 4 * PDX va"
  let ?m = "(fill_words (mem s) x 0 1024)(?pde := V2P x OR PTE_P OR PTE_W OR PTE_U)"
  have km: "kmem_inv s (x # ys)" and pd: "valid_page s pd" "pd \<noteq> x" "pd \<notin> set ys"
    and tab: "\<And>i. i < 1024 \<Longrightarrow> pde_present (mem s) pd i \<Longrightarrow> valid_page s (table (mem s) pd i) \<and>
      table (mem s) pd i \<noteq> x \<and> table (mem s) pd i \<notin> set ys \<and> table (mem s) pd i \<noteq> pd"
    using inv by (auto simp: pd_inv_def)
  have x: "valid_page s x" "x \<noteq> 0" "x \<notin> set ys"
    using km valid_page_nonzero by (auto simp: kmem_inv_def)
  have k: "fst (kalloc s) = x" "kmem_inv (snd (kalloc s)) ys" "mem (snd (kalloc s)) = mem s"
    using kalloc_inv [OF km] by simp_all
  have e: "e = x + 4 * PTX va" "s' = (snd (kalloc s))\<lparr>mem := ?m\<rparr>"
    using s' absent k x by (auto simp: walkpgdir_def pde_present_def Let_def split: prod.splits)
  have vp: "valid_page s' = valid_page s"
    by (simp add: e(2) valid_page_def fun_eq_iff)
  have keep: "mem s' a = mem s a" if "valid_page s p" "p \<noteq> x" "in_page p a" "a \<noteq> ?pde" for p a
  proof -
    have "\<not> in_page x a"
      using that x other_page valid_page_aligned by blast
    then have "fill_words (mem s) x 0 1024 a = mem s a"
      using fill_words_outside [of 1024 a x] by (simp add: in_page_def)
    with that(4) show ?thesis by (simp add: e(2))
  qed
  have pde: "in_page pd ?pde" by (simp add: in_page_slot)
  show keep_page: "mem s' a = mem s a" if "valid_page s p" "p \<noteq> pd" "p \<noteq> x" "in_page p a" for p a
    using keep that pde pd other_page valid_page_aligned by metis
  have new: "mem s' ?pde = V2P x OR PTE_table" by (simp add: e(2) PTE_table_def or.assoc)
  have "PTE_ADDR (V2P x OR PTE_table) = V2P x"
    using x(1) valid_page_aligned V2P_aligned by (intro PTE_ADDR_or) (simp_all add: PTE_table_def pte_bits)
  then have tx: "table (mem s') pd (PDX va) = x" by (simp add: table_def new)
  have px: "pde_present (mem s') pd (PDX va)"
    unfolding pde_present_def new by (simp add: PTE_table_def pte_bits bit.conj_disj_distrib2)
  have old: "pde_present (mem s') pd i = pde_present (mem s) pd i"
      "table (mem s') pd i = table (mem s) pd i" if "i < 1024" "i \<noteq> PDX va" for i
    using keep [of pd "pd + 4 * i"] that pd in_page_slot [of i pd] slot_eq_iff [of i "PDX va" pd]
    by (simp_all add: pde_present_def table_def)
  show "e = table (mem s') pd (PDX va) + 4 * PTX va" using e(1) tx by simp
  show "pde_present (mem s') pd (PDX va)" by (rule px)
  show "valid_page s' = valid_page s" by (rule vp)
  show "table (mem s') pd i = x \<or> pde_present (mem s) pd i \<and> table (mem s') pd i = table (mem s) pd i"
    if "i < 1024" "pde_present (mem s') pd i" for i
    using that old [of i] tx by (cases "i = PDX va") auto
  show "pt_entry (mem s') pd v = pt_entry (mem s) pd v"
  proof (cases "PDX v = PDX va")
    case True
    have "x + 4 * PTX v \<noteq> ?pde" using slot_neq [of x pd "PTX v" "PDX va"] pd x valid_page_aligned by auto
    then have "mem s' (x + 4 * PTX v) = 0"
      using fill_words_inside [of 1024 "PTX v" "mem s" x 0] by (simp add: e(2))
    then show ?thesis using True absent tx px by (simp add: pt_entry_def)
  next
    case False
    then show ?thesis
      using old keep_page [of "table (mem s) pd (PDX v)" "table (mem s) pd (PDX v) + 4 * PTX v"]
        tab [of "PDX v"] in_page_slot by (simp add: pt_entry_def)
  qed
  have "mem s' y = mem s y" if "y \<in> set ys" for y
    using keep_page [of y y] km pd x that by (auto simp: kmem_inv_def in_page_self)
  then have "free_chain (mem s') (freelist s') ys"
    using k(2,3) free_chain_cong [of ys "mem s'" "mem s"] by (simp add: kmem_inv_def e(2))
  then have km': "kmem_inv s' ys"
    using k(2) by (simp add: kmem_inv_def e(2) valid_page_def)
  have tabs: "valid_page s' (table (mem s') pd i) \<and> table (mem s') pd i \<notin> set ys \<and>
      table (mem s') pd i \<noteq> pd" if "i < 1024" "pde_present (mem s') pd i" for i
    using that old [of i] tab [of i] tx x pd vp by (cases "i = PDX va") auto
  have inj: "i = j" if "i < 1024" "j < 1024" "pde_present (mem s') pd i" "pde_present (mem s') pd j"
      "table (mem s') pd i = table (mem s') pd j" for i j
  proof (cases "i = PDX va"; cases "j = PDX va")
    assume "i \<noteq> PDX va" "j \<noteq> PDX va"
    then show ?thesis using that old inv by (simp add: pd_inv_def)
  qed (use that old tx tab in auto)
  show "pd_inv s' ys pd"
    unfolding pd_inv_def using km' pd(1,3) vp tabs by (auto intro: inj)
qed

text \<open>\<open>outside s xs pd p\<close>: the page \<open>p\<close> is neither the directory, nor one of its tables, nor free.\<close>

definition outside :: "'a kmem_scheme \<Rightarrow> u32 list \<Rightarrow> u32 \<Rightarrow> u32 \<Rightarrow> bool" where
  "outside s xs pd p \<longleftrightarrow> valid_page s p \<and> p \<noteq> pd \<and> p \<notin> set xs \<and>
     (\<forall>i < 1024. pde_present (mem s) pd i \<longrightarrow> table (mem s) pd i \<noteq> p)"

lemma map_one:
  assumes inv: "pd_inv s xs pd" and "xs \<noteq> []"
  shows "\<exists>pte s1 xs1. walkpgdir pd a True s = (pte, s1) \<and> pte \<noteq> 0 \<and>
     mem s1 pte = pt_entry (mem s) pd a \<and> (xs1 = xs \<or> xs1 = tl xs) \<and> valid_page s1 = valid_page s \<and>
     (\<forall>e. let s2 = s1\<lparr>mem := (mem s1)(pte := e)\<rparr> in pd_inv s2 xs1 pd \<and>
        (\<forall>v. pt_entry (mem s2) pd v =
           (if PGROUNDDOWN v = PGROUNDDOWN a then e else pt_entry (mem s) pd v)) \<and>
        (\<forall>p. outside s xs pd p \<longrightarrow>
           outside s2 xs1 pd p \<and> (\<forall>b. in_page p b \<longrightarrow> mem s2 b = mem s b)))"
proof -
  obtain x ys where xs: "xs = x # ys" using assms(2) by (cases xs) auto
  obtain pte s1 where w: "walkpgdir pd a True s = (pte, s1)" by (cases "walkpgdir pd a True s")
  obtain xs1 where 1: "pd_inv s1 xs1 pd" "pde_present (mem s1) pd (PDX a)"
      "pte = table (mem s1) pd (PDX a) + 4 * PTX a" "xs1 = xs \<or> xs1 = tl xs"
      "valid_page s1 = valid_page s" "\<And>v. pt_entry (mem s1) pd v = pt_entry (mem s) pd v"
      "\<And>p. outside s xs pd p \<Longrightarrow> outside s1 xs1 pd p \<and> (\<forall>b. in_page p b \<longrightarrow> mem s1 b = mem s b)"
  proof (cases "pde_present (mem s) pd (PDX a)")
    case True
    then have "s1 = s" "pte = table (mem s) pd (PDX a) + 4 * PTX a"
      using w walk_found [OF True] by auto
    then show ?thesis using that [of xs] inv True by simp
  next
    case False
    note wa = walk_alloc [OF inv [unfolded xs] False w]
    have "outside s1 ys pd p" if "outside s xs pd p" for p
      using that wa(6,7) unfolding outside_def xs by (metis list.set_intros(1,2))
    moreover have "mem s1 b = mem s b" if "outside s xs pd p" "in_page p b" for p b
      using that wa(5) [of p b] by (auto simp: outside_def xs)
    ultimately show ?thesis using that [of ys] wa xs by simp
  qed
  let ?t = "table (mem s1) pd (PDX a)"
  have t: "valid_page s1 ?t" using 1(1,2) by (simp add: pd_inv_def)
  have "pte \<noteq> 0"
    using slot_neq [of ?t 0 "PTX a" 0] valid_page_nonzero [OF t] valid_page_aligned [OF t] 1(3)
    by (simp add: PGSIZE_def)
  moreover have "mem s1 pte = pt_entry (mem s) pd a"
  proof -
    have "pt_entry (mem s1) pd a = mem s1 pte" using 1(2,3) by (simp add: pt_entry_def)
    then show ?thesis using 1(6) [of a] by simp
  qed
  moreover have "let s2 = s1\<lparr>mem := (mem s1)(pte := e)\<rparr> in pd_inv s2 xs1 pd \<and>
      (\<forall>v. pt_entry (mem s2) pd v =
         (if PGROUNDDOWN v = PGROUNDDOWN a then e else pt_entry (mem s) pd v)) \<and>
      (\<forall>p. outside s xs pd p \<longrightarrow>
         outside s2 xs1 pd p \<and> (\<forall>b. in_page p b \<longrightarrow> mem s2 b = mem s b))" for e
  proof -
    let ?s2 = "s1\<lparr>mem := (mem s1)(pte := e)\<rparr>"
    have "pd_inv ?s2 xs1 pd"
      by (rule pd_inv_store [OF 1(1) _ 1(2), of "PTX a" _ e]) (simp_all add: 1(3))
    moreover have "pt_entry (mem ?s2) pd v =
        (if PGROUNDDOWN v = PGROUNDDOWN a then e else pt_entry (mem s) pd v)" for v
      using pd_inv_store(2) [OF 1(1) _ 1(2), of "PTX a" ?s2 e v] same_slot_iff [of v a]
      by (simp add: 1(3,6))
    moreover have "outside ?s2 xs1 pd p \<and> (\<forall>b. in_page p b \<longrightarrow> mem ?s2 b = mem s b)"
      if "outside s xs pd p" for p
    proof -
      have p: "outside s1 xs1 pd p" "\<And>b. in_page p b \<Longrightarrow> mem s1 b = mem s b" using 1(7) that by auto
      then have pt: "valid_page s1 p" "?t \<noteq> p" using 1(2) by (simp_all add: outside_def)
      have "b \<noteq> pte" if "in_page p b" for b
        using that other_page [of p b ?t] in_page_slot [of "PTX a" ?t] pt t valid_page_aligned 1(3) by auto
      moreover have "outside ?s2 xs1 pd p"
      proof -
        have "pd + 4 * i \<noteq> pte" if "i < 1024" for i
        proof -
          have "valid_page s1 pd" "pd \<noteq> ?t"
            using 1(1,2) PDX_less [of a] unfolding pd_inv_def by metis+
          then show ?thesis
            using slot_neq [of pd ?t i "PTX a"] t that 1(3) by (simp add: valid_page_aligned)
        qed
        then show ?thesis
          using p(1) by (simp add: outside_def pde_present_def table_def valid_page_def)
      qed
      ultimately show ?thesis using p(2) by simp
    qed
    ultimately show ?thesis by (simp add: Let_def)
  qed
  ultimately show ?thesis using w 1(4,5) by blast
qed

subsection \<open>Mapping a range\<close>

text \<open>The number of the page of \<open>v\<close> counted from the aligned address \<open>a\<close>.\<close>

definition page_no :: "u32 \<Rightarrow> u32 \<Rightarrow> nat" where
  "page_no a v = unat (PGROUNDDOWN v - a) div 4096"

lemma aligned_diff:
  assumes "w mod PGSIZE = 0" and "a mod PGSIZE = 0"
  shows "4096 dvd unat (w - a)"
proof -
  obtain k l where k: "unat w = 4096 * k" and l: "unat a = 4096 * l"
    using assms by (auto simp: page_aligned_unat elim!: dvdE)
  show ?thesis
  proof (cases "unat a \<le> unat w")
    case True
    then have "unat (w - a) = 4096 * k - 4096 * l" by (simp add: unat_sub_if' k l)
    then show ?thesis by (metis dvd_triv_left dvd_diff_nat)
  next
    case False
    then have "unat (w - a) = 4096 * (2 ^ 20 + k) - 4096 * l" by (simp add: unat_sub_if' k l)
    then show ?thesis by (metis dvd_triv_left dvd_diff_nat)
  qed
qed

lemma rounddown_aligned: "PGROUNDDOWN v mod PGSIZE = 0"
  by (simp only: page_aligned_unat) (simp add: PGROUNDDOWN_unat minus_mod_eq_mult_div)

lemma page_no_Suc:
  assumes "a mod PGSIZE = 0"
  shows "PGROUNDDOWN v = a \<Longrightarrow> page_no a v = 0 \<and> page_no (a + PGSIZE) v = 2 ^ 20 - 1"
    and "PGROUNDDOWN v \<noteq> a \<Longrightarrow> page_no a v = Suc (page_no (a + PGSIZE) v)"
proof -
  let ?w = "PGROUNDDOWN v"
  obtain d where d: "unat (?w - a) = 4096 * d"
    using aligned_diff [OF rounddown_aligned assms] by (auto elim: dvdE)
  show "?w = a \<Longrightarrow> page_no a v = 0 \<and> page_no (a + PGSIZE) v = 2 ^ 20 - 1"
    by (simp add: page_no_def PGSIZE_def)
  assume "?w \<noteq> a"
  then have "unat (?w - a) \<noteq> 0" by (simp add: unat_eq_0)
  with d have ge: "4096 \<le> unat (?w - a)" by simp
  then have "unat (?w - (a + PGSIZE)) = 4096 * d - 4096"
    using unat_sub [of 4096 "?w - a"] by (simp add: PGSIZE_def word_le_nat_alt d diff_diff_eq)
  then show "page_no a v = Suc (page_no (a + PGSIZE) v)"
    using ge by (simp add: page_no_def d)
qed

text \<open>What mapping the pages \<open>0..n\<close> from \<open>a\<close> to the frames from \<open>pa\<close> makes of the memory.\<close>

definition mapped_range ::
  "'a kmem_scheme \<Rightarrow> u32 list \<Rightarrow> u32 \<Rightarrow> u32 \<Rightarrow> nat \<Rightarrow> u32 \<Rightarrow> u32 \<Rightarrow> 'a kmem_scheme \<Rightarrow> u32 list \<Rightarrow> bool" where
  "mapped_range s xs pd a n pa perm s' xs' \<longleftrightarrow>
     pd_inv s' xs' pd \<and> set xs' \<subseteq> set xs \<and> valid_page s' = valid_page s \<and>
     (\<forall>v. pt_entry (mem s') pd v =
        (if page_no a v \<le> n then (pa + of_nat (page_no a v) * PGSIZE) OR perm OR PTE_P
         else pt_entry (mem s) pd v)) \<and>
     (\<forall>p. outside s xs pd p \<longrightarrow>
        outside s' xs' pd p \<and> (\<forall>b. in_page p b \<longrightarrow> mem s' b = mem s b))"

lemma page_no_0: "a mod PGSIZE = 0 \<Longrightarrow> page_no a v \<le> 0 \<longleftrightarrow> PGROUNDDOWN v = a"
  using page_no_Suc [of a v] by (cases "PGROUNDDOWN v = a") auto

lemma rounddown_id: "a mod PGSIZE = 0 \<Longrightarrow> PGROUNDDOWN a = a"
  using in_page_rounddown [of a a] in_page_self [of a] by simp

lemma rounddown_offset: "a mod PGSIZE = 0 \<Longrightarrow> unat r < 4096 \<Longrightarrow> PGROUNDDOWN (a + r) = a"
  using in_page_rounddown [of a "a + r"] by (simp add: in_page_def)

lemma aligned_steps: "a mod PGSIZE = 0 \<Longrightarrow> (a + of_nat n * PGSIZE) mod PGSIZE = 0"
proof (induction n)
  case (Suc n)
  have "a + of_nat (Suc n) * PGSIZE = (a + of_nat n * PGSIZE) + PGSIZE" by (simp add: algebra_simps)
  then show ?case using aligned_plus Suc by metis
qed simp

lemma mapped_one:
  assumes inv: "pd_inv s xs pd" and "xs \<noteq> []" and a: "a mod PGSIZE = 0"
    and absent: "pt_entry (mem s) pd a AND PTE_P = 0"
  shows "\<exists>pte s1 xs1 s2. walkpgdir pd a True s = (pte, s1) \<and> pte \<noteq> 0 \<and> mem s1 pte AND PTE_P = 0 \<and>
     s2 = s1\<lparr>mem := (mem s1)(pte := pa OR perm OR PTE_P)\<rparr> \<and>
     mapped_range s xs pd a 0 pa perm s2 xs1 \<and> length xs \<le> Suc (length xs1)"
proof -
  let ?e = "pa OR perm OR PTE_P"
  obtain pte s1 xs1 where w: "walkpgdir pd a True s = (pte, s1)" "pte \<noteq> 0"
      "mem s1 pte = pt_entry (mem s) pd a" "xs1 = xs \<or> xs1 = tl xs" "valid_page s1 = valid_page s"
    and st: "let s2 = s1\<lparr>mem := (mem s1)(pte := ?e)\<rparr> in pd_inv s2 xs1 pd \<and>
        (\<forall>v. pt_entry (mem s2) pd v =
           (if PGROUNDDOWN v = PGROUNDDOWN a then ?e else pt_entry (mem s) pd v)) \<and>
        (\<forall>p. outside s xs pd p \<longrightarrow>
           outside s2 xs1 pd p \<and> (\<forall>b. in_page p b \<longrightarrow> mem s2 b = mem s b))"
    using map_one [OF inv assms(2), of a] by blast
  let ?s2 = "s1\<lparr>mem := (mem s1)(pte := ?e)\<rparr>"
  have "valid_page ?s2 = valid_page s" using w(5) by (simp add: valid_page_def fun_eq_iff)
  moreover have len: "length xs \<le> Suc (length xs1)" and sub: "set xs1 \<subseteq> set xs"
    using w(4) assms(2) by (cases xs; auto)+
  moreover have "pt_entry (mem ?s2) pd v = (if page_no a v \<le> 0
      then (pa + of_nat (page_no a v) * PGSIZE) OR perm OR PTE_P else pt_entry (mem s) pd v)" for v
    using st page_no_0 [OF a, of v] rounddown_id [OF a] unfolding Let_def by auto
  ultimately have "mapped_range s xs pd a 0 pa perm ?s2 xs1"
    using st unfolding mapped_range_def Let_def by blast
  with w absent len show ?thesis by auto
qed

lemma mapped_range_Suc:
  assumes "mapped_range s xs pd a 0 pa perm s1 xs1"
    and "mapped_range s1 xs1 pd (a + PGSIZE) n (pa + PGSIZE) perm s2 xs2"
    and a: "a mod PGSIZE = 0" and n: "n < 2 ^ 20 - 1"
  shows "mapped_range s xs pd a (Suc n) pa perm s2 xs2"
proof -
  have "pt_entry (mem s2) pd v = (if page_no a v \<le> Suc n
      then (pa + of_nat (page_no a v) * PGSIZE) OR perm OR PTE_P else pt_entry (mem s) pd v)" for v
  proof (cases "PGROUNDDOWN v = a")
    case True
    then have v: "page_no a v = 0" "\<not> page_no (a + PGSIZE) v \<le> n"
      using page_no_Suc(1) [OF a True] n by auto
    then have "pt_entry (mem s2) pd v = pt_entry (mem s1) pd v"
      using assms(2) by (simp add: mapped_range_def)
    then show ?thesis using assms(1) v by (simp add: mapped_range_def)
  next
    case False
    then have v: "page_no a v = Suc (page_no (a + PGSIZE) v)" by (rule page_no_Suc(2) [OF a])
    then have "pt_entry (mem s1) pd v = pt_entry (mem s) pd v"
      using assms(1) by (simp add: mapped_range_def)
    then show ?thesis using assms(2) v by (simp add: mapped_range_def algebra_simps)
  qed
  then show ?thesis
    using assms(1,2) unfolding mapped_range_def by (metis (no_types, lifting) subset_trans)
qed

lemma mappages_from_ok:
  assumes "pd_inv s xs pd" and "n < length xs" and "n < 2 ^ 20 - 1" and "a mod PGSIZE = 0"
    and "lst = a + of_nat n * PGSIZE"
    and "\<And>v. page_no a v \<le> n \<Longrightarrow> pt_entry (mem s) pd v AND PTE_P = 0"
  shows "\<exists>s' xs'. mappages_from pd perm (Suc n) a lst pa s = Ret (0, s') \<and>
     mapped_range s xs pd a n pa perm s' xs' \<and> length xs \<le> length xs' + Suc n"
  using assms
proof (induction n arbitrary: s xs a pa)
  case (0 s xs a pa)
  then have "pt_entry (mem s) pd a AND PTE_P = 0"
    using 0(6) [of a] page_no_0 [OF 0(4), of a] rounddown_id [OF 0(4)] by simp
  then show ?case
    using mapped_one [OF 0(1) _ 0(4), of pa perm] 0(2,5) by auto
next
  case (Suc n s xs a pa)
  have "pt_entry (mem s) pd a AND PTE_P = 0"
    using page_no_0 [OF Suc.prems(4), of a] rounddown_id [OF Suc.prems(4)] Suc.prems(6) [of a] by simp
  moreover have "xs \<noteq> []" using Suc.prems(2) by auto
  ultimately obtain pte s1 xs1 s2 where 1: "walkpgdir pd a True s = (pte, s1)" "pte \<noteq> 0"
      "mem s1 pte AND PTE_P = 0" "s2 = s1\<lparr>mem := (mem s1)(pte := pa OR perm OR PTE_P)\<rparr>"
      "mapped_range s xs pd a 0 pa perm s2 xs1" "length xs \<le> Suc (length xs1)"
    using mapped_one [OF Suc.prems(1) _ Suc.prems(4), of pa perm] by blast
  have "unat (of_nat (Suc n * 4096) :: u32) = Suc n * 4096"
    using Suc.prems(3) by (intro unat_of_nat_less) simp
  then have "(of_nat (Suc n * 4096) :: u32) \<noteq> 0"
    by (metis mult_is_0 nat.distinct(1) unat_0 zero_neq_numeral)
  then have "(of_nat (Suc n) * PGSIZE :: u32) \<noteq> 0"
    by (simp only: PGSIZE_def of_nat_mult of_nat_numeral not_False_eq_True)
  then have "a \<noteq> lst" using Suc.prems(5) by simp
  moreover have "\<exists>s' xs'. mappages_from pd perm (Suc n) (a + PGSIZE) lst (pa + PGSIZE) s2 = Ret (0, s') \<and>
     mapped_range s2 xs1 pd (a + PGSIZE) n (pa + PGSIZE) perm s' xs' \<and> length xs1 \<le> length xs' + Suc n"
  proof (rule Suc.IH)
    show "pd_inv s2 xs1 pd" using 1(5) by (simp add: mapped_range_def)
    show "n < length xs1" "n < 2 ^ 20 - 1" using 1(6) Suc.prems(2,3) by simp_all
    show "(a + PGSIZE) mod PGSIZE = 0" by (rule aligned_plus [OF Suc.prems(4)])
    show "lst = a + PGSIZE + of_nat n * PGSIZE" using Suc.prems(5) by (simp add: algebra_simps)
    fix v
    assume "page_no (a + PGSIZE) v \<le> n"
    then have "PGROUNDDOWN v \<noteq> a"
      using Suc.prems(3) page_no_Suc(1) [OF Suc.prems(4), of v] by auto
    then have "page_no a v = Suc (page_no (a + PGSIZE) v)" by (rule page_no_Suc(2) [OF Suc.prems(4)])
    then show "pt_entry (mem s2) pd v AND PTE_P = 0"
      using 1(5) Suc.prems(6) [of v] \<open>page_no (a + PGSIZE) v \<le> n\<close> by (simp add: mapped_range_def)
  qed
  ultimately show ?case
    using 1 mapped_range_Suc [OF 1(5) _ Suc.prems(4)] Suc.prems(3) by fastforce
qed

text \<open>C25: \<^verbatim>\<open>mappages\<close> of a page-aligned range of unmapped pages, with as many free pages as the
  range has, maps every page of it to its frame with the given permissions, changes no other
  mapping and no page outside the directory and its tables, and keeps directory, tables and free
  list disjoint.\<close>
theorem mappages_maps_range:
  assumes "pd_inv s xs pd" and "va mod PGSIZE = 0" and "n < length xs" and "n < 2 ^ 20 - 1"
    and "\<And>v. page_no va v \<le> n \<Longrightarrow> pt_entry (mem s) pd v AND PTE_P = 0"
  shows "\<exists>s' xs'. mappages pd va (of_nat (Suc n) * PGSIZE) pa perm s = Ret (0, s') \<and>
     pd_inv s' xs' pd \<and> set xs' \<subseteq> set xs \<and>
     (\<forall>v. pt_entry (mem s') pd v =
        (if page_no va v \<le> n then (pa + of_nat (page_no va v) * PGSIZE) OR perm OR PTE_P
         else pt_entry (mem s) pd v)) \<and>
     (\<forall>p. outside s xs pd p \<longrightarrow> (\<forall>b. in_page p b \<longrightarrow> mem s' b = mem s b))"
proof -
  let ?lst = "va + of_nat n * PGSIZE"
  have "PGROUNDDOWN (?lst + 4095) = ?lst"
    using aligned_steps [OF assms(2), of n] by (intro rounddown_offset) simp_all
  then have lst: "PGROUNDDOWN (va + of_nat (Suc n) * PGSIZE - 1) = ?lst"
    by (simp add: PGSIZE_def algebra_simps)
  have "unat (of_nat (n * 4096) :: u32) = n * 4096"
    using assms(4) by (intro unat_of_nat_less) simp
  then have cnt: "unat (?lst - va) div 4096 + 1 = Suc n" by (simp add: PGSIZE_def)
  have "mappages pd va (of_nat (Suc n) * PGSIZE) pa perm s = mappages_from pd perm (Suc n) va ?lst pa s"
    unfolding mappages_def Let_def lst rounddown_id [OF assms(2)] cnt ..
  then show ?thesis
    using mappages_from_ok [OF assms(1,3,4,2) refl assms(5), of perm pa]
    unfolding mapped_range_def by fastforce
qed

definition two_pages :: kmem where
  "two_pages = \<lparr>mem = (\<lambda>_. 0)(0x80200000 := 0x80201000), kend = 0x80115000, use_lock = True,
     freelist = 0x80200000, free_pages = 2\<rparr>"

lemma two_pages_absent: "\<not> pde_present (mem two_pages) pd i"
  by (simp add: pde_present_def two_pages_def PTE_P_def)

lemma two_pages_inv: "pd_inv two_pages [0x80200000, 0x80201000] 0x80202000"
  using two_pages_absent
  by (simp add: pd_inv_def) (simp add: two_pages_def kmem_inv_def valid_page_def layout_defs)

theorem mappages_maps_range_witness:
  "\<exists>s'. mappages 0x80202000 0 4096 0x202000 (PTE_W OR PTE_U) two_pages = Ret (0, s') \<and>
     pt_entry (mem s') 0x80202000 0x123 = 0x202007"
proof -
  have "page_no 0 0x123 = 0" by (simp add: page_no_def PGROUNDDOWN_def PGSIZE_def)
  then show ?thesis
    using mappages_maps_range [OF two_pages_inv, of 0 0 "0x202000" "PTE_W OR PTE_U"]
    by (auto simp: two_pages_absent pt_entry_def [of "mem two_pages"] PGSIZE_def pte_bits)
qed

end
