(* ===== verification/Sleeplock.thy ===== *)
theory Sleeplock
  imports Prelude
begin

text \<open>
  Sleep locks (\<^verbatim>\<open>sleeplock.c\<close>) and the protocol of \<^verbatim>\<open>sleep\<close> and \<^verbatim>\<open>wakeup\<close> (\<^verbatim>\<open>proc.c\<close>)
  under them.  The first part is what each call does when it runs alone.  The second cuts the
  calls at every acquisition and release of the lock's spin lock and of \<^verbatim>\<open>ptable.lock\<close> and lets
  any number of processes interleave them.
\<close>

subsection \<open>The operations\<close>

record sleeplock =
  slocked :: u32
  spid :: int

definition initsleeplock :: "sleeplock \<Rightarrow> sleeplock" where
  "initsleeplock l = l\<lparr>slocked := 0, spid := 0\<rparr>"

text \<open>\<open>me\<close> is the pid of the running process; with the lock taken it sleeps.\<close>

definition acquiresleep :: "int \<Rightarrow> sleeplock \<Rightarrow> sleeplock outcome" where
  "acquiresleep me l = (if slocked l \<noteq> 0 then Blocked else Ret (l\<lparr>slocked := 1, spid := me\<rparr>))"

definition releasesleep :: "sleeplock \<Rightarrow> sleeplock" where
  "releasesleep l = l\<lparr>slocked := 0, spid := 0\<rparr>"

definition holdingsleep :: "int \<Rightarrow> sleeplock \<Rightarrow> bool" where
  "holdingsleep me l \<longleftrightarrow> slocked l \<noteq> 0 \<and> spid l = me"

subsection \<open>Interleaved processes\<close>

text \<open>
  In \<^verbatim>\<open>acquiresleep\<close> a process waits for the spin lock (\<open>WantA\<close>), tests \<^verbatim>\<open>locked\<close> under it
  (\<open>CheckA\<close>), and either has taken the sleep lock (\<open>GotA\<close>, then \<open>Owns\<close>) or calls \<^verbatim>\<open>sleep\<close>: it
  waits for \<^verbatim>\<open>ptable.lock\<close> (\<open>WantPt\<close>), holds both locks (\<open>HasBoth\<close>), has given up the spin lock
  (\<open>HasPt\<close>), is asleep with \<^verbatim>\<open>ptable.lock\<close> released by the scheduler (\<open>Asleep\<close>), was made
  runnable (\<open>Woken\<close>), runs again under \<^verbatim>\<open>ptable.lock\<close> (\<open>Back\<close>).  In \<^verbatim>\<open>releasesleep\<close> it waits for
  the spin lock (\<open>WantR\<close>), holds it (\<open>HasR\<close>), has cleared \<^verbatim>\<open>locked\<close> (\<open>Cleared\<close>), is in \<^verbatim>\<open>wakeup\<close>
  under \<^verbatim>\<open>ptable.lock\<close> (\<open>Waking\<close>), is back from it (\<open>Done\<close>).  Process \<open>i\<close> has pid \<open>i\<close>.
\<close>

datatype sl_pc =
    Idle | WantA | CheckA | GotA | Owns | WantPt | HasBoth | HasPt | Asleep | Woken | Back
  | WantR | HasR | Cleared | Waking | Done

record sl_sys =
  sl :: sleeplock
  lk_owner :: "nat option"
  pt_owner :: "nat option"
  sl_at :: "nat \<Rightarrow> sl_pc"

definition goto :: "nat \<Rightarrow> sl_pc \<Rightarrow> sl_sys \<Rightarrow> sl_sys" where
  "goto i pc s = s\<lparr>sl_at := (sl_at s)(i := pc)\<rparr>"

inductive sl_step :: "sl_sys \<Rightarrow> sl_sys \<Rightarrow> bool" where
  call: "sl_at s i = Idle \<Longrightarrow> sl_step s (goto i WantA s)"
| lock: "sl_at s i = WantA \<Longrightarrow> lk_owner s = None \<Longrightarrow> sl_step s (goto i CheckA (s\<lparr>lk_owner := Some i\<rparr>))"
| take: "sl_at s i = CheckA \<Longrightarrow> slocked (sl s) = 0 \<Longrightarrow>
     sl_step s (goto i GotA (s\<lparr>sl := (sl s)\<lparr>slocked := 1, spid := int i\<rparr>\<rparr>))"
| unlock: "sl_at s i = GotA \<Longrightarrow> sl_step s (goto i Owns (s\<lparr>lk_owner := None\<rparr>))"
| busy: "sl_at s i = CheckA \<Longrightarrow> slocked (sl s) \<noteq> 0 \<Longrightarrow> sl_step s (goto i WantPt s)"
| sleep_pt: "sl_at s i = WantPt \<Longrightarrow> pt_owner s = None \<Longrightarrow>
     sl_step s (goto i HasBoth (s\<lparr>pt_owner := Some i\<rparr>))"
| sleep_lk: "sl_at s i = HasBoth \<Longrightarrow> sl_step s (goto i HasPt (s\<lparr>lk_owner := None\<rparr>))"
| sched: "sl_at s i = HasPt \<Longrightarrow> sl_step s (goto i Asleep (s\<lparr>pt_owner := None\<rparr>))"
| killed: "sl_at s i = Asleep \<Longrightarrow> sl_step s (goto i Woken s)"
| resume: "sl_at s i = Woken \<Longrightarrow> pt_owner s = None \<Longrightarrow>
     sl_step s (goto i Back (s\<lparr>pt_owner := Some i\<rparr>))"
| relock: "sl_at s i = Back \<Longrightarrow> sl_step s (goto i WantA (s\<lparr>pt_owner := None\<rparr>))"
| release: "sl_at s i = Owns \<Longrightarrow> sl_step s (goto i WantR s)"
| rel_lock: "sl_at s i = WantR \<Longrightarrow> lk_owner s = None \<Longrightarrow> sl_step s (goto i HasR (s\<lparr>lk_owner := Some i\<rparr>))"
| clear: "sl_at s i = HasR \<Longrightarrow>
     sl_step s (goto i Cleared (s\<lparr>sl := (sl s)\<lparr>slocked := 0, spid := 0\<rparr>\<rparr>))"
| wake_pt: "sl_at s i = Cleared \<Longrightarrow> pt_owner s = None \<Longrightarrow>
     sl_step s (goto i Waking (s\<lparr>pt_owner := Some i\<rparr>))"
| wake: "sl_at s i = Waking \<Longrightarrow>
     sl_step s (goto i Done (s\<lparr>pt_owner := None,
       sl_at := (\<lambda>j. if sl_at s j = Asleep then Woken else sl_at s j)\<rparr>))"
| finish: "sl_at s i = Done \<Longrightarrow> sl_step s (goto i Idle (s\<lparr>lk_owner := None\<rparr>))"

inductive_cases sl_stepE: "sl_step s t"

definition sl_init :: sl_sys where
  "sl_init = \<lparr>sl = \<lparr>slocked = 0, spid = 0\<rparr>, lk_owner = None, pt_owner = None, sl_at = (\<lambda>_. Idle)\<rparr>"

inductive sl_reachable :: "sl_sys \<Rightarrow> bool" where
  init: "sl_reachable sl_init"
| step: "sl_reachable s \<Longrightarrow> sl_step s t \<Longrightarrow> sl_reachable t"

fun holds_lk :: "sl_pc \<Rightarrow> bool" where
  "holds_lk CheckA = True" | "holds_lk GotA = True" | "holds_lk WantPt = True"
| "holds_lk HasBoth = True" | "holds_lk HasR = True" | "holds_lk Cleared = True"
| "holds_lk Waking = True" | "holds_lk Done = True" | "holds_lk _ = False"

fun holds_pt :: "sl_pc \<Rightarrow> bool" where
  "holds_pt HasBoth = True" | "holds_pt HasPt = True" | "holds_pt Back = True"
| "holds_pt Waking = True" | "holds_pt _ = False"

fun owns :: "sl_pc \<Rightarrow> bool" where
  "owns GotA = True" | "owns Owns = True" | "owns WantR = True" | "owns HasR = True"
| "owns _ = False"

fun about_to_wake :: "sl_pc \<Rightarrow> bool" where
  "about_to_wake Cleared = True" | "about_to_wake Waking = True" | "about_to_wake _ = False"

text \<open>The invariant, with \<open>ow\<close> the process that has the sleep lock.  Its last clause is the one
  that no wakeup is lost: if a process sleeps or is about to, the lock is taken or the process
  that holds the spin lock is on its way to \<^verbatim>\<open>wakeup1\<close>.\<close>

definition sl_inv :: "sl_sys \<Rightarrow> nat option \<Rightarrow> bool" where
  "sl_inv s ow \<longleftrightarrow>
     (\<forall>i. holds_lk (sl_at s i) \<longleftrightarrow> lk_owner s = Some i) \<and>
     (\<forall>i. holds_pt (sl_at s i) \<longleftrightarrow> pt_owner s = Some i) \<and>
     (\<forall>i. owns (sl_at s i) \<longleftrightarrow> ow = Some i) \<and>
     (slocked (sl s) \<noteq> 0 \<longleftrightarrow> ow \<noteq> None) \<and>
     (\<forall>i. ow = Some i \<longrightarrow> spid (sl s) = int i) \<and>
     (\<forall>i. sl_at s i = WantPt \<or> sl_at s i = HasBoth \<longrightarrow> ow \<noteq> None) \<and>
     (\<forall>i. sl_at s i = HasPt \<or> sl_at s i = Asleep \<longrightarrow>
        ow \<noteq> None \<or> lk_owner s \<noteq> None \<and> about_to_wake (sl_at s (the (lk_owner s))))"

lemma sl_inv_init: "sl_inv sl_init None"
  by (simp add: sl_inv_def sl_init_def)

lemma sl_inv_at:
  assumes "sl_inv s ow"
  shows "holds_lk (sl_at s i) \<longleftrightarrow> lk_owner s = Some i"
    and "holds_pt (sl_at s i) \<longleftrightarrow> pt_owner s = Some i"
    and "owns (sl_at s i) \<longleftrightarrow> ow = Some i"
  using assms by (simp_all add: sl_inv_def)

lemma sl_step_inv: "sl_step s t \<Longrightarrow> sl_inv s ow \<Longrightarrow> \<exists>ow'. sl_inv t ow'"
proof (induction rule: sl_step.induct)
  case (call s i)
  then have "sl_inv (goto i WantA s) ow"
    using sl_inv_at [of s ow i] unfolding sl_inv_def goto_def by auto
  then show ?case ..
next
  case (lock s i)
  then have "sl_inv (goto i CheckA (s\<lparr>lk_owner := Some i\<rparr>)) ow"
    using sl_inv_at [of s ow i] unfolding sl_inv_def goto_def by auto
  then show ?case ..
next
  case (take s i)
  then have "sl_inv (goto i GotA (s\<lparr>sl := (sl s)\<lparr>slocked := 1, spid := int i\<rparr>\<rparr>)) (Some i)"
    using sl_inv_at [of s ow i] unfolding sl_inv_def goto_def by auto
  then show ?case ..
next
  case (unlock s i)
  then have "sl_inv (goto i Owns (s\<lparr>lk_owner := None\<rparr>)) ow"
    using sl_inv_at [of s ow i] unfolding sl_inv_def goto_def by auto
  then show ?case ..
next
  case (busy s i)
  then have "sl_inv (goto i WantPt s) ow"
    using sl_inv_at [of s ow i] unfolding sl_inv_def goto_def by auto
  then show ?case ..
next
  case (sleep_pt s i)
  then have "sl_inv (goto i HasBoth (s\<lparr>pt_owner := Some i\<rparr>)) ow"
    using sl_inv_at [of s ow i] unfolding sl_inv_def goto_def by auto
  then show ?case ..
next
  case (sleep_lk s i)
  then have "sl_inv (goto i HasPt (s\<lparr>lk_owner := None\<rparr>)) ow"
    using sl_inv_at [of s ow i] unfolding sl_inv_def goto_def by auto
  then show ?case ..
next
  case (sched s i)
  then have "sl_inv (goto i Asleep (s\<lparr>pt_owner := None\<rparr>)) ow"
    using sl_inv_at [of s ow i] unfolding sl_inv_def goto_def by auto
  then show ?case ..
next
  case (killed s i)
  then have "sl_inv (goto i Woken s) ow"
    using sl_inv_at [of s ow i] unfolding sl_inv_def goto_def by auto
  then show ?case ..
next
  case (resume s i)
  then have "sl_inv (goto i Back (s\<lparr>pt_owner := Some i\<rparr>)) ow"
    using sl_inv_at [of s ow i] unfolding sl_inv_def goto_def by auto
  then show ?case ..
next
  case (relock s i)
  then have "sl_inv (goto i WantA (s\<lparr>pt_owner := None\<rparr>)) ow"
    using sl_inv_at [of s ow i] unfolding sl_inv_def goto_def by auto
  then show ?case ..
next
  case (release s i)
  then have "sl_inv (goto i WantR s) ow"
    using sl_inv_at [of s ow i] unfolding sl_inv_def goto_def by auto
  then show ?case ..
next
  case (rel_lock s i)
  then have "sl_inv (goto i HasR (s\<lparr>lk_owner := Some i\<rparr>)) ow"
    using sl_inv_at [of s ow i] unfolding sl_inv_def goto_def by auto
  then show ?case ..
next
  case (clear s i)
  then have "sl_inv (goto i Cleared (s\<lparr>sl := (sl s)\<lparr>slocked := 0, spid := 0\<rparr>\<rparr>)) None"
    using sl_inv_at [of s ow i] unfolding sl_inv_def goto_def by auto
  then show ?case ..
next
  case (wake_pt s i)
  then have "sl_inv (goto i Waking (s\<lparr>pt_owner := Some i\<rparr>)) ow"
    using sl_inv_at [of s ow i] unfolding sl_inv_def goto_def by auto
  then show ?case ..
next
  case (wake s i)
  have "sl_at s j \<noteq> Asleep" if "ow = Some j" for j
    using sl_inv_at(3) [OF wake(2), of j] that by auto
  with wake have "sl_inv (goto i Done (s\<lparr>pt_owner := None,
      sl_at := (\<lambda>j. if sl_at s j = Asleep then Woken else sl_at s j)\<rparr>)) ow"
    using sl_inv_at [of s ow i] unfolding sl_inv_def goto_def by auto
  then show ?case ..
next
  case (finish s i)
  then have "sl_inv (goto i Idle (s\<lparr>lk_owner := None\<rparr>)) ow"
    using sl_inv_at [of s ow i] unfolding sl_inv_def goto_def by auto
  then show ?case ..
qed

lemma sl_reachable_inv: "sl_reachable s \<Longrightarrow> \<exists>ow. sl_inv s ow"
  by (induction rule: sl_reachable.induct) (use sl_inv_init sl_step_inv in blast)+

text \<open>C27: in every state that processes acquiring and releasing a sleep lock can reach, at most one
  has it and the lock records its pid; and no wakeup is lost: if a process sleeps on the lock,
  then the lock is held, or the process that released it is on its way to wake the sleepers.\<close>
theorem sleeplock_no_lost_wakeup:
  assumes "sl_reachable s"
  shows "(owns (sl_at s i) \<and> owns (sl_at s j) \<longrightarrow> i = j) \<and>
    (owns (sl_at s i) \<longrightarrow> holdingsleep (int i) (sl s)) \<and>
    (sl_at s i = Asleep \<longrightarrow> slocked (sl s) \<noteq> 0 \<or> (\<exists>k. sl_at s k = Cleared \<or> sl_at s k = Waking))"
proof -
  obtain ow where inv: "sl_inv s ow" using sl_reachable_inv [OF assms] by blast
  have "sl_at s k = Cleared \<or> sl_at s k = Waking" if "about_to_wake (sl_at s k)" for k
    using that by (cases "sl_at s k") auto
  then have "slocked (sl s) \<noteq> 0 \<or> (\<exists>k. sl_at s k = Cleared \<or> sl_at s k = Waking)"
    if "sl_at s i = Asleep"
    using inv that unfolding sl_inv_def by blast
  moreover have "(owns (sl_at s i) \<and> owns (sl_at s j) \<longrightarrow> i = j) \<and>
    (owns (sl_at s i) \<longrightarrow> holdingsleep (int i) (sl s))"
    using inv by (auto simp: sl_inv_def holdingsleep_def)
  ultimately show ?thesis by blast
qed

theorem sleeplock_no_lost_wakeup_witness:
  "\<exists>s. sl_reachable s \<and> owns (sl_at s 3) \<and> holdingsleep 3 (sl s) \<and> sl_at s 4 = CheckA"
proof -
  define s1 where "s1 = goto 3 WantA sl_init"
  define s2 where "s2 = goto 4 WantA s1"
  define s3 where "s3 = goto 3 CheckA (s2\<lparr>lk_owner := Some 3\<rparr>)"
  define s4 where "s4 = goto 3 GotA (s3\<lparr>sl := (sl s3)\<lparr>slocked := 1, spid := int 3\<rparr>\<rparr>)"
  define s5 where "s5 = goto 3 Owns (s4\<lparr>lk_owner := None\<rparr>)"
  define s6 where "s6 = goto 4 CheckA (s5\<lparr>lk_owner := Some 4\<rparr>)"
  note defs = s1_def s2_def s3_def s4_def s5_def s6_def goto_def sl_init_def
  have "sl_step sl_init s1" unfolding s1_def by (rule sl_step.call) (simp add: sl_init_def)
  moreover have "sl_step s1 s2" unfolding s2_def by (rule sl_step.call) (simp add: defs)
  moreover have "sl_step s2 s3" unfolding s3_def by (rule sl_step.lock) (simp_all add: defs)
  moreover have "sl_step s3 s4" unfolding s4_def by (rule sl_step.take) (simp_all add: defs)
  moreover have "sl_step s4 s5" unfolding s5_def by (rule sl_step.unlock) (simp add: defs)
  moreover have "sl_step s5 s6" unfolding s6_def by (rule sl_step.lock) (simp_all add: defs)
  ultimately have r: "sl_reachable s6"
    using sl_reachable.intros by blast
  moreover have "owns (sl_at s6 3)" "sl_at s6 4 = CheckA" by (simp_all add: defs)
  ultimately show ?thesis using sleeplock_no_lost_wakeup [OF r, of 3 3] by auto
qed

end
