(* ===== verification/Ide.thy ===== *)
theory Ide
  imports Sleeplock
begin

text \<open>
  The disk driver (\<^verbatim>\<open>ide.c\<close>) and its stand-in that keeps the blocks in memory
  (\<^verbatim>\<open>memide.c\<close>).  \<open>disk d b\<close> is sector \<open>b\<close> of drive \<open>d\<close>.  The drive takes the data of a write with
  the command and gives the data of a read at the interrupt; \<open>ide_fault\<close> is its error status.
  Buffers are numbered as in \<^verbatim>\<open>bcache.buf\<close>, with \<^verbatim>\<open>bcache.head\<close> last; \<open>curpid\<close> is the pid of the
  running process.
\<close>

definition BSIZE :: nat where "BSIZE = 512"
definition NBUF :: nat where "NBUF = 30"
definition SWAP_BLOCKS :: u32 where "SWAP_BLOCKS = 800 * 8"
definition FSSIZE :: u32 where "FSSIZE = 10000 + SWAP_BLOCKS"
definition B_VALID :: u32 where "B_VALID = 0x2"
definition B_DIRTY :: u32 where "B_DIRTY = 0x4"

lemmas flag_bits = B_VALID_def B_DIRTY_def

record buf =
  flags :: u32
  dev :: u32
  blockno :: u32
  block :: sleeplock
  refcnt :: u32
  bprev :: nat
  bnext :: nat
  data :: "u8 list"

record iosys =
  curpid :: int
  bufs :: "buf list"
  disk :: "u32 \<Rightarrow> u32 \<Rightarrow> u8 list"
  havedisk1 :: bool
  idequeue :: "nat list"
  ide_fault :: bool

definition upd_buf :: "nat \<Rightarrow> (buf \<Rightarrow> buf) \<Rightarrow> 'a iosys_scheme \<Rightarrow> 'a iosys_scheme" where
  "upd_buf i f s = s\<lparr>bufs := (bufs s)[i := f (bufs s ! i)]\<rparr>"

subsection \<open>The IDE driver\<close>

text \<open>The sector number as the drive puts it together from the registers \<^verbatim>\<open>0x1f3\<close> to \<^verbatim>\<open>0x1f6\<close>; a
  block is one sector.\<close>

definition ide_lba :: "u32 \<Rightarrow> u32" where
  "ide_lba sector =
     (sector AND 0xff) OR push_bit 8 (drop_bit 8 sector AND 0xff) OR
     push_bit 16 (drop_bit 16 sector AND 0xff) OR push_bit 24 (drop_bit 24 sector AND 0x0f)"

definition idestart :: "nat \<Rightarrow> 'a iosys_scheme \<Rightarrow> 'a iosys_scheme outcome" where
  "idestart i s =
     (let b = bufs s ! i; d = dev b AND 1; sector = ide_lba (blockno b) in
      if blockno b \<ge> FSSIZE then Panic ''incorrect blockno''
      else if flags b AND B_DIRTY \<noteq> 0
      then Ret (s\<lparr>disk := (disk s)(d := (disk s d)(sector := data b))\<rparr>)
      else Ret s)"

definition ideintr :: "'a iosys_scheme \<Rightarrow> 'a iosys_scheme outcome" where
  "ideintr s =
     (case idequeue s of
        [] \<Rightarrow> Ret s
      | i # q \<Rightarrow>
          let s = s\<lparr>idequeue := q\<rparr>;
              b = bufs s ! i;
              s = (if flags b AND B_DIRTY = 0 \<and> \<not> ide_fault s
                   then upd_buf i (\<lambda>b. b\<lparr>data := disk s (dev b AND 1) (ide_lba (blockno b))\<rparr>) s
                   else s);
              s = upd_buf i (\<lambda>b. b\<lparr>flags := (flags b OR B_VALID) AND NOT B_DIRTY\<rparr>) s
          in case q of [] \<Rightarrow> Ret s | j # _ \<Rightarrow> idestart j s)"

text \<open>The wait of \<^verbatim>\<open>iderw\<close>: each turn is a sleep that ends with the next interrupt, which serves the
  head of the queue.\<close>

fun ide_wait :: "nat \<Rightarrow> nat \<Rightarrow> 'a iosys_scheme \<Rightarrow> 'a iosys_scheme outcome" where
  "ide_wait 0 i s = Blocked"
| "ide_wait (Suc n) i s =
     (if flags (bufs s ! i) AND (B_VALID OR B_DIRTY) = B_VALID then Ret s
      else if idequeue s = [] then Blocked
      else bindR (ideintr s) (ide_wait n i))"

definition iderw :: "nat \<Rightarrow> 'a iosys_scheme \<Rightarrow> 'a iosys_scheme outcome" where
  "iderw i s =
     (let b = bufs s ! i in
      if \<not> holdingsleep (curpid s) (block b) then Panic ''iderw: buf not locked''
      else if flags b AND (B_VALID OR B_DIRTY) = B_VALID then Panic ''iderw: nothing to do''
      else if dev b \<noteq> 0 \<and> \<not> havedisk1 s then Panic ''iderw: ide disk 1 not present''
      else
        let s = s\<lparr>idequeue := idequeue s @ [i]\<rparr> in
        bindR (if hd (idequeue s) = i then idestart i s else Ret s)
          (\<lambda>s. ide_wait (Suc (length (idequeue s))) i s))"

subsection \<open>The disk in memory\<close>

definition mem_iderw :: "u32 \<Rightarrow> nat \<Rightarrow> 'a iosys_scheme \<Rightarrow> 'a iosys_scheme outcome" where
  "mem_iderw disksize i s =
     (let b = bufs s ! i in
      if \<not> holdingsleep (curpid s) (block b) then Panic ''iderw: buf not locked''
      else if flags b AND (B_VALID OR B_DIRTY) = B_VALID then Panic ''iderw: nothing to do''
      else if dev b \<noteq> 1 then Panic ''iderw: request not for disk 1''
      else if blockno b \<ge> disksize then Panic ''iderw: block out of range''
      else
        let s = (if flags b AND B_DIRTY \<noteq> 0
                 then upd_buf i (\<lambda>b. b\<lparr>flags := flags b AND NOT B_DIRTY\<rparr>)
                   (s\<lparr>disk := (disk s)(1 := (disk s 1)(blockno b := data b))\<rparr>)
                 else upd_buf i (\<lambda>b. b\<lparr>data := disk s 1 (blockno b)\<rparr>) s)
        in Ret (upd_buf i (\<lambda>b. b\<lparr>flags := flags b OR B_VALID\<rparr>) s))"

subsection \<open>What the drivers do\<close>

lemma ide_lba_28:
  assumes "unat bn < 2 ^ 28"
  shows "ide_lba bn = bn"
proof -
  have "take_bit 28 bn = bn"
    using assms by (simp add: word_unat_eq_iff unsigned_take_bit_eq take_bit_eq_mod unat_mod)
  then have high: "\<not> bit bn k" if "28 \<le> k" for k
    using that by (metis bit_take_bit_iff not_less)
  have m: "(0xff :: u32) = mask 8" "(0x0f :: u32) = mask 4" by (simp_all add: mask_eq_exp_minus_1)
  show ?thesis
  proof (rule bit_word_eqI)
    fix k :: nat
    assume k: "k < LENGTH(32)"
    consider "k < 8" | "8 \<le> k" "k < 16" | "16 \<le> k" "k < 24" | "24 \<le> k" "k < 28" | "28 \<le> k"
      by linarith
    then show "bit (ide_lba bn) k = bit bn k"
      unfolding ide_lba_def m using k by cases (auto simp: bit_simps high)
  qed
qed

lemma ide_lba_id: "bn < FSSIZE \<Longrightarrow> ide_lba bn = bn"
  by (rule ide_lba_28) (simp add: FSSIZE_def SWAP_BLOCKS_def word_less_nat_alt)

text \<open>The two flags as bits 1 and 2 of the flag word.\<close>

lemma bit_B_VALID [simp]: "bit B_VALID k \<longleftrightarrow> k = 1"
  using bit_exp_iff [of 1 k, where 'a = "32 word"] by (auto simp: B_VALID_def)

lemma bit_B_DIRTY [simp]: "bit B_DIRTY k \<longleftrightarrow> k = 2"
  using bit_exp_iff [of 2 k, where 'a = "32 word"] by (auto simp: B_DIRTY_def)

lemma and_B_VALID: "f AND B_VALID = (if bit f 1 then B_VALID else 0)"
  by (rule bit_word_eqI) (auto simp: bit_and_iff)

lemma and_B_DIRTY: "f AND B_DIRTY = (if bit f 2 then B_DIRTY else 0)"
  by (rule bit_word_eqI) (auto simp: bit_and_iff)

lemma flags_dirty [simp]: "f AND B_DIRTY = 0 \<longleftrightarrow> \<not> bit f 2"
  and flags_valid [simp]: "f AND B_VALID = 0 \<longleftrightarrow> \<not> bit f 1"
  by (simp_all add: and_B_VALID and_B_DIRTY) (simp_all add: flag_bits)

lemma flags_synced [simp]:
  "f AND (B_VALID OR B_DIRTY) = B_VALID \<longleftrightarrow> bit f 1 \<and> \<not> bit f 2"
  by (simp add: bit.conj_disj_distrib and_B_VALID and_B_DIRTY) (simp add: flag_bits)

text \<open>With nothing queued and a drive without errors, \<^verbatim>\<open>iderw\<close> moves the block between buffer and
  disk and leaves the buffer valid and clean.\<close>

lemma iderw_idle:
  assumes "i < length (bufs s)" and "idequeue s = []" and "\<not> ide_fault s" and "havedisk1 s"
    and "holdingsleep (curpid s) (block (bufs s ! i))" and "blockno (bufs s ! i) < FSSIZE"
    and "\<not> (bit (flags (bufs s ! i)) 1 \<and> \<not> bit (flags (bufs s ! i)) 2)"
  shows "iderw i s = Ret (let b = bufs s ! i; d = dev b AND 1 in
    if bit (flags b) 2
    then s\<lparr>bufs := (bufs s)[i := b\<lparr>flags := (flags b OR B_VALID) AND NOT B_DIRTY\<rparr>],
           disk := (disk s)(d := (disk s d)(blockno b := data b))\<rparr>
    else s\<lparr>bufs := (bufs s)[i := b\<lparr>data := disk s d (blockno b),
           flags := (flags b OR B_VALID) AND NOT B_DIRTY\<rparr>]\<rparr>)"
proof -
  have "t\<lparr>idequeue := []\<rparr> = t" if "idequeue t = []" for t :: "'a iosys_scheme"
    using that by (cases t) simp
  from this [of s] show ?thesis
    using assms
    by (auto simp: iderw_def Let_def idestart_def ide_lba_id ideintr_def upd_buf_def not_le
        bit_and_iff bit_or_iff bit_not_iff)
qed

lemma iderw_mem_iderw:
  assumes "i < length (bufs s)" and "idequeue s = []" and "\<not> ide_fault s" and "havedisk1 s"
    and "dev (bufs s ! i) = 1" and "blockno (bufs s ! i) < FSSIZE"
  shows "iderw i s = mem_iderw FSSIZE i s"
proof (cases "holdingsleep (curpid s) (block (bufs s ! i)) \<and>
    \<not> (bit (flags (bufs s ! i)) 1 \<and> \<not> bit (flags (bufs s ! i)) 2)")
  case True
  have "(f AND NOT B_DIRTY) OR B_VALID = (f OR B_VALID) AND NOT B_DIRTY" for f
    by (rule bit_eqI) (auto simp: bit_simps)
  moreover have "\<not> bit f 2 \<Longrightarrow> f OR B_VALID = (f OR B_VALID) AND NOT B_DIRTY" for f :: u32
    by (rule bit_eqI) (auto simp: bit_simps)
  ultimately show ?thesis
    using True assms iderw_idle [of i s] by (auto simp: mem_iderw_def Let_def upd_buf_def)
next
  case False
  then show ?thesis by (auto simp: iderw_def mem_iderw_def Let_def)
qed

text \<open>C31: on an idle machine with a working drive, the IDE driver and the disk in memory are the same
  program for the blocks of disk 1: they move the same data between buffer and disk, leave the same flags, and panic
  on the same calls with the same message.  They differ elsewhere: a block behind the end of disk 1 makes both
  panic, each with a message of its own, unless the call is refused before for its buffer; and a request for disk 0 that the IDE driver
  serves makes the disk in memory panic.\<close>
theorem ide_memide_equivalent:
  assumes "i < length (bufs s)" and "idequeue s = []" and "\<not> ide_fault s" and "havedisk1 s"
  defines "b \<equiv> bufs s ! i"
  defines "refused \<equiv> \<not> holdingsleep (curpid s) (block b) \<or> flags b AND (B_VALID OR B_DIRTY) = B_VALID"
  shows "(dev b = 1 \<and> blockno b < FSSIZE \<longrightarrow> iderw i s = mem_iderw FSSIZE i s) \<and>
    (refused \<longrightarrow> iderw i s = mem_iderw FSSIZE i s \<and> (\<exists>msg. iderw i s = Panic msg)) \<and>
    (\<not> refused \<and> dev b = 1 \<and> FSSIZE \<le> blockno b \<longrightarrow>
      iderw i s = Panic ''incorrect blockno'' \<and> mem_iderw FSSIZE i s = Panic ''iderw: block out of range'') \<and>
    (\<not> refused \<and> dev b = 0 \<and> blockno b < FSSIZE \<longrightarrow>
      (\<exists>t. iderw i s = Ret t) \<and> mem_iderw FSSIZE i s = Panic ''iderw: request not for disk 1'')"
proof (intro conjI impI)
  show "iderw i s = mem_iderw FSSIZE i s" if "dev b = 1 \<and> blockno b < FSSIZE"
    using iderw_mem_iderw [OF assms(1-4)] that by (simp add: b_def)
  show "iderw i s = mem_iderw FSSIZE i s" "\<exists>msg. iderw i s = Panic msg" if refused
    using that by (auto simp: refused_def b_def iderw_def mem_iderw_def Let_def)
  show "iderw i s = Panic ''incorrect blockno''" "mem_iderw FSSIZE i s = Panic ''iderw: block out of range''"
    if "\<not> refused \<and> dev b = 1 \<and> FSSIZE \<le> blockno b"
    using that assms(2,4) by (simp_all add: refused_def b_def iderw_def mem_iderw_def idestart_def Let_def)
  show "mem_iderw FSSIZE i s = Panic ''iderw: request not for disk 1''" if "\<not> refused \<and> dev b = 0 \<and> blockno b < FSSIZE"
    using that by (simp add: refused_def b_def mem_iderw_def Let_def)
  show "\<exists>t. iderw i s = Ret t" if c: "\<not> refused \<and> dev b = 0 \<and> blockno b < FSSIZE"
  proof -
    have "\<not> (bit (flags (bufs s ! i)) 1 \<and> \<not> bit (flags (bufs s ! i)) 2)" "holdingsleep (curpid s) (block (bufs s ! i))"
      using c by (auto simp: refused_def b_def)
    then show ?thesis using iderw_idle [OF assms(1-4)] c by (simp add: b_def)
  qed
qed

definition zero_buf :: buf where
  "zero_buf = \<lparr>flags = 0, dev = 0, blockno = 0, block = \<lparr>slocked = 0, spid = 0\<rparr>, refcnt = 0,
     bprev = 0, bnext = 0, data = replicate 512 0\<rparr>"

definition boot_io :: iosys where
  "boot_io = \<lparr>curpid = 1, bufs = replicate 31 zero_buf, disk = (\<lambda>_ _. replicate 512 0),
     havedisk1 = True, idequeue = [], ide_fault = False\<rparr>"

theorem ide_memide_equivalent_witness:
  "let s = upd_buf 4 (\<lambda>b. b\<lparr>dev := 1, blockno := 33, block := \<lparr>slocked = 1, spid = 1\<rparr>\<rparr>) boot_io
   in iderw 4 s = mem_iderw FSSIZE 4 s"
proof -
  let ?s = "upd_buf 4 (\<lambda>b. b\<lparr>dev := 1, blockno := 33, block := \<lparr>slocked = 1, spid = 1\<rparr>\<rparr>) boot_io"
  have "4 < length (bufs ?s)" "idequeue ?s = []" "\<not> ide_fault ?s" "havedisk1 ?s" "dev (bufs ?s ! 4) = 1"
      "blockno (bufs ?s ! 4) < FSSIZE"
    by (simp_all add: upd_buf_def boot_io_def FSSIZE_def SWAP_BLOCKS_def)
  then have "iderw 4 ?s = mem_iderw FSSIZE 4 ?s" using ide_memide_equivalent [of 4 ?s] by blast
  then show ?thesis by simp
qed

end
