(* ===== verification/Bio.thy ===== *)
theory Bio
  imports Ide
begin

text \<open>
  The buffer cache (\<^verbatim>\<open>bio.c\<close>).  The buffers form a doubly linked ring through \<open>bnext\<close> and
  \<open>bprev\<close> with the head, number 30, in it; the most recently used buffer follows the head.
\<close>

abbreviation HEAD :: nat where "HEAD \<equiv> 30"

subsection \<open>The ring\<close>

definition link_first :: "nat \<Rightarrow> 'a iosys_scheme \<Rightarrow> 'a iosys_scheme" where
  "link_first i s =
     (let s = upd_buf i (\<lambda>b. b\<lparr>bnext := bnext (bufs s ! HEAD)\<rparr>) s;
          s = upd_buf i (\<lambda>b. b\<lparr>bprev := HEAD\<rparr>) s;
          s = upd_buf (bnext (bufs s ! HEAD)) (\<lambda>b. b\<lparr>bprev := i\<rparr>) s
      in upd_buf HEAD (\<lambda>b. b\<lparr>bnext := i\<rparr>) s)"

definition unlink :: "nat \<Rightarrow> 'a iosys_scheme \<Rightarrow> 'a iosys_scheme" where
  "unlink i s =
     (let s = upd_buf (bnext (bufs s ! i)) (\<lambda>b. b\<lparr>bprev := bprev (bufs s ! i)\<rparr>) s
      in upd_buf (bprev (bufs s ! i)) (\<lambda>b. b\<lparr>bnext := bnext (bufs s ! i)\<rparr>) s)"

fun binit_from :: "nat \<Rightarrow> nat \<Rightarrow> 'a iosys_scheme \<Rightarrow> 'a iosys_scheme" where
  "binit_from 0 i s = s"
| "binit_from (Suc n) i s =
     binit_from n (Suc i) (link_first i (upd_buf i (\<lambda>b. b\<lparr>block := initsleeplock (block b)\<rparr>) s))"

definition binit :: "'a iosys_scheme \<Rightarrow> 'a iosys_scheme" where
  "binit s = binit_from NBUF 0 (upd_buf HEAD (\<lambda>b. b\<lparr>bprev := HEAD, bnext := HEAD\<rparr>) s)"

subsection \<open>Looking up and releasing blocks\<close>

text \<open>The two scans of \<^verbatim>\<open>bget\<close>, at most one turn per buffer and one for the head; more turns mean a
  ring that does not come back to the head.\<close>

fun scan :: "(buf \<Rightarrow> nat) \<Rightarrow> (buf \<Rightarrow> bool) \<Rightarrow> nat \<Rightarrow> nat \<Rightarrow> buf list \<Rightarrow> nat option outcome" where
  "scan step P 0 i bs = Blocked"
| "scan step P (Suc n) i bs =
     (if i = HEAD then Ret None
      else if P (bs ! i) then Ret (Some i)
      else scan step P n (step (bs ! i)) bs)"

definition lock_buf :: "nat \<Rightarrow> 'a iosys_scheme \<Rightarrow> (nat \<times> 'a iosys_scheme) outcome" where
  "lock_buf i s =
     bindR (acquiresleep (curpid s) (block (bufs s ! i))) (\<lambda>l.
       Ret (i, upd_buf i (\<lambda>b. b\<lparr>block := l\<rparr>) s))"

definition bget :: "u32 \<Rightarrow> u32 \<Rightarrow> 'a iosys_scheme \<Rightarrow> (nat \<times> 'a iosys_scheme) outcome" where
  "bget d n s =
     bindR (scan bnext (\<lambda>b. dev b = d \<and> blockno b = n) (Suc NBUF) (bnext (bufs s ! HEAD)) (bufs s))
       (\<lambda>r. case r of
          Some i \<Rightarrow> lock_buf i (upd_buf i (\<lambda>b. b\<lparr>refcnt := refcnt b + 1\<rparr>) s)
        | None \<Rightarrow>
            bindR (scan bprev (\<lambda>b. refcnt b = 0 \<and> flags b AND B_DIRTY = 0) (Suc NBUF)
                     (bprev (bufs s ! HEAD)) (bufs s))
              (\<lambda>r. case r of
                 Some i \<Rightarrow>
                   lock_buf i (upd_buf i (\<lambda>b. b\<lparr>dev := d, blockno := n, flags := 0, refcnt := 1\<rparr>) s)
               | None \<Rightarrow> Panic ''bget: no buffers''))"

definition bread :: "u32 \<Rightarrow> u32 \<Rightarrow> 'a iosys_scheme \<Rightarrow> (nat \<times> 'a iosys_scheme) outcome" where
  "bread d n s =
     bindR (bget d n s) (\<lambda>(i, s).
       if flags (bufs s ! i) AND B_VALID = 0 then bindR (iderw i s) (\<lambda>s. Ret (i, s))
       else Ret (i, s))"

definition bwrite :: "nat \<Rightarrow> 'a iosys_scheme \<Rightarrow> 'a iosys_scheme outcome" where
  "bwrite i s =
     (if \<not> holdingsleep (curpid s) (block (bufs s ! i)) then Panic ''bwrite''
      else iderw i (upd_buf i (\<lambda>b. b\<lparr>flags := flags b OR B_DIRTY\<rparr>) s))"

definition brelse :: "nat \<Rightarrow> 'a iosys_scheme \<Rightarrow> 'a iosys_scheme outcome" where
  "brelse i s =
     (if \<not> holdingsleep (curpid s) (block (bufs s ! i)) then Panic ''brelse''
      else
        let s = upd_buf i (\<lambda>b. b\<lparr>block := releasesleep (block b)\<rparr>) s;
            s = upd_buf i (\<lambda>b. b\<lparr>refcnt := refcnt b - 1\<rparr>) s
        in Ret (if refcnt (bufs s ! i) = 0 then link_first i (unlink i s) else s))"

subsection \<open>The ring as a list\<close>

text \<open>\<open>link_path nx pv a xs z\<close>: following \<open>nx\<close> from \<open>a\<close> leads through \<open>xs\<close> to \<open>z\<close>, and \<open>pv\<close> leads back.\<close>

fun link_path :: "(nat \<Rightarrow> nat) \<Rightarrow> (nat \<Rightarrow> nat) \<Rightarrow> nat \<Rightarrow> nat list \<Rightarrow> nat \<Rightarrow> bool" where
  "link_path nx pv a [] z \<longleftrightarrow> nx a = z \<and> pv z = a"
| "link_path nx pv a (x # xs) z \<longleftrightarrow> nx a = x \<and> pv x = a \<and> link_path nx pv x xs z"

lemma path_append: "link_path nx pv a (xs @ i # ys) z \<longleftrightarrow> link_path nx pv a xs i \<and> link_path nx pv i ys z"
  by (induction xs arbitrary: a) auto

lemma path_rev: "link_path pv nx z (rev xs) a \<longleftrightarrow> link_path nx pv a xs z"
  by (induction xs arbitrary: a z rule: rev_induct) (auto simp: path_append)

lemma path_cong:
  "(\<And>x. x \<in> set (a # xs) \<Longrightarrow> nx' x = nx x) \<Longrightarrow> (\<And>y. y \<in> set (z # xs) \<Longrightarrow> pv' y = pv y) \<Longrightarrow>
   link_path nx' pv' a xs z = link_path nx pv a xs z"
  by (induction xs arbitrary: a) auto

lemma path_ends:
  "link_path nx pv a xs z \<Longrightarrow> nx a = hd (xs @ [z]) \<and> pv z = last (a # xs)"
  by (induction xs arbitrary: a) auto

lemma path_retarget:
  "link_path nx pv a xs z \<Longrightarrow> distinct (a # xs) \<Longrightarrow> w \<notin> set xs \<Longrightarrow>
   link_path (nx(last (a # xs) := w)) (pv(w := last (a # xs))) a xs w"
proof (induction xs arbitrary: a)
  case Nil
  then show ?case by simp
next
  case (Cons x xs)
  have "last (x # xs) \<in> set (x # xs)" by (rule last_in_set) simp
  then have "last (x # xs) \<noteq> a" using Cons.prems by auto
  then show ?case using Cons by auto
qed

lemma path_unlink:
  assumes "link_path nx pv a (xs @ i # ys) a" and "distinct (a # xs @ i # ys)"
  shows "link_path (nx(pv i := nx i)) (pv(nx i := pv i)) a (xs @ ys) a"
proof -
  have 1: "link_path nx pv a xs i" "link_path nx pv i ys a" using assms(1) by (simp_all add: path_append)
  have i: "pv i = last (a # xs)" "nx i = hd (ys @ [a])" using 1 path_ends by blast+
  have p: "last (a # xs) \<in> set (a # xs)" by (rule last_in_set) simp
  show ?thesis
  proof (cases ys)
    case Nil
    then show ?thesis using path_retarget [OF 1(1), of a] assms(2) i by simp
  next
    case (Cons y zs)
    have "link_path (nx(last (a # xs) := y)) (pv(y := last (a # xs))) a xs y"
      using path_retarget [OF 1(1), of y] assms(2) Cons by auto
    moreover have "link_path (nx(last (a # xs) := y)) (pv(y := last (a # xs))) y zs a"
      using 1(2) Cons assms(2) p by (subst path_cong [of _ _ _ nx _ _ pv]) auto
    ultimately show ?thesis using i Cons by (simp add: path_append)
  qed
qed

lemma path_link_first:
  assumes "link_path nx pv a xs a" and "i \<notin> set xs" and "i \<noteq> a" and "distinct (a # xs)"
  shows "link_path (nx(i := nx a, a := i)) (pv(i := a, nx a := i)) a (i # xs) a"
proof (cases xs)
  case Nil
  then show ?thesis using assms by auto
next
  case (Cons y zs)
  then have "link_path (nx(i := nx a, a := i)) (pv(i := a, nx a := i)) y zs a"
    using assms by (subst path_cong [of _ _ _ nx _ _ pv]) auto
  then show ?thesis using assms Cons by auto
qed

definition bio_ring :: "'a iosys_scheme \<Rightarrow> nat list \<Rightarrow> bool" where
  "bio_ring s xs \<longleftrightarrow> length (bufs s) = 31 \<and> distinct xs \<and> (\<forall>i. i \<in> set xs \<longleftrightarrow> i < 30) \<and>
     link_path (\<lambda>i. bnext (bufs s ! i)) (\<lambda>i. bprev (bufs s ! i)) HEAD xs HEAD"

lemma upd_buf_nth [simp]:
  "bufs (upd_buf i f s) ! j = (if i = j \<and> j < length (bufs s) then f (bufs s ! j) else bufs s ! j)"
  by (cases "i < length (bufs s)") (auto simp: upd_buf_def list_update_beyond)

lemma upd_buf_simps [simp]:
  "length (bufs (upd_buf i f s)) = length (bufs s)"
  "disk (upd_buf i f s) = disk s" "curpid (upd_buf i f s) = curpid s"
  "havedisk1 (upd_buf i f s) = havedisk1 s" "idequeue (upd_buf i f s) = idequeue s"
  "ide_fault (upd_buf i f s) = ide_fault s"
  by (simp_all add: upd_buf_def)

lemma bio_ring_less: "bio_ring s xs \<Longrightarrow> i \<in> set xs \<Longrightarrow> i < 30"
  by (auto simp: bio_ring_def)

lemma bio_ring_upd_buf:
  "bio_ring s xs \<Longrightarrow> (\<And>b. bnext (f b) = bnext b \<and> bprev (f b) = bprev b) \<Longrightarrow> bio_ring (upd_buf i f s) xs"
  by (simp add: bio_ring_def if_distrib cong: if_cong)

lemma link_first_fields:
  assumes "length (bufs t) = 31" and "i < 30" and "bnext (bufs t ! HEAD) < 31"
  shows "bnext (bufs (link_first i t) ! j) =
      (if j = HEAD then i else if j = i then bnext (bufs t ! HEAD) else bnext (bufs t ! j))"
    and "bprev (bufs (link_first i t) ! j) =
      (if j = bnext (bufs t ! HEAD) then i else if j = i then HEAD else bprev (bufs t ! j))"
    and "length (bufs (link_first i t)) = 31"
  using assms by (simp_all add: link_first_def Let_def)

lemma link_unlink_ring:
  assumes "bio_ring s (xs @ i # ys)"
  shows "bio_ring (link_first i (unlink i s)) (i # xs @ ys)"
proof -
  let ?nx = "\<lambda>i. bnext (bufs s ! i)" and ?pv = "\<lambda>i. bprev (bufs s ! i)"
  have len: "length (bufs s) = 31" and d: "distinct (xs @ i # ys)" "\<And>j. j \<in> set (xs @ i # ys) \<longleftrightarrow> j < 30"
    and p: "link_path ?nx ?pv HEAD (xs @ i # ys) HEAD"
    using assms by (auto simp: bio_ring_def)
  have "HEAD \<notin> set (xs @ i # ys)" using d(2) [of HEAD] by simp
  then have dh: "distinct (HEAD # xs @ i # ys)" using d(1) by simp
  have i: "i < 30" "i \<noteq> HEAD" using assms bio_ring_less by fastforce+
  have e: "?nx i = hd (ys @ [HEAD])" "?pv i = last (HEAD # xs)"
    using p path_ends unfolding path_append by blast+
  have nxi: "?nx i \<in> insert HEAD (set ys)" unfolding e by (cases ys) auto
  have pvi: "?pv i \<in> insert HEAD (set xs)" unfolding e by (cases xs rule: rev_cases) auto
  have lt: "j < 31" if "j \<in> insert HEAD (set (xs @ i # ys))" for j
    using that d(2) [of j] by auto
  have n: "?nx i < 31" "?pv i < 31"
    using nxi pvi by (auto intro: lt)
  have ni: "?nx i \<noteq> i" using nxi dh by auto
  let ?s = "unlink i s"
  have s1: "(\<lambda>j. bnext (bufs ?s ! j)) = ?nx(?pv i := ?nx i)"
      "(\<lambda>j. bprev (bufs ?s ! j)) = ?pv(?nx i := ?pv i)"
    using n ni len by (auto simp: unlink_def Let_def)
  have l1: "length (bufs ?s) = 31" using len by (simp add: unlink_def Let_def)
  have p1: "link_path (?nx(?pv i := ?nx i)) (?pv(?nx i := ?pv i)) HEAD (xs @ ys) HEAD"
    using path_unlink [OF p dh] .
  have "bnext (bufs ?s ! HEAD) = (?nx(?pv i := ?nx i)) HEAD" by (rule fun_cong [OF s1(1)])
  also have "\<dots> = hd ((xs @ ys) @ [HEAD])" by (rule path_ends [OF p1, THEN conjunct1])
  also have "\<dots> \<in> insert HEAD (set (xs @ ys))" by (cases "xs @ ys") auto
  finally have h: "bnext (bufs ?s ! HEAD) < 31" by (intro lt) auto
  have s2: "(\<lambda>j. bnext (bufs (link_first i ?s) ! j)) =
      (\<lambda>j. bnext (bufs ?s ! j))(i := bnext (bufs ?s ! HEAD), HEAD := i)"
      "(\<lambda>j. bprev (bufs (link_first i ?s) ! j)) =
      (\<lambda>j. bprev (bufs ?s ! j))(i := HEAD, bnext (bufs ?s ! HEAD) := i)"
    using link_first_fields [OF l1 i(1) h] by (simp_all add: fun_eq_iff)
  have "link_path (\<lambda>j. bnext (bufs (link_first i ?s) ! j)) (\<lambda>j. bprev (bufs (link_first i ?s) ! j))
      HEAD (i # xs @ ys) HEAD"
    unfolding s2 using p1 dh i by (intro path_link_first) (auto simp: s1)
  then show ?thesis
    using link_first_fields(3) [OF l1 i(1) h] d(1) d(2) dh by (simp add: bio_ring_def)
qed

lemma scan_path:
  "link_path nx pv a xs HEAD \<Longrightarrow> HEAD \<notin> set xs \<Longrightarrow> length xs < n \<Longrightarrow> (\<And>i. step (bs ! i) = nx i) \<Longrightarrow>
   scan step P n (nx a) bs = Ret (List.find (\<lambda>i. P (bs ! i)) xs)"
proof (induction xs arbitrary: a n)
  case Nil
  then show ?case by (cases n) auto
next
  case (Cons x xs)
  then obtain k where n: "n = Suc k" by (cases n) auto
  have "scan step P k (nx x) bs = Ret (List.find (\<lambda>i. P (bs ! i)) xs)"
    using Cons n by auto
  then show ?case using Cons.prems n by auto
qed

lemma scan_ring:
  assumes "bio_ring s xs"
  shows "scan bnext P (Suc NBUF) (bnext (bufs s ! HEAD)) (bufs s) = Ret (List.find (\<lambda>i. P (bufs s ! i)) xs)"
    and "scan bprev P (Suc NBUF) (bprev (bufs s ! HEAD)) (bufs s) =
      Ret (List.find (\<lambda>i. P (bufs s ! i)) (rev xs))"
proof -
  have p: "link_path (\<lambda>i. bnext (bufs s ! i)) (\<lambda>i. bprev (bufs s ! i)) HEAD xs HEAD"
    and xs: "distinct xs" "\<And>i. i \<in> set xs \<longleftrightarrow> i < 30" using assms by (auto simp: bio_ring_def)
  have h: "HEAD \<notin> set xs" using xs(2) [of HEAD] by simp
  have "set xs = {i. i < 30}" using xs(2) by blast
  then have "card (set xs) = 30" by simp
  then have l: "length xs < Suc NBUF" using distinct_card [OF xs(1)] by (simp add: NBUF_def)
  show "scan bnext P (Suc NBUF) (bnext (bufs s ! HEAD)) (bufs s) =
      Ret (List.find (\<lambda>i. P (bufs s ! i)) xs)"
    by (rule scan_path [OF p h l refl])
  show "scan bprev P (Suc NBUF) (bprev (bufs s ! HEAD)) (bufs s) =
      Ret (List.find (\<lambda>i. P (bufs s ! i)) (rev xs))"
    by (rule scan_path [OF path_rev [THEN iffD2, OF p]]) (use h l in simp_all)
qed

declare scan.simps [simp del]

subsection \<open>The cache over the disk\<close>

text \<open>Only the drive of the root file system is used.  A buffer is free, or held locked by the
  running process.  A free buffer that is valid and not marked dirty agrees with the disk, so
  that it may be recycled; no block has two buffers.\<close>

definition ROOTDEV :: u32 where "ROOTDEV = 1"

definition caches :: "'a iosys_scheme \<Rightarrow> nat \<Rightarrow> u32 \<Rightarrow> bool" where
  "caches s i n \<longleftrightarrow> i < 30 \<and> dev (bufs s ! i) = ROOTDEV \<and> blockno (bufs s ! i) = n"

definition free_buf :: "'a iosys_scheme \<Rightarrow> nat \<Rightarrow> bool" where
  "free_buf s i \<longleftrightarrow> refcnt (bufs s ! i) = 0 \<and> slocked (block (bufs s ! i)) = 0"

definition held :: "'a iosys_scheme \<Rightarrow> nat \<Rightarrow> bool" where
  "held s i \<longleftrightarrow> refcnt (bufs s ! i) = 1 \<and> holdingsleep (curpid s) (block (bufs s ! i))"

definition clean :: "'a iosys_scheme \<Rightarrow> nat \<Rightarrow> bool" where
  "clean s i \<longleftrightarrow> (let b = bufs s ! i in
     bit (flags b) 1 \<and> \<not> bit (flags b) 2 \<longrightarrow> dev b = ROOTDEV \<and> data b = disk s ROOTDEV (blockno b))"

text \<open>A buffer with new contents has been read first.\<close>

definition dirty_valid :: "'a iosys_scheme \<Rightarrow> nat \<Rightarrow> bool" where
  "dirty_valid s i \<longleftrightarrow> (bit (flags (bufs s ! i)) 2 \<longrightarrow> bit (flags (bufs s ! i)) 1)"

definition cache_inv :: "'a iosys_scheme \<Rightarrow> nat list \<Rightarrow> bool" where
  "cache_inv s xs \<longleftrightarrow> bio_ring s xs \<and> idequeue s = [] \<and> \<not> ide_fault s \<and> havedisk1 s \<and>
     (\<forall>i < 30. (free_buf s i \<and> clean s i \<or> held s i) \<and> dirty_valid s i) \<and>
     (\<forall>i n j. caches s i n \<and> caches s j n \<longrightarrow> i = j)"

text \<open>The contents of block \<open>n\<close> as the kernel sees it: the cached copy if there is one.\<close>

definition bview :: "'a iosys_scheme \<Rightarrow> u32 \<Rightarrow> u8 list" where
  "bview s n =
     (case find_index (\<lambda>b. dev b = ROOTDEV \<and> blockno b = n \<and> bit (flags b) 1) (take 30 (bufs s)) of
        Some i \<Rightarrow> data (bufs s ! i) | None \<Rightarrow> disk s ROOTDEV n)"

lemma caches_unique: "cache_inv s xs \<Longrightarrow> caches s i n \<Longrightarrow> caches s j n \<Longrightarrow> i = j"
  by (auto simp: cache_inv_def)

lemma bview_cached:
  assumes "cache_inv s xs" and "caches s i n"
  shows "bview s n = (if bit (flags (bufs s ! i)) 1 then data (bufs s ! i) else disk s ROOTDEV n)"
proof -
  have len: "length (bufs s) = 31" using assms(1) by (simp add: cache_inv_def bio_ring_def)
  have u: "j = i" if "j < 30" "dev (bufs s ! j) = ROOTDEV" "blockno (bufs s ! j) = n" for j
    using caches_unique [OF assms(1) _ assms(2)] that by (simp add: caches_def)
  let ?P = "\<lambda>b. dev b = ROOTDEV \<and> blockno b = n \<and> bit (flags b) 1"
  show ?thesis
  proof (cases "find_index ?P (take 30 (bufs s))")
    case None
    have "take 30 (bufs s) ! i \<in> set (take 30 (bufs s))"
      using assms(2) len by (intro nth_mem) (simp add: caches_def)
    then have "\<not> ?P (take 30 (bufs s) ! i)"
      using None [unfolded find_index_None] by blast
    then show ?thesis using None assms(2) by (auto simp: bview_def caches_def)
  next
    case (Some j)
    then have "j < 30" "?P (bufs s ! j)" using find_index_SomeD [OF Some] len by auto
    then show ?thesis using Some u by (auto simp: bview_def)
  qed
qed

lemma bview_uncached:
  assumes "\<And>i. \<not> caches s i n"
  shows "bview s n = disk s ROOTDEV n"
proof (cases "find_index (\<lambda>b. dev b = ROOTDEV \<and> blockno b = n \<and> bit (flags b) 1) (take 30 (bufs s))")
  case (Some j)
  then show ?thesis using find_index_SomeD [OF Some] assms [of j] by (auto simp: caches_def)
qed (simp add: bview_def)

lemma held_not_free: "held s i \<Longrightarrow> \<not> free_buf s i"
  by (auto simp: held_def free_buf_def)

lemma cache_inv_upd:
  assumes inv: "cache_inv s xs" and i: "i < 30"
    and f: "\<And>b. bnext (f b) = bnext b \<and> bprev (f b) = bprev b"
    and s': "s' = (upd_buf i f s)\<lparr>disk := dk\<rparr>"
    and dk: "\<And>m. \<not> (caches s i m \<and> caches s' i m) \<Longrightarrow> dk ROOTDEV m = disk s ROOTDEV m"
    and new: "held s' i \<or> free_buf s' i \<and> clean s' i" "dirty_valid s' i"
    and uniq: "\<And>m j. caches s' i m \<Longrightarrow> caches s j m \<Longrightarrow> j = i"
  shows "cache_inv s' xs"
proof -
  have ring: "bio_ring s' xs"
    using bio_ring_upd_buf [OF _ f, of s xs i] inv by (simp add: cache_inv_def s' bio_ring_def)
  have other: "bufs s' ! j = bufs s ! j" if "j \<noteq> i" for j using that by (simp add: s')
  have dk_other: "dk ROOTDEV m = disk s ROOTDEV m" if "caches s j m" "j \<noteq> i" for j m
    using dk [of m] caches_unique [OF inv, of i m j] that by auto
  have "(free_buf s' j \<and> clean s' j \<or> held s' j) \<and> dirty_valid s' j" if j: "j < 30" for j
  proof (cases "j = i")
    case True
    then show ?thesis using new by blast
  next
    case False
    have "free_buf s' j = free_buf s j" "held s' j = held s j" "dirty_valid s' j = dirty_valid s j"
      using other [OF False] by (simp_all add: free_buf_def held_def dirty_valid_def s')
    moreover have "clean s' j = clean s j"
      using other [OF False] dk_other [of j "blockno (bufs s ! j)"] False j
      by (auto simp: clean_def Let_def caches_def s')
    ultimately show ?thesis using inv j by (simp add: cache_inv_def)
  qed
  moreover have "j = k" if "caches s' j m" "caches s' k m" for j k m
  proof -
    have o: "l = i \<or> caches s l m" if "caches s' l m" for l
      using that other [of l] by (cases "l = i") (auto simp: caches_def)
    show ?thesis
      using o [OF that(1)] o [OF that(2)] uniq that caches_unique [OF inv] by metis
  qed
  moreover have "idequeue s' = [] \<and> \<not> ide_fault s' \<and> havedisk1 s'"
    using inv by (simp add: cache_inv_def s')
  ultimately show ?thesis using ring unfolding cache_inv_def by blast
qed

lemma iderw_Ret_block:
  "idequeue s = [] \<Longrightarrow> iderw i s = Ret s' \<Longrightarrow> blockno (bufs s ! i) < FSSIZE"
  by (auto simp: iderw_def Let_def idestart_def split: if_splits)

text \<open>\<^verbatim>\<open>bget\<close>: the buffer returned, the most recently used one that caches the block or else the
  least recently used one that is free and not dirty, is now held; nothing else changes.\<close>

lemma find_mem: "List.find P xs = Some x \<Longrightarrow> x \<in> set xs \<and> P x"
  by (induction xs) (auto split: if_splits)

lemma find_none: "List.find P xs = None \<Longrightarrow> x \<in> set xs \<Longrightarrow> \<not> P x"
  by (induction xs) (auto split: if_splits)

definition got_buf :: "'a iosys_scheme \<Rightarrow> u32 \<Rightarrow> nat \<Rightarrow> 'a iosys_scheme \<Rightarrow> bool" where
  "got_buf s n i s' \<longleftrightarrow> i < 30 \<and> free_buf s i \<and>
     (caches s i n \<and> s' = upd_buf i (\<lambda>b. b\<lparr>refcnt := 1, block := \<lparr>slocked = 1, spid = curpid s\<rparr>\<rparr>) s \<or>
      (\<forall>j. \<not> caches s j n) \<and> \<not> bit (flags (bufs s ! i)) 2 \<and>
      s' = upd_buf i (\<lambda>b. b\<lparr>dev := ROOTDEV, blockno := n, flags := 0, refcnt := 1,
        block := \<lparr>slocked = 1, spid = curpid s\<rparr>\<rparr>) s)"

lemma sleeplock_eta: "l\<lparr>slocked := a, spid := c\<rparr> = \<lparr>slocked = a, spid = c\<rparr>"
  for l :: sleeplock
  by (cases l) simp

lemma lock_buf_Ret:
  "j < length (bufs s) \<Longrightarrow>
   lock_buf j (upd_buf j f s) = Ret (i, s') \<longleftrightarrow> slocked (block (f (bufs s ! j))) = 0 \<and> i = j \<and>
    s' = upd_buf j (\<lambda>b. (f b)\<lparr>block := \<lparr>slocked = 1, spid = curpid s\<rparr>\<rparr>) s"
  by (auto simp: lock_buf_def acquiresleep_def upd_buf_def sleeplock_eta)

lemma bget_got:
  assumes inv: "cache_inv s xs" and b: "bget ROOTDEV n s = Ret (i, s')"
  shows "got_buf s n i s'"
proof -
  have ring: "bio_ring s xs" and len: "length (bufs s) = 31" and xs: "\<And>j. j \<in> set xs \<longleftrightarrow> j < 30"
    and st: "\<And>j. j < 30 \<Longrightarrow> free_buf s j \<or> held s j"
    using inv by (auto simp: cache_inv_def bio_ring_def)
  note scans = scan_ring [OF ring]
  show ?thesis
  proof (cases "List.find (\<lambda>i. dev (bufs s ! i) = ROOTDEV \<and> blockno (bufs s ! i) = n) xs")
    case None
    then have absent: "\<not> caches s j n" for j
      using find_none [OF None] xs by (auto simp: caches_def)
    obtain k where k: "List.find (\<lambda>i. refcnt (bufs s ! i) = 0 \<and> \<not> bit (flags (bufs s ! i)) 2) (rev xs) = Some k"
      and l: "lock_buf k (upd_buf k (\<lambda>b. b\<lparr>dev := ROOTDEV, blockno := n, flags := 0, refcnt := 1\<rparr>) s) = Ret (i, s')"
      using b None by (auto simp: bget_def scans split: option.splits)
    then have "k < 30" "refcnt (bufs s ! k) = 0" "\<not> bit (flags (bufs s ! k)) 2"
      using find_mem [OF k] xs by auto
    moreover from this have "free_buf s k" using st [of k] by (auto simp: held_def)
    ultimately show ?thesis
      using l absent len by (auto simp: got_buf_def lock_buf_Ret)
  next
    case (Some k)
    then have k: "caches s k n" "k < 30" using find_mem [OF Some] xs by (auto simp: caches_def)
    have l: "lock_buf k (upd_buf k (\<lambda>b. b\<lparr>refcnt := refcnt b + 1\<rparr>) s) = Ret (i, s')"
      using b Some by (auto simp: bget_def scans)
    then have "slocked (block (bufs s ! k)) = 0"
      using k len by (simp add: lock_buf_Ret)
    then have "free_buf s k" using st [OF k(2)] by (auto simp: held_def holdingsleep_def)
    moreover from this have "upd_buf k (\<lambda>b. b\<lparr>refcnt := refcnt b + 1, block := l\<rparr>) s =
        upd_buf k (\<lambda>b. b\<lparr>refcnt := 1, block := l\<rparr>) s" for l
      by (simp add: upd_buf_def free_buf_def)
    ultimately show ?thesis using l k len by (auto simp: got_buf_def lock_buf_Ret)
  qed
qed

lemma bget_total:
  assumes inv: "cache_inv s xs" and n: "\<And>i. caches s i n \<Longrightarrow> free_buf s i"
    and room: "(\<exists>i. caches s i n) \<or> (\<exists>i < 30. free_buf s i \<and> \<not> bit (flags (bufs s ! i)) 2)"
  shows "\<exists>i s'. bget ROOTDEV n s = Ret (i, s')"
proof -
  have ring: "bio_ring s xs" and len: "length (bufs s) = 31" and xs: "\<And>j. j \<in> set xs \<longleftrightarrow> j < 30"
    and st: "\<And>j. j < 30 \<Longrightarrow> free_buf s j \<or> held s j"
    using inv by (auto simp: cache_inv_def bio_ring_def)
  note scans = scan_ring [OF ring]
  show ?thesis
  proof (cases "List.find (\<lambda>i. dev (bufs s ! i) = ROOTDEV \<and> blockno (bufs s ! i) = n) xs")
    case None
    then have absent: "\<not> caches s j n" for j
      using find_none [OF None] xs by (auto simp: caches_def)
    then obtain j where j: "j < 30" "free_buf s j" "\<not> bit (flags (bufs s ! j)) 2" using room by blast
    obtain k where k: "List.find (\<lambda>i. refcnt (bufs s ! i) = 0 \<and> \<not> bit (flags (bufs s ! i)) 2) (rev xs) = Some k"
      using find_none [of _ "rev xs" j] j xs
      by (cases "List.find (\<lambda>i. refcnt (bufs s ! i) = 0 \<and> \<not> bit (flags (bufs s ! i)) 2) (rev xs)")
        (auto simp: free_buf_def)
    then have "k < 30" "slocked (block (bufs s ! k)) = 0"
      using find_mem [OF k] xs st [of k] by (auto simp: free_buf_def held_def)
    then show ?thesis using None k len by (simp add: bget_def scans lock_buf_Ret)
  next
    case (Some k)
    then have "k < 30" "slocked (block (bufs s ! k)) = 0"
      using find_mem [OF Some] xs n [of k] by (auto simp: caches_def free_buf_def)
    then show ?thesis using Some len by (simp add: bget_def scans lock_buf_Ret)
  qed
qed

lemma cache_inv_len: "cache_inv s xs \<Longrightarrow> length (bufs s) = 31"
  by (simp add: cache_inv_def bio_ring_def)

text \<open>Blocks other than the one buffer \<open>i\<close> holds look the same when only that buffer changes, from
  clean to whatever, and the disk only at its block.\<close>

lemma bview_other:
  assumes inv: "cache_inv s xs" and inv': "cache_inv s' xs'"
    and other: "\<And>j. j < 30 \<Longrightarrow> j \<noteq> i \<Longrightarrow> bufs s' ! j = bufs s ! j"
    and dk: "disk s' ROOTDEV m = disk s ROOTDEV m" and m: "\<not> caches s' i m"
    and old: "caches s i m \<Longrightarrow> bit (flags (bufs s ! i)) 1 \<Longrightarrow> data (bufs s ! i) = disk s ROOTDEV m"
  shows "bview s' m = bview s m"
proof (cases "\<exists>j. caches s' j m")
  case True
  then obtain j where j: "caches s' j m" by blast
  then have "j \<noteq> i" "j < 30" using m by (auto simp: caches_def)
  then have "caches s j m" using other j by (simp add: caches_def)
  then show ?thesis
    using bview_cached [OF inv' j] bview_cached [OF inv, of j m] other [OF \<open>j < 30\<close> \<open>j \<noteq> i\<close>] dk by simp
next
  case False
  then have v': "bview s' m = disk s ROOTDEV m" using bview_uncached [of s' m] dk by simp
  show ?thesis
  proof (cases "\<exists>j. caches s j m")
    case True
    then obtain j where j: "caches s j m" by blast
    have "caches s' j m" if "j \<noteq> i" using j other [of j] that by (simp add: caches_def)
    then have "j = i" using False by blast
    then show ?thesis using bview_cached [OF inv j] old j v' by simp
  next
    case False
    then show ?thesis using bview_uncached [of s m] v' by simp
  qed
qed

lemma got_buf_facts:
  assumes inv: "cache_inv s xs" and g: "got_buf s n i s'"
  shows "cache_inv s' xs" and "caches s' i n" and "held s' i" and "bview s' = bview s"
    and "\<And>j. j \<noteq> i \<Longrightarrow> bufs s' ! j = bufs s ! j"
    and "disk s' = disk s \<and> curpid s' = curpid s \<and> idequeue s' = []"
    and "\<exists>g. s' = upd_buf i g s"
proof -
  have i: "i < 30" "free_buf s i" and len: "length (bufs s) = 31"
    using g cache_inv_len [OF inv] by (auto simp: got_buf_def)
  have cl: "clean s i" "dirty_valid s i" using inv i held_not_free by (auto simp: cache_inv_def)
  show other: "\<And>j. j \<noteq> i \<Longrightarrow> bufs s' ! j = bufs s ! j"
    and same: "disk s' = disk s \<and> curpid s' = curpid s \<and> idequeue s' = []"
    and "\<exists>g. s' = upd_buf i g s"
    using g inv by (auto simp: got_buf_def cache_inv_def)
  show c: "caches s' i n" and h: "held s' i"
    using g i len by (auto simp: got_buf_def caches_def held_def holdingsleep_def)
  have u: "s' = (upd_buf i f s)\<lparr>disk := disk s\<rparr>" if "s' = upd_buf i f s" for f
    using that by (simp add: upd_buf_def)
  from g consider
      (hit) "caches s i n" "s' = upd_buf i (\<lambda>b. b\<lparr>refcnt := 1, block := \<lparr>slocked = 1, spid = curpid s\<rparr>\<rparr>) s"
    | (miss) "\<And>j. \<not> caches s j n" "\<not> bit (flags (bufs s ! i)) 2"
      "s' = upd_buf i (\<lambda>b. b\<lparr>dev := ROOTDEV, blockno := n, flags := 0, refcnt := 1,
        block := \<lparr>slocked = 1, spid = curpid s\<rparr>\<rparr>) s"
    by (auto simp: got_buf_def)
  then have "cache_inv s' xs \<and> bview s' = bview s"
  proof cases
    case hit
    have inv': "cache_inv s' xs"
      by (rule cache_inv_upd [OF inv i(1) _ u [OF hit(2)]])
        (use h cl len i caches_unique [OF inv] in \<open>auto simp: hit dirty_valid_def caches_def\<close>)
    have "bview s' m = bview s m" for m
    proof (cases "m = n")
      case True
      then show ?thesis
        using bview_cached [OF inv' c] bview_cached [OF inv hit(1)] len i by (simp add: hit(2))
    next
      case False
      then show ?thesis
        using bview_other [OF inv inv' other, of i m] same c hit(1) by (auto simp: caches_def)
    qed
    with inv' show ?thesis by (auto simp: fun_eq_iff)
  next
    case miss
    have inv': "cache_inv s' xs"
      by (rule cache_inv_upd [OF inv i(1) _ u [OF miss(3)]])
        (use h len i miss(1) in \<open>auto simp: miss(3) dirty_valid_def caches_def\<close>)
    have "bview s' m = bview s m" for m
    proof (cases "m = n")
      case True
      then show ?thesis
        using bview_cached [OF inv' c] bview_uncached [OF miss(1)] len i by (simp add: miss(3))
    next
      case False
      have "data (bufs s ! i) = disk s ROOTDEV m" if "caches s i m" "bit (flags (bufs s ! i)) 1"
        using cl(1) that miss(2) by (auto simp: clean_def Let_def caches_def)
      then show ?thesis
        using bview_other [OF inv inv' other, of i m] same c False by (auto simp: caches_def)
    qed
    with inv' show ?thesis by (auto simp: fun_eq_iff)
  qed
  then show "cache_inv s' xs" and "bview s' = bview s" by auto
qed

text \<open>\<^verbatim>\<open>iderw\<close> of a held buffer changes where the block is, not what it is.\<close>

lemma iderw_held:
  assumes inv: "cache_inv s xs" and h: "held s i" and c: "caches s i n" and r: "iderw i s = Ret s'"
  shows "cache_inv s' xs" and "held s' i" and "caches s' i n" and "bview s' = bview s"
    and "bit (flags (bufs s' ! i)) 1 \<and> \<not> bit (flags (bufs s' ! i)) 2"
    and "data (bufs s' ! i) = bview s n"
    and "disk s' = (if bit (flags (bufs s ! i)) 2
      then (disk s)(ROOTDEV := (disk s ROOTDEV)(n := data (bufs s ! i))) else disk s)"
    and "\<And>j. j \<noteq> i \<Longrightarrow> bufs s' ! j = bufs s ! j"
    and "curpid s' = curpid s \<and> disk s' ROOTDEV n = bview s n"
proof -
  have i: "i < 30" "dev (bufs s ! i) = ROOTDEV" "blockno (bufs s ! i) = n" using c by (auto simp: caches_def)
  have q: "idequeue s = []" "\<not> ide_fault s" "havedisk1 s" and len: "length (bufs s) = 31"
    and dv: "dirty_valid s i"
    using inv i cache_inv_len [OF inv] by (auto simp: cache_inv_def)
  have ns: "\<not> (bit (flags (bufs s ! i)) 1 \<and> \<not> bit (flags (bufs s ! i)) 2)"
    using r h by (auto simp: iderw_def Let_def held_def split: if_splits)
  let ?b = "bufs s ! i" and ?dirty = "bit (flags (bufs s ! i)) 2"
  let ?f = "\<lambda>b. if ?dirty then b\<lparr>flags := (flags b OR B_VALID) AND NOT B_DIRTY\<rparr>
    else b\<lparr>data := disk s ROOTDEV n, flags := (flags b OR B_VALID) AND NOT B_DIRTY\<rparr>"
  let ?d = "if ?dirty then (disk s)(ROOTDEV := (disk s ROOTDEV)(n := data ?b)) else disk s"
  have "s' = (if ?dirty then (upd_buf i ?f s)\<lparr>disk := ?d\<rparr> else upd_buf i ?f s)"
    using iderw_idle [of i s] i q len h ns iderw_Ret_block [OF q(1) r] r
    by (auto simp: held_def Let_def upd_buf_def ROOTDEV_def)
  then have s': "s' = (upd_buf i ?f s)\<lparr>disk := ?d\<rparr>" by (simp add: upd_buf_def)
  show fl: "bit (flags (bufs s' ! i)) 1 \<and> \<not> bit (flags (bufs s' ! i)) 2"
    using i len by (auto simp: s' bit_simps)
  show h': "held s' i" and c': "caches s' i n"
    using h c i len by (auto simp: s' held_def caches_def)
  show inv': "cache_inv s' xs"
    by (rule cache_inv_upd [OF inv i(1) _ s'])
      (use h' c c' fl caches_unique [OF inv] in \<open>auto simp: dirty_valid_def caches_def fun_upd_def\<close>)
  show other: "\<And>j. j \<noteq> i \<Longrightarrow> bufs s' ! j = bufs s ! j" by (simp add: s')
  show dk: "disk s' = ?d" by (simp add: s')
  have vn: "bview s n = (if ?dirty then data ?b else disk s ROOTDEV n)"
    using bview_cached [OF inv c] ns dv by (auto simp: dirty_valid_def)
  show dt: "data (bufs s' ! i) = bview s n" using i len vn by (simp add: s')
  show "curpid s' = curpid s \<and> disk s' ROOTDEV n = bview s n" using vn by (simp add: s')
  have "bview s' m = bview s m" for m
  proof (cases "m = n")
    case True
    then show ?thesis using bview_cached [OF inv' c'] fl dt by simp
  next
    case False
    then show ?thesis
      using bview_other [OF inv inv' other, of i m] dk c c' by (auto simp: caches_def)
  qed
  then show "bview s' = bview s" by (simp add: fun_eq_iff)
qed

text \<open>The contract of \<^verbatim>\<open>bread\<close>.\<close>

lemma bread_Ret:
  assumes inv: "cache_inv s xs" and b: "bread ROOTDEV n s = Ret (i, s')"
  shows "cache_inv s' xs" and "held s' i" and "caches s' i n" and "bview s' = bview s"
    and "bit (flags (bufs s' ! i)) 1" and "data (bufs s' ! i) = bview s n"
    and "\<And>j. j \<noteq> i \<Longrightarrow> bufs s' ! j = bufs s ! j" and "disk s' = disk s \<and> curpid s' = curpid s"
    and "free_buf s i" and "bit (flags (bufs s' ! i)) 2 \<or> data (bufs s' ! i) = disk s' ROOTDEV n"
    and "bit (flags (bufs s' ! i)) 2 \<longleftrightarrow> caches s i n \<and> bit (flags (bufs s ! i)) 2"
proof -
  obtain s1 where g: "bget ROOTDEV n s = Ret (i, s1)"
    and r: "if bit (flags (bufs s1 ! i)) 1 then s' = s1 else iderw i s1 = Ret s'"
    using b by (auto simp: bread_def split: if_splits)
  have got: "got_buf s n i s1" by (rule bget_got [OF inv g])
  note f = got_buf_facts [OF inv got]
  have i: "i < 30" using f(2) by (simp add: caches_def)
  show "free_buf s i" using got by (simp add: got_buf_def)
  have "cache_inv s' xs \<and> held s' i \<and> caches s' i n \<and> bview s' = bview s \<and>
      bit (flags (bufs s' ! i)) 1 \<and> data (bufs s' ! i) = bview s n \<and>
      (\<forall>j. j \<noteq> i \<longrightarrow> bufs s' ! j = bufs s ! j) \<and> disk s' = disk s \<and> curpid s' = curpid s \<and>
      (bit (flags (bufs s' ! i)) 2 \<or> data (bufs s' ! i) = disk s' ROOTDEV n) \<and>
      (bit (flags (bufs s' ! i)) 2 \<longleftrightarrow> caches s i n \<and> bit (flags (bufs s ! i)) 2)"
  proof (cases "bit (flags (bufs s1 ! i)) 1")
    case True
    then have "s' = s1" "bview s n = data (bufs s1 ! i)"
      using r bview_cached [OF f(1,2)] f(4) by auto
    moreover have hit: "caches s i n" "flags (bufs s1 ! i) = flags (bufs s ! i)"
        "data (bufs s1 ! i) = data (bufs s ! i)"
      using got True i cache_inv_len [OF inv] by (auto simp: got_buf_def)
    moreover have "clean s i" using inv i got held_not_free by (auto simp: cache_inv_def got_buf_def)
    ultimately show ?thesis using f True by (auto simp: clean_def Let_def caches_def)
  next
    case False
    then have r': "iderw i s1 = Ret s'" using r by simp
    have nd: "\<not> bit (flags (bufs s1 ! i)) 2"
      using False f(1) i by (auto simp: cache_inv_def dirty_valid_def)
    moreover have "\<not> (caches s i n \<and> bit (flags (bufs s ! i)) 2)"
      using nd got i cache_inv_len [OF inv] by (auto simp: got_buf_def)
    ultimately show ?thesis using iderw_held [OF f(1,3,2) r'] f by simp
  qed
  then show "cache_inv s' xs" and "held s' i" and "caches s' i n" and "bview s' = bview s"
    and "bit (flags (bufs s' ! i)) 1" and "data (bufs s' ! i) = bview s n"
    and "\<And>j. j \<noteq> i \<Longrightarrow> bufs s' ! j = bufs s ! j" and "disk s' = disk s \<and> curpid s' = curpid s"
    and "bit (flags (bufs s' ! i)) 2 \<or> data (bufs s' ! i) = disk s' ROOTDEV n"
    and "bit (flags (bufs s' ! i)) 2 \<longleftrightarrow> caches s i n \<and> bit (flags (bufs s ! i)) 2"
    by auto
qed

lemma bread_victim:
  assumes "cache_inv s xs" and "bread ROOTDEV n s = Ret (i, s')" and "bit (flags (bufs s ! i)) 2"
  shows "caches s i n"
proof -
  obtain s1 where "bget ROOTDEV n s = Ret (i, s1)"
    using assms(2) by (auto simp: bread_def split: if_splits)
  then have "got_buf s n i s1" by (rule bget_got [OF assms(1)])
  then show ?thesis using assms(3) by (auto simp: got_buf_def)
qed

lemma bread_total:
  assumes inv: "cache_inv s xs" and n: "\<And>i. caches s i n \<Longrightarrow> free_buf s i" and "n < FSSIZE"
    and room: "(\<exists>i. caches s i n) \<or> (\<exists>i < 30. free_buf s i \<and> \<not> bit (flags (bufs s ! i)) 2)"
  shows "\<exists>i s'. bread ROOTDEV n s = Ret (i, s')"
proof -
  obtain i s1 where g: "bget ROOTDEV n s = Ret (i, s1)" using bget_total [OF inv n room] by blast
  note f = got_buf_facts [OF inv bget_got [OF inv g]]
  show ?thesis
  proof (cases "bit (flags (bufs s1 ! i)) 1")
    case True
    then show ?thesis using g by (simp add: bread_def)
  next
    case False
    have "i < length (bufs s1)" "blockno (bufs s1 ! i) < FSSIZE"
      using f(2) assms(3) cache_inv_len [OF f(1)] by (simp_all add: caches_def)
    moreover have "idequeue s1 = []" "\<not> ide_fault s1" "havedisk1 s1"
      using f(1) by (simp_all add: cache_inv_def)
    moreover have "holdingsleep (curpid s1) (block (bufs s1 ! i))" using f(3) by (simp add: held_def)
    ultimately obtain s2 where "iderw i s1 = Ret s2" using iderw_idle [of i s1] False by blast
    then show ?thesis using g False by (simp add: bread_def)
  qed
qed

text \<open>Storing into the data of a held buffer, and marking it dirty.\<close>

lemma set_data_held:
  assumes inv: "cache_inv s xs" and h: "held s i" and c: "caches s i n" and v: "bit (flags (bufs s ! i)) 1"
    and s': "s' = upd_buf i (\<lambda>b. b\<lparr>data := x\<rparr>) s"
  shows "cache_inv s' xs" and "held s' i" and "caches s' i n" and "bview s' = (bview s)(n := x)"
    and "flags (bufs s' ! i) = flags (bufs s ! i)" and "data (bufs s' ! i) = x"
proof -
  have i: "i < 30" and len: "length (bufs s) = 31" using c cache_inv_len [OF inv] by (auto simp: caches_def)
  have u: "s' = (upd_buf i (\<lambda>b. b\<lparr>data := x\<rparr>) s)\<lparr>disk := disk s\<rparr>" by (simp add: s' upd_buf_def)
  have f: "held s' i" "caches s' i n" "flags (bufs s' ! i) = flags (bufs s ! i)" "data (bufs s' ! i) = x"
    using h c i len by (auto simp: s' held_def caches_def)
  have inv': "cache_inv s' xs"
    by (rule cache_inv_upd [OF inv i _ u])
      (use f c v caches_unique [OF inv] in \<open>auto simp: dirty_valid_def caches_def\<close>)
  have "bview s' m = ((bview s)(n := x)) m" for m
  proof (cases "m = n")
    case True
    then show ?thesis using bview_cached [OF inv' f(2)] f v by simp
  next
    case False
    then show ?thesis
      using bview_other [OF inv inv', of i m] c f(2) by (auto simp: caches_def s')
  qed
  then show "cache_inv s' xs" and "held s' i" and "caches s' i n" and "bview s' = (bview s)(n := x)"
    and "flags (bufs s' ! i) = flags (bufs s ! i)" and "data (bufs s' ! i) = x"
    using inv' f by (auto simp: fun_eq_iff)
qed

lemma set_dirty_held:
  assumes inv: "cache_inv s xs" and h: "held s i" and c: "caches s i n" and v: "bit (flags (bufs s ! i)) 1"
    and s': "s' = upd_buf i (\<lambda>b. b\<lparr>flags := flags b OR B_DIRTY\<rparr>) s"
  shows "cache_inv s' xs" and "held s' i" and "caches s' i n" and "bview s' = bview s"
    and "bit (flags (bufs s' ! i)) 1 \<and> bit (flags (bufs s' ! i)) 2"
    and "data (bufs s' ! i) = data (bufs s ! i)"
proof -
  have i: "i < 30" and len: "length (bufs s) = 31" using c cache_inv_len [OF inv] by (auto simp: caches_def)
  have u: "s' = (upd_buf i (\<lambda>b. b\<lparr>flags := flags b OR B_DIRTY\<rparr>) s)\<lparr>disk := disk s\<rparr>"
    by (simp add: s' upd_buf_def)
  have f: "held s' i" "caches s' i n" "bit (flags (bufs s' ! i)) 1 \<and> bit (flags (bufs s' ! i)) 2"
    "data (bufs s' ! i) = data (bufs s ! i)"
    using h c i len v by (auto simp: s' held_def caches_def bit_or_iff)
  have inv': "cache_inv s' xs"
    by (rule cache_inv_upd [OF inv i _ u])
      (use f c v caches_unique [OF inv] in \<open>auto simp: dirty_valid_def caches_def\<close>)
  have "bview s' m = bview s m" for m
  proof (cases "m = n")
    case True
    then show ?thesis using bview_cached [OF inv' f(2)] bview_cached [OF inv c] f v by simp
  next
    case False
    then show ?thesis
      using bview_other [OF inv inv', of i m] c f(2) by (auto simp: caches_def s')
  qed
  then show "cache_inv s' xs" and "held s' i" and "caches s' i n" and "bview s' = bview s"
    and "bit (flags (bufs s' ! i)) 1 \<and> bit (flags (bufs s' ! i)) 2"
    and "data (bufs s' ! i) = data (bufs s ! i)"
    using inv' f by (auto simp: fun_eq_iff)
qed

lemma bwrite_held:
  assumes inv: "cache_inv s xs" and h: "held s i" and c: "caches s i n" and v: "bit (flags (bufs s ! i)) 1"
    and w: "bwrite i s = Ret s'"
  shows "cache_inv s' xs" and "held s' i" and "caches s' i n" and "bview s' = bview s"
    and "bit (flags (bufs s' ! i)) 1 \<and> \<not> bit (flags (bufs s' ! i)) 2"
    and "disk s' = (disk s)(ROOTDEV := (disk s ROOTDEV)(n := data (bufs s ! i)))"
    and "data (bufs s' ! i) = data (bufs s ! i)" and "curpid s' = curpid s"
    and "\<And>j. j \<noteq> i \<Longrightarrow> bufs s' ! j = bufs s ! j"
proof -
  let ?s1 = "upd_buf i (\<lambda>b. b\<lparr>flags := flags b OR B_DIRTY\<rparr>) s"
  have r: "iderw i ?s1 = Ret s'" using w h by (simp add: bwrite_def held_def)
  note d = set_dirty_held [OF inv h c v refl]
  note q = iderw_held [OF d(1-3) r]
  have "bview s n = data (bufs s ! i)" using bview_cached [OF inv c] v by simp
  then show "cache_inv s' xs" and "held s' i" and "caches s' i n" and "bview s' = bview s"
    and "bit (flags (bufs s' ! i)) 1 \<and> \<not> bit (flags (bufs s' ! i)) 2"
    and "disk s' = (disk s)(ROOTDEV := (disk s ROOTDEV)(n := data (bufs s ! i)))"
    and "data (bufs s' ! i) = data (bufs s ! i)" and "curpid s' = curpid s"
    and "\<And>j. j \<noteq> i \<Longrightarrow> bufs s' ! j = bufs s ! j"
    using q d by auto
qed

text \<open>The links of the ring are no part of what a buffer holds.\<close>

definition same_buf :: "buf \<Rightarrow> buf \<Rightarrow> bool" where
  "same_buf b c \<longleftrightarrow> flags b = flags c \<and> dev b = dev c \<and> blockno b = blockno c \<and>
     block b = block c \<and> refcnt b = refcnt c \<and> data b = data c"

definition same_io :: "'a iosys_scheme \<Rightarrow> 'a iosys_scheme \<Rightarrow> bool" where
  "same_io s s' \<longleftrightarrow> disk s' = disk s \<and> curpid s' = curpid s \<and> idequeue s' = idequeue s \<and>
     ide_fault s' = ide_fault s \<and> havedisk1 s' = havedisk1 s \<and> (\<forall>j. same_buf (bufs s' ! j) (bufs s ! j))"

lemma same_io_inv:
  assumes inv: "cache_inv s xs" and ring: "bio_ring s' xs'" and same: "same_io s s'"
  shows "cache_inv s' xs'" and "bview s' = bview s"
proof -
  have eq: "caches s' = caches s" "held s' = held s" "free_buf s' = free_buf s" "clean s' = clean s"
      "dirty_valid s' = dirty_valid s"
    using same by (auto simp: same_io_def same_buf_def caches_def held_def free_buf_def clean_def
        dirty_valid_def fun_eq_iff Let_def)
  then show inv': "cache_inv s' xs'"
    using inv ring same unfolding cache_inv_def same_io_def by simp
  have "bview s' m = bview s m" for m
  proof (cases "\<exists>j. caches s j m")
    case True
    then obtain j where j: "caches s j m" by blast
    then show ?thesis
      using bview_cached [OF inv j] bview_cached [OF inv', of j m] same eq(1)
      by (simp add: same_io_def same_buf_def)
  next
    case False
    then show ?thesis
      using bview_uncached [of s m] bview_uncached [of s' m] same eq(1) by (simp add: same_io_def)
  qed
  then show "bview s' = bview s" by (simp add: fun_eq_iff)
qed

lemma link_first_same: "same_io s (link_first i s)" and unlink_same: "same_io s (unlink i s)"
  by (simp_all add: same_io_def same_buf_def link_first_def unlink_def Let_def)

lemma same_io_trans: "same_io s t \<Longrightarrow> same_io t u \<Longrightarrow> same_io s u"
  by (simp add: same_io_def same_buf_def)

lemma brelse_held:
  assumes inv: "cache_inv s xs" and h: "held s i" and c: "caches s i n" and v: "bit (flags (bufs s ! i)) 1"
    and ok: "bit (flags (bufs s ! i)) 2 \<or> data (bufs s ! i) = disk s ROOTDEV n"
  shows "\<exists>s' xs'. brelse i s = Ret s' \<and> cache_inv s' xs' \<and> xs' = i # remove1 i xs \<and> bview s' = bview s \<and>
    free_buf s' i \<and> caches s' i n \<and> disk s' = disk s \<and> curpid s' = curpid s \<and>
    flags (bufs s' ! i) = flags (bufs s ! i) \<and>
    (\<forall>j. j \<noteq> i \<longrightarrow> same_buf (bufs s' ! j) (bufs s ! j))"
proof -
  have i: "i < 30" and len: "length (bufs s) = 31" using c cache_inv_len [OF inv] by (auto simp: caches_def)
  let ?f = "\<lambda>b. b\<lparr>block := releasesleep (block b), refcnt := refcnt b - 1\<rparr>"
  let ?s1 = "upd_buf i ?f s"
  have u: "?s1 = (upd_buf i ?f s)\<lparr>disk := disk s\<rparr>" by (simp add: upd_buf_def)
  have f: "free_buf ?s1 i" "caches ?s1 i n" "clean ?s1 i" "dirty_valid ?s1 i"
    using h c v ok i len
    by (auto simp: free_buf_def held_def caches_def clean_def Let_def dirty_valid_def releasesleep_def)
  have inv1: "cache_inv ?s1 xs"
    by (rule cache_inv_upd [OF inv i _ u])
      (use f c caches_unique [OF inv] in \<open>auto simp: caches_def\<close>)
  have "bview ?s1 m = bview s m" for m
  proof (cases "m = n")
    case True
    then show ?thesis using bview_cached [OF inv1 f(2)] bview_cached [OF inv c] len i v by simp
  next
    case False
    then show ?thesis using bview_other [OF inv inv1, of i m] c f(2) by (auto simp: caches_def)
  qed
  then have vw: "bview ?s1 = bview s" by (simp add: fun_eq_iff)
  have ring: "bio_ring ?s1 xs" using inv1 by (simp add: cache_inv_def)
  then have "i \<in> set xs" using i by (simp add: bio_ring_def)
  then obtain as bs where xs: "xs = as @ i # bs" by (auto simp: in_set_conv_decomp)
  then have "i \<notin> set as" using ring by (simp add: bio_ring_def)
  then have xs': "i # remove1 i xs = i # as @ bs" by (simp add: xs remove1_append)
  let ?s2 = "link_first i (unlink i ?s1)"
  have same: "same_io ?s1 ?s2" using unlink_same link_first_same same_io_trans by blast
  have ring2: "bio_ring ?s2 (i # remove1 i xs)"
    using link_unlink_ring ring unfolding xs' by (simp add: xs)
  note s2 = same_io_inv [OF inv1 ring2 same]
  have "refcnt (bufs ?s1 ! i) = 0" using h i len by (simp add: held_def)
  moreover have "upd_buf i (\<lambda>b. b\<lparr>refcnt := refcnt b - 1\<rparr>)
      (upd_buf i (\<lambda>b. b\<lparr>block := releasesleep (block b)\<rparr>) s) = ?s1"
    using i len by (simp add: upd_buf_def)
  ultimately have "brelse i s = Ret ?s2"
    using h i len by (simp add: brelse_def held_def Let_def)
  moreover have "free_buf ?s2 i" "caches ?s2 i n" "flags (bufs ?s2 ! i) = flags (bufs s ! i)"
    using same f i len by (auto simp: same_io_def same_buf_def free_buf_def caches_def)
  moreover have "same_buf (bufs ?s2 ! j) (bufs s ! j)" if "j \<noteq> i" for j
    using same that by (simp add: same_io_def same_buf_def)
  ultimately show ?thesis
    using s2 vw same by (auto simp: same_io_def)
qed

text \<open>The cache and the driver touch nothing but their own state: \<open>more\<close> is whatever the layers
  above add to it.\<close>

lemma upd_buf_more [simp]: "iosys.more (upd_buf i f s) = iosys.more s"
  by (simp add: upd_buf_def)

lemma idestart_more: "idestart i s = Ret s' \<Longrightarrow> iosys.more s' = iosys.more s"
  by (auto simp: idestart_def Let_def split: if_splits)

lemma ideintr_more: "ideintr s = Ret s' \<Longrightarrow> iosys.more s' = iosys.more s"
  by (auto simp: ideintr_def Let_def dest!: idestart_more split: list.splits if_splits)

lemma ide_wait_more: "ide_wait n i s = Ret s' \<Longrightarrow> iosys.more s' = iosys.more s"
  by (induction n i s rule: ide_wait.induct) (auto dest: ideintr_more split: if_splits)

lemma iderw_more: "iderw i s = Ret s' \<Longrightarrow> iosys.more s' = iosys.more s"
  by (auto simp: iderw_def Let_def simp del: ide_wait.simps dest!: ide_wait_more idestart_more
      split: if_splits)

lemma lock_buf_more: "lock_buf i s = Ret (j, s') \<Longrightarrow> iosys.more s' = iosys.more s"
  by (auto simp: lock_buf_def)

lemma bget_more: "bget d n s = Ret (i, s') \<Longrightarrow> iosys.more s' = iosys.more s"
  by (auto simp: bget_def dest!: lock_buf_more split: option.splits)

lemma bread_more: "bread d n s = Ret (i, s') \<Longrightarrow> iosys.more s' = iosys.more s"
  by (auto simp: bread_def dest!: bget_more iderw_more split: if_splits)

lemma bwrite_more: "bwrite i s = Ret s' \<Longrightarrow> iosys.more s' = iosys.more s"
  by (auto simp: bwrite_def dest!: iderw_more split: if_splits)

lemma brelse_more: "brelse i s = Ret s' \<Longrightarrow> iosys.more s' = iosys.more s"
  by (auto simp: brelse_def Let_def link_first_def unlink_def split: if_splits)

subsection \<open>One block at a time\<close>

text \<open>The two ways the kernel uses a block directly: read it, and overwrite it on the disk
  (\<^verbatim>\<open>bread\<close>, store, \<^verbatim>\<open>bwrite\<close>, \<^verbatim>\<open>brelse\<close>).\<close>

definition read_block :: "u32 \<Rightarrow> 'a iosys_scheme \<Rightarrow> (u8 list \<times> 'a iosys_scheme) outcome" where
  "read_block n s =
     bindR (bread ROOTDEV n s) (\<lambda>(i, s).
       let x = data (bufs s ! i) in bindR (brelse i s) (\<lambda>s. Ret (x, s)))"

definition write_block :: "u32 \<Rightarrow> u8 list \<Rightarrow> 'a iosys_scheme \<Rightarrow> 'a iosys_scheme outcome" where
  "write_block n x s =
     bindR (bread ROOTDEV n s) (\<lambda>(i, s).
       bindR (bwrite i (upd_buf i (\<lambda>b. b\<lparr>data := x\<rparr>) s)) (brelse i))"

text \<open>Nothing is held: the state between the operations of a process.\<close>

definition quiet :: "'a iosys_scheme \<Rightarrow> bool" where
  "quiet s \<longleftrightarrow> (\<exists>xs. cache_inv s xs) \<and> (\<forall>i < 30. free_buf s i)"

lemma quiet_not_held: "quiet s \<Longrightarrow> i < 30 \<Longrightarrow> \<not> held s i"
  using held_not_free by (auto simp: quiet_def)

lemma quiet_clean: "quiet s \<Longrightarrow> i < 30 \<Longrightarrow> clean s i"
  using held_not_free by (fastforce simp: quiet_def cache_inv_def)

lemma same_buf_free: "same_buf (bufs s' ! j) (bufs s ! j) \<Longrightarrow> free_buf s' j = free_buf s j"
  by (simp add: same_buf_def free_buf_def)

lemma read_block_ok:
  assumes q: "quiet s" and r: "read_block n s = Ret (x, s')"
  shows "x = bview s n" and "quiet s'" and "bview s' = bview s" and "disk s' = disk s"
    and "curpid s' = curpid s"
proof -
  obtain xs where inv: "cache_inv s xs" using q by (auto simp: quiet_def)
  obtain i s1 where b: "bread ROOTDEV n s = Ret (i, s1)" and x: "x = data (bufs s1 ! i)"
    and e: "brelse i s1 = Ret s'" using r by (auto simp: read_block_def Let_def)
  note f = bread_Ret [OF inv b]
  have i: "i < 30" using f(3) by (simp add: caches_def)
  obtain xs' where e': "cache_inv s' xs'" "bview s' = bview s1" "free_buf s' i"
      "disk s' = disk s1" "curpid s' = curpid s1" "\<And>j. j \<noteq> i \<Longrightarrow> same_buf (bufs s' ! j) (bufs s1 ! j)"
    using brelse_held [OF f(1,2,3,5) f(10)] e by auto
  have "free_buf s' j" if "j < 30" for j
    using e'(3) same_buf_free [OF e'(6)] f(7) [of j] q that
    by (cases "j = i") (auto simp: quiet_def free_buf_def)
  then show "x = bview s n" and "quiet s'" and "bview s' = bview s" and "disk s' = disk s"
    and "curpid s' = curpid s"
    using x e' f by (auto simp: quiet_def)
qed

lemma bwrite_total:
  assumes "cache_inv s xs" and "held s i" and "caches s i n" and "n < FSSIZE"
  shows "\<exists>s'. bwrite i s = Ret s'"
proof -
  let ?s1 = "upd_buf i (\<lambda>b. b\<lparr>flags := flags b OR B_DIRTY\<rparr>) s"
  have "i < length (bufs ?s1)" "blockno (bufs ?s1 ! i) < FSSIZE" "bit (flags (bufs ?s1 ! i)) 2"
    using assms(3,4) cache_inv_len [OF assms(1)] by (simp_all add: caches_def bit_or_iff)
  moreover have "idequeue ?s1 = []" "\<not> ide_fault ?s1" "havedisk1 ?s1"
    using assms(1) by (simp_all add: cache_inv_def)
  moreover have "holdingsleep (curpid ?s1) (block (bufs ?s1 ! i))" using assms(2) by (simp add: held_def)
  ultimately obtain s2 where "iderw i ?s1 = Ret s2" using iderw_idle [of i ?s1] by blast
  then show ?thesis using assms(2) by (simp add: bwrite_def held_def)
qed

text \<open>\<open>ready s\<close>: nothing is held and some buffer is free to be recycled.\<close>

definition ready :: "'a iosys_scheme \<Rightarrow> bool" where
  "ready s \<longleftrightarrow> quiet s \<and> (\<exists>i < 30. \<not> bit (flags (bufs s ! i)) 2)"

lemma bread_ready:
  assumes q: "ready s" and n: "n < FSSIZE"
  obtains i s' xs where "bread ROOTDEV n s = Ret (i, s')" and "cache_inv s xs"
proof -
  obtain xs where inv: "cache_inv s xs" using q by (auto simp: ready_def quiet_def)
  have "\<exists>i s'. bread ROOTDEV n s = Ret (i, s')"
    using q by (intro bread_total [OF inv _ n]) (auto simp: ready_def quiet_def caches_def)
  then show ?thesis using that inv by blast
qed

lemma read_block_total:
  assumes q: "ready s" and n: "n < FSSIZE"
  shows "\<exists>s'. read_block n s = Ret (bview s n, s') \<and> ready s' \<and> bview s' = bview s \<and> disk s' = disk s"
proof -
  obtain i s1 xs where b: "bread ROOTDEV n s = Ret (i, s1)" and inv: "cache_inv s xs"
    by (rule bread_ready [OF q n])
  note f = bread_Ret [OF inv b]
  obtain s' where e: "brelse i s1 = Ret s'" "flags (bufs s' ! i) = flags (bufs s1 ! i)"
      "\<And>j. j \<noteq> i \<Longrightarrow> same_buf (bufs s' ! j) (bufs s1 ! j)"
    using brelse_held [OF f(1,2,3,5) f(10)] by auto
  have r: "read_block n s = Ret (data (bufs s1 ! i), s')" using b e by (simp add: read_block_def)
  obtain j where j: "j < 30" "\<not> bit (flags (bufs s ! j)) 2" using q by (auto simp: ready_def)
  then have "\<not> bit (flags (bufs s' ! j)) 2"
    using e f(7) [of j] f(11) by (cases "j = i") (auto simp: same_buf_def)
  then show ?thesis
    using read_block_ok [OF _ r] q r j f(6) by (auto simp: ready_def)
qed

lemma write_block_total:
  assumes q: "ready s" and n: "n < FSSIZE"
  shows "\<exists>s'. write_block n x s = Ret s' \<and> ready s' \<and> bview s' = (bview s)(n := x) \<and>
    disk s' = (disk s)(ROOTDEV := (disk s ROOTDEV)(n := x)) \<and> curpid s' = curpid s"
proof -
  obtain i s1 xs where b: "bread ROOTDEV n s = Ret (i, s1)" and inv: "cache_inv s xs"
    by (rule bread_ready [OF q n])
  note f = bread_Ret [OF inv b]
  let ?s2 = "upd_buf i (\<lambda>b. b\<lparr>data := x\<rparr>) s1"
  note d = set_data_held [OF f(1,2,3,5) refl, of x]
  obtain s3 where w: "bwrite i ?s2 = Ret s3" using bwrite_total [OF d(1-3) n] by blast
  have v2: "bit (flags (bufs ?s2 ! i)) 1" using d(5) f(5) by simp
  note w3 = bwrite_held [OF d(1-3) v2 w]
  have "data (bufs s3 ! i) = disk s3 ROOTDEV n" using w3(6,7) by simp
  then obtain s' xs' where e: "brelse i s3 = Ret s'" "cache_inv s' xs'" "bview s' = bview s3" "free_buf s' i"
      "disk s' = disk s3" "curpid s' = curpid s3" "flags (bufs s' ! i) = flags (bufs s3 ! i)"
      "\<And>j. j \<noteq> i \<Longrightarrow> same_buf (bufs s' ! j) (bufs s3 ! j)"
    using brelse_held [OF w3(1-3)] w3(5) by fastforce
  have "free_buf s' j" if "j < 30" for j
    using e(4) same_buf_free [OF e(8)] w3(9) [of j] f(7) [of j] q that
    by (cases "j = i") (auto simp: ready_def quiet_def free_buf_def)
  moreover have "i < 30" "\<not> bit (flags (bufs s' ! i)) 2" using f(3) e(7) w3(5) by (simp_all add: caches_def)
  ultimately have "ready s'" using e(2) by (auto simp: ready_def quiet_def)
  moreover have "write_block n x s = Ret s'" using b w e by (simp add: write_block_def)
  moreover have "data (bufs ?s2 ! i) = x" by (rule d(6))
  ultimately show ?thesis using e w3 d(4) f(4,8) by auto
qed

subsection \<open>The block store as its clients see it\<close>

fun rd_blocks :: "(u32 \<Rightarrow> 's \<Rightarrow> (u8 list \<times> 's) outcome) \<Rightarrow> u32 \<Rightarrow> nat \<Rightarrow> 's \<Rightarrow> (u8 list list \<times> 's) outcome" where
  "rd_blocks rd n 0 s = Ret ([], s)"
| "rd_blocks rd n (Suc k) s =
     bindR (rd n s) (\<lambda>(x, s). bindR (rd_blocks rd (n + 1) k s) (\<lambda>(xs, s). Ret (x # xs, s)))"

fun wr_blocks :: "(u32 \<Rightarrow> u8 list \<Rightarrow> 's \<Rightarrow> 's outcome) \<Rightarrow> u32 \<Rightarrow> u8 list list \<Rightarrow> 's \<Rightarrow> 's outcome" where
  "wr_blocks wr n [] s = Ret s"
| "wr_blocks wr n (x # xs) s = bindR (wr n x s) (wr_blocks wr (n + 1) xs)"

locale block_store =
  fixes rd :: "u32 \<Rightarrow> 's \<Rightarrow> (u8 list \<times> 's) outcome" and wr :: "u32 \<Rightarrow> u8 list \<Rightarrow> 's \<Rightarrow> 's outcome"
    and inv :: "'s \<Rightarrow> bool" and view :: "'s \<Rightarrow> u32 \<Rightarrow> u8 list" and limit :: u32
  assumes rd_ok: "inv s \<Longrightarrow> n < limit \<Longrightarrow> \<exists>s'. rd n s = Ret (view s n, s') \<and> inv s' \<and> view s' = view s"
    and wr_ok: "inv s \<Longrightarrow> n < limit \<Longrightarrow> \<exists>s'. wr n x s = Ret s' \<and> inv s' \<and> view s' = (view s)(n := x)"
begin

lemma rd_blocks_ok:
  "inv s \<Longrightarrow> unat n + k \<le> unat limit \<Longrightarrow>
   \<exists>s'. rd_blocks rd n k s = Ret (map (\<lambda>j. view s (n + of_nat j)) [0..<k], s') \<and> inv s' \<and> view s' = view s"
proof (induction k arbitrary: n s)
  case 0
  then show ?case by simp
next
  case (Suc k)
  have n: "n < limit" using Suc.prems(2) by (simp add: word_less_nat_alt)
  have n1: "unat (n + 1) = unat n + 1"
    using unat_plus_of_nat [of n 1] Suc.prems(2) unat_u32_less [of limit] by simp
  obtain s1 where s1: "rd n s = Ret (view s n, s1)" "inv s1" "view s1 = view s"
    using rd_ok [OF Suc.prems(1) n] by blast
  obtain s2 where s2: "rd_blocks rd (n + 1) k s1 = Ret (map (\<lambda>j. view s1 (n + 1 + of_nat j)) [0..<k], s2)"
      "inv s2" "view s2 = view s1"
    using Suc.IH [OF s1(2), of "n + 1"] Suc.prems(2) n1 by auto
  have "map (\<lambda>j. view s (n + of_nat j)) [0..<Suc k] =
      view s n # map (\<lambda>j. view s1 (n + 1 + of_nat j)) [0..<k]"
    by (simp add: s1(3) upt_conv_Cons map_Suc_upt [symmetric] add.assoc del: upt_Suc)
  then show ?case using s1 s2 by simp
qed

lemma wr_blocks_ok:
  "inv s \<Longrightarrow> unat n + length xs \<le> unat limit \<Longrightarrow>
   \<exists>s'. wr_blocks wr n xs s = Ret s' \<and> inv s' \<and>
     (\<forall>j < length xs. view s' (n + of_nat j) = xs ! j) \<and>
     (\<forall>m. (\<forall>j < length xs. m \<noteq> n + of_nat j) \<longrightarrow> view s' m = view s m)"
proof (induction xs arbitrary: n s)
  case Nil
  then show ?case by simp
next
  case (Cons x xs)
  have n: "n < limit" using Cons.prems(2) by (simp add: word_less_nat_alt)
  have big: "unat n + Suc (length xs) < 2 ^ 32" using Cons.prems(2) unat_u32_less [of limit] by simp
  have n1: "unat (n + 1) = unat n + 1" using unat_plus_of_nat [of n 1] big by simp
  obtain s1 where s1: "wr n x s = Ret s1" "inv s1" "view s1 = (view s)(n := x)"
    using wr_ok [OF Cons.prems(1) n] by blast
  obtain s2 where s2: "wr_blocks wr (n + 1) xs s1 = Ret s2" "inv s2"
      "\<And>j. j < length xs \<Longrightarrow> view s2 (n + 1 + of_nat j) = xs ! j"
      "\<And>m. \<forall>j < length xs. m \<noteq> n + 1 + of_nat j \<Longrightarrow> view s2 m = view s1 m"
    using Cons.IH [OF s1(2), of "n + 1"] Cons.prems(2) n1 by auto
  have ne: "n \<noteq> n + 1 + of_nat j" if "j < length xs" for j
    using plus_of_nat_eq_iff [of 0 "Suc j" n] that big by (simp add: add.assoc)
  have "view s2 (n + of_nat j) = (x # xs) ! j" if "j < Suc (length xs)" for j
  proof (cases j)
    case 0
    then show ?thesis using s2(4) [of n] ne s1(3) by simp
  next
    case (Suc i)
    then show ?thesis using s2(3) [of i] that by (simp add: add.assoc)
  qed
  moreover have "view s2 m = view s m" if m: "\<forall>j < Suc (length xs). m \<noteq> n + of_nat j" for m
  proof -
    have "m \<noteq> n" using spec [OF m, of 0] by simp
    moreover have "m \<noteq> n + 1 + of_nat j" if j: "j < length xs" for j
      using spec [OF m, of "Suc j"] j by (simp add: add.assoc)
    ultimately show ?thesis using s2(4) s1(3) by simp
  qed
  ultimately show ?case using s1 s2 by auto
qed

lemma wr_rd_blocks:
  assumes "inv s" and "unat n + length xs \<le> unat limit"
  shows "\<exists>s1 s2. wr_blocks wr n xs s = Ret s1 \<and> rd_blocks rd n (length xs) s1 = Ret (xs, s2) \<and>
    inv s2 \<and> view s2 = view s1"
proof -
  obtain s1 where s1: "wr_blocks wr n xs s = Ret s1" "inv s1" "\<forall>j < length xs. view s1 (n + of_nat j) = xs ! j"
    using wr_blocks_ok [OF assms] by blast
  moreover have "map (\<lambda>j. view s1 (n + of_nat j)) [0..<length xs] = xs"
    using s1(3) by (intro nth_equalityI) auto
  ultimately show ?thesis using rd_blocks_ok [OF s1(2) assms(2)] by auto
qed

end

interpretation bc: block_store read_block write_block ready bview FSSIZE
proof unfold_locales
  fix s :: "'a iosys_scheme" and n x
  assume "ready s" and "n < FSSIZE"
  then show "\<exists>s'. read_block n s = Ret (bview s n, s') \<and> ready s' \<and> bview s' = bview s"
    and "\<exists>s'. write_block n x s = Ret s' \<and> ready s' \<and> bview s' = (bview s)(n := x)"
    using read_block_total [of s n] write_block_total [of s n x] by auto
qed

subsection \<open>Initialisation\<close>

lemma link_first_ring:
  assumes "length (bufs s) = 31" and "link_path (\<lambda>i. bnext (bufs s ! i)) (\<lambda>i. bprev (bufs s ! i)) HEAD xs HEAD"
    and "distinct (HEAD # xs)" and "\<forall>x \<in> set xs. x < 30" and "i < 30" and "i \<notin> set xs"
  shows "link_path (\<lambda>j. bnext (bufs (link_first i s) ! j)) (\<lambda>j. bprev (bufs (link_first i s) ! j)) HEAD (i # xs) HEAD"
proof -
  have "bnext (bufs s ! HEAD) = hd (xs @ [HEAD])"
    using path_ends [OF assms(2)] by simp
  then have h: "bnext (bufs s ! HEAD) < 31" using assms(4) by (cases xs) auto
  have "i \<noteq> HEAD" using assms(5) by simp
  then have eq: "(\<lambda>j. bnext (bufs (link_first i s) ! j)) =
      (\<lambda>j. bnext (bufs s ! j))(i := bnext (bufs s ! HEAD), HEAD := i)"
    "(\<lambda>j. bprev (bufs (link_first i s) ! j)) =
      (\<lambda>j. bprev (bufs s ! j))(i := HEAD, bnext (bufs s ! HEAD) := i)"
    using link_first_fields [OF assms(1,5) h] by (simp_all add: fun_eq_iff)
  show ?thesis
    unfolding eq by (rule path_link_first) (use assms in auto)
qed

lemma binit_from_ring:
  "length (bufs s) = 31 \<Longrightarrow> n + i = 30 \<Longrightarrow>
   link_path (\<lambda>i. bnext (bufs s ! i)) (\<lambda>i. bprev (bufs s ! i)) HEAD (rev [0..<i]) HEAD \<Longrightarrow>
   bio_ring (binit_from n i s) (rev [0..<30])"
proof (induction n arbitrary: i s)
  case 0
  then have "i = 30" by simp
  with 0 show ?case by (simp add: bio_ring_def del: upt_rec_numeral)
next
  case (Suc n)
  let ?s = "upd_buf i (\<lambda>b. b\<lparr>block := initsleeplock (block b)\<rparr>) s"
  have i: "i < 30" using Suc.prems(2) by simp
  have p: "link_path (\<lambda>j. bnext (bufs ?s ! j)) (\<lambda>j. bprev (bufs ?s ! j)) HEAD (rev [0..<i]) HEAD"
    using Suc.prems(3) by (simp add: if_distrib cong: if_cong)
  have "link_path (\<lambda>j. bnext (bufs (link_first i ?s) ! j)) (\<lambda>j. bprev (bufs (link_first i ?s) ! j))
      HEAD (i # rev [0..<i]) HEAD"
    by (rule link_first_ring) (use Suc.prems p i in auto)
  moreover have "length (bufs (link_first i ?s)) = 31"
    using Suc.prems(1) by (simp add: link_first_def Let_def)
  ultimately show ?case using Suc.prems(2) by (simp add: Suc.IH)
qed

lemma binit_from_fields:
  "length (bufs s) = 31 \<Longrightarrow> (\<And>j. j < 31 \<Longrightarrow> slocked (block (bufs s ! j)) = 0) \<Longrightarrow>
   let t = binit_from n i s in
     refcnt (bufs t ! j) = refcnt (bufs s ! j) \<and> flags (bufs t ! j) = flags (bufs s ! j) \<and>
     dev (bufs t ! j) = dev (bufs s ! j) \<and> (j < 31 \<longrightarrow> slocked (block (bufs t ! j)) = 0) \<and>
     idequeue t = idequeue s \<and> ide_fault t = ide_fault s \<and> havedisk1 t = havedisk1 s \<and> disk t = disk s"
proof (induction n arbitrary: i s)
  case 0
  then show ?case by simp
next
  case (Suc n)
  let ?s = "link_first i (upd_buf i (\<lambda>b. b\<lparr>block := initsleeplock (block b)\<rparr>) s)"
  have same: "same_io (upd_buf i (\<lambda>b. b\<lparr>block := initsleeplock (block b)\<rparr>) s) ?s"
    by (rule link_first_same)
  have len: "length (bufs ?s) = 31" using Suc.prems(1) by (simp add: link_first_def Let_def)
  have "slocked (block (bufs ?s ! j)) = 0" if "j < 31" for j
    using that same Suc.prems(2) by (simp add: same_io_def same_buf_def initsleeplock_def)
  note ih = Suc.IH [OF len this, of "Suc i"]
  show ?case
    using ih same by (simp add: Let_def same_io_def same_buf_def)
qed

definition fresh_bufs :: "'a iosys_scheme \<Rightarrow> bool" where
  "fresh_bufs s \<longleftrightarrow> length (bufs s) = 31 \<and> idequeue s = [] \<and> \<not> ide_fault s \<and> havedisk1 s \<and>
     (\<forall>j < 31. slocked (block (bufs s ! j)) = 0) \<and>
     (\<forall>j < 30. refcnt (bufs s ! j) = 0 \<and> flags (bufs s ! j) = 0 \<and> dev (bufs s ! j) = 0)"

lemma binit_cache_inv:
  assumes "fresh_bufs s"
  shows "cache_inv (binit s) (rev [0..<30])" and "ready (binit s)" and "bview (binit s) = disk s ROOTDEV"
proof -
  let ?s = "upd_buf HEAD (\<lambda>b. b\<lparr>bprev := HEAD, bnext := HEAD\<rparr>) s"
  have l: "length (bufs ?s) = 31" and sl: "\<And>j. j < 31 \<Longrightarrow> slocked (block (bufs ?s ! j)) = 0"
    using assms by (simp_all add: fresh_bufs_def)
  note f = binit_from_fields [OF l sl, of 30 0, unfolded Let_def]
  have b: "binit s = binit_from 30 0 ?s" by (simp add: binit_def NBUF_def)
  have p: "link_path (\<lambda>i. bnext (bufs ?s ! i)) (\<lambda>i. bprev (bufs ?s ! i)) HEAD (rev [0..<0]) HEAD"
    using l by simp
  have ring: "bio_ring (binit s) (rev [0..<30])"
    unfolding b by (rule binit_from_ring [OF l _ p]) simp
  have d: "dev (bufs (binit s) ! j) = 0" "free_buf (binit s) j" "flags (bufs (binit s) ! j) = 0" if "j < 30" for j
    using f [of j] assms that unfolding b by (auto simp: fresh_bufs_def free_buf_def)
  then have "\<not> caches (binit s) j n" for j n by (auto simp: caches_def ROOTDEV_def)
  note nc = this
  have g: "idequeue (binit s) = []" "\<not> ide_fault (binit s)" "havedisk1 (binit s)" "disk (binit s) = disk s"
    using f assms unfolding b by (auto simp: fresh_bufs_def)
  then show inv: "cache_inv (binit s) (rev [0..<30])"
    using ring d nc by (auto simp: cache_inv_def clean_def Let_def dirty_valid_def)
  show "ready (binit s)"
    using inv d by (auto simp: ready_def quiet_def intro!: exI [of _ 0])
  show "bview (binit s) = disk s ROOTDEV"
    using bview_uncached [OF nc] g by (simp add: fun_eq_iff)
qed

subsection \<open>Properties\<close>

text \<open>At a state with nothing held and a buffer to recycle, \<^verbatim>\<open>bread\<close> of any block of the disk
  succeeds and returns a buffer that the process holds locked, that has the block's current
  contents (the cached copy if there is one, else the disk's), and that is the only buffer of the
  block; no block changes its contents by it, whatever buffer was recycled.\<close>
theorem bread_current:
  assumes "ready s" and "n < FSSIZE"
  shows "\<exists>i s'. bread ROOTDEV n s = Ret (i, s') \<and> data (bufs s' ! i) = bview s n \<and> bview s' = bview s \<and>
    holdingsleep (curpid s') (block (bufs s' ! i)) \<and>
    (\<forall>j < NBUF. dev (bufs s' ! j) = ROOTDEV \<and> blockno (bufs s' ! j) = n \<longleftrightarrow> j = i)"
proof -
  obtain i s' xs where b: "bread ROOTDEV n s = Ret (i, s')" and inv: "cache_inv s xs"
    by (rule bread_ready [OF assms])
  note f = bread_Ret [OF inv b]
  have "dev (bufs s' ! j) = ROOTDEV \<and> blockno (bufs s' ! j) = n \<longleftrightarrow> j = i" if "j < NBUF" for j
    using caches_unique [OF f(1) _ f(3), of j] f(3) that by (auto simp: caches_def NBUF_def)
  then show ?thesis using b f(2,4,6) by (auto simp: held_def)
qed

theorem bread_current_witness:
  "\<exists>i s'. bread ROOTDEV 700 (binit boot_io) = Ret (i, s') \<and> data (bufs s' ! i) = replicate 512 0"
proof -
  have f: "fresh_bufs boot_io"
    by (simp add: fresh_bufs_def boot_io_def zero_buf_def)
  have "ready (binit boot_io)" "bview (binit boot_io) 700 = replicate 512 0"
    using binit_cache_inv [OF f] by (simp_all add: boot_io_def)
  then show ?thesis
    using bread_current [of "binit boot_io" 700] by (auto simp: FSSIZE_def SWAP_BLOCKS_def)
qed

lemma fresh_boot_io: "fresh_bufs boot_io"
  by (simp add: fresh_bufs_def boot_io_def zero_buf_def)

text \<open>\<^verbatim>\<open>binit\<close> of the zeroed array makes a ring of all thirty buffers, the last one first, in which
  every buffer can be recycled, and the cache shows the disk.\<close>
theorem binit_makes_ring:
  assumes "fresh_bufs s"
  shows "bio_ring (binit s) (rev [0..<NBUF]) \<and> cache_inv (binit s) (rev [0..<NBUF]) \<and>
    ready (binit s) \<and> bview (binit s) = disk s ROOTDEV"
  using binit_cache_inv [OF assms] unfolding NBUF_def by (simp add: cache_inv_def)

theorem binit_makes_ring_witness: "ready (binit boot_io) \<and> bio_ring (binit boot_io) (rev [0..<NBUF])"
  using binit_makes_ring [OF fresh_boot_io] by blast

lemma find_rev_split:
  "List.find P (rev xs) = Some k \<Longrightarrow> \<exists>as bs. xs = as @ k # bs \<and> P k \<and> (\<forall>j \<in> set bs. \<not> P j)"
proof (induction xs rule: rev_induct)
  case (snoc x xs)
  show ?case
  proof (cases "P x")
    case True
    then show ?thesis using snoc.prems by (intro exI [of _ xs] exI [of _ "[]"]) simp
  next
    case False
    then obtain as bs where "xs = as @ k # bs" "P k" "\<forall>j \<in> set bs. \<not> P j" using snoc by auto
    then show ?thesis using False by (intro exI [of _ as] exI [of _ "bs @ [x]"]) auto
  qed
qed simp

lemma bget_miss:
  assumes inv: "cache_inv s xs" and "\<And>j. \<not> caches s j n" and b: "bget ROOTDEV n s = Ret (k, s')"
  shows "List.find (\<lambda>i. refcnt (bufs s ! i) = 0 \<and> \<not> bit (flags (bufs s ! i)) 2) (rev xs) = Some k"
proof -
  have ring: "bio_ring s xs" and len: "length (bufs s) = 31" and xs: "\<And>j. j \<in> set xs \<longleftrightarrow> j < 30"
    using inv by (auto simp: cache_inv_def bio_ring_def)
  have "List.find (\<lambda>i. dev (bufs s ! i) = ROOTDEV \<and> blockno (bufs s ! i) = n) xs = None"
    using find_mem [of "\<lambda>i. dev (bufs s ! i) = ROOTDEV \<and> blockno (bufs s ! i) = n" xs] assms(2) xs
    by (cases "List.find (\<lambda>i. dev (bufs s ! i) = ROOTDEV \<and> blockno (bufs s ! i) = n) xs")
      (auto simp: caches_def)
  then obtain j where j: "List.find (\<lambda>i. refcnt (bufs s ! i) = 0 \<and> \<not> bit (flags (bufs s ! i)) 2) (rev xs) = Some j"
    and l: "lock_buf j (upd_buf j (\<lambda>b. b\<lparr>dev := ROOTDEV, blockno := n, flags := 0, refcnt := 1\<rparr>) s) = Ret (k, s')"
    using b by (auto simp: bget_def scan_ring [OF ring] split: option.splits)
  then have "j < length (bufs s)" using find_mem [OF j] xs len by auto
  then show ?thesis using j l by (simp add: lock_buf_Ret)
qed

text \<open>C30: the ring is a least-recently-used list: releasing a buffer puts it first, and a block that
  is not cached takes the last buffer of the list that is neither in use nor dirty.\<close>
theorem bcache_lru:
  assumes "cache_inv s xs" and "held s i" and "caches s i n" and "bit (flags (bufs s ! i)) 1"
    and "bit (flags (bufs s ! i)) 2 \<or> data (bufs s ! i) = disk s ROOTDEV n"
    and "brelse i s = Ret s1" and "\<And>j. \<not> caches s1 j m" and "bget ROOTDEV m s1 = Ret (k, s2)"
  shows "\<exists>as bs. i # remove1 i xs = as @ k # bs \<and> refcnt (bufs s1 ! k) = 0 \<and>
     flags (bufs s1 ! k) AND B_DIRTY = 0 \<and>
     (\<forall>j \<in> set bs. refcnt (bufs s1 ! j) \<noteq> 0 \<or> flags (bufs s1 ! j) AND B_DIRTY \<noteq> 0)"
proof -
  have "cache_inv s1 (i # remove1 i xs)"
    using brelse_held [OF assms(1-5)] assms(6) by auto
  from find_rev_split [OF bget_miss [OF this assms(7,8)]] show ?thesis by auto
qed

theorem bcache_lru_witness:
  "\<exists>i s s1 k s2. brelse i s = Ret s1 \<and> bget ROOTDEV 800 s1 = Ret (k, s2 :: iosys) \<and>
     flags (bufs s1 ! k) AND B_DIRTY = 0"
proof -
  let ?s0 = "binit boot_io"
  note b0 = binit_cache_inv [OF fresh_boot_io]
  have dev0: "dev (bufs ?s0 ! j) = 0" if "j < 30" for j
  proof -
    have "length (bufs (upd_buf HEAD (\<lambda>b. b\<lparr>bprev := HEAD, bnext := HEAD\<rparr>) boot_io)) = 31"
      "\<And>j. j < 31 \<Longrightarrow> slocked (block (bufs (upd_buf HEAD (\<lambda>b. b\<lparr>bprev := HEAD, bnext := HEAD\<rparr>) boot_io) ! j)) = 0"
      using fresh_boot_io by (simp_all add: fresh_bufs_def)
    from binit_from_fields [OF this, of NBUF 0] show ?thesis
      using fresh_boot_io that by (simp add: binit_def fresh_bufs_def Let_def)
  qed
  obtain i s where b: "bread ROOTDEV 700 ?s0 = Ret (i, s)"
    by (rule bread_ready [OF b0(2), of 700]) (simp_all add: FSSIZE_def SWAP_BLOCKS_def)
  note f = bread_Ret [OF b0(1) b]
  have nd: "\<not> bit (flags (bufs s ! i)) 2"
    using f(3) f(11) dev0 [of i] by (auto simp: caches_def ROOTDEV_def)
  obtain s1 xs' where e: "brelse i s = Ret s1" "cache_inv s1 xs'" "free_buf s1 i"
      "flags (bufs s1 ! i) = flags (bufs s ! i)" "caches s1 i 700"
      "\<forall>j. j \<noteq> i \<longrightarrow> same_buf (bufs s1 ! j) (bufs s ! j)"
    using brelse_held [OF f(1,2,3,5,10)] by blast
  have nc: "\<not> caches s1 j 800" for j
    using e(5) e(6) f(7) [of j] dev0 [of j]
    by (cases "j = i") (auto simp: caches_def same_buf_def ROOTDEV_def)
  have "\<exists>i < 30. free_buf s1 i \<and> \<not> bit (flags (bufs s1 ! i)) 2"
    using e nd by (auto simp: caches_def)
  then obtain k s2 where g: "bget ROOTDEV 800 s1 = Ret (k, s2)"
    using bget_total [OF e(2), of 800] nc by blast
  show ?thesis
    using bcache_lru [OF f(1,2,3,5,10) e(1) nc g] e(1) g by blast
qed

end
