(* ===== verification/Bytes.thy ===== *)
theory Bytes
  imports Prelude
begin

text \<open>
  Little-endian fields of a block of bytes: how the C code reads and writes the on-disk
  structures it overlays on \<^verbatim>\<open>buf->data\<close>.
\<close>

definition get16 :: "u8 list \<Rightarrow> nat \<Rightarrow> u16" where
  "get16 d k = ucast (d ! k) OR push_bit 8 (ucast (d ! (k + 1)))"

definition put16 :: "u8 list \<Rightarrow> nat \<Rightarrow> u16 \<Rightarrow> u8 list" where
  "put16 d k v = d[k := ucast v, k + 1 := ucast (drop_bit 8 v)]"

definition get32 :: "u8 list \<Rightarrow> nat \<Rightarrow> u32" where
  "get32 d k = ucast (d ! k) OR push_bit 8 (ucast (d ! (k + 1))) OR
     push_bit 16 (ucast (d ! (k + 2))) OR push_bit 24 (ucast (d ! (k + 3)))"

definition put32 :: "u8 list \<Rightarrow> nat \<Rightarrow> u32 \<Rightarrow> u8 list" where
  "put32 d k v = d[k := ucast v, k + 1 := ucast (drop_bit 8 v),
     k + 2 := ucast (drop_bit 16 v), k + 3 := ucast (drop_bit 24 v)]"

lemma length_put [simp]: "length (put16 d k w) = length d" "length (put32 d k v) = length d"
  by (simp_all add: put16_def put32_def)

lemma get16_put16 [simp]: "k + 1 < length d \<Longrightarrow> get16 (put16 d k v) k = v"
  unfolding get16_def put16_def
  by (rule bit_word_eqI) (auto simp: bit_simps nth_list_update less_diff_conv)

lemma get32_put32 [simp]: "k + 3 < length d \<Longrightarrow> get32 (put32 d k v) k = v"
proof -
  assume k: "k + 3 < length d"
  show ?thesis
  proof (rule bit_word_eqI)
    fix n :: nat
    assume n: "n < LENGTH(32)"
    consider "n < 8" | "8 \<le> n" "n < 16" | "16 \<le> n" "n < 24" | "24 \<le> n" by linarith
    then show "bit (get32 (put32 d k v) k) n = bit v n"
      unfolding get32_def put32_def using k n by cases (auto simp: bit_simps nth_list_update)
  qed
qed

lemma get32_put32_other [simp]:
  "k + 3 < j \<or> j + 3 < k \<Longrightarrow> get32 (put32 d k v) j = get32 d j"
  by (auto simp: get32_def put32_def)

lemma get16_put16_other [simp]:
  "k + 1 < j \<or> j + 1 < k \<Longrightarrow> get16 (put16 d k v) j = get16 d j"
  by (auto simp: get16_def put16_def)

subsection \<open>Bits of a bitmap\<close>

definition bit_of :: "u8 list \<Rightarrow> nat \<Rightarrow> bool" where
  "bit_of d i \<longleftrightarrow> d ! (i div 8) AND push_bit (i mod 8) 1 \<noteq> 0"

lemma bit_of_iff: "bit_of d i \<longleftrightarrow> bit (d ! (i div 8)) (i mod 8)"
  by (simp add: bit_of_def push_bit_of_1 and_exp_eq_0_iff_not_bit)

lemma set_bit_of:
  assumes "i div 8 < length d"
  shows "bit_of (d[i div 8 := d ! (i div 8) OR push_bit (i mod 8) 1]) j \<longleftrightarrow> i = j \<or> bit_of d j"
proof (cases "i div 8 = j div 8")
  case True
  have "bit (push_bit (i mod 8) 1 :: u8) (j mod 8) \<longleftrightarrow> i mod 8 = j mod 8"
    by (auto simp: bit_simps)
  moreover have "i mod 8 = j mod 8 \<longleftrightarrow> i = j" using True by (metis div_mult_mod_eq)
  ultimately show ?thesis using True assms by (auto simp: bit_of_iff bit_or_iff)
next
  case False
  then show ?thesis by (auto simp: bit_of_iff)
qed

end
