(* ===== verification/Log.thy ===== *)
theory Log
  imports Bio Bytes
begin

text \<open>
  The redo log (\<^verbatim>\<open>log.c\<close>).  The header block and the logged blocks lie on the disk from block
  \<open>lg_start\<close> on; \<open>lh_n\<close> and \<open>lh_block\<close> are the header in memory.  C \<^verbatim>\<open>int\<close>s are \<open>int\<close>s and become
  block numbers by \<open>word_of_int\<close>.  A call that sleeps on the log is \<open>Blocked\<close>.
\<close>

definition LOGSIZE :: nat where "LOGSIZE = 10 * 3"
definition MAXOPBLOCKS :: int where "MAXOPBLOCKS = 10"

record superblock =
  sb_size :: u32
  sb_nswap :: u32
  sb_nblocks :: u32
  sb_ninodes :: u32
  sb_nlog :: u32
  sb_logstart :: u32
  sb_inodestart :: u32
  sb_bmapstart :: u32

record logsys = iosys +
  lg_start :: int
  lg_size :: int
  lg_outstanding :: int
  lg_committing :: bool
  lg_dev :: u32
  lh_n :: int
  lh_block :: "int list"

definition get_sb :: "u8 list \<Rightarrow> superblock" where
  "get_sb d = \<lparr>sb_size = get32 d 0, sb_nswap = get32 d 4, sb_nblocks = get32 d 8,
     sb_ninodes = get32 d 12, sb_nlog = get32 d 16, sb_logstart = get32 d 20,
     sb_inodestart = get32 d 24, sb_bmapstart = get32 d 28\<rparr>"

definition readsb :: "u32 \<Rightarrow> 'a iosys_scheme \<Rightarrow> (superblock \<times> 'a iosys_scheme) outcome" where
  "readsb d s =
     bindR (bread d 1 s) (\<lambda>(i, s).
       let sb = get_sb (data (bufs s ! i)) in bindR (brelse i s) (\<lambda>s. Ret (sb, s)))"

subsection \<open>Copying blocks between log and home\<close>

text \<open>One turn of the loop of \<^verbatim>\<open>install_trans\<close> and of \<^verbatim>\<open>write_log\<close>.\<close>

definition install_body :: "nat \<Rightarrow> 'a logsys_scheme \<Rightarrow> 'a logsys_scheme outcome" where
  "install_body tail s =
     bindR (bread (lg_dev s) (word_of_int (lg_start s + int tail + 1)) s) (\<lambda>(lbuf, s).
     bindR (bread (lg_dev s) (word_of_int (lh_block s ! tail)) s) (\<lambda>(dbuf, s).
     bindR (bwrite dbuf (upd_buf dbuf (\<lambda>b. b\<lparr>data := data (bufs s ! lbuf)\<rparr>) s)) (\<lambda>s.
     bindR (brelse lbuf s) (brelse dbuf))))"

definition write_log_body :: "nat \<Rightarrow> 'a logsys_scheme \<Rightarrow> 'a logsys_scheme outcome" where
  "write_log_body tail s =
     bindR (bread (lg_dev s) (word_of_int (lg_start s + int tail + 1)) s) (\<lambda>(to, s).
     bindR (bread (lg_dev s) (word_of_int (lh_block s ! tail)) s) (\<lambda>(from, s).
     bindR (bwrite to (upd_buf to (\<lambda>b. b\<lparr>data := data (bufs s ! from)\<rparr>) s)) (\<lambda>s.
     bindR (brelse from s) (brelse to))))"

fun for_tail :: "(nat \<Rightarrow> 's \<Rightarrow> 's outcome) \<Rightarrow> nat \<Rightarrow> nat \<Rightarrow> 's \<Rightarrow> 's outcome" where
  "for_tail body tail 0 s = Ret s"
| "for_tail body tail (Suc n) s = bindR (body tail s) (for_tail body (Suc tail) n)"

definition install_trans :: "'a logsys_scheme \<Rightarrow> 'a logsys_scheme outcome" where
  "install_trans s = for_tail install_body 0 (nat (lh_n s)) s"

definition write_log :: "'a logsys_scheme \<Rightarrow> 'a logsys_scheme outcome" where
  "write_log s = for_tail write_log_body 0 (nat (lh_n s)) s"

subsection \<open>The header\<close>

text \<open>\<^verbatim>\<open>read_head\<close> with a count on the disk above \<^verbatim>\<open>LOGSIZE\<close> would write behind the array
  \<^verbatim>\<open>log.lh.block\<close>; that run has no meaning here.\<close>

definition read_head :: "'a logsys_scheme \<Rightarrow> 'a logsys_scheme outcome" where
  "read_head s =
     bindR (bread (lg_dev s) (word_of_int (lg_start s)) s) (\<lambda>(buf, s).
       let d = data (bufs s ! buf); n = sint (get32 d 0) in
       if n > int LOGSIZE then Panic ''array overrun''
       else
         let blks = map (\<lambda>i. sint (get32 d (4 + 4 * i))) [0..<nat n] in
         brelse buf (s\<lparr>lh_n := n, lh_block := blks @ drop (nat n) (lh_block s)\<rparr>))"

fun put_blocks :: "int list \<Rightarrow> nat \<Rightarrow> u8 list \<Rightarrow> u8 list" where
  "put_blocks [] k d = d"
| "put_blocks (b # bs) k d = put_blocks bs (k + 4) (put32 d k (word_of_int b))"

definition write_head :: "'a logsys_scheme \<Rightarrow> 'a logsys_scheme outcome" where
  "write_head s =
     bindR (bread (lg_dev s) (word_of_int (lg_start s)) s) (\<lambda>(buf, s).
       let d = put32 (data (bufs s ! buf)) 0 (word_of_int (lh_n s));
           d = put_blocks (take (nat (lh_n s)) (lh_block s)) 4 d
       in bindR (bwrite buf (upd_buf buf (\<lambda>b. b\<lparr>data := d\<rparr>) s)) (brelse buf))"

definition recover_from_log :: "'a logsys_scheme \<Rightarrow> 'a logsys_scheme outcome" where
  "recover_from_log s =
     bindR (read_head s) (\<lambda>s.
     bindR (install_trans s) (\<lambda>s.
       write_head (s\<lparr>lh_n := 0\<rparr>)))"

definition initlog :: "u32 \<Rightarrow> 'a logsys_scheme \<Rightarrow> 'a logsys_scheme outcome" where
  "initlog d s =
     (if 4 + 4 * LOGSIZE \<ge> BSIZE then Panic ''initlog: too big logheader''
      else bindR (readsb d s) (\<lambda>(sb, s).
        recover_from_log
          (s\<lparr>lg_start := sint (sb_logstart sb), lg_size := sint (sb_nlog sb), lg_dev := d\<rparr>)))"

subsection \<open>Transactions\<close>

definition begin_op :: "'a logsys_scheme \<Rightarrow> 'a logsys_scheme outcome" where
  "begin_op s =
     (if lg_committing s then Blocked
      else if lh_n s + (lg_outstanding s + 1) * MAXOPBLOCKS > int LOGSIZE then Blocked
      else Ret (s\<lparr>lg_outstanding := lg_outstanding s + 1\<rparr>))"

definition commit :: "'a logsys_scheme \<Rightarrow> 'a logsys_scheme outcome" where
  "commit s =
     (if lh_n s > 0 then
        bindR (write_log s) (\<lambda>s.
        bindR (write_head s) (\<lambda>s.
        bindR (install_trans s) (\<lambda>s.
          write_head (s\<lparr>lh_n := 0\<rparr>))))
      else Ret s)"

definition end_op :: "'a logsys_scheme \<Rightarrow> 'a logsys_scheme outcome" where
  "end_op s =
     (let s = s\<lparr>lg_outstanding := lg_outstanding s - 1\<rparr> in
      if lg_committing s then Panic ''log.committing''
      else if lg_outstanding s = 0 then
        bindR (commit (s\<lparr>lg_committing := True\<rparr>)) (\<lambda>s. Ret (s\<lparr>lg_committing := False\<rparr>))
      else Ret s)"

definition log_write :: "nat \<Rightarrow> 'a logsys_scheme \<Rightarrow> 'a logsys_scheme outcome" where
  "log_write b s =
     (if lh_n s \<ge> int LOGSIZE \<or> lh_n s \<ge> lg_size s - 1 then Panic ''too big a transaction''
      else if lg_outstanding s < 1 then Panic ''log_write outside of trans''
      else
        let n = nat (lh_n s); bn = blockno (bufs s ! b);
            i = (case find_index (\<lambda>x. word_of_int x = bn) (take n (lh_block s)) of
                   Some i \<Rightarrow> i | None \<Rightarrow> n);
            s = s\<lparr>lh_block := (lh_block s)[i := sint bn]\<rparr>;
            s = (if i = n then s\<lparr>lh_n := lh_n s + 1\<rparr> else s)
        in Ret (upd_buf b (\<lambda>x. x\<lparr>flags := flags x OR B_DIRTY\<rparr>) s))"

subsection \<open>Copying a block with both buffers held\<close>

definition dirty :: "'a iosys_scheme \<Rightarrow> nat \<Rightarrow> bool" where
  "dirty s i \<longleftrightarrow> bit (flags (bufs s ! i)) 2"

lemma log_fields:
  fixes s t :: "'a logsys_scheme"
  assumes "iosys.more s = iosys.more t"
  shows "lg_start s = lg_start t" and "lg_size s = lg_size t" and "lg_outstanding s = lg_outstanding t"
    and "lg_committing s = lg_committing t" and "lg_dev s = lg_dev t" and "lh_n s = lh_n t"
    and "lh_block s = lh_block t"
  using assms by (cases s; cases t; simp)+

lemma copy_held:
  assumes inv: "cache_inv s xs" and a: "held s i" "caches s i a" and b: "held s j" "caches s j b"
    and v: "bit (flags (bufs s ! i)) 1" "bit (flags (bufs s ! j)) 1" and ne: "a \<noteq> b" and "b < FSSIZE"
    and ca: "dirty s i \<or> data (bufs s ! i) = disk s ROOTDEV a"
  shows "\<exists>s' xs'. bindR (bwrite j (upd_buf j (\<lambda>x. x\<lparr>data := data (bufs s ! i)\<rparr>) s))
      (\<lambda>s. bindR (brelse i s) (brelse j)) = Ret s' \<and> cache_inv s' xs' \<and>
    bview s' = (bview s)(b := bview s a) \<and>
    disk s' = (disk s)(ROOTDEV := (disk s ROOTDEV)(b := bview s a)) \<and>
    free_buf s' i \<and> free_buf s' j \<and> curpid s' = curpid s \<and> iosys.more s' = iosys.more s \<and>
    flags (bufs s' ! i) = flags (bufs s ! i) \<and> \<not> dirty s' j \<and>
    (\<forall>k. caches s' k = caches s k) \<and> (\<forall>k. k \<noteq> i \<longrightarrow> k \<noteq> j \<longrightarrow> same_buf (bufs s' ! k) (bufs s ! k))"
proof -
  have ij: "i \<noteq> j" using a b ne by (auto simp: caches_def)
  let ?x = "data (bufs s ! i)"
  have x: "?x = bview s a" using bview_cached [OF inv a(2)] v by simp
  let ?s1 = "upd_buf j (\<lambda>b. b\<lparr>data := ?x\<rparr>) s"
  note d = set_data_held [OF inv b v(2) refl, of ?x]
  obtain s2 where w: "bwrite j ?s1 = Ret s2" using bwrite_total [OF d(1-3) assms(9)] by blast
  have v1: "bit (flags (bufs ?s1 ! j)) 1" using d(5) v by simp
  note w2 = bwrite_held [OF d(1-3) v1 w]
  have i2: "bufs s2 ! i = bufs s ! i" using w2(9) [OF ij] ij by simp
  have h2: "held s2 i" "caches s2 i a" "bit (flags (bufs s2 ! i)) 1"
    using a v w2(8) by (simp_all add: held_def caches_def i2)
  have "dirty s2 i \<or> data (bufs s2 ! i) = disk s2 ROOTDEV a"
    using ca ne w2(6) by (auto simp: dirty_def i2)
  then obtain s3 xs3 where r3: "brelse i s2 = Ret s3" "cache_inv s3 xs3" "bview s3 = bview s2" "free_buf s3 i"
      "caches s3 i a" "disk s3 = disk s2" "curpid s3 = curpid s2" "flags (bufs s3 ! i) = flags (bufs s2 ! i)"
      "\<forall>k. k \<noteq> i \<longrightarrow> same_buf (bufs s3 ! k) (bufs s2 ! k)"
    using brelse_held [OF w2(1) h2] unfolding dirty_def by blast
  have j3: "same_buf (bufs s3 ! j) (bufs s2 ! j)" using spec [OF r3(9), of j] ij by auto
  have h3: "held s3 j" "caches s3 j b" "bit (flags (bufs s3 ! j)) 1"
    using j3 w2(2,3,5) r3(7) by (auto simp: held_def caches_def same_buf_def)
  have "bit (flags (bufs s3 ! j)) 2 \<or> data (bufs s3 ! j) = disk s3 ROOTDEV b"
    using j3 w2(6,7) r3(6) by (simp add: same_buf_def)
  then obtain s4 xs4 where r4: "brelse j s3 = Ret s4" "cache_inv s4 xs4" "bview s4 = bview s3" "free_buf s4 j"
      "caches s4 j b" "disk s4 = disk s3" "curpid s4 = curpid s3" "flags (bufs s4 ! j) = flags (bufs s3 ! j)"
      "\<forall>k. k \<noteq> j \<longrightarrow> same_buf (bufs s4 ! k) (bufs s3 ! k)"
    using brelse_held [OF r3(2) h3] by blast
  have i4: "same_buf (bufs s4 ! i) (bufs s3 ! i)" using spec [OF r4(9), of i] ij by auto
  have "free_buf s4 i" using same_buf_free [OF i4] r3(4) by simp
  moreover have "\<not> dirty s4 j" using r4(8) j3 w2(5) by (simp add: dirty_def same_buf_def)
  moreover have "caches s4 k = caches s k" for k
  proof -
    have "caches s4 k m = caches s k m" for m
      using r4(5,9) r3(5,9) a b w2(9) [of k] ij
      by (cases "k = i"; cases "k = j") (auto simp: caches_def same_buf_def)
    then show ?thesis by (simp add: fun_eq_iff)
  qed
  moreover have "same_buf (bufs s4 ! k) (bufs s ! k)" if "k \<noteq> i" "k \<noteq> j" for k
    using r4(9) r3(9) w2(9) [of k] that by (simp add: same_buf_def)
  moreover have "flags (bufs s4 ! i) = flags (bufs s ! i)"
    using i4 r3(8) i2 by (simp add: same_buf_def)
  moreover have "iosys.more s4 = iosys.more s"
    using bwrite_more [OF w] brelse_more [OF r3(1)] brelse_more [OF r4(1)] by simp
  moreover have "bview s4 = (bview s)(b := bview s a)" using r4(3) r3(3) w2(4) d(4) x by simp
  moreover have "disk s4 = (disk s)(ROOTDEV := (disk s ROOTDEV)(b := bview s a))"
    using r4(6) r3(6) w2(6) d(6) x by simp
  moreover have "curpid s4 = curpid s" using r4(7) r3(7) w2(8) by simp
  ultimately show ?thesis using w r3(1) r4(1,2,4) by auto
qed

text \<open>The dirty buffers are the pinned ones: a read leaves them where they are.\<close>

definition pin_eq :: "'a iosys_scheme \<Rightarrow> 'a iosys_scheme \<Rightarrow> bool" where
  "pin_eq s s' \<longleftrightarrow> (\<forall>k. dirty s' k \<longleftrightarrow> dirty s k) \<and> (\<forall>k. dirty s k \<longrightarrow> caches s' k = caches s k)"

lemma bread_pin_eq:
  assumes inv: "cache_inv s xs" and b: "bread ROOTDEV n s = Ret (i, s')"
  shows "pin_eq s s'"
proof -
  note f = bread_Ret [OF inv b]
  have d: "dirty s i \<Longrightarrow> caches s i n" using bread_victim [OF inv b] by (simp add: dirty_def)
  have "dirty s' k \<longleftrightarrow> dirty s k" for k
    using f(7) [of k] f(11) d by (cases "k = i") (auto simp: dirty_def)
  moreover have "caches s' k = caches s k" if "dirty s k" for k
    using f(3) f(7) [of k] d that by (cases "k = i") (auto simp: caches_def fun_eq_iff)
  ultimately show ?thesis by (auto simp: pin_eq_def)
qed

text \<open>Room for two buffers: the second block is pinned in one, or two are free to be recycled.\<close>

definition room2 :: "'a iosys_scheme \<Rightarrow> u32 \<Rightarrow> bool" where
  "room2 s n \<longleftrightarrow> (\<exists>k < 30. \<not> dirty s k) \<and> (\<exists>j. caches s j n \<and> dirty s j) \<or>
     (\<exists>k l. k < 30 \<and> l < 30 \<and> k \<noteq> l \<and> \<not> dirty s k \<and> \<not> dirty s l)"

lemma two_reads:
  assumes q: "quiet s" and n: "n1 \<noteq> n2" "n1 < FSSIZE" "n2 < FSSIZE" and room: "room2 s n2"
  shows "\<exists>i j s1 s2 xs. bread ROOTDEV n1 s = Ret (i, s1) \<and> bread ROOTDEV n2 s1 = Ret (j, s2) \<and>
    cache_inv s2 xs \<and> held s2 i \<and> caches s2 i n1 \<and> held s2 j \<and> caches s2 j n2 \<and>
    bit (flags (bufs s2 ! i)) 1 \<and> bit (flags (bufs s2 ! j)) 1 \<and>
    (dirty s2 i \<or> data (bufs s2 ! i) = disk s2 ROOTDEV n1) \<and>
    (dirty s2 j \<or> data (bufs s2 ! j) = disk s2 ROOTDEV n2) \<and>
    (\<forall>k < 30. k \<noteq> i \<longrightarrow> k \<noteq> j \<longrightarrow> free_buf s2 k) \<and>
    bview s2 = bview s \<and> disk s2 = disk s \<and> curpid s2 = curpid s \<and> pin_eq s s2 \<and>
    iosys.more s1 = iosys.more s \<and> iosys.more s2 = iosys.more s"
proof -
  have rd: "ready s" using q room by (auto simp: ready_def room2_def dirty_def)
  obtain i s1 xs where b1: "bread ROOTDEV n1 s = Ret (i, s1)" and inv: "cache_inv s xs"
    by (rule bread_ready [OF rd n(2)])
  note f1 = bread_Ret [OF inv b1]
  have p1: "pin_eq s s1" by (rule bread_pin_eq [OF inv b1])
  have free1: "free_buf s1 k" if "k < 30" "k \<noteq> i" for k
    using q f1(7) [OF that(2)] that by (simp add: quiet_def free_buf_def)
  have "free_buf s1 k" if "caches s1 k n2" for k
    using free1 [of k] that f1(3) n(1) by (auto simp: caches_def)
  moreover have "(\<exists>k. caches s1 k n2) \<or> (\<exists>k < 30. free_buf s1 k \<and> \<not> bit (flags (bufs s1 ! k)) 2)"
  proof (cases "\<exists>j. caches s j n2 \<and> dirty s j")
    case True
    then obtain j where j: "caches s j n2" "dirty s j" by blast
    have "caches s1 j n2" using p1 j unfolding pin_eq_def by metis
    then show ?thesis by blast
  next
    case False
    then obtain k l where "k < 30" "l < 30" "k \<noteq> l" "\<not> dirty s k" "\<not> dirty s l"
      using room by (auto simp: room2_def)
    then obtain m where "m < 30" "m \<noteq> i" "\<not> dirty s m" by metis
    then show ?thesis using free1 p1 by (auto simp: pin_eq_def dirty_def)
  qed
  ultimately obtain j s2 where b2: "bread ROOTDEV n2 s1 = Ret (j, s2)"
    using bread_total [OF f1(1) _ n(3)] by blast
  note f2 = bread_Ret [OF f1(1) b2]
  have p2: "pin_eq s1 s2" by (rule bread_pin_eq [OF f1(1) b2])
  have ji: "i \<noteq> j" using f2(9) f1(2) held_not_free by auto
  have i2: "bufs s2 ! i = bufs s1 ! i" by (rule f2(7) [OF ji])
  have "held s2 i" "caches s2 i n1" using f1(2,3) f2(8) by (simp_all add: held_def caches_def i2)
  moreover have "free_buf s2 k" if "k < 30" "k \<noteq> i" "k \<noteq> j" for k
    using free1 [OF that(1,2)] f2(7) [OF that(3)] by (simp add: free_buf_def)
  moreover have "pin_eq s s2" using p1 p2 by (auto simp: pin_eq_def)
  moreover have "iosys.more s1 = iosys.more s" "iosys.more s2 = iosys.more s"
    using bread_more [OF b1] bread_more [OF b2] by simp_all
  moreover have "dirty s2 i \<or> data (bufs s2 ! i) = disk s2 ROOTDEV n1"
    using f1(10) f2(8) by (simp add: dirty_def i2)
  moreover have "dirty s2 j \<or> data (bufs s2 ! j) = disk s2 ROOTDEV n2"
    using f2(10) by (simp add: dirty_def)
  moreover have "bit (flags (bufs s2 ! i)) 1" "bview s2 = bview s" "disk s2 = disk s" "curpid s2 = curpid s"
    using f1(4,5,8) f2(4,8) by (simp_all add: i2)
  ultimately show ?thesis
    using b1 b2 f2(1,2,3,5)
    by (intro exI [of _ i] exI [of _ j] exI [of _ s1] exI [of _ s2] exI [of _ xs] conjI allI impI) simp_all
qed

text \<open>The blocks of the log: the \<open>t\<close>th logged copy and its home.\<close>

definition log_at :: "'a logsys_scheme \<Rightarrow> nat \<Rightarrow> u32" where
  "log_at s t = word_of_int (lg_start s + int t + 1)"

definition home_at :: "'a logsys_scheme \<Rightarrow> nat \<Rightarrow> u32" where
  "home_at s t = word_of_int (lh_block s ! t)"

text \<open>\<open>log_step s s' b x\<close>: from one quiet state to another, block \<open>b\<close> got the contents \<open>x\<close>, on the
  disk too, and nothing else happened but that other blocks may be cached and \<open>b\<close> is not dirty.\<close>

definition log_step :: "'a logsys_scheme \<Rightarrow> 'a logsys_scheme \<Rightarrow> u32 \<Rightarrow> u8 list \<Rightarrow> bool" where
  "log_step s s' b x \<longleftrightarrow> quiet s' \<and> bview s' = (bview s)(b := x) \<and>
     disk s' = (disk s)(ROOTDEV := (disk s ROOTDEV)(b := x)) \<and> iosys.more s' = iosys.more s \<and>
     curpid s' = curpid s \<and>
     (\<forall>k n. n \<noteq> b \<longrightarrow> (caches s' k n \<and> dirty s' k \<longleftrightarrow> caches s k n \<and> dirty s k)) \<and>
     (\<forall>k. \<not> (caches s' k b \<and> dirty s' k)) \<and>
     (\<forall>k. dirty s' k \<longrightarrow> dirty s k \<and> caches s' k = caches s k)"

lemma copy_log_step:
  assumes inv: "cache_inv s2 xs" and i: "held s2 i" "caches s2 i a" and j: "held s2 j" "caches s2 j b"
    and v: "bit (flags (bufs s2 ! i)) 1" "bit (flags (bufs s2 ! j)) 1" and ab: "a \<noteq> b" "b < FSSIZE"
    and ca: "dirty s2 i \<or> data (bufs s2 ! i) = disk s2 ROOTDEV a"
    and fr: "\<forall>k < 30. k \<noteq> i \<longrightarrow> k \<noteq> j \<longrightarrow> free_buf s2 k"
    and s: "bview s2 = bview s" "disk s2 = disk s" "curpid s2 = curpid s" "pin_eq s s2" "iosys.more s2 = iosys.more s"
    and inv0: "cache_inv s xs0"
  shows "\<exists>s'. bindR (bwrite j (upd_buf j (\<lambda>x. x\<lparr>data := data (bufs s2 ! i)\<rparr>) s2))
      (\<lambda>s. bindR (brelse i s) (brelse j)) = Ret s' \<and> log_step s s' b (bview s a)"
proof -
  obtain s' xs' where 1: "bindR (bwrite j (upd_buf j (\<lambda>x. x\<lparr>data := data (bufs s2 ! i)\<rparr>) s2))
      (\<lambda>s. bindR (brelse i s) (brelse j)) = Ret s'" "cache_inv s' xs'"
    "bview s' = (bview s2)(b := bview s2 a)"
    "disk s' = (disk s2)(ROOTDEV := (disk s2 ROOTDEV)(b := bview s2 a))"
    "free_buf s' i" "free_buf s' j" "curpid s' = curpid s2" "iosys.more s' = iosys.more s2"
    "flags (bufs s' ! i) = flags (bufs s2 ! i)" "\<not> dirty s' j" "\<And>k. caches s' k = caches s2 k"
    "\<And>k. k \<noteq> i \<Longrightarrow> k \<noteq> j \<Longrightarrow> same_buf (bufs s' ! k) (bufs s2 ! k)"
    using copy_held [OF inv i j v ab ca] by blast
  have ij: "i \<noteq> j" using i j ab by (auto simp: caches_def)
  have "quiet s'"
    using 1(2,5,6) fr same_buf_free [OF 1(12)] unfolding quiet_def by metis
  moreover have d: "dirty s' k \<longleftrightarrow> dirty s2 k" if "k \<noteq> j" for k
    using 1(9) 1(12) [of k] that by (cases "k = i") (auto simp: dirty_def same_buf_def)
  moreover have "caches s' k n \<and> dirty s' k \<longleftrightarrow> caches s k n \<and> dirty s k" if "n \<noteq> b" for k n
  proof (cases "k = j")
    case True
    then have "\<not> (caches s j n \<and> dirty s j)"
      using s(4) j(2) that unfolding pin_eq_def by (metis caches_def)
    then show ?thesis using True 1(10) by simp
  next
    case False
    then show ?thesis using d [OF False] 1(11) s(4) unfolding pin_eq_def by metis
  qed
  moreover have "\<not> (caches s' k b \<and> dirty s' k)" for k
    using 1(10,11) j(2) caches_unique [OF inv, of k b j] by auto
  moreover have "dirty s' k \<longrightarrow> dirty s k \<and> caches s' k = caches s k" for k
    using d [of k] 1(10,11) s(4) unfolding pin_eq_def by metis
  ultimately show ?thesis using 1 s by (auto simp: log_step_def)
qed

lemma install_body_ok:
  assumes "quiet s" and "lg_dev s = ROOTDEV" and "log_at s t \<noteq> home_at s t"
    and "log_at s t < FSSIZE" and "home_at s t < FSSIZE" and "room2 s (home_at s t)"
  shows "\<exists>s'. install_body t s = Ret s' \<and> log_step s s' (home_at s t) (bview s (log_at s t))"
proof -
  obtain i j s1 s2 xs where r: "bread ROOTDEV (log_at s t) s = Ret (i, s1)"
      "bread ROOTDEV (home_at s t) s1 = Ret (j, s2)" "iosys.more s1 = iosys.more s"
    and f: "cache_inv s2 xs" "held s2 i" "caches s2 i (log_at s t)" "held s2 j" "caches s2 j (home_at s t)"
      "bit (flags (bufs s2 ! i)) 1" "bit (flags (bufs s2 ! j)) 1"
      "dirty s2 i \<or> data (bufs s2 ! i) = disk s2 ROOTDEV (log_at s t)"
      "\<forall>k < 30. k \<noteq> i \<longrightarrow> k \<noteq> j \<longrightarrow> free_buf s2 k" "bview s2 = bview s" "disk s2 = disk s"
      "curpid s2 = curpid s" "pin_eq s s2" "iosys.more s2 = iosys.more s"
    using two_reads [OF assms(1,3,4,5,6)] by blast
  obtain xs0 where inv0: "cache_inv s xs0" using assms(1) by (auto simp: quiet_def)
  have "lg_dev s1 = ROOTDEV" "lh_block s1 = lh_block s"
    using log_fields [OF r(3)] assms(2) by simp_all
  then have "install_body t s = bindR (bwrite j (upd_buf j (\<lambda>x. x\<lparr>data := data (bufs s2 ! i)\<rparr>) s2))
      (\<lambda>s. bindR (brelse i s) (brelse j))"
    using r(1,2) assms(2) by (simp add: install_body_def log_at_def home_at_def)
  then show ?thesis
    using copy_log_step [OF f(1-7) assms(3,5) f(8-14) inv0] by simp
qed

lemma write_log_body_ok:
  assumes "quiet s" and "lg_dev s = ROOTDEV" and "log_at s t \<noteq> home_at s t"
    and "log_at s t < FSSIZE" and "home_at s t < FSSIZE" and "room2 s (home_at s t)"
  shows "\<exists>s'. write_log_body t s = Ret s' \<and> log_step s s' (log_at s t) (bview s (home_at s t))"
proof -
  obtain i j s1 s2 xs where r: "bread ROOTDEV (log_at s t) s = Ret (i, s1)"
      "bread ROOTDEV (home_at s t) s1 = Ret (j, s2)" "iosys.more s1 = iosys.more s"
    and f: "cache_inv s2 xs" "held s2 i" "caches s2 i (log_at s t)" "held s2 j" "caches s2 j (home_at s t)"
      "bit (flags (bufs s2 ! i)) 1" "bit (flags (bufs s2 ! j)) 1"
      "dirty s2 j \<or> data (bufs s2 ! j) = disk s2 ROOTDEV (home_at s t)"
      "\<forall>k < 30. k \<noteq> j \<longrightarrow> k \<noteq> i \<longrightarrow> free_buf s2 k" "bview s2 = bview s" "disk s2 = disk s"
      "curpid s2 = curpid s" "pin_eq s s2" "iosys.more s2 = iosys.more s"
    using two_reads [OF assms(1,3,4,5,6)] by blast
  obtain xs0 where inv0: "cache_inv s xs0" using assms(1) by (auto simp: quiet_def)
  have "lg_dev s1 = ROOTDEV" "lh_block s1 = lh_block s"
    using log_fields [OF r(3)] assms(2) by simp_all
  then have "write_log_body t s = bindR (bwrite i (upd_buf i (\<lambda>x. x\<lparr>data := data (bufs s2 ! j)\<rparr>) s2))
      (\<lambda>s. bindR (brelse j s) (brelse i))"
    using r(1,2) assms(2) by (simp add: write_log_body_def log_at_def home_at_def)
  then show ?thesis
    using copy_log_step [OF f(1,4,5,2,3,7,6) assms(3) [symmetric] assms(4) f(8-14) inv0] by simp
qed

lemma rewrite_ok:
  assumes q: "quiet s" and n: "n < FSSIZE" and room: "\<exists>k < 30. \<not> dirty s k"
  shows "\<exists>i s1. bread ROOTDEV n s = Ret (i, s1) \<and> data (bufs s1 ! i) = bview s n \<and>
    iosys.more s1 = iosys.more s \<and>
    (\<forall>x. \<exists>s'. bindR (bwrite i (upd_buf i (\<lambda>b. b\<lparr>data := x\<rparr>) s1)) (brelse i) = Ret s' \<and>
       log_step s s' n x)"
proof -
  have rd: "ready s" using q room by (auto simp: ready_def dirty_def)
  obtain i s1 xs where b: "bread ROOTDEV n s = Ret (i, s1)" and inv: "cache_inv s xs"
    by (rule bread_ready [OF rd n])
  note f = bread_Ret [OF inv b]
  have p: "pin_eq s s1" by (rule bread_pin_eq [OF inv b])
  have "\<exists>s'. bindR (bwrite i (upd_buf i (\<lambda>b. b\<lparr>data := x\<rparr>) s1)) (brelse i) = Ret s' \<and> log_step s s' n x" for x
  proof -
    let ?s2 = "upd_buf i (\<lambda>b. b\<lparr>data := x\<rparr>) s1"
    note d = set_data_held [OF f(1,2,3,5) refl, of x]
    obtain s3 where w: "bwrite i ?s2 = Ret s3" using bwrite_total [OF d(1-3) n] by blast
    have v2: "bit (flags (bufs ?s2 ! i)) 1" using d(5) f(5) by simp
    note w3 = bwrite_held [OF d(1-3) v2 w]
    have "bit (flags (bufs s3 ! i)) 2 \<or> data (bufs s3 ! i) = disk s3 ROOTDEV n" using w3(6,7) by simp
    then obtain s' xs' where e: "brelse i s3 = Ret s'" "cache_inv s' xs'" "bview s' = bview s3" "free_buf s' i"
        "caches s' i n" "disk s' = disk s3" "curpid s' = curpid s3" "flags (bufs s' ! i) = flags (bufs s3 ! i)"
        "\<forall>j. j \<noteq> i \<longrightarrow> same_buf (bufs s' ! j) (bufs s3 ! j)"
      using brelse_held [OF w3(1-3)] w3(5) by blast
    have o: "same_buf (bufs s' ! j) (bufs s1 ! j)" if "j \<noteq> i" for j
      using e(9) w3(9) [OF that] that by (simp add: same_buf_def)
    have "free_buf s' j" if "j < 30" for j
      using e(4) same_buf_free [OF o] f(7) [of j] q that
      by (cases "j = i") (auto simp: quiet_def free_buf_def)
    then have "quiet s'" using e(2) by (auto simp: quiet_def)
    moreover have nd: "\<not> dirty s' i" using e(8) w3(5) by (simp add: dirty_def)
    moreover have od: "dirty s' k \<longleftrightarrow> dirty s k" "caches s' k m \<and> dirty s' k \<longleftrightarrow> caches s k m \<and> dirty s k"
      if "k \<noteq> i" for k m
    proof -
      have e: "dirty s' k = dirty s1 k" "caches s' k = caches s1 k"
        using o [OF that] by (auto simp: dirty_def caches_def same_buf_def fun_eq_iff)
      show "dirty s' k \<longleftrightarrow> dirty s k" using e p by (simp add: pin_eq_def)
      show "caches s' k m \<and> dirty s' k \<longleftrightarrow> caches s k m \<and> dirty s k"
        using e p unfolding pin_eq_def by metis
    qed
    moreover have "caches s' k m \<and> dirty s' k \<longleftrightarrow> caches s k m \<and> dirty s k" if "m \<noteq> n" for k m
    proof (cases "k = i")
      case True
      have "caches s i n" if "dirty s i" using bread_victim [OF inv b] that by (simp add: dirty_def)
      then show ?thesis using True nd that by (auto simp: caches_def)
    qed (rule od(2))
    moreover have "\<not> (caches s' k n \<and> dirty s' k)" for k
      using caches_unique [OF e(2), of k n i] e(5) nd by auto
    moreover have "dirty s' k \<longrightarrow> dirty s k \<and> caches s' k = caches s k" for k
      using od nd by (cases "k = i") (auto simp: fun_eq_iff)
    moreover have "iosys.more s' = iosys.more s"
      using bread_more [OF b] bwrite_more [OF w] brelse_more [OF e(1)] by simp
    moreover have "bview s' = (bview s)(n := x)" using e(3) w3(4) d(4) f(4) by simp
    moreover have "disk s' = (disk s)(ROOTDEV := (disk s ROOTDEV)(n := x))"
      using e(6) w3(6) d(6) f(8) by simp
    moreover have "curpid s' = curpid s" using e(7) w3(8) f(8) by simp
    ultimately show ?thesis using w e(1) by (simp add: log_step_def)
  qed
  then show ?thesis using b f(6) bread_more [OF b] by blast
qed

definition head_block :: "'a logsys_scheme \<Rightarrow> u32" where
  "head_block s = word_of_int (lg_start s)"

definition head_data :: "int \<Rightarrow> int list \<Rightarrow> u8 list \<Rightarrow> u8 list" where
  "head_data n blks d = put_blocks (take (nat n) blks) 4 (put32 d 0 (word_of_int n))"

lemma write_head_ok:
  assumes "quiet s" and "lg_dev s = ROOTDEV" and "head_block s < FSSIZE" and "\<exists>k < 30. \<not> dirty s k"
  shows "\<exists>s'. write_head s = Ret s' \<and>
    log_step s s' (head_block s) (head_data (lh_n s) (lh_block s) (bview s (head_block s)))"
proof -
  obtain i s1 where b: "bread ROOTDEV (head_block s) s = Ret (i, s1)"
      "data (bufs s1 ! i) = bview s (head_block s)" "iosys.more s1 = iosys.more s"
    and w: "\<And>x. \<exists>s'. bindR (bwrite i (upd_buf i (\<lambda>b. b\<lparr>data := x\<rparr>) s1)) (brelse i) = Ret s' \<and>
       log_step s s' (head_block s) x"
    using rewrite_ok [OF assms(1,3,4)] by blast
  have "lh_n s1 = lh_n s" "lh_block s1 = lh_block s" using log_fields [OF b(3)] by simp_all
  then have "write_head s = bindR (bwrite i (upd_buf i (\<lambda>b. b\<lparr>data :=
      head_data (lh_n s) (lh_block s) (bview s (head_block s))\<rparr>) s1)) (brelse i)"
    using b assms(2) by (simp add: write_head_def head_block_def head_data_def Let_def)
  then show ?thesis using w by simp
qed

lemma log_step_fields:
  assumes "log_step s s' b x"
  shows "lg_dev s' = lg_dev s" and "log_at s' = log_at s" and "home_at s' = home_at s"
    and "lh_n s' = lh_n s" and "lh_block s' = lh_block s" and "lg_start s' = lg_start s"
    and "head_block s' = head_block s"
  using assms log_fields [of s' s] by (auto simp: log_step_def log_at_def home_at_def head_block_def fun_eq_iff)

subsection \<open>What a transaction records\<close>

definition logged :: "'a logsys_scheme \<Rightarrow> u32 list" where
  "logged s = map word_of_int (take (nat (lh_n s)) (lh_block s))"

lemma find_index_map: "find_index P (map f xs) = find_index (\<lambda>x. P (f x)) xs"
  by (induction xs) auto

lemma find_index_logged:
  "find_index (\<lambda>x. word_of_int x = bn) (take (nat (lh_n s)) (lh_block s)) = find_index (\<lambda>x. x = bn) (logged s)"
  by (simp add: logged_def find_index_map)

lemma upd_buf_log [simp]:
  "lh_n (upd_buf b f s) = lh_n s" "lh_block (upd_buf b f s) = lh_block s" "logged (upd_buf b f s) = logged s"
  "lg_outstanding (upd_buf b f s) = lg_outstanding s" "lg_size (upd_buf b f s) = lg_size s"
  by (simp_all add: upd_buf_def logged_def)

lemma log_write_ok:
  assumes n: "0 \<le> lh_n s" "lh_n s < int LOGSIZE" "lh_n s < lg_size s - 1" "1 \<le> lg_outstanding s"
    and len: "length (lh_block s) = LOGSIZE" and b: "b < length (bufs s)"
  shows "\<exists>s'. log_write b s = Ret s' \<and> bit (flags (bufs s' ! b)) 2 \<and> length (lh_block s') = LOGSIZE \<and>
    lg_outstanding s' = lg_outstanding s \<and> lg_size s' = lg_size s \<and>
    length (bufs s') = length (bufs s) \<and> (\<forall>j. blockno (bufs s' ! j) = blockno (bufs s ! j)) \<and>
    logged s' = (if blockno (bufs s ! b) \<in> set (logged s) then logged s else logged s @ [blockno (bufs s ! b)]) \<and>
    lh_n s' = (if blockno (bufs s ! b) \<in> set (logged s) then lh_n s else lh_n s + 1)"
proof -
  let ?bn = "blockno (bufs s ! b)" and ?n = "nat (lh_n s)"
  have nl: "?n < LOGSIZE" using n by simp
  have ll: "length (logged s) = ?n" using nl len by (simp add: logged_def)
  show ?thesis
  proof (cases "find_index (\<lambda>x. x = ?bn) (logged s)")
    case None
    then have nin: "?bn \<notin> set (logged s)" by (auto simp: find_index_None)
    have "map word_of_int (take (nat (lh_n s + 1)) ((lh_block s)[?n := sint ?bn])) = logged s @ [?bn]"
      using nl len n(1) by (simp add: logged_def nat_add_distrib take_Suc_conv_app_nth flip: take_update_swap)
    then show ?thesis
      using None n len b nl nin by (simp add: log_write_def find_index_logged Let_def logged_def bit_or_iff)
  next
    case (Some i)
    then have i: "i < ?n" "logged s ! i = ?bn" and mem: "?bn \<in> set (logged s)"
      using find_index_SomeD [OF Some] ll nth_mem [of i "logged s"] by auto
    have "map word_of_int (take ?n ((lh_block s)[i := sint ?bn])) = (logged s)[i := ?bn]"
      by (simp add: logged_def take_update_swap map_update)
    then have "map word_of_int (take ?n ((lh_block s)[i := sint ?bn])) = logged s"
      using i(2) by (metis list_update_id)
    then show ?thesis
      using Some n len b i mem by (simp add: log_write_def find_index_logged Let_def logged_def bit_or_iff)
  qed
qed

text \<open>A run of \<^verbatim>\<open>log_write\<close> calls in one operation.\<close>

fun log_writes :: "nat list \<Rightarrow> 'a logsys_scheme \<Rightarrow> 'a logsys_scheme outcome" where
  "log_writes [] s = Ret s"
| "log_writes (b # bs) s = bindR (log_write b s) (log_writes bs)"

lemma log_writes_new:
  assumes "lh_n s = int n" and "length (lh_block s) = LOGSIZE" and "1 \<le> lg_outstanding s"
    and "n + length bs < LOGSIZE" and "int (n + length bs) < lg_size s"
    and "\<forall>b \<in> set bs. b < length (bufs s)"
    and "distinct (logged s @ map (\<lambda>b. blockno (bufs s ! b)) bs)"
  shows "\<exists>s'. log_writes bs s = Ret s' \<and> lh_n s' = int (n + length bs) \<and>
    logged s' = logged s @ map (\<lambda>b. blockno (bufs s ! b)) bs \<and> lg_outstanding s' = lg_outstanding s \<and>
    lg_size s' = lg_size s"
  using assms
proof (induction bs arbitrary: s n)
  case Nil
  then show ?case by simp
next
  case (Cons b bs)
  have "b < length (bufs s)" "blockno (bufs s ! b) \<notin> set (logged s)" using Cons.prems by auto
  then obtain s1 where 1: "log_write b s = Ret s1" "length (lh_block s1) = LOGSIZE"
      "lg_outstanding s1 = lg_outstanding s" "lg_size s1 = lg_size s" "length (bufs s1) = length (bufs s)"
      "\<forall>j. blockno (bufs s1 ! j) = blockno (bufs s ! j)"
      "logged s1 = logged s @ [blockno (bufs s ! b)]" "lh_n s1 = int (Suc n)"
    using log_write_ok [of s b] Cons.prems by auto
  have "\<exists>s'. log_writes bs s1 = Ret s' \<and> lh_n s' = int (Suc n + length bs) \<and>
    logged s' = logged s1 @ map (\<lambda>b. blockno (bufs s1 ! b)) bs \<and> lg_outstanding s' = lg_outstanding s1 \<and>
    lg_size s' = lg_size s1"
    by (rule Cons.IH) (use 1 Cons.prems in auto)
  then show ?case using 1 by simp
qed

text \<open>\<^verbatim>\<open>log_write\<close> inside an operation and below the size limit records the block once: a block
  logged before is absorbed, a new one goes to the end of the list, and the buffer is pinned by
  its dirty flag.\<close>
theorem log_write_records:
  assumes "0 \<le> lh_n s" and "lh_n s < int LOGSIZE" and "lh_n s < lg_size s - 1" and "1 \<le> lg_outstanding s"
    and "length (lh_block s) = LOGSIZE" and "b < length (bufs s)"
  shows "\<exists>s'. log_write b s = Ret s' \<and> flags (bufs s' ! b) AND B_DIRTY \<noteq> 0 \<and>
    logged s' = (if blockno (bufs s ! b) \<in> set (logged s) then logged s
                 else logged s @ [blockno (bufs s ! b)])"
  using log_write_ok [OF assms] by auto

text \<open>C28: the reservation of \<^verbatim>\<open>begin_op\<close> counts one block too many.  On an idle, empty log of \<^verbatim>\<open>LOGSIZE\<close>
  blocks, the size \<^verbatim>\<open>mkfs\<close> writes, three operations are admitted side by side, each for its \<^verbatim>\<open>MAXOPBLOCKS\<close>
  writes, and a fourth has to wait; of the 30 different blocks they may then write, in whatever order, 29 are recorded,
  and the last one panics.\<close>
theorem log_reservation_overrun:
  assumes "lh_n s = 0" and "lg_size s = int LOGSIZE" and "lg_outstanding s = 0" and "\<not> lg_committing s"
    and "length (lh_block s) = LOGSIZE" and "length bs = 3 * nat MAXOPBLOCKS" and "\<forall>b \<in> set bs. b < length (bufs s)"
    and "distinct (map (\<lambda>b. blockno (bufs s ! b)) bs)"
  shows "\<exists>s1 s2 s3 s4. begin_op s = Ret s1 \<and> begin_op s1 = Ret s2 \<and> begin_op s2 = Ret s3 \<and> begin_op s3 = Blocked \<and>
    log_writes (butlast bs) s3 = Ret s4 \<and> lh_n s4 = 29 \<and> log_write (last bs) s4 = Panic ''too big a transaction''"
proof -
  let ?s1 = "s\<lparr>lg_outstanding := 1\<rparr>" and ?s2 = "s\<lparr>lg_outstanding := 2\<rparr>" and ?s3 = "s\<lparr>lg_outstanding := 3\<rparr>"
  have b: "begin_op s = Ret ?s1" "begin_op ?s1 = Ret ?s2" "begin_op ?s2 = Ret ?s3" "begin_op ?s3 = Blocked"
    using assms(1,3,4) by (simp_all add: begin_op_def MAXOPBLOCKS_def LOGSIZE_def)
  have l: "length (butlast bs) = 29" using assms(6) by (simp add: MAXOPBLOCKS_def)
  have lg: "logged ?s3 = []" using assms(1) by (simp add: logged_def)
  have "distinct (map (\<lambda>b. blockno (bufs s ! b)) (butlast bs))"
    using assms(8) by (simp add: map_butlast distinct_butlast)
  then have "\<exists>t. log_writes (butlast bs) ?s3 = Ret t \<and> lh_n t = int (0 + length (butlast bs)) \<and>
      logged t = logged ?s3 @ map (\<lambda>b. blockno (bufs ?s3 ! b)) (butlast bs) \<and>
      lg_outstanding t = lg_outstanding ?s3 \<and> lg_size t = lg_size ?s3"
    using assms l lg by (intro log_writes_new) (auto simp: LOGSIZE_def dest: in_set_butlastD)
  then obtain t where t: "log_writes (butlast bs) ?s3 = Ret t" "lh_n t = 29" "lg_size t = 30"
    using l assms(2) by (auto simp: LOGSIZE_def)
  then have "log_write (last bs) t = Panic ''too big a transaction''"
    by (simp add: log_write_def LOGSIZE_def)
  then show ?thesis using b t(1,2) by blast
qed

definition demo_blocks :: "nat \<Rightarrow> int \<Rightarrow> logsys" where
  "demo_blocks n out = iosys.extend
     (boot_io\<lparr>bufs := map (\<lambda>i. zero_buf\<lparr>blockno := of_nat (100 + i)\<rparr>) [0..<31]\<rparr>)
     (logsys.fields 2 30 out False 1 (int n) (map (\<lambda>i. int (200 + i)) [0..<30]))"

lemma demo_blocks_fields:
  "lh_n (demo_blocks n out) = int n" "lg_size (demo_blocks n out) = 30" "lg_outstanding (demo_blocks n out) = out"
  "\<not> lg_committing (demo_blocks n out)" "length (lh_block (demo_blocks n out)) = LOGSIZE"
  "length (bufs (demo_blocks n out)) = 31" "i < 31 \<Longrightarrow> blockno (bufs (demo_blocks n out) ! i) = of_nat (100 + i)"
  "logged (demo_blocks n out) = map (\<lambda>i. word_of_int (int (200 + i))) (take n [0..<30])"
  by (simp_all add: demo_blocks_def iosys.extend_def logsys.fields_def boot_io_def logged_def take_map LOGSIZE_def)

theorem log_write_records_witness:
  "\<exists>s'. log_write 3 (demo_blocks 1 1) = Ret s' \<and> logged s' = [200, 103]"
  using log_write_records [of "demo_blocks 1 1" 3]
  by (auto simp: demo_blocks_fields LOGSIZE_def take_Suc_conv_app_nth)

theorem log_reservation_overrun_witness:
  "\<exists>s1 s2 s3 s4. begin_op (demo_blocks 0 0) = Ret s1 \<and> begin_op s1 = Ret s2 \<and> begin_op s2 = Ret s3 \<and>
     log_writes [0..<29] s3 = Ret s4 \<and> log_write 29 s4 = Panic ''too big a transaction''"
proof -
  let ?s = "demo_blocks 0 0"
  have "map (\<lambda>b. blockno (bufs ?s ! b)) [0..<30] = map (\<lambda>i. of_nat (100 + i)) [0..<30]"
    using demo_blocks_fields(7) by auto
  moreover have "distinct (map (\<lambda>i. of_nat (100 + i) :: u32) [0..<30])" by code_simp
  ultimately have d: "distinct (map (\<lambda>b. blockno (bufs ?s ! b)) [0..<30])" by (simp only:)
  have e: "butlast [0..<30] = [0..<29]" "last [0..<30] = (29 :: nat)" by code_simp+
  have h: "lh_n ?s = 0" "lg_size ?s = int LOGSIZE" "lg_outstanding ?s = 0" "\<not> lg_committing ?s"
      "length (lh_block ?s) = LOGSIZE" "length [0..<30] = 3 * nat MAXOPBLOCKS" "\<forall>b \<in> set [0..<30]. b < length (bufs ?s)"
    by (simp_all add: demo_blocks_fields LOGSIZE_def MAXOPBLOCKS_def del: upt_Suc)
  show ?thesis using log_reservation_overrun [OF h d] unfolding e by blast
qed

end
