(* ===== verification/Recovery.thy ===== *)
theory Recovery
  imports Log
begin

text \<open>
  Crash recovery of the redo log (\<^verbatim>\<open>log.c\<close>): what the disk holds after each disk write of
  \<^verbatim>\<open>commit\<close>, and what \<^verbatim>\<open>initlog\<close> makes of it when the machine starts again.
\<close>

lemma LOGSIZE_pos [simp]: "0 < LOGSIZE"
  by (simp add: LOGSIZE_def)

subsection \<open>Runs of block writes\<close>

text \<open>\<open>log_run s s' B f\<close>: from one quiet state to another, the blocks of \<open>B\<close> got the contents \<open>f\<close>, in the
  cache and on the disk; other blocks stay pinned or not as they were.\<close>

definition log_run :: "'a logsys_scheme \<Rightarrow> 'a logsys_scheme \<Rightarrow> u32 set \<Rightarrow> (u32 \<Rightarrow> u8 list) \<Rightarrow> bool" where
  "log_run s s' B f \<longleftrightarrow> quiet s' \<and> bview s' = override_on (bview s) f B \<and>
     disk s' = (disk s)(ROOTDEV := override_on (disk s ROOTDEV) f B) \<and> iosys.more s' = iosys.more s \<and>
     curpid s' = curpid s \<and>
     (\<forall>k n. n \<notin> B \<longrightarrow> (caches s' k n \<and> dirty s' k \<longleftrightarrow> caches s k n \<and> dirty s k)) \<and>
     (\<forall>k n. n \<in> B \<longrightarrow> \<not> (caches s' k n \<and> dirty s' k)) \<and>
     (\<forall>k. dirty s' k \<longrightarrow> dirty s k \<and> caches s' k = caches s k)"

lemma log_run_refl: "quiet s \<Longrightarrow> log_run s s {} f"
  by (simp add: log_run_def)

lemma log_run_step:
  assumes "log_run s s' B f" and "log_step s' s'' b x"
  shows "log_run s s'' (insert b B) (f(b := x))"
proof -
  have "override_on g (f(b := x)) (insert b B) = (override_on g f B)(b := x)" for g
    by (auto simp: override_on_def)
  moreover have "caches s'' k n \<and> dirty s'' k \<longleftrightarrow> caches s k n \<and> dirty s k" if "n \<notin> insert b B" for k n
    using that assms unfolding log_run_def log_step_def by (metis insertCI)
  moreover have "\<not> (caches s'' k n \<and> dirty s'' k)" if "n \<in> insert b B" for k n
    using that assms unfolding log_run_def log_step_def by (metis insertE)
  moreover have "dirty s'' k \<longrightarrow> dirty s k \<and> caches s'' k = caches s k" for k
    using assms by (simp add: log_run_def log_step_def)
  moreover have "quiet s''" "iosys.more s'' = iosys.more s" "curpid s'' = curpid s"
    "bview s'' = (override_on (bview s) f B)(b := x)"
    "disk s'' = (disk s)(ROOTDEV := (override_on (disk s ROOTDEV) f B)(b := x))"
    using assms by (simp_all add: log_run_def log_step_def)
  ultimately show ?thesis unfolding log_run_def by simp
qed

lemma log_run_fields:
  assumes "log_run s s' B f"
  shows "lg_dev s' = lg_dev s" and "log_at s' = log_at s" and "home_at s' = home_at s"
    and "lh_n s' = lh_n s" and "lh_block s' = lh_block s" and "head_block s' = head_block s" and "quiet s'"
  using assms log_fields [of s' s] by (auto simp: log_run_def log_at_def home_at_def head_block_def fun_eq_iff)

lemma log_run_room:
  assumes r: "log_run s s' B f" and "room2 s n" and "n \<notin> B"
  shows "room2 s' n"
proof -
  have d: "dirty s' k \<Longrightarrow> dirty s k" for k using r by (auto simp: log_run_def)
  have p: "caches s k n \<and> dirty s k \<Longrightarrow> caches s' k n \<and> dirty s' k" for k
    using r assms(3) by (auto simp: log_run_def)
  show ?thesis using assms(2) d p unfolding room2_def by metis
qed

lemma log_run_clean: "log_run s s' B f \<Longrightarrow> \<exists>k < 30. \<not> dirty s k \<Longrightarrow> \<exists>k < 30. \<not> dirty s' k"
  unfolding log_run_def by metis

lemma for_tail_inv:
  assumes "\<And>t s. lo \<le> t \<Longrightarrow> t < lo + n \<Longrightarrow> I t s \<Longrightarrow> \<exists>s'. body t s = Ret s' \<and> I (Suc t) s'" and "I lo s"
  shows "\<exists>s'. for_tail body lo n s = Ret s' \<and> I (lo + n) s'"
  using assms
proof (induction n arbitrary: lo s)
  case (Suc n)
  obtain s1 where 1: "body lo s = Ret s1" "I (Suc lo) s1" using Suc.prems(1) [of lo s] Suc.prems(2) by auto
  have "\<exists>s'. for_tail body (Suc lo) n s1 = Ret s' \<and> I (Suc lo + n) s'"
    by (rule Suc.IH [OF Suc.prems(1)]) (use 1 in auto)
  then show ?case using 1 by simp
qed simp

text \<open>A layout of the log: the homes and the copies are different blocks of the disk, and there is room
  in the cache for every pair.\<close>

definition log_ok :: "'a logsys_scheme \<Rightarrow> nat \<Rightarrow> bool" where
  "log_ok s n \<longleftrightarrow> lg_dev s = ROOTDEV \<and> n < LOGSIZE \<and> 0 \<le> lg_start s \<and> lg_start s + int LOGSIZE \<le> uint FSSIZE \<and>
     (\<forall>t < n. home_at s t < FSSIZE \<and>
        \<not> (lg_start s \<le> uint (home_at s t) \<and> uint (home_at s t) < lg_start s + int LOGSIZE)) \<and>
     (\<forall>t < n. \<forall>u < n. home_at s t = home_at s u \<longrightarrow> t = u)"

lemma log_at_uint:
  assumes "log_ok s n" and "t + 1 < LOGSIZE"
  shows "uint (log_at s t) = lg_start s + int t + 1"
proof -
  have "uint FSSIZE = 16400" by (simp add: FSSIZE_def SWAP_BLOCKS_def)
  then have "0 \<le> lg_start s + int t + 1" "lg_start s + int t + 1 < 2 ^ 32"
    using assms by (simp_all add: log_ok_def LOGSIZE_def)
  then have "uint (word_of_int (lg_start s + int t + 1) :: u32) = lg_start s + int t + 1"
    by (simp only: uint_word_of_int len_num1 len_bit0 len_num0) (simp add: mod_pos_pos_trivial)
  then show ?thesis by (simp only: log_at_def)
qed

lemma head_uint: "log_ok s n \<Longrightarrow> uint (head_block s) = lg_start s"
  by (simp add: log_ok_def head_block_def LOGSIZE_def FSSIZE_def SWAP_BLOCKS_def uint_word_of_int_eq
      take_bit_int_eq_self)

lemma log_blocks:
  assumes "log_ok s n" and "t < n"
  shows "log_at s t < FSSIZE" and "home_at s t < FSSIZE" and "head_block s < FSSIZE"
    and "u < n \<Longrightarrow> log_at s t = log_at s u \<longleftrightarrow> t = u" and "u < n \<Longrightarrow> home_at s t = home_at s u \<longleftrightarrow> t = u"
    and "u < n \<Longrightarrow> log_at s t \<noteq> home_at s u" and "log_at s t \<noteq> head_block s" and "home_at s t \<noteq> head_block s"
proof -
  have n: "t + 1 < LOGSIZE" "u < n \<Longrightarrow> u + 1 < LOGSIZE" using assms by (auto simp: log_ok_def)
  note l = log_at_uint [OF assms(1)] and h = head_uint [OF assms(1)]
  show "log_at s t < FSSIZE" "head_block s < FSSIZE"
    using l [OF n(1)] h assms n by (auto simp: word_less_def log_ok_def)
  show "home_at s t < FSSIZE" using assms by (auto simp: log_ok_def)
  show "u < n \<Longrightarrow> log_at s t = log_at s u \<longleftrightarrow> t = u" using l n by (metis add_right_cancel add_left_cancel of_nat_eq_iff)
  show "u < n \<Longrightarrow> home_at s t = home_at s u \<longleftrightarrow> t = u" using assms by (auto simp: log_ok_def)
  have o: "\<not> (lg_start s \<le> uint (home_at s u) \<and> uint (home_at s u) < lg_start s + int LOGSIZE)" if "u < n" for u
    using assms that by (simp add: log_ok_def)
  show "u < n \<Longrightarrow> log_at s t \<noteq> home_at s u" using o [of u] l [OF n(1)] n(1) by auto
  show "log_at s t \<noteq> head_block s" using l [OF n(1)] h by auto
  show "home_at s t \<noteq> head_block s" using o [of t] h assms by auto
qed

text \<open>The two loops.\<close>

lemma write_log_run:
  assumes "quiet s" and ok: "log_ok s n" and room: "\<forall>t < n. room2 s (home_at s t)" and "m \<le> n"
  shows "\<exists>s' f. for_tail write_log_body 0 m s = Ret s' \<and> log_run s s' (log_at s ` {..<m}) f \<and>
    (\<forall>u < m. f (log_at s u) = bview s (home_at s u))"
proof -
  let ?I = "\<lambda>t s'. \<exists>f. log_run s s' (log_at s ` {..<t}) f \<and> (\<forall>u < t. f (log_at s u) = bview s (home_at s u))"
  have "\<exists>s'. for_tail write_log_body 0 m s = Ret s' \<and> ?I (0 + m) s'"
  proof (rule for_tail_inv)
    show "?I 0 s" using log_run_refl [OF assms(1)] by auto
    fix t s1
    assume t: "t < 0 + m" and "?I t s1"
    then obtain f where r: "log_run s s1 (log_at s ` {..<t}) f" and f: "\<forall>u < t. f (log_at s u) = bview s (home_at s u)"
      by blast
    have tn: "t < n" using t assms(4) by simp
    note b = log_blocks [OF ok tn]
    note e = log_run_fields [OF r]
    have nin: "home_at s t \<notin> log_at s ` {..<t}" 
    proof
      assume "home_at s t \<in> log_at s ` {..<t}"
      then obtain u where "u < t" "home_at s t = log_at s u" by auto
      then show False using log_blocks(6) [OF ok, of u t] tn by simp
    qed
    have "room2 s1 (home_at s t)" by (rule log_run_room [OF r _ nin]) (use room tn in blast)
    moreover have "lg_dev s1 = ROOTDEV" using e ok by (simp add: log_ok_def)
    ultimately obtain s2 where 2: "write_log_body t s1 = Ret s2" "log_step s1 s2 (log_at s t) (bview s1 (home_at s t))"
      using write_log_body_ok [of s1 t] e b(1,2) b(6) [OF tn] by auto
    have v: "bview s1 (home_at s t) = bview s (home_at s t)"
      using r nin by (simp add: log_run_def)
    have "log_run s s2 (log_at s ` {..<Suc t}) (f(log_at s t := bview s (home_at s t)))"
      using log_run_step [OF r 2(2)] v by (simp add: lessThan_Suc)
    moreover have "\<forall>u < Suc t. (f(log_at s t := bview s (home_at s t))) (log_at s u) = bview s (home_at s u)"
    proof (intro allI impI)
      fix u assume "u < Suc t"
      then show "(f(log_at s t := bview s (home_at s t))) (log_at s u) = bview s (home_at s u)" using f b(4) [of u] tn by (cases "u = t") auto
    qed
    ultimately show "\<exists>s'. write_log_body t s1 = Ret s' \<and> ?I (Suc t) s'" using 2(1) by blast
  qed
  then show ?thesis by auto
qed

lemma install_run:
  assumes "quiet s" and ok: "log_ok s n" and room: "\<forall>t < n. room2 s (home_at s t)" and "m \<le> n"
  shows "\<exists>s' f. for_tail install_body 0 m s = Ret s' \<and> log_run s s' (home_at s ` {..<m}) f \<and>
    (\<forall>u < m. f (home_at s u) = bview s (log_at s u))"
proof -
  let ?I = "\<lambda>t s'. \<exists>f. log_run s s' (home_at s ` {..<t}) f \<and> (\<forall>u < t. f (home_at s u) = bview s (log_at s u))"
  have "\<exists>s'. for_tail install_body 0 m s = Ret s' \<and> ?I (0 + m) s'"
  proof (rule for_tail_inv)
    show "?I 0 s" using log_run_refl [OF assms(1)] by auto
    fix t s1
    assume t: "t < 0 + m" and "?I t s1"
    then obtain f where r: "log_run s s1 (home_at s ` {..<t}) f" and f: "\<forall>u < t. f (home_at s u) = bview s (log_at s u)"
      by blast
    have tn: "t < n" using t assms(4) by simp
    note b = log_blocks [OF ok tn]
    note e = log_run_fields [OF r]
    have nin: "home_at s t \<notin> home_at s ` {..<t}"
    proof
      assume "home_at s t \<in> home_at s ` {..<t}"
      then obtain u where "u < t" "home_at s t = home_at s u" by auto
      then show False using b(5) [of u] tn by simp
    qed
    have nil: "log_at s t \<notin> home_at s ` {..<t}"
    proof
      assume "log_at s t \<in> home_at s ` {..<t}"
      then obtain u where "u < t" "log_at s t = home_at s u" by auto
      then show False using b(6) [of u] tn by simp
    qed
    have "room2 s1 (home_at s t)" by (rule log_run_room [OF r _ nin]) (use room tn in blast)
    moreover have "lg_dev s1 = ROOTDEV" using e ok by (simp add: log_ok_def)
    ultimately obtain s2 where 2: "install_body t s1 = Ret s2" "log_step s1 s2 (home_at s t) (bview s1 (log_at s t))"
      using install_body_ok [of s1 t] e b(1,2) b(6) [OF tn] by auto
    have v: "bview s1 (log_at s t) = bview s (log_at s t)"
      using r nil by (simp add: log_run_def)
    have "log_run s s2 (home_at s ` {..<Suc t}) (f(home_at s t := bview s (log_at s t)))"
      using log_run_step [OF r 2(2)] v by (simp add: lessThan_Suc)
    moreover have "\<forall>u < Suc t. (f(home_at s t := bview s (log_at s t))) (home_at s u) = bview s (log_at s u)"
    proof (intro allI impI)
      fix u assume "u < Suc t"
      then show "(f(home_at s t := bview s (log_at s t))) (home_at s u) = bview s (log_at s u)" using f b(5) [of u] tn by (cases "u = t") auto
    qed
    ultimately show "\<exists>s'. install_body t s1 = Ret s' \<and> ?I (Suc t) s'" using 2(1) by blast
  qed
  then show ?thesis by auto
qed

subsection \<open>The header block\<close>

lemma length_put_blocks [simp]: "length (put_blocks bs k d) = length d"
  by (induction bs k d rule: put_blocks.induct) auto

lemma get32_put_blocks_before: "j + 3 < k \<Longrightarrow> get32 (put_blocks bs k d) j = get32 d j"
  by (induction bs k d rule: put_blocks.induct) auto

lemma get32_put_blocks:
  "t < length bs \<Longrightarrow> k + 4 * length bs \<le> length d \<Longrightarrow> get32 (put_blocks bs k d) (k + 4 * t) = word_of_int (bs ! t)"
proof (induction bs k d arbitrary: t rule: put_blocks.induct)
  case (2 b bs k d)
  show ?case
  proof (cases t)
    case 0
    then show ?thesis using 2 by (simp add: get32_put_blocks_before)
  next
    case (Suc u)
    then have "get32 (put_blocks bs (k + 4) (put32 d k (word_of_int b))) ((k + 4) + 4 * u) = word_of_int (bs ! u)"
      using 2 by (intro "2.IH") simp_all
    then show ?thesis using Suc by (simp add: add.assoc)
  qed
qed simp

lemma head_data_get:
  assumes "length d = BSIZE" and "n \<le> LOGSIZE" and "length blks = LOGSIZE"
  shows "sint (get32 (head_data (int n) blks d) 0) = int n"
    and "t < n \<Longrightarrow> get32 (head_data (int n) blks d) (4 + 4 * t) = word_of_int (blks ! t)"
    and "length (head_data (int n) blks d) = BSIZE"
proof -
  have "get32 (head_data (int n) blks d) 0 = of_nat n"
    using assms by (simp add: head_data_def get32_put_blocks_before BSIZE_def)
  moreover have "sint (of_nat n :: u32) = int n"
    using assms(2) by (simp add: LOGSIZE_def sint_uint unsigned_of_nat take_bit_nat_eq_self signed_take_bit_int_eq_self)
  ultimately show "sint (get32 (head_data (int n) blks d) 0) = int n" by simp
  show "t < n \<Longrightarrow> get32 (head_data (int n) blks d) (4 + 4 * t) = word_of_int (blks ! t)"
    using assms by (simp add: head_data_def get32_put_blocks BSIZE_def LOGSIZE_def)
  show "length (head_data (int n) blks d) = BSIZE" using assms by (simp add: head_data_def)
qed

subsection \<open>Fields of the log and the state below\<close>

lemma lh_frame [simp]:
  "cache_inv (s\<lparr>lh_n := a, lh_block := c\<rparr>) xs = cache_inv s xs" "bview (s\<lparr>lh_n := a, lh_block := c\<rparr>) = bview s"
  "held (s\<lparr>lh_n := a, lh_block := c\<rparr>) i = held s i" "caches (s\<lparr>lh_n := a, lh_block := c\<rparr>) = caches s"
  "free_buf (s\<lparr>lh_n := a, lh_block := c\<rparr>) i = free_buf s i" "dirty (s\<lparr>lh_n := a, lh_block := c\<rparr>) = dirty s"
  "quiet (s\<lparr>lh_n := a, lh_block := c\<rparr>) = quiet s"
  by (simp_all add: cache_inv_def bio_ring_def free_buf_def clean_def Let_def held_def dirty_valid_def
      caches_def bview_def dirty_def quiet_def fun_eq_iff cong: option.case_cong)

lemma lh_n_frame [simp]:
  "bview (s\<lparr>lh_n := a\<rparr>) = bview s" "caches (s\<lparr>lh_n := a\<rparr>) = caches s" "dirty (s\<lparr>lh_n := a\<rparr>) = dirty s"
  "quiet (s\<lparr>lh_n := a\<rparr>) = quiet s" "head_block (s\<lparr>lh_n := a\<rparr>) = head_block s"
  using lh_frame [where a = a and c = "lh_block s" and s = s] by (simp_all add: head_block_def)

lemma lg_frame [simp]:
  "bview (s\<lparr>lg_start := a, lg_size := b, lg_dev := c\<rparr>) = bview s"
  "dirty (s\<lparr>lg_start := a, lg_size := b, lg_dev := c\<rparr>) = dirty s"
  "quiet (s\<lparr>lg_start := a, lg_size := b, lg_dev := c\<rparr>) = quiet s"
  by (simp_all add: cache_inv_def bio_ring_def free_buf_def clean_def Let_def held_def dirty_valid_def
      caches_def bview_def dirty_def quiet_def fun_eq_iff cong: option.case_cong)

text \<open>A state in which no buffer is held or pinned.\<close>

definition calm :: "'a iosys_scheme \<Rightarrow> bool" where
  "calm s \<longleftrightarrow> quiet s \<and> (\<forall>k < 30. \<not> dirty s k)"

lemma calm_frame [simp]:
  "calm (s\<lparr>lh_n := a, lh_block := c\<rparr>) = calm s" "calm (s\<lparr>lg_start := a, lg_size := b, lg_dev := d\<rparr>) = calm s"
  "calm (s\<lparr>lh_n := a\<rparr>) = calm s"
  by (simp_all add: calm_def)

lemma calm_ready: "calm s \<Longrightarrow> ready s"
  by (auto simp: calm_def ready_def dirty_def intro!: exI [of _ 0])

lemma bview_unpinned:
  assumes "quiet s" and "\<And>k. \<not> (caches s k n \<and> dirty s k)"
  shows "bview s n = disk s ROOTDEV n"
proof (cases "\<exists>k. caches s k n")
  case True
  then obtain k where k: "caches s k n" by blast
  obtain xs where inv: "cache_inv s xs" using assms(1) by (auto simp: quiet_def)
  have "k < 30" using k by (simp add: caches_def)
  then have "bit (flags (bufs s ! k)) 1 \<longrightarrow> data (bufs s ! k) = disk s ROOTDEV n"
    using quiet_clean [OF assms(1), of k] assms(2) [of k] k by (simp add: clean_def Let_def dirty_def caches_def)
  then show ?thesis using bview_cached [OF inv k] by simp
next
  case False
  then show ?thesis using bview_uncached [of s n] by blast
qed

lemma calm_bview: "calm s \<Longrightarrow> bview s = disk s ROOTDEV"
  using bview_unpinned by (auto simp: calm_def caches_def fun_eq_iff)

lemma log_run_calm: "calm s \<Longrightarrow> log_run s s' B f \<Longrightarrow> calm s'"
  by (auto simp: calm_def log_run_def)

lemma bread_brelse_calm:
  assumes c: "calm s" and n: "n < FSSIZE"
  obtains i s1 s2 where "bread ROOTDEV n s = Ret (i, s1)" and "data (bufs s1 ! i) = bview s n"
    and "brelse i s1 = Ret s2" and "calm s2" and "bview s2 = bview s" and "disk s2 = disk s"
    and "iosys.more s1 = iosys.more s" and "iosys.more s2 = iosys.more s"
proof -
  obtain i s1 xs where b: "bread ROOTDEV n s = Ret (i, s1)" and inv: "cache_inv s xs"
    by (rule bread_ready [OF calm_ready [OF c] n])
  note f = bread_Ret [OF inv b]
  obtain s2 where e: "brelse i s1 = Ret s2" "flags (bufs s2 ! i) = flags (bufs s1 ! i)"
      "\<And>j. j \<noteq> i \<Longrightarrow> same_buf (bufs s2 ! j) (bufs s1 ! j)"
    using brelse_held [OF f(1,2,3,5) f(10)] by auto
  have r: "read_block n s = Ret (data (bufs s1 ! i), s2)" using b e by (simp add: read_block_def)
  have "dirty s2 k = dirty s1 k" for k
    using e(2) e(3) [of k] by (cases "k = i") (auto simp: dirty_def same_buf_def)
  then have "\<forall>k < 30. \<not> dirty s2 k"
    using bread_pin_eq [OF inv b] c by (simp add: pin_eq_def calm_def)
  moreover have q: "quiet s" using c by (simp add: calm_def)
  note read_block_ok [OF q r]
  ultimately show ?thesis
    using that [OF b _ e(1)] f(6) bread_more [OF b] brelse_more [OF e(1)] by (auto simp: calm_def)
qed

subsection \<open>Recovery\<close>

lemma readsb_calm:
  assumes "calm s"
  shows "\<exists>s'. readsb ROOTDEV s = Ret (get_sb (bview s 1), s') \<and> calm s' \<and> disk s' = disk s \<and>
    iosys.more s' = iosys.more s"
proof -
  obtain i s1 s2 where "bread ROOTDEV 1 s = Ret (i, s1)" "data (bufs s1 ! i) = bview s 1"
      "brelse i s1 = Ret s2" "calm s2" "bview s2 = bview s" "disk s2 = disk s" "iosys.more s2 = iosys.more s"
    by (rule bread_brelse_calm [OF assms, of 1]) (simp_all add: FSSIZE_def SWAP_BLOCKS_def)
  then show ?thesis by (simp add: readsb_def Let_def)
qed

lemma upd_buf_lh [simp]:
  "upd_buf i f (s\<lparr>lh_n := a, lh_block := c\<rparr>) = (upd_buf i f s)\<lparr>lh_n := a, lh_block := c\<rparr>"
  by (simp add: upd_buf_def)

lemma link_lh [simp]:
  "link_first i (s\<lparr>lh_n := a, lh_block := c\<rparr>) = (link_first i s)\<lparr>lh_n := a, lh_block := c\<rparr>"
  "unlink i (s\<lparr>lh_n := a, lh_block := c\<rparr>) = (unlink i s)\<lparr>lh_n := a, lh_block := c\<rparr>"
  by (simp_all add: link_first_def unlink_def Let_def)

lemma brelse_lh:
  "brelse i s = Ret s' \<Longrightarrow>
   brelse i (s\<lparr>lh_n := a, lh_block := c\<rparr>) = Ret (s'\<lparr>lh_n := a, lh_block := c\<rparr>)"
  by (simp add: brelse_def Let_def split: if_splits)

lemma read_head_calm:
  assumes "calm s" and "lg_dev s = ROOTDEV" and "head_block s < FSSIZE" and "n \<le> LOGSIZE"
    and n: "sint (get32 (disk s ROOTDEV (head_block s)) 0) = int n"
  shows "\<exists>s'. read_head s = Ret s' \<and> calm s' \<and> disk s' = disk s \<and> lh_n s' = int n \<and>
    lg_start s' = lg_start s \<and> lg_dev s' = ROOTDEV \<and>
    (\<forall>t < n. home_at s' t = get32 (disk s ROOTDEV (head_block s)) (4 + 4 * t))"
proof -
  let ?d = "disk s ROOTDEV (head_block s)"
  obtain i s1 s2 where r: "bread ROOTDEV (head_block s) s = Ret (i, s1)" "data (bufs s1 ! i) = bview s (head_block s)"
      "brelse i s1 = Ret s2" "calm s2" "disk s2 = disk s" "iosys.more s1 = iosys.more s" "iosys.more s2 = iosys.more s"
    by (rule bread_brelse_calm [OF assms(1,3)])
  let ?c = "map (\<lambda>i. sint (get32 ?d (4 + 4 * i))) [0..<n] @ drop n (lh_block s)"
  have d: "data (bufs s1 ! i) = ?d" using r(2) calm_bview [OF assms(1)] by simp
  have f: "lh_block s1 = lh_block s" "lg_start s2 = lg_start s" "lg_dev s2 = lg_dev s"
    using log_fields [OF r(6)] log_fields [OF r(7)] by simp_all
  have "read_head s = brelse i (s1\<lparr>lh_n := int n, lh_block := ?c\<rparr>)"
    using r(1) n assms(2,4) d f by (simp add: read_head_def Let_def head_block_def)
  then have "read_head s = Ret (s2\<lparr>lh_n := int n, lh_block := ?c\<rparr>)" using brelse_lh [OF r(3)] by simp
  then show ?thesis using r(4,5) f assms(2) by (simp add: home_at_def nth_append)
qed

text \<open>The block numbers in a log header.\<close>

definition disk_home :: "u8 list \<Rightarrow> nat \<Rightarrow> u32" where
  "disk_home d t = get32 d (4 + 4 * t)"

definition in_log :: "int \<Rightarrow> u32 \<Rightarrow> bool" where
  "in_log start b \<longleftrightarrow> start \<le> uint b \<and> uint b < start + int LOGSIZE"

lemma recover_calm:
  assumes c: "calm s" and dev: "lg_dev s = ROOTDEV" and st: "0 \<le> lg_start s" "lg_start s + int LOGSIZE \<le> uint FSSIZE"
    and n: "n < LOGSIZE" "sint (get32 (disk s ROOTDEV (head_block s)) 0) = int n"
    and homes: "\<forall>t < n. disk_home (disk s ROOTDEV (head_block s)) t < FSSIZE \<and>
      \<not> in_log (lg_start s) (disk_home (disk s ROOTDEV (head_block s)) t)"
    and dis: "\<forall>t < n. \<forall>u < n. disk_home (disk s ROOTDEV (head_block s)) t = disk_home (disk s ROOTDEV (head_block s)) u \<longrightarrow> t = u"
    and len: "length (disk s ROOTDEV (head_block s)) = BSIZE"
  shows "\<exists>s'. recover_from_log s = Ret s' \<and> calm s' \<and> lh_n s' = 0 \<and>
    sint (get32 (disk s' ROOTDEV (head_block s)) 0) = 0 \<and>
    (\<forall>t < n. disk s' ROOTDEV (disk_home (disk s ROOTDEV (head_block s)) t) = disk s ROOTDEV (log_at s t)) \<and>
    (\<forall>b. \<not> in_log (lg_start s) b \<longrightarrow> (\<forall>t < n. b \<noteq> disk_home (disk s ROOTDEV (head_block s)) t) \<longrightarrow>
       disk s' ROOTDEV b = disk s ROOTDEV b)"
proof -
  let ?h = "disk_home (disk s ROOTDEV (head_block s))"
  have hu: "uint (head_block s) = lg_start s"
    using st unfolding head_block_def
    by (simp add: LOGSIZE_def FSSIZE_def SWAP_BLOCKS_def uint_word_of_int_eq take_bit_int_eq_self)
  then have hb: "head_block s < FSSIZE" "in_log (lg_start s) (head_block s)"
    using st by (simp_all add: word_less_def in_log_def LOGSIZE_def)
  obtain s1 where r: "read_head s = Ret s1" "calm s1" "disk s1 = disk s" "lh_n s1 = int n"
      "lg_start s1 = lg_start s" "lg_dev s1 = ROOTDEV" "\<forall>t < n. home_at s1 t = ?h t"
    using read_head_calm [OF c dev hb(1) less_imp_le [OF n(1)] n(2)] by (auto simp: disk_home_def)
  have e: "log_at s1 = log_at s" "head_block s1 = head_block s"
    using r(5) by (simp_all add: log_at_def head_block_def fun_eq_iff)
  have ok: "log_ok s1 n" using r(5-7) n(1) st homes dis by (simp add: log_ok_def in_log_def)
  have nd: "\<not> dirty s1 0" "\<not> dirty s1 1" using r(2) by (simp_all add: calm_def)
  have room: "\<forall>t < n. room2 s1 (home_at s1 t)"
    unfolding room2_def using nd
    by (intro allI impI disjI2 exI [of _ 0] exI [of _ 1]) simp
  obtain s2 f where i: "for_tail install_body 0 n s1 = Ret s2" "log_run s1 s2 (home_at s1 ` {..<n}) f"
      "\<forall>u < n. f (home_at s1 u) = bview s1 (log_at s1 u)"
    using install_run [OF _ ok room le_refl] r(2) by (auto simp: calm_def)
  have c2: "calm s2" by (rule log_run_calm [OF r(2) i(2)])
  let ?s2 = "s2\<lparr>lh_n := 0\<rparr>"
  have f2: "lg_dev ?s2 = ROOTDEV" "head_block ?s2 = head_block s"
    using log_run_fields [OF i(2)] r(6) e by simp_all
  have "\<exists>k < 30. \<not> dirty ?s2 k" using c2 by (auto simp: calm_def intro!: exI [of _ 0])
  then obtain s3 where w: "write_head ?s2 = Ret s3"
      "log_step ?s2 s3 (head_block s) (head_data 0 (lh_block s2) (bview s2 (head_block s)))"
    using write_head_ok [of ?s2] f2 hb(1) c2 by (auto simp: calm_def)
  have hn: "head_block s \<notin> home_at s1 ` {..<n}"
    using log_blocks(8) [OF ok] e by force
  have d2: "disk s2 ROOTDEV = override_on (disk s ROOTDEV) f (home_at s1 ` {..<n})"
    using i(2) r(3) by (simp add: log_run_def)
  have d3: "disk s3 ROOTDEV = (disk s2 ROOTDEV)(head_block s := head_data 0 (lh_block s2) (bview s2 (head_block s)))"
    using w(2) by (simp add: log_step_def)
  have "bview s2 (head_block s) = disk s ROOTDEV (head_block s)"
    using calm_bview [OF c2] d2 hn by simp
  then have z: "sint (get32 (disk s3 ROOTDEV (head_block s)) 0) = 0"
    using d3 len by (simp add: head_data_def BSIZE_def)
  have "recover_from_log s = Ret s3"
    using r(1,4) i(1) w(1) by (simp add: recover_from_log_def install_trans_def)
  moreover have "calm s3" "lh_n s3 = 0"
    using log_step_fields(4) [OF w(2)] w(2) c2 by (auto simp: log_step_def calm_def)
  moreover have "disk s3 ROOTDEV (?h t) = disk s ROOTDEV (log_at s t)" if t: "t < n" for t
  proof -
    have "?h t \<noteq> head_block s" using log_blocks(8) [OF ok t] r(7) t e by simp
    moreover have "?h t \<in> home_at s1 ` {..<n}" using r(7) t by force
    moreover have "f (?h t) = disk s ROOTDEV (log_at s t)"
      using i(3) r(3,7) t e calm_bview [OF r(2)] by fastforce
    ultimately show ?thesis by (simp add: d3 d2)
  qed
  moreover have "disk s3 ROOTDEV b = disk s ROOTDEV b"
    if "\<not> in_log (lg_start s) b" "\<forall>t < n. b \<noteq> ?h t" for b
  proof -
    have "b \<noteq> head_block s" "b \<notin> home_at s1 ` {..<n}" using that hb(2) r(7) by auto
    then show ?thesis by (simp add: d3 d2)
  qed
  ultimately show ?thesis using z by blast
qed

text \<open>The machine starts again: the memory is lost, the disk stays, and \<^verbatim>\<open>binit\<close> and \<^verbatim>\<open>initlog\<close> run.\<close>

definition power_cycle :: "'a logsys_scheme \<Rightarrow> 'a logsys_scheme" where
  "power_cycle s =
     binit (s\<lparr>bufs := replicate 31 zero_buf, idequeue := [], lg_start := 0, lg_size := 0, lg_outstanding := 0,
       lg_committing := False, lg_dev := 0, lh_n := 0, lh_block := replicate LOGSIZE 0\<rparr>)"

lemma binit_calm:
  assumes "fresh_bufs s"
  shows "calm (binit s)" and "disk (binit s) = disk s"
proof -
  let ?t = "upd_buf HEAD (\<lambda>b. b\<lparr>bprev := HEAD, bnext := HEAD\<rparr>) s"
  have l: "length (bufs ?t) = 31" and sl: "\<And>j. j < 31 \<Longrightarrow> slocked (block (bufs ?t ! j)) = 0"
    using assms by (simp_all add: fresh_bufs_def)
  have p: "binit s = binit_from NBUF 0 ?t" by (simp add: binit_def)
  note g = binit_from_fields [OF l sl, of NBUF 0, unfolded Let_def, folded p]
  show "disk (binit s) = disk s" using g [of 0] by simp
  have "\<not> dirty (binit s) k" if "k < 30" for k
    using g [of k] that assms by (simp add: dirty_def fresh_bufs_def)
  then show "calm (binit s)"
    using binit_cache_inv [OF assms] by (simp add: calm_def ready_def)
qed

lemma power_cycle_calm:
  assumes "\<not> ide_fault s" and "havedisk1 s"
  shows "calm (power_cycle s)" and "disk (power_cycle s) = disk s"
  using binit_calm [of "s\<lparr>bufs := replicate 31 zero_buf, idequeue := [], lg_start := 0, lg_size := 0, lg_outstanding := 0,
       lg_committing := False, lg_dev := 0, lh_n := 0, lh_block := replicate LOGSIZE 0\<rparr>"] assms
  by (simp_all add: power_cycle_def fresh_bufs_def zero_buf_def)

subsection \<open>A commit cut short\<close>

text \<open>\<open>commit_cut k s\<close> is \<^verbatim>\<open>commit\<close> up to its \<open>k\<close>th disk write, of the \<open>2 * n + 2\<close> it makes.\<close>

definition commit_cut :: "nat \<Rightarrow> 'a logsys_scheme \<Rightarrow> 'a logsys_scheme outcome" where
  "commit_cut k s =
     (let n = nat (lh_n s) in
      if k \<le> n then for_tail write_log_body 0 k s
      else bindR (write_log s) (\<lambda>s.
           bindR (write_head s) (\<lambda>s.
             if k \<le> 2 * n + 1 then for_tail install_body 0 (k - n - 1) s
             else bindR (install_trans s) (\<lambda>s. write_head (s\<lparr>lh_n := 0\<rparr>)))))"

lemma commit_cut_commit: "lh_n s > 0 \<Longrightarrow> commit_cut (2 * nat (lh_n s) + 2) s = commit s"
  by (simp add: commit_cut_def commit_def Let_def)

text \<open>A transaction ready to commit: the \<open>n\<close> logged blocks, and no others, are pinned in the cache;
  the header on the disk is erased, and the disk's superblock says where the log is.\<close>

definition txn_ok :: "'a logsys_scheme \<Rightarrow> nat \<Rightarrow> bool" where
  "txn_ok s n \<longleftrightarrow> quiet s \<and> log_ok s n \<and> lh_n s = int n \<and> 0 < n \<and> n < LOGSIZE \<and>
     length (lh_block s) = LOGSIZE \<and>
     (\<forall>t < n. \<exists>j. caches s j (home_at s t) \<and> dirty s j) \<and>
     (\<forall>k < 30. dirty s k \<longrightarrow> (\<exists>t < n. caches s k (home_at s t))) \<and>
     length (disk s ROOTDEV (head_block s)) = BSIZE \<and>
     sint (get32 (disk s ROOTDEV (head_block s)) 0) = 0 \<and>
     1 < lg_start s \<and> sint (sb_logstart (get_sb (disk s ROOTDEV 1))) = lg_start s \<and>
     (\<forall>t < n. home_at s t \<noteq> 1)"

lemma txn_ok_room:
  assumes "txn_ok s n"
  shows "\<exists>k < 30. \<not> dirty s k" and "\<forall>t < n. room2 s (home_at s t)"
proof -
  obtain xs where inv: "cache_inv s xs" using assms by (auto simp: txn_ok_def quiet_def)
  show ex: "\<exists>k < 30. \<not> dirty s k"
  proof (rule ccontr)
    assume "\<not> ?thesis"
    then have "\<forall>k < 30. \<exists>t < n. caches s k (home_at s t)" using assms by (auto simp: txn_ok_def)
    then obtain g where g: "\<And>k. k < 30 \<Longrightarrow> g k < n \<and> caches s k (home_at s (g k))" by metis
    have "inj_on g {k. k < 30}"
      using g caches_unique [OF inv] by (intro inj_onI) (metis mem_Collect_eq)
    moreover have "g ` {k. k < 30} \<subseteq> {t. t < n}" using g by auto
    ultimately have "card {k::nat. k < 30} \<le> card {t. t < n}" by (intro card_inj_on_le [of g]) auto
    then show False using assms by (simp add: txn_ok_def LOGSIZE_def)
  qed
  show "\<forall>t < n. room2 s (home_at s t)"
    unfolding room2_def using ex assms by (auto simp: txn_ok_def)
qed

lemma txn_ok_pins:
  assumes "txn_ok s n" and "\<forall>t < n. b \<noteq> home_at s t"
  shows "\<not> (caches s k b \<and> dirty s k)" and "bview s b = disk s ROOTDEV b"
proof -
  have "\<not> (caches s k b \<and> dirty s k)" for k
  proof
    assume c: "caches s k b \<and> dirty s k"
    then obtain t where "t < n" "caches s k (home_at s t)" using assms(1) by (auto simp: txn_ok_def caches_def)
    then show False using c assms(2) by (auto simp: caches_def)
  qed
  then show "\<not> (caches s k b \<and> dirty s k)" and "bview s b = disk s ROOTDEV b"
    using bview_unpinned [of s b] assms(1) by (auto simp: txn_ok_def)
qed

text \<open>What the disk holds after \<open>k\<close> writes.\<close>

definition cut_disk :: "'a logsys_scheme \<Rightarrow> nat \<Rightarrow> nat \<Rightarrow> (u32 \<Rightarrow> u8 list) \<Rightarrow> bool" where
  "cut_disk s n k d \<longleftrightarrow>
     (let h = d (head_block s) in
      length h = BSIZE \<and>
      (\<forall>b. \<not> in_log (lg_start s) b \<longrightarrow> (\<forall>t < n. b \<noteq> home_at s t) \<longrightarrow> d b = disk s ROOTDEV b) \<and>
      (k \<le> n \<longrightarrow> sint (get32 h 0) = 0 \<and> (\<forall>t < n. d (home_at s t) = disk s ROOTDEV (home_at s t))) \<and>
      (n < k \<longrightarrow> k \<le> 2 * n + 1 \<longrightarrow> sint (get32 h 0) = int n \<and> (\<forall>t < n. disk_home h t = home_at s t) \<and>
         (\<forall>t < n. d (log_at s t) = bview s (home_at s t))) \<and>
      (2 * n + 1 < k \<longrightarrow> sint (get32 h 0) = 0 \<and> (\<forall>t < n. d (home_at s t) = bview s (home_at s t))))"

lemma log_at_in_log: "log_ok s n \<Longrightarrow> t < n \<Longrightarrow> in_log (lg_start s) (log_at s t)"
  using log_at_uint [of s n t] by (auto simp: in_log_def log_ok_def)

lemma head_in_log: "log_ok s n \<Longrightarrow> in_log (lg_start s) (head_block s)"
  using head_uint [of s n] by (auto simp: in_log_def)

lemma home_not_in_log: "log_ok s n \<Longrightarrow> t < n \<Longrightarrow> \<not> in_log (lg_start s) (home_at s t)"
  by (auto simp: in_log_def log_ok_def)

lemma commit_cut_ok:
  assumes x: "txn_ok s n" and k: "k \<le> 2 * n + 2"
  shows "\<exists>s'. commit_cut k s = Ret s' \<and> quiet s' \<and> cut_disk s n k (disk s' ROOTDEV) \<and>
    (k = 2 * n + 2 \<longrightarrow> calm s' \<and> lh_n s' = 0)"
proof -
  have q: "quiet s" and ok: "log_ok s n" and ln: "lh_n s = int n" and n0: "0 < n" and n30: "n \<le> LOGSIZE"
    and lb: "length (lh_block s) = LOGSIZE" and hl: "length (disk s ROOTDEV (head_block s)) = BSIZE"
    and hz: "sint (get32 (disk s ROOTDEV (head_block s)) 0) = 0"
    using x by (simp_all add: txn_ok_def)
  note room = txn_ok_room [OF x]
  note L = log_at_in_log [OF ok] and H = head_in_log [OF ok] and N = home_not_in_log [OF ok]
  show ?thesis
  proof (cases "k \<le> n")
    case True
    obtain s1 f where 1: "for_tail write_log_body 0 k s = Ret s1" "log_run s s1 (log_at s ` {..<k}) f"
      using write_log_run [OF q ok room(2) True] by blast
    have d: "disk s1 ROOTDEV b = disk s ROOTDEV b" if "b \<notin> log_at s ` {..<k}" for b
      using 1(2) that by (simp add: log_run_def)
    have "head_block s \<notin> log_at s ` {..<k}"
    proof
      assume "head_block s \<in> log_at s ` {..<k}"
      then obtain t where "t < k" "head_block s = log_at s t" by auto
      then show False using log_blocks(7) [OF ok, of t] True by simp
    qed
    moreover have "b \<notin> log_at s ` {..<k}" if "\<not> in_log (lg_start s) b" for b
      using that L True by auto
    ultimately have "cut_disk s n k (disk s1 ROOTDEV)"
      using d hl hz N True by (simp add: cut_disk_def Let_def)
    then show ?thesis using 1 log_run_fields(7) [OF 1(2)] True ln n0 by (simp add: commit_cut_def)
  next
    case False
    obtain s1 f where 1: "for_tail write_log_body 0 n s = Ret s1" "log_run s s1 (log_at s ` {..<n}) f"
        "\<forall>u < n. f (log_at s u) = bview s (home_at s u)"
      using write_log_run [OF q ok room(2) le_refl] by blast
    have h1: "head_block s \<notin> log_at s ` {..<n}"
    proof
      assume "head_block s \<in> log_at s ` {..<n}"
      then obtain t where "t < n" "head_block s = log_at s t" by auto
      then show False using log_blocks(7) [OF ok, of t] by simp
    qed
    note e1 = log_run_fields [OF 1(2)]
    have hv: "bview s (head_block s) = disk s ROOTDEV (head_block s)"
      by (rule txn_ok_pins(2) [OF x]) (use log_blocks(8) [OF ok] in metis)
    have bv1: "bview s1 (head_block s) = disk s ROOTDEV (head_block s)"
      using 1(2) h1 hv by (simp add: log_run_def)
    let ?hd = "head_data (int n) (lh_block s) (disk s ROOTDEV (head_block s))"
    have dev: "lg_dev s = ROOTDEV" "head_block s < FSSIZE" using ok log_blocks(3) [OF ok n0] by (simp_all add: log_ok_def)
    obtain s2 where 2: "write_head s1 = Ret s2" "log_step s1 s2 (head_block s) ?hd"
      using write_head_ok [of s1] log_run_clean [OF 1(2) room(1)] e1 dev bv1 ln by auto
    let ?B = "insert (head_block s) (log_at s ` {..<n})" and ?f = "f(head_block s := ?hd)"
    have r2: "log_run s s2 ?B ?f" by (rule log_run_step [OF 1(2) 2(2)])
    note e2 = log_run_fields [OF r2]
    have nh: "home_at s t \<notin> ?B" if "t < n" for t using N [OF that] L H by auto
    have ls2: "lg_start s2 = lg_start s"
      using r2 log_fields(1) [of s2 s] by (simp add: log_run_def)
    have ok2: "log_ok s2 n"
      using ok e2 ls2 by (simp add: log_ok_def)
    have room2: "\<forall>t < n. room2 s2 (home_at s2 t)"
      using log_run_room [OF r2] room(2) nh e2 by simp
    have B2: "bview s2 (log_at s t) = bview s (home_at s t)" if "t < n" for t
      using r2 1(3) that log_blocks(7) [OF ok that] by (simp add: log_run_def)
    have cc: "commit_cut k s = (if k \<le> 2 * n + 1 then for_tail install_body 0 (k - n - 1) s2
        else bindR (for_tail install_body 0 n s2) (\<lambda>s. write_head (s\<lparr>lh_n := 0\<rparr>)))"
      using False 1(1) 2(1) ln e2(4) by (simp add: commit_cut_def Let_def write_log_def install_trans_def)
    let ?m = "if k \<le> 2 * n + 1 then k - n - 1 else n"
    have mn: "?m \<le> n" by auto
    obtain s3 g where 3: "for_tail install_body 0 ?m s2 = Ret s3" "log_run s2 s3 (home_at s ` {..<?m}) g"
        "\<forall>u < ?m. g (home_at s u) = bview s2 (log_at s u)"
      using install_run [OF e2(7) ok2 room2 mn] e2(2,3) by auto
    have d2: "disk s2 ROOTDEV = override_on (disk s ROOTDEV) ?f ?B" using r2 by (simp add: log_run_def)
    have d3: "disk s3 ROOTDEV = override_on (disk s2 ROOTDEV) g (home_at s ` {..<?m})"
      using 3(2) by (simp add: log_run_def)
    have hn: "head_block s \<notin> home_at s ` {..<m}" if "m \<le> n" for m using H N that by auto
    have d3h: "disk s3 ROOTDEV (head_block s) = ?hd" using d3 d2 hn [OF mn] by simp
    have d3l: "disk s3 ROOTDEV (log_at s t) = bview s (home_at s t)" if "t < n" for t
    proof -
      have "log_at s t \<notin> home_at s ` {..<?m}" using L [OF that] N mn by auto
      then have "disk s3 ROOTDEV (log_at s t) = ?f (log_at s t)"
        using d3 d2 that by (simp add: override_on_def)
      then show ?thesis using 1(3) that log_blocks(7) [OF ok that] by simp
    qed
    have d3o: "disk s3 ROOTDEV b = disk s ROOTDEV b"
      if "\<not> in_log (lg_start s) b" "\<forall>t < n. b \<noteq> home_at s t" for b
    proof -
      have "b \<notin> ?B" using that L H by auto
      moreover have "b \<notin> home_at s ` {..<?m}"
      proof
        assume "b \<in> home_at s ` {..<?m}"
        then obtain u where "u < ?m" "b = home_at s u" by auto
        then show False using that(2) mn by (metis less_le_trans)
      qed
      ultimately show ?thesis by (simp add: d3 d2)
    qed
    have d3n: "disk s3 ROOTDEV (home_at s t) = bview s (home_at s t)" if "t < ?m" for t
      using d3 3(3) that B2 [of t] mn by (simp add: override_on_def)
    note hg = head_data_get [OF hl n30 lb]
    show ?thesis
    proof (cases "k \<le> 2 * n + 1")
      case True
      have "disk_home ?hd t = home_at s t" if "t < n" for t
        using hg(2) that by (simp add: disk_home_def home_at_def)
      then have "cut_disk s n k (disk s3 ROOTDEV)"
        using False True d3h d3l d3o hg(1,3) by (simp add: cut_disk_def Let_def)
      then show ?thesis using cc 3(1) True log_run_fields(7) [OF 3(2)] by simp
    next
      case late: False
      let ?s3 = "s3\<lparr>lh_n := 0\<rparr>"
      note e3 = log_run_fields [OF 3(2)]
      have nd: "\<not> dirty s3 j" if "j < 30" for j
      proof
        assume d: "dirty s3 j"
        then have s: "dirty s2 j" "caches s3 j = caches s2 j" "dirty s j" "caches s2 j = caches s j"
          using 3(2) r2 by (auto simp: log_run_def)
        then obtain t where t: "t < n" "caches s j (home_at s t)" using x \<open>j < 30\<close> by (auto simp: txn_ok_def)
        then have "home_at s t \<in> home_at s ` {..<?m}" using late by auto
        moreover have "\<And>b. b \<in> home_at s ` {..<?m} \<Longrightarrow> \<not> (caches s3 j b \<and> dirty s3 j)"
          using 3(2) unfolding log_run_def by blast
        ultimately show False using t(2) s(2,4) d by metis
      qed
      have "\<exists>k < 30. \<not> dirty ?s3 k" using nd [of 0] by (auto intro!: exI [of _ 0])
      then obtain s4 where 4: "write_head ?s3 = Ret s4"
          "log_step ?s3 s4 (head_block s) (head_data 0 (lh_block s3) (bview s3 (head_block s)))"
        using write_head_ok [of ?s3] e3 e2 dev by auto
      have c4: "calm s4" "lh_n s4 = 0"
        using 4(2) nd log_step_fields(4) [OF 4(2)] by (auto simp: calm_def log_step_def)
      have c3: "calm s3" using nd e3(7) by (simp add: calm_def)
      have "disk s4 ROOTDEV = (disk s3 ROOTDEV)(head_block s := head_data 0 (lh_block s3) ?hd)"
        using 4(2) calm_bview [OF c3] d3h by (simp add: log_step_def)
      moreover have "sint (get32 (head_data 0 (lh_block s3) ?hd) 0) = 0" "length (head_data 0 (lh_block s3) ?hd) = BSIZE"
        using hg(3) by (simp_all add: head_data_def BSIZE_def)
      moreover have "home_at s t \<noteq> head_block s" if "t < n" for t by (rule log_blocks(8) [OF ok that])
      ultimately have "cut_disk s n k (disk s4 ROOTDEV)"
        using late d3n d3o H by (auto simp: cut_disk_def Let_def)
      then show ?thesis using cc 3(1) 4 late c4 by (auto simp: calm_def)
    qed
  qed
qed

lemma recover_after_cut:
  assumes x: "txn_ok s n" and k: "k \<le> 2 * n + 2" and q: "quiet s'" and cd: "cut_disk s n k (disk s' ROOTDEV)"
  shows "\<exists>r. initlog ROOTDEV (power_cycle s') = Ret r \<and> calm r \<and> lh_n r = 0 \<and>
    (\<forall>b. \<not> in_log (lg_start s) b \<longrightarrow> disk r ROOTDEV b = (if k \<le> n then disk s ROOTDEV b else bview s b))"
proof -
  have ok: "log_ok s n" and n30: "n < LOGSIZE" using x by (simp_all add: txn_ok_def)
  let ?p = "power_cycle s'"
  have f: "\<not> ide_fault s'" "havedisk1 s'" using q by (auto simp: quiet_def cache_inv_def)
  note p = power_cycle_calm [OF f]
  have one: "\<not> in_log (lg_start s) 1" "\<forall>t < n. 1 \<noteq> home_at s t"
    using x by (auto simp: txn_ok_def in_log_def)
  let ?sb = "get_sb (disk s ROOTDEV 1)" and ?h = "disk s' ROOTDEV (head_block s)"
  have b1: "disk s' ROOTDEV 1 = disk s ROOTDEV 1" using cd one by (simp add: cut_disk_def Let_def)
  obtain s1 where r: "readsb ROOTDEV ?p = Ret (?sb, s1)" "calm s1" "disk s1 = disk s'"
    using readsb_calm [OF p(1)] calm_bview [OF p(1)] p(2) b1 by auto
  let ?s1 = "s1\<lparr>lg_start := sint (sb_logstart ?sb), lg_size := sint (sb_nlog ?sb), lg_dev := ROOTDEV\<rparr>"
  have st: "sint (sb_logstart ?sb) = lg_start s" using x by (simp add: txn_ok_def)
  define u where "u = ?s1"
  have u: "initlog ROOTDEV ?p = recover_from_log u" "calm u" "disk u = disk s'"
      "lg_dev u = ROOTDEV" "head_block u = head_block s" "log_at u = log_at s" "lg_start u = lg_start s"
    using r st by (simp_all add: u_def initlog_def LOGSIZE_def BSIZE_def Let_def head_block_def log_at_def fun_eq_iff)
  define m where "m = (if n < k \<and> k \<le> 2 * n + 1 then n else 0)"
  have m: "m \<le> n" by (simp add: m_def)
  have hm: "sint (get32 ?h 0) = int m" "length ?h = BSIZE" "\<forall>t < m. disk_home ?h t = home_at s t"
    using cd by (auto simp: cut_disk_def Let_def m_def)
  have lo: "0 \<le> lg_start s" "lg_start s + int LOGSIZE \<le> uint FSSIZE"
    and homes: "\<And>t. t < m \<Longrightarrow> home_at s t < FSSIZE \<and> \<not> in_log (lg_start s) (home_at s t)"
    and dis: "\<And>t u. t < m \<Longrightarrow> u < m \<Longrightarrow> home_at s t = home_at s u \<Longrightarrow> t = u"
    using ok m by (simp_all add: log_ok_def in_log_def)
  obtain r' where r': "recover_from_log u = Ret r'" "calm r'" "lh_n r' = 0"
      "\<forall>t < m. disk r' ROOTDEV (home_at s t) = disk s' ROOTDEV (log_at s t)"
      "\<forall>b. \<not> in_log (lg_start s) b \<longrightarrow> (\<forall>t < m. b \<noteq> home_at s t) \<longrightarrow> disk r' ROOTDEV b = disk s' ROOTDEV b"
    using recover_calm [of u m] u lo m n30 hm homes dis by auto
  have "disk r' ROOTDEV b = (if k \<le> n then disk s ROOTDEV b else bview s b)" if nl: "\<not> in_log (lg_start s) b" for b
  proof (cases "\<exists>t < n. b = home_at s t")
    case True
    then obtain t where t: "t < n" "b = home_at s t" by blast
    have ne: "b \<noteq> home_at s v" if "m = 0" "v < m" for v using that by simp
    show ?thesis
      using r'(4,5) cd t nl by (cases "n < k \<and> k \<le> 2 * n + 1") (auto simp: m_def cut_disk_def Let_def)
  next
    case False
    then have "disk r' ROOTDEV b = disk s ROOTDEV b"
      using r'(5) nl cd m by (auto simp: cut_disk_def Let_def)
    moreover have "bview s b = disk s ROOTDEV b" using txn_ok_pins(2) [OF x, of b] False by blast
    ultimately show ?thesis by simp
  qed
  then show ?thesis using u(1) r'(1-3) by auto
qed

subsection \<open>Properties\<close>

text \<open>A machine with one block, 700, changed in a transaction: it is logged and pinned.\<close>

definition demo_io :: iosys where
  "demo_io = binit (boot_io\<lparr>disk := (\<lambda>d b. if b = 1 then put32 (replicate 512 0) 20 2 else replicate 512 0)\<rparr>)"

definition demo_log :: logsys where
  "demo_log = iosys.extend
     (upd_buf 0 (\<lambda>b. b\<lparr>dev := ROOTDEV, blockno := 700, flags := B_VALID OR B_DIRTY, data := replicate 512 7\<rparr>) demo_io)
     (logsys.fields 2 31 1 False ROOTDEV 1 (700 # replicate 29 0))"

lemma iosys_frame:
  "cache_inv (iosys.truncate s) xs = cache_inv s xs" "bview (iosys.truncate s) = bview s"
  "free_buf (iosys.truncate s) i = free_buf s i" "caches (iosys.truncate s) = caches s"
  "dirty (iosys.truncate s) = dirty s"
  by (simp_all add: cache_inv_def bio_ring_def free_buf_def clean_def Let_def held_def dirty_valid_def
      caches_def bview_def dirty_def iosys.truncate_def fun_eq_iff cong: option.case_cong)

lemma demo_log_ok: "txn_ok demo_log 1" and demo_log_view: "bview demo_log 700 = replicate 512 7"
  and demo_log_st: "lg_start demo_log = 2" "disk demo_log ROOTDEV 700 = replicate 512 0"
proof -
  let ?b = "boot_io\<lparr>disk := (\<lambda>d b. if b = 1 then put32 (replicate 512 0) 20 2 else replicate 512 0)\<rparr>"
  let ?f = "\<lambda>b. b\<lparr>dev := ROOTDEV, blockno := 700, flags := B_VALID OR B_DIRTY, data := replicate 512 7\<rparr>"
  let ?s = "upd_buf 0 ?f demo_io"
  have f: "fresh_bufs ?b" by (simp add: fresh_bufs_def boot_io_def zero_buf_def)
  note b = binit_cache_inv [OF f, folded demo_io_def]
  let ?t = "upd_buf HEAD (\<lambda>b. b\<lparr>bprev := HEAD, bnext := HEAD\<rparr>) ?b"
  have l: "length (bufs ?t) = 31" and sl: "\<And>j. j < 31 \<Longrightarrow> slocked (block (bufs ?t ! j)) = 0"
    using f by (simp_all add: fresh_bufs_def)
  have e: "demo_io = binit_from NBUF 0 ?t" by (simp add: demo_io_def binit_def)
  note g = binit_from_fields [OF l sl, of NBUF 0, unfolded Let_def, folded e]
  have dev0: "dev (bufs demo_io ! j) = 0" "flags (bufs demo_io ! j) = 0" if "j < 30" for j
    using g [of j] that f by (simp_all add: fresh_bufs_def)
  have nc: "\<not> caches demo_io j m" for j m using dev0 [of j] by (auto simp: caches_def ROOTDEV_def)
  have dk: "disk demo_io = disk ?b" using g [of 0] by simp
  have len: "length (bufs demo_io) = 31" using cache_inv_len [OF b(1)] .
  have q0: "free_buf demo_io j" if "j < 30" for j using b(2) that by (simp add: ready_def quiet_def)
  have u: "?s = (upd_buf 0 ?f demo_io)\<lparr>disk := disk demo_io\<rparr>" by (simp add: upd_buf_def)
  have n0: "free_buf ?s 0" "clean ?s 0" "dirty_valid ?s 0"
    using q0 [of 0] len by (simp_all add: free_buf_def clean_def Let_def dirty_valid_def bit_or_iff)
  have inv: "cache_inv ?s (rev [0..<30])"
    by (rule cache_inv_upd [OF b(1) _ _ u]) (use n0 nc in auto)
  have tr: "iosys.truncate demo_log = ?s"
    by (simp add: demo_log_def iosys.truncate_def iosys.extend_def)
  have "free_buf ?s j" if "j < 30" for j
    using q0 [OF that] n0(1) by (cases "j = 0") (simp_all add: free_buf_def)
  then have q: "quiet demo_log"
    using inv iosys_frame [of demo_log, unfolded tr] by (auto simp: quiet_def)
  have c: "caches ?s j m \<longleftrightarrow> j = 0 \<and> m = 700" for j m
    using nc [of j m] len by (auto simp: caches_def)
  have d: "dirty ?s j \<longleftrightarrow> j = 0" if "j < 30" for j
    using dev0(2) [OF that] len by (simp add: dirty_def bit_or_iff)
  have fl: "lg_start demo_log = 2" "lh_n demo_log = 1" "lg_dev demo_log = ROOTDEV"
      "lh_block demo_log = 700 # replicate 29 0" "disk demo_log = disk ?b"
    using dk by (simp_all add: demo_log_def iosys.extend_def logsys.fields_def upd_buf_def)
  then show "lg_start demo_log = 2" "disk demo_log ROOTDEV 700 = replicate 512 0"
    by (simp_all add: boot_io_def)
  have h: "head_block demo_log = 2" "home_at demo_log 0 = 700"
    using fl by (simp_all add: head_block_def home_at_def)
  have "log_ok demo_log 1"
    using fl h by (simp add: log_ok_def LOGSIZE_def FSSIZE_def SWAP_BLOCKS_def word_less_def)
  moreover have "caches demo_log = caches ?s" "dirty demo_log = dirty ?s"
    using iosys_frame [of demo_log, unfolded tr] by simp_all
  moreover have "get32 (replicate 512 0) 0 = 0" by (simp add: get32_def)
  ultimately show "txn_ok demo_log 1"
    using q fl h c d by (auto simp: txn_ok_def LOGSIZE_def BSIZE_def get_sb_def boot_io_def)
  have "bview ?s 700 = replicate 512 7"
    using bview_cached [OF inv, of 0 700] c len by (simp add: bit_or_iff)
  then show "bview demo_log 700 = replicate 512 7"
    using iosys_frame [of demo_log, unfolded tr] by simp
qed

text \<open>C1: a commit is atomic.  Let the machine lose power after any number \<open>k\<close> of the \<open>2 * n + 2\<close>
  disk writes of a commit of \<open>n\<close> blocks and start again: \<^verbatim>\<open>initlog\<close> succeeds, and every block outside
  the log has its contents from before the transaction when \<open>k \<le> n\<close>, that is when the header was not
  written yet, and the contents the transaction gave it when the header was written.  Cache and
  disk agree, and the full run is \<^verbatim>\<open>commit\<close>.\<close>
theorem commit_crash_recovery:
  assumes "txn_ok s n" and "k \<le> 2 * n + 2"
  shows "\<exists>s' r. commit_cut k s = Ret s' \<and> (k = 2 * n + 2 \<longrightarrow> commit s = Ret s') \<and>
    initlog ROOTDEV (power_cycle s') = Ret r \<and>
    (\<forall>b. \<not> in_log (lg_start s) b \<longrightarrow>
       bview r b = (if k \<le> n then disk s ROOTDEV b else bview s b) \<and> disk r ROOTDEV b = bview r b)"
proof -
  obtain s' where s': "commit_cut k s = Ret s'" "quiet s'" "cut_disk s n k (disk s' ROOTDEV)"
    using commit_cut_ok [OF assms] by blast
  obtain r where "initlog ROOTDEV (power_cycle s') = Ret r" "calm r"
      "\<forall>b. \<not> in_log (lg_start s) b \<longrightarrow> disk r ROOTDEV b = (if k \<le> n then disk s ROOTDEV b else bview s b)"
    using recover_after_cut [OF assms s'(2,3)] by blast
  moreover have "k = 2 * n + 2 \<longrightarrow> commit s = Ret s'"
    using s'(1) commit_cut_commit [of s] assms(1) by (auto simp: txn_ok_def)
  ultimately show ?thesis using s'(1) calm_bview [of r] by auto
qed

theorem commit_crash_recovery_witness:
  "(\<exists>s' r. commit_cut 1 demo_log = Ret s' \<and> initlog ROOTDEV (power_cycle s') = Ret r \<and>
     bview r 700 = replicate 512 0) \<and>
   (\<exists>s' r. commit_cut 2 demo_log = Ret s' \<and> initlog ROOTDEV (power_cycle s') = Ret r \<and>
     bview r 700 = replicate 512 7)"
proof -
  have n: "\<not> in_log (lg_start demo_log) 700" by (simp add: in_log_def demo_log_st LOGSIZE_def)
  have "\<exists>s' r. commit_cut 1 demo_log = Ret s' \<and> initlog ROOTDEV (power_cycle s') = Ret r \<and>
     bview r 700 = replicate 512 0"
    using commit_crash_recovery [OF demo_log_ok, of 1] n demo_log_st by fastforce
  moreover have "\<exists>s' r. commit_cut 2 demo_log = Ret s' \<and> initlog ROOTDEV (power_cycle s') = Ret r \<and>
     bview r 700 = replicate 512 7"
    using commit_crash_recovery [OF demo_log_ok, of 2] n demo_log_view by fastforce
  ultimately show ?thesis by blast
qed

text \<open>C2: \<^verbatim>\<open>commit\<close> of a transaction succeeds and installs it: outside the log the disk then holds what
  the cache showed, no buffer is pinned any more, and the log is empty.\<close>
theorem commit_installs:
  assumes "txn_ok s n"
  shows "\<exists>s'. commit s = Ret s' \<and> lh_n s' = 0 \<and> (\<forall>j < NBUF. flags (bufs s' ! j) AND B_DIRTY = 0) \<and>
    (\<forall>b. \<not> in_log (lg_start s) b \<longrightarrow> disk s' ROOTDEV b = bview s b) \<and>
    sint (get32 (disk s' ROOTDEV (head_block s)) 0) = 0"
proof -
  obtain s' where s': "commit_cut (2 * n + 2) s = Ret s'" "cut_disk s n (2 * n + 2) (disk s' ROOTDEV)"
      "calm s'" "lh_n s' = 0"
    using commit_cut_ok [OF assms, of "2 * n + 2"] by blast
  have "disk s' ROOTDEV b = bview s b" if "\<not> in_log (lg_start s) b" for b
    using s'(2) that txn_ok_pins(2) [OF assms, of b]
    by (cases "\<forall>t < n. b \<noteq> home_at s t") (auto simp: cut_disk_def Let_def)
  moreover have "commit s = Ret s'" using s'(1) commit_cut_commit [of s] assms by (simp add: txn_ok_def)
  ultimately show ?thesis using s' by (simp add: cut_disk_def Let_def calm_def dirty_def NBUF_def)
qed

theorem commit_installs_witness: "\<exists>s'. commit demo_log = Ret s' \<and> lh_n s' = 0"
  using commit_installs [OF demo_log_ok] by blast

end
