(* ===== verification/Ring.thy ===== *)
theory Ring
  imports Prelude
begin

text \<open>
  Byte queues in a circular array, as the pipe and the console input use them: two free-running
  \<open>u32\<close> counters taken modulo the length of the array, which divides \<open>2 ^ 32\<close>, so that the counters may
  wrap around.
\<close>

definition ring_list :: "'b list \<Rightarrow> u32 \<Rightarrow> u32 \<Rightarrow> 'b list" where
  "ring_list d r w = map (\<lambda>k. d ! (unat (r + of_nat k) mod length d)) [0..<unat (w - r)]"

lemma length_ring_list [simp]: "length (ring_list d r w) = unat (w - r)"
  by (simp add: ring_list_def)

lemma unat_plus_mod:
  assumes "N dvd 2 ^ 32"
  shows "unat ((x::u32) + y) mod N = (unat x + unat y) mod N"
  using assms by (simp add: unat_word_ariths mod_mod_cancel)

lemma ring_slot_neq:
  assumes "N dvd 2 ^ 32" and "unat (w - r) < N" and "k < unat (w - r)"
  shows "unat ((r::u32) + of_nat k) mod N \<noteq> unat w mod N"
proof
  have "k < 2 ^ 32" using assms(3) unat_u32_less [of "w - r"] by linarith
  then have k: "unat (of_nat k :: u32) = k" by (simp add: unat_of_nat take_bit_nat_eq_self)
  have w: "unat w mod N = (unat r + unat (w - r)) mod N"
    using unat_plus_mod [OF assms(1), of r "w - r"] by simp
  assume "unat (r + of_nat k) mod N = unat w mod N"
  then have "(unat r + k) mod N = (unat r + unat (w - r)) mod N"
    using unat_plus_mod [OF assms(1), of r "of_nat k"] k w by simp
  then have "N dvd (unat r + unat (w - r)) - (unat r + k)"
    using mod_eq_dvd_iff_nat [of "unat r + k" "unat r + unat (w - r)" N] assms(3) by simp
  then have "N dvd unat (w - r) - k" by simp
  then show False using assms(2,3) by (auto dest: dvd_imp_le)
qed

lemma ring_list_put:
  assumes "length d dvd 2 ^ 32" and "unat (w - r) < length d" and "length d < 2 ^ 32"
  shows "ring_list (d[unat w mod length d := b]) r (w + 1) = ring_list d r w @ [b]"
proof -
  let ?n = "unat (w - r)"
  have "unat (w - r + 1) = Suc ?n"
    using assms(2,3) by (simp add: unat_word_ariths(1) [of "w - r" 1])
  then have "unat (w + 1 - r) = Suc ?n" by (simp add: algebra_simps)
  moreover have "of_nat ?n = w - r" by simp
  moreover have "(d[unat w mod length d := b]) ! (unat (r + of_nat k) mod length d) = d ! (unat (r + of_nat k) mod length d)"
    if "k < ?n" for k
    using ring_slot_neq [OF assms(1,2) that] by (simp add: nth_list_update_neq)
  moreover have "0 < length d" using assms(2) by linarith
  ultimately show ?thesis by (simp add: ring_list_def)
qed

lemma ring_list_get:
  assumes "w \<noteq> r"
  shows "ring_list d r w = d ! (unat r mod length d) # ring_list d (r + 1) w"
proof -
  have "w - r \<noteq> 0" using assms by simp
  then have n: "unat (w - r) = Suc (unat (w - (r + 1)))"
    using unat_minus_one [of "w - r"] unat_gt_0 [of "w - r"] by (simp add: algebra_simps)
  have "[0..<Suc m] = 0 # map Suc [0..<m]" for m by (simp add: map_Suc_upt upt_conv_Cons)
  then show ?thesis by (simp add: ring_list_def n add.assoc o_def del: upt_Suc)
qed

subsection \<open>The contract of a byte queue\<close>

text \<open>\<open>gets get k q\<close> takes up to \<open>k\<close> elements.\<close>

fun gets :: "('q \<Rightarrow> 'b list) \<Rightarrow> ('q \<Rightarrow> 'b \<times> 'q) \<Rightarrow> nat \<Rightarrow> 'q \<Rightarrow> 'b list \<times> 'q" where
  "gets contents get 0 q = ([], q)"
| "gets contents get (Suc k) q =
     (if contents q = [] then ([], q)
      else let (b, q) = get q; (bs, q) = gets contents get k q in (b # bs, q))"

locale fifo =
  fixes ok :: "'q \<Rightarrow> bool" and contents :: "'q \<Rightarrow> 'b list" and cap :: nat
    and put :: "'b \<Rightarrow> 'q \<Rightarrow> 'q" and get :: "'q \<Rightarrow> 'b \<times> 'q"
  assumes bounded: "ok q \<Longrightarrow> length (contents q) \<le> cap"
    and put_ok: "ok q \<Longrightarrow> length (contents q) < cap \<Longrightarrow> ok (put b q)"
    and put_contents: "ok q \<Longrightarrow> length (contents q) < cap \<Longrightarrow> contents (put b q) = contents q @ [b]"
    and get_ok: "ok q \<Longrightarrow> contents q \<noteq> [] \<Longrightarrow> ok (snd (get q))"
    and get_contents: "ok q \<Longrightarrow> contents q \<noteq> [] \<Longrightarrow> contents q = fst (get q) # contents (snd (get q))"
begin

lemma puts:
  "ok q \<Longrightarrow> length (contents q) + length bs \<le> cap \<Longrightarrow>
   ok (fold put bs q) \<and> contents (fold put bs q) = contents q @ bs"
proof (induction bs arbitrary: q)
  case (Cons b bs)
  then have "length (contents q) < cap" by simp
  then show ?case using Cons put_ok put_contents by simp
qed simp

lemma gets:
  "ok q \<Longrightarrow> gets contents get k q = (bs, q') \<Longrightarrow>
   ok q' \<and> contents q = bs @ contents q' \<and> length bs \<le> k \<and> (length bs < k \<longrightarrow> contents q' = [])"
proof (induction k arbitrary: q bs q')
  case (Suc k)
  show ?case
  proof (cases "contents q = []")
    case False
    obtain b q1 where g: "get q = (b, q1)" by (rule prod.exhaust)
    obtain cs q2 where h: "gets contents get k q1 = (cs, q2)" by (rule prod.exhaust)
    have "ok q1" "contents q = b # contents q1"
      using get_ok [OF Suc.prems(1) False] get_contents [OF Suc.prems(1) False] g by simp_all
    moreover have "bs = b # cs" "q' = q2" using Suc.prems(2) False g h by simp_all
    ultimately show ?thesis using Suc.IH [OF _ h] by simp
  qed (use Suc.prems in auto)
qed auto

text \<open>What is put in comes out, in the same order.\<close>

lemma puts_gets:
  assumes "ok q" and "contents q = []" and "length bs \<le> cap"
  shows "fst (gets contents get (length bs) (fold put bs q)) = bs"
proof -
  have f: "ok (fold put bs q)" "contents (fold put bs q) = bs"
    using puts [OF assms(1), of bs] assms(2,3) by simp_all
  obtain cs q' where g: "gets contents get (length bs) (fold put bs q) = (cs, q')" by (rule prod.exhaust)
  have "bs = cs @ contents q'" "length cs < length bs \<longrightarrow> contents q' = []"
    using gets [OF f(1) g] f(2) by simp_all
  then have "cs = bs" by (cases "contents q'") auto
  then show ?thesis using g by simp
qed

end

end
