(* ===== verification/Pipe.thy ===== *)
theory Pipe
  imports Ptable Ring
begin

text \<open>
  Pipes (\<^verbatim>\<open>pipe.c\<close>).  A pipe lies in a page of its own and is named by the page's address;
  \<open>pipes\<close> gives the \<^verbatim>\<open>struct pipe\<close> found there.  The lock of a pipe is held from the start of a call to its return
  or its sleep, so a call is a sequence of such sections: it ends, or it sleeps with some bytes
  left.  User memory is given as the bytes at \<^verbatim>\<open>addr\<close>.
\<close>

definition PIPESIZE :: nat where "PIPESIZE = 512"

record pipe =
  pdata :: "u8 list"
  nread :: u32
  nwrite :: u32
  readopen :: bool
  writeopen :: bool

record psys = ksys +
  pipes :: "u32 \<Rightarrow> pipe"

definition upd_pipe :: "u32 \<Rightarrow> (pipe \<Rightarrow> pipe) \<Rightarrow> 'a psys_scheme \<Rightarrow> 'a psys_scheme" where
  "upd_pipe a f s = s\<lparr>pipes := (pipes s)(a := f (pipes s a))\<rparr>"

datatype pipe_end = Done int | Asleep

definition pipe_init :: "pipe \<Rightarrow> pipe" where
  "pipe_init p = p\<lparr>readopen := True, writeopen := True, nwrite := 0, nread := 0\<rparr>"

definition pipeclose :: "u32 \<Rightarrow> bool \<Rightarrow> 'a psys_scheme \<Rightarrow> 'a psys_scheme outcome" where
  "pipeclose a writable s =
     (let s = (if writable then wakeup (ChanRead a) (upd_pipe a (\<lambda>p. p\<lparr>writeopen := False\<rparr>) s)
               else wakeup (ChanWrite a) (upd_pipe a (\<lambda>p. p\<lparr>readopen := False\<rparr>) s))
      in if \<not> readopen (pipes s a) \<and> \<not> writeopen (pipes s a) then kfree a s else Ret s)"

definition pipe_put :: "u8 \<Rightarrow> pipe \<Rightarrow> pipe" where
  "pipe_put b p = p\<lparr>pdata := (pdata p)[unat (nwrite p) mod PIPESIZE := b], nwrite := nwrite p + 1\<rparr>"

definition pipe_get :: "pipe \<Rightarrow> u8 \<times> pipe" where
  "pipe_get p = (pdata p ! (unat (nread p) mod PIPESIZE), p\<lparr>nread := nread p + 1\<rparr>)"

text \<open>The loop of \<^verbatim>\<open>pipewrite\<close> over the bytes that are left; they come back with the state.\<close>

fun pipewrite_loop :: "u32 \<Rightarrow> int \<Rightarrow> u8 list \<Rightarrow> 'a psys_scheme \<Rightarrow>
    (pipe_end \<times> u8 list \<times> 'a psys_scheme) outcome" where
  "pipewrite_loop a n [] s = Ret (Done n, [], wakeup (ChanRead a) s)"
| "pipewrite_loop a n (b # bs) s =
     (if nwrite (pipes s a) = nread (pipes s a) + of_nat PIPESIZE then
        if \<not> readopen (pipes s a) then Ret (Done (-1), b # bs, s)
        else bindR (myproc s) (\<lambda>i.
          if killed (ptable s ! i) then Ret (Done (-1), b # bs, s)
          else bindR (sleep (ChanWrite a) (wakeup (ChanRead a) s)) (\<lambda>s. Ret (Asleep, b # bs, s)))
      else pipewrite_loop a n bs (upd_pipe a (pipe_put b) s))"

definition pipewrite :: "u32 \<Rightarrow> (nat \<Rightarrow> u8) \<Rightarrow> int \<Rightarrow> 'a psys_scheme \<Rightarrow>
    (pipe_end \<times> u8 list \<times> 'a psys_scheme) outcome" where
  "pipewrite a addr n s = pipewrite_loop a n (map addr [0..<nat n]) s"

definition pipewrite_resume :: "u32 \<Rightarrow> int \<Rightarrow> u8 list \<Rightarrow> 'a psys_scheme \<Rightarrow>
    (pipe_end \<times> u8 list \<times> 'a psys_scheme) outcome" where
  "pipewrite_resume a n rest s = bindR (sleep_return s) (pipewrite_loop a n rest)"

fun pipe_copy :: "nat \<Rightarrow> pipe \<Rightarrow> u8 list \<times> pipe" where
  "pipe_copy 0 p = ([], p)"
| "pipe_copy (Suc k) p =
     (if nread p = nwrite p then ([], p)
      else let (b, p) = pipe_get p; (bs, p) = pipe_copy k p in (b # bs, p))"

text \<open>\<^verbatim>\<open>piperead\<close> returns the bytes it stored at \<^verbatim>\<open>addr\<close>.\<close>

definition piperead :: "u32 \<Rightarrow> int \<Rightarrow> 'a psys_scheme \<Rightarrow> (pipe_end \<times> u8 list \<times> 'a psys_scheme) outcome" where
  "piperead a n s =
     (if nread (pipes s a) = nwrite (pipes s a) \<and> writeopen (pipes s a) then
        bindR (myproc s) (\<lambda>i.
          if killed (ptable s ! i) then Ret (Done (-1), [], s)
          else bindR (sleep (ChanRead a) s) (\<lambda>s. Ret (Asleep, [], s)))
      else
        let (bs, p) = pipe_copy (nat n) (pipes s a) in
        Ret (Done (int (length bs)), bs, wakeup (ChanWrite a) (s\<lparr>pipes := (pipes s)(a := p)\<rparr>)))"

definition piperead_resume :: "u32 \<Rightarrow> int \<Rightarrow> 'a psys_scheme \<Rightarrow>
    (pipe_end \<times> u8 list \<times> 'a psys_scheme) outcome" where
  "piperead_resume a n s = bindR (sleep_return s) (piperead a n)"

subsection \<open>A pipe is a queue of bytes\<close>

definition pipe_bytes :: "pipe \<Rightarrow> u8 list" where
  "pipe_bytes p = ring_list (pdata p) (nread p) (nwrite p)"

definition pipe_ok :: "pipe \<Rightarrow> bool" where
  "pipe_ok p \<longleftrightarrow> length (pdata p) = PIPESIZE \<and> unat (nwrite p - nread p) \<le> PIPESIZE"

interpretation pq: fifo pipe_ok pipe_bytes PIPESIZE pipe_put pipe_get
proof
  fix p :: pipe and b
  assume ok: "pipe_ok p"
  show "length (pipe_bytes p) \<le> PIPESIZE" using ok by (simp add: pipe_ok_def pipe_bytes_def)
  {
    assume less: "length (pipe_bytes p) < PIPESIZE"
    then have n: "unat (nwrite p - nread p) < length (pdata p)"
      using ok by (simp add: pipe_ok_def pipe_bytes_def)
    have d: "length (pdata p) dvd 2 ^ 32" using ok by (simp add: pipe_ok_def PIPESIZE_def)
    show c: "pipe_bytes (pipe_put b p) = pipe_bytes p @ [b]"
      using ring_list_put [OF d n, of b] ok by (simp add: pipe_ok_def pipe_put_def pipe_bytes_def PIPESIZE_def)
    have "length (pipe_bytes (pipe_put b p)) \<le> PIPESIZE" using c less by simp
    then show "pipe_ok (pipe_put b p)"
      using ok by (simp add: pipe_ok_def pipe_bytes_def pipe_put_def)
  }
  assume "pipe_bytes p \<noteq> []"
  then have ne: "nwrite p \<noteq> nread p" by (auto simp: pipe_bytes_def ring_list_def)
  show c: "pipe_bytes p = fst (pipe_get p) # pipe_bytes (snd (pipe_get p))"
    using ring_list_get [OF ne, of "pdata p"] ok by (simp add: pipe_bytes_def pipe_get_def pipe_ok_def)
  have "length (pipe_bytes (snd (pipe_get p))) \<le> PIPESIZE"
    using c ok by (metis pipe_bytes_def pipe_ok_def Suc_leD length_Cons length_ring_list)
  then show "pipe_ok (snd (pipe_get p))" using ok by (simp add: pipe_ok_def pipe_bytes_def pipe_get_def)
qed

lemma pipe_bytes_Nil: "pipe_bytes p = [] \<longleftrightarrow> nread p = nwrite p"
  by (auto simp: pipe_bytes_def ring_list_def unat_eq_0)

lemma pipe_full: "pipe_ok p \<Longrightarrow> nwrite p = nread p + of_nat PIPESIZE \<longleftrightarrow> length (pipe_bytes p) = PIPESIZE"
proof -
  have "nwrite p = nread p + of_nat PIPESIZE \<longleftrightarrow> nwrite p - nread p = of_nat PIPESIZE"
    by (auto simp: algebra_simps)
  also have "\<dots> \<longleftrightarrow> unat (nwrite p - nread p) = PIPESIZE"
    by (simp add: word_unat_eq_iff PIPESIZE_def)
  finally show ?thesis by (simp add: pipe_bytes_def)
qed

lemma pipe_copy_gets: "pipe_copy k p = gets pipe_bytes pipe_get k p"
  by (induction k arbitrary: p) (auto simp: pipe_bytes_Nil split: prod.split)

lemma pipe_frames [simp]:
  "pipes (wakeup c s) = pipes s" "cur (wakeup c s) = cur s" "pipes (upd_proc i f s) = pipes s"
  "cur (upd_proc i f s) = cur s" "length (ptable (wakeup c s)) = length (ptable s)"
  by (simp_all add: wakeup_def wakeup1_def upd_proc_def)

lemma sleep_pipes:
  "sleep c s = Ret s' \<Longrightarrow> pipes s' = pipes s" "sleep_return s = Ret s' \<Longrightarrow> pipes s' = pipes s"
  by (auto simp: sleep_def sleep_return_def split: option.splits)

lemma upd_pipe_same [simp]: "pipes (upd_pipe a f s) a = f (pipes s a)"
  by (simp add: upd_pipe_def)

lemma pipe_put_opens [simp]:
  "readopen (pipe_put b p) = readopen p" "writeopen (pipe_put b p) = writeopen p"
  by (simp_all add: pipe_put_def)

lemma pipewrite_loop_ok:
  assumes "pipewrite_loop a n bs s = Ret (r, rest, s')" and "pipe_ok (pipes s a)"
  shows "pipe_ok (pipes s' a) \<and>
    (\<exists>sent. bs = sent @ rest \<and> pipe_bytes (pipes s' a) = pipe_bytes (pipes s a) @ sent) \<and>
    (case r of Done k \<Rightarrow> rest = [] \<and> k = n \<or> rest \<noteq> [] \<and> k = -1
             | Asleep \<Rightarrow> rest \<noteq> [] \<and> length (pipe_bytes (pipes s' a)) = PIPESIZE \<and> readopen (pipes s' a))"
  using assms
proof (induction a n bs s rule: pipewrite_loop.induct)
  case (2 a n b bs s)
  show ?case
  proof (cases "nwrite (pipes s a) = nread (pipes s a) + of_nat PIPESIZE")
    case True
    then have full: "length (pipe_bytes (pipes s a)) = PIPESIZE" using pipe_full 2(3) by blast
    show ?thesis
      using 2(2,3) True full by (auto split: if_splits dest: sleep_pipes)
  next
    case False
    then have less: "length (pipe_bytes (pipes s a)) < PIPESIZE"
      using pipe_full [OF 2(3)] pq.bounded [OF 2(3)] by simp
    let ?s = "upd_pipe a (pipe_put b) s"
    have "pipe_ok (pipes ?s a)" "pipe_bytes (pipes ?s a) = pipe_bytes (pipes s a) @ [b]"
      using pq.put_ok [OF 2(3) less] pq.put_contents [OF 2(3) less] by simp_all
    moreover have "pipewrite_loop a n bs ?s = Ret (r, rest, s')" using 2(2) False by simp
    ultimately show ?thesis using 2(1) [OF False] by auto
  qed
qed auto

lemma piperead_ok:
  assumes "piperead a n s = Ret (r, bs, s')" and "pipe_ok (pipes s a)"
  shows "pipe_ok (pipes s' a)" and "pipe_bytes (pipes s a) = bs @ pipe_bytes (pipes s' a)"
    and "r = Done k \<Longrightarrow> k = -1 \<and> bs = [] \<or> k = int (length bs) \<and> length bs \<le> nat n \<and>
      (length bs < nat n \<longrightarrow> pipe_bytes (pipes s' a) = [])"
    and "r = Asleep \<Longrightarrow> bs = [] \<and> pipe_bytes (pipes s' a) = [] \<and> writeopen (pipes s' a)"
proof -
  obtain cs p where c: "pipe_copy (nat n) (pipes s a) = (cs, p)" by (rule prod.exhaust)
  note g = pq.gets [OF assms(2) c [unfolded pipe_copy_gets]]
  have e: "nread (pipes s a) = nwrite (pipes s a) \<Longrightarrow> pipe_bytes (pipes s a) = []"
    by (simp add: pipe_bytes_Nil)
  show "pipe_ok (pipes s' a)" and "pipe_bytes (pipes s a) = bs @ pipe_bytes (pipes s' a)"
    and "r = Done k \<Longrightarrow> k = -1 \<and> bs = [] \<or> k = int (length bs) \<and> length bs \<le> nat n \<and>
      (length bs < nat n \<longrightarrow> pipe_bytes (pipes s' a) = [])"
    and "r = Asleep \<Longrightarrow> bs = [] \<and> pipe_bytes (pipes s' a) = [] \<and> writeopen (pipes s' a)"
    using assms c g e by (auto simp: piperead_def split: if_splits dest: sleep_pipes)
qed

subsection \<open>Any interleaving of readers and writers\<close>

text \<open>\<^verbatim>\<open>pipeclose\<close> takes an open mark off and leaves the bytes and the counters, also when it frees the page.\<close>

lemma kfree_pipes: "kfree v s = Ret s' \<Longrightarrow> pipes s' = pipes s"
  by (auto simp: kfree_def Let_def split: if_splits)

lemma pipeclose_pipe:
  assumes "pipeclose a w s = Ret s'"
  shows "pipes s' a = (if w then (pipes s a)\<lparr>writeopen := False\<rparr> else (pipes s a)\<lparr>readopen := False\<rparr>)"
  using assms by (auto simp: pipeclose_def Let_def dest: kfree_pipes split: if_splits)

text \<open>\<open>pipe_hist a s w r\<close>: since the pipe at \<open>a\<close> was made, calls of readers and writers, in any order
  and with any sleeps between them, stored the bytes \<open>w\<close> and handed out the bytes \<open>r\<close>.  In between the rest of the
  kernel may do what it likes but touch the pipe.\<close>

inductive pipe_hist :: "u32 \<Rightarrow> 'a psys_scheme \<Rightarrow> u8 list \<Rightarrow> u8 list \<Rightarrow> bool" for a where
  made: "length (pdata (pipes s a)) = PIPESIZE \<Longrightarrow> pipe_hist a (upd_pipe a pipe_init s) [] []"
| kernel: "pipe_hist a s w r \<Longrightarrow> pipes s' a = pipes s a \<Longrightarrow> pipe_hist a s' w r"
| closed: "pipe_hist a s w r \<Longrightarrow> pipeclose a writable s = Ret s' \<Longrightarrow> pipe_hist a s' w r"
| wrote: "pipe_hist a s w r \<Longrightarrow> pipewrite a addr n s = Ret (e, rest, s') \<Longrightarrow> map addr [0..<nat n] = sent @ rest \<Longrightarrow>
     pipe_hist a s' (w @ sent) r"
| resumed: "pipe_hist a s w r \<Longrightarrow> pipewrite_resume a n (sent @ rest) s = Ret (e, rest, s') \<Longrightarrow>
     pipe_hist a s' (w @ sent) r"
| was_read: "pipe_hist a s w r \<Longrightarrow> piperead a n s = Ret (e, bs, s') \<Longrightarrow> pipe_hist a s' w (r @ bs)"

lemma pipe_hist_inv:
  "pipe_hist a s w r \<Longrightarrow> pipe_ok (pipes s a) \<and> w = r @ pipe_bytes (pipes s a)"
proof (induction rule: pipe_hist.induct)
  case (made s)
  then show ?case by (simp add: pipe_ok_def pipe_init_def pipe_bytes_def ring_list_def)
next
  case (closed s w r writable s')
  then show ?case using pipeclose_pipe [of a writable s s'] by (simp add: pipe_ok_def pipe_bytes_def)
next
  case (wrote s w r addr n e rest s' sent)
  then show ?case
    using pipewrite_loop_ok [of a n "map addr [0..<nat n]" s e rest s'] by (auto simp: pipewrite_def)
next
  case (resumed s w r n sent rest e s')
  obtain s1 where s1: "sleep_return s = Ret s1" "pipewrite_loop a n (sent @ rest) s1 = Ret (e, rest, s')"
    using resumed(2) by (auto simp: pipewrite_resume_def)
  then show ?case
    using pipewrite_loop_ok [OF s1(2)] sleep_pipes(2) [OF s1(1)] resumed(3) by auto
next
  case (was_read s w r n e bs s')
  then show ?case using piperead_ok(1,2) [of a n s e bs s'] by auto
qed auto

text \<open>C7: a pipe is a bounded first-in first-out queue: however calls of readers and writers, sleeps and
  \<^verbatim>\<open>pipeclose\<close> of either end interleave, the bytes read so far are a prefix of the bytes written, in order, none lost, repeated or made up,
  and at most \<^verbatim>\<open>PIPESIZE\<close> are in between, also when the counters wrap around.\<close>
theorem pipe_fifo:
  assumes "pipe_hist a s w r"
  shows "\<exists>q. w = r @ q \<and> length q \<le> PIPESIZE \<and> pipe_bytes (pipes s a) = q"
  using pipe_hist_inv [OF assms] pq.bounded by blast

lemma wakeup_none_asleep:
  assumes "p \<in> set (ptable (wakeup c s))"
  shows "\<not> (pstate p = SLEEPING \<and> chan p = c)"
proof -
  let ?f = "\<lambda>q. if pstate q = SLEEPING \<and> chan q = c then q\<lparr>pstate := RUNNABLE\<rparr> else q"
  have "ptable (wakeup c s) = map ?f (ptable s)" by (simp add: wakeup_def wakeup1_def)
  then have "p \<in> ?f ` set (ptable s)" using assms by (simp only: set_map)
  then obtain q where "p = (if pstate q = SLEEPING \<and> chan q = c then q\<lparr>pstate := RUNNABLE\<rparr> else q)"
    by (rule imageE)
  then show ?thesis by (simp split: if_splits)
qed

lemma pipewrite_loop_fits:
  assumes "pipe_ok (pipes s a)" and "length (pipe_bytes (pipes s a)) + length bs \<le> PIPESIZE"
  shows "\<exists>s'. pipewrite_loop a n bs s = Ret (Done n, [], wakeup (ChanRead a) s') \<and>
    pipe_bytes (pipes s' a) = pipe_bytes (pipes s a) @ bs"
  using assms
proof (induction a n bs s rule: pipewrite_loop.induct)
  case (2 a n b bs s)
  have less: "length (pipe_bytes (pipes s a)) < PIPESIZE" using 2(3) by simp
  then have nf: "nwrite (pipes s a) \<noteq> nread (pipes s a) + of_nat PIPESIZE" using pipe_full [OF 2(2)] by simp
  let ?s = "upd_pipe a (pipe_put b) s"
  have "pipe_ok (pipes ?s a)" "pipe_bytes (pipes ?s a) = pipe_bytes (pipes s a) @ [b]"
    using pq.put_ok [OF 2(2) less] pq.put_contents [OF 2(2) less] by simp_all
  then obtain s' where "pipewrite_loop a n bs ?s = Ret (Done n, [], wakeup (ChanRead a) s')"
      "pipe_bytes (pipes s' a) = (pipe_bytes (pipes s a) @ [b]) @ bs"
    using 2(1) [OF nf] 2(3) by fastforce
  moreover have "pipewrite_loop a n (b # bs) s = pipewrite_loop a n bs ?s" using nf by simp
  ultimately show ?case by (intro exI [of _ s']) (simp del: pipewrite_loop.simps)
qed auto

lemma pipewrite_asleep:
  assumes "pipewrite_loop a n bs s = Ret (Asleep, rest, s')" and "p \<in> set (ptable s')"
  shows "\<not> (pstate p = SLEEPING \<and> chan p = ChanRead a)"
  using assms
proof (induction a n bs s rule: pipewrite_loop.induct)
  case (2 a n b bs s)
  show ?case
  proof (cases "nwrite (pipes s a) = nread (pipes s a) + of_nat PIPESIZE")
    case True
    let ?s = "wakeup (ChanRead a) s"
    obtain i where "s' = upd_proc i (\<lambda>p. p\<lparr>chan := ChanWrite a, pstate := SLEEPING\<rparr>) ?s"
      using "2.prems"(1) True
      by (auto simp: sleep_def myproc_def wakeup_def wakeup1_def split: option.splits if_splits)
    then have "p = (ptable ?s ! i)\<lparr>chan := ChanWrite a, pstate := SLEEPING\<rparr> \<or> p \<in> set (ptable ?s)"
      using "2.prems"(2) set_update_subset_insert by (fastforce simp: upd_proc_def)
    then show ?thesis using wakeup_none_asleep [of p "ChanRead a" s] by auto
  next
    case False
    then show ?thesis using 2 by simp
  qed
qed simp

text \<open>C8: reader and writer never wait for each other.  A writer that goes to sleep leaves no reader
  asleep and a full pipe with a reader left: the next \<^verbatim>\<open>piperead\<close> of \<open>n > 0\<close> bytes returns \<open>min n PIPESIZE\<close> of them and leaves nobody asleep on the
  write side; and a reader goes to sleep only on an empty pipe with a writer left, which its call leaves as it is; there a
  \<^verbatim>\<open>pipewrite\<close> that fits returns \<open>n\<close> and leaves nobody asleep on the read side.\<close>
theorem pipe_wakes_peer:
  assumes "pipe_ok (pipes s a)" and "0 < n"
  shows "(pipewrite a addr k s = Ret (Asleep, rest, s') \<longrightarrow>
      (\<forall>p \<in> set (ptable s'). \<not> (pstate p = SLEEPING \<and> chan p = ChanRead a)) \<and>
      readopen (pipes s' a) \<and> length (pipe_bytes (pipes s' a)) = PIPESIZE \<and>
      (\<exists>bs s2. piperead a n s' = Ret (Done (int (min (nat n) PIPESIZE)), bs, s2) \<and>
        (\<forall>p \<in> set (ptable s2). \<not> (pstate p = SLEEPING \<and> chan p = ChanWrite a)))) \<and>
    (piperead a k s = Ret (Asleep, bs, s') \<longrightarrow>
      bs = [] \<and> pipe_bytes (pipes s a) = [] \<and> writeopen (pipes s a) \<and> pipes s' = pipes s \<and>
      (nat n \<le> PIPESIZE \<longrightarrow> (\<exists>s2. pipewrite a addr n s' = Ret (Done n, [], s2) \<and> pipe_bytes (pipes s2 a) = map addr [0..<nat n] \<and>
        (\<forall>p \<in> set (ptable s2). \<not> (pstate p = SLEEPING \<and> chan p = ChanRead a)))))"
proof (intro conjI impI ballI)
  assume w': "pipewrite a addr k s = Ret (Asleep, rest, s')"
  then have w: "pipe_ok (pipes s' a)" "length (pipe_bytes (pipes s' a)) = PIPESIZE" "readopen (pipes s' a)"
    using pipewrite_loop_ok [OF _ assms(1)] by (fastforce simp: pipewrite_def)+
  then show "readopen (pipes s' a)" "length (pipe_bytes (pipes s' a)) = PIPESIZE" by simp_all
  have ne: "nread (pipes s' a) \<noteq> nwrite (pipes s' a)"
    using w(2) by (auto simp: pipe_bytes_Nil [symmetric] PIPESIZE_def)
  obtain bs p where c: "pipe_copy (nat n) (pipes s' a) = (bs, p)" by (rule prod.exhaust)
  have g: "pipe_bytes (pipes s' a) = bs @ pipe_bytes p" "length bs \<le> nat n"
      "length bs < nat n \<longrightarrow> pipe_bytes p = []"
    using pq.gets [OF w(1) c [unfolded pipe_copy_gets]] by simp_all
  have "length bs = min (nat n) PIPESIZE"
    using w(2) g arg_cong [OF g(1), of length] by (cases "length bs < nat n") auto
  then show "\<exists>bs s2. piperead a n s' = Ret (Done (int (min (nat n) PIPESIZE)), bs, s2) \<and>
      (\<forall>p \<in> set (ptable s2). \<not> (pstate p = SLEEPING \<and> chan p = ChanWrite a))"
    using ne c wakeup_none_asleep by (auto simp: piperead_def)
  fix p assume "p \<in> set (ptable s')"
  then show "\<not> (pstate p = SLEEPING \<and> chan p = ChanRead a)"
    using pipewrite_asleep [OF w' [unfolded pipewrite_def]] by simp
next
  assume "piperead a k s = Ret (Asleep, bs, s')"
  then show "bs = []" "pipe_bytes (pipes s a) = []" "writeopen (pipes s a)" "pipes s' = pipes s"
    by (auto simp: piperead_def pipe_bytes_Nil split: if_splits prod.splits dest: sleep_pipes)
next
  assume "piperead a k s = Ret (Asleep, bs, s')" and n: "nat n \<le> PIPESIZE"
  then have r: "pipe_ok (pipes s' a)" "pipe_bytes (pipes s' a) = []"
    using piperead_ok(1,4) [OF _ assms(1)] by blast+
  then obtain s2 where "pipewrite_loop a n (map addr [0..<nat n]) s' = Ret (Done n, [], wakeup (ChanRead a) s2)"
      "pipe_bytes (pipes s2 a) = map addr [0..<nat n]"
    using pipewrite_loop_fits [of s' a "map addr [0..<nat n]" n] n by auto
  then show "\<exists>s2. pipewrite a addr n s' = Ret (Done n, [], s2) \<and> pipe_bytes (pipes s2 a) = map addr [0..<nat n] \<and>
      (\<forall>p \<in> set (ptable s2). \<not> (pstate p = SLEEPING \<and> chan p = ChanRead a))"
    using wakeup_none_asleep by (auto simp: pipewrite_def)
qed

definition demo_pipes :: psys where
  "demo_pipes = ksys.extend (boot_ksys\<lparr>cur := Some 0, ptable := idle_proc\<lparr>pstate := RUNNING\<rparr> # replicate 63 idle_proc\<rparr>)
     (psys.fields (\<lambda>_. \<lparr>pdata = replicate 512 0, nread = 0xffffffff, nwrite = 0xffffffff, readopen = True, writeopen = True\<rparr>))"

lemma pipewrite_loop_readopen:
  "pipewrite_loop a n bs s = Ret (e, rest, s') \<Longrightarrow> readopen (pipes s' a) = readopen (pipes s a)"
proof (induction a n bs s rule: pipewrite_loop.induct)
  case (2 a n b bs s)
  then show ?case by (auto split: if_splits dest: sleep_pipes)
qed auto

theorem pipe_fifo_witness:
  "\<exists>s1 s2 s3. pipewrite 0x80200000 (\<lambda>k. if k = 0 then 65 else 66) 2 (upd_pipe 0x80200000 pipe_init demo_pipes) =
       Ret (Done 2, [], s1) \<and> pipeclose 0x80200000 True s1 = Ret s2 \<and>
     piperead 0x80200000 1 s2 = Ret (Done 1, [65], s3) \<and> pipe_bytes (pipes s3 0x80200000) = [66]"
proof -
  let ?a = "0x80200000 :: u32" and ?addr = "\<lambda>k::nat. if k = 0 then (65 :: u8) else 66"
  let ?s0 = "upd_pipe ?a pipe_init demo_pipes"
  have h0: "pipe_hist ?a ?s0 [] []"
    by (rule pipe_hist.made) (simp add: demo_pipes_def PIPESIZE_def ksys.extend_def psys.fields_def)
  have ok0: "pipe_ok (pipes ?s0 ?a)" "pipe_bytes (pipes ?s0 ?a) = []" using pipe_hist_inv [OF h0] by simp_all
  have two: "map ?addr [0..<nat 2] = [65, 66]" by (simp add: numeral_2_eq_2)
  obtain s1 where s1: "pipewrite ?a ?addr 2 ?s0 = Ret (Done 2, [], s1)"
    using pipewrite_loop_fits [OF ok0(1), of "[65, 66]" 2] ok0(2) two by (auto simp: pipewrite_def PIPESIZE_def)
  have h1: "pipe_hist ?a s1 [65, 66] []"
    using pipe_hist.wrote [OF h0 s1, of "[65, 66]"] two by simp
  have "readopen (pipes s1 ?a)"
    using pipewrite_loop_readopen [OF s1 [unfolded pipewrite_def]] by (simp add: pipe_init_def)
  then obtain s2 where s2: "pipeclose ?a True s1 = Ret s2" by (simp add: pipeclose_def Let_def)
  have h2: "pipe_hist ?a s2 [65, 66] []" by (rule pipe_hist.closed [OF h1 s2])
  then have b2: "pipe_ok (pipes s2 ?a)" "pipe_bytes (pipes s2 ?a) = [65, 66]" using pipe_hist_inv by force+
  then have ne: "nread (pipes s2 ?a) \<noteq> nwrite (pipes s2 ?a)" by (auto simp: pipe_bytes_Nil [symmetric])
  obtain bs p where c: "pipe_copy 1 (pipes s2 ?a) = (bs, p)" by (rule prod.exhaust)
  let ?s3 = "wakeup (ChanWrite ?a) (s2\<lparr>pipes := (pipes s2)(?a := p)\<rparr>)"
  have r: "piperead ?a 1 s2 = Ret (Done (int (length bs)), bs, ?s3)"
    using ne c by (simp add: piperead_def)
  have "[65, 66] = bs @ pipe_bytes p" "length bs \<le> 1" "length bs < 1 \<longrightarrow> pipe_bytes p = []"
    using pq.gets [OF b2(1) c [unfolded pipe_copy_gets]] unfolding b2(2) by blast+
  then have bs: "bs = [65]" by (cases bs) auto
  have "pipe_hist ?a ?s3 [65, 66] [65]"
    using pipe_hist.was_read [OF h2 r] bs by simp
  from pipe_fifo [OF this] have "pipe_bytes (pipes ?s3 ?a) = [66]" by auto
  then show ?thesis using s1 s2 r unfolding bs by auto
qed

theorem pipe_wakes_peer_witness:
  "\<exists>s' s2. piperead 0x80200000 1 demo_pipes = Ret (Asleep, [], s') \<and>
     pipewrite 0x80200000 (\<lambda>k. 7) 3 s' = Ret (Done 3, [], s2)"
proof -
  let ?a = "0x80200000 :: u32"
  have ok: "pipe_ok (pipes demo_pipes ?a)"
    by (simp add: pipe_ok_def demo_pipes_def PIPESIZE_def ksys.extend_def psys.fields_def)
  obtain s' where s': "piperead ?a 1 demo_pipes = Ret (Asleep, [], s')"
    by (simp add: piperead_def demo_pipes_def ksys.extend_def psys.fields_def boot_ksys_def idle_proc_def
        myproc_def sleep_def)
  then show ?thesis
    using pipe_wakes_peer [OF ok, of 3 "\<lambda>k. 7" 1 "[]" s' "[]"] by (auto simp: PIPESIZE_def)
qed

end
