(* ===== verification/Fs.thy ===== *)
theory Fs
  imports Log CString
begin

text \<open>
  The file system (\<^verbatim>\<open>fs.c\<close>): block and inode allocation, inode contents, directories, paths.
  An in-memory inode is its index in \<^verbatim>\<open>icache.inode\<close>; a C \<^verbatim>\<open>short\<close> is an \<open>u16\<close> read with \<open>sint\<close>.
  A path is the bytes up to its NUL, and a pointer into it the bytes that are left.
  \<open>devsw\<close> says for which major numbers a driver is registered; a read or write of a device
  is answered by \<open>Device\<close>, and the file layer runs the driver.
\<close>

definition ROOTINO :: u32 where "ROOTINO = 1"
definition NDIRECT :: nat where "NDIRECT = 12"
definition NINDIRECT :: nat where "NINDIRECT = 128"
definition MAXFILE :: nat where "MAXFILE = NDIRECT + NINDIRECT"
definition IPB :: u32 where "IPB = 8"
definition BPB :: u32 where "BPB = 512 * 8"
definition DIRSIZ :: nat where "DIRSIZ = 14"
definition NINODE :: nat where "NINODE = 50"
definition NDEV :: int where "NDEV = 10"
definition T_DIR :: u16 where "T_DIR = 1"
definition T_FILE :: u16 where "T_FILE = 2"
definition T_DEV :: u16 where "T_DEV = 3"

record dinode =
  dtype :: u16
  dmajor :: u16
  dminor :: u16
  dnlink :: u16
  dsize :: u32
  daddrs :: "u32 list"

record inode =
  idev :: u32
  inum :: u32
  iref :: int
  ilk :: sleeplock
  ivalid :: bool
  itype :: u16
  major :: u16
  minor :: u16
  nlink :: u16
  isize :: u32
  addrs :: "u32 list"

record fssys = logsys +
  fsb :: superblock
  inodes :: "inode list"
  devsw :: "bool list"

definition upd_inode :: "nat \<Rightarrow> (inode \<Rightarrow> inode) \<Rightarrow> 'a fssys_scheme \<Rightarrow> 'a fssys_scheme" where
  "upd_inode i f s = s\<lparr>inodes := (inodes s)[i := f (inodes s ! i)]\<rparr>"

definition IBLOCK :: "u32 \<Rightarrow> superblock \<Rightarrow> u32" where
  "IBLOCK i sb = i div IPB + sb_inodestart sb"

definition BBLOCK :: "u32 \<Rightarrow> superblock \<Rightarrow> u32" where
  "BBLOCK b sb = b div BPB + sb_bmapstart sb"

text \<open>The on-disk inode at offset \<open>k\<close> of a block, 64 bytes.\<close>

definition get_dinode :: "u8 list \<Rightarrow> nat \<Rightarrow> dinode" where
  "get_dinode d k = \<lparr>dtype = get16 d k, dmajor = get16 d (k + 2), dminor = get16 d (k + 4),
     dnlink = get16 d (k + 6), dsize = get32 d (k + 8),
     daddrs = map (\<lambda>i. get32 d (k + 12 + 4 * i)) [0..<13]\<rparr>"

fun put_words :: "u32 list \<Rightarrow> nat \<Rightarrow> u8 list \<Rightarrow> u8 list" where
  "put_words [] k d = d"
| "put_words (a # as) k d = put_words as (k + 4) (put32 d k a)"

definition put_dinode :: "dinode \<Rightarrow> u8 list \<Rightarrow> nat \<Rightarrow> u8 list" where
  "put_dinode v d k =
     (let d = put16 d k (dtype v);
          d = put16 d (k + 2) (dmajor v);
          d = put16 d (k + 4) (dminor v);
          d = put16 d (k + 6) (dnlink v);
          d = put32 d (k + 8) (dsize v)
      in put_words (daddrs v) (k + 12) d)"

lemma length_put_words [simp]: "length (put_words ws k d) = length d"
  by (induction ws k d rule: put_words.induct) simp_all

lemma get32_put_words_other:
  "j + 3 < k \<or> k + 4 * length ws \<le> j \<Longrightarrow> get32 (put_words ws k d) j = get32 d j"
proof (induction ws k d rule: put_words.induct)
  case (2 w ws k d)
  have "get32 (put_words ws (k + 4) (put32 d k w)) j = get32 (put32 d k w) j"
    using 2 by (intro 2(1)) auto
  then show ?case using 2(2) by auto
qed simp

lemma get16_put32_other [simp]: "k + 3 < j \<or> j + 1 < k \<Longrightarrow> get16 (put32 d k v) j = get16 d j"
  by (auto simp: get16_def put32_def)

lemma get32_put16_other [simp]: "k + 1 < j \<or> j + 3 < k \<Longrightarrow> get32 (put16 d k v) j = get32 d j"
  by (auto simp: get32_def put16_def)

lemma get16_put_words_other:
  "j + 1 < k \<or> k + 4 * length ws \<le> j \<Longrightarrow> get16 (put_words ws k d) j = get16 d j"
proof (induction ws k d rule: put_words.induct)
  case (2 w ws k d)
  have "get16 (put_words ws (k + 4) (put32 d k w)) j = get16 (put32 d k w) j"
    using 2 by (intro 2(1)) auto
  then show ?case using 2(2) by auto
qed simp

lemma get32_put_words:
  "i < length ws \<Longrightarrow> k + 4 * length ws \<le> length d \<Longrightarrow> get32 (put_words ws k d) (k + 4 * i) = ws ! i"
proof (induction ws k d arbitrary: i rule: put_words.induct)
  case (2 w ws k d)
  show ?case
  proof (cases i)
    case 0
    then show ?thesis using 2(3) by (simp add: get32_put_words_other)
  next
    case (Suc j)
    then have "get32 (put_words ws (k + 4) (put32 d k w)) (k + 4 + 4 * j) = ws ! j"
      using 2 by (intro 2(1)) simp_all
    then show ?thesis using Suc by (simp add: algebra_simps)
  qed
qed simp

lemma length_put_dinode [simp]: "length (put_dinode v d k) = length d"
  by (simp add: put_dinode_def Let_def)

lemma get_put_dinode:
  assumes "k + 64 \<le> length d" and "length (daddrs v) = 13"
  shows "get_dinode (put_dinode v d k) k = v"
proof -
  have "map (\<lambda>i. get32 (put_dinode v d k) (k + 12 + 4 * i)) [0..<13] = daddrs v"
    using assms by (intro nth_equalityI) (simp_all add: put_dinode_def Let_def get32_put_words)
  moreover have "get16 (put_dinode v d k) k = dtype v" "get16 (put_dinode v d k) (k + 2) = dmajor v"
    "get16 (put_dinode v d k) (k + 4) = dminor v" "get16 (put_dinode v d k) (k + 6) = dnlink v"
    "get32 (put_dinode v d k) (k + 8) = dsize v"
    using assms by (simp_all add: put_dinode_def Let_def get16_put_words_other get32_put_words_other)
  ultimately show ?thesis by (simp add: get_dinode_def)
qed

lemma get_put_dinode_other:
  assumes "j + 64 \<le> k \<or> k + 64 \<le> j" and "length (daddrs v) = 13"
  shows "get_dinode (put_dinode v d k) j = get_dinode d j"
proof -
  have w: "get32 (put_dinode v d k) (j + i) = get32 d (j + i)" if "i + 4 \<le> 64" for i
    using assms that by (auto simp: put_dinode_def Let_def get32_put_words_other)
  have h: "get16 (put_dinode v d k) (j + i) = get16 d (j + i)" if "i + 2 \<le> 64" for i
    using assms that by (auto simp: put_dinode_def Let_def get16_put_words_other)
  show ?thesis
    using h [of 0] h [of 2] h [of 4] h [of 6] w by (simp add: get_dinode_def add.assoc del: add_2_eq_Suc')
qed

definition zero_bytes :: "nat \<Rightarrow> nat \<Rightarrow> u8 list \<Rightarrow> u8 list" where
  "zero_bytes k n d = take k d @ replicate n 0 @ drop (k + n) d"

definition set_data :: "nat \<Rightarrow> u8 list \<Rightarrow> 'a iosys_scheme \<Rightarrow> 'a iosys_scheme" where
  "set_data i x s = upd_buf i (\<lambda>b. b\<lparr>data := x\<rparr>) s"

subsection \<open>Blocks\<close>

definition bzero :: "u32 \<Rightarrow> u32 \<Rightarrow> 'a fssys_scheme \<Rightarrow> 'a fssys_scheme outcome" where
  "bzero d b s =
     bindR (bread d b s) (\<lambda>(i, s).
     bindR (log_write i (set_data i (replicate BSIZE 0) s)) (brelse i))"

text \<open>The inner loop of \<^verbatim>\<open>balloc\<close>, with \<open>k\<close> turns left: the first clear bit from \<open>bi\<close> on.\<close>

fun free_bit :: "u8 list \<Rightarrow> u32 \<Rightarrow> u32 \<Rightarrow> nat \<Rightarrow> nat \<Rightarrow> nat option" where
  "free_bit d b sz 0 bi = None"
| "free_bit d b sz (Suc k) bi =
     (if \<not> b + of_nat bi < sz then None
      else if d ! (bi div 8) AND push_bit (bi mod 8) 1 = 0 then Some bi
      else free_bit d b sz k (bi + 1))"

fun balloc_from :: "nat \<Rightarrow> u32 \<Rightarrow> u32 \<Rightarrow> 'a fssys_scheme \<Rightarrow> (u32 \<times> 'a fssys_scheme) outcome" where
  "balloc_from 0 d b s = Blocked"
| "balloc_from (Suc n) d b s =
     (if b < sb_size (fsb s) then
        bindR (bread d (BBLOCK b (fsb s)) s) (\<lambda>(i, s).
          case free_bit (data (bufs s ! i)) b (sb_size (fsb s)) (unat BPB) 0 of
            Some bi \<Rightarrow>
              let x = data (bufs s ! i) in
              bindR (log_write i (set_data i (x[bi div 8 := x ! (bi div 8) OR push_bit (bi mod 8) 1]) s)) (\<lambda>s.
              bindR (brelse i s) (\<lambda>s.
              bindR (bzero d (b + of_nat bi) s) (\<lambda>s. Ret (b + of_nat bi, s))))
          | None \<Rightarrow> bindR (brelse i s) (balloc_from n d (b + BPB)))
      else Panic ''balloc: out of blocks'')"

definition balloc :: "u32 \<Rightarrow> 'a fssys_scheme \<Rightarrow> (u32 \<times> 'a fssys_scheme) outcome" where
  "balloc d s = balloc_from (unat (sb_size (fsb s)) div 4096 + 2) d 0 s"

definition bfree :: "u32 \<Rightarrow> u32 \<Rightarrow> 'a fssys_scheme \<Rightarrow> 'a fssys_scheme outcome" where
  "bfree d b s =
     bindR (bread d (BBLOCK b (fsb s)) s) (\<lambda>(i, s).
       let bi = unat (b mod BPB); m = push_bit (bi mod 8) 1; x = data (bufs s ! i) in
       if x ! (bi div 8) AND m = 0 then Panic ''freeing free block''
       else bindR (log_write i (set_data i (x[bi div 8 := x ! (bi div 8) AND NOT m]) s)) (brelse i))"

subsection \<open>Inodes\<close>

fun init_locks :: "nat \<Rightarrow> nat \<Rightarrow> 'a fssys_scheme \<Rightarrow> 'a fssys_scheme" where
  "init_locks 0 i s = s"
| "init_locks (Suc n) i s = init_locks n (Suc i) (upd_inode i (\<lambda>p. p\<lparr>ilk := initsleeplock (ilk p)\<rparr>) s)"

definition iinit :: "u32 \<Rightarrow> 'a fssys_scheme \<Rightarrow> 'a fssys_scheme outcome" where
  "iinit d s = bindR (readsb d (init_locks NINODE 0 s)) (\<lambda>(sb, s). Ret (s\<lparr>fsb := sb\<rparr>))"

definition iget :: "u32 \<Rightarrow> u32 \<Rightarrow> 'a fssys_scheme \<Rightarrow> (nat \<times> 'a fssys_scheme) outcome" where
  "iget d n s =
     (case find_index (\<lambda>p. iref p > 0 \<and> idev p = d \<and> inum p = n) (inodes s) of
        Some i \<Rightarrow> Ret (i, upd_inode i (\<lambda>p. p\<lparr>iref := iref p + 1\<rparr>) s)
      | None \<Rightarrow>
          (case find_index (\<lambda>p. iref p = 0) (inodes s) of
             None \<Rightarrow> Panic ''iget: no inodes''
           | Some i \<Rightarrow> Ret (i, upd_inode i (\<lambda>p. p\<lparr>idev := d, inum := n, iref := 1, ivalid := False\<rparr>) s)))"

fun ialloc_from :: "nat \<Rightarrow> u32 \<Rightarrow> u16 \<Rightarrow> u32 \<Rightarrow> 'a fssys_scheme \<Rightarrow> (nat \<times> 'a fssys_scheme) outcome" where
  "ialloc_from 0 d t n s = Blocked"
| "ialloc_from (Suc k) d t n s =
     (if n < sb_ninodes (fsb s) then
        bindR (bread d (IBLOCK n (fsb s)) s) (\<lambda>(i, s).
          let x = data (bufs s ! i); off = 64 * unat (n mod IPB) in
          if get16 x off = 0 then
            bindR (log_write i (set_data i (put16 (zero_bytes off 64 x) off t) s)) (\<lambda>s.
            bindR (brelse i s) (iget d n))
          else bindR (brelse i s) (ialloc_from k d t (n + 1)))
      else Panic ''ialloc: no inodes'')"

definition ialloc :: "u32 \<Rightarrow> u16 \<Rightarrow> 'a fssys_scheme \<Rightarrow> (nat \<times> 'a fssys_scheme) outcome" where
  "ialloc d t s = ialloc_from (unat (sb_ninodes (fsb s)) + 1) d t 1 s"

definition dinode_of :: "inode \<Rightarrow> dinode" where
  "dinode_of p = \<lparr>dtype = itype p, dmajor = major p, dminor = minor p, dnlink = nlink p,
     dsize = isize p, daddrs = addrs p\<rparr>"

definition iupdate :: "nat \<Rightarrow> 'a fssys_scheme \<Rightarrow> 'a fssys_scheme outcome" where
  "iupdate ip s =
     (let p = inodes s ! ip in
      bindR (bread (idev p) (IBLOCK (inum p) (fsb s)) s) (\<lambda>(i, s).
        let x = data (bufs s ! i); off = 64 * unat (inum p mod IPB) in
        bindR (log_write i (set_data i (put_dinode (dinode_of p) x off) s)) (brelse i)))"

definition idup :: "nat \<Rightarrow> 'a fssys_scheme \<Rightarrow> 'a fssys_scheme" where
  "idup ip s = upd_inode ip (\<lambda>p. p\<lparr>iref := iref p + 1\<rparr>) s"

definition ilock :: "nat \<Rightarrow> 'a fssys_scheme \<Rightarrow> 'a fssys_scheme outcome" where
  "ilock ip s =
     (if iref (inodes s ! ip) < 1 then Panic ''ilock''
      else bindR (acquiresleep (curpid s) (ilk (inodes s ! ip))) (\<lambda>l.
        let s = upd_inode ip (\<lambda>p. p\<lparr>ilk := l\<rparr>) s; p = inodes s ! ip in
        if \<not> ivalid p then
          bindR (bread (idev p) (IBLOCK (inum p) (fsb s)) s) (\<lambda>(i, s).
            let v = get_dinode (data (bufs s ! i)) (64 * unat (inum p mod IPB));
                s = upd_inode ip (\<lambda>p. p\<lparr>itype := dtype v, major := dmajor v, minor := dminor v,
                      nlink := dnlink v, isize := dsize v, addrs := daddrs v\<rparr>) s
            in bindR (brelse i s) (\<lambda>s.
                 let s = upd_inode ip (\<lambda>p. p\<lparr>ivalid := True\<rparr>) s in
                 if dtype v = 0 then Panic ''ilock: no type'' else Ret s))
        else Ret s))"

definition iunlock :: "nat \<Rightarrow> 'a fssys_scheme \<Rightarrow> 'a fssys_scheme outcome" where
  "iunlock ip s =
     (let p = inodes s ! ip in
      if \<not> holdingsleep (curpid s) (ilk p) \<or> iref p < 1 then Panic ''iunlock''
      else Ret (upd_inode ip (\<lambda>p. p\<lparr>ilk := releasesleep (ilk p)\<rparr>) s))"

subsection \<open>Inode content\<close>

definition bmap :: "nat \<Rightarrow> u32 \<Rightarrow> 'a fssys_scheme \<Rightarrow> (u32 \<times> 'a fssys_scheme) outcome" where
  "bmap ip bn s =
     (let p = inodes s ! ip; k = unat bn in
      if k < NDIRECT then
        if addrs p ! k = 0 then
          bindR (balloc (idev p) s) (\<lambda>(a, s).
            Ret (a, upd_inode ip (\<lambda>p. p\<lparr>addrs := (addrs p)[k := a]\<rparr>) s))
        else Ret (addrs p ! k, s)
      else let k = k - NDIRECT in
      if k < NINDIRECT then
        bindR (if addrs p ! NDIRECT = 0 then
                 bindR (balloc (idev p) s) (\<lambda>(a, s).
                   Ret (a, upd_inode ip (\<lambda>p. p\<lparr>addrs := (addrs p)[NDIRECT := a]\<rparr>) s))
               else Ret (addrs p ! NDIRECT, s)) (\<lambda>(ind, s).
        bindR (bread (idev p) ind s) (\<lambda>(i, s).
          let a = get32 (data (bufs s ! i)) (4 * k) in
          if a = 0 then
            bindR (balloc (idev p) s) (\<lambda>(a, s).
            bindR (log_write i (set_data i (put32 (data (bufs s ! i)) (4 * k) a) s)) (\<lambda>s.
            bindR (brelse i s) (\<lambda>s. Ret (a, s))))
          else bindR (brelse i s) (\<lambda>s. Ret (a, s))))
      else Panic ''bmap: out of range'')"

fun free_direct :: "nat \<Rightarrow> nat \<Rightarrow> nat \<Rightarrow> 'a fssys_scheme \<Rightarrow> 'a fssys_scheme outcome" where
  "free_direct ip 0 i s = Ret s"
| "free_direct ip (Suc n) i s =
     (let p = inodes s ! ip in
      if addrs p ! i \<noteq> 0 then
        bindR (bfree (idev p) (addrs p ! i) s) (\<lambda>s.
          free_direct ip n (i + 1) (upd_inode ip (\<lambda>p. p\<lparr>addrs := (addrs p)[i := 0]\<rparr>) s))
      else free_direct ip n (i + 1) s)"

fun free_indirect :: "u32 \<Rightarrow> nat \<Rightarrow> nat \<Rightarrow> nat \<Rightarrow> 'a fssys_scheme \<Rightarrow> 'a fssys_scheme outcome" where
  "free_indirect d b 0 j s = Ret s"
| "free_indirect d b (Suc n) j s =
     (let a = get32 (data (bufs s ! b)) (4 * j) in
      bindR (if a \<noteq> 0 then bfree d a s else Ret s) (free_indirect d b n (j + 1)))"

definition itrunc :: "nat \<Rightarrow> 'a fssys_scheme \<Rightarrow> 'a fssys_scheme outcome" where
  "itrunc ip s =
     bindR (free_direct ip NDIRECT 0 s) (\<lambda>s.
       let p = inodes s ! ip; ind = addrs p ! NDIRECT in
       bindR (if ind \<noteq> 0 then
                bindR (bread (idev p) ind s) (\<lambda>(b, s).
                bindR (free_indirect (idev p) b NINDIRECT 0 s) (\<lambda>s.
                bindR (brelse b s) (\<lambda>s.
                bindR (bfree (idev p) ind s) (\<lambda>s.
                  Ret (upd_inode ip (\<lambda>p. p\<lparr>addrs := (addrs p)[NDIRECT := 0]\<rparr>) s)))))
              else Ret s)
         (\<lambda>s. iupdate ip (upd_inode ip (\<lambda>p. p\<lparr>isize := 0\<rparr>) s)))"

definition iput :: "nat \<Rightarrow> 'a fssys_scheme \<Rightarrow> 'a fssys_scheme outcome" where
  "iput ip s =
     bindR (acquiresleep (curpid s) (ilk (inodes s ! ip))) (\<lambda>l.
       let s = upd_inode ip (\<lambda>p. p\<lparr>ilk := l\<rparr>) s; p = inodes s ! ip in
       bindR (if ivalid p \<and> nlink p = 0 \<and> iref p = 1 then
                bindR (itrunc ip s) (\<lambda>s.
                bindR (iupdate ip (upd_inode ip (\<lambda>p. p\<lparr>itype := 0\<rparr>) s)) (\<lambda>s.
                  Ret (upd_inode ip (\<lambda>p. p\<lparr>ivalid := False\<rparr>) s)))
              else Ret s)
         (\<lambda>s. let s = upd_inode ip (\<lambda>p. p\<lparr>ilk := releasesleep (ilk p)\<rparr>) s
              in Ret (upd_inode ip (\<lambda>p. p\<lparr>iref := iref p - 1\<rparr>) s)))"

definition iunlockput :: "nat \<Rightarrow> 'a fssys_scheme \<Rightarrow> 'a fssys_scheme outcome" where
  "iunlockput ip s = bindR (iunlock ip s) (iput ip)"

record stat =
  st_type :: u16
  st_dev :: u32
  st_ino :: u32
  st_nlink :: u16
  st_size :: u32

definition stati :: "nat \<Rightarrow> 'a fssys_scheme \<Rightarrow> stat" where
  "stati ip s =
     (let p = inodes s ! ip in
      \<lparr>st_type = itype p, st_dev = idev p, st_ino = inum p, st_nlink = nlink p, st_size = isize p\<rparr>)"

text \<open>The answer to a read or write: the count with the bytes read, or a call of driver \<open>major\<close>.\<close>

datatype io = Data int "u8 list" | Device nat

definition device :: "inode \<Rightarrow> 'a fssys_scheme \<Rightarrow> io" where
  "device p s =
     (let m = sint (major p) in
      if m < 0 \<or> m \<ge> NDEV \<or> \<not> devsw s ! nat m then Data (-1) [] else Device (nat m))"

text \<open>The loops of \<^verbatim>\<open>readi\<close> and \<^verbatim>\<open>writei\<close> with \<open>r = n - tot\<close> bytes to go.\<close>

lemma chunk_less:
  fixes r off :: u32
  assumes "r \<noteq> 0"
  shows "unat (r - min r (512 - off mod 512)) < unat r" and "0 < min r (512 - off mod 512)"
proof -
  have "off mod 512 < 512" by (simp add: word_less_nat_alt unat_mod)
  then have "0 < 512 - off mod 512" by (simp add: word_less_nat_alt unat_sub_if')
  then show p: "0 < min r (512 - off mod 512)" using assms by (simp add: word_gt_0)
  show "unat (r - min r (512 - off mod 512)) < unat r"
    using p by (simp add: word_less_nat_alt unat_sub_if' min_def word_le_nat_alt split: if_splits)
qed

function read_loop :: "nat \<Rightarrow> u32 \<Rightarrow> u32 \<Rightarrow> 'a fssys_scheme \<Rightarrow> (u8 list \<times> 'a fssys_scheme) outcome" where
  "read_loop ip off r s =
     (if r = 0 then Ret ([], s)
      else
        bindR (bmap ip (off div 512) s) (\<lambda>(a, s).
        bindR (bread (idev (inodes s ! ip)) a s) (\<lambda>(i, s).
          let m = min r (512 - off mod 512);
              x = take (unat m) (drop (unat (off mod 512)) (data (bufs s ! i)))
          in bindR (brelse i s) (\<lambda>s.
             bindR (read_loop ip (off + m) (r - m) s) (\<lambda>(xs, s). Ret (x @ xs, s))))))"
  by pat_completeness auto
termination by (relation "measure (\<lambda>(ip, off, r, s). unat r)") (auto dest: chunk_less(1))

definition readi :: "nat \<Rightarrow> u32 \<Rightarrow> u32 \<Rightarrow> 'a fssys_scheme \<Rightarrow> (io \<times> 'a fssys_scheme) outcome" where
  "readi ip off n s =
     (let p = inodes s ! ip in
      if itype p = T_DEV then Ret (device p s, s)
      else if off > isize p \<or> off + n < off then Ret (Data (-1) [], s)
      else
        let n = (if off + n > isize p then isize p - off else n) in
        bindR (read_loop ip off n s) (\<lambda>(xs, s). Ret (Data (sint n) xs, s)))"

function write_loop :: "nat \<Rightarrow> u32 \<Rightarrow> u8 list \<Rightarrow> u32 \<Rightarrow> 'a fssys_scheme \<Rightarrow> (u32 \<times> 'a fssys_scheme) outcome" where
  "write_loop ip off src r s =
     (if r = 0 then Ret (off, s)
      else
        bindR (bmap ip (off div 512) s) (\<lambda>(a, s).
        bindR (bread (idev (inodes s ! ip)) a s) (\<lambda>(i, s).
          let m = min r (512 - off mod 512); k = unat (off mod 512); x = data (bufs s ! i)
          in bindR (log_write i (set_data i (take k x @ take (unat m) src @ drop (k + unat m) x) s)) (\<lambda>s.
             bindR (brelse i s) (write_loop ip (off + m) (drop (unat m) src) (r - m))))))"
  by pat_completeness auto
termination by (relation "measure (\<lambda>(ip, off, src, r, s). unat r)") (auto dest: chunk_less(1))

declare read_loop.simps [simp del] write_loop.simps [simp del]

definition writei :: "nat \<Rightarrow> u8 list \<Rightarrow> u32 \<Rightarrow> u32 \<Rightarrow> 'a fssys_scheme \<Rightarrow> (io \<times> 'a fssys_scheme) outcome" where
  "writei ip src off n s =
     (let p = inodes s ! ip in
      if itype p = T_DEV then Ret (device p s, s)
      else if off > isize p \<or> off + n < off then Ret (Data (-1) [], s)
      else if off + n > of_nat (MAXFILE * BSIZE) then Ret (Data (-1) [], s)
      else bindR (write_loop ip off src n s) (\<lambda>(off, s).
        bindR (if n > 0 \<and> off > isize (inodes s ! ip)
               then iupdate ip (upd_inode ip (\<lambda>p. p\<lparr>isize := off\<rparr>) s) else Ret s)
          (\<lambda>s. Ret (Data (sint n) [], s))))"

subsection \<open>Directories\<close>

text \<open>An array of bytes as C reads it: a \<^verbatim>\<open>struct dirent\<close> is 2 bytes of inode number and a name of
  \<^verbatim>\<open>DIRSIZ\<close> bytes, NUL-terminated only when shorter.\<close>

definition chars :: "u8 list \<Rightarrow> nat \<Rightarrow> u8" where
  "chars xs i = (if i < length xs then xs ! i else 0)"

definition namecmp :: "u8 list \<Rightarrow> u8 list \<Rightarrow> int" where
  "namecmp a b = strncmp (chars a) (chars b) DIRSIZ"

definition mk_dirent :: "u32 \<Rightarrow> u8 list \<Rightarrow> u8 list \<Rightarrow> u8 list" where
  "mk_dirent n name old = put16 (replicate 2 0) 0 (ucast n) @
     map (strncpy (chars (drop 2 old)) (chars name) (int DIRSIZ)) [0..<DIRSIZ]"

fun lookup_from :: "nat \<Rightarrow> nat \<Rightarrow> u8 list \<Rightarrow> u32 \<Rightarrow> 'a fssys_scheme \<Rightarrow>
    ((nat \<times> u32) option \<times> 'a fssys_scheme) outcome" where
  "lookup_from 0 dp name off s = Blocked"
| "lookup_from (Suc k) dp name off s =
     (if off < isize (inodes s ! dp) then
        bindR (readi dp off 16 s) (\<lambda>(r, s).
          case r of
            Data c de \<Rightarrow>
              if c \<noteq> 16 then Panic ''dirlookup read''
              else if get16 de 0 = 0 then lookup_from k dp name (off + 16) s
              else if namecmp name (drop 2 de) = 0 then
                bindR (iget (idev (inodes s ! dp)) (ucast (get16 de 0)) s) (\<lambda>(i, s). Ret (Some (i, off), s))
              else lookup_from k dp name (off + 16) s
          | Device _ \<Rightarrow> Panic ''dirlookup read'')
      else Ret (None, s))"

definition dirlookup :: "nat \<Rightarrow> u8 list \<Rightarrow> 'a fssys_scheme \<Rightarrow>
    ((nat \<times> u32) option \<times> 'a fssys_scheme) outcome" where
  "dirlookup dp name s =
     (if itype (inodes s ! dp) \<noteq> T_DIR then Panic ''dirlookup not DIR''
      else lookup_from (unat (isize (inodes s ! dp)) div 16 + 2) dp name 0 s)"

fun empty_from :: "nat \<Rightarrow> nat \<Rightarrow> u32 \<Rightarrow> u8 list \<Rightarrow> 'a fssys_scheme \<Rightarrow>
    (u32 \<times> u8 list \<times> 'a fssys_scheme) outcome" where
  "empty_from 0 dp off de s = Blocked"
| "empty_from (Suc k) dp off de s =
     (if off < isize (inodes s ! dp) then
        bindR (readi dp off 16 s) (\<lambda>(r, s).
          case r of
            Data c de \<Rightarrow>
              if c \<noteq> 16 then Panic ''dirlink read''
              else if get16 de 0 = 0 then Ret (off, de, s)
              else empty_from k dp (off + 16) de s
          | Device _ \<Rightarrow> Panic ''dirlink read'')
      else Ret (off, de, s))"

text \<open>\<open>de\<close> is what the stack holds where the entry is built.\<close>

definition dirlink :: "nat \<Rightarrow> u8 list \<Rightarrow> u32 \<Rightarrow> u8 list \<Rightarrow> 'a fssys_scheme \<Rightarrow> (int \<times> 'a fssys_scheme) outcome" where
  "dirlink dp name n de s =
     bindR (dirlookup dp name s) (\<lambda>(r, s).
       case r of
         Some (ip, _) \<Rightarrow> bindR (iput ip s) (\<lambda>s. Ret (-1, s))
       | None \<Rightarrow>
           bindR (empty_from (unat (isize (inodes s ! dp)) div 16 + 2) dp 0 de s) (\<lambda>(off, de, s).
           bindR (writei dp (mk_dirent n name de) off 16 s) (\<lambda>(w, s).
             case w of
               Data c _ \<Rightarrow> if c \<noteq> 16 then Panic ''dirlink'' else Ret (0, s)
             | Device _ \<Rightarrow> Panic ''dirlink'')))"

subsection \<open>Paths\<close>

abbreviation slash :: u8 where "slash \<equiv> 47"

definition skipelem :: "u8 list \<Rightarrow> u8 list \<Rightarrow> (u8 list \<times> u8 list) option" where
  "skipelem path name =
     (let path = dropWhile (\<lambda>c. c = slash) path in
      if path = [] then None
      else
        let s = takeWhile (\<lambda>c. c \<noteq> slash) path;
            path = dropWhile (\<lambda>c. c \<noteq> slash) path;
            name = (if length s \<ge> DIRSIZ then take DIRSIZ s else s @ [0] @ drop (length s + 1) name)
        in Some (dropWhile (\<lambda>c. c = slash) path, name))"

lemma skipelem_length: "skipelem path name = Some (rest, elem) \<Longrightarrow> length rest < length path"
proof -
  assume a: "skipelem path name = Some (rest, elem)"
  let ?p = "dropWhile (\<lambda>c. c = slash) path"
  have ne: "?p \<noteq> []" and r: "rest = dropWhile (\<lambda>c. c = slash) (dropWhile (\<lambda>c. c \<noteq> slash) ?p)"
    using a by (auto simp: skipelem_def Let_def split: if_splits)
  obtain c cs where p: "?p = c # cs" using ne by (cases ?p) auto
  then have "c \<noteq> slash" using hd_dropWhile [OF ne] by simp
  then have "rest = dropWhile (\<lambda>c. c = slash) (dropWhile (\<lambda>c. c \<noteq> slash) cs)" using r p by simp
  then have "length rest \<le> length cs"
    using length_dropWhile_le [of "\<lambda>c. c = slash"] length_dropWhile_le [of "\<lambda>c. c \<noteq> slash" cs] le_trans by blast
  moreover have "length ?p \<le> length path" by (rule length_dropWhile_le)
  ultimately show ?thesis using p by simp
qed

function namex_loop :: "u8 list \<Rightarrow> bool \<Rightarrow> u8 list \<Rightarrow> nat \<Rightarrow> 'a fssys_scheme \<Rightarrow>
    (nat option \<times> u8 list \<times> 'a fssys_scheme) outcome" where
  "namex_loop path nip name ip s =
     (case skipelem path name of
        None \<Rightarrow> if nip then bindR (iput ip s) (\<lambda>s. Ret (None, name, s)) else Ret (Some ip, name, s)
      | Some (path, name) \<Rightarrow>
          bindR (ilock ip s) (\<lambda>s.
            if itype (inodes s ! ip) \<noteq> T_DIR then bindR (iunlockput ip s) (\<lambda>s. Ret (None, name, s))
            else if nip \<and> path = [] then bindR (iunlock ip s) (\<lambda>s. Ret (Some ip, name, s))
            else bindR (dirlookup ip name s) (\<lambda>(r, s).
              case r of
                None \<Rightarrow> bindR (iunlockput ip s) (\<lambda>s. Ret (None, name, s))
              | Some (next, _) \<Rightarrow> bindR (iunlockput ip s) (namex_loop path nip name next))))"
  by pat_completeness auto
termination
  by (relation "measure (\<lambda>(path, nip, name, ip, s). length path)") (auto dest: skipelem_length)

declare namex_loop.simps [simp del]

text \<open>\<open>cwd\<close> is the current directory of the process; a process without one takes the address 0 for
  its inode.\<close>

definition namex :: "nat option \<Rightarrow> u8 list \<Rightarrow> bool \<Rightarrow> u8 list \<Rightarrow> 'a fssys_scheme \<Rightarrow>
    (nat option \<times> u8 list \<times> 'a fssys_scheme) outcome" where
  "namex cwd path nip name s =
     (if path \<noteq> [] \<and> hd path = slash then
        bindR (iget ROOTDEV ROOTINO s) (\<lambda>(ip, s). namex_loop path nip name ip s)
      else (case cwd of
              None \<Rightarrow> Panic ''trap''
            | Some ip \<Rightarrow> namex_loop path nip name ip (idup ip s)))"

definition namei :: "nat option \<Rightarrow> u8 list \<Rightarrow> u8 list \<Rightarrow> 'a fssys_scheme \<Rightarrow>
    (nat option \<times> 'a fssys_scheme) outcome" where
  "namei cwd path stack s = bindR (namex cwd path False stack s) (\<lambda>(r, _, s). Ret (r, s))"

definition nameiparent :: "nat option \<Rightarrow> u8 list \<Rightarrow> u8 list \<Rightarrow> 'a fssys_scheme \<Rightarrow>
    (nat option \<times> u8 list \<times> 'a fssys_scheme) outcome" where
  "nameiparent cwd path name s = namex cwd path True name s"

end
