(* ===== verification/Console.thy ===== *)
theory Console
  imports Pipe Vm Printf
begin

text \<open>
  The console (\<^verbatim>\<open>console.c\<close>): the text screen, the line editor behind the keyboard interrupt,
  and the reader; with it the memory listing of \<^verbatim>\<open>proc.c\<close> that control-I prints.  \<open>crt\<close> is the screen memory,
  \<open>crt_pos\<close> the cursor register, \<open>uart_out\<close> what the serial port has sent, newest last.
\<close>

definition INPUT_BUF :: nat where "INPUT_BUF = 128"
definition BACKSPACE :: int where "BACKSPACE = 0x100"

record console =
  panicked :: bool
  has_uart :: bool
  uart_out :: "u8 list"
  crt :: "nat \<Rightarrow> u16"
  crt_pos :: u16
  ibuf :: "u8 list"
  in_r :: u32
  in_w :: u32
  in_e :: u32

record csys = psys +
  cons :: console

definition upd_cons :: "(console \<Rightarrow> console) \<Rightarrow> 'a csys_scheme \<Rightarrow> 'a csys_scheme" where
  "upd_cons f s = s\<lparr>cons := f (cons s)\<rparr>"

subsection \<open>Output\<close>

definition uartputc :: "int \<Rightarrow> console \<Rightarrow> console" where
  "uartputc c k = (if has_uart k then k\<lparr>uart_out := uart_out k @ [word_of_int c]\<rparr> else k)"

definition cgaputc :: "int \<Rightarrow> console \<Rightarrow> console outcome" where
  "cgaputc c k =
     (let pos = uint (crt_pos k);
          (pos, m) =
            (if c = 10 then (pos + (80 - pos mod 80), crt k)
             else if c = BACKSPACE then (if pos > 0 then pos - 1 else pos, crt k)
             else (pos + 1, (crt k)(nat pos := word_of_int (c mod 256) OR 0x0700)))
      in if pos < 0 \<or> pos > 25 * 80 then Panic ''pos under/overflow''
      else
        let (pos, m) =
          (if pos div 80 \<ge> 24 then
             let m = (\<lambda>i. if i < 23 * 80 then m (i + 80) else m i); pos = pos - 80
             in (pos, \<lambda>i. if nat pos \<le> i \<and> i < 24 * 80 then 0 else m i)
           else (pos, m))
        in Ret (k\<lparr>crt_pos := word_of_int pos, crt := m(nat pos := 0x20 OR 0x0700)\<rparr>))"

definition consputc :: "int \<Rightarrow> console \<Rightarrow> console outcome" where
  "consputc c k =
     (if panicked k then Blocked
      else if c = BACKSPACE then cgaputc c (uartputc 8 (uartputc 32 (uartputc 8 k)))
      else cgaputc c (uartputc c k))"

fun put_bytes :: "u8 list \<Rightarrow> console \<Rightarrow> console outcome" where
  "put_bytes [] k = Ret k"
| "put_bytes (b # bs) k = bindR (consputc (uint b) k) (put_bytes bs)"

text \<open>\<^verbatim>\<open>cprintf\<close> of what \<open>Printf.cprintf\<close> formats, and the two listings.\<close>

definition cputs :: "u8 list \<Rightarrow> 'a csys_scheme \<Rightarrow> 'a csys_scheme outcome" where
  "cputs bs s = bindR (put_bytes bs (cons s)) (\<lambda>k. Ret (s\<lparr>cons := k\<rparr>))"

fun count_pages :: "nat \<Rightarrow> u32 \<Rightarrow> u32 \<Rightarrow> u32 \<Rightarrow> (u32 \<Rightarrow> u32) \<Rightarrow> int outcome" where
  "count_pages 0 pd va szp m = Blocked"
| "count_pages (Suc n) pd va szp m =
     (if va < szp then
        let pde = m (pd + 4 * PDX va) in
        if pde AND PTE_P = 0 then count_pages n pd (va + PGSIZE) szp m
        else
          let pte = m (P2V (PTE_ADDR pde) + 4 * PTX va) in
          bindR (count_pages n pd (va + PGSIZE) szp m) (\<lambda>k.
            Ret (if pte AND PTE_P \<noteq> 0 \<and> pte AND PTE_PS = 0 then k + 1 else k))
      else Ret 0)"

definition count_user_pages_in_RAM :: "proc \<Rightarrow> (u32 \<Rightarrow> u32) \<Rightarrow> int outcome" where
  "count_user_pages_in_RAM p m =
     (if pgdir p = 0 then Ret 0 else count_pages (unat (sz p) div 4096 + 2) (pgdir p) 0 (sz p) m)"

definition ascii :: "string \<Rightarrow> u8 list" where
  "ascii t = map (\<lambda>c. of_nat (of_char c)) t"

definition listed :: "procstate \<Rightarrow> bool" where
  "listed t \<longleftrightarrow> t = RUNNING \<or> t = RUNNABLE \<or> t = SLEEPING"

definition cname :: "u8 list \<Rightarrow> u8 list" where
  "cname xs = takeWhile (\<lambda>c. c \<noteq> 0) xs"

fun memory_rows :: "proc list \<Rightarrow> 'a csys_scheme \<Rightarrow> 'a csys_scheme outcome" where
  "memory_rows [] s = Ret s"
| "memory_rows (p # ps) s =
     bindR (if pid p \<ge> 1 \<and> listed (pstate p) then
              bindR (count_user_pages_in_RAM p (mem s)) (\<lambda>n.
                cputs (kprintint (word_of_int (pid p)) 10 True @ [9] @ kprintint (word_of_int n) 10 True @
                       [9, 9] @ cname (name p) @ [10]) s)
            else Ret s) (memory_rows ps)"

definition memory_printer :: "'a csys_scheme \<Rightarrow> 'a csys_scheme outcome" where
  "memory_printer s =
     bindR (cputs (ascii ''Ctrl+I is detected by xv6'' @ [10]) s) (\<lambda>s.
     bindR (cputs (ascii ''PID    NUM_PAGES      PROCESS_NAME'' @ [10]) s) (\<lambda>s.
       memory_rows (ptable s) s))"

definition state_name :: "procstate \<Rightarrow> string" where
  "state_name t = (case t of UNUSED \<Rightarrow> ''unused'' | EMBRYO \<Rightarrow> ''embryo'' | SLEEPING \<Rightarrow> ''sleep ''
     | RUNNABLE \<Rightarrow> ''runble'' | RUNNING \<Rightarrow> ''run   '' | ZOMBIE \<Rightarrow> ''zombie'')"

text \<open>\<^verbatim>\<open>getcallerpcs\<close> on the stack of a sleeping process starts from the \<^verbatim>\<open>ebp\<close> in its saved context, the
  fourth of its five words.\<close>

definition saved_pcs :: "proc \<Rightarrow> (u32 \<Rightarrow> u32) \<Rightarrow> u32 list" where
  "saved_pcs p m = takeWhile (\<lambda>a. a \<noteq> 0) (getcallerpcs m (m (ctxt p + 12) + 8))"

fun procdump_from :: "proc list \<Rightarrow> 'a csys_scheme \<Rightarrow> 'a csys_scheme outcome" where
  "procdump_from [] s = Ret s"
| "procdump_from (p # ps) s =
     bindR (if pstate p = UNUSED then Ret s
            else cputs (kprintint (word_of_int (pid p)) 10 True @ [32] @ ascii (state_name (pstate p)) @ [32] @
                    cname (name p) @
                    (if pstate p = SLEEPING
                     then concat (map (\<lambda>a. 32 # kprintint a 16 False) (saved_pcs p (mem s))) else []) @ [10]) s)
       (procdump_from ps)"

definition procdump :: "'a csys_scheme \<Rightarrow> 'a csys_scheme outcome" where
  "procdump s = procdump_from (ptable s) s"

subsection \<open>Input\<close>

definition in_byte :: "console \<Rightarrow> u32 \<Rightarrow> u8" where
  "in_byte k i = ibuf k ! (unat i mod INPUT_BUF)"

text \<open>The loop of control-U, of as many turns as bytes are being edited.\<close>

fun kill_line :: "nat \<Rightarrow> console \<Rightarrow> console outcome" where
  "kill_line 0 k = Ret k"
| "kill_line (Suc n) k =
     (if in_e k \<noteq> in_w k \<and> in_byte k (in_e k - 1) \<noteq> 10
      then bindR (consputc BACKSPACE (k\<lparr>in_e := in_e k - 1\<rparr>)) (kill_line n)
      else Ret k)"

definition input_char :: "int \<Rightarrow> 'a csys_scheme \<Rightarrow> 'a csys_scheme outcome" where
  "input_char c s =
     (if c \<noteq> 0 \<and> in_e (cons s) - in_r (cons s) < of_nat INPUT_BUF then
        let c = (if c = 13 then 10 else c);
            s = upd_cons (\<lambda>k. k\<lparr>ibuf := (ibuf k)[unat (in_e k) mod INPUT_BUF := word_of_int c], in_e := in_e k + 1\<rparr>) s
        in bindR (consputc c (cons s)) (\<lambda>k.
             let s = s\<lparr>cons := k\<rparr> in
             if c = 10 \<or> c = 4 \<or> in_e k = in_r k + of_nat INPUT_BUF
             then Ret (wakeup ChanInput (upd_cons (\<lambda>k. k\<lparr>in_w := in_e k\<rparr>) s))
             else Ret s)
      else Ret s)"

text \<open>\<open>consoleintr\<close> is given what the calls of \<^verbatim>\<open>getc\<close> return, up to the first negative number; the
  boolean is \<^verbatim>\<open>doprocdump\<close>.\<close>

fun consoleintr_loop :: "int list \<Rightarrow> bool \<Rightarrow> 'a csys_scheme \<Rightarrow> (bool \<times> 'a csys_scheme) outcome" where
  "consoleintr_loop [] dump s = Ret (dump, s)"
| "consoleintr_loop (c # cs) dump s =
     (if c < 0 then Ret (dump, s)
      else if c = 16 then consoleintr_loop cs True s
      else bindR
        (if c = 21 then
           bindR (kill_line (unat (in_e (cons s) - in_w (cons s))) (cons s)) (\<lambda>k. Ret (s\<lparr>cons := k\<rparr>))
         else if c = 8 \<or> c = 0x7f then
           if in_e (cons s) \<noteq> in_w (cons s)
           then bindR (consputc BACKSPACE ((cons s)\<lparr>in_e := in_e (cons s) - 1\<rparr>)) (\<lambda>k. Ret (s\<lparr>cons := k\<rparr>))
           else Ret s
         else if c = 9 then memory_printer s
         else input_char c s)
        (consoleintr_loop cs dump))"

definition consoleintr :: "int list \<Rightarrow> 'a csys_scheme \<Rightarrow> 'a csys_scheme outcome" where
  "consoleintr cs s =
     bindR (consoleintr_loop cs False s) (\<lambda>(dump, s). if dump then procdump s else Ret s)"

text \<open>\<^verbatim>\<open>consoleread\<close> between its \<^verbatim>\<open>iunlock\<close> and its \<^verbatim>\<open>ilock\<close>, with \<open>n\<close> of \<open>target\<close> bytes to go;
  \<open>xs\<close> is what it has stored at \<^verbatim>\<open>dst\<close>.\<close>

fun consoleread_loop :: "nat \<Rightarrow> nat \<Rightarrow> u8 list \<Rightarrow> 'a csys_scheme \<Rightarrow>
    (pipe_end \<times> u8 list \<times> 'a csys_scheme) outcome" where
  "consoleread_loop target 0 xs s = Ret (Done (int target), xs, s)"
| "consoleread_loop target (Suc n) xs s =
     (if in_r (cons s) = in_w (cons s) then
        bindR (myproc s) (\<lambda>i.
          if killed (ptable s ! i) then Ret (Done (-1), xs, s)
          else bindR (sleep ChanInput s) (\<lambda>s. Ret (Asleep, xs, s)))
      else
        let c = in_byte (cons s) (in_r (cons s)) in
        if c = 4 then
          Ret (Done (int target - int (Suc n)), xs,
            if Suc n < target then s else upd_cons (\<lambda>k. k\<lparr>in_r := in_r k + 1\<rparr>) s)
        else
          let s = upd_cons (\<lambda>k. k\<lparr>in_r := in_r k + 1\<rparr>) s in
          if c = 10 then Ret (Done (int target - int n), xs @ [c], s)
          else consoleread_loop target n (xs @ [c]) s)"

definition consoleread :: "int \<Rightarrow> 'a csys_scheme \<Rightarrow> (pipe_end \<times> u8 list \<times> 'a csys_scheme) outcome" where
  "consoleread n s = consoleread_loop (nat n) (nat n) [] s"

definition consolewrite :: "u8 list \<Rightarrow> 'a csys_scheme \<Rightarrow> (int \<times> 'a csys_scheme) outcome" where
  "consolewrite bs s = bindR (cputs bs s) (\<lambda>s. Ret (int (length bs), s))"

end
