(* ===== verification/File.thy ===== *)
theory File
  imports Fs Console
begin

text \<open>
  Open files (\<^verbatim>\<open>file.c\<close>, \<^verbatim>\<open>pipealloc\<close> of \<^verbatim>\<open>pipe.c\<close>) and the state of the whole kernel: the process and
  memory side with pipes and console, and in \<open>fsk\<close> the file system with the file table.  The file
  system runs with \<open>curpid\<close> the pid of the process on the CPU.  In a sequential run nobody sleeps on a
  sleep lock or on the log (such a call is \<open>Blocked\<close>), so the wakeups of \<^verbatim>\<open>releasesleep\<close> and \<^verbatim>\<open>end_op\<close> wake nobody.
\<close>

definition NFILE :: nat where "NFILE = 100"

datatype ftype = FD_NONE | FD_PIPE | FD_INODE

record file_entry =
  ftype :: ftype
  fref :: int
  readable :: bool
  writable :: bool
  fpipe :: u32
  fip :: nat
  foff :: u32

record kfs = fssys +
  ftable :: "file_entry list"

record kernel = csys +
  fsk :: kfs

definition upd_file :: "nat \<Rightarrow> (file_entry \<Rightarrow> file_entry) \<Rightarrow> 'a kfs_scheme \<Rightarrow> 'a kfs_scheme" where
  "upd_file f g s = s\<lparr>ftable := (ftable s)[f := g (ftable s ! f)]\<rparr>"

text \<open>Running a file system routine for the current process.\<close>

definition onfs :: "(kfs \<Rightarrow> ('r \<times> kfs) outcome) \<Rightarrow> 'a kernel_scheme \<Rightarrow> ('r \<times> 'a kernel_scheme) outcome" where
  "onfs f s =
     bindR (myproc s) (\<lambda>i.
     bindR (f ((fsk s)\<lparr>curpid := pid (ptable s ! i)\<rparr>)) (\<lambda>(r, t). Ret (r, s\<lparr>fsk := t\<rparr>)))"

definition dofs :: "(kfs \<Rightarrow> kfs outcome) \<Rightarrow> 'a kernel_scheme \<Rightarrow> 'a kernel_scheme outcome" where
  "dofs f s = bindR (onfs (\<lambda>t. bindR (f t) (\<lambda>t. Ret ((), t))) s) (\<lambda>(_, s). Ret s)"

definition on_file :: "nat \<Rightarrow> (file_entry \<Rightarrow> file_entry) \<Rightarrow> 'a kernel_scheme \<Rightarrow> 'a kernel_scheme" where
  "on_file f g s = s\<lparr>fsk := upd_file f g (fsk s)\<rparr>"

abbreviation the_file :: "'a kernel_scheme \<Rightarrow> nat \<Rightarrow> file_entry" where
  "the_file s f \<equiv> ftable (fsk s) ! f"

subsection \<open>The file table\<close>

definition filealloc :: "'a kernel_scheme \<Rightarrow> nat option \<times> 'a kernel_scheme" where
  "filealloc s =
     (case find_index (\<lambda>f. fref f = 0) (ftable (fsk s)) of
        None \<Rightarrow> (None, s)
      | Some f \<Rightarrow> (Some f, on_file f (\<lambda>p. p\<lparr>fref := 1\<rparr>) s))"

definition filedup :: "nat \<Rightarrow> 'a kernel_scheme \<Rightarrow> 'a kernel_scheme outcome" where
  "filedup f s =
     (if fref (the_file s f) < 1 then Panic ''filedup''
      else Ret (on_file f (\<lambda>p. p\<lparr>fref := fref p + 1\<rparr>) s))"

definition fileclose :: "nat \<Rightarrow> 'a kernel_scheme \<Rightarrow> 'a kernel_scheme outcome" where
  "fileclose f s =
     (if fref (the_file s f) < 1 then Panic ''fileclose''
      else
        let s = on_file f (\<lambda>p. p\<lparr>fref := fref p - 1\<rparr>) s in
        if fref (the_file s f) > 0 then Ret s
        else
          let ff = the_file s f;
              s = on_file f (\<lambda>p. p\<lparr>fref := 0, ftype := FD_NONE\<rparr>) s
          in case ftype ff of
               FD_PIPE \<Rightarrow> pipeclose (fpipe ff) (writable ff) s
             | FD_INODE \<Rightarrow> dofs (\<lambda>t. bindR (begin_op t) (\<lambda>t. bindR (iput (fip ff) t) end_op)) s
             | FD_NONE \<Rightarrow> Ret s)"

definition pipealloc :: "'a kernel_scheme \<Rightarrow> (int \<times> (nat \<times> nat) option \<times> 'a kernel_scheme) outcome" where
  "pipealloc s =
     (case filealloc s of
        (None, s) \<Rightarrow> Ret (-1, None, s)
      | (Some f0, s) \<Rightarrow>
          (case filealloc s of
             (None, s) \<Rightarrow> bindR (fileclose f0 s) (\<lambda>s. Ret (-1, None, s))
           | (Some f1, s) \<Rightarrow>
               let (p, s) = kalloc s in
               if p = 0 then
                 bindR (fileclose f0 s) (\<lambda>s. bindR (fileclose f1 s) (\<lambda>s. Ret (-1, None, s)))
               else
                 let s = upd_pipe p pipe_init s;
                     s = on_file f0 (\<lambda>x. x\<lparr>ftype := FD_PIPE, readable := True, writable := False, fpipe := p\<rparr>) s;
                     s = on_file f1 (\<lambda>x. x\<lparr>ftype := FD_PIPE, readable := False, writable := True, fpipe := p\<rparr>) s
                 in Ret (0, Some (f0, f1), s)))"

definition filestat :: "nat \<Rightarrow> 'a kernel_scheme \<Rightarrow> (int \<times> stat option \<times> 'a kernel_scheme) outcome" where
  "filestat f s =
     (if ftype (the_file s f) = FD_INODE then
        let ip = fip (the_file s f) in
        bindR (onfs (\<lambda>t. bindR (ilock ip t) (\<lambda>t. let st = stati ip t in
                 bindR (iunlock ip t) (\<lambda>t. Ret (st, t)))) s)
          (\<lambda>(st, s). Ret (0, Some st, s))
      else Ret (-1, None, s))"

subsection \<open>Reading and writing\<close>

text \<open>The end of \<^verbatim>\<open>fileread\<close> on an inode once \<^verbatim>\<open>readi\<close> has returned \<open>r\<close>.\<close>

definition advance :: "nat \<Rightarrow> int \<Rightarrow> 'a kernel_scheme \<Rightarrow> 'a kernel_scheme" where
  "advance f r s = (if r > 0 then on_file f (\<lambda>p. p\<lparr>foff := foff p + word_of_int r\<rparr>) s else s)"

text \<open>The console driver called by \<^verbatim>\<open>readi\<close>: the inode is unlocked while it runs.  When it sleeps, the
  rest of the call is left to the run after the wakeup.\<close>

definition console_read :: "nat \<Rightarrow> int \<Rightarrow> 'a kernel_scheme \<Rightarrow> (pipe_end \<times> u8 list \<times> 'a kernel_scheme) outcome" where
  "console_read ip n s =
     bindR (dofs (iunlock ip) s) (\<lambda>s.
     bindR (consoleread n s) (\<lambda>(e, xs, s).
       case e of
         Asleep \<Rightarrow> Ret (Asleep, xs, s)
       | Done r \<Rightarrow> bindR (dofs (ilock ip) s) (\<lambda>s. Ret (Done r, xs, s))))"

text \<open>\<^verbatim>\<open>readi\<close> as the kernel itself calls it; waiting for console input is \<open>Blocked\<close>.\<close>

definition readk :: "nat \<Rightarrow> u32 \<Rightarrow> u32 \<Rightarrow> 'a kernel_scheme \<Rightarrow> (int \<times> u8 list \<times> 'a kernel_scheme) outcome" where
  "readk ip off n s =
     bindR (onfs (readi ip off n) s) (\<lambda>(r, s).
       case r of
         Data c xs \<Rightarrow> Ret (c, xs, s)
       | Device m \<Rightarrow>
           if m = 1 then
             bindR (console_read ip (sint n) s) (\<lambda>(e, xs, s).
               case e of Done c \<Rightarrow> Ret (c, xs, s) | Asleep \<Rightarrow> Blocked)
           else Panic ''trap'')"

definition fileread :: "nat \<Rightarrow> int \<Rightarrow> 'a kernel_scheme \<Rightarrow> (pipe_end \<times> u8 list \<times> 'a kernel_scheme) outcome" where
  "fileread f n s =
     (let ff = the_file s f; ip = fip ff in
      if \<not> readable ff then Ret (Done (-1), [], s)
      else case ftype ff of
        FD_PIPE \<Rightarrow> piperead (fpipe ff) n s
      | FD_INODE \<Rightarrow>
          bindR (onfs (\<lambda>t. bindR (ilock ip t) (readi ip (foff ff) (word_of_int n))) s) (\<lambda>(r, s).
            bindR (case r of
                Data c xs \<Rightarrow> Ret (Done c, xs, s)
              | Device m \<Rightarrow> if m = 1 then console_read ip n s else Panic ''trap'')
            (\<lambda>(e, xs, s).
              case e of
                Asleep \<Rightarrow> Ret (Asleep, xs, s)
              | Done c \<Rightarrow> bindR (dofs (iunlock ip) (advance f c s)) (\<lambda>s. Ret (Done c, xs, s))))
      | FD_NONE \<Rightarrow> Panic ''fileread'')"

definition console_write :: "nat \<Rightarrow> u8 list \<Rightarrow> 'a kernel_scheme \<Rightarrow> (int \<times> 'a kernel_scheme) outcome" where
  "console_write ip bs s =
     bindR (dofs (iunlock ip) s) (\<lambda>s.
     bindR (consolewrite bs s) (\<lambda>(n, s).
     bindR (dofs (ilock ip) s) (\<lambda>s. Ret (n, s))))"

text \<open>\<open>max_write\<close> is \<^verbatim>\<open>max\<close> of \<^verbatim>\<open>filewrite\<close>; \<open>src\<close> are the bytes that are left.\<close>

definition max_write :: nat where
  "max_write = nat ((MAXOPBLOCKS - 1 - 1 - 2) div 2) * 512"

text \<open>The first component says whether all was written, \<^verbatim>\<open>i == n\<close>.\<close>

function write_chunks :: "nat \<Rightarrow> u8 list \<Rightarrow> 'a kernel_scheme \<Rightarrow> (bool \<times> 'a kernel_scheme) outcome" where
  "write_chunks f src s =
     (if src = [] then Ret (True, s)
      else
        let ff = the_file s f; ip = fip ff; chunk = take max_write src in
        bindR (onfs (\<lambda>t. bindR (begin_op t) (\<lambda>t. bindR (ilock ip t)
                 (writei ip chunk (foff ff) (of_nat (length chunk))))) s) (\<lambda>(r, s).
        bindR (case r of
            Data c _ \<Rightarrow> Ret (c, s)
          | Device m \<Rightarrow> if m = 1 then console_write ip chunk s else Panic ''trap'') (\<lambda>(c, s).
        bindR (dofs (\<lambda>t. bindR (iunlock ip t) end_op) (advance f c s)) (\<lambda>s.
          if c < 0 then Ret (False, s)
          else if c \<noteq> int (length chunk) then Panic ''short filewrite''
          else write_chunks f (drop max_write src) s))))"
  by pat_completeness auto
termination
  by (relation "measure (\<lambda>(f, src, s). length src)") (auto simp: max_write_def MAXOPBLOCKS_def)

declare write_chunks.simps [simp del]

definition filewrite :: "nat \<Rightarrow> (nat \<Rightarrow> u8) \<Rightarrow> int \<Rightarrow> 'a kernel_scheme \<Rightarrow>
    (pipe_end \<times> u8 list \<times> 'a kernel_scheme) outcome" where
  "filewrite f addr n s =
     (let ff = the_file s f in
      if \<not> writable ff then Ret (Done (-1), [], s)
      else case ftype ff of
        FD_PIPE \<Rightarrow> pipewrite (fpipe ff) addr n s
      | FD_INODE \<Rightarrow>
          if n < 0 then Ret (Done (-1), [], s)
          else bindR (write_chunks f (map addr [0..<nat n]) s) (\<lambda>(ok, s).
                 Ret (Done (if ok then n else -1), [], s))
      | FD_NONE \<Rightarrow> Panic ''filewrite'')"

end
