(* ===== verification/Process.thy ===== *)
theory Process
  imports File
begin

text \<open>
  Processes (\<^verbatim>\<open>proc.c\<close>, \<^verbatim>\<open>sysproc.c\<close>, \<^verbatim>\<open>pageswap.c\<close> and the argument fetching of \<^verbatim>\<open>syscall.c\<close>, in
  \<^verbatim>\<open>Assignment_3/cs236-xv6-mac\<close>): creation, growth, exit, wait, the choice of pages to swap and their
  return.  \<open>mach\<close> adds the tick counter and the table of swap slots to the kernel.  A trap frame is the 19 words
  at \<open>tf\<close>; a field is a word offset.
\<close>

record swap_slot =
  page_perm :: int
  is_free :: bool

record mach = kernel +
  ticks :: u32
  swap_slots :: "swap_slot list"

definition SWAP_SLOTS :: nat where "SWAP_SLOTS = 800"
definition SWAP_START :: u32 where "SWAP_START = 2"

definition set_name :: "u8 list \<Rightarrow> u8 list \<Rightarrow> u8 list" where
  "set_name old t = map (safestrcpy (chars old) (chars t) 16) [0..<16]"

definition tf_set :: "nat \<Rightarrow> u32 \<Rightarrow> u32 \<Rightarrow> 'a ksys_scheme \<Rightarrow> 'a ksys_scheme" where
  "tf_set i off w s = s\<lparr>mem := (mem s)(tf (ptable s ! i) + off := w)\<rparr>"

definition tf_get :: "nat \<Rightarrow> u32 \<Rightarrow> 'a ksys_scheme \<Rightarrow> u32" where
  "tf_get i off s = mem s (tf (ptable s ! i) + off)"

subsection \<open>The first process\<close>

definition userinit :: "u8 list \<Rightarrow> 'a kernel_scheme \<Rightarrow> 'a kernel_scheme outcome" where
  "userinit initcode s =
     (case allocproc s of
        (None, s) \<Rightarrow> Panic ''trap''
      | (Some i, s) \<Rightarrow>
          let s = s\<lparr>initproc := Some i\<rparr> in
          bindR (setupkvm s) (\<lambda>(pd, s).
            let s = upd_proc i (\<lambda>p. p\<lparr>pgdir := pd\<rparr>) s in
            if pd = 0 then Panic ''userinit: out of memory?''
            else bindR (inituvm pd initcode s) (\<lambda>s.
              let s = upd_proc i (\<lambda>p. p\<lparr>sz := PGSIZE\<rparr>) s;
                  s = s\<lparr>mem := fill_words (mem s) (tf (ptable s ! i)) 0 19\<rparr>;
                  s = tf_set i 60 27 s;
                  s = tf_set i 44 35 s;
                  s = tf_set i 40 35 s;
                  s = tf_set i 72 35 s;
                  s = tf_set i 64 0x200 s;
                  s = tf_set i 68 PGSIZE s;
                  s = tf_set i 56 0 s;
                  s = upd_proc i (\<lambda>p. p\<lparr>name := set_name (name p) (ascii ''initcode'')\<rparr>) s
              in bindR (namei None [slash] (replicate 14 0) (fsk s)) (\<lambda>(ip, t).
                   let s = upd_proc i (\<lambda>p. p\<lparr>cwd := ip\<rparr>) (s\<lparr>fsk := t\<rparr>)
                   in Ret (upd_proc i (\<lambda>p. p\<lparr>pstate := RUNNABLE\<rparr>) s)))))"

subsection \<open>Growing, forking\<close>

definition growproc :: "int \<Rightarrow> 'a ksys_scheme \<Rightarrow> (int \<times> 'a ksys_scheme) outcome" where
  "growproc n s =
     bindR (myproc s) (\<lambda>i.
       let p = ptable s ! i; z = sz p in
       bindR (if n > 0 then
                bindR (allocuvm (pgdir p) z (z + word_of_int n) s) (\<lambda>(z, s).
                  Ret (if z = 0 then None else Some z, s))
              else if n < 0 then
                bindR (deallocuvm (pgdir p) z (z + word_of_int n) s) (\<lambda>(z, s).
                  Ret (if z = 0 then None else Some z, s))
              else Ret (Some z, s))
         (\<lambda>(r, s). case r of
            None \<Rightarrow> Ret (-1, s)
          | Some z \<Rightarrow>
              bindR (switchuvm i (upd_proc i (\<lambda>p. p\<lparr>sz := z\<rparr>) s)) (\<lambda>s. Ret (0, s))))"

fun dup_files :: "nat \<Rightarrow> nat \<Rightarrow> nat \<Rightarrow> nat \<Rightarrow> 'a kernel_scheme \<Rightarrow> 'a kernel_scheme outcome" where
  "dup_files me np 0 fd s = Ret s"
| "dup_files me np (Suc n) fd s =
     (case ofile (ptable s ! me) ! fd of
        None \<Rightarrow> dup_files me np n (fd + 1) s
      | Some f \<Rightarrow>
          bindR (filedup f s) (\<lambda>s.
            dup_files me np n (fd + 1) (upd_proc np (\<lambda>p. p\<lparr>ofile := (ofile p)[fd := Some f]\<rparr>) s)))"

definition fork :: "'a kernel_scheme \<Rightarrow> (int \<times> 'a kernel_scheme) outcome" where
  "fork s =
     bindR (myproc s) (\<lambda>me.
       case allocproc s of
         (None, s) \<Rightarrow> Ret (-1, s)
       | (Some np, s) \<Rightarrow>
           bindR (copyuvm (pgdir (ptable s ! me)) (sz (ptable s ! me)) s) (\<lambda>(pd, s).
             let s = upd_proc np (\<lambda>p. p\<lparr>pgdir := pd\<rparr>) s in
             if pd = 0 then
               bindR (kfree (kstack (ptable s ! np)) s) (\<lambda>s.
                 Ret (-1, upd_proc np (\<lambda>p. p\<lparr>kstack := 0, pstate := UNUSED\<rparr>) s))
             else
               let s = upd_proc np (\<lambda>p. p\<lparr>sz := sz (ptable s ! me), parent := Some me\<rparr>) s;
                   s = s\<lparr>mem := copy_words (mem s) (tf (ptable s ! np)) (tf (ptable s ! me)) 19\<rparr>;
                   s = tf_set np 28 0 s
               in bindR (dup_files me np NOFILE 0 s) (\<lambda>s.
                    case cwd (ptable s ! me) of
                      None \<Rightarrow> Panic ''trap''
                    | Some ip \<Rightarrow>
                        let s = s\<lparr>fsk := idup ip (fsk s)\<rparr>;
                            s = upd_proc np (\<lambda>p. p\<lparr>cwd := Some ip\<rparr>) s;
                            s = upd_proc np (\<lambda>p. p\<lparr>name := set_name (name p) (name (ptable s ! me))\<rparr>) s;
                            s = upd_proc np (\<lambda>p. p\<lparr>pstate := RUNNABLE\<rparr>) s
                        in Ret (pid (ptable s ! np), s))))"

text \<open>\<open>forkret\<close> with \<open>first\<close> its static variable: the first process reads the superblock and recovers the log.\<close>

definition forkret_body :: "bool \<Rightarrow> 'a kernel_scheme \<Rightarrow> (bool \<times> 'a kernel_scheme) outcome" where
  "forkret_body first s =
     (if first then
        bindR (dofs (\<lambda>t. bindR (iinit ROOTDEV t) (initlog ROOTDEV)) s) (\<lambda>s. Ret (False, s))
      else Ret (False, s))"

subsection \<open>Exit and wait\<close>

fun close_files :: "nat \<Rightarrow> nat \<Rightarrow> nat \<Rightarrow> 'a kernel_scheme \<Rightarrow> 'a kernel_scheme outcome" where
  "close_files me 0 fd s = Ret s"
| "close_files me (Suc n) fd s =
     (case ofile (ptable s ! me) ! fd of
        None \<Rightarrow> close_files me n (fd + 1) s
      | Some f \<Rightarrow>
          bindR (fileclose f s) (\<lambda>s.
            close_files me n (fd + 1) (upd_proc me (\<lambda>p. p\<lparr>ofile := (ofile p)[fd := None]\<rparr>) s)))"

text \<open>The wakeup of a process's parent: \<^verbatim>\<open>wakeup1\<close> on its slot, or on the null pointer.\<close>

definition proc_chan :: "nat option \<Rightarrow> chan" where
  "proc_chan p = (case p of None \<Rightarrow> NoChan | Some i \<Rightarrow> ChanProc i)"

fun reparent :: "nat \<Rightarrow> nat \<Rightarrow> nat \<Rightarrow> 'a ksys_scheme \<Rightarrow> 'a ksys_scheme" where
  "reparent me 0 i s = s"
| "reparent me (Suc n) i s =
     reparent me n (i + 1)
       (if parent (ptable s ! i) = Some me then
          let s = upd_proc i (\<lambda>p. p\<lparr>parent := initproc s\<rparr>) s in
          if pstate (ptable s ! i) = ZOMBIE then wakeup1 (proc_chan (initproc s)) s else s
        else s)"

text \<open>\<open>exit\<close> up to its call of \<^verbatim>\<open>sched\<close>, from which it does not return.\<close>

definition exit :: "'a kernel_scheme \<Rightarrow> 'a kernel_scheme outcome" where
  "exit s =
     bindR (myproc s) (\<lambda>me.
       if initproc s = Some me then Panic ''init exiting''
       else bindR (close_files me NOFILE 0 s) (\<lambda>s.
         bindR (dofs begin_op s) (\<lambda>s.
         bindR (case cwd (ptable s ! me) of None \<Rightarrow> Panic ''trap'' | Some ip \<Rightarrow> dofs (iput ip) s) (\<lambda>s.
         bindR (dofs end_op s) (\<lambda>s.
           let s = upd_proc me (\<lambda>p. p\<lparr>cwd := None\<rparr>) s;
               s = wakeup1 (proc_chan (parent (ptable s ! me))) s;
               s = reparent me NPROC 0 s
           in Ret (upd_proc me (\<lambda>p. p\<lparr>pstate := ZOMBIE\<rparr>) s))))))"

text \<open>One turn of the outer loop of \<^verbatim>\<open>wait\<close>: it returns, or sleeps until a child exits.\<close>

definition wait_turn :: "'a ksys_scheme \<Rightarrow> (pipe_end \<times> 'a ksys_scheme) outcome" where
  "wait_turn s =
     bindR (myproc s) (\<lambda>me.
       case find_index (\<lambda>p. parent p = Some me \<and> pstate p = ZOMBIE) (ptable s) of
         Some i \<Rightarrow>
           let pd = pid (ptable s ! i) in
           bindR (kfree (kstack (ptable s ! i)) s) (\<lambda>s.
             let s = upd_proc i (\<lambda>p. p\<lparr>kstack := 0\<rparr>) s in
             bindR (freevm (pgdir (ptable s ! i)) s) (\<lambda>s.
               Ret (Done pd, upd_proc i (\<lambda>p. p\<lparr>pid := 0, parent := None, name := (name p)[0 := 0],
                      killed := False, pstate := UNUSED\<rparr>) s)))
       | None \<Rightarrow>
           if (\<forall>p \<in> set (ptable s). parent p \<noteq> Some me) \<or> killed (ptable s ! me) then Ret (Done (-1), s)
           else bindR (sleep (ChanProc me) s) (\<lambda>s. Ret (Asleep, s)))"

definition wait_resume :: "'a ksys_scheme \<Rightarrow> (pipe_end \<times> 'a ksys_scheme) outcome" where
  "wait_resume s = bindR (sleep_return s) wait_turn"

subsection \<open>Page selection and swap-in\<close>

definition init_swap :: "'a mach_scheme \<Rightarrow> 'a mach_scheme" where
  "init_swap s = s\<lparr>swap_slots := map (\<lambda>x. x\<lparr>is_free := True, page_perm := 0\<rparr>) (swap_slots s)\<rparr>"

text \<open>The scan for the process with the largest resident set, \<open>best\<close> and \<open>mx\<close> as in the code: at a tie
  \<^verbatim>\<open>best->pid\<close> is read, also when there is no best yet.\<close>

fun victim_from :: "proc list \<Rightarrow> nat \<Rightarrow> proc list \<Rightarrow> nat option \<Rightarrow> int \<Rightarrow> nat option outcome" where
  "victim_from tab i [] best mx = Ret best"
| "victim_from tab i (p # ps) best mx =
     (if \<not> listed (pstate p) \<or> \<not> pid p > 0 then victim_from tab (i + 1) ps best mx
      else if rss p > mx then victim_from tab (i + 1) ps (Some i) (rss p)
      else if rss p = mx then
        (case best of
           None \<Rightarrow> Panic ''trap''
         | Some b \<Rightarrow>
             if pid p < pid (tab ! b) then victim_from tab (i + 1) ps (Some i) (rss p)
             else victim_from tab (i + 1) ps best mx)
      else victim_from tab (i + 1) ps best mx)"

definition select_victim_proc :: "'a ksys_scheme \<Rightarrow> nat option outcome" where
  "select_victim_proc s = victim_from (ptable s) 0 (ptable s) None (-1)"

fun find_page :: "(u32 \<Rightarrow> bool) \<Rightarrow> nat \<Rightarrow> u32 \<Rightarrow> proc \<Rightarrow> 'a kmem_scheme \<Rightarrow> (u32 \<times> u32) option outcome" where
  "find_page Q 0 a p s = Blocked"
| "find_page Q (Suc n) a p s =
     (if a < sz p then
        let (pte, _) = walkpgdir (pgdir p) a False s in
        if pte \<noteq> 0 \<and> mem s pte AND PTE_P \<noteq> 0 \<and> Q (mem s pte) then Ret (Some (a, pte))
        else find_page Q n (a + 4096) p s
      else Ret None)"

text \<open>The page and its entry, \<open>(0, 0)\<close> when nothing is present.\<close>

definition select_victim_page :: "nat \<Rightarrow> 'a ksys_scheme \<Rightarrow> ((u32 \<times> u32) \<times> 'a ksys_scheme) outcome" where
  "select_victim_page i s =
     (let p = ptable s ! i; k = unat (sz p) div 4096 + 2 in
      bindR (find_page (\<lambda>e. e AND PTE_A = 0) k 0 p s) (\<lambda>r.
        case r of
          Some v \<Rightarrow> Ret (v, s)
        | None \<Rightarrow>
            bindR (find_page (\<lambda>e. True) k 0 p s) (\<lambda>r.
              case r of
                Some (a, pte) \<Rightarrow> Ret ((a, pte), s\<lparr>mem := (mem s)(pte := mem s pte AND NOT PTE_A)\<rparr>)
              | None \<Rightarrow> Ret ((0, 0), s))))"

fun read_page :: "nat \<Rightarrow> u32 \<Rightarrow> u32 \<Rightarrow> 'a kernel_scheme \<Rightarrow> 'a kernel_scheme outcome" where
  "read_page 0 blk a s = Ret s"
| "read_page (Suc n) blk a s =
     bindR (onfs (\<lambda>t. bindR (bread ROOTDEV blk t) (\<lambda>(i, t). let x = data (bufs t ! i) in
              bindR (brelse i t) (\<lambda>t. Ret (x, t)))) s)
       (\<lambda>(x, s). read_page n (blk + 1) (a + 512) (s\<lparr>mem := store_bytes (mem s) a x\<rparr>))"

definition swap_in_page :: "nat \<Rightarrow> u32 \<Rightarrow> 'a mach_scheme \<Rightarrow> 'a mach_scheme outcome" where
  "swap_in_page i va s =
     (let (pte, _) = walkpgdir (pgdir (ptable s ! i)) va False s in
      if pte = 0 \<or> mem s pte AND PTE_P \<noteq> 0 \<or> mem s pte = 0 then Panic ''swap_in_page: invalid page''
      else
        let slot = drop_bit 12 (PTE_ADDR (mem s pte)); (m, s) = kalloc s in
        if m = 0 then Panic ''swap_in_page: out of memory''
        else bindR (read_page 8 (SWAP_START + slot * 8) m s) (\<lambda>s.
          if unat slot \<ge> SWAP_SLOTS then Panic ''array overrun''
          else
            let perm = word_of_int (page_perm (swap_slots s ! unat slot));
                s = s\<lparr>mem := (mem s)(pte := V2P m OR perm OR PTE_P)\<rparr>;
                s = s\<lparr>swap_slots := (swap_slots s)[unat slot := (swap_slots s ! unat slot)\<lparr>is_free := True\<rparr>]\<rparr>
            in Ret (upd_proc i (\<lambda>p. p\<lparr>rss := rss p + 1\<rparr>) s)))"

subsection \<open>Loading a program segment\<close>

fun load_from :: "nat \<Rightarrow> u32 \<Rightarrow> u32 \<Rightarrow> nat \<Rightarrow> u32 \<Rightarrow> u32 \<Rightarrow> u32 \<Rightarrow> 'a kernel_scheme \<Rightarrow>
    (int \<times> 'a kernel_scheme) outcome" where
  "load_from 0 pd addr ip off szp i s = Blocked"
| "load_from (Suc k) pd addr ip off szp i s =
     (if i < szp then
        let (pte, s) = walkpgdir pd (addr + i) False s in
        if pte = 0 then Panic ''loaduvm: address should exist''
        else
          let pa = PTE_ADDR (mem s pte); n = (if szp - i < PGSIZE then szp - i else PGSIZE) in
          bindR (readk ip (off + i) n s) (\<lambda>(c, xs, s).
            let s = s\<lparr>mem := store_bytes (mem s) (P2V pa) xs\<rparr> in
            if word_of_int c \<noteq> n then Ret (-1, s)
            else load_from k pd addr ip off szp (i + PGSIZE) s)
      else Ret (0, s))"

definition loaduvm :: "u32 \<Rightarrow> u32 \<Rightarrow> nat \<Rightarrow> u32 \<Rightarrow> u32 \<Rightarrow> 'a kernel_scheme \<Rightarrow> (int \<times> 'a kernel_scheme) outcome" where
  "loaduvm pd addr ip off szp s =
     (if addr mod PGSIZE \<noteq> 0 then Panic ''loaduvm: addr must be page aligned''
      else load_from (unat szp div 4096 + 2) pd addr ip off szp 0 s)"

subsection \<open>System call arguments\<close>

text \<open>A user address as the CPU maps it.\<close>

definition vaddr :: "u32 \<Rightarrow> 'a ksys_scheme \<Rightarrow> u32 outcome" where
  "vaddr va s =
     (let (pte, _) = walkpgdir (P2V (hw_pgdir s)) va False s in
      if pte = 0 \<or> mem s pte AND PTE_P = 0 then Panic ''trap''
      else Ret (P2V (PTE_ADDR (mem s pte)) + va mod PGSIZE))"

definition vload :: "u32 \<Rightarrow> 'a ksys_scheme \<Rightarrow> u8 outcome" where
  "vload va s = bindR (vaddr va s) (\<lambda>a. Ret (load8 (mem s) a))"

fun vloads :: "nat \<Rightarrow> u32 \<Rightarrow> 'a ksys_scheme \<Rightarrow> u8 list outcome" where
  "vloads 0 va s = Ret []"
| "vloads (Suc n) va s = bindR (vload va s) (\<lambda>b. bindR (vloads n (va + 1) s) (\<lambda>bs. Ret (b # bs)))"

fun vstores :: "u32 \<Rightarrow> u8 list \<Rightarrow> 'a ksys_scheme \<Rightarrow> 'a ksys_scheme outcome" where
  "vstores va [] s = Ret s"
| "vstores va (b # bs) s =
     bindR (vaddr va s) (\<lambda>a. vstores (va + 1) bs (s\<lparr>mem := store8 (mem s) a b\<rparr>))"

text \<open>The results \<open>None\<close> are the returns of -1.\<close>

definition fetchint :: "u32 \<Rightarrow> 'a ksys_scheme \<Rightarrow> int option outcome" where
  "fetchint addr s =
     bindR (myproc s) (\<lambda>i.
       let z = sz (ptable s ! i) in
       if addr \<ge> z \<or> addr + 4 > z then Ret None
       else bindR (vloads 4 addr s) (\<lambda>bs. Ret (Some (sint (get32 bs 0)))))"

fun fetch_chars :: "nat \<Rightarrow> u32 \<Rightarrow> u32 \<Rightarrow> 'a ksys_scheme \<Rightarrow> u8 list option outcome" where
  "fetch_chars 0 p ep s = Ret None"
| "fetch_chars (Suc n) p ep s =
     (if p < ep then
        bindR (vload p s) (\<lambda>b.
          if b = 0 then Ret (Some [])
          else bindR (fetch_chars n (p + 1) ep s) (\<lambda>r. Ret (map_option ((#) b) r)))
      else Ret None)"

definition fetchstr :: "u32 \<Rightarrow> 'a ksys_scheme \<Rightarrow> u8 list option outcome" where
  "fetchstr addr s =
     bindR (myproc s) (\<lambda>i.
       let z = sz (ptable s ! i) in
       if addr \<ge> z then Ret None else fetch_chars (unat (z - addr)) addr z s)"

definition argint :: "int \<Rightarrow> 'a ksys_scheme \<Rightarrow> int option outcome" where
  "argint n s = bindR (myproc s) (\<lambda>i. fetchint (tf_get i 68 s + 4 + 4 * word_of_int n) s)"

definition argptr :: "int \<Rightarrow> int \<Rightarrow> 'a ksys_scheme \<Rightarrow> u32 option outcome" where
  "argptr n len s =
     bindR (myproc s) (\<lambda>i.
     bindR (argint n s) (\<lambda>r.
       case r of
         None \<Rightarrow> Ret None
       | Some a \<Rightarrow>
           let z = sz (ptable s ! i); p = word_of_int a in
           if len < 0 \<or> p \<ge> z \<or> p + word_of_int len > z then Ret None else Ret (Some p)))"

definition argstr :: "int \<Rightarrow> 'a ksys_scheme \<Rightarrow> u8 list option outcome" where
  "argstr n s =
     bindR (argint n s) (\<lambda>r. case r of None \<Rightarrow> Ret None | Some a \<Rightarrow> fetchstr (word_of_int a) s)"

end
