(* ===== verification/Sysfile.thy ===== *)
theory Sysfile
  imports Process
begin

text \<open>
  The system calls (\<^verbatim>\<open>sysfile.c\<close>, \<^verbatim>\<open>sysproc.c\<close>, \<^verbatim>\<open>exec.c\<close>, \<^verbatim>\<open>syscall.c\<close>) of
  \<^verbatim>\<open>cs236-xv6-mac\<close>.  A call returns an \<^verbatim>\<open>int\<close>, or is \<open>Asleep\<close> in the middle (reading and writing
  pipes and the console, \<^verbatim>\<open>wait\<close>, \<^verbatim>\<open>sleep\<close>).  Where a routine uses stack memory before writing it, the
  stack's bytes are taken as zeros.
\<close>

type_synonym ('a) call = "(int \<times> 'a) outcome"

definition O_RDONLY :: int where "O_RDONLY = 0"
definition O_WRONLY :: int where "O_WRONLY = 1"
definition O_RDWR :: int where "O_RDWR = 2"
definition O_CREATE :: int where "O_CREATE = 0x200"

subsection \<open>File descriptors\<close>

definition argfd :: "int \<Rightarrow> 'a kernel_scheme \<Rightarrow> (nat \<times> nat) option outcome" where
  "argfd n s =
     bindR (argint n s) (\<lambda>r.
     bindR (myproc s) (\<lambda>i.
       case r of
         None \<Rightarrow> Ret None
       | Some fd \<Rightarrow>
           if fd < 0 \<or> fd \<ge> int NOFILE then Ret None
           else Ret (map_option (\<lambda>f. (nat fd, f)) (ofile (ptable s ! i) ! nat fd))))"

definition set_fd :: "nat \<Rightarrow> nat \<Rightarrow> nat option \<Rightarrow> 'a ksys_scheme \<Rightarrow> 'a ksys_scheme" where
  "set_fd i fd f s = upd_proc i (\<lambda>p. p\<lparr>ofile := (ofile p)[fd := f]\<rparr>) s"

definition fdalloc :: "nat \<Rightarrow> 'a kernel_scheme \<Rightarrow> 'a kernel_scheme call" where
  "fdalloc f s =
     bindR (myproc s) (\<lambda>i.
       case find_index (\<lambda>x. x = None) (take NOFILE (ofile (ptable s ! i))) of
         None \<Rightarrow> Ret (-1, s)
       | Some fd \<Rightarrow> Ret (int fd, set_fd i fd (Some f) s))"

definition sys_dup :: "'a kernel_scheme \<Rightarrow> 'a kernel_scheme call" where
  "sys_dup s =
     bindR (argfd 0 s) (\<lambda>r. case r of
         None \<Rightarrow> Ret (-1, s)
       | Some (_, f) \<Rightarrow>
           bindR (fdalloc f s) (\<lambda>(fd, s).
             if fd < 0 then Ret (-1, s) else bindR (filedup f s) (\<lambda>s. Ret (fd, s))))"

text \<open>The three arguments of \<^verbatim>\<open>read\<close> and \<^verbatim>\<open>write\<close>: file, buffer and count.\<close>

definition rw_args :: "'a kernel_scheme \<Rightarrow> (nat \<times> u32 \<times> int) option outcome" where
  "rw_args s =
     bindR (argfd 0 s) (\<lambda>r. case r of None \<Rightarrow> Ret None | Some (_, f) \<Rightarrow>
     bindR (argint 2 s) (\<lambda>r. case r of None \<Rightarrow> Ret None | Some n \<Rightarrow>
     bindR (argptr 1 n s) (\<lambda>r. Ret (map_option (\<lambda>p. (f, p, n)) r))))"

definition sys_read :: "'a kernel_scheme \<Rightarrow> (pipe_end \<times> 'a kernel_scheme) outcome" where
  "sys_read s =
     bindR (rw_args s) (\<lambda>r. case r of
         None \<Rightarrow> Ret (Done (-1), s)
       | Some (f, p, n) \<Rightarrow>
           bindR (fileread f n s) (\<lambda>(e, xs, s). bindR (vstores p xs s) (\<lambda>s. Ret (e, s))))"

definition sys_write :: "'a kernel_scheme \<Rightarrow> (pipe_end \<times> u8 list \<times> 'a kernel_scheme) outcome" where
  "sys_write s =
     bindR (rw_args s) (\<lambda>r. case r of
         None \<Rightarrow> Ret (Done (-1), [], s)
       | Some (f, p, n) \<Rightarrow>
           bindR (vloads (nat n) p s) (\<lambda>bs. filewrite f (chars bs) n s))"

definition sys_close :: "'a kernel_scheme \<Rightarrow> 'a kernel_scheme call" where
  "sys_close s =
     bindR (argfd 0 s) (\<lambda>r. case r of
         None \<Rightarrow> Ret (-1, s)
       | Some (fd, f) \<Rightarrow>
           bindR (myproc s) (\<lambda>i. bindR (fileclose f (set_fd i fd None s)) (\<lambda>s. Ret (0, s))))"

text \<open>\<^verbatim>\<open>struct stat\<close> as its 20 bytes: \<^verbatim>\<open>type\<close>, padding, \<^verbatim>\<open>dev\<close>, \<^verbatim>\<open>ino\<close>, \<^verbatim>\<open>nlink\<close>, padding, \<^verbatim>\<open>size\<close>.  The padding
  keeps the bytes \<open>old\<close> that are there.\<close>

definition stat_bytes :: "stat \<Rightarrow> u8 list \<Rightarrow> u8 list" where
  "stat_bytes st old =
     put32 (put16 (put32 (put32 (put16 old 0 (st_type st)) 4 (st_dev st)) 8 (st_ino st)) 12 (st_nlink st)) 16 (st_size st)"

definition sys_fstat :: "'a kernel_scheme \<Rightarrow> 'a kernel_scheme call" where
  "sys_fstat s =
     bindR (argfd 0 s) (\<lambda>r. case r of None \<Rightarrow> Ret (-1, s) | Some (_, f) \<Rightarrow>
     bindR (argptr 1 20 s) (\<lambda>r. case r of None \<Rightarrow> Ret (-1, s) | Some p \<Rightarrow>
     bindR (filestat f s) (\<lambda>(c, st, s). case st of
         None \<Rightarrow> Ret (c, s)
       | Some st \<Rightarrow>
           bindR (vloads 20 p s) (\<lambda>old. bindR (vstores p (stat_bytes st old) s) (\<lambda>s. Ret (c, s))))))"

subsection \<open>Names\<close>

definition my_cwd :: "'a kernel_scheme \<Rightarrow> nat option outcome" where
  "my_cwd s = bindR (myproc s) (\<lambda>i. Ret (cwd (ptable s ! i)))"

text \<open>\<open>ending r\<close>: end the operation and return \<open>r\<close>.\<close>

definition ending :: "int \<Rightarrow> 'a kfs_scheme \<Rightarrow> (int \<times> 'a kfs_scheme) outcome" where
  "ending r t = bindR (end_op t) (\<lambda>t. Ret (r, t))"

definition zname :: "u8 list" where "zname = replicate 14 0"

definition link_bad :: "nat \<Rightarrow> kfs \<Rightarrow> (int \<times> kfs) outcome" where
  "link_bad ip t =
     bindR (ilock ip t) (\<lambda>t.
     bindR (iupdate ip (upd_inode ip (\<lambda>p. p\<lparr>nlink := nlink p - 1\<rparr>) t)) (\<lambda>t.
     bindR (iunlockput ip t) (ending (-1))))"

definition link_body :: "nat option \<Rightarrow> u8 list \<Rightarrow> u8 list \<Rightarrow> kfs \<Rightarrow> (int \<times> kfs) outcome" where
  "link_body wd old new t =
     bindR (begin_op t) (\<lambda>t.
     bindR (namei wd old zname t) (\<lambda>(r, t). case r of None \<Rightarrow> ending (-1) t | Some ip \<Rightarrow>
     bindR (ilock ip t) (\<lambda>t.
       if itype (inodes t ! ip) = T_DIR then bindR (iunlockput ip t) (ending (-1))
       else
         bindR (iupdate ip (upd_inode ip (\<lambda>p. p\<lparr>nlink := nlink p + 1\<rparr>) t)) (\<lambda>t.
         bindR (iunlock ip t) (\<lambda>t.
         bindR (nameiparent wd new zname t) (\<lambda>(r, nm, t). case r of None \<Rightarrow> link_bad ip t | Some dp \<Rightarrow>
         bindR (ilock dp t) (\<lambda>t.
         bindR (if idev (inodes t ! dp) \<noteq> idev (inodes t ! ip) then Ret (-1, t)
                else dirlink dp nm (inum (inodes t ! ip)) (replicate 16 0) t) (\<lambda>(c, t).
         bindR (iunlockput dp t) (\<lambda>t.
           if c < 0 then link_bad ip t
           else bindR (iput ip t) (ending 0)))))))))) "

definition sys_link :: "'a kernel_scheme \<Rightarrow> 'a kernel_scheme call" where
  "sys_link s =
     bindR (argstr 0 s) (\<lambda>r. case r of None \<Rightarrow> Ret (-1, s) | Some old \<Rightarrow>
     bindR (argstr 1 s) (\<lambda>r. case r of None \<Rightarrow> Ret (-1, s) | Some new \<Rightarrow>
     bindR (my_cwd s) (\<lambda>wd. onfs (link_body wd old new) s)))"

fun dir_empty_from :: "nat \<Rightarrow> nat \<Rightarrow> u32 \<Rightarrow> 'a fssys_scheme \<Rightarrow> (bool \<times> 'a fssys_scheme) outcome" where
  "dir_empty_from 0 dp off s = Blocked"
| "dir_empty_from (Suc k) dp off s =
     (if off < isize (inodes s ! dp) then
        bindR (readi dp off 16 s) (\<lambda>(r, s).
          case r of
            Data c de \<Rightarrow>
              if c \<noteq> 16 then Panic ''isdirempty: readi''
              else if get16 de 0 \<noteq> 0 then Ret (False, s)
              else dir_empty_from k dp (off + 16) s
          | Device _ \<Rightarrow> Panic ''isdirempty: readi'')
      else Ret (True, s))"

definition isdirempty :: "nat \<Rightarrow> 'a fssys_scheme \<Rightarrow> (bool \<times> 'a fssys_scheme) outcome" where
  "isdirempty dp s = dir_empty_from (unat (isize (inodes s ! dp)) div 16 + 2) dp 32 s"

definition unlink_bad :: "nat \<Rightarrow> kfs \<Rightarrow> (int \<times> kfs) outcome" where
  "unlink_bad dp t = bindR (iunlockput dp t) (ending (-1))"

definition unlink_body :: "nat option \<Rightarrow> u8 list \<Rightarrow> kfs \<Rightarrow> (int \<times> kfs) outcome" where
  "unlink_body wd path t =
     bindR (begin_op t) (\<lambda>t.
     bindR (nameiparent wd path zname t) (\<lambda>(r, nm, t). case r of None \<Rightarrow> ending (-1) t | Some dp \<Rightarrow>
     bindR (ilock dp t) (\<lambda>t.
       if namecmp nm [46, 0] = 0 \<or> namecmp nm [46, 46, 0] = 0 then unlink_bad dp t
       else bindR (dirlookup dp nm t) (\<lambda>(r, t). case r of None \<Rightarrow> unlink_bad dp t | Some (ip, off) \<Rightarrow>
         bindR (ilock ip t) (\<lambda>t.
           if sint (nlink (inodes t ! ip)) < 1 then Panic ''unlink: nlink < 1''
           else bindR (if itype (inodes t ! ip) = T_DIR then isdirempty ip t else Ret (True, t)) (\<lambda>(e, t).
             if \<not> e then bindR (iunlockput ip t) (unlink_bad dp)
             else bindR (writei dp (replicate 16 0) off 16 t) (\<lambda>(w, t).
               if w \<noteq> Data 16 [] then Panic ''unlink: writei''
               else
                 bindR (if itype (inodes t ! ip) = T_DIR
                        then iupdate dp (upd_inode dp (\<lambda>p. p\<lparr>nlink := nlink p - 1\<rparr>) t) else Ret t) (\<lambda>t.
                 bindR (iunlockput dp t) (\<lambda>t.
                 bindR (iupdate ip (upd_inode ip (\<lambda>p. p\<lparr>nlink := nlink p - 1\<rparr>) t)) (\<lambda>t.
                 bindR (iunlockput ip t) (ending 0))))))))))) "

definition sys_unlink :: "'a kernel_scheme \<Rightarrow> 'a kernel_scheme call" where
  "sys_unlink s =
     bindR (argstr 0 s) (\<lambda>r. case r of None \<Rightarrow> Ret (-1, s) | Some path \<Rightarrow>
     bindR (my_cwd s) (\<lambda>wd. onfs (unlink_body wd path) s))"

definition create :: "nat option \<Rightarrow> u8 list \<Rightarrow> u16 \<Rightarrow> u16 \<Rightarrow> u16 \<Rightarrow> 'a fssys_scheme \<Rightarrow>
    (nat option \<times> 'a fssys_scheme) outcome" where
  "create wd path ty mj mn t =
     bindR (nameiparent wd path zname t) (\<lambda>(r, nm, t). case r of None \<Rightarrow> Ret (None, t) | Some dp \<Rightarrow>
     bindR (ilock dp t) (\<lambda>t.
     bindR (dirlookup dp nm t) (\<lambda>(r, t). case r of
         Some (ip, _) \<Rightarrow>
           bindR (iunlockput dp t) (\<lambda>t.
           bindR (ilock ip t) (\<lambda>t.
             if ty = T_FILE \<and> itype (inodes t ! ip) = T_FILE then Ret (Some ip, t)
             else bindR (iunlockput ip t) (\<lambda>t. Ret (None, t))))
       | None \<Rightarrow>
           bindR (ialloc (idev (inodes t ! dp)) ty t) (\<lambda>(ip, t).
           bindR (ilock ip t) (\<lambda>t.
           bindR (iupdate ip (upd_inode ip (\<lambda>p. p\<lparr>major := mj, minor := mn, nlink := 1\<rparr>) t)) (\<lambda>t.
           bindR (if ty = T_DIR then
                    bindR (iupdate dp (upd_inode dp (\<lambda>p. p\<lparr>nlink := nlink p + 1\<rparr>) t)) (\<lambda>t.
                    bindR (dirlink ip [46] (inum (inodes t ! ip)) (replicate 16 0) t) (\<lambda>(c, t).
                      if c < 0 then Panic ''create dots''
                      else bindR (dirlink ip [46, 46] (inum (inodes t ! dp)) (replicate 16 0) t) (\<lambda>(c, t).
                        if c < 0 then Panic ''create dots'' else Ret t)))
                  else Ret t) (\<lambda>t.
           bindR (dirlink dp nm (inum (inodes t ! ip)) (replicate 16 0) t) (\<lambda>(c, t).
             if c < 0 then Panic ''create: dirlink''
             else bindR (iunlockput dp t) (\<lambda>t. Ret (Some ip, t)))))))))) "

definition open_inode :: "nat option \<Rightarrow> u8 list \<Rightarrow> int \<Rightarrow> kfs \<Rightarrow> (nat option \<times> kfs) outcome" where
  "open_inode wd path omode t =
     bindR (begin_op t) (\<lambda>t.
       if omode AND O_CREATE \<noteq> 0 then
         bindR (create wd path T_FILE 0 0 t) (\<lambda>(r, t).
           if r = None then bindR (end_op t) (\<lambda>t. Ret (None, t)) else Ret (r, t))
       else
         bindR (namei wd path zname t) (\<lambda>(r, t). case r of
             None \<Rightarrow> bindR (end_op t) (\<lambda>t. Ret (None, t))
           | Some ip \<Rightarrow>
               bindR (ilock ip t) (\<lambda>t.
                 if itype (inodes t ! ip) = T_DIR \<and> omode \<noteq> O_RDONLY then
                   bindR (iunlockput ip t) (\<lambda>t. bindR (end_op t) (\<lambda>t. Ret (None, t)))
                 else Ret (Some ip, t))))"

definition sys_open :: "'a kernel_scheme \<Rightarrow> 'a kernel_scheme call" where
  "sys_open s =
     bindR (argstr 0 s) (\<lambda>r. case r of None \<Rightarrow> Ret (-1, s) | Some path \<Rightarrow>
     bindR (argint 1 s) (\<lambda>r. case r of None \<Rightarrow> Ret (-1, s) | Some omode \<Rightarrow>
     bindR (my_cwd s) (\<lambda>wd.
     bindR (onfs (open_inode wd path omode) s) (\<lambda>(r, s). case r of None \<Rightarrow> Ret (-1, s) | Some ip \<Rightarrow>
       let fail = (\<lambda>s. onfs (\<lambda>t. bindR (iunlockput ip t) (ending (-1))) s) in
       case filealloc s of
         (None, s) \<Rightarrow> fail s
       | (Some f, s) \<Rightarrow>
           bindR (fdalloc f s) (\<lambda>(fd, s).
             if fd < 0 then bindR (fileclose f s) fail
             else
               bindR (dofs (\<lambda>t. bindR (iunlock ip t) end_op) s) (\<lambda>s.
                 Ret (fd, on_file f (\<lambda>x. x\<lparr>ftype := FD_INODE, fip := ip, foff := 0,
                   readable := (omode AND O_WRONLY = 0),
                   writable := (omode AND O_WRONLY \<noteq> 0 \<or> omode AND O_RDWR \<noteq> 0)\<rparr>) s)))))))"

text \<open>\<open>mkdir\<close> and \<open>mknod\<close> begin the operation before they fetch their arguments.\<close>

definition made :: "nat option \<Rightarrow> kfs \<Rightarrow> (int \<times> kfs) outcome" where
  "made r t = (case r of None \<Rightarrow> ending (-1) t | Some ip \<Rightarrow> bindR (iunlockput ip t) (ending 0))"

definition sys_mkdir :: "'a kernel_scheme \<Rightarrow> 'a kernel_scheme call" where
  "sys_mkdir s =
     bindR (dofs begin_op s) (\<lambda>s.
     bindR (argstr 0 s) (\<lambda>r. case r of None \<Rightarrow> onfs (ending (-1)) s | Some path \<Rightarrow>
     bindR (my_cwd s) (\<lambda>wd. onfs (\<lambda>t. bindR (create wd path T_DIR 0 0 t) (\<lambda>(r, t). made r t)) s)))"

definition sys_mknod :: "'a kernel_scheme \<Rightarrow> 'a kernel_scheme call" where
  "sys_mknod s =
     bindR (dofs begin_op s) (\<lambda>s.
     bindR (argstr 0 s) (\<lambda>r. case r of None \<Rightarrow> onfs (ending (-1)) s | Some path \<Rightarrow>
     bindR (argint 1 s) (\<lambda>r. case r of None \<Rightarrow> onfs (ending (-1)) s | Some mj \<Rightarrow>
     bindR (argint 2 s) (\<lambda>r. case r of None \<Rightarrow> onfs (ending (-1)) s | Some mn \<Rightarrow>
     bindR (my_cwd s) (\<lambda>wd.
       onfs (\<lambda>t. bindR (create wd path T_DEV (word_of_int mj) (word_of_int mn) t) (\<lambda>(r, t). made r t)) s)))))"

definition chdir_body :: "nat option \<Rightarrow> u8 list \<Rightarrow> kfs \<Rightarrow> (nat option \<times> kfs) outcome" where
  "chdir_body wd path t =
     bindR (namei wd path zname t) (\<lambda>(r, t). case r of
         None \<Rightarrow> bindR (end_op t) (\<lambda>t. Ret (None, t))
       | Some ip \<Rightarrow>
           bindR (ilock ip t) (\<lambda>t.
             if itype (inodes t ! ip) \<noteq> T_DIR then
               bindR (iunlockput ip t) (\<lambda>t. bindR (end_op t) (\<lambda>t. Ret (None, t)))
             else
               bindR (iunlock ip t) (\<lambda>t.
               bindR (case wd of None \<Rightarrow> Panic ''trap'' | Some d \<Rightarrow> iput d t) (\<lambda>t.
               bindR (end_op t) (\<lambda>t. Ret (Some ip, t))))))"

definition sys_chdir :: "'a kernel_scheme \<Rightarrow> 'a kernel_scheme call" where
  "sys_chdir s =
     bindR (dofs begin_op s) (\<lambda>s.
     bindR (argstr 0 s) (\<lambda>r. case r of None \<Rightarrow> onfs (ending (-1)) s | Some path \<Rightarrow>
     bindR (my_cwd s) (\<lambda>wd.
     bindR (onfs (chdir_body wd path) s) (\<lambda>(r, s). case r of
         None \<Rightarrow> Ret (-1, s)
       | Some ip \<Rightarrow>
           bindR (myproc s) (\<lambda>i. Ret (0, upd_proc i (\<lambda>p. p\<lparr>cwd := Some ip\<rparr>) s))))))"

definition sys_pipe :: "'a kernel_scheme \<Rightarrow> 'a kernel_scheme call" where
  "sys_pipe s =
     bindR (argptr 0 8 s) (\<lambda>r. case r of None \<Rightarrow> Ret (-1, s) | Some fdp \<Rightarrow>
     bindR (pipealloc s) (\<lambda>(_, r, s). case r of None \<Rightarrow> Ret (-1, s) | Some (rfile, wfile) \<Rightarrow>
     bindR (myproc s) (\<lambda>i.
       let fail = (\<lambda>s. bindR (fileclose rfile s) (\<lambda>s. bindR (fileclose wfile s) (\<lambda>s. Ret (-1, s)))) in
       bindR (fdalloc rfile s) (\<lambda>(fd0, s).
         if fd0 < 0 then fail s
         else bindR (fdalloc wfile s) (\<lambda>(fd1, s).
           if fd1 < 0 then fail (set_fd i (nat fd0) None s)
           else bindR (vstores fdp (put32 (put32 (replicate 8 0) 0 (word_of_int fd0)) 4 (word_of_int fd1)) s)
             (\<lambda>s. Ret (0, s)))))))"

end
