(* ===== verification/Syscall.thy ===== *)
theory Syscall
  imports Sysfile
begin

text \<open>
  Program loading (\<^verbatim>\<open>exec.c\<close>, \<^verbatim>\<open>elf.h\<close>), the process system calls (\<^verbatim>\<open>sysproc.c\<close>) and the
  dispatcher (\<^verbatim>\<open>syscall.c\<close>).  Where \<^verbatim>\<open>exec\<close> jumps to \<open>bad\<close> a step returns \<open>None\<close>.
\<close>

definition MAXARG :: nat where "MAXARG = 32"
definition ELF_MAGIC :: u32 where "ELF_MAGIC = 0x464C457F"
definition ELF_PROG_LOAD :: u32 where "ELF_PROG_LOAD = 1"

record elfhdr =
  e_magic :: u32
  e_entry :: u32
  e_phoff :: u32
  e_phnum :: u16

record proghdr =
  p_type :: u32
  p_off :: u32
  p_vaddr :: u32
  p_filesz :: u32
  p_memsz :: u32

definition get_elfhdr :: "u8 list \<Rightarrow> elfhdr" where
  "get_elfhdr x = \<lparr>e_magic = get32 x 0, e_entry = get32 x 24, e_phoff = get32 x 28, e_phnum = get16 x 44\<rparr>"

definition get_proghdr :: "u8 list \<Rightarrow> proghdr" where
  "get_proghdr x = \<lparr>p_type = get32 x 0, p_off = get32 x 4, p_vaddr = get32 x 8, p_filesz = get32 x 16,
     p_memsz = get32 x 20\<rparr>"

subsection \<open>Loading a program\<close>

text \<open>The loop over the program headers with \<open>n\<close> of them to go, the next one at \<open>off\<close>; \<open>z\<close> is the size
  of the new address space so far.\<close>

fun load_segments :: "nat \<Rightarrow> u32 \<Rightarrow> nat \<Rightarrow> u32 \<Rightarrow> u32 \<Rightarrow> 'a kernel_scheme \<Rightarrow>
    (u32 option \<times> 'a kernel_scheme) outcome" where
  "load_segments ip pd 0 off z s = Ret (Some z, s)"
| "load_segments ip pd (Suc n) off z s =
     bindR (readk ip off 32 s) (\<lambda>(c, xs, s).
       let ph = get_proghdr xs in
       if c \<noteq> 32 then Ret (None, s)
       else if p_type ph \<noteq> ELF_PROG_LOAD then load_segments ip pd n (off + 32) z s
       else if p_memsz ph < p_filesz ph then Ret (None, s)
       else if p_vaddr ph + p_memsz ph < p_vaddr ph then Ret (None, s)
       else bindR (allocuvm pd z (p_vaddr ph + p_memsz ph) s) (\<lambda>(z, s).
         if z = 0 then Ret (None, s)
         else if p_vaddr ph mod PGSIZE \<noteq> 0 then Ret (None, s)
         else bindR (loaduvm pd (p_vaddr ph) ip (p_off ph) (p_filesz ph) s) (\<lambda>(r, s).
           if r < 0 then Ret (None, s) else load_segments ip pd n (off + 32) z s)))"

text \<open>The argument strings, each with its NUL, below \<open>sp\<close>; \<open>us\<close> are the entries of \<^verbatim>\<open>ustack\<close> from 3 on.\<close>

fun push_args :: "u32 \<Rightarrow> u8 list list \<Rightarrow> u32 \<Rightarrow> u32 list \<Rightarrow> 'a ksys_scheme \<Rightarrow>
    ((u32 \<times> u32 list) option \<times> 'a ksys_scheme) outcome" where
  "push_args pd [] sp us s = Ret (Some (sp, us), s)"
| "push_args pd (x # xs) sp us s =
     (if length us \<ge> MAXARG then Ret (None, s)
      else
        let sp = (sp - (of_nat (length x) + 1)) AND NOT 3 in
        bindR (copyout pd sp (x @ [0]) s) (\<lambda>(r, s).
          if r < 0 then Ret (None, s) else push_args pd xs sp (us @ [sp]) s))"

definition word_bytes :: "u32 list \<Rightarrow> u8 list" where
  "word_bytes ws = concat (map (put32 (replicate 4 0) 0) ws)"

definition last_elem :: "u8 list \<Rightarrow> u8 list" where
  "last_elem path = rev (takeWhile (\<lambda>c. c \<noteq> slash) (rev path))"

text \<open>The stack of the new program from the top of its address space down: what \<^verbatim>\<open>exec\<close> does between the
  loading and the commit.  The result is the size and the stack pointer.\<close>

definition build_stack :: "u32 \<Rightarrow> u32 \<Rightarrow> u8 list list \<Rightarrow> 'a ksys_scheme \<Rightarrow>
    ((u32 \<times> u32) option \<times> 'a ksys_scheme) outcome" where
  "build_stack pd z argv s =
     (let z = PGROUNDUP z in
      bindR (allocuvm pd z (z + 2 * PGSIZE) s) (\<lambda>(z, s).
        if z = 0 then Ret (None, s)
        else bindR (clearpteu pd (z - 2 * PGSIZE) s) (\<lambda>s.
        bindR (push_args pd argv z [] s) (\<lambda>(r, s). case r of
            None \<Rightarrow> Ret (None, s)
          | Some (sp, us) \<Rightarrow>
              let argc = of_nat (length us);
                  ustack = [0xffffffff, argc, sp - (argc + 1) * 4] @ us @ [0];
                  sp = sp - (3 + argc + 1) * 4
              in bindR (copyout pd sp (word_bytes ustack) s) (\<lambda>(r, s).
                   if r < 0 then Ret (None, s) else Ret (Some (z, sp), s))))))"

text \<open>The label \<open>bad\<close>, with the inode while it is locked.\<close>

definition exec_bad :: "u32 \<Rightarrow> nat option \<Rightarrow> 'a kernel_scheme \<Rightarrow> 'a kernel_scheme call" where
  "exec_bad pd ip s =
     bindR (if pd \<noteq> 0 then freevm pd s else Ret s) (\<lambda>s.
     bindR (case ip of None \<Rightarrow> Ret s | Some i \<Rightarrow> dofs (\<lambda>t. bindR (iunlockput i t) end_op) s) (\<lambda>s.
       Ret (-1, s)))"

text \<open>The commit to the new image: name, page directory, size, entry point and stack pointer.\<close>

definition exec_commit :: "nat \<Rightarrow> u8 list \<Rightarrow> u32 \<Rightarrow> u32 \<Rightarrow> u32 \<Rightarrow> u32 \<Rightarrow> 'a ksys_scheme \<Rightarrow> 'a ksys_scheme call" where
  "exec_commit i path pd z entry sp s =
     (let s = upd_proc i (\<lambda>p. p\<lparr>name := set_name (name p) (last_elem path)\<rparr>) s;
          oldpgdir = pgdir (ptable s ! i);
          s = upd_proc i (\<lambda>p. p\<lparr>pgdir := pd, sz := z\<rparr>) s;
          s = tf_set i 56 entry s;
          s = tf_set i 68 sp s
      in bindR (switchuvm i s) (\<lambda>s. bindR (freevm oldpgdir s) (\<lambda>s. Ret (0, s))))"

definition exec :: "u8 list \<Rightarrow> u8 list list \<Rightarrow> 'a kernel_scheme \<Rightarrow> 'a kernel_scheme call" where
  "exec path argv s =
     bindR (myproc s) (\<lambda>i.
     bindR (onfs (\<lambda>t. bindR (begin_op t) (namei (cwd (ptable s ! i)) path zname)) s) (\<lambda>(r, s).
       case r of
         None \<Rightarrow> bindR (dofs end_op s) (\<lambda>s. bindR (cputs (ascii ''exec: fail'' @ [10]) s) (\<lambda>s. Ret (-1, s)))
       | Some ip \<Rightarrow>
           bindR (dofs (ilock ip) s) (\<lambda>s.
           bindR (readk ip 0 52 s) (\<lambda>(c, xs, s).
             let elf = get_elfhdr xs in
             if c \<noteq> 52 then exec_bad 0 (Some ip) s
             else if e_magic elf \<noteq> ELF_MAGIC then exec_bad 0 (Some ip) s
             else bindR (setupkvm s) (\<lambda>(pd, s).
               if pd = 0 then exec_bad 0 (Some ip) s
               else bindR (load_segments ip pd (unat (e_phnum elf)) (e_phoff elf) 0 s) (\<lambda>(r, s). case r of
                   None \<Rightarrow> exec_bad pd (Some ip) s
                 | Some z \<Rightarrow>
                     bindR (dofs (\<lambda>t. bindR (iunlockput ip t) end_op) s) (\<lambda>s.
                     bindR (build_stack pd z argv s) (\<lambda>(r, s). case r of
                         None \<Rightarrow> exec_bad pd None s
                       | Some (z, sp) \<Rightarrow> exec_commit i path pd z (e_entry elf) sp s)))))))) "

text \<open>The vector of argument pointers at \<open>a\<close>, of at most \<open>n\<close> entries with its null.\<close>

fun fetch_args :: "nat \<Rightarrow> u32 \<Rightarrow> 'a ksys_scheme \<Rightarrow> u8 list list option outcome" where
  "fetch_args 0 a s = Ret None"
| "fetch_args (Suc n) a s =
     bindR (fetchint a s) (\<lambda>r. case r of None \<Rightarrow> Ret None | Some u \<Rightarrow>
       if u = 0 then Ret (Some [])
       else bindR (fetchstr (word_of_int u) s) (\<lambda>r. case r of None \<Rightarrow> Ret None | Some x \<Rightarrow>
         bindR (fetch_args n (a + 4) s) (\<lambda>r. Ret (map_option ((#) x) r))))"

definition sys_exec :: "'a kernel_scheme \<Rightarrow> 'a kernel_scheme call" where
  "sys_exec s =
     bindR (argstr 0 s) (\<lambda>r. case r of None \<Rightarrow> Ret (-1, s) | Some path \<Rightarrow>
     bindR (argint 1 s) (\<lambda>r. case r of None \<Rightarrow> Ret (-1, s) | Some uargv \<Rightarrow>
     bindR (fetch_args MAXARG (word_of_int uargv) s) (\<lambda>r. case r of
         None \<Rightarrow> Ret (-1, s)
       | Some argv \<Rightarrow> exec path argv s)))"

subsection \<open>The calls on processes\<close>

definition sys_fork :: "'a kernel_scheme \<Rightarrow> 'a kernel_scheme call" where
  "sys_fork s = fork s"

text \<open>\<open>exit\<close> does not come back: the process has given up the CPU for good.\<close>

definition sys_exit :: "'a kernel_scheme \<Rightarrow> (pipe_end \<times> 'a kernel_scheme) outcome" where
  "sys_exit s = bindR (exit s) (\<lambda>s. Ret (Asleep, s))"

definition sys_wait :: "'a ksys_scheme \<Rightarrow> (pipe_end \<times> 'a ksys_scheme) outcome" where
  "sys_wait s = wait_turn s"

definition sys_kill :: "'a ksys_scheme \<Rightarrow> 'a ksys_scheme call" where
  "sys_kill s = bindR (argint 0 s) (\<lambda>r. case r of None \<Rightarrow> Ret (-1, s) | Some n \<Rightarrow> Ret (kill n s))"

definition sys_getpid :: "'a ksys_scheme \<Rightarrow> 'a ksys_scheme call" where
  "sys_getpid s = bindR (myproc s) (\<lambda>i. Ret (pid (ptable s ! i), s))"

definition sys_sbrk :: "'a ksys_scheme \<Rightarrow> 'a ksys_scheme call" where
  "sys_sbrk s =
     bindR (argint 0 s) (\<lambda>r. case r of None \<Rightarrow> Ret (-1, s) | Some n \<Rightarrow>
     bindR (myproc s) (\<lambda>i.
       let addr = sint (sz (ptable s ! i)) in
       bindR (growproc n s) (\<lambda>(r, s). Ret (if r < 0 then -1 else addr, s))))"

text \<open>The loop of \<^verbatim>\<open>sys_sleep\<close>; C compares the unsigned ticks with \<open>n\<close> made unsigned.\<close>

definition sleep_turn :: "u32 \<Rightarrow> int \<Rightarrow> 'a mach_scheme \<Rightarrow> (pipe_end \<times> 'a mach_scheme) outcome" where
  "sleep_turn ticks0 n s =
     (if ticks s - ticks0 < word_of_int n then
        bindR (myproc s) (\<lambda>i.
          if killed (ptable s ! i) then Ret (Done (-1), s)
          else bindR (sleep ChanTicks s) (\<lambda>s. Ret (Asleep, s)))
      else Ret (Done 0, s))"

definition sys_sleep :: "'a mach_scheme \<Rightarrow> (pipe_end \<times> 'a mach_scheme) outcome" where
  "sys_sleep s =
     bindR (argint 0 s) (\<lambda>r. case r of None \<Rightarrow> Ret (Done (-1), s) | Some n \<Rightarrow> sleep_turn (ticks s) n s)"

definition sleep_resume :: "u32 \<Rightarrow> int \<Rightarrow> 'a mach_scheme \<Rightarrow> (pipe_end \<times> 'a mach_scheme) outcome" where
  "sleep_resume ticks0 n s = bindR (sleep_return s) (sleep_turn ticks0 n)"

definition sys_uptime :: "'a mach_scheme \<Rightarrow> 'a mach_scheme call" where
  "sys_uptime s = Ret (sint (ticks s), s)"

subsection \<open>The dispatcher\<close>

definition returns :: "'s call \<Rightarrow> (pipe_end \<times> 's) outcome" where
  "returns m = bindR m (\<lambda>(r, s). Ret (Done r, s))"

definition syscalls :: "int \<Rightarrow> 'a mach_scheme \<Rightarrow> (pipe_end \<times> 'a mach_scheme) outcome" where
  "syscalls num s =
     (if num = 1 then returns (sys_fork s)
      else if num = 2 then sys_exit s
      else if num = 3 then sys_wait s
      else if num = 4 then returns (sys_pipe s)
      else if num = 5 then sys_read s
      else if num = 6 then returns (sys_kill s)
      else if num = 7 then returns (sys_exec s)
      else if num = 8 then returns (sys_fstat s)
      else if num = 9 then returns (sys_chdir s)
      else if num = 10 then returns (sys_dup s)
      else if num = 11 then returns (sys_getpid s)
      else if num = 12 then returns (sys_sbrk s)
      else if num = 13 then sys_sleep s
      else if num = 14 then returns (sys_uptime s)
      else if num = 15 then returns (sys_open s)
      else if num = 16 then bindR (sys_write s) (\<lambda>(e, _, s). Ret (e, s))
      else if num = 17 then returns (sys_mknod s)
      else if num = 18 then returns (sys_unlink s)
      else if num = 19 then returns (sys_link s)
      else if num = 20 then returns (sys_mkdir s)
      else returns (sys_close s))"

text \<open>The result says whether the call has returned to its caller.\<close>

definition syscall :: "'a mach_scheme \<Rightarrow> (bool \<times> 'a mach_scheme) outcome" where
  "syscall s =
     bindR (myproc s) (\<lambda>i.
       let num = sint (tf_get i 28 s) in
       if num > 0 \<and> num < 22 then
         bindR (syscalls num s) (\<lambda>(e, s). case e of
             Done r \<Rightarrow> Ret (True, tf_set i 28 (word_of_int r) s)
           | Asleep \<Rightarrow> Ret (False, s))
       else
         bindR (cputs (kprintint (word_of_int (pid (ptable s ! i))) 10 True @ [32] @ cname (name (ptable s ! i)) @
             ascii '': unknown sys call '' @ kprintint (word_of_int num) 10 True @ [10]) s) (\<lambda>s.
           Ret (True, tf_set i 28 (-1) s)))"

end
