(* ===== verification/Textutil.thy ===== *)
theory Textutil
  imports Prelude
begin

text \<open>
  The text filters of user space (\<^verbatim>\<open>grep.c\<close>, \<^verbatim>\<open>wc.c\<close>).  A C string is the list of its bytes before
  the NUL, and a pointer into it the bytes that are left.  A filter is given what its calls of \<^verbatim>\<open>read\<close> return.
\<close>

abbreviation star :: u8 where "star \<equiv> 42"
abbreviation dot :: u8 where "dot \<equiv> 46"
abbreviation caret :: u8 where "caret \<equiv> 94"
abbreviation dollar :: u8 where "dollar \<equiv> 36"
abbreviation newline :: u8 where "newline \<equiv> 10"

subsection \<open>The matcher\<close>

function matchhere :: "u8 list \<Rightarrow> u8 list \<Rightarrow> bool" and matchstar :: "u8 \<Rightarrow> u8 list \<Rightarrow> u8 list \<Rightarrow> bool" where
  "matchhere re str =
     (if re = [] then True
      else if tl re \<noteq> [] \<and> hd (tl re) = star then matchstar (hd re) (tl (tl re)) str
      else if hd re = dollar \<and> tl re = [] then str = []
      else if str \<noteq> [] \<and> (hd re = dot \<or> hd re = hd str) then matchhere (tl re) (tl str)
      else False)"
| "matchstar c re str =
     (if matchhere re str then True
      else if str \<noteq> [] \<and> (hd str = c \<or> c = dot) then matchstar c re (tl str)
      else False)"
  by pat_completeness auto
termination
  by (relation "measure (\<lambda>x. case x of Inl (re, str) \<Rightarrow> length re + length str
        | Inr (c, re, str) \<Rightarrow> length re + length str + 1)")
     (auto simp: neq_Nil_conv)

declare matchhere.simps [simp del] matchstar.simps [simp del]

fun match_from :: "u8 list \<Rightarrow> u8 list \<Rightarrow> bool" where
  "match_from re [] = matchhere re []"
| "match_from re (c # str) = (matchhere re (c # str) \<or> match_from re str)"

definition match :: "u8 list \<Rightarrow> u8 list \<Rightarrow> bool" where
  "match re str =
     (if re \<noteq> [] \<and> hd re = caret then matchhere (tl re) str else match_from re str)"

subsection \<open>The lines of a buffer\<close>

text \<open>The inner loop of \<^verbatim>\<open>grep\<close> on the bytes from \<open>p\<close> to the NUL behind the buffer: what it writes, and
  the bytes behind the last newline.\<close>

function grep_lines :: "u8 list \<Rightarrow> u8 list \<Rightarrow> u8 list \<times> u8 list" where
  "grep_lines pat p =
     (let line = takeWhile (\<lambda>c. c \<noteq> newline \<and> c \<noteq> 0) p; q = drop (length line) p in
      if q \<noteq> [] \<and> hd q = newline then
        let (out, rest) = grep_lines pat (tl q) in
        ((if match pat line then line @ [newline] else []) @ out, rest)
      else ([], p))"
  by pat_completeness auto
termination by (relation "measure (\<lambda>(pat, p). length p)") (auto simp: neq_Nil_conv)

declare grep_lines.simps [simp del]

text \<open>The loop over the reads, with \<open>m\<close> the bytes kept in the buffer.\<close>

fun grep_from :: "u8 list \<Rightarrow> u8 list \<Rightarrow> u8 list list \<Rightarrow> u8 list" where
  "grep_from pat m [] = []"
| "grep_from pat m (chunk # chunks) =
     (if chunk = [] then []
      else
        let buf = m @ chunk; (out, p) = grep_lines pat buf in
        out @ grep_from pat (if length p = length buf then [] else p) chunks)"

definition grep :: "u8 list \<Rightarrow> u8 list list \<Rightarrow> u8 list" where
  "grep pat chunks = grep_from pat [] chunks"

subsection \<open>Counting\<close>

record counts =
  lines :: nat
  words :: nat
  bytes :: nat
  inword :: bool

definition blank :: "u8 \<Rightarrow> bool" where
  "blank b \<longleftrightarrow> b = 32 \<or> b = 13 \<or> b = 9 \<or> b = 10 \<or> b = 11"

definition wc_byte :: "u8 \<Rightarrow> counts \<Rightarrow> counts" where
  "wc_byte b k =
     (let k = k\<lparr>bytes := bytes k + 1\<rparr>;
          k = (if b = newline then k\<lparr>lines := lines k + 1\<rparr> else k)
      in if blank b then k\<lparr>inword := False\<rparr>
         else if \<not> inword k then k\<lparr>words := words k + 1, inword := True\<rparr> else k)"

fun wc_from :: "u8 list list \<Rightarrow> counts \<Rightarrow> counts" where
  "wc_from [] k = k"
| "wc_from (chunk # chunks) k = (if chunk = [] then k else wc_from chunks (fold wc_byte chunk k))"

definition wc :: "u8 list list \<Rightarrow> nat \<times> nat \<times> nat" where
  "wc chunks =
     (let k = wc_from chunks \<lparr>lines = 0, words = 0, bytes = 0, inword = False\<rparr>
      in (lines k, words k, bytes k))"

subsection \<open>What a pattern means\<close>

text \<open>A pattern is a sequence of characters, each once or any number of times, and an optional end of
  line; a dot stands for every character.\<close>

datatype item = One u8 | Many u8

fun items :: "u8 list \<Rightarrow> item list \<times> bool" where
  "items [] = ([], False)"
| "items [c] = (if c = dollar then ([], True) else ([One c], False))"
| "items (c # d # re) =
     (if d = star then (case items re of (its, e) \<Rightarrow> (Many c # its, e))
      else (case items (d # re) of (its, e) \<Rightarrow> (One c # its, e)))"

definition sym :: "u8 \<Rightarrow> u8 \<Rightarrow> bool" where
  "sym c b \<longleftrightarrow> c = dot \<or> c = b"

fun language :: "item list \<Rightarrow> u8 list set" where
  "language [] = {[]}"
| "language (One c # its) = {b # w | b w. sym c b \<and> w \<in> language its}"
| "language (Many c # its) = {v @ w | v w. (\<forall>b \<in> set v. sym c b) \<and> w \<in> language its}"

definition prefix_matches :: "u8 list \<Rightarrow> u8 list \<Rightarrow> bool" where
  "prefix_matches re str \<longleftrightarrow>
     (case items re of (its, e) \<Rightarrow> \<exists>w rest. str = w @ rest \<and> w \<in> language its \<and> (e \<longrightarrow> rest = []))"

lemma prefix_matches_Nil: "prefix_matches [] str"
  by (simp add: prefix_matches_def)

lemma prefix_matches_dollar: "prefix_matches [dollar] str \<longleftrightarrow> str = []"
  by (simp add: prefix_matches_def)

lemma prefix_matches_One:
  assumes "re = [] \<or> hd re \<noteq> star" and "re \<noteq> [] \<or> c \<noteq> dollar"
  shows "prefix_matches (c # re) str \<longleftrightarrow>
    (\<exists>b t. str = b # t \<and> sym c b \<and> prefix_matches re t)"
proof -
  obtain its e where i: "items re = (its, e)" by (rule prod.exhaust)
  have "items (c # re) = (One c # its, e)"
    using assms i by (cases re) auto
  then have "prefix_matches (c # re) str \<longleftrightarrow>
      (\<exists>w rest. str = w @ rest \<and> (\<exists>b v. w = b # v \<and> sym c b \<and> v \<in> language its) \<and> (e \<longrightarrow> rest = []))"
    by (simp add: prefix_matches_def)
  also have "\<dots> \<longleftrightarrow> (\<exists>b t. str = b # t \<and> sym c b \<and>
      (\<exists>w rest. t = w @ rest \<and> w \<in> language its \<and> (e \<longrightarrow> rest = [])))"
    by (metis append_Cons)
  finally show ?thesis by (simp add: prefix_matches_def i)
qed

lemma prefix_matches_Many:
  "prefix_matches (c # star # re) str \<longleftrightarrow>
   (\<exists>v t. str = v @ t \<and> (\<forall>b \<in> set v. sym c b) \<and> prefix_matches re t)"
proof -
  obtain its e where i: "items re = (its, e)" by (rule prod.exhaust)
  show ?thesis
  proof -
    have "prefix_matches (c # star # re) str \<longleftrightarrow>
        (\<exists>x rest. str = x @ rest \<and> (\<exists>v w. x = v @ w \<and> (\<forall>b \<in> set v. sym c b) \<and> w \<in> language its) \<and>
          (e \<longrightarrow> rest = []))"
      by (simp add: prefix_matches_def i)
    also have "\<dots> \<longleftrightarrow> (\<exists>v t. str = v @ t \<and> (\<forall>b \<in> set v. sym c b) \<and>
        (\<exists>w rest. t = w @ rest \<and> w \<in> language its \<and> (e \<longrightarrow> rest = [])))"
    proof
      assume "\<exists>x rest. str = x @ rest \<and> (\<exists>v w. x = v @ w \<and> (\<forall>b \<in> set v. sym c b) \<and> w \<in> language its) \<and>
          (e \<longrightarrow> rest = [])"
      then obtain v w rest where "str = v @ (w @ rest)" "\<forall>b \<in> set v. sym c b" "w \<in> language its"
          "e \<longrightarrow> rest = []" by (metis append.assoc)
      then show "\<exists>v t. str = v @ t \<and> (\<forall>b \<in> set v. sym c b) \<and>
        (\<exists>w rest. t = w @ rest \<and> w \<in> language its \<and> (e \<longrightarrow> rest = []))" by blast
    next
      assume "\<exists>v t. str = v @ t \<and> (\<forall>b \<in> set v. sym c b) \<and>
        (\<exists>w rest. t = w @ rest \<and> w \<in> language its \<and> (e \<longrightarrow> rest = []))"
      then obtain v w rest where "str = (v @ w) @ rest" "\<forall>b \<in> set v. sym c b" "w \<in> language its"
          "e \<longrightarrow> rest = []" by auto
      then show "\<exists>x rest. str = x @ rest \<and>
          (\<exists>v w. x = v @ w \<and> (\<forall>b \<in> set v. sym c b) \<and> w \<in> language its) \<and> (e \<longrightarrow> rest = [])" by blast
    qed
    finally show ?thesis by (simp add: prefix_matches_def i)
  qed
qed

lemma prefix_matches_Many_rec:
  "prefix_matches (c # star # re) str \<longleftrightarrow>
   prefix_matches re str \<or> (\<exists>b t. str = b # t \<and> sym c b \<and> prefix_matches (c # star # re) t)"
  (is "?l \<longleftrightarrow> ?r")
proof
  assume ?l
  then obtain v t where v: "str = v @ t" "\<forall>b \<in> set v. sym c b" "prefix_matches re t"
    by (auto simp: prefix_matches_Many)
  then show ?r
  proof (cases v)
    case Nil
    then show ?thesis using v by simp
  next
    case (Cons b v')
    then have "str = b # (v' @ t)" "sym c b" "prefix_matches (c # star # re) (v' @ t)"
      using v by (auto simp: prefix_matches_Many)
    then show ?thesis by blast
  qed
next
  assume ?r
  then show ?l
  proof
    assume "prefix_matches re str"
    then show ?l unfolding prefix_matches_Many by (metis append_Nil empty_iff list.set(1))
  next
    assume "\<exists>b t. str = b # t \<and> sym c b \<and> prefix_matches (c # star # re) t"
    then obtain b v t where "str = (b # v) @ t" "\<forall>b \<in> set (b # v). sym c b" "prefix_matches re t"
      by (auto simp: prefix_matches_Many)
    then show ?l unfolding prefix_matches_Many by blast
  qed
qed

lemma matchhere_Nil: "matchhere [] str"
  and matchhere_Cons: "matchhere (c # re) str =
     (if re \<noteq> [] \<and> hd re = star then matchstar c (tl re) str
      else if c = dollar \<and> re = [] then str = []
      else str \<noteq> [] \<and> (c = dot \<or> c = hd str) \<and> matchhere re (tl str))"
  by (simp_all add: matchhere.simps [of "[]"] matchhere.simps [of "c # re"])

lemma matchhere_iff: "matchhere re str \<longleftrightarrow> prefix_matches re str"
  and matchstar_iff: "matchstar c re str \<longleftrightarrow> prefix_matches (c # star # re) str"
proof (induction re str and c re str rule: matchhere_matchstar.induct)
  case (1 re str)
  show ?case
  proof (cases re)
    case Nil
    then show ?thesis by (simp add: matchhere_Nil prefix_matches_Nil)
  next
    case (Cons c re')
    show ?thesis
    proof (cases "re' \<noteq> [] \<and> hd re' = star")
      case True
      then obtain re'' where "re' = star # re''" by (cases re') auto
      then show ?thesis using 1(1) Cons by (simp add: matchhere_Cons)
    next
      case False
      show ?thesis
      proof (cases "c = dollar \<and> re' = []")
        case True
        then show ?thesis using Cons by (simp add: matchhere_Cons prefix_matches_dollar)
      next
        case nd: False
        have p: "prefix_matches re str \<longleftrightarrow> (\<exists>b t. str = b # t \<and> sym c b \<and> prefix_matches re' t)"
          using prefix_matches_One [of re' c str] False nd Cons by auto
        show ?thesis
        proof (cases str)
          case Nil
          then show ?thesis using p Cons False nd by (auto simp: matchhere_Cons)
        next
          case (Cons b t)
          then show ?thesis
            using p 1(2) \<open>re = c # re'\<close> False nd by (auto simp: matchhere_Cons sym_def)
        qed
      qed
    qed
  qed
next
  case (2 c re str)
  show ?case
  proof (cases str)
    case Nil
    then show ?thesis
      using 2(1) by (simp add: matchstar.simps [of c re "[]"] prefix_matches_Many_rec [of c re "[]"])
  next
    case (Cons b t)
    then show ?thesis
      using 2 prefix_matches_Many_rec [of c re "b # t"]
      by (auto simp: matchstar.simps [of c re "b # t"] sym_def)
  qed
qed

lemma match_from_iff: "match_from re str \<longleftrightarrow> (\<exists>pre suf. str = pre @ suf \<and> matchhere re suf)"
proof (induction str)
  case (Cons c str)
  show ?case by (simp add: Cons.IH Cons_eq_append_conv) blast
qed simp

text \<open>C35: the matcher of \<^verbatim>\<open>grep\<close> decides the meaning of its patterns: a text matches when some part of
  it, the beginning after a \<^verbatim>\<open>^\<close>, the end before a \<^verbatim>\<open>$\<close>, is in the language of the characters, dots and stars of the pattern.\<close>
theorem match_correct:
  "match re str \<longleftrightarrow>
    (if re \<noteq> [] \<and> hd re = caret then prefix_matches (tl re) str
     else \<exists>pre suf. str = pre @ suf \<and> prefix_matches re suf)"
  by (simp add: match_def match_from_iff matchhere_iff)

subsection \<open>Whole inputs\<close>

text \<open>The complete lines of an input and what is behind the last newline.\<close>

function cut_lines :: "u8 list \<Rightarrow> u8 list list \<times> u8 list" where
  "cut_lines p =
     (if newline \<in> set p
      then case cut_lines (tl (dropWhile (\<lambda>c. c \<noteq> newline) p)) of
             (ls, rest) \<Rightarrow> (takeWhile (\<lambda>c. c \<noteq> newline) p # ls, rest)
      else ([], p))"
  by pat_completeness auto
termination
proof (relation "measure length")
  fix p :: "u8 list"
  assume "newline \<in> set p"
  then have "dropWhile (\<lambda>c. c \<noteq> newline) p \<noteq> []" by (auto simp: dropWhile_eq_Nil_conv)
  moreover have "length (dropWhile (\<lambda>c. c \<noteq> newline) p) \<le> length p" by (rule length_dropWhile_le)
  ultimately show "(tl (dropWhile (\<lambda>c. c \<noteq> newline) p), p) \<in> measure length"
    by (cases "dropWhile (\<lambda>c. c \<noteq> newline) p") auto
qed simp

declare cut_lines.simps [simp del]

lemma cut_lines_line: "newline \<notin> set l \<Longrightarrow> cut_lines (l @ newline # p) = (l # fst (cut_lines p), snd (cut_lines p))"
  by (subst cut_lines.simps) (simp add: takeWhile_append dropWhile_append split: prod.split)

lemma cut_lines_none: "newline \<notin> set p \<Longrightarrow> cut_lines p = ([], p)"
  by (subst cut_lines.simps) simp

lemma first_line:
  assumes "newline \<in> set p"
  obtains l q where "p = l @ newline # q" and "newline \<notin> set l"
  using split_list_first [OF assms] by blast

definition matching :: "u8 list \<Rightarrow> u8 list list \<Rightarrow> u8 list" where
  "matching pat ls = concat (map (\<lambda>l. l @ [newline]) (filter (match pat) ls))"

lemma grep_lines_none:
  assumes "newline \<notin> set p"
  shows "grep_lines pat p = ([], p)"
proof -
  let ?q = "drop (length (takeWhile (\<lambda>c. c \<noteq> newline \<and> c \<noteq> 0) p)) p"
  have "newline \<notin> set ?q" using assms by (meson in_set_dropD)
  then have "\<not> (?q \<noteq> [] \<and> hd ?q = newline)" using hd_in_set [of ?q] by metis
  then show ?thesis by (subst grep_lines.simps, unfold Let_def) (rule if_not_P)
qed

lemma grep_lines_cut:
  "0 \<notin> set p \<Longrightarrow> grep_lines pat p = (matching pat (fst (cut_lines p)), snd (cut_lines p))"
proof (induction pat p rule: grep_lines.induct)
  case (1 pat p)
  have tw: "takeWhile (\<lambda>c. c \<noteq> newline \<and> c \<noteq> 0) p = takeWhile (\<lambda>c. c \<noteq> newline) p"
    using 1(2) by (induction p) auto
  show ?case
  proof (cases "newline \<in> set p")
    case True
    then obtain l q where p: "p = l @ newline # q" "newline \<notin> set l" by (rule first_line)
    then have "takeWhile (\<lambda>c. c \<noteq> newline) p = l" by (simp add: takeWhile_append)
    then have "grep_lines pat q = (matching pat (fst (cut_lines q)), snd (cut_lines q))"
      using 1 p tw by simp
    then show ?thesis
      using p tw by (subst grep_lines.simps)
        (simp add: Let_def cut_lines_line matching_def takeWhile_append)
  next
    case False
    then show ?thesis by (simp add: grep_lines_none cut_lines_none matching_def)
  qed
qed

lemma lines_induct [case_names none line]:
  assumes "\<And>p. newline \<notin> set p \<Longrightarrow> P p"
    and "\<And>l q. newline \<notin> set l \<Longrightarrow> P q \<Longrightarrow> P (l @ newline # q)"
  shows "P p"
proof (induction p rule: length_induct)
  case (1 p)
  show ?case
  proof (cases "newline \<in> set p")
    case True
    then obtain l q where "p = l @ newline # q" "newline \<notin> set l" by (rule first_line)
    then show ?thesis using assms(2) [of l q] 1 by simp
  qed (rule assms(1))
qed

lemma cut_lines_rest: "newline \<notin> set (snd (cut_lines p))"
  by (induction p rule: lines_induct) (simp_all add: cut_lines_none cut_lines_line)

lemma cut_lines_set: "set (snd (cut_lines p)) \<subseteq> set p"
  by (induction p rule: lines_induct) (auto simp: cut_lines_none cut_lines_line)

lemma cut_lines_length: "length (snd (cut_lines p)) \<le> length p"
  by (induction p rule: lines_induct) (simp_all add: cut_lines_none cut_lines_line)

lemma cut_lines_shorter: "newline \<in> set p \<Longrightarrow> length (snd (cut_lines p)) < length p"
  by (erule first_line) (simp add: cut_lines_line less_Suc_eq_le trans_le_add2 cut_lines_length)

lemma cut_lines_append: "cut_lines (p @ r) =
    (fst (cut_lines p) @ fst (cut_lines (snd (cut_lines p) @ r)), snd (cut_lines (snd (cut_lines p) @ r)))"
  by (induction p rule: lines_induct) (simp_all add: cut_lines_none cut_lines_line)

lemma grep_from_lines:
  assumes "\<forall>c \<in> set chunks. newline \<in> set c \<and> 0 \<notin> set c" and "newline \<notin> set m" and "0 \<notin> set m"
  shows "grep_from pat m chunks = matching pat (fst (cut_lines (m @ concat chunks)))"
  using assms
proof (induction chunks arbitrary: m)
  case Nil
  then show ?case by (simp add: cut_lines_none matching_def)
next
  case (Cons c chunks)
  let ?r = "snd (cut_lines (m @ c))"
  have g: "grep_lines pat (m @ c) = (matching pat (fst (cut_lines (m @ c))), ?r)"
    using Cons.prems by (intro grep_lines_cut) auto
  have sub: "set ?r \<subseteq> set (m @ c)" by (rule cut_lines_set)
  have "length ?r < length (m @ c)" using Cons.prems by (intro cut_lines_shorter) simp
  then have "grep_from pat m (c # chunks) = matching pat (fst (cut_lines (m @ c))) @ grep_from pat ?r chunks"
    using Cons.prems(1) g by (auto simp: Let_def)
  also have "grep_from pat ?r chunks = matching pat (fst (cut_lines (?r @ concat chunks)))"
    using Cons.prems sub by (intro Cons.IH) (auto simp: cut_lines_rest)
  finally show ?case
    using cut_lines_append [of "m @ c" "concat chunks"] by (simp add: matching_def)
qed

text \<open>C36: \<^verbatim>\<open>grep\<close> prints the complete lines of its input that match, each once and in order, wherever
  the reads cut the input, provided every read brings the end of a line and no NUL.\<close>
theorem grep_prints_matching_lines:
  assumes "\<forall>c \<in> set chunks. newline \<in> set c \<and> 0 \<notin> set c"
  shows "grep pat chunks = matching pat (fst (cut_lines (concat chunks)))"
  unfolding grep_def using grep_from_lines [OF assms, of "[]" pat] by simp

theorem grep_prints_matching_lines_witness:
  "grep [97, 42, 98, 36] [[99, 97, 98, 10, 98], [97, 10, 97, 98, 10]] = [99, 97, 98, 10, 97, 98, 10]"
proof -
  have "grep [97, 42, 98, 36] [[99, 97, 98, 10, 98], [97, 10, 97, 98, 10]] =
      matching [97, 42, 98, 36] (fst (cut_lines (concat [[99, 97, 98, 10, 98], [97, 10, 97, 98, 10]])))"
    by (rule grep_prints_matching_lines) simp
  then show ?thesis
    by (simp add: cut_lines.simps matching_def match_def matchhere_Cons matchhere_Nil matchstar.simps)
qed

text \<open>A read that brings no end of line while the buffer is empty is forgotten: \<^verbatim>\<open>p == buf\<close> holds, so
  the bytes that begin the next line are lost.\<close>
theorem grep_forgets_partial_read:
  assumes "chunk \<noteq> []" and "newline \<notin> set chunk"
  shows "grep pat (chunk # chunks) = grep pat chunks"
proof -
  have "grep_lines pat chunk = ([], chunk)" by (rule grep_lines_none [OF assms(2)])
  then show ?thesis using assms(1) by (simp add: grep_def)
qed

theorem grep_forgets_partial_read_witness:
  "grep [97, 98] [[97], [98, 10]] = grep [97, 98] [[98, 10]]"
  by (rule grep_forgets_partial_read) simp_all

subsection \<open>Counts\<close>

text \<open>The words of a text: its longest runs of bytes that are not blank.\<close>

function word_list :: "u8 list \<Rightarrow> u8 list list" where
  "word_list [] = []"
| "word_list (b # bs) =
     (if blank b then word_list bs
      else (b # takeWhile (\<lambda>c. \<not> blank c) bs) # word_list (dropWhile (\<lambda>c. \<not> blank c) bs))"
  by pat_completeness auto
termination
  by (relation "measure length") (auto simp: le_imp_less_Suc length_dropWhile_le)

lemma blank_newline: "blank newline"
  by (simp add: blank_def)

lemma wc_bytes:
  "fold wc_byte bs k = k\<lparr>bytes := bytes k + length bs, lines := lines k + count_list bs newline,
     words := words k + length (word_list (if inword k then dropWhile (\<lambda>c. \<not> blank c) bs else bs)),
     inword := (if bs = [] then inword k else \<not> blank (last bs))\<rparr>"
proof (induction bs arbitrary: k)
  case Nil
  show ?case by simp
next
  case (Cons b bs)
  let ?k = "wc_byte b k"
  have k: "?k = k\<lparr>bytes := bytes k + 1, lines := lines k + (if b = newline then 1 else 0),
      words := words k + (if blank b \<or> inword k then 0 else 1), inword := \<not> blank b\<rparr>"
    by (simp add: wc_byte_def Let_def)
  show ?case
    using blank_newline by (auto simp: Cons.IH k)
qed

lemma wc_from_concat: "[] \<notin> set chunks \<Longrightarrow> wc_from chunks k = fold wc_byte (concat chunks) k"
  by (induction chunks arbitrary: k) auto

text \<open>\<^verbatim>\<open>wc\<close> counts newlines, words and bytes of the whole input, also of words that two reads cut.\<close>
theorem wc_counts:
  assumes "[] \<notin> set chunks"
  shows "wc chunks = (count_list (concat chunks) newline, length (word_list (concat chunks)),
    length (concat chunks))"
  by (simp add: wc_def Let_def wc_from_concat [OF assms] wc_bytes)

theorem wc_counts_witness: "wc [[97, 32, 98], [99, 10]] = (1, 2, 5)"
  using wc_counts [of "[[97, 32, 98], [99, 10]]"] by (simp add: blank_def)

end
