(* ===== verification/Shell.thy ===== *)
theory Shell
  imports Prelude
begin

text \<open>
  The parser of the shell (\<^verbatim>\<open>sh.c\<close>).  A pointer into the line, with \<^verbatim>\<open>es\<close> its end, is the list of the
  bytes that are left; reading at \<^verbatim>\<open>es\<close> gives the NUL.  A token is the bytes between \<^verbatim>\<open>q\<close> and \<^verbatim>\<open>eq\<close>, which is the string
  that \<^verbatim>\<open>nulterminate\<close> makes of it.  The shell's \<^verbatim>\<open>panic\<close> ends the process that parses: it is \<open>Panic\<close>.
\<close>

datatype cmd =
    Exec "u8 list list"
  | Redir cmd "u8 list" int int
  | Pipe cmd cmd
  | List cmd cmd
  | Back cmd

definition MAXARGS :: nat where "MAXARGS = 10"
definition whitespace :: "u8 list" where "whitespace = [32, 9, 13, 10, 11]"
definition symbols :: "u8 list" where "symbols = [60, 124, 62, 38, 59, 40, 41]"

abbreviation sh_lt :: u8 where "sh_lt \<equiv> 60"
abbreviation sh_gt :: u8 where "sh_gt \<equiv> 62"
abbreviation sh_bar :: u8 where "sh_bar \<equiv> 124"
abbreviation sh_amp :: u8 where "sh_amp \<equiv> 38"
abbreviation sh_semi :: u8 where "sh_semi \<equiv> 59"
abbreviation sh_open :: u8 where "sh_open \<equiv> 40"
abbreviation sh_close :: u8 where "sh_close \<equiv> 41"

subsection \<open>Tokens\<close>

definition skip :: "u8 list \<Rightarrow> u8 list" where
  "skip s = dropWhile (\<lambda>c. c \<in> set whitespace) s"

definition plain :: "u8 \<Rightarrow> bool" where
  "plain c \<longleftrightarrow> c \<notin> set whitespace \<and> c \<notin> set symbols"

text \<open>\<^verbatim>\<open>gettoken\<close> returns the kind of token, the token and the rest of the line.\<close>

definition gettoken :: "u8 list \<Rightarrow> u8 \<times> u8 list \<times> u8 list" where
  "gettoken s =
     (let s = skip s in
      if s = [] then (0, [], [])
      else if hd s = sh_gt then
        (if tl s \<noteq> [] \<and> hd (tl s) = sh_gt then (43, take 2 s, skip (drop 2 s))
         else (sh_gt, take 1 s, skip (tl s)))
      else if hd s \<in> set symbols then (hd s, take 1 s, skip (tl s))
      else (97, takeWhile plain s, skip (dropWhile plain s)))"

definition peek :: "u8 list \<Rightarrow> u8 list \<Rightarrow> bool" where
  "peek s toks \<longleftrightarrow> skip s \<noteq> [] \<and> hd (skip s) \<in> set toks"

lemma skip_length: "length (skip s) \<le> length s"
  by (simp add: skip_def length_dropWhile_le)

lemma gettoken_length:
  assumes "gettoken s = (tok, w, r)"
  shows "length r \<le> length s" and "tok \<noteq> 0 \<Longrightarrow> length r < length s"
proof -
  have k: "length (skip t) \<le> length t" for t by (rule skip_length)
  show "length r \<le> length s"
    using assms k [of s] k [of "drop 2 (skip s)"] k [of "tl (skip s)"] k [of "dropWhile plain (skip s)"]
      length_dropWhile_le [of plain "skip s"]
    by (auto simp: gettoken_def Let_def split: if_splits)
  assume "tok \<noteq> 0"
  then obtain c cs where c: "skip s = c # cs"
    using assms by (cases "skip s") (auto simp: gettoken_def)
  then have "c \<notin> set whitespace" using hd_dropWhile [of "\<lambda>c. c \<in> set whitespace" s]
    by (simp add: skip_def)
  moreover have "length (dropWhile plain cs) \<le> length cs" by (rule length_dropWhile_le)
  ultimately show "length r < length s"
    using assms c k [of s] k [of cs] k [of "tl cs"] k [of "drop (Suc 0) cs"] k [of "dropWhile plain cs"]
    by (auto simp: gettoken_def Let_def plain_def symbols_def split: if_splits)
qed

text \<open>A \<^verbatim>\<open>gettoken\<close> after a \<^verbatim>\<open>peek\<close> that has seen a token.\<close>

lemma peek_gettoken:
  assumes "peek s toks" and "gettoken s = (tok, w, r)"
  shows "length r < length s"
proof -
  obtain c cs where c: "skip s = c # cs" using assms(1) by (cases "skip s") (auto simp: peek_def)
  have "tok \<noteq> 0"
    using assms(2) c by (auto simp: gettoken_def Let_def symbols_def split: if_splits)
  then show ?thesis using gettoken_length(2) [OF assms(2)] by simp
qed

definition rest_of :: "u8 list \<Rightarrow> u8 list" where
  "rest_of s = snd (snd (gettoken s))"

lemma peek_rest: "peek s toks \<Longrightarrow> length (rest_of s) < length s"
  using peek_gettoken [of s toks "fst (gettoken s)" "fst (snd (gettoken s))" "rest_of s"]
  by (simp add: rest_of_def)

subsection \<open>Redirections and arguments\<close>

definition redirection :: "u8 \<Rightarrow> u8 list \<Rightarrow> cmd \<Rightarrow> cmd" where
  "redirection tok q c =
     (if tok = sh_lt then Redir c q 0 0
      else if tok = sh_gt then Redir c q 0x201 1
      else if tok = 43 then Redir c q 0x201 1
      else c)"

text \<open>A command is built from the inside: \<^verbatim>\<open>parseexec\<close> goes on adding arguments to the innermost node, so
  a redirection is kept as what it puts around the node.\<close>

function parseredirs :: "(cmd \<Rightarrow> cmd) \<Rightarrow> u8 list \<Rightarrow> ((cmd \<Rightarrow> cmd) \<times> u8 list) outcome" where
  "parseredirs f s =
     (if peek s [sh_lt, sh_gt] then
        let (tok, _, s1) = gettoken s; (a, q, s2) = gettoken s1 in
        if a \<noteq> 97 then Panic ''missing file for redirection''
        else parseredirs (\<lambda>c. redirection tok q (f c)) s2
      else Ret (f, skip s))"
  by pat_completeness auto
termination
proof (relation "measure (\<lambda>(f, s). length s)", goal_cases)
  case (2 f s x tok y w s1 z a v q s2)
  then have "length s1 < length s" and "length s2 \<le> length s1"
    using peek_gettoken [OF 2(1)] gettoken_length(1) by metis+
  then show ?case by simp
qed simp

declare parseredirs.simps [simp del]

lemma parseredirs_length: "parseredirs f s = Ret (g, r) \<Longrightarrow> length r \<le> length s"
proof (induction f s rule: parseredirs.induct)
  case (1 f s)
  obtain tok w s1 where g1: "gettoken s = (tok, w, s1)" using prod_cases3 by blast
  obtain a q s2 where g2: "gettoken s1 = (a, q, s2)" using prod_cases3 by blast
  show ?case
  proof (cases "peek s [sh_lt, sh_gt]")
    case True
    then have "a = 97" and "parseredirs (\<lambda>c. redirection tok q (f c)) s2 = Ret (g, r)"
      using 1(2) g1 g2 parseredirs.simps [of f s] by (auto split: if_splits)
    then have "length r \<le> length s2"
      using 1(1) True g1 g2 by metis
    then show ?thesis using gettoken_length(1) [OF g1] gettoken_length(1) [OF g2] by simp
  next
    case False
    then show ?thesis using 1(2) parseredirs.simps [of f s] skip_length [of s] by simp
  qed
qed

function parseargs :: "u8 list list \<Rightarrow> (cmd \<Rightarrow> cmd) \<Rightarrow> u8 list \<Rightarrow> (cmd \<times> u8 list) outcome" where
  "parseargs argv f s =
     (if peek s [sh_bar, sh_close, sh_amp, sh_semi] then Ret (f (Exec argv), skip s)
      else
        let (tok, q, s1) = gettoken s in
        if tok = 0 then Ret (f (Exec argv), s1)
        else if tok \<noteq> 97 then Panic ''syntax''
        else if length argv + 1 \<ge> MAXARGS then Panic ''too many args''
        else bindR (parseredirs f s1) (\<lambda>(f, s2). parseargs (argv @ [q]) f s2))"
  by pat_completeness auto
termination
proof (relation "measure (\<lambda>(argv, f, s). length s)", goal_cases)
  case (2 argv f s x tok y q s1 z g s2)
  then have "length s1 < length s" using gettoken_length(2) [of s tok q s1] by simp
  moreover have "parseredirs f s1 = Ret (g, s2)" using 2 by simp
  then have "length s2 \<le> length s1" by (rule parseredirs_length)
  ultimately show ?case by simp
qed simp

declare parseargs.simps [simp del]

lemma parseargs_length: "parseargs argv f s = Ret (c, r) \<Longrightarrow> length r \<le> length s"
proof (induction argv f s rule: parseargs.induct)
  case (1 argv f s)
  obtain tok q s1 where g: "gettoken s = (tok, q, s1)" using prod_cases3 by blast
  show ?case
  proof (cases "peek s [sh_bar, sh_close, sh_amp, sh_semi] \<or> tok = 0")
    case True
    then show ?thesis
      using 1(2) g parseargs.simps [of argv f s] skip_length [of s] gettoken_length(1) [OF g]
      by (auto split: if_splits)
  next
    case False
    then obtain h s2 where h: "parseredirs f s1 = Ret (h, s2)" "parseargs (argv @ [q]) h s2 = Ret (c, r)"
        and a: "tok = 97" "\<not> length argv + 1 \<ge> MAXARGS"
      using 1(2) g parseargs.simps [of argv f s] by (auto split: if_splits)
    have "length r \<le> length s2"
      by (rule 1(1) [of _ tok "(q, s1)" q s1 "(h, s2)" h s2]) (use g h a False in simp_all)
    then show ?thesis using parseredirs_length [OF h(1)] gettoken_length(1) [OF g] by simp
  qed
qed

subsection \<open>Lines\<close>

function backs :: "cmd \<Rightarrow> u8 list \<Rightarrow> cmd \<times> u8 list" where
  "backs c s = (if peek s [sh_amp] then backs (Back c) (rest_of s) else (c, skip s))"
  by pat_completeness auto
termination by (relation "measure (\<lambda>(c, s). length s)") (auto dest: peek_rest)

declare backs.simps [simp del]

lemma backs_length: "length (snd (backs c s)) \<le> length s"
proof (induction c s rule: backs.induct)
  case (1 c s)
  then show ?case using peek_rest [of s "[sh_amp]"] skip_length [of s] backs.simps [of c s] by fastforce
qed

text \<open>The mutually recursive routines with the depth of calls that is left; \<open>parsecmd\<close> gives them four calls
  for each byte of the line.\<close>

fun parseline :: "nat \<Rightarrow> u8 list \<Rightarrow> (cmd \<times> u8 list) outcome"
  and parsepipe :: "nat \<Rightarrow> u8 list \<Rightarrow> (cmd \<times> u8 list) outcome"
  and parseexec :: "nat \<Rightarrow> u8 list \<Rightarrow> (cmd \<times> u8 list) outcome"
  and parseblock :: "nat \<Rightarrow> u8 list \<Rightarrow> (cmd \<times> u8 list) outcome" where
  "parseline 0 s = Blocked"
| "parsepipe 0 s = Blocked"
| "parseexec 0 s = Blocked"
| "parseblock 0 s = Blocked"
| "parseline (Suc n) s =
     bindR (parsepipe n s) (\<lambda>(c, s).
       let (c, s) = backs c s in
       if peek s [sh_semi]
       then bindR (parseline n (rest_of s)) (\<lambda>(d, s). Ret (List c d, s))
       else Ret (c, s))"
| "parsepipe (Suc n) s =
     bindR (parseexec n s) (\<lambda>(c, s).
       if peek s [sh_bar]
       then bindR (parsepipe n (rest_of s)) (\<lambda>(d, s). Ret (Pipe c d, s))
       else Ret (c, skip s))"
| "parseexec (Suc n) s =
     (if peek s [sh_open] then parseblock n s
      else bindR (parseredirs (\<lambda>c. c) s) (\<lambda>(f, s). parseargs [] f s))"
| "parseblock (Suc n) s =
     (if \<not> peek s [sh_open] then Panic ''parseblock''
      else bindR (parseline n (rest_of s)) (\<lambda>(c, s).
        if \<not> peek s [sh_close] then Panic ''syntax - missing )''
        else bindR (parseredirs (\<lambda>c. c) (rest_of s)) (\<lambda>(f, s). Ret (f c, s))))"

definition parsecmd :: "u8 list \<Rightarrow> cmd outcome" where
  "parsecmd s =
     bindR (parseline (4 * length s + 4) s) (\<lambda>(c, s).
       if skip s \<noteq> [] then Panic ''syntax'' else Ret c)"

subsection \<open>The parser ends\<close>

lemma parse_length:
  "parseline n s = Ret (c, r) \<Longrightarrow> length r \<le> length s"
  "parsepipe n s = Ret (c, r) \<Longrightarrow> length r \<le> length s"
  "parseexec n s = Ret (c, r) \<Longrightarrow> length r \<le> length s"
  "parseblock n s = Ret (c, r) \<Longrightarrow> length r \<le> length s"
proof (induction n arbitrary: s c r)
  case (Suc n)
  {
    case 1
    then obtain x where x: "parsepipe n s = Ret x"
        "(case x of (c, s) \<Rightarrow> let (c, s) = backs c s in
          if peek s [sh_semi] then bindR (parseline n (rest_of s)) (\<lambda>(d, s). Ret (List c d, s)) else Ret (c, s)) = Ret (c, r)"
      by auto
    obtain d t where d: "x = (d, t)" by (rule prod.exhaust)
    obtain e u where e: "backs d t = (e, u)" by (rule prod.exhaust)
    have p: "parsepipe n s = Ret (d, t)" "backs d t = (e, u)" using x d e by simp_all
    have l: "if peek u [sh_semi] then \<exists>f. parseline n (rest_of u) = Ret (f, r) else u = r"
      using x(2) d e by (auto split: if_splits)
    have "length t \<le> length s" "length u \<le> length t"
      using Suc.IH(2) [OF p(1)] backs_length [of d t] p(2) by simp_all
    moreover have "length r \<le> length u"
    proof (cases "peek u [sh_semi]")
      case True
      then obtain f where "parseline n (rest_of u) = Ret (f, r)" using l by auto
      then show ?thesis using Suc.IH(1) peek_rest [OF True] by fastforce
    qed (use l in simp)
    ultimately show ?case by simp
  next
    case 2
    then obtain d t where p: "parseexec n s = Ret (d, t)"
        and l: "if peek t [sh_bar] then \<exists>f. parsepipe n (rest_of t) = Ret (f, r) else r = skip t"
      by (auto split: if_splits)
    have "length t \<le> length s" using Suc.IH(3) [OF p] .
    moreover have "length r \<le> length t"
    proof (cases "peek t [sh_bar]")
      case True
      then obtain f where "parsepipe n (rest_of t) = Ret (f, r)" using l by auto
      then show ?thesis using Suc.IH(2) peek_rest [OF True] by fastforce
    qed (use l skip_length in simp)
    ultimately show ?case by simp
  next
    case 3
    then show ?case
      using Suc.IH(4) parseredirs_length parseargs_length by (fastforce split: if_splits)
  next
    case 4
    then obtain d t f where p: "peek s [sh_open]" "parseline n (rest_of s) = Ret (d, t)"
        "peek t [sh_close]" "parseredirs (\<lambda>c. c) (rest_of t) = Ret (f, r)"
      by (auto split: if_splits)
    then show ?case
      using peek_rest [OF p(1)] Suc.IH(1) [OF p(2)] peek_rest [OF p(3)] parseredirs_length [OF p(4)] by simp
  }
qed simp_all

lemma parseredirs_ends: "parseredirs f s \<noteq> Blocked"
  by (induction f s rule: parseredirs.induct) (subst parseredirs.simps, auto split: prod.split)

lemma bindR_Blocked: "bindR m f = Blocked \<longleftrightarrow> m = Blocked \<or> (\<exists>x. m = Ret x \<and> f x = Blocked)"
  by (cases m) auto

lemma parseargs_ends: "parseargs argv f s \<noteq> Blocked"
proof (induction argv f s rule: parseargs.induct)
  case (1 argv f s)
  then show ?case
    using parseredirs_ends by (subst parseargs.simps) (auto simp: bindR_Blocked split: prod.split)
qed

lemma parse_ends:
  "4 * length s + 4 \<le> n \<Longrightarrow> parseline n s \<noteq> Blocked"
  "4 * length s + 3 \<le> n \<Longrightarrow> parsepipe n s \<noteq> Blocked"
  "4 * length s + 2 \<le> n \<Longrightarrow> parseexec n s \<noteq> Blocked"
  "4 * length s + 1 \<le> n \<Longrightarrow> parseblock n s \<noteq> Blocked"
proof (induction n arbitrary: s)
  case (Suc n)
  {
    case 1
    have "parseline n (rest_of u) \<noteq> Blocked"
      if "parsepipe n s = Ret (d, t)" "backs d t = (e, u)" "peek u [sh_semi]" for d t e u
      using 1 parse_length(2) [OF that(1)] backs_length [of d t] that(2) peek_rest [OF that(3)]
      by (intro Suc.IH(1)) simp
    moreover have "parsepipe n s \<noteq> Blocked" using 1 by (intro Suc.IH(2)) simp
    ultimately show ?case by (auto simp: bindR_Blocked Let_def split: prod.splits if_splits)
  next
    case 2
    have "parsepipe n (rest_of t) \<noteq> Blocked"
      if "parseexec n s = Ret (d, t)" "peek t [sh_bar]" for d t
      using 2 parse_length(3) [OF that(1)] peek_rest [OF that(2)] by (intro Suc.IH(2)) simp
    moreover have "parseexec n s \<noteq> Blocked" using 2 by (intro Suc.IH(3)) simp
    ultimately show ?case by (auto simp: bindR_Blocked split: if_splits)
  next
    case 3
    then show ?case
      using Suc.IH(4) [of s] parseredirs_ends parseargs_ends by (auto simp: bindR_Blocked)
  next
    case 4
    have "peek s [sh_open] \<Longrightarrow> parseline n (rest_of s) \<noteq> Blocked"
      using 4 peek_rest [of s "[sh_open]"] by (intro Suc.IH(1)) simp
    then show ?case using parseredirs_ends by (auto simp: bindR_Blocked split: if_splits)
  }
qed simp_all

text \<open>C37: the shell's parser ends on every line, with a command or with a message: the recursion is never
  deeper than four calls for each byte of the line.\<close>
theorem parsecmd_ends: "parsecmd s \<noteq> Blocked"
  using parse_ends(1) [of s "4 * length s + 4"] by (auto simp: parsecmd_def bindR_Blocked)

subsection \<open>Commands as text\<close>

text \<open>Every command has a text: \<open>unparse l c\<close> puts it where the grammar wants a line (\<open>l = 0\<close>), a part of a
  line (1), of a pipe line (2) or a single command (3), in parentheses where it needs them.\<close>

definition paren :: "bool \<Rightarrow> u8 list \<Rightarrow> u8 list" where
  "paren b s = (if b then sh_open # s @ [sh_close] else s)"

definition redir_text :: "u8 list \<Rightarrow> int \<Rightarrow> u8 list" where
  "redir_text q fd = (if fd = 0 then sh_lt else sh_gt) # q @ [32]"

primrec unparse :: "nat \<Rightarrow> cmd \<Rightarrow> u8 list" where
  "unparse l (Exec argv) = concat (map (\<lambda>a. a @ [32]) argv)"
| "unparse l (Redir c q m fd) = unparse 3 c @ redir_text q fd"
| "unparse l (Pipe c d) = paren (2 < l) (unparse 3 c @ sh_bar # unparse 2 d)"
| "unparse l (Back c) = paren (1 < l) (unparse 1 c @ [sh_amp])"
| "unparse l (List c d) = paren (0 < l) (unparse 1 c @ sh_semi # unparse 0 d)"

definition word_ok :: "u8 list \<Rightarrow> bool" where
  "word_ok w \<longleftrightarrow> w \<noteq> [] \<and> (\<forall>c \<in> set w. plain c \<and> c \<noteq> 0)"

primrec cmd_ok :: "cmd \<Rightarrow> bool" where
  "cmd_ok (Exec argv) \<longleftrightarrow> length argv < MAXARGS \<and> (\<forall>a \<in> set argv. word_ok a)"
| "cmd_ok (Redir c q m fd) \<longleftrightarrow> cmd_ok c \<and> word_ok q \<and> (m = 0 \<and> fd = 0 \<or> m = 0x201 \<and> fd = 1)"
| "cmd_ok (Pipe c d) \<longleftrightarrow> cmd_ok c \<and> cmd_ok d"
| "cmd_ok (Back c) \<longleftrightarrow> cmd_ok c"
| "cmd_ok (List c d) \<longleftrightarrow> cmd_ok c \<and> cmd_ok d"

text \<open>\<open>ahead T s\<close>: what is left begins with a symbol of \<open>T\<close> or is empty.\<close>

definition ahead :: "u8 list \<Rightarrow> u8 list \<Rightarrow> bool" where
  "ahead T s \<longleftrightarrow> s = [] \<or> hd s \<in> set T \<and> hd s \<in> set symbols"

lemma symbols_not_blank: "c \<in> set symbols \<Longrightarrow> c \<notin> set whitespace"
  by (auto simp: symbols_def whitespace_def)

lemma skip_ahead [simp]: "ahead T s \<Longrightarrow> skip s = s"
  by (cases s) (auto simp: ahead_def skip_def symbols_not_blank)

lemma skip_symbol [simp]: "c \<in> set symbols \<Longrightarrow> skip (c # s) = c # s"
  by (simp add: skip_def symbols_not_blank)

lemma skip_plain [simp]: "plain c \<Longrightarrow> skip (c # s) = c # s"
  by (simp add: skip_def plain_def)

lemma skip_blank [simp]: "skip (32 # s) = skip s"
  by (simp add: skip_def whitespace_def)

lemma peek_ahead: "ahead T s \<Longrightarrow> peek s U \<longleftrightarrow> s \<noteq> [] \<and> hd s \<in> set U"
  by (simp add: peek_def)

lemma ahead_no_peek: "ahead T s \<Longrightarrow> set T \<inter> set U = {} \<Longrightarrow> \<not> peek s U"
  by (simp add: peek_ahead) (auto simp: ahead_def)

lemma rest_of_symbol: "c \<in> set symbols \<Longrightarrow> c \<noteq> sh_gt \<Longrightarrow> rest_of (c # s) = skip s"
  by (simp add: rest_of_def gettoken_def)

lemma plain_symbol: "plain c \<Longrightarrow> c \<notin> set symbols" and not_plain_blank: "\<not> plain 32"
  by (simp_all add: plain_def whitespace_def)

lemma gettoken_word:
  assumes "word_ok w"
  shows "gettoken (w @ 32 # s) = (97, w, skip s)"
proof -
  obtain c cs where w: "w = c # cs" using assms by (cases w) (auto simp: word_ok_def)
  have p: "\<forall>c \<in> set w. plain c" using assms by (simp add: word_ok_def)
  then have "c \<notin> set symbols" and "c \<noteq> sh_gt" and "plain c" using w by (auto simp: plain_def symbols_def)
  moreover have "takeWhile plain (w @ 32 # s) = w" and "dropWhile plain (w @ 32 # s) = 32 # s"
    using p by (simp_all add: takeWhile_append2 dropWhile_append2 not_plain_blank)
  ultimately show ?thesis using w by (simp add: gettoken_def)
qed

lemma peek_word: "word_ok w \<Longrightarrow> set T \<subseteq> set symbols \<Longrightarrow> \<not> peek (w @ s) T"
  by (cases w) (auto simp: word_ok_def peek_def plain_def)

subsection \<open>Redirections and arguments read back\<close>

primrec wrap :: "(u8 list \<times> int \<times> int) list \<Rightarrow> cmd \<Rightarrow> cmd" where
  "wrap [] c = c"
| "wrap (r # rs) c = wrap rs (case r of (q, m, fd) \<Rightarrow> Redir c q m fd)"

definition redir_ok :: "u8 list \<times> int \<times> int \<Rightarrow> bool" where
  "redir_ok r \<longleftrightarrow> (case r of (q, m, fd) \<Rightarrow> word_ok q \<and> (m = 0 \<and> fd = 0 \<or> m = 0x201 \<and> fd = 1))"

definition redirs_text :: "(u8 list \<times> int \<times> int) list \<Rightarrow> u8 list" where
  "redirs_text rs = concat (map (\<lambda>(q, m, fd). redir_text q fd) rs)"

definition behind :: "u8 list \<Rightarrow> bool" where
  "behind s \<longleftrightarrow> ahead [sh_bar, sh_close, sh_amp, sh_semi] s"

lemma behind_redirs: "behind s \<Longrightarrow> ahead symbols (redirs_text rs @ s)"
proof (cases rs)
  case (Cons r rs')
  then show ?thesis
    by (cases r) (simp add: ahead_def redirs_text_def redir_text_def symbols_def)
qed (auto simp: behind_def ahead_def redirs_text_def)

lemma parseredirs_text:
  assumes "\<forall>r \<in> set rs. redir_ok r" and "behind s"
  shows "parseredirs f (redirs_text rs @ s) = Ret (\<lambda>c. wrap rs (f c), s)"
  using assms
proof (induction rs arbitrary: f)
  case Nil
  then have "\<not> peek s [sh_lt, sh_gt]" using Nil(2) unfolding behind_def
    by (simp add: peek_ahead) (auto simp: ahead_def)
  then show ?case
    using Nil by (simp add: redirs_text_def parseredirs.simps [of f s] behind_def)
next
  case (Cons r rs)
  obtain q m fd where r: "r = (q, m, fd)" using prod_cases3 by blast
  have q: "word_ok q" and fd: "m = 0 \<and> fd = 0 \<or> m = 0x201 \<and> fd = 1"
    using Cons.prems r by (auto simp: redir_ok_def)
  let ?t = "redirs_text rs @ s"
  have t: "redirs_text (r # rs) @ s = (if fd = 0 then sh_lt else sh_gt) # q @ 32 # ?t"
    by (simp add: redirs_text_def redir_text_def r)
  have q0: "skip (q @ 32 # ?t) = q @ 32 # ?t" and qg: "hd (q @ 32 # ?t) \<noteq> sh_gt"
    using q by (cases q; auto simp: word_ok_def plain_def symbols_def)+
  have g: "gettoken ((if fd = 0 then sh_lt else sh_gt) # q @ 32 # ?t) =
      ((if fd = 0 then sh_lt else sh_gt), [if fd = 0 then sh_lt else sh_gt], q @ 32 # ?t)"
    using q0 qg by (simp add: gettoken_def symbols_def)
  have p: "peek ((if fd = 0 then sh_lt else sh_gt) # q @ 32 # ?t) [sh_lt, sh_gt]"
    by (simp add: peek_def symbols_def)
  have "parseredirs f (redirs_text (r # rs) @ s) =
      parseredirs (\<lambda>c. redirection (if fd = 0 then sh_lt else sh_gt) q (f c)) ?t"
    using skip_ahead [OF behind_redirs [OF Cons.prems(2)]]
    by (simp only: t parseredirs.simps [of f "(if fd = 0 then sh_lt else sh_gt) # q @ 32 # ?t"] g p
        gettoken_word [OF q] Let_def prod.case if_True simp_thms if_False)
  also have "\<dots> = Ret (\<lambda>c. wrap rs (redirection (if fd = 0 then sh_lt else sh_gt) q (f c)), s)"
    using Cons by simp
  finally show ?case using fd by (auto simp: r redirection_def)
qed

lemma parseargs_end: "behind s \<Longrightarrow> parseargs argv f s = Ret (f (Exec argv), s)"
proof -
  assume s: "behind s"
  then have "skip s = s" by (simp add: behind_def)
  show ?thesis
  proof (cases "s = []")
    case True
    then show ?thesis using \<open>skip s = s\<close> by (subst parseargs.simps) (simp add: gettoken_def)
  next
    case False
    then have "peek s [sh_bar, sh_close, sh_amp, sh_semi]"
      using s \<open>skip s = s\<close> by (simp add: peek_def behind_def ahead_def)
    then show ?thesis using \<open>skip s = s\<close> by (subst parseargs.simps) simp
  qed
qed

lemma no_redirs:
  assumes "\<not> peek s [sh_lt, sh_gt]"
  shows "parseredirs f s = Ret (f, skip s)"
  using assms by (subst parseredirs.simps) simp

text \<open>Arguments and then redirections, as \<^verbatim>\<open>parseexec\<close> reads them.\<close>

lemma parseargs_text:
  assumes "\<forall>a \<in> set args. word_ok a" and "length argv + length args < MAXARGS"
    and "\<forall>r \<in> set rs. redir_ok r" and "behind s"
  shows "bindR (parseredirs f (concat (map (\<lambda>a. a @ [32]) args) @ redirs_text rs @ s)) (\<lambda>(f, s). parseargs argv f s) =
    Ret (wrap rs (f (Exec (argv @ args))), s)"
  using assms(1,2)
proof (induction args arbitrary: argv)
  case Nil
  then show ?case by (simp add: parseredirs_text [OF assms(3,4)] parseargs_end [OF assms(4)])
next
  case (Cons a args)
  let ?t = "concat (map (\<lambda>a. a @ [32]) args) @ redirs_text rs @ s"
  have a: "word_ok a" using Cons.prems by simp
  have sk: "skip (a @ 32 # ?t) = a @ 32 # ?t"
    using a by (cases a) (auto simp: word_ok_def)
  have np: "\<not> peek (a @ 32 # ?t) T" if "set T \<subseteq> set symbols" for T using peek_word [OF a that] .
  have st: "skip ?t = ?t"
  proof (cases args)
    case Nil
    then show ?thesis using skip_ahead [OF behind_redirs [OF assms(4)]] by simp
  next
    case (Cons b bs)
    then have "word_ok b" using Cons.prems by simp
    then show ?thesis using Cons by (cases b) (auto simp: word_ok_def)
  qed
  have "parseargs argv f (a @ 32 # ?t) = bindR (parseredirs f ?t) (\<lambda>(f, s2). parseargs (argv @ [a]) f s2)"
    using Cons.prems(2) np [of "[sh_bar, sh_close, sh_amp, sh_semi]"]
    by (subst parseargs.simps) (simp add: gettoken_word [OF a] st symbols_def MAXARGS_def)
  also have "\<dots> = Ret (wrap rs (f (Exec (argv @ a # args))), s)"
    using Cons.IH [of "argv @ [a]"] Cons.prems by simp
  finally show ?case
    using no_redirs [OF np [of "[sh_lt, sh_gt]"]] sk by (simp add: symbols_def)
qed

subsection \<open>Lines read back\<close>

text \<open>What the parser does with the text of \<open>c\<close> where a single command, a pipe line, a part of a line and a
  line are expected.\<close>

definition back_exec :: "cmd \<Rightarrow> bool" where
  "back_exec c \<longleftrightarrow> (\<forall>n s. behind s \<and> 4 * length (unparse 3 c @ s) + 2 \<le> n \<longrightarrow>
     parseexec n (unparse 3 c @ s) = Ret (c, s))"

definition back_pipe :: "cmd \<Rightarrow> bool" where
  "back_pipe c \<longleftrightarrow> (\<forall>n s. ahead [sh_close, sh_amp, sh_semi] s \<and> 4 * length (unparse 2 c @ s) + 3 \<le> n \<longrightarrow>
     parsepipe n (unparse 2 c @ s) = Ret (c, s))"

definition back_part :: "cmd \<Rightarrow> bool" where
  "back_part c \<longleftrightarrow> (\<forall>n s. ahead [sh_close, sh_amp, sh_semi] s \<and> 4 * length (unparse 1 c @ s) + 3 \<le> n \<longrightarrow>
     (\<exists>d r. parsepipe n (unparse 1 c @ s) = Ret (d, r) \<and> backs d r = backs c s))"

definition back_line :: "cmd \<Rightarrow> bool" where
  "back_line c \<longleftrightarrow> (\<forall>n s. ahead [sh_close] s \<and> 4 * length (unparse 0 c @ s) + 4 \<le> n \<longrightarrow>
     parseline n (unparse 0 c @ s) = Ret (c, s))"

lemma backs_end: "ahead [sh_close, sh_semi] s \<Longrightarrow> backs c s = (c, s)"
proof -
  assume a: "ahead [sh_close, sh_semi] s"
  then have "\<not> peek s [sh_amp]" by (simp add: peek_ahead) (auto simp: ahead_def)
  then show ?thesis using a by (subst backs.simps) simp
qed

lemma backs_amp: "backs c (sh_amp # s) = backs (Back c) (skip s)"
  by (subst backs.simps) (simp add: peek_def symbols_def rest_of_symbol)

text \<open>The text of a command begins with no white space.\<close>

lemma skip_show: "cmd_ok c \<Longrightarrow> ahead T s \<Longrightarrow> skip (unparse l c @ s) = unparse l c @ s"
proof (induction c arbitrary: l s T)
  case (Exec argv)
  show ?case
  proof (cases argv)
    case (Cons a as)
    then show ?thesis using Exec by (cases a) (auto simp: word_ok_def)
  qed (use Exec in simp)
next
  case (Redir c q m fd)
  have "ahead symbols (redir_text q fd @ s)" by (simp add: ahead_def redir_text_def symbols_def)
  then show ?case using Redir.IH [of symbols "redir_text q fd @ s" 3] Redir.prems by simp
next
  case (Pipe c d)
  have "ahead symbols (sh_bar # unparse 2 d @ t)" for t by (simp add: ahead_def symbols_def)
  then show ?case
    using Pipe.IH(1) [of symbols "sh_bar # unparse 2 d @ s" 3] Pipe.prems by (simp add: paren_def symbols_def)
next
  case (List c d)
  have "ahead symbols (sh_semi # unparse 0 d @ t)" for t by (simp add: ahead_def symbols_def)
  then show ?case
    using List.IH(1) [of symbols "sh_semi # unparse 0 d @ s" 1] List.prems by (simp add: paren_def symbols_def)
next
  case (Back c)
  have "ahead symbols (sh_amp # t)" for t by (simp add: ahead_def symbols_def)
  then show ?case
    using Back.IH [of symbols "sh_amp # s" 1] Back.prems by (simp add: paren_def symbols_def)
qed

lemma exec_to_pipe:
  assumes "back_exec c" and "unparse 2 c = unparse 3 c"
  shows "back_pipe c"
  unfolding back_pipe_def
proof (intro allI impI)
  fix n s
  assume a: "ahead [sh_close, sh_amp, sh_semi] s \<and> 4 * length (unparse 2 c @ s) + 3 \<le> n"
  then obtain m where n: "n = Suc m" by (cases n) auto
  have b: "behind s" using a by (auto simp: behind_def ahead_def)
  have "parseexec m (unparse 2 c @ s) = Ret (c, s)"
    using assms a b n by (simp add: back_exec_def)
  moreover have "\<not> peek s [sh_bar]" and "skip s = s" using a by (auto dest: ahead_no_peek [of _ _ "[sh_bar]"])
  ultimately show "parsepipe n (unparse 2 c @ s) = Ret (c, s)" using n by simp
qed

lemma pipe_to_part: "back_pipe c \<Longrightarrow> unparse 1 c = unparse 2 c \<Longrightarrow> back_part c"
  unfolding back_pipe_def back_part_def by metis

lemma part_to_line:
  assumes "back_part c" and "unparse 0 c = unparse 1 c"
  shows "back_line c"
  unfolding back_line_def
proof (intro allI impI)
  fix n s
  assume a: "ahead [sh_close] s \<and> 4 * length (unparse 0 c @ s) + 4 \<le> n"
  then obtain m where n: "n = Suc m" by (cases n) auto
  have s: "ahead [sh_close, sh_amp, sh_semi] s" "ahead [sh_close, sh_semi] s"
    using a by (auto simp: ahead_def)
  have "4 * length (unparse 1 c @ s) + 3 \<le> m" using a n assms(2) by simp
  then obtain d r where p: "parsepipe m (unparse 0 c @ s) = Ret (d, r)" "backs d r = backs c s"
    using assms s(1) unfolding back_part_def by metis
  moreover have "\<not> peek s [sh_semi]" using a by (auto dest: ahead_no_peek [of _ _ "[sh_semi]"])
  ultimately show "parseline n (unparse 0 c @ s) = Ret (c, s)"
    using n backs_end [OF s(2)] by simp
qed

lemma line_to_exec:
  assumes "back_line c" and "cmd_ok c" and "unparse 3 c = sh_open # unparse 0 c @ [sh_close]"
    and "\<forall>r \<in> set rs. redir_ok r" and "behind s"
    and "4 * length (unparse 3 c @ redirs_text rs @ s) + 2 \<le> n"
  shows "parseexec n (unparse 3 c @ redirs_text rs @ s) = Ret (wrap rs c, s)"
proof -
  let ?t = "redirs_text rs @ s"
  obtain m where n: "n = Suc (Suc m)" using assms(6) by (cases n; cases "n - 1") auto
  have t: "unparse 3 c @ ?t = sh_open # unparse 0 c @ sh_close # ?t" using assms(3) by simp
  have cl: "ahead [sh_close] (sh_close # ?t)" by (simp add: ahead_def symbols_def)
  have "rest_of (sh_open # unparse 0 c @ sh_close # ?t) = unparse 0 c @ sh_close # ?t"
    using skip_show [OF assms(2) cl, of 0] by (simp add: rest_of_symbol symbols_def)
  moreover have "parseline m (unparse 0 c @ sh_close # ?t) = Ret (c, sh_close # ?t)"
    using assms(1,6) n t cl unfolding back_line_def by simp
  moreover have "rest_of (sh_close # ?t) = ?t"
    using skip_ahead [OF behind_redirs [OF assms(5)]] by (simp add: rest_of_symbol symbols_def)
  moreover have "peek (sh_open # x) [sh_open]" and "peek (sh_close # x) [sh_close]" for x
    by (simp_all add: peek_def symbols_def)
  ultimately show ?thesis
    unfolding t n by (simp add: parseredirs_text [OF assms(4,5)])
qed

lemma wrap_snoc: "wrap (rs @ [(q, m, fd)]) b = Redir (wrap rs b) q m fd"
  by (induction rs arbitrary: b) auto

definition base_of :: "cmd \<Rightarrow> (u8 list \<times> int \<times> int) list \<Rightarrow> cmd \<Rightarrow> bool" where
  "base_of c rs b \<longleftrightarrow> c = wrap rs b \<and> unparse 3 c = unparse 3 b @ redirs_text rs \<and> cmd_ok b \<and>
     (\<forall>r \<in> set rs. redir_ok r) \<and> (b = c \<or> size b < size c) \<and> (\<nexists>d q m fd. b = Redir d q m fd)"

lemma base_self: "\<nexists>d q m fd. c = Redir d q m fd \<Longrightarrow> cmd_ok c \<Longrightarrow> base_of c [] c"
  by (simp add: base_of_def redirs_text_def)

lemma base_command: "cmd_ok c \<Longrightarrow> \<exists>rs b. base_of c rs b"
proof (induction c)
  case (Redir c q m fd)
  then obtain rs b where "base_of c rs b" by auto
  then have "base_of (Redir c q m fd) (rs @ [(q, m, fd)]) b"
    using Redir.prems by (auto simp: base_of_def wrap_snoc redirs_text_def redir_ok_def)
  then show ?case by blast
qed (blast intro: base_self)+

lemma exec_reads_back:
  assumes c: "cmd_ok c" and line: "\<And>b. b = c \<or> size b < size c \<Longrightarrow> cmd_ok b \<Longrightarrow> (\<nexists>a. b = Exec a) \<Longrightarrow>
    (\<nexists>d q m fd. b = Redir d q m fd) \<Longrightarrow> back_line b"
  shows "back_exec c"
  unfolding back_exec_def
proof (intro allI impI)
  fix n s
  assume a: "behind s \<and> 4 * length (unparse 3 c @ s) + 2 \<le> n"
  obtain rs b where "base_of c rs b" using base_command [OF c] by blast
  then have b: "c = wrap rs b" "unparse 3 c = unparse 3 b @ redirs_text rs" "cmd_ok b"
      "\<forall>r \<in> set rs. redir_ok r" "b = c \<or> size b < size c" "\<nexists>d q m fd. b = Redir d q m fd"
    unfolding base_of_def by blast+
  show "parseexec n (unparse 3 c @ s) = Ret (c, s)"
  proof (cases "\<exists>args. b = Exec args")
    case True
    then obtain args where args: "b = Exec args" by blast
    obtain m where n: "n = Suc m" using a by (cases n) auto
    let ?t = "concat (map (\<lambda>a. a @ [32]) args) @ redirs_text rs @ s"
    have "\<not> peek ?t [sh_open]"
    proof (cases args)
      case Nil
      have "ahead [sh_lt, sh_gt, sh_bar, sh_close, sh_amp, sh_semi] (redirs_text rs @ s)"
      proof (cases rs)
        case (Cons r rs')
        then show ?thesis by (cases r) (simp add: ahead_def redirs_text_def redir_text_def symbols_def)
      qed (use a in \<open>auto simp: behind_def ahead_def redirs_text_def\<close>)
      then show ?thesis using Nil by (auto dest: ahead_no_peek [of _ _ "[sh_open]"])
    next
      case (Cons w ws)
      then show ?thesis
        using b(3) args peek_word [of w "[sh_open]" "32 # concat (map (\<lambda>a. a @ [32]) ws) @ redirs_text rs @ s"]
        by (simp add: symbols_def)
    qed
    moreover have "bindR (parseredirs (\<lambda>c. c) ?t) (\<lambda>(f, s). parseargs [] f s) = Ret (c, s)"
      using parseargs_text [of args "[]" rs s "\<lambda>c. c"] b args a by simp
    ultimately show ?thesis using b(2) args n by simp
  next
    case False
    then have "unparse 3 b = sh_open # unparse 0 b @ [sh_close]"
      using b(6) by (cases b) (simp_all add: paren_def)
    then show ?thesis
      using line_to_exec [OF line [OF b(5,3)] b(3) _ b(4)] False b a by simp
  qed
qed

lemma pipe_reads_back:
  assumes "back_exec c" and "back_pipe d" and "cmd_ok d"
  shows "back_pipe (Pipe c d)"
  unfolding back_pipe_def
proof (intro allI impI)
  fix n s
  assume a: "ahead [sh_close, sh_amp, sh_semi] s \<and> 4 * length (unparse 2 (Pipe c d) @ s) + 3 \<le> n"
  then obtain m where n: "n = Suc m" by (cases n) auto
  let ?t = "unparse 2 d @ s"
  have b: "behind (sh_bar # ?t)" by (simp add: behind_def ahead_def symbols_def)
  have "parseexec m (unparse 3 c @ sh_bar # ?t) = Ret (c, sh_bar # ?t)"
    using assms(1) a n b by (simp add: back_exec_def paren_def)
  moreover have "parsepipe m ?t = Ret (d, s)"
    using assms(2) a n by (simp add: back_pipe_def paren_def)
  moreover have "rest_of (sh_bar # ?t) = ?t" and "peek (sh_bar # ?t) [sh_bar]"
    using skip_show [OF assms(3)] a by (auto simp: rest_of_symbol symbols_def peek_def)
  ultimately show "parsepipe n (unparse 2 (Pipe c d) @ s) = Ret (Pipe c d, s)"
    using n by (simp add: paren_def)
qed

lemma part_reads_back:
  assumes "back_part c"
  shows "back_part (Back c)"
  unfolding back_part_def
proof (intro allI impI)
  fix n s
  assume a: "ahead [sh_close, sh_amp, sh_semi] s \<and> 4 * length (unparse 1 (Back c) @ s) + 3 \<le> n"
  have "ahead [sh_close, sh_amp, sh_semi] (sh_amp # s)" by (simp add: ahead_def symbols_def)
  moreover have "4 * length (unparse 1 c @ sh_amp # s) + 3 \<le> n" using a by (simp add: paren_def)
  ultimately obtain d r where "parsepipe n (unparse 1 c @ sh_amp # s) = Ret (d, r)"
      "backs d r = backs c (sh_amp # s)"
    using assms unfolding back_part_def by blast
  moreover have "skip s = s" using a by auto
  ultimately show "\<exists>d r. parsepipe n (unparse 1 (Back c) @ s) = Ret (d, r) \<and> backs d r = backs (Back c) s"
    by (simp add: paren_def backs_amp)
qed

lemma line_reads_back:
  assumes "back_part c" and "back_line d" and "cmd_ok d"
  shows "back_line (List c d)"
  unfolding back_line_def
proof (intro allI impI)
  fix n s
  assume a: "ahead [sh_close] s \<and> 4 * length (unparse 0 (List c d) @ s) + 4 \<le> n"
  then obtain m where n: "n = Suc m" by (cases n) auto
  let ?t = "unparse 0 d @ s"
  have h: "ahead [sh_close, sh_amp, sh_semi] (sh_semi # ?t)" "ahead [sh_close, sh_semi] (sh_semi # ?t)"
    by (simp_all add: ahead_def symbols_def)
  moreover have "4 * length (unparse 1 c @ sh_semi # ?t) + 3 \<le> m" using a n by (simp add: paren_def)
  ultimately obtain e r where "parsepipe m (unparse 1 c @ sh_semi # ?t) = Ret (e, r)"
      "backs e r = backs c (sh_semi # ?t)"
    using assms(1) unfolding back_part_def by blast
  moreover have "parseline m ?t = Ret (d, s)"
    using assms(2) a n by (simp add: back_line_def paren_def)
  moreover have "rest_of (sh_semi # ?t) = ?t" and "peek (sh_semi # ?t) [sh_semi]"
    using skip_show [OF assms(3)] a by (auto simp: rest_of_symbol symbols_def peek_def)
  ultimately show "parseline n (unparse 0 (List c d) @ s) = Ret (List c d, s)"
    using n by (simp add: paren_def backs_end [OF h(2)])
qed

lemma reads_back:
  "cmd_ok c \<Longrightarrow> back_exec c \<and> back_pipe c \<and> back_part c \<and> back_line c"
proof (induction c rule: measure_induct_rule [of size])
  case (less c)
  have E: "back_exec c" if "back_line c \<or> (\<exists>a. c = Exec a) \<or> (\<exists>d q m fd. c = Redir d q m fd)"
  proof (rule exec_reads_back [OF less.prems])
    fix b
    assume b: "b = c \<or> size b < size c" "cmd_ok b" "\<nexists>a. b = Exec a" "\<nexists>d q m fd. b = Redir d q m fd"
    then show "back_line b" using less.IH [of b] that by blast
  qed
  show ?case
  proof (cases c)
    case (Exec a)
    then show ?thesis
      using E exec_to_pipe [of c] pipe_to_part [of c] part_to_line [of c] by simp
  next
    case (Redir d q m fd)
    then show ?thesis
      using E exec_to_pipe [of c] pipe_to_part [of c] part_to_line [of c] by simp
  next
    case (Pipe d e)
    then have "back_pipe c"
      using less pipe_reads_back by simp
    then show ?thesis
      using Pipe E pipe_to_part [of c] part_to_line [of c] by (simp add: paren_def)
  next
    case (List d e)
    then have "back_line c"
      using less line_reads_back by simp
    then show ?thesis
      using List E exec_to_pipe [of c] pipe_to_part [of c] by (simp add: paren_def)
  next
    case (Back d)
    then have "back_part c"
      using less part_reads_back by simp
    then show ?thesis
      using Back E exec_to_pipe [of c] part_to_line [of c] by (simp add: paren_def)
  qed
qed

text \<open>C38: the grammar of the shell reaches every command: the text of a command, with parentheses where
  they are needed, is parsed back to that command, its redirections and arguments in order.\<close>
theorem parsecmd_unparse:
  assumes "cmd_ok c"
  shows "parsecmd (unparse 0 c) = Ret c"
proof -
  have "parseline (4 * length (unparse 0 c) + 4) (unparse 0 c) = Ret (c, [])"
    using reads_back [OF assms] unfolding back_line_def
    by (elim conjE allE [where x = "4 * length (unparse 0 c) + 4"] allE [where x = "[]"])
       (simp add: ahead_def)
  then show ?thesis by (simp add: parsecmd_def skip_def)
qed

theorem parsecmd_unparse_witness:
  "parsecmd [40, 108, 115, 32, 124, 119, 99, 32, 41, 62, 102, 32, 59, 97, 32, 38] =
   Ret (List (Redir (Pipe (Exec [[108, 115]]) (Exec [[119, 99]])) [102] 0x201 1) (Back (Exec [[97]])))"
  using parsecmd_unparse [of "List (Redir (Pipe (Exec [[108, 115]]) (Exec [[119, 99]])) [102] 0x201 1)
      (Back (Exec [[97]]))"]
  by (simp add: paren_def redir_text_def word_ok_def plain_def symbols_def whitespace_def MAXARGS_def)

end
