(* ===== verification/Mkfs.thy ===== *)
theory Mkfs
  imports Fs
begin

text \<open>
  The tool that makes the first disk image (\<^verbatim>\<open>mkfs.c\<close>).  The image is its sectors; the calls of the host
  (\<^verbatim>\<open>lseek\<close>, \<^verbatim>\<open>read\<close>, \<^verbatim>\<open>write\<close> of the image file) succeed, and a file to put into the image is its name and
  what the calls of \<^verbatim>\<open>read\<close> return for it.  The host is little-endian, as \<^verbatim>\<open>xshort\<close> and \<^verbatim>\<open>xint\<close> make the image.
\<close>

definition NINODES :: u32 where "NINODES = 200"
definition nbitmap :: u32 where "nbitmap = FSSIZE div (512 * 8) + 1"
definition ninodeblocks :: u32 where "ninodeblocks = NINODES div IPB + 1"
definition nlog :: u32 where "nlog = of_nat LOGSIZE"

definition nmeta :: u32 where
  "nmeta = 2 + SWAP_BLOCKS + nlog + ninodeblocks + nbitmap"

text \<open>The superblock as \<^verbatim>\<open>main\<close> fills it in.\<close>

definition mk_sb :: superblock where
  "mk_sb =
     (let logstart = 2 + SWAP_BLOCKS; inodestart = logstart + nlog; bmapstart = inodestart + ninodeblocks in
      \<lparr>sb_size = FSSIZE, sb_nswap = SWAP_BLOCKS, sb_nblocks = FSSIZE - bmapstart, sb_ninodes = NINODES,
       sb_nlog = nlog, sb_logstart = logstart, sb_inodestart = inodestart, sb_bmapstart = bmapstart\<rparr>)"

definition put_sb :: "superblock \<Rightarrow> u8 list \<Rightarrow> u8 list" where
  "put_sb sb d = put_words [sb_size sb, sb_nswap sb, sb_nblocks sb, sb_ninodes sb, sb_nlog sb,
     sb_logstart sb, sb_inodestart sb, sb_bmapstart sb] 0 d"

record image =
  sect :: "u32 \<Rightarrow> u8 list"
  freeinode :: u32
  freeblock :: u32

definition zeroes :: "u8 list" where "zeroes = replicate BSIZE 0"

definition wsect :: "u32 \<Rightarrow> u8 list \<Rightarrow> image \<Rightarrow> image" where
  "wsect sec b g = g\<lparr>sect := (sect g)(sec := b)\<rparr>"

definition rsect :: "u32 \<Rightarrow> image \<Rightarrow> u8 list" where
  "rsect sec g = sect g sec"

definition winode :: "u32 \<Rightarrow> dinode \<Rightarrow> image \<Rightarrow> image" where
  "winode n v g =
     (let bn = IBLOCK n mk_sb in wsect bn (put_dinode v (rsect bn g) (64 * unat (n mod IPB))) g)"

definition rinode :: "u32 \<Rightarrow> image \<Rightarrow> dinode" where
  "rinode n g = get_dinode (rsect (IBLOCK n mk_sb) g) (64 * unat (n mod IPB))"

definition mk_ialloc :: "u16 \<Rightarrow> image \<Rightarrow> u32 \<times> image" where
  "mk_ialloc ty g =
     (let n = freeinode g; g = g\<lparr>freeinode := freeinode g + 1\<rparr>;
          din = \<lparr>dtype = ty, dmajor = 0, dminor = 0, dnlink = 1, dsize = 0, daddrs = replicate 13 0\<rparr>
      in (n, winode n din g))"

text \<open>One bitmap block: \<open>bidx\<close> covers the 4096 blocks from \<open>bidx * 4096\<close> on.\<close>

definition bitmap_block :: "nat \<Rightarrow> nat \<Rightarrow> u8 list" where
  "bitmap_block used bidx =
     (let start = bidx * 512 * 8; stop = min used ((bidx + 1) * 512 * 8) in
      fold (\<lambda>i b. let off = i - start in b[off div 8 := b ! (off div 8) OR push_bit (off mod 8) 1])
        [start..<stop] zeroes)"

definition mk_balloc :: "nat \<Rightarrow> image \<Rightarrow> image" where
  "mk_balloc used g =
     fold (\<lambda>bidx g. wsect (sb_bmapstart mk_sb + of_nat bidx) (bitmap_block used bidx) g)
       [0..<unat nbitmap] g"

text \<open>The block of the file with block number \<open>fbn\<close>, allocated when there is none: the body of the loop of
  \<^verbatim>\<open>iappend\<close> up to \<open>x\<close>.\<close>

definition append_block :: "u32 \<Rightarrow> dinode \<Rightarrow> image \<Rightarrow> u32 \<times> dinode \<times> image" where
  "append_block fbn din g =
     (let k = unat fbn in
      if k < NDIRECT then
        let (din, g) = (if daddrs din ! k = 0
              then (din\<lparr>daddrs := (daddrs din)[k := freeblock g]\<rparr>, g\<lparr>freeblock := freeblock g + 1\<rparr>)
              else (din, g))
        in (daddrs din ! k, din, g)
      else
        let (din, g) = (if daddrs din ! NDIRECT = 0
              then (din\<lparr>daddrs := (daddrs din)[NDIRECT := freeblock g]\<rparr>, g\<lparr>freeblock := freeblock g + 1\<rparr>)
              else (din, g));
            ind = daddrs din ! NDIRECT; d = rsect ind g; j = 4 * (k - NDIRECT)
        in if get32 d j = 0
           then (freeblock g, din, wsect ind (put32 d j (freeblock g)) (g\<lparr>freeblock := freeblock g + 1\<rparr>))
           else (get32 d j, din, g))"

lemma chunk_pos: "0 < unat ((off div 512 + 1) * 512 - off :: u32)"
proof -
  have "off = off div 512 * 512 + off mod 512" by (simp add: div_mult_mod_eq)
  then have "(off div 512 + 1) * 512 - off = 512 - off mod 512"
    by (metis add_diff_cancel_left diff_diff_add distrib_right mult_1)
  moreover have "off mod 512 < 512" by (simp add: word_less_nat_alt unat_mod)
  then have "0 < 512 - off mod 512" by (simp add: word_less_nat_alt unat_sub_if')
  ultimately have "0 < (off div 512 + 1) * 512 - off" by (simp only:)
  then show ?thesis by (simp only: word_less_nat_alt unat_0)
qed

function iappend_loop :: "dinode \<Rightarrow> u32 \<Rightarrow> u8 list \<Rightarrow> image \<Rightarrow> (dinode \<times> u32 \<times> image) outcome" where
  "iappend_loop din off p g =
     (if p = [] then Ret (din, off, g)
      else
        let fbn = off div 512 in
        if \<not> unat fbn < MAXFILE then Panic ''assert''
        else
          let (x, din, g) = append_block fbn din g;
              n1 = min (length p) (unat ((fbn + 1) * 512 - off));
              b = rsect x g; k = unat (off - fbn * 512)
          in iappend_loop din (off + of_nat n1) (drop n1 p)
               (wsect x (take k b @ take n1 p @ drop (k + n1) b) g))"
  by pat_completeness auto
termination
  by (relation "measure (\<lambda>(din, off, p, g). length p)") (use chunk_pos in \<open>auto simp: min_def\<close>)

declare iappend_loop.simps [simp del]

definition iappend :: "u32 \<Rightarrow> u8 list \<Rightarrow> image \<Rightarrow> image outcome" where
  "iappend n p g =
     (let din = rinode n g in
      bindR (iappend_loop din (dsize din) p g) (\<lambda>(din, off, g). Ret (winode n (din\<lparr>dsize := off\<rparr>) g)))"

definition dirent :: "u32 \<Rightarrow> u8 list \<Rightarrow> u8 list" where
  "dirent n nm = put16 [0, 0] 0 (ucast n) @ take DIRSIZ (nm @ replicate DIRSIZ 0)"

fun append_all :: "u32 \<Rightarrow> u8 list list \<Rightarrow> image \<Rightarrow> image outcome" where
  "append_all n [] g = Ret g"
| "append_all n (c # cs) g = (if c = [] then Ret g else bindR (iappend n c g) (append_all n cs))"

definition add_file :: "u32 \<Rightarrow> u8 list \<times> u8 list list \<Rightarrow> image \<Rightarrow> image outcome" where
  "add_file root f g =
     (let (nm, chunks) = f in
      if slash \<in> set nm then Panic ''assert''
      else
        let nm = (if nm \<noteq> [] \<and> hd nm = 95 then tl nm else nm); (n, g) = mk_ialloc T_FILE g in
        bindR (iappend root (dirent n nm) g) (append_all n chunks))"

fun add_files :: "u32 \<Rightarrow> (u8 list \<times> u8 list list) list \<Rightarrow> image \<Rightarrow> image outcome" where
  "add_files root [] g = Ret g"
| "add_files root (f # fs) g = bindR (add_file root f g) (add_files root fs)"

definition mkfs :: "(u8 list \<times> u8 list list) list \<Rightarrow> image outcome" where
  "mkfs files =
     (let g = \<lparr>sect = (\<lambda>_. zeroes), freeinode = 1, freeblock = nmeta\<rparr>;
          g = wsect 1 (put_sb mk_sb zeroes) g;
          (root, g) = mk_ialloc T_DIR g
      in if root \<noteq> ROOTINO then Panic ''assert''
         else bindR (iappend root (dirent root [46]) g) (\<lambda>g.
           bindR (iappend root (dirent root [46, 46]) g) (\<lambda>g.
           bindR (add_files root files g) (\<lambda>g.
             let din = rinode root g;
                 g = winode root (din\<lparr>dsize := (dsize din div 512 + 1) * 512\<rparr>) g
             in Ret (mk_balloc (unat (freeblock g)) g)))))"

subsection \<open>The layout\<close>

lemmas layout = mk_sb_def nmeta_def nbitmap_def ninodeblocks_def nlog_def NINODES_def FSSIZE_def
  SWAP_BLOCKS_def IPB_def LOGSIZE_def

lemma nbitmap_5: "nbitmap = 5"
  by (simp add: layout)

lemma bitmap_start: "sb_bmapstart mk_sb = 6458"
  by (simp add: layout Let_def)

subsection \<open>The bitmap\<close>

lemma fold_set_bits:
  assumes "length d = 512" and "n \<le> 4096"
  shows "length (fold (\<lambda>i b. let off = i - st in b[off div 8 := b ! (off div 8) OR push_bit (off mod 8) 1])
      [st..<st + n] d) = 512 \<and>
    (\<forall>j. bit_of (fold (\<lambda>i b. let off = i - st in b[off div 8 := b ! (off div 8) OR push_bit (off mod 8) 1])
      [st..<st + n] d) j \<longleftrightarrow> j < n \<or> bit_of d j)"
  using assms(2)
proof (induction n)
  case (Suc n)
  then show ?case
    using assms(1) set_bit_of [of n] by (auto simp: Let_def less_Suc_eq)
qed (use assms in simp)

lemma bitmap_block_bits:
  assumes "i < 4096"
  shows "bit_of (bitmap_block used b) i \<longleftrightarrow> b * 4096 + i < used"
proof -
  define n where "n = min used ((b + 1) * 512 * 8) - b * 512 * 8"
  have z: "\<not> bit_of zeroes i" using assms by (simp add: bit_of_def zeroes_def BSIZE_def)
  have n: "n \<le> 4096" by (simp add: n_def)
  have f: "[b * 512 * 8..<min used ((b + 1) * 512 * 8)] = [b * 512 * 8..<b * 512 * 8 + n]"
    by (cases "b * 512 * 8 \<le> used") (auto simp: n_def)
  have lz: "length zeroes = 512" by (simp add: zeroes_def BSIZE_def)
  have "bit_of (bitmap_block used b) i \<longleftrightarrow> i < n"
    unfolding bitmap_block_def Let_def f
    using fold_set_bits [OF lz n, of "b * 512 * 8", unfolded Let_def] z by blast
  then show ?thesis using assms by (auto simp: n_def)
qed

lemma fold_wsect:
  "b < n \<Longrightarrow> n \<le> 2 ^ 32 \<Longrightarrow>
   sect (fold (\<lambda>b g. wsect (a + of_nat b) (f b) g) [0..<n] g) (a + of_nat b) = f b"
proof (induction n)
  case (Suc n)
  have "a + of_nat b = a + of_nat n \<longleftrightarrow> b = n" using Suc.prems by (intro plus_of_nat_eq_iff) simp_all
  then show ?case using Suc by (auto simp: wsect_def)
qed simp

lemma mk_balloc_bit:
  assumes "unat b < 5 * 4096"
  shows "bit_of (rsect (BBLOCK b mk_sb) (mk_balloc used g)) (unat (b mod BPB)) \<longleftrightarrow> unat b < used"
proof -
  have m: "unat (b mod BPB) = unat b mod 4096" by (simp add: BPB_def unat_mod)
  have "unat b div 4096 < 5" using assms by (simp add: less_mult_imp_div_less)
  moreover have "BBLOCK b mk_sb = sb_bmapstart mk_sb + of_nat (unat b div 4096)"
    by (simp add: BBLOCK_def BPB_def word_arith_nat_div)
  ultimately have "rsect (BBLOCK b mk_sb) (mk_balloc used g) = bitmap_block used (unat b div 4096)"
    using fold_wsect [of "unat b div 4096" 5 "sb_bmapstart mk_sb" "bitmap_block used" g]
    by (simp add: rsect_def mk_balloc_def nbitmap_5)
  then show ?thesis
    using bitmap_block_bits [of "unat b mod 4096" used "unat b div 4096"] by (simp add: m)
qed

text \<open>the bitmap that \<^verbatim>\<open>mkfs\<close> writes, read the way the kernel reads it, marks exactly the blocks below
  the first free one, over all its five blocks.\<close>
theorem mkfs_bitmap:
  assumes "unat b < 5 * 4096"
  shows "bit_of (rsect (BBLOCK b mk_sb) (mk_balloc used g)) (unat (b mod BPB)) \<longleftrightarrow> unat b < used"
  using assms by (rule mk_balloc_bit)

theorem mkfs_bitmap_witness:
  "bit_of (rsect (BBLOCK 6462 mk_sb) (mk_balloc 6463 \<lparr>sect = \<lambda>_. zeroes, freeinode = 1, freeblock = nmeta\<rparr>))
     (unat (6462 mod BPB :: u32))"
  using mkfs_bitmap [of 6462 6463 "\<lparr>sect = \<lambda>_. zeroes, freeinode = 1, freeblock = nmeta\<rparr>"] by simp

subsection \<open>The inode table\<close>

definition table_ok :: "image \<Rightarrow> bool" where
  "table_ok g \<longleftrightarrow> (\<forall>b. length (sect g b) = BSIZE)"

lemma inode_slot:
  fixes n :: u32
  shows "64 * unat (n mod IPB) + 64 \<le> 512" and "IBLOCK n mk_sb = sb_inodestart mk_sb + n div 8"
    and "unat (n mod IPB) = unat n mod 8"
proof -
  show u: "unat (n mod IPB) = unat n mod 8" by (simp add: IPB_def unat_mod)
  have "unat n mod 8 < 8" by simp
  then show "64 * unat (n mod IPB) + 64 \<le> 512" unfolding u by linarith
  show "IBLOCK n mk_sb = sb_inodestart mk_sb + n div 8" by (simp add: IBLOCK_def IPB_def)
qed

lemma inode_same_slot:
  fixes n m :: u32
  assumes "n div 8 = m div 8" and "unat n mod 8 = unat m mod 8"
  shows "n = m"
proof -
  have "unat n div 8 = unat m div 8" using arg_cong [OF assms(1), of unat] by (simp add: unat_div)
  then have "unat n = unat m" using assms(2) by (metis div_mult_mod_eq)
  then show ?thesis by (simp add: word_unat_eq_iff)
qed

text \<open>the inode table of the image is a table: writing an inode and reading it back gives it unchanged,
  and every other inode, also of the same block, keeps its value.\<close>
theorem rinode_winode:
  assumes "table_ok g" and "length (daddrs v) = 13"
  shows "rinode n (winode m v g) = (if n = m then v else rinode n g) \<and> table_ok (winode m v g)"
proof -
  let ?d = "rsect (IBLOCK m mk_sb) g"
  have len: "length ?d = 512" using assms(1) by (simp add: table_ok_def rsect_def BSIZE_def)
  have ok: "table_ok (winode m v g)"
    using assms(1) by (simp add: table_ok_def winode_def Let_def wsect_def rsect_def)
  have rd: "rinode n (winode m v g) = (if IBLOCK n mk_sb = IBLOCK m mk_sb
      then get_dinode (put_dinode v ?d (64 * unat (m mod IPB))) (64 * unat (n mod IPB)) else rinode n g)"
    by (simp add: rinode_def winode_def Let_def wsect_def rsect_def)
  consider "n = m" | "n \<noteq> m" "n div 8 = m div 8" | "n \<noteq> m" "n div 8 \<noteq> m div 8" by blast
  then show ?thesis
  proof cases
    case 1
    then show ?thesis
      using get_put_dinode [of "64 * unat (m mod IPB)" ?d v] inode_slot(1) [of m] len assms(2) ok rd by simp
  next
    case 2
    then have ne: "unat n mod 8 \<noteq> unat m mod 8" using inode_same_slot by blast
    have "64 * unat (n mod IPB) + 64 \<le> 64 * unat (m mod IPB) \<or> 64 * unat (m mod IPB) + 64 \<le> 64 * unat (n mod IPB)"
      unfolding inode_slot(3) using ne by linarith
    then have "get_dinode (put_dinode v ?d (64 * unat (m mod IPB))) (64 * unat (n mod IPB)) =
        get_dinode ?d (64 * unat (n mod IPB))" using assms(2) by (rule get_put_dinode_other)
    then show ?thesis using 2 rd ok by (simp add: inode_slot(2) rinode_def)
  next
    case 3
    then show ?thesis using rd ok by (simp add: inode_slot(2))
  qed
qed

theorem rinode_winode_witness:
  "rinode 5 (winode 6 \<lparr>dtype = 1, dmajor = 0, dminor = 0, dnlink = 1, dsize = 32, daddrs = replicate 13 7\<rparr>
     \<lparr>sect = \<lambda>_. zeroes, freeinode = 1, freeblock = nmeta\<rparr>) =
   rinode 5 \<lparr>sect = \<lambda>_. zeroes, freeinode = 1, freeblock = nmeta\<rparr>"
  using rinode_winode [of "\<lparr>sect = \<lambda>_. zeroes, freeinode = 1, freeblock = nmeta\<rparr>"
      "\<lparr>dtype = 1, dmajor = 0, dminor = 0, dnlink = 1, dsize = 32, daddrs = replicate 13 7\<rparr>" 5 6]
  by (simp add: table_ok_def zeroes_def)

end
