(* ===== verification/Frames.thy ===== *)
theory Frames
  imports Syscall
begin

text \<open>
  What the routines of one layer leave alone in the layers above: the buffer cache and the log keep the
  inodes, the file system keeps the file table, and memory management keeps the descriptors and the file system.
\<close>

subsection \<open>The log\<close>

lemma io_logsys: "iosys.more s' = iosys.more s \<Longrightarrow> logsys.more s' = logsys.more s"
  by (cases s; cases s') simp

lemma logsys_fssys:
  fixes s s' :: "'a fssys_scheme"
  assumes "logsys.more s' = logsys.more s"
  shows "fssys.more s' = fssys.more s"
proof -
  have "s' = s\<lparr>curpid := curpid s', bufs := bufs s', disk := disk s', havedisk1 := havedisk1 s',
      idequeue := idequeue s', ide_fault := ide_fault s', lg_start := lg_start s', lg_size := lg_size s',
      lg_outstanding := lg_outstanding s', lg_committing := lg_committing s', lg_dev := lg_dev s',
      lh_n := lh_n s', lh_block := lh_block s'\<rparr>" (is "s' = ?t")
    by (rule logsys.equality) (simp_all add: assms)
  moreover have "fssys.more ?t = fssys.more s" by simp
  ultimately show ?thesis by metis
qed

lemma logsys_upd [simp]:
  "logsys.more (s\<lparr>lh_n := a\<rparr>) = logsys.more s" "logsys.more (s\<lparr>lh_block := b\<rparr>) = logsys.more s"
  "logsys.more (s\<lparr>lg_outstanding := c\<rparr>) = logsys.more s" "logsys.more (s\<lparr>lg_committing := d\<rparr>) = logsys.more s"
  "logsys.more (upd_buf i f s) = logsys.more s" "logsys.more (set_data i x s) = logsys.more s"
  by (simp_all add: upd_buf_def set_data_def)

lemma bread_log: "bread d n s = Ret (i, s') \<Longrightarrow> logsys.more s' = logsys.more s"
  by (rule io_logsys) (rule bread_more)

lemma bwrite_log: "bwrite i s = Ret s' \<Longrightarrow> logsys.more s' = logsys.more s"
  by (rule io_logsys) (rule bwrite_more)

lemma brelse_log: "brelse i s = Ret s' \<Longrightarrow> logsys.more s' = logsys.more s"
  by (rule io_logsys) (rule brelse_more)

lemma for_tail_frame:
  assumes "\<And>t s s'. body t s = Ret s' \<Longrightarrow> f s' = f s"
  shows "for_tail body t n s = Ret s' \<Longrightarrow> f s' = f s"
proof (induction n arbitrary: t s)
  case (Suc n)
  then show ?case using assms by fastforce
qed simp

lemma install_body_log: "install_body t s = Ret s' \<Longrightarrow> logsys.more s' = logsys.more s"
  by (auto simp: install_body_def dest!: bread_log bwrite_log brelse_log)

lemma write_log_body_log: "write_log_body t s = Ret s' \<Longrightarrow> logsys.more s' = logsys.more s"
  by (auto simp: write_log_body_def dest!: bread_log bwrite_log brelse_log)

lemma write_head_log: "write_head s = Ret s' \<Longrightarrow> logsys.more s' = logsys.more s"
  by (auto simp: write_head_def Let_def dest!: bread_log bwrite_log brelse_log)

lemma install_trans_log: "install_trans s = Ret s' \<Longrightarrow> logsys.more s' = logsys.more s"
  unfolding install_trans_def by (rule for_tail_frame [where f = logsys.more]) (rule install_body_log)

lemma write_log_log: "write_log s = Ret s' \<Longrightarrow> logsys.more s' = logsys.more s"
  unfolding write_log_def by (rule for_tail_frame [where f = logsys.more]) (rule write_log_body_log)

lemma begin_op_log: "begin_op s = Ret s' \<Longrightarrow> logsys.more s' = logsys.more s"
  by (auto simp: begin_op_def split: if_splits)

lemma commit_log: "commit s = Ret s' \<Longrightarrow> logsys.more s' = logsys.more s"
  by (auto simp: commit_def dest!: write_log_log write_head_log install_trans_log split: if_splits)

lemma end_op_log: "end_op s = Ret s' \<Longrightarrow> logsys.more s' = logsys.more s"
  by (auto simp: end_op_def Let_def dest!: commit_log split: if_splits)

lemma log_write_log: "log_write b s = Ret s' \<Longrightarrow> logsys.more s' = logsys.more s"
  by (auto simp: log_write_def Let_def split: if_splits option.splits)

subsection \<open>The file system\<close>

text \<open>\<open>fssys.more\<close> is what is above the file system.\<close>

lemma keeps_upd [simp]:
  "fssys.more (upd_inode i f t) = fssys.more t" "fssys.more (set_data j x t) = fssys.more t"
  "fssys.more (upd_buf j g t) = fssys.more t"
  by (simp_all add: upd_inode_def set_data_def upd_buf_def)

lemma log_keeps: "logsys.more s' = logsys.more s \<Longrightarrow> fssys.more s' = fssys.more s"
  by (rule logsys_fssys)

lemma bread_keeps: "bread d n s = Ret (i, s') \<Longrightarrow> fssys.more s' = fssys.more s"
  by (rule log_keeps) (rule bread_log)

lemma brelse_keeps: "brelse i s = Ret s' \<Longrightarrow> fssys.more s' = fssys.more s"
  by (rule log_keeps) (rule brelse_log)

lemma log_write_keeps: "log_write i s = Ret s' \<Longrightarrow> fssys.more s' = fssys.more s"
  by (rule log_keeps) (rule log_write_log)

lemma op_keeps: "begin_op s = Ret s' \<Longrightarrow> fssys.more s' = fssys.more s" "end_op s = Ret s' \<Longrightarrow> fssys.more s' = fssys.more s"
  by (rule log_keeps; erule begin_op_log end_op_log)+

lemmas block_keeps = bread_keeps brelse_keeps log_write_keeps op_keeps

lemma bzero_keeps: "bzero d b s = Ret s' \<Longrightarrow> fssys.more s' = fssys.more s"
  by (auto simp: bzero_def dest!: block_keeps)

lemma balloc_from_keeps: "balloc_from k d b s = Ret (a, s') \<Longrightarrow> fssys.more s' = fssys.more s"
proof (induction k arbitrary: b s)
  case (Suc n)
  then obtain i u where u: "bread d (BBLOCK b (fsb s)) s = Ret (i, u)"
    by (auto split: if_splits)
  show ?case
  proof (cases "free_bit (data (bufs u ! i)) b (sb_size (fsb u)) (unat BPB) 0")
    case None
    then obtain v where v: "brelse i u = Ret v" "balloc_from n d (b + BPB) v = Ret (a, s')"
      using Suc.prems u by (auto split: if_splits)
    show ?thesis using Suc.IH [OF v(2)] brelse_keeps [OF v(1)] bread_keeps [OF u] by simp
  next
    case (Some bi)
    then show ?thesis
      using Suc.prems u by (auto simp: Let_def dest!: block_keeps bzero_keeps split: if_splits)
  qed
qed simp

lemma balloc_keeps: "balloc d s = Ret (a, s') \<Longrightarrow> fssys.more s' = fssys.more s"
  unfolding balloc_def by (rule balloc_from_keeps)

lemma bfree_keeps: "bfree d b s = Ret s' \<Longrightarrow> fssys.more s' = fssys.more s"
  by (auto simp: bfree_def Let_def dest!: block_keeps split: if_splits)

lemma iget_keeps: "iget d n s = Ret (i, s') \<Longrightarrow> fssys.more s' = fssys.more s"
  by (auto simp: iget_def split: option.splits)

lemma ialloc_from_keeps: "ialloc_from k d t n s = Ret (i, s') \<Longrightarrow> fssys.more s' = fssys.more s"
proof (induction k arbitrary: n s)
  case (Suc k)
  then obtain j u where u: "bread d (IBLOCK n (fsb s)) s = Ret (j, u)"
    by (auto split: if_splits)
  show ?case
  proof (cases "get16 (data (bufs u ! j)) (64 * unat (n mod IPB)) = 0")
    case False
    then obtain v where v: "brelse j u = Ret v" "ialloc_from k d t (n + 1) v = Ret (i, s')"
      using Suc.prems u by (auto simp: Let_def split: if_splits)
    show ?thesis using Suc.IH [OF v(2)] brelse_keeps [OF v(1)] bread_keeps [OF u] by simp
  next
    case True
    then show ?thesis
      using Suc.prems u by (auto simp: Let_def dest!: block_keeps iget_keeps split: if_splits)
  qed
qed simp

lemma ialloc_keeps: "ialloc d t s = Ret (i, s') \<Longrightarrow> fssys.more s' = fssys.more s"
  unfolding ialloc_def by (rule ialloc_from_keeps)

lemma iupdate_keeps: "iupdate ip s = Ret s' \<Longrightarrow> fssys.more s' = fssys.more s"
  by (auto simp: iupdate_def Let_def dest!: block_keeps)

lemma ilock_keeps:
  assumes "ilock ip s = Ret s'"
  shows "fssys.more s' = fssys.more s"
proof -
  obtain l where l: "acquiresleep (curpid s) (ilk (inodes s ! ip)) = Ret l"
    using assms by (auto simp: ilock_def split: if_splits)
  define t where "t = upd_inode ip (\<lambda>p. p\<lparr>ilk := l\<rparr>) s"
  have t: "fssys.more t = fssys.more s" by (simp add: t_def)
  show ?thesis
  proof (cases "ivalid (inodes t ! ip)")
    case True
    then have "s' = t" using assms l by (simp add: ilock_def Let_def t_def split: if_splits)
    then show ?thesis using t by simp
  next
    case False
    let ?p = "inodes t ! ip"
    obtain i u where u: "bread (idev ?p) (IBLOCK (inum ?p) (fsb t)) t = Ret (i, u)"
      using assms l False by (auto simp: ilock_def Let_def t_def split: if_splits)
    have "\<exists>w x. brelse i w = Ret x \<and> fssys.more w = fssys.more u \<and> fssys.more s' = fssys.more x"
      using assms l False u by (fastforce simp: ilock_def Let_def t_def split: if_splits)
    then show ?thesis using brelse_keeps bread_keeps [OF u] t by fastforce
  qed
qed

lemma iunlock_keeps: "iunlock ip s = Ret s' \<Longrightarrow> fssys.more s' = fssys.more s"
  by (auto simp: iunlock_def Let_def split: if_splits)

lemma bmap_keeps: "bmap ip bn s = Ret (a, s') \<Longrightarrow> fssys.more s' = fssys.more s"
  by (auto simp: bmap_def Let_def dest!: block_keeps balloc_keeps split: if_splits)

lemma free_direct_keeps: "free_direct ip n i s = Ret s' \<Longrightarrow> fssys.more s' = fssys.more s"
proof (induction n arbitrary: i s)
  case (Suc n)
  show ?case
  proof (cases "addrs (inodes s ! ip) ! i = 0")
    case False
    then obtain u where u: "bfree (idev (inodes s ! ip)) (addrs (inodes s ! ip) ! i) s = Ret u"
        "free_direct ip n (i + 1) (upd_inode ip (\<lambda>p. p\<lparr>addrs := (addrs p)[i := 0]\<rparr>) u) = Ret s'"
      using Suc.prems by (auto simp: Let_def)
    show ?thesis using Suc.IH [OF u(2)] bfree_keeps [OF u(1)] by simp
  qed (use Suc in \<open>auto simp: Let_def\<close>)
qed simp

lemma free_indirect_keeps: "free_indirect d b n j s = Ret s' \<Longrightarrow> fssys.more s' = fssys.more s"
proof (induction n arbitrary: j s)
  case (Suc n)
  then obtain u where u: "(if get32 (data (bufs s ! b)) (4 * j) \<noteq> 0
        then bfree d (get32 (data (bufs s ! b)) (4 * j)) s else Ret s) = Ret u" "free_indirect d b n (j + 1) u = Ret s'"
    by (auto simp: Let_def)
  have "fssys.more u = fssys.more s" using u(1) by (auto dest: bfree_keeps split: if_splits)
  then show ?case using Suc.IH [OF u(2)] by simp
qed simp

lemma itrunc_keeps: "itrunc ip s = Ret s' \<Longrightarrow> fssys.more s' = fssys.more s"
  by (auto simp: itrunc_def Let_def dest!: block_keeps free_direct_keeps free_indirect_keeps bfree_keeps
      iupdate_keeps split: if_splits)

lemma iput_keeps: "iput ip s = Ret s' \<Longrightarrow> fssys.more s' = fssys.more s"
  by (auto simp: iput_def Let_def dest!: itrunc_keeps iupdate_keeps split: if_splits)

lemma iunlockput_keeps: "iunlockput ip s = Ret s' \<Longrightarrow> fssys.more s' = fssys.more s"
  by (auto simp: iunlockput_def dest!: iunlock_keeps iput_keeps)

lemma read_loop_keeps: "read_loop ip off r s = Ret (xs, s') \<Longrightarrow> fssys.more s' = fssys.more s"
proof (induction ip off r s arbitrary: xs s' rule: read_loop.induct)
  case (1 ip off r s)
  show ?case
  proof (cases "r = 0")
    case False
    then obtain a t i u v ys w where "bmap ip (off div 512) s = Ret (a, t)" "bread (idev (inodes t ! ip)) a t = Ret (i, u)"
        "brelse i u = Ret v" "read_loop ip (off + min r (512 - off mod 512)) (r - min r (512 - off mod 512)) v = Ret (ys, w)"
        "s' = w"
      using 1(2) by (subst (asm) read_loop.simps) (auto simp: Let_def)
    then show ?thesis using 1(1) [OF False] bmap_keeps block_keeps(1,2) by metis
  qed (use 1(2) in \<open>subst (asm) read_loop.simps, simp\<close>)
qed

lemma readi_keeps: "readi ip off n s = Ret (r, s') \<Longrightarrow> fssys.more s' = fssys.more s"
  by (auto simp: readi_def Let_def dest!: read_loop_keeps split: if_splits)

lemma write_loop_keeps: "write_loop ip off src r s = Ret (x, s') \<Longrightarrow> fssys.more s' = fssys.more s"
proof (induction ip off src r s rule: write_loop.induct)
  case (1 ip off src r s)
  let ?m = "min r (512 - off mod 512)" and ?k = "unat (off mod 512)"
  show ?case
  proof (cases "r = 0")
    case False
    then obtain a t i u v w where s: "bmap ip (off div 512) s = Ret (a, t)" "bread (idev (inodes t ! ip)) a t = Ret (i, u)"
        "log_write i (set_data i (take ?k (data (bufs u ! i)) @ take (unat ?m) src @ drop (?k + unat ?m) (data (bufs u ! i))) u) = Ret v"
        "brelse i v = Ret w" "write_loop ip (off + ?m) (drop (unat ?m) src) (r - ?m) w = Ret (x, s')"
      using 1(2) by (subst (asm) write_loop.simps) (auto simp: Let_def)
    have "fssys.more w = fssys.more s"
      using bmap_keeps [OF s(1)] bread_keeps [OF s(2)] log_write_keeps [OF s(3)] brelse_keeps [OF s(4)] by simp
    moreover have "fssys.more s' = fssys.more w"
      by (rule 1(1) [OF False s(1) _ s(2) _ _ _ _ s(3) s(4) s(5)]) simp_all
    ultimately show ?thesis by simp
  qed (use 1(2) in \<open>subst (asm) write_loop.simps, simp\<close>)
qed

lemma writei_keeps: "writei ip src off n s = Ret (r, s') \<Longrightarrow> fssys.more s' = fssys.more s"
  by (auto simp: writei_def Let_def dest!: write_loop_keeps iupdate_keeps split: if_splits)

subsection \<open>Directories and paths\<close>

lemma lookup_from_keeps: "lookup_from k dp nm off s = Ret (r, s') \<Longrightarrow> fssys.more s' = fssys.more s"
proof (induction k arbitrary: off s)
  case (Suc k)
  show ?case
  proof (cases "off < isize (inodes s ! dp)")
    case True
    then obtain x u where u: "readi dp off 16 s = Ret (x, u)" using Suc.prems by auto
    then obtain c de where x: "x = Data c de" "c = 16"
      using Suc.prems True by (auto split: io.splits if_splits)
    show ?thesis
    proof (cases "get16 de 0 = 0 \<or> namecmp nm (drop 2 de) \<noteq> 0")
      case True
      then have "lookup_from k dp nm (off + 16) u = Ret (r, s')"
        using Suc.prems \<open>off < _\<close> u x by (auto split: if_splits)
      then show ?thesis using Suc.IH readi_keeps [OF u] by metis
    next
      case False
      then show ?thesis
        using Suc.prems True u x readi_keeps [OF u] by (auto dest!: iget_keeps)
    qed
  qed (use Suc.prems in simp)
qed simp

lemma dirlookup_keeps: "dirlookup dp nm s = Ret (r, s') \<Longrightarrow> fssys.more s' = fssys.more s"
  by (auto simp: dirlookup_def simp del: lookup_from.simps dest!: lookup_from_keeps split: if_splits)

lemma empty_from_keeps: "empty_from k dp off de s = Ret (x, y, s') \<Longrightarrow> fssys.more s' = fssys.more s"
proof (induction k arbitrary: off de s)
  case (Suc k)
  show ?case
  proof (cases "off < isize (inodes s ! dp)")
    case True
    then obtain z u where u: "readi dp off 16 s = Ret (z, u)" using Suc.prems by auto
    then obtain c e where x: "z = Data c e" "c = 16"
      using Suc.prems True by (auto split: io.splits if_splits)
    show ?thesis
    proof (cases "get16 e 0 = 0")
      case True
      then show ?thesis using Suc.prems \<open>off < _\<close> u x readi_keeps [OF u] by auto
    next
      case False
      then have "empty_from k dp (off + 16) e u = Ret (x, y, s')"
        using Suc.prems \<open>off < _\<close> u x by auto
      then show ?thesis using Suc.IH readi_keeps [OF u] by metis
    qed
  qed (use Suc.prems in simp)
qed simp

lemma dirlink_keeps:
  assumes "dirlink dp nm n de s = Ret (r, s')"
  shows "fssys.more s' = fssys.more s"
proof -
  obtain q t where t: "dirlookup dp nm s = Ret (q, t)" using assms by (auto simp: dirlink_def)
  show ?thesis
  proof (cases q)
    case None
    then obtain off e u where u: "empty_from (unat (isize (inodes t ! dp)) div 16 + 2) dp 0 de t = Ret (off, e, u)"
      using assms t by (auto simp: dirlink_def simp del: empty_from.simps)
    then obtain w v where w: "writei dp (mk_dirent n nm e) off 16 u = Ret (w, v)"
      using assms t None by (auto simp: dirlink_def simp del: empty_from.simps)
    then have "s' = v"
      using assms t None u by (cases w) (auto simp: dirlink_def simp del: empty_from.simps split: if_splits)
    then show ?thesis using dirlookup_keeps [OF t] empty_from_keeps [OF u] writei_keeps [OF w] by simp
  next
    case (Some x)
    then show ?thesis
      using assms t dirlookup_keeps [OF t] by (cases x) (auto simp: dirlink_def dest!: iput_keeps)
  qed
qed

lemma idup_keeps [simp]: "fssys.more (idup ip s) = fssys.more s"
  by (simp add: idup_def)

lemma namex_loop_keeps: "namex_loop path nip nm ip s = Ret (r, n, s') \<Longrightarrow> fssys.more s' = fssys.more s"
proof (induction "length path" arbitrary: path nm ip s rule: less_induct)
  case less
  show ?case
  proof (cases "skipelem path nm")
    case None
    then show ?thesis
      using less.prems by (subst (asm) namex_loop.simps) (auto dest!: iput_keeps split: if_splits)
  next
    case (Some x)
    obtain rest e where x: "x = (rest, e)" by (rule prod.exhaust)
    note len = skipelem_length [OF Some [unfolded x]]
    obtain t where t: "ilock ip s = Ret t"
      using less.prems Some x by (subst (asm) namex_loop.simps) auto
    consider "itype (inodes t ! ip) \<noteq> T_DIR" | "itype (inodes t ! ip) = T_DIR" "nip \<and> rest = []"
      | "itype (inodes t ! ip) = T_DIR" "\<not> (nip \<and> rest = [])" by blast
    then show ?thesis
    proof cases
      case 1
      then show ?thesis
        using less.prems Some x t ilock_keeps [OF t]
        by (subst (asm) namex_loop.simps) (auto dest!: iunlockput_keeps)
    next
      case 2
      then show ?thesis
        using less.prems Some x t ilock_keeps [OF t]
        by (subst (asm) namex_loop.simps) (auto dest!: iunlock_keeps)
    next
      case 3
      then obtain y u where u: "dirlookup ip e t = Ret (y, u)"
        using less.prems Some x t by (subst (asm) namex_loop.simps) auto
      show ?thesis
      proof (cases y)
        case None
        then show ?thesis
          using less.prems Some x t 3 u ilock_keeps [OF t] dirlookup_keeps [OF u]
          by (subst (asm) namex_loop.simps) (auto dest!: iunlockput_keeps)
      next
        case (Some z)
        then obtain v where v: "iunlockput ip u = Ret v" "namex_loop rest nip e (fst z) v = Ret (r, n, s')"
          using less.prems \<open>skipelem path nm = Some x\<close> x t 3 u
          by (subst (asm) namex_loop.simps) (auto split: prod.splits)
        then show ?thesis
          using less.hyps [OF len v(2)] iunlockput_keeps [OF v(1)] ilock_keeps [OF t] dirlookup_keeps [OF u] by simp
      qed
    qed
  qed
qed

lemma namex_keeps: "namex wd path nip nm s = Ret (r, n, s') \<Longrightarrow> fssys.more s' = fssys.more s"
  by (auto simp: namex_def dest!: iget_keeps namex_loop_keeps split: if_splits option.splits)

lemma namei_keeps: "namei wd path st s = Ret (r, s') \<Longrightarrow> fssys.more s' = fssys.more s"
  by (auto simp: namei_def dest!: namex_keeps)

lemma nameiparent_keeps: "nameiparent wd path nm s = Ret (r, n, s') \<Longrightarrow> fssys.more s' = fssys.more s"
  by (auto simp: nameiparent_def dest!: namex_keeps)

lemma create_keeps:
  assumes "create wd path ty mj mn t = Ret (r, t')"
  shows "fssys.more t' = fssys.more t"
proof -
  obtain q nm u where u: "nameiparent wd path zname t = Ret (q, nm, u)"
    using assms by (auto simp: create_def)
  show ?thesis
  proof (cases q)
    case None
    then show ?thesis using assms u nameiparent_keeps [OF u] by (simp add: create_def)
  next
    case (Some dp)
    obtain v where v: "ilock dp u = Ret v" using assms u Some by (auto simp: create_def)
    obtain d w where w: "dirlookup dp nm v = Ret (d, w)" using assms u v Some by (auto simp: create_def)
    have k: "fssys.more w = fssys.more t"
      using nameiparent_keeps [OF u] ilock_keeps [OF v] dirlookup_keeps [OF w] by simp
    show ?thesis
    proof (cases d)
      case None
      then show ?thesis
        using assms u v w Some k
        by (auto simp: create_def dest!: ialloc_keeps ilock_keeps iupdate_keeps dirlink_keeps iunlockput_keeps
            split: if_splits)
    next
      case (Some x)
      then show ?thesis
        using assms u v w \<open>q = Some dp\<close> k
        by (cases x) (auto simp: create_def dest!: ilock_keeps iunlockput_keeps split: if_splits)
    qed
  qed
qed

lemma open_inode_keeps:
  assumes "open_inode wd path om t = Ret (r, t')"
  shows "fssys.more t' = fssys.more t"
proof -
  obtain u where u: "begin_op t = Ret u" using assms by (auto simp: open_inode_def)
  note ku = op_keeps(1) [OF u]
  show ?thesis
  proof (cases "om AND O_CREATE \<noteq> 0")
    case True
    then obtain q v where v: "create wd path T_FILE 0 0 u = Ret (q, v)"
      using assms u by (auto simp: open_inode_def)
    then show ?thesis
      using assms u True ku create_keeps [OF v]
      by (auto simp: open_inode_def dest!: op_keeps(2) split: if_splits)
  next
    case False
    then obtain q v where v: "namei wd path zname u = Ret (q, v)"
      using assms u by (auto simp: open_inode_def)
    note kv = namei_keeps [OF v]
    show ?thesis
    proof (cases q)
      case None
      then show ?thesis
        using assms u v False ku kv by (auto simp: open_inode_def dest!: op_keeps(2))
    next
      case (Some ip)
      then obtain w where w: "ilock ip v = Ret w"
        using assms u v False by (auto simp: open_inode_def)
      show ?thesis
      proof (cases "itype (inodes w ! ip) = T_DIR \<and> om \<noteq> O_RDONLY")
        case True
        then obtain x where "iunlockput ip w = Ret x" "end_op x = Ret t'"
          using assms u v w False Some by (auto simp: open_inode_def)
        then show ?thesis using ku kv ilock_keeps [OF w] iunlockput_keeps op_keeps(2) by metis
      next
        case nd: False
        then show ?thesis
          using assms u v w False Some ku kv ilock_keeps [OF w] by (auto simp: open_inode_def)
      qed
    qed
  qed
qed

subsection \<open>Memory\<close>

text \<open>Memory management changes, besides the memory and its free list, only the resident-set counts.\<close>

definition vm_frame :: "'a ksys_scheme \<Rightarrow> 'a ksys_scheme \<Rightarrow> bool" where
  "vm_frame s s' \<longleftrightarrow> ksys.more s' = ksys.more s \<and> cur s' = cur s \<and> initproc s' = initproc s \<and> nextpid s' = nextpid s \<and>
     map (\<lambda>p. p\<lparr>rss := 0\<rparr>) (ptable s') = map (\<lambda>p. p\<lparr>rss := 0\<rparr>) (ptable s)"

lemma vm_frame_refl [simp]: "vm_frame s s"
  by (simp add: vm_frame_def)

lemma vm_frame_trans: "vm_frame s t \<Longrightarrow> vm_frame t u \<Longrightarrow> vm_frame s u"
  by (simp add: vm_frame_def)

lemma kmem_ksys:
  fixes s s' :: "'a ksys_scheme"
  assumes "kmem.more s' = kmem.more s"
  shows "ksys.more s' = ksys.more s \<and> cur s' = cur s \<and> initproc s' = initproc s \<and> ptable s' = ptable s \<and>
    nextpid s' = nextpid s"
proof -
  have "s' = s\<lparr>mem := mem s', kend := kend s', use_lock := use_lock s', freelist := freelist s',
      free_pages := free_pages s'\<rparr>" (is "s' = ?t")
    by (rule kmem.equality) (simp_all add: assms)
  moreover have "ksys.more ?t = ksys.more s \<and> cur ?t = cur s \<and> initproc ?t = initproc s \<and> ptable ?t = ptable s \<and>
    nextpid ?t = nextpid s"
    by simp
  ultimately show ?thesis by metis
qed

lemma kmem_vm: "kmem.more s' = kmem.more s \<Longrightarrow> vm_frame s s'"
  using kmem_ksys [of s' s] by (simp add: vm_frame_def)

lemma kalloc_more: "kalloc s = (v, s') \<Longrightarrow> kmem.more s' = kmem.more s"
  by (auto simp: kalloc_def Let_def split: if_splits)

lemma kfree_more: "kfree v s = Ret s' \<Longrightarrow> kmem.more s' = kmem.more s"
  by (auto simp: kfree_def Let_def split: if_splits)

lemma walkpgdir_more: "walkpgdir pd va a s = (pte, s') \<Longrightarrow> kmem.more s' = kmem.more s"
  by (auto simp: walkpgdir_def Let_def dest!: kalloc_more split: if_splits prod.splits)

lemma mappages_from_more: "mappages_from pd perm n a l pa s = Ret (r, s') \<Longrightarrow> kmem.more s' = kmem.more s"
proof (induction n arbitrary: a pa s)
  case (Suc n)
  obtain pte t where w: "walkpgdir pd a True s = (pte, t)" by (rule prod.exhaust)
  let ?u = "t\<lparr>mem := (mem t)(pte := pa OR perm OR PTE_P)\<rparr>"
  show ?case
  proof (cases "pte = 0 \<or> a = l")
    case True
    then show ?thesis using Suc.prems w walkpgdir_more [OF w] by (auto simp: Let_def split: if_splits)
  next
    case False
    then have "mappages_from pd perm n (a + PGSIZE) l (pa + PGSIZE) ?u = Ret (r, s')"
      using Suc.prems w by (auto simp: Let_def split: if_splits)
    then have "kmem.more s' = kmem.more ?u" by (rule Suc.IH)
    then show ?thesis using walkpgdir_more [OF w] by simp
  qed
qed simp

lemma mappages_more: "mappages pd va l pa perm s = Ret (r, s') \<Longrightarrow> kmem.more s' = kmem.more s"
  by (auto simp: mappages_def Let_def simp del: mappages_from.simps dest!: mappages_from_more)

lemma dealloc_from_more: "dealloc_from n pd a oldsz s = Ret s' \<Longrightarrow> kmem.more s' = kmem.more s"
proof (induction n arbitrary: a s)
  case (Suc n)
  obtain pte t where w: "walkpgdir pd a False s = (pte, t)" by (rule prod.exhaust)
  note wm = walkpgdir_more [OF w]
  show ?case
  proof (cases "a < oldsz")
    case True
    consider "pte = 0" | "pte \<noteq> 0" "mem t pte AND PTE_P \<noteq> 0" | "pte \<noteq> 0" "mem t pte AND PTE_P = 0" by blast
    then show ?thesis
    proof cases
      case 1
      then have "dealloc_from n pd (PGADDR (PDX a + 1) 0 0 - PGSIZE + PGSIZE) oldsz t = Ret s'"
        using Suc.prems w True by simp
      then show ?thesis using Suc.IH wm by metis
    next
      case 2
      then obtain u where u: "kfree (P2V (PTE_ADDR (mem t pte))) t = Ret u"
          "dealloc_from n pd (a + PGSIZE) oldsz (u\<lparr>mem := (mem u)(pte := 0)\<rparr>) = Ret s'"
        using Suc.prems w True by (auto simp: Let_def split: if_splits)
      show ?thesis using Suc.IH [OF u(2)] kfree_more [OF u(1)] wm by simp
    next
      case 3
      then have "dealloc_from n pd (a + PGSIZE) oldsz t = Ret s'"
        using Suc.prems w True by simp
      then show ?thesis using Suc.IH wm by metis
    qed
  qed (use Suc.prems in simp)
qed simp

lemma deallocuvm_more: "deallocuvm pd oldsz newsz s = Ret (r, s') \<Longrightarrow> kmem.more s' = kmem.more s"
  by (auto simp: deallocuvm_def simp del: dealloc_from.simps dest!: dealloc_from_more split: if_splits)

lemma set_rss_frame:
  "vm_frame s (upd_proc i (\<lambda>p. p\<lparr>rss := f p\<rparr>) s)"
  by (simp add: vm_frame_def upd_proc_def map_update_same)

lemma add_rss_frame: "add_rss d s = Ret s' \<Longrightarrow> vm_frame s s'"
  using set_rss_frame [of s _ "\<lambda>p. rss p + d"] by (auto simp: add_rss_def)

lemma free_tables_frame: "free_tables pd n i s = Ret s' \<Longrightarrow> vm_frame s s'"
proof (induction n arbitrary: i s)
  case (Suc n)
  let ?pde = "mem s (pd + 4 * i)"
  obtain t where t: "(if ?pde AND PTE_P \<noteq> 0
        then bindR (kfree (P2V (PTE_ADDR ?pde)) s) (add_rss (-1)) else Ret s) = Ret t"
      "free_tables pd n (i + 1) t = Ret s'"
    using Suc.prems by (auto simp: Let_def)
  have "vm_frame s t"
    using t(1) by (auto split: if_splits dest!: kfree_more kmem_vm add_rss_frame intro: vm_frame_trans)
  then show ?case using Suc.IH [OF t(2)] by (rule vm_frame_trans)
qed simp

lemma freevm_frame:
  assumes "freevm pd s = Ret s'"
  shows "vm_frame s s'"
proof -
  obtain r t u i where t: "deallocuvm pd KERNBASE 0 s = Ret (r, t)" "free_tables pd 1024 0 t = Ret u"
      "kfree pd (upd_proc i (\<lambda>p. p\<lparr>rss := 0\<rparr>) u) = Ret s'"
    using assms by (auto simp: freevm_def split: if_splits)
  have "vm_frame s t" using deallocuvm_more [OF t(1)] by (rule kmem_vm)
  moreover have "vm_frame t u" using t(2) by (rule free_tables_frame)
  moreover have "vm_frame u (upd_proc i (\<lambda>p. p\<lparr>rss := 0\<rparr>) u)"
    using set_rss_frame [of u i "\<lambda>p. 0"] .
  moreover have "vm_frame (upd_proc i (\<lambda>p. p\<lparr>rss := 0\<rparr>) u) s'"
    using kfree_more [OF t(3)] by (rule kmem_vm)
  ultimately show ?thesis using vm_frame_trans by blast
qed

lemma map_kernel_frame: "map_kernel pd ks s = Ret (r, s') \<Longrightarrow> vm_frame s s'"
proof (induction pd ks s rule: map_kernel.induct)
  case (2 pd v a b perm ks s)
  then obtain r1 t where t: "mappages pd v (b - a) a perm s = Ret (r1, t)" by auto
  have m: "vm_frame s t" using mappages_more [OF t] by (rule kmem_vm)
  show ?case
  proof (cases "r1 < 0")
    case True
    then show ?thesis
      using 2(2) t m by (auto dest!: freevm_frame intro: vm_frame_trans)
  next
    case False
    then have "map_kernel pd ks t = Ret (r, s')" using 2(2) t by simp
    then have "vm_frame t s'" using 2(1) [OF t _ False] by blast
    then show ?thesis using m vm_frame_trans by blast
  qed
qed simp

lemma setupkvm_frame:
  assumes "setupkvm s = Ret (r, s')"
  shows "vm_frame s s'"
proof -
  obtain pd t where k: "kalloc s = (pd, t)" by (rule prod.exhaust)
  have m: "vm_frame s t" "vm_frame s (t\<lparr>mem := x\<rparr>)" for x
    using kalloc_more [OF k] by (simp_all add: kmem_vm)
  show ?thesis
    using assms k m by (auto simp: setupkvm_def Let_def dest!: map_kernel_frame intro: vm_frame_trans split: if_splits)
qed

lemma copy_from_frame: "copy_from n pd d i z s = Ret (r, s') \<Longrightarrow> vm_frame s s'"
proof (induction n arbitrary: i s)
  case (Suc n)
  show ?case
  proof (cases "i < z")
    case True
    obtain pte t where w: "walkpgdir pd i False s = (pte, t)" by (rule prod.exhaust)
    obtain v u where k: "kalloc t = (v, u)" by (rule prod.exhaust)
    let ?pa = "PTE_ADDR (mem t pte)" and ?fl = "PTE_FLAGS (mem t pte)"
    let ?x = "u\<lparr>mem := copy_words (mem u) v (P2V ?pa) 1024\<rparr>"
    have su: "vm_frame s u" "vm_frame s ?x"
      using walkpgdir_more [OF w] kalloc_more [OF k] by (simp_all add: kmem_vm)
    have ok: "pte \<noteq> 0" "mem t pte AND PTE_P \<noteq> 0"
      using Suc.prems True w by (auto simp: Let_def split: if_splits)
    show ?thesis
    proof (cases "v = 0")
      case True
      then show ?thesis
        using Suc.prems \<open>i < z\<close> w k ok su
        by (auto simp: Let_def dest!: freevm_frame intro: vm_frame_trans)
    next
      case False
      then obtain q y where q: "mappages d i PGSIZE (V2P v) ?fl ?x = Ret (q, y)"
        using Suc.prems True w k ok by (auto simp: Let_def)
      have sy: "vm_frame s y" using mappages_more [OF q] kmem_vm su(2) vm_frame_trans by metis
      show ?thesis
      proof (cases "q < 0")
        case True
        then show ?thesis
          using Suc.prems \<open>i < z\<close> w k ok False q sy
          by (auto simp: Let_def dest!: freevm_frame kfree_more kmem_vm intro: vm_frame_trans)
      next
        case nq: False
        then have "copy_from n pd d (i + PGSIZE) z y = Ret (r, s')"
          using Suc.prems True w k ok False q by (auto simp: Let_def)
        then show ?thesis using Suc.IH sy vm_frame_trans by metis
      qed
    qed
  qed (use Suc.prems in simp)
qed simp

lemma copyuvm_frame: "copyuvm pd z s = Ret (r, s') \<Longrightarrow> vm_frame s s'"
  by (auto simp: copyuvm_def simp del: copy_from.simps dest!: setupkvm_frame copy_from_frame
      intro: vm_frame_trans split: if_splits)

end
