(* ===== verification/Descriptors.thy ===== *)
theory Descriptors
  imports Frames
begin

text \<open>
  Descriptors and open files across the system calls that change them (\<^verbatim>\<open>sysfile.c\<close>, \<^verbatim>\<open>file.c\<close>, \<^verbatim>\<open>proc.c\<close>): the
  reference count of an open file is the number of descriptors that name it.  In the middle of a call the count is off for the
  files the call works on; \<open>g f\<close> is by how much.
\<close>

definition idle :: "proc \<Rightarrow> bool" where
  "idle p \<longleftrightarrow> pstate p = UNUSED \<or> pstate p = EMBRYO \<or> pstate p = ZOMBIE"

definition slots :: "'a ksys_scheme \<Rightarrow> (bool \<times> nat option list) list" where
  "slots s = map (\<lambda>p. (idle p, ofile p)) (ptable s)"

definition fds :: "'a ksys_scheme \<Rightarrow> nat option list list" where
  "fds s = map ofile (ptable s)"

definition frefs :: "'a kernel_scheme \<Rightarrow> int list" where
  "frefs s = map fref (ftable (fsk s))"

definition refs_off :: "(nat \<Rightarrow> int) \<Rightarrow> 'a kernel_scheme \<Rightarrow> bool" where
  "refs_off g s \<longleftrightarrow>
     (\<forall>f < length (frefs s). frefs s ! f = int (count_list (concat (fds s)) (Some f)) + g f) \<and>
     (\<forall>f. Some f \<in> set (concat (fds s)) \<longrightarrow> f < length (frefs s)) \<and>
     (\<forall>xs \<in> set (fds s). length xs = NOFILE)"

definition idle_closed :: "'a ksys_scheme \<Rightarrow> bool" where
  "idle_closed s \<longleftrightarrow> (\<forall>x \<in> set (slots s). fst x \<longrightarrow> snd x = replicate NOFILE None)"

text \<open>The invariant: every count is right, every descriptor names an entry of the file table, and a slot without
  a running program has no open files.\<close>

definition desc_inv :: "'a kernel_scheme \<Rightarrow> bool" where
  "desc_inv s \<longleftrightarrow> refs_off (\<lambda>_. 0) s \<and> idle_closed s"

text \<open>The CPU runs process \<open>i\<close>.\<close>

definition running :: "nat \<Rightarrow> 'a ksys_scheme \<Rightarrow> bool" where
  "running i s \<longleftrightarrow> cur s = Some i \<and> i < length (ptable s) \<and> pstate (ptable s ! i) = RUNNING"

lemma fds_slots: "fds s = map snd (slots s)"
  by (simp add: fds_def slots_def)

lemma slots_fds: "slots s' = slots s \<Longrightarrow> fds s' = fds s"
  by (simp add: fds_slots)

lemma refs_off_cong: "fds s' = fds s \<Longrightarrow> frefs s' = frefs s \<Longrightarrow> refs_off g s' = refs_off g s"
  by (simp add: refs_off_def)

lemma desc_inv_cong: "slots s' = slots s \<Longrightarrow> frefs s' = frefs s \<Longrightarrow> desc_inv s' = desc_inv s"
  using refs_off_cong [OF slots_fds] by (auto simp: desc_inv_def idle_closed_def)

subsection \<open>What leaves the descriptors alone\<close>

lemma slots_upd [simp]:
  "slots (s\<lparr>mem := m\<rparr>) = slots s" "fds (s\<lparr>mem := m\<rparr>) = fds s"
  by (simp_all add: slots_def fds_def)

lemma slots_kernel [simp]:
  "slots (s\<lparr>fsk := t\<rparr>) = slots s" "fds (s\<lparr>fsk := t\<rparr>) = fds s" "slots (upd_pipe a f s) = slots s"
  "frefs (upd_pipe a f s) = frefs s"
  by (simp_all add: slots_def fds_def upd_pipe_def frefs_def)

lemma slots_upd_proc:
  "idle (f (ptable s ! i)) = idle (ptable s ! i) \<Longrightarrow> ofile (f (ptable s ! i)) = ofile (ptable s ! i) \<Longrightarrow>
   slots (upd_proc i f s) = slots s"
  by (simp add: slots_def upd_proc_def map_update_same)

lemma frefs_ksys [simp]:
  "frefs (upd_proc i f s) = frefs s" "frefs (s\<lparr>mem := m\<rparr>) = frefs s" "frefs (wakeup c s) = frefs s"
  "frefs (wakeup1 c s) = frefs s"
  by (simp_all add: frefs_def upd_proc_def wakeup_def wakeup1_def)

lemma slots_wakeup1 [simp]: "slots (wakeup1 c s) = slots s"
  by (simp add: slots_def wakeup1_def idle_def)

lemma slots_wakeup [simp]: "slots (wakeup c s) = slots s"
  by (simp add: wakeup_def)

lemma vm_frame_slots:
  assumes "vm_frame s s'"
  shows "slots s' = slots s" and "cur s' = cur s" and "initproc s' = initproc s"
proof -
  let ?z = "\<lambda>p. p\<lparr>rss := 0\<rparr>"
  have "map (\<lambda>p. (idle p, ofile p)) ps = map (\<lambda>p. (idle p, ofile p)) (map ?z ps)" for ps
    by (simp add: idle_def)
  then show "slots s' = slots s" using assms by (metis slots_def vm_frame_def)
qed (use assms in \<open>simp_all add: vm_frame_def\<close>)

lemma vm_frame_fsk:
  fixes s s' :: "'a kernel_scheme"
  assumes "vm_frame s s'"
  shows "fsk s' = fsk s"
proof -
  have "s' = s\<lparr>mem := mem s', kend := kend s', use_lock := use_lock s', freelist := freelist s',
      free_pages := free_pages s', ptable := ptable s', cur := cur s', initproc := initproc s', nextpid := nextpid s',
      kdata := kdata s', trapret := trapret s', forkret := forkret s', kpgdir := kpgdir s', hw_pgdir := hw_pgdir s'\<rparr>"
      (is "s' = ?t")
    by (rule ksys.equality) (use assms in \<open>simp_all add: vm_frame_def\<close>)
  moreover have "fsk ?t = fsk s" by simp
  ultimately show ?thesis by metis
qed

lemma vm_frame_frefs: "vm_frame s s' \<Longrightarrow> frefs s' = frefs s"
  by (simp add: frefs_def vm_frame_fsk)

lemma kfs_more:
  fixes t u :: kfs
  assumes "fssys.more u = fssys.more t"
  shows "ftable u = ftable t"
proof -
  obtain a b c d e f g h i j k l n p q r x where "u = \<lparr>curpid = a, bufs = b, disk = c, havedisk1 = d,
      idequeue = e, ide_fault = f, lg_start = g, lg_size = h, lg_outstanding = i, lg_committing = j, lg_dev = k,
      lh_n = l, lh_block = n, fsb = p, inodes = q, devsw = r, ftable = x\<rparr>" by (rule kfs.cases)
  moreover obtain a b c d e f g h i j k l n p q r y where "t = \<lparr>curpid = a, bufs = b, disk = c, havedisk1 = d,
      idequeue = e, ide_fault = f, lg_start = g, lg_size = h, lg_outstanding = i, lg_committing = j, lg_dev = k,
      lh_n = l, lh_block = n, fsb = p, inodes = q, devsw = r, ftable = y\<rparr>" by (rule kfs.cases)
  ultimately show ?thesis using assms by (simp only: fssys.select_convs kfs.select_convs kfs.ext_inject)
qed

lemma onfs_frame:
  assumes "onfs f s = Ret (r, s')" and "\<And>t r u. f t = Ret (r, u) \<Longrightarrow> fssys.more u = fssys.more t"
  shows "frefs s' = frefs s \<and> ptable s' = ptable s \<and> cur s' = cur s \<and> initproc s' = initproc s"
proof -
  obtain i t where t: "f ((fsk s)\<lparr>curpid := pid (ptable s ! i)\<rparr>) = Ret (r, t)" "s' = s\<lparr>fsk := t\<rparr>"
    using assms(1) by (auto simp: onfs_def)
  have "fssys.more t = fssys.more (fsk s)" using assms(2) [OF t(1)] by simp
  from kfs_more [OF this] show ?thesis using t(2) by (simp add: frefs_def)
qed

lemma dofs_frame:
  assumes "dofs f s = Ret s'" and "\<And>t u. f t = Ret u \<Longrightarrow> fssys.more u = fssys.more t"
  shows "frefs s' = frefs s \<and> ptable s' = ptable s \<and> cur s' = cur s \<and> initproc s' = initproc s"
proof -
  obtain r where "onfs (\<lambda>t. bindR (f t) (\<lambda>t. Ret ((), t))) s = Ret (r, s')"
    using assms(1) by (auto simp: dofs_def)
  then show ?thesis by (rule onfs_frame) (use assms(2) in auto)
qed

lemma pipeclose_frame:
  assumes "pipeclose a w s = Ret s'"
  shows "slots s' = slots s \<and> fsk s' = fsk s \<and> cur s' = cur s \<and> initproc s' = initproc s"
proof -
  define t where "t = (if w then wakeup (ChanRead a) (upd_pipe a (\<lambda>p. p\<lparr>writeopen := False\<rparr>) s)
      else wakeup (ChanWrite a) (upd_pipe a (\<lambda>p. p\<lparr>readopen := False\<rparr>) s))"
  have t: "slots t = slots s" "fsk t = fsk s" "cur t = cur s" "initproc t = initproc s"
    by (simp_all add: t_def slots_def wakeup_def wakeup1_def upd_pipe_def idle_def)
  have "(if \<not> readopen (pipes t a) \<and> \<not> writeopen (pipes t a) then kfree a t else Ret t) = Ret s'"
    using assms unfolding pipeclose_def Let_def t_def .
  then have "vm_frame t s'" by (auto dest!: kfree_more kmem_vm split: if_splits)
  then show ?thesis using t by (simp add: vm_frame_slots vm_frame_fsk)
qed

subsection \<open>Counting\<close>

lemma count_update:
  "k < length ys \<Longrightarrow> count_list (ys[k := v]) x + (if ys ! k = x then 1 else 0) =
   count_list ys x + (if v = x then 1 else 0)"
proof (induction ys arbitrary: k)
  case (Cons y ys)
  show ?case
  proof (cases k)
    case (Suc j)
    then show ?thesis using Cons.prems Cons.IH [of j] by (simp split: if_splits)
  qed simp
qed simp

lemma count_concat_update:
  "i < length xss \<Longrightarrow> k < length (xss ! i) \<Longrightarrow>
   count_list (concat (xss[i := (xss ! i)[k := v]])) x + (if xss ! i ! k = x then 1 else 0) =
   count_list (concat xss) x + (if v = x then 1 else 0)"
proof (induction xss arbitrary: i)
  case (Cons xs xss)
  show ?case
  proof (cases i)
    case 0
    then show ?thesis using Cons.prems count_update [of k xs v x] by (simp add: algebra_simps)
  next
    case (Suc j)
    then show ?thesis using Cons.prems Cons.IH [of j] by (simp add: algebra_simps)
  qed
qed simp

lemma in_concat_update:
  "x \<in> set (concat (xss[i := ys])) \<Longrightarrow> x \<in> set (concat xss) \<or> x \<in> set ys"
  using set_update_subset_insert [of xss i ys] by auto

lemma fds_ofile:
  assumes "i < length (ptable s)"
  shows "fds (upd_proc i (\<lambda>p. p\<lparr>ofile := h (ofile p)\<rparr>) s) = (fds s)[i := h (fds s ! i)]"
  using assms by (simp add: fds_def upd_proc_def map_update)

lemma fds_nth [simp]: "i < length (ptable s) \<Longrightarrow> fds s ! i = ofile (ptable s ! i)"
  and length_fds [simp]: "length (fds s) = length (ptable s)"
  by (simp_all add: fds_def)

lemma refs_offD:
  assumes "refs_off g s"
  shows "f < length (frefs s) \<Longrightarrow> frefs s ! f = int (count_list (concat (fds s)) (Some f)) + g f"
    and "i < length (ptable s) \<Longrightarrow> length (ofile (ptable s ! i)) = NOFILE"
    and "i < length (ptable s) \<Longrightarrow> fd < NOFILE \<Longrightarrow> ofile (ptable s ! i) ! fd = Some f \<Longrightarrow> f < length (frefs s)"
proof -
  show a: "i < length (ptable s) \<Longrightarrow> length (ofile (ptable s ! i)) = NOFILE"
    using assms by (auto simp: refs_off_def fds_def)
  show "f < length (frefs s) \<Longrightarrow> frefs s ! f = int (count_list (concat (fds s)) (Some f)) + g f"
    using assms by (simp add: refs_off_def)
  assume i: "i < length (ptable s)" "fd < NOFILE" "ofile (ptable s ! i) ! fd = Some f"
  then have "Some f \<in> set (ofile (ptable s ! i))" using a by (metis nth_mem)
  then have "Some f \<in> set (concat (fds s))" using i(1) by (auto simp: fds_def)
  then show "f < length (frefs s)" using assms by (simp add: refs_off_def)
qed

text \<open>Changing one descriptor.\<close>

lemma set_fd_refs:
  assumes "refs_off g s" and "i < length (ptable s)" and "fd < NOFILE"
    and "\<And>f. v = Some f \<Longrightarrow> f < length (frefs s)"
  shows "refs_off (\<lambda>f. g f + (if ofile (ptable s ! i) ! fd = Some f then 1 else 0) - (if v = Some f then 1 else 0))
    (set_fd i fd v s)"
proof -
  let ?xs = "ofile (ptable s ! i)"
  have l: "length ?xs = NOFILE" using refs_offD(2) [OF assms(1,2)] .
  have f: "fds (set_fd i fd v s) = (fds s)[i := (fds s ! i)[fd := v]]"
    using fds_ofile [OF assms(2), of "\<lambda>xs. xs[fd := v]"] by (simp add: set_fd_def)
  have r: "frefs (set_fd i fd v s) = frefs s" by (simp add: set_fd_def)
  have c: "int (count_list (concat (fds (set_fd i fd v s))) (Some k)) =
      int (count_list (concat (fds s)) (Some k)) - (if ?xs ! fd = Some k then 1 else 0) + (if v = Some k then 1 else 0)" for k
    using count_concat_update [of i "fds s" fd v "Some k"] assms(2,3) l by (simp add: f split: if_splits)
  have "k < length (frefs s)" if "Some k \<in> set (concat (fds (set_fd i fd v s)))" for k
  proof -
    have "Some k \<in> set (concat (fds s)) \<or> Some k \<in> set (?xs[fd := v])"
      using in_concat_update [of "Some k" "fds s" i "?xs[fd := v]"] that assms(2) by (simp add: f)
    moreover have "set (?xs[fd := v]) \<subseteq> insert v (set ?xs)" by (rule set_update_subset_insert)
    moreover have "set ?xs \<subseteq> set (concat (fds s))" using nth_mem [OF assms(2)] by (auto simp: fds_def)
    ultimately have "Some k = v \<or> Some k \<in> set (concat (fds s))" by blast
    then show ?thesis
    proof
      assume "Some k \<in> set (concat (fds s))"
      then show ?thesis using assms(1) unfolding refs_off_def by blast
    qed (rule assms(4) [OF sym])
  qed
  moreover have "length xs = NOFILE" if "xs \<in> set (fds (set_fd i fd v s))" for xs
    using that assms(1,2) l set_update_subset_insert [of "fds s" i "?xs[fd := v]"]
    by (auto simp: f refs_off_def)
  ultimately show ?thesis using refs_offD(1) [OF assms(1)] by (simp add: refs_off_def r c)
qed

lemma frefs_on_file [simp]:
  "frefs (on_file f (\<lambda>p. p\<lparr>fref := h (fref p)\<rparr>) s) = (frefs s)[f := h (fref (the_file s f))]"
  by (simp add: frefs_def on_file_def upd_file_def map_update)

lemma frefs_on_file_same:
  "fref (h (the_file s f)) = fref (the_file s f) \<Longrightarrow> frefs (on_file f h s) = frefs s"
  by (simp add: frefs_def on_file_def upd_file_def map_update_same)

lemma on_file_slots [simp]:
  "slots (on_file f h s) = slots s" "fds (on_file f h s) = fds s" "cur (on_file f h s) = cur s"
  "ptable (on_file f h s) = ptable s" "initproc (on_file f h s) = initproc s"
  by (simp_all add: on_file_def slots_def fds_def)

lemma refs_off_set:
  assumes "refs_off g s" and "f < length (frefs s)" and "fds s' = fds s"
    and "frefs s' = (frefs s)[f := frefs s ! f + d]"
  shows "refs_off (g(f := g f + d)) s'"
  using assms unfolding refs_off_def by (auto simp: nth_list_update)

lemma frefs_nth: "f < length (frefs s) \<Longrightarrow> frefs s ! f = fref (the_file s f)"
  by (simp add: frefs_def)

lemma filedup_refs:
  assumes "filedup f s = Ret s'" and "refs_off g s" and "f < length (frefs s)"
  shows "refs_off (g(f := g f + 1)) s' \<and> ptable s' = ptable s \<and> cur s' = cur s \<and> initproc s' = initproc s"
proof -
  have s': "s' = on_file f (\<lambda>p. p\<lparr>fref := fref p + 1\<rparr>) s"
    using assms(1) by (simp add: filedup_def split: if_splits)
  have "frefs s' = (frefs s)[f := frefs s ! f + 1]"
    using assms(3) by (simp add: s' frefs_nth frefs_on_file [where h = "\<lambda>x. x + 1"])
  moreover have "fds s' = fds s" by (simp add: s')
  ultimately have "refs_off (g(f := g f + 1)) s'" using refs_off_set [OF assms(2,3), of s' 1] by simp
  then show ?thesis by (simp add: s')
qed

lemma filealloc_refs:
  assumes "filealloc s = (Some f, s')" and "refs_off g s"
  shows "refs_off (g(f := g f + 1)) s' \<and> f < length (frefs s) \<and> ptable s' = ptable s \<and> cur s' = cur s"
proof -
  have f: "find_index (\<lambda>f. fref f = 0) (ftable (fsk s)) = Some f" and s': "s' = on_file f (\<lambda>p. p\<lparr>fref := 1\<rparr>) s"
    using assms(1) by (auto simp: filealloc_def split: option.splits)
  have l: "f < length (frefs s)" "fref (the_file s f) = 0"
    using find_index_SomeD [OF f] by (simp_all add: frefs_def)
  have "frefs s' = (frefs s)[f := frefs s ! f + 1]"
    using l by (simp add: s' frefs_nth frefs_on_file [where h = "\<lambda>_. 1"])
  moreover have "fds s' = fds s" by (simp add: s')
  ultimately have "refs_off (g(f := g f + 1)) s'" using refs_off_set [OF assms(2) l(1), of s' 1] by simp
  then show ?thesis using l(1) by (simp add: s')
qed

lemma fileclose_refs:
  assumes "fileclose f s = Ret s'" and "refs_off g s" and "f < length (frefs s)"
  shows "refs_off (g(f := g f - 1)) s' \<and> slots s' = slots s \<and> cur s' = cur s \<and> initproc s' = initproc s \<and>
    length (frefs s') = length (frefs s)"
proof -
  define t where "t = on_file f (\<lambda>p. p\<lparr>fref := fref p - 1\<rparr>) s"
  have ft: "frefs t = (frefs s)[f := frefs s ! f - 1]" using assms(3)
    by (simp add: t_def frefs_nth frefs_on_file [where h = "\<lambda>x. x - 1"])
  have t: "refs_off (g(f := g f - 1)) t"
    using refs_off_set [OF assms(2,3), of t "-1"] ft by (simp add: t_def)
  have base: "slots t = slots s" "cur t = cur s" "initproc t = initproc s" by (simp_all add: t_def)
  have ge: "fref (the_file s f) \<ge> 1"
    using assms(1) by (simp add: fileclose_def split: if_splits)
  show ?thesis
  proof (cases "fref (the_file t f) > 0")
    case True
    then have "s' = t" using assms(1) ge by (simp add: fileclose_def Let_def t_def)
    then show ?thesis using t base ft by simp
  next
    case False
    define u where "u = on_file f (\<lambda>p. p\<lparr>fref := 0, ftype := FD_NONE\<rparr>) t"
    have lt: "f < length (ftable (fsk t))" using assms(3) by (simp add: frefs_def t_def on_file_def upd_file_def)
    then have z: "fref (the_file t f) = 0"
      using False ge assms(3) by (simp add: t_def frefs_def on_file_def upd_file_def)
    have fu: "frefs u = frefs t" unfolding u_def by (rule frefs_on_file_same) (simp add: z)
    then have u: "refs_off (g(f := g f - 1)) u" using t refs_off_cong [of u t] by (simp add: u_def)
    have bu: "slots u = slots s" "cur u = cur s" "initproc u = initproc s" using base by (simp_all add: u_def)
    have c: "(case ftype (the_file t f) of
             FD_PIPE \<Rightarrow> pipeclose (fpipe (the_file t f)) (writable (the_file t f)) u
           | FD_INODE \<Rightarrow> dofs (\<lambda>x. bindR (begin_op x) (\<lambda>x. bindR (iput (fip (the_file t f)) x) end_op)) u
           | FD_NONE \<Rightarrow> Ret u) = Ret s'"
      using assms(1) ge False unfolding fileclose_def Let_def t_def u_def by simp
    have "slots s' = slots u \<and> frefs s' = frefs u \<and> cur s' = cur u \<and> initproc s' = initproc u"
    proof (cases "ftype (the_file t f)")
      case FD_PIPE
      then have "pipeclose (fpipe (the_file t f)) (writable (the_file t f)) u = Ret s'" using c by simp
      from pipeclose_frame [OF this] show ?thesis by (simp add: frefs_def)
    next
      case FD_INODE
      then have "dofs (\<lambda>x. bindR (begin_op x) (\<lambda>x. bindR (iput (fip (the_file t f)) x) end_op)) u = Ret s'"
        using c by simp
      then have "frefs s' = frefs u \<and> ptable s' = ptable u \<and> cur s' = cur u \<and> initproc s' = initproc u"
        by (rule dofs_frame) (auto dest!: op_keeps iput_keeps)
      then show ?thesis by (simp add: slots_def)
    next
      case FD_NONE
      then show ?thesis using c by simp
    qed
    then show ?thesis using u bu fu ft refs_off_cong [OF slots_fds, of s' u] by simp
  qed
qed

end
