(* ===== verification/Filerefs.thy ===== *)
theory Filerefs
  imports Descriptors
begin

text \<open>
  The system calls that open, share and close descriptors, and \<^verbatim>\<open>fork\<close>, \<^verbatim>\<open>exit\<close> and \<^verbatim>\<open>wait\<close>: each keeps the
  invariant of the descriptors.  In the middle of a call the slot \<open>b\<close> that the call works on may have open files although it
  runs no program, and the counts are off by \<open>g\<close>.
\<close>

definition mid :: "nat \<Rightarrow> (nat \<Rightarrow> int) \<Rightarrow> 'a kernel_scheme \<Rightarrow> bool" where
  "mid b g s \<longleftrightarrow> refs_off g s \<and> b < length (slots s) \<and>
     (\<forall>j < length (slots s). j \<noteq> b \<longrightarrow> fst (slots s ! j) \<longrightarrow> snd (slots s ! j) = replicate NOFILE None)"

text \<open>What no step of a call changes: who is on the CPU and which slots run a program.\<close>

definition tags :: "'a ksys_scheme \<Rightarrow> nat option \<times> bool list" where
  "tags s = (cur s, map fst (slots s))"

lemma length_slots [simp]: "length (slots s) = length (ptable s)"
  by (simp add: slots_def)

lemma slots_nth [simp]: "j < length (ptable s) \<Longrightarrow> slots s ! j = (idle (ptable s ! j), ofile (ptable s ! j))"
  by (simp add: slots_def)

lemma idle_closed_nth:
  "idle_closed s \<longleftrightarrow> (\<forall>j < length (ptable s). idle (ptable s ! j) \<longrightarrow> ofile (ptable s ! j) = replicate NOFILE None)"
  by (simp add: idle_closed_def all_set_conv_all_nth)

lemma mid_start: "desc_inv s \<Longrightarrow> b < length (ptable s) \<Longrightarrow> mid b (\<lambda>_. 0) s"
  by (simp add: desc_inv_def mid_def idle_closed_nth)

lemma mid_end:
  assumes "mid b (\<lambda>_. 0) s"
    and "idle (ptable s ! b) \<Longrightarrow> ofile (ptable s ! b) = replicate NOFILE None"
  shows "desc_inv s"
  using assms by (auto simp: desc_inv_def mid_def idle_closed_nth)

lemma mid_cong: "slots s' = slots s \<Longrightarrow> frefs s' = frefs s \<Longrightarrow> mid b g s' = mid b g s"
  using refs_off_cong [OF slots_fds, of s' s g] by (simp only: mid_def)

lemma tags_cong: "slots s' = slots s \<Longrightarrow> cur s' = cur s \<Longrightarrow> tags s' = tags s"
  by (simp add: tags_def)

lemma tagsD:
  assumes "tags s' = tags s"
  shows "cur s' = cur s" and "length (ptable s') = length (ptable s)"
    and "b < length (ptable s) \<Longrightarrow> idle (ptable s' ! b) = idle (ptable s ! b)"
proof -
  have m: "map fst (slots s') = map fst (slots s)" using assms by (simp add: tags_def)
  show "cur s' = cur s" using assms by (simp add: tags_def)
  show l: "length (ptable s') = length (ptable s)" using arg_cong [OF m, of length] by simp
  show "b < length (ptable s) \<Longrightarrow> idle (ptable s' ! b) = idle (ptable s ! b)"
    using arg_cong [OF m, of "\<lambda>xs. xs ! b"] l by simp
qed

text \<open>The parts of a call.\<close>

lemma set_fd_tags [simp]: "tags (set_fd i fd v s) = tags s"
  by (simp add: tags_def set_fd_def upd_proc_def slots_def map_update_same idle_def)

lemma set_fd_frefs [simp]: "frefs (set_fd i fd v s) = frefs s"
  by (simp add: set_fd_def)

lemma set_fd_mid:
  assumes "mid b g s" and "fd < NOFILE" and "\<And>f. v = Some f \<Longrightarrow> f < length (frefs s)"
  shows "mid b (\<lambda>f. g f + (if ofile (ptable s ! b) ! fd = Some f then 1 else 0) - (if v = Some f then 1 else 0))
    (set_fd b fd v s)"
proof -
  have b: "b < length (ptable s)" using assms(1) by (simp add: mid_def)
  have l: "length (ptable (set_fd b fd v s)) = length (ptable s)" by (simp add: set_fd_def upd_proc_def)
  have "ptable (set_fd b fd v s) ! j = ptable s ! j" if "j \<noteq> b" for j
    using that by (simp add: set_fd_def upd_proc_def)
  then show ?thesis
    using set_fd_refs [OF _ b assms(2,3)] assms(1) l by (simp add: mid_def)
qed

lemma set_fd_put:
  assumes "mid b g s" and "fd < NOFILE" and "ofile (ptable s ! b) ! fd = None" and "f < length (frefs s)"
  shows "mid b (g(f := g f - 1)) (set_fd b fd (Some f) s)"
proof -
  have "(\<lambda>k. g k + (if ofile (ptable s ! b) ! fd = Some k then 1 else 0) - (if Some f = Some k then 1 else 0)) = g(f := g f - 1)"
    using assms(3) by auto
  then show ?thesis using set_fd_mid [OF assms(1,2), of "Some f"] assms(4) by simp
qed

lemma set_fd_clear:
  assumes "mid b g s" and "fd < NOFILE" and "ofile (ptable s ! b) ! fd = Some f"
  shows "mid b (g(f := g f + 1)) (set_fd b fd None s)"
proof -
  have "(\<lambda>k. g k + (if ofile (ptable s ! b) ! fd = Some k then 1 else 0) - (if None = Some k then 1 else 0)) = g(f := g f + 1)"
    using assms(3) by auto
  then show ?thesis using set_fd_mid [OF assms(1,2), of None] by simp
qed

lemma mid_fd:
  assumes "mid b g s" and "fd < NOFILE" and "ofile (ptable s ! b) ! fd = Some f"
  shows "f < length (frefs s)"
  using assms refs_offD(3) [of g s b fd f] by (simp add: mid_def)

lemma mid_refs: "mid b g s \<Longrightarrow> refs_off g s" and mid_slot: "mid b g s \<Longrightarrow> b < length (ptable s)"
  by (simp_all add: mid_def)

lemma mid_same: "mid b g s \<Longrightarrow> slots s' = slots s \<Longrightarrow> refs_off g' s' \<Longrightarrow> mid b g' s'"
  by (simp only: mid_def) blast

lemma ptable_slots: "ptable s' = ptable s \<Longrightarrow> slots s' = slots s"
  by (simp add: slots_def)

lemma on_file_length [simp]: "length (frefs (on_file f h s)) = length (frefs s)"
  by (simp add: frefs_def on_file_def upd_file_def)

lemma filedup_mid:
  assumes "filedup f s = Ret s'" and "mid b g s" and "f < length (frefs s)"
  shows "mid b (g(f := g f + 1)) s' \<and> tags s' = tags s \<and> slots s' = slots s \<and> length (frefs s') = length (frefs s)"
proof -
  note d = filedup_refs [OF assms(1) mid_refs [OF assms(2)] assms(3)]
  have sl: "slots s' = slots s" using d by (intro ptable_slots) blast
  have "cur s' = cur s" using d by blast
  note tg = tags_cong [OF sl this]
  have len: "length (frefs s') = length (frefs s)"
    using assms(1) unfolding filedup_def by (metis on_file_length outcome.distinct(1) outcome.inject(1))
  show ?thesis using mid_same [OF assms(2) sl conjunct1 [OF d]] tg sl len by blast
qed

lemma fileclose_mid:
  assumes "fileclose f s = Ret s'" and "mid b g s" and "f < length (frefs s)"
  shows "mid b (g(f := g f - 1)) s' \<and> tags s' = tags s \<and> slots s' = slots s \<and> length (frefs s') = length (frefs s)"
proof -
  note d = fileclose_refs [OF assms(1) mid_refs [OF assms(2)] assms(3)]
  have sl: "slots s' = slots s" and "cur s' = cur s" using d by blast+
  note tg = tags_cong [OF this]
  show ?thesis using mid_same [OF assms(2) sl conjunct1 [OF d]] tg sl d by blast
qed

lemma filealloc_mid:
  assumes "filealloc s = (Some f, s')" and "mid b g s"
  shows "mid b (g(f := g f + 1)) s' \<and> f < length (frefs s') \<and> tags s' = tags s \<and> slots s' = slots s \<and>
    length (frefs s') = length (frefs s)"
proof -
  note d = filealloc_refs [OF assms(1) mid_refs [OF assms(2)]]
  have sl: "slots s' = slots s" using d by (intro ptable_slots) blast
  have "cur s' = cur s" using d by blast
  note tg = tags_cong [OF sl this]
  have len: "length (frefs s') = length (frefs s)"
    using assms(1) unfolding filealloc_def by (auto split: option.splits)
  have "f < length (frefs s')" using d len by simp
  then show ?thesis using mid_same [OF assms(2) sl conjunct1 [OF d]] tg sl len by blast
qed

lemma fdalloc_mid:
  assumes "fdalloc f s = Ret (fd, s')" and "mid b g s" and "cur s = Some b" and "f < length (frefs s)"
  shows "frefs s' = frefs s \<and> tags s' = tags s \<and> (fd < 0 \<longrightarrow> s' = s) \<and>
    (fd \<ge> 0 \<longrightarrow> mid b (g(f := g f - 1)) s' \<and> nat fd < NOFILE \<and> ofile (ptable s' ! b) ! nat fd = Some f)"
proof (cases "find_index (\<lambda>x. x = None) (take NOFILE (ofile (ptable s ! b)))")
  case None
  then show ?thesis using assms(1,3) by (auto simp: fdalloc_def myproc_def)
next
  case (Some k)
  have l: "length (ofile (ptable s ! b)) = NOFILE"
    using refs_offD(2) [OF mid_refs [OF assms(2)] mid_slot [OF assms(2)]] .
  have k: "k < NOFILE" "ofile (ptable s ! b) ! k = None"
    using find_index_SomeD [OF Some] l by auto
  have s': "s' = set_fd b k (Some f) s" "fd = int k"
    using Some assms(1,3) by (auto simp: fdalloc_def myproc_def)
  have "ofile (ptable (set_fd b k (Some f) s) ! b) ! k = Some f"
    using k l mid_slot [OF assms(2)] by (simp add: set_fd_def upd_proc_def)
  then show ?thesis using set_fd_put [OF assms(2) k assms(4)] k(1) by (simp add: s')
qed


lemma call_end:
  assumes "running i s" and "mid i g s'" and "tags s' = tags s" and "\<And>f. g f = 0"
  shows "desc_inv s'"
proof (rule mid_end)
  have "g = (\<lambda>_. 0)" using assms(4) by blast
  then show "mid i (\<lambda>_. 0) s'" using assms(2) by simp
  have "\<not> idle (ptable s ! i)" using assms(1) by (simp add: running_def idle_def)
  then have "\<not> idle (ptable s' ! i)" using tagsD(3) [OF assms(3), of i] assms(1) by (simp add: running_def)
  then show "idle (ptable s' ! i) \<Longrightarrow> ofile (ptable s' ! i) = replicate NOFILE None" by simp
qed

lemma call_frame:
  assumes "desc_inv s" and "slots s' = slots s" and "frefs s' = frefs s"
  shows "desc_inv s'"
  using desc_inv_cong [OF assms(2,3)] assms(1) by simp

lemma argfd_SomeD:
  assumes "argfd n s = Ret (Some (fd, f))" and "cur s = Some i"
  shows "fd < NOFILE \<and> ofile (ptable s ! i) ! fd = Some f"
  using assms by (auto simp: argfd_def myproc_def split: option.splits if_splits)

lemma runningD: "running i s \<Longrightarrow> cur s = Some i" "running i s \<Longrightarrow> i < length (ptable s)"
  by (simp_all add: running_def)

lemma sys_dup_refs:
  assumes inv: "desc_inv s" and run: "running i s" and c: "sys_dup s = Ret (r, s')"
  shows "desc_inv s'"
proof -
  note run' = runningD [OF run]
  note m = mid_start [OF inv run'(2)]
  consider "s' = s"
    | fd f n t where "argfd 0 s = Ret (Some (fd, f))" "fdalloc f s = Ret (n, t)" "n < 0" "s' = t"
    | fd f n t where "argfd 0 s = Ret (Some (fd, f))" "fdalloc f s = Ret (n, t)" "0 \<le> n" "filedup f t = Ret s'"
    using c by (auto simp: sys_dup_def split: option.splits if_splits)
  then show ?thesis
  proof cases
    case 1
    then show ?thesis using inv by simp
  next
    case 2
    have "f < length (frefs s)" using argfd_SomeD [OF 2(1) run'(1)] mid_fd [OF m] by blast
    then show ?thesis using fdalloc_mid [OF 2(2) m run'(1)] 2 inv by simp
  next
    case 3
    have f: "f < length (frefs s)" using argfd_SomeD [OF 3(1) run'(1)] mid_fd [OF m] by blast
    note a = fdalloc_mid [OF 3(2) m run'(1) f]
    then have "mid i (\<lambda>k. if k = f then - 1 else 0) t" "f < length (frefs t)" "tags t = tags s"
      using f 3(3) by (simp_all add: fun_upd_def)
    note b = filedup_mid [OF 3(4) this(1,2)]
    show ?thesis by (rule call_end [OF run conjunct1 [OF b]]) (use b a in simp_all)
  qed
qed

lemma sys_close_refs:
  assumes inv: "desc_inv s" and run: "running i s" and c: "sys_close s = Ret (r, s')"
  shows "desc_inv s'"
proof -
  note run' = runningD [OF run]
  note m = mid_start [OF inv run'(2)]
  consider "s' = s"
    | fd f where "argfd 0 s = Ret (Some (fd, f))" "fileclose f (set_fd i fd None s) = Ret s'"
    using c run'(1) by (auto simp: sys_close_def myproc_def split: option.splits if_splits)
  then show ?thesis
  proof cases
    case 1
    then show ?thesis using inv by simp
  next
    case 2
    note a = argfd_SomeD [OF 2(1) run'(1)]
    note u = set_fd_clear [OF m conjunct1 [OF a] conjunct2 [OF a]]
    have "f < length (frefs (set_fd i fd None s))" using mid_fd [OF m conjunct1 [OF a] conjunct2 [OF a]] by simp
    note b = fileclose_mid [OF 2(2) u this]
    show ?thesis by (rule call_end [OF run conjunct1 [OF b]]) (use b in simp_all)
  qed
qed

lemma open_inode_frame:
  assumes "onfs (open_inode wd path om) s = Ret (r, s')"
  shows "frefs s' = frefs s \<and> slots s' = slots s \<and> cur s' = cur s"
  using onfs_frame [OF assms open_inode_keeps] by (auto intro: ptable_slots)

lemma put_inode_frame:
  assumes "onfs (\<lambda>t. bindR (iunlockput ip t) (ending c)) s = Ret (r, s')"
  shows "frefs s' = frefs s \<and> slots s' = slots s \<and> cur s' = cur s"
proof -
  have "frefs s' = frefs s \<and> ptable s' = ptable s \<and> cur s' = cur s \<and> initproc s' = initproc s"
    using assms by (rule onfs_frame) (auto simp: ending_def dest!: op_keeps iunlockput_keeps)
  then show ?thesis by (auto intro: ptable_slots)
qed

lemma unlock_inode_frame:
  assumes "dofs (\<lambda>t. bindR (iunlock ip t) end_op) s = Ret s'"
  shows "frefs s' = frefs s \<and> slots s' = slots s \<and> cur s' = cur s"
proof -
  have "frefs s' = frefs s \<and> ptable s' = ptable s \<and> cur s' = cur s \<and> initproc s' = initproc s"
    using assms by (rule dofs_frame) (auto dest!: op_keeps iunlock_keeps)
  then show ?thesis by (auto intro: ptable_slots)
qed

lemma mid_frame: "mid b g s \<Longrightarrow> slots s' = slots s \<Longrightarrow> frefs s' = frefs s \<Longrightarrow> mid b g s'"
  using mid_cong [of s' s b g] by blast

definition open_rest :: "int \<Rightarrow> nat \<Rightarrow> 'a kernel_scheme \<Rightarrow> 'a kernel_scheme call" where
  "open_rest om ip s =
     (let fail = (\<lambda>s. onfs (\<lambda>t. bindR (iunlockput ip t) (ending (-1))) s) in
       case filealloc s of
         (None, s) \<Rightarrow> fail s
       | (Some f, s) \<Rightarrow>
           bindR (fdalloc f s) (\<lambda>(fd, s).
             if fd < 0 then bindR (fileclose f s) fail
             else
               bindR (dofs (\<lambda>t. bindR (iunlock ip t) end_op) s) (\<lambda>s.
                 Ret (fd, on_file f (\<lambda>x. x\<lparr>ftype := FD_INODE, fip := ip, foff := 0,
                   readable := (om AND O_WRONLY = 0),
                   writable := (om AND O_WRONLY \<noteq> 0 \<or> om AND O_RDWR \<noteq> 0)\<rparr>) s))))"

lemma sys_open_eq:
  "sys_open s =
     bindR (argstr 0 s) (\<lambda>r. case r of None \<Rightarrow> Ret (-1, s) | Some path \<Rightarrow>
     bindR (argint 1 s) (\<lambda>r. case r of None \<Rightarrow> Ret (-1, s) | Some omode \<Rightarrow>
     bindR (my_cwd s) (\<lambda>wd.
     bindR (onfs (open_inode wd path omode) s) (\<lambda>(r, s). case r of None \<Rightarrow> Ret (-1, s) | Some ip \<Rightarrow>
       open_rest omode ip s))))"
  unfolding sys_open_def open_rest_def ..

lemma sys_open_refs:
  assumes inv: "desc_inv s" and run: "running i s" and c: "sys_open s = Ret (r, s')"
  shows "desc_inv s'"
proof -
  note run' = runningD [OF run]
  consider "s' = s"
    | wd path om where "onfs (open_inode wd path om) s = Ret (None, s')"
    | wd path om ip t where "onfs (open_inode wd path om) s = Ret (Some ip, t)" "open_rest om ip t = Ret (r, s')"
    using c unfolding sys_open_eq by (auto split: option.splits) (metis option.exhaust)
  then show ?thesis
  proof cases
    case 1
    then show ?thesis using inv by simp
  next
    case 2
    then show ?thesis using open_inode_frame call_frame [OF inv] by blast
  next
    case (3 wd path om ip t)
    note o = open_inode_frame [OF 3(1)]
    have cur: "cur t = Some i" using o run'(1) by simp
    have m: "mid i (\<lambda>_. 0) t" using mid_frame [OF mid_start [OF inv run'(2)]] o by blast
    have t: "tags t = tags s" using tags_cong o by blast
    obtain fo u where a: "filealloc t = (fo, u)" by (rule prod.exhaust)
    show ?thesis
    proof (cases fo)
      case None
      then have "u = t" using a by (auto simp: filealloc_def split: option.splits)
      then have "onfs (\<lambda>t. bindR (iunlockput ip t) (ending (-1))) t = Ret (r, s')" using 3(2) a None by (simp add: open_rest_def)
      from put_inode_frame [OF this] o show ?thesis by (intro call_frame [OF inv]) simp_all
    next
      case (Some f)
      note fa = filealloc_mid [OF a [unfolded Some] m]
      have cu: "cur u = Some i" using fa cur tagsD(1) [of u t] by simp
      obtain fd v where fd: "fdalloc f u = Ret (fd, v)" using 3(2) a Some by (auto simp: open_rest_def)
      note fm = fdalloc_mid [OF fd conjunct1 [OF fa] cu]
      have fl: "f < length (frefs u)" using fa by blast
      note fm = fm [OF fl]
      show ?thesis
      proof (cases "fd < 0")
        case True
        then obtain w where w: "fileclose f u = Ret w"
            "onfs (\<lambda>t. bindR (iunlockput ip t) (ending (-1))) w = Ret (r, s')"
          using 3(2) a Some fd fm by (auto simp: open_rest_def)
        note cl = fileclose_mid [OF w(1) conjunct1 [OF fa] fl]
        have "mid i (\<lambda>_. 0) w" using cl by (simp add: fun_upd_idem)
        then have "mid i (\<lambda>_. 0) s'" using mid_frame put_inode_frame [OF w(2)] by blast
        moreover have "tags s' = tags s" using put_inode_frame [OF w(2)] cl fa t tags_cong by metis
        ultimately show ?thesis by (rule call_end [OF run]) simp_all
      next
        case False
        then obtain w where w: "dofs (\<lambda>t. bindR (iunlock ip t) end_op) v = Ret w"
            "s' = on_file f (\<lambda>x. x\<lparr>ftype := FD_INODE, fip := ip, foff := 0,
                   readable := (om AND O_WRONLY = 0),
                   writable := (om AND O_WRONLY \<noteq> 0 \<or> om AND O_RDWR \<noteq> 0)\<rparr>) w"
          using 3(2) a Some fd by (auto simp: open_rest_def)
        note un = unlock_inode_frame [OF w(1)]
        have fr: "frefs s' = frefs w" unfolding w(2) by (rule frefs_on_file_same) simp
        have sl: "slots s' = slots w" "cur s' = cur w" unfolding w(2) by simp_all
        have "mid i (\<lambda>_. 0) v" using fm False by (simp add: fun_upd_idem)
        then have "mid i (\<lambda>_. 0) s'" using mid_frame un fr sl by metis
        moreover have "tags s' = tags s" using un sl fm fa t tags_cong by metis
        ultimately show ?thesis by (rule call_end [OF run]) simp_all
      qed
    qed
  qed
qed


lemma kalloc_slots:
  assumes "kalloc s = (v, s')"
  shows "slots s' = slots s \<and> frefs s' = frefs s \<and> cur s' = cur s"
  using vm_frame_slots [OF kmem_vm [OF kalloc_more [OF assms]]] vm_frame_frefs [OF kmem_vm [OF kalloc_more [OF assms]]]
  by simp

text \<open>The two files of a new pipe, held by the call.\<close>

definition two :: "nat \<Rightarrow> nat \<Rightarrow> nat \<Rightarrow> int" where
  "two f0 f1 k = (if k = f0 then 1 else 0) + (if k = f1 then 1 else 0)"

lemma close_both:
  assumes c0: "fileclose f0 w = Ret x" and c1: "fileclose f1 x = Ret s'" and m: "mid b (two f0 f1) w"
    and l: "f0 < length (frefs w)" "f1 < length (frefs w)"
  shows "mid b (\<lambda>_. 0) s' \<and> tags s' = tags w"
proof -
  note d0 = fileclose_mid [OF c0 m l(1)]
  then have "f1 < length (frefs x)" using l by simp
  note d1 = fileclose_mid [OF c1 conjunct1 [OF d0] this]
  have "(two f0 f1)(f0 := two f0 f1 f0 - 1, f1 := ((two f0 f1)(f0 := two f0 f1 f0 - 1)) f1 - 1) = (\<lambda>_. 0)"
    by (auto simp: two_def)
  then show ?thesis using d0 d1 by simp
qed

lemma pipealloc_mid:
  assumes p: "pipealloc s = Ret (r, fs, s')" and m: "mid b (\<lambda>_. 0) s"
  shows "tags s' = tags s \<and>
    (case fs of None \<Rightarrow> mid b (\<lambda>_. 0) s'
     | Some (f0, f1) \<Rightarrow> f0 < length (frefs s') \<and> f1 < length (frefs s') \<and> mid b (two f0 f1) s')"
proof -
  obtain o0 t where a0: "filealloc s = (o0, t)" by (rule prod.exhaust)
  show ?thesis
  proof (cases o0)
    case None
    then show ?thesis using p m a0 by (auto simp: pipealloc_def filealloc_def split: option.splits)
  next
    case (Some f0)
    note m0 = filealloc_mid [OF a0 [unfolded Some] m]
    obtain o1 u where a1: "filealloc t = (o1, u)" by (rule prod.exhaust)
    show ?thesis
    proof (cases o1)
      case None
      then have "u = t" using a1 by (auto simp: filealloc_def split: option.splits)
      then have c: "fileclose f0 t = Ret s'" "fs = None" using p a0 a1 Some None by (auto simp: pipealloc_def)
      have "f0 < length (frefs t)" using m0 by blast
      note cl = fileclose_mid [OF c(1) conjunct1 [OF m0] this]
      then show ?thesis using m0 c(2) by (simp add: fun_upd_idem)
    next
      case (Some f1)
      note m1 = filealloc_mid [OF a1 [unfolded Some] conjunct1 [OF m0]]
      have g: "((\<lambda>_. 0)(f0 := 0 + 1))(f1 := ((\<lambda>_. 0)(f0 := 0 + 1)) f1 + 1) = two f0 f1"
        by (auto simp: two_def)
      have mu: "mid b (two f0 f1) u" using m1 by (simp only: g)
      have l: "f0 < length (frefs u)" "f1 < length (frefs u)" using m0 m1 by auto
      obtain v w where k: "kalloc u = (v, w)" by (rule prod.exhaust)
      note ks = kalloc_slots [OF k]
      have mw: "mid b (two f0 f1) w" using mid_frame [OF mu] ks by blast
      have tw: "tags w = tags s" using ks m0 m1 tags_cong by metis
      have lw: "f0 < length (frefs w)" "f1 < length (frefs w)" using l ks by auto
      show ?thesis
      proof (cases "v = 0")
        case True
        then obtain x where x: "fileclose f0 w = Ret x" "fileclose f1 x = Ret s'" "fs = None"
          using p a0 a1 k Some \<open>o0 = Some f0\<close> by (auto simp: pipealloc_def Let_def)
        from close_both [OF x(1,2) mw lw] show ?thesis using tw x(3) by simp
      next
        case False
        then have f: "fs = Some (f0, f1)"
            "s' = on_file f1 (\<lambda>x. x\<lparr>ftype := FD_PIPE, readable := False, writable := True, fpipe := v\<rparr>)
              (on_file f0 (\<lambda>x. x\<lparr>ftype := FD_PIPE, readable := True, writable := False, fpipe := v\<rparr>) (upd_pipe v pipe_init w))"
          using p a0 a1 k Some \<open>o0 = Some f0\<close> by (auto simp: pipealloc_def Let_def)
        have "slots s' = slots w" unfolding f(2) by simp
        moreover have "cur s' = cur w" unfolding f(2) by (simp add: upd_pipe_def)
        moreover have "frefs s' = frefs w" unfolding f(2) by (subst frefs_on_file_same, simp)+ simp
        ultimately show ?thesis using f(1) mid_frame [OF mw] lw tw tags_cong [of s' w] by simp
      qed
    qed
  qed
qed

lemma vstores_frame:
  "vstores va bs s = Ret s' \<Longrightarrow> slots s' = slots s \<and> frefs s' = frefs s \<and> cur s' = cur s"
  by (induction va bs s rule: vstores.induct) auto

definition pipe_rest :: "nat \<Rightarrow> u32 \<Rightarrow> nat \<Rightarrow> nat \<Rightarrow> 'a kernel_scheme \<Rightarrow> 'a kernel_scheme call" where
  "pipe_rest i fdp rfile wfile s =
     (let fail = (\<lambda>s. bindR (fileclose rfile s) (\<lambda>s. bindR (fileclose wfile s) (\<lambda>s. Ret (-1, s)))) in
       bindR (fdalloc rfile s) (\<lambda>(fd0, s).
         if fd0 < 0 then fail s
         else bindR (fdalloc wfile s) (\<lambda>(fd1, s).
           if fd1 < 0 then fail (set_fd i (nat fd0) None s)
           else bindR (vstores fdp (put32 (put32 (replicate 8 0) 0 (word_of_int fd0)) 4 (word_of_int fd1)) s)
             (\<lambda>s. Ret (0, s)))))"

lemma sys_pipe_eq:
  "sys_pipe s =
     bindR (argptr 0 8 s) (\<lambda>r. case r of None \<Rightarrow> Ret (-1, s) | Some fdp \<Rightarrow>
     bindR (pipealloc s) (\<lambda>(_, r, s). case r of None \<Rightarrow> Ret (-1, s) | Some (rfile, wfile) \<Rightarrow>
     bindR (myproc s) (\<lambda>i. pipe_rest i fdp rfile wfile s)))"
  unfolding sys_pipe_def pipe_rest_def ..

lemma pipe_rest_mid:
  assumes c: "pipe_rest i fdp f0 f1 s = Ret (r, s')" and m: "mid i (two f0 f1) s" and cur: "cur s = Some i"
    and l: "f0 < length (frefs s)" "f1 < length (frefs s)"
  shows "tags s' = tags s \<and> (\<exists>g. mid i g s' \<and> (\<forall>k. g k = 0))"
proof -
  obtain fd0 t where a0: "fdalloc f0 s = Ret (fd0, t)" using c by (auto simp: pipe_rest_def)
  note d0 = fdalloc_mid [OF a0 m cur l(1)]
  show ?thesis
  proof (cases "fd0 < 0")
    case True
    then obtain x where "fileclose f0 s = Ret x" "fileclose f1 x = Ret s'"
      using c a0 d0 by (auto simp: pipe_rest_def)
    from close_both [OF this m l] show ?thesis by auto
  next
    case False
    define g where "g = (two f0 f1)(f0 := two f0 f1 f0 - 1)"
    have mt: "mid i g t" and n0: "nat fd0 < NOFILE" "ofile (ptable t ! i) ! nat fd0 = Some f0"
        and t: "frefs t = frefs s" "tags t = tags s"
      using d0 False by (auto simp: g_def)
    have ct: "cur t = Some i" using tagsD(1) [OF t(2)] cur by simp
    obtain fd1 u where a1: "fdalloc f1 t = Ret (fd1, u)" using c a0 False by (auto simp: pipe_rest_def Let_def)
    have l1: "f1 < length (frefs t)" using l t by simp
    note d1 = fdalloc_mid [OF a1 mt ct l1]
    show ?thesis
    proof (cases "fd1 < 0")
      case True
      then obtain x where x: "fileclose f0 (set_fd i (nat fd0) None t) = Ret x" "fileclose f1 x = Ret s'"
        using c a0 a1 d1 False by (auto simp: pipe_rest_def Let_def)
      have "g(f0 := g f0 + 1) = two f0 f1" by (auto simp: g_def)
      then have "mid i (two f0 f1) (set_fd i (nat fd0) None t)" using set_fd_clear [OF mt n0] by simp
      from close_both [OF x this] show ?thesis using l t by auto
    next
      case False
      then have v: "vstores fdp (put32 (put32 (replicate 8 0) 0 (word_of_int fd0)) 4 (word_of_int fd1)) u = Ret s'"
        using c a0 a1 \<open>\<not> fd0 < 0\<close> by (auto simp: pipe_rest_def Let_def)
      note vf = vstores_frame [OF v]
      have "mid i (g(f1 := g f1 - 1)) s'" using d1 False mid_frame vf by (metis not_less)
      moreover have "(g(f1 := g f1 - 1)) k = 0" for k by (simp add: g_def two_def)
      moreover have "tags s' = tags s" using vf d1 t tags_cong by metis
      ultimately show ?thesis by blast
    qed
  qed
qed

lemma sys_pipe_refs:
  assumes inv: "desc_inv s" and run: "running i s" and c: "sys_pipe s = Ret (r, s')"
  shows "desc_inv s'"
proof -
  note run' = runningD [OF run]
  note m = mid_start [OF inv run'(2)]
  obtain ro where ro: "argptr 0 8 s = Ret ro" using c by (auto simp: sys_pipe_eq)
  show ?thesis
  proof (cases ro)
    case None
    then show ?thesis using c ro inv by (simp add: sys_pipe_eq)
  next
    case (Some fdp)
    then obtain e fs t where p: "pipealloc s = Ret (e, fs, t)" using c ro by (auto simp: sys_pipe_eq)
    note pm = pipealloc_mid [OF p m]
    show ?thesis
    proof (cases fs)
      case None
      then have "s' = t" using c ro p Some by (simp add: sys_pipe_eq)
      then have "mid i (\<lambda>_. 0) s'" "tags s' = tags s" using pm None by simp_all
      then show ?thesis by (rule call_end [OF run]) simp
    next
      case (Some ff)
      obtain f0 f1 where ff: "ff = (f0, f1)" by (rule prod.exhaust)
      have pt: "mid i (two f0 f1) t" "f0 < length (frefs t)" "f1 < length (frefs t)" "tags t = tags s"
        using pm Some ff by simp_all
      have ct: "cur t = Some i" using tagsD(1) [OF pt(4)] run'(1) by simp
      then have "pipe_rest i fdp f0 f1 t = Ret (r, s')"
        using c ro p Some ff \<open>ro = Some fdp\<close> by (simp add: sys_pipe_eq myproc_def)
      from pipe_rest_mid [OF this pt(1) ct pt(2,3)]
      obtain g where g: "mid i g s'" "\<forall>k. g k = 0" "tags s' = tags s" using pt(4) by auto
      show ?thesis by (rule call_end [OF run g(1)]) (use g in simp_all)
    qed
  qed
qed


subsection \<open>Processes\<close>

lemma upd_proc_simps [simp]:
  "cur (upd_proc i f s) = cur s" "length (ptable (upd_proc i f s)) = length (ptable s)"
  "initproc (upd_proc i f s) = initproc s"
  by (simp_all add: upd_proc_def)

lemma allocproc_frame:
  assumes "allocproc s = (r, s')"
  shows "slots s' = slots s \<and> frefs s' = frefs s \<and> cur s' = cur s \<and>
    (\<forall>n. r = Some n \<longrightarrow> n < length (ptable s) \<and> idle (ptable s ! n))"
proof (cases "find_index (\<lambda>p. pstate p = UNUSED) (ptable s)")
  case None
  then show ?thesis using assms by (simp add: allocproc_def)
next
  case (Some n)
  have n: "n < length (ptable s)" "pstate (ptable s ! n) = UNUSED" using find_index_SomeD [OF Some] by auto
  define v where "v = upd_proc n (\<lambda>p. p\<lparr>pstate := EMBRYO, pid := nextpid s, rss := 0\<rparr>) s"
  define t where "t = v\<lparr>nextpid := int32 (nextpid v + 1)\<rparr>"
  have t: "slots t = slots s" "frefs t = frefs s" "cur t = cur s"
    using n by (simp_all add: t_def v_def slots_def upd_proc_def map_update_same idle_def frefs_def)
  obtain k u where k: "kalloc t = (k, u)" by (rule prod.exhaust)
  note ks = kalloc_slots [OF k]
  have pu: "ptable u = ptable t" using kmem_ksys [OF kalloc_more [OF k]] by blast
  then have e: "idle (ptable u ! n)" using n by (simp add: t_def v_def upd_proc_def idle_def)
  have "slots s' = slots u \<and> frefs s' = frefs u \<and> cur s' = cur u \<and> (\<forall>j. r = Some j \<longrightarrow> j = n)"
  proof (cases "k = 0")
    case True
    then have s': "s' = upd_proc n (\<lambda>p. p\<lparr>pstate := UNUSED\<rparr>) (upd_proc n (\<lambda>p. p\<lparr>kstack := k\<rparr>) u)" "r = None"
      using assms Some k by (simp_all add: allocproc_def v_def t_def Let_def)
    have "idle (ptable (upd_proc n (\<lambda>p. p\<lparr>kstack := k\<rparr>) u) ! n)"
      using e n pu by (simp add: idle_def upd_proc_def t_def v_def)
    then have "slots s' = slots (upd_proc n (\<lambda>p. p\<lparr>kstack := k\<rparr>) u)"
      unfolding s'(1) by (intro slots_upd_proc) (simp_all add: idle_def)
    then show ?thesis using s' by (simp add: slots_upd_proc idle_def)
  next
    case False
    then show ?thesis using assms Some k
      by (auto simp: allocproc_def t_def v_def Let_def slots_upd_proc idle_def)
  qed
  then show ?thesis using t ks n by (auto simp: idle_def)
qed

lemma nth_NOFILE_nil: "length xs = NOFILE \<Longrightarrow> fd = NOFILE \<Longrightarrow> drop fd xs = [] \<and> take fd xs = xs"
  by simp

text \<open>\<^verbatim>\<open>fork\<close> copies the descriptors from \<open>fd\<close> on.\<close>

lemma dup_files_ptable:
  assumes "dup_files me np n fd s = Ret s'" and "fd + n = NOFILE" and "me \<noteq> np" and "np < length (ptable s)"
    and "length (ofile (ptable s ! me)) = NOFILE" and "length (ofile (ptable s ! np)) = NOFILE"
    and "\<And>k. fd \<le> k \<Longrightarrow> k < NOFILE \<Longrightarrow> ofile (ptable s ! np) ! k = None"
  shows "ptable s' = (ptable s)[np := (ptable s ! np)\<lparr>ofile :=
      take fd (ofile (ptable s ! np)) @ drop fd (ofile (ptable s ! me))\<rparr>]"
  using assms
proof (induction n arbitrary: fd s)
  case 0
  then show ?case by (simp add: list_update_same_conv)
next
  case (Suc n)
  let ?m = "ofile (ptable s ! me)" and ?p = "ofile (ptable s ! np)"
  have fd: "fd < NOFILE" using Suc.prems(2) by simp
  have m: "drop fd ?m = ?m ! fd # drop (Suc fd) ?m" using fd Suc.prems(5) by (simp add: Cons_nth_drop_Suc)
  show ?case
  proof (cases "?m ! fd")
    case None
    have "ptable s' = (ptable s)[np := (ptable s ! np)\<lparr>ofile := take (fd + 1) ?p @ drop (fd + 1) ?m\<rparr>]"
      using Suc.prems None by (intro Suc.IH) auto
    moreover have "take (fd + 1) ?p = take fd ?p @ [None]"
      using fd Suc.prems(6,7) by (simp add: take_Suc_conv_app_nth)
    ultimately show ?thesis using m None by simp
  next
    case (Some f)
    then obtain t where t: "filedup f s = Ret t"
        "dup_files me np n (fd + 1) (upd_proc np (\<lambda>p. p\<lparr>ofile := (ofile p)[fd := Some f]\<rparr>) t) = Ret s'"
      using Suc.prems(1) by auto
    have pt: "ptable t = ptable s" using t(1) by (auto simp: filedup_def split: if_splits)
    let ?u = "upd_proc np (\<lambda>p. p\<lparr>ofile := (ofile p)[fd := Some f]\<rparr>) t"
    have u: "ptable ?u = (ptable s)[np := (ptable s ! np)\<lparr>ofile := ?p[fd := Some f]\<rparr>]" by (simp add: upd_proc_def pt)
    have u': "ptable ?u ! me = ptable s ! me" "ofile (ptable ?u ! np) = ?p[fd := Some f]"
        "length (ptable ?u) = length (ptable s)"
      using Suc.prems(3,4) by (simp_all add: u)
    have "ptable s' = (ptable ?u)[np := (ptable ?u ! np)\<lparr>ofile :=
        take (fd + 1) (ofile (ptable ?u ! np)) @ drop (fd + 1) (ofile (ptable ?u ! me))\<rparr>]"
      using Suc.prems u' by (intro Suc.IH t(2)) auto
    moreover have "take (fd + 1) (?p[fd := Some f]) = take fd ?p @ [Some f]"
      using fd Suc.prems(6) by (simp add: take_Suc_conv_app_nth)
    ultimately show ?thesis using m Some Suc.prems(4) u' by (simp add: u)
  qed
qed

lemma dup_files_mid:
  assumes "dup_files me np n fd s = Ret s'" and "fd + n = NOFILE" and "me \<noteq> np" and "me < length (ptable s)"
    and "mid np (\<lambda>_. 0) s" and "\<And>k. fd \<le> k \<Longrightarrow> k < NOFILE \<Longrightarrow> ofile (ptable s ! np) ! k = None"
  shows "mid np (\<lambda>_. 0) s' \<and> tags s' = tags s"
  using assms
proof (induction n arbitrary: fd s)
  case 0
  then show ?case by simp
next
  case (Suc n)
  have fd: "fd < NOFILE" using Suc.prems(2) by simp
  show ?case
  proof (cases "ofile (ptable s ! me) ! fd")
    case None
    then show ?thesis using Suc.prems by (intro Suc.IH) auto
  next
    case (Some f)
    then obtain t where t: "filedup f s = Ret t" "dup_files me np n (fd + 1) (set_fd np fd (Some f) t) = Ret s'"
      using Suc.prems(1) by (auto simp: set_fd_def)
    have pt: "ptable t = ptable s" using t(1) by (auto simp: filedup_def split: if_splits)
    have l: "f < length (frefs s)"
      using refs_offD(3) [OF mid_refs [OF Suc.prems(5)] Suc.prems(4) fd Some] .
    note d = filedup_mid [OF t(1) Suc.prems(5) l]
    have "ofile (ptable t ! np) ! fd = None" using Suc.prems(6) [of fd] fd pt by simp
    moreover have "f < length (frefs t)" using d l by simp
    moreover have "mid np ((\<lambda>_. 0)(f := 0 + 1)) t" using d by blast
    ultimately have "mid np (((\<lambda>_. 0)(f := 0 + 1))(f := ((\<lambda>_. 0)(f := 0 + 1)) f - 1)) (set_fd np fd (Some f) t)"
      using fd by (intro set_fd_put)
    then have mu: "mid np (\<lambda>_. 0) (set_fd np fd (Some f) t)" by (simp add: fun_upd_idem)
    have np: "np < length (ptable s)" using mid_slot [OF Suc.prems(5)] .
    have "mid np (\<lambda>_. 0) s' \<and> tags s' = tags (set_fd np fd (Some f) t)"
    proof (rule Suc.IH [OF t(2) _ Suc.prems(3) _ mu])
      fix k assume "fd + 1 \<le> k" "k < NOFILE"
      then show "ofile (ptable (set_fd np fd (Some f) t) ! np) ! k = None"
        using Suc.prems(6) [of k] np by (simp add: set_fd_def upd_proc_def pt)
    qed (use Suc.prems(2,4) in \<open>simp_all add: set_fd_def upd_proc_def pt\<close>)
    then show ?thesis using d by simp
  qed
qed

lemma mid_upd:
  assumes "mid b g s" and "ofile (h (ptable s ! b)) = ofile (ptable s ! b)"
  shows "mid b g (upd_proc b h s)"
proof -
  have "fds (upd_proc b h s) = fds s" using assms(2) by (simp add: fds_def upd_proc_def map_update_same)
  then have "refs_off g (upd_proc b h s)" using refs_off_cong mid_refs [OF assms(1)] by fastforce
  moreover have "ptable (upd_proc b h s) ! j = ptable s ! j" if "j \<noteq> b" for j
    using that by (simp add: upd_proc_def)
  moreover have "length (ptable (upd_proc b h s)) = length (ptable s)" by (simp add: upd_proc_def)
  ultimately show ?thesis using assms(1) by (simp add: mid_def)
qed


lemma vm_slots:
  "vm_frame s s' \<Longrightarrow> slots s' = slots s \<and> frefs s' = frefs s \<and> cur s' = cur s"
  using vm_frame_slots vm_frame_frefs by blast

lemma kfree_slots: "kfree v s = Ret s' \<Longrightarrow> slots s' = slots s \<and> frefs s' = frefs s \<and> cur s' = cur s"
  by (rule vm_slots [OF kmem_vm [OF kfree_more]])

lemma slots_idle:
  assumes "slots s' = slots s" and "j < length (ptable s)"
  shows "idle (ptable s' ! j) = idle (ptable s ! j)" and "ofile (ptable s' ! j) = ofile (ptable s ! j)"
    and "length (ptable s') = length (ptable s)"
proof -
  show l: "length (ptable s') = length (ptable s)" using arg_cong [OF assms(1), of length] by simp
  show "idle (ptable s' ! j) = idle (ptable s ! j)" "ofile (ptable s' ! j) = ofile (ptable s ! j)"
    using arg_cong [OF assms(1), of "\<lambda>xs. xs ! j"] assms(2) l by simp_all
qed

lemma fork_refs:
  assumes inv: "desc_inv s" and run: "running i s" and c: "fork s = Ret (r, s')"
  shows "desc_inv s'"
proof -
  note run' = runningD [OF run]
  obtain no t where a: "allocproc s = (no, t)" by (rule prod.exhaust)
  note af = allocproc_frame [OF a]
  have it: "desc_inv t" using call_frame [OF inv] af by blast
  show ?thesis
  proof (cases no)
    case None
    then show ?thesis using c a run' it by (simp add: fork_def myproc_def)
  next
    case (Some np)
    then have np: "np < length (ptable s)" "idle (ptable s ! np)" using af by auto
    have ne: "i \<noteq> np" using np(2) run by (auto simp: running_def idle_def)
    obtain pd u where u: "copyuvm (pgdir (ptable t ! i)) (sz (ptable t ! i)) t = Ret (pd, u)"
      using c a Some run' by (auto simp: fork_def myproc_def)
    note uf = vm_slots [OF copyuvm_frame [OF u]]
    have us: "slots u = slots s" "frefs u = frefs s" using uf af by auto
    define v where "v = upd_proc np (\<lambda>p. p\<lparr>pgdir := pd\<rparr>) u"
    have vs: "slots v = slots s" "frefs v = frefs s" using us by (simp_all add: v_def slots_upd_proc idle_def)
    show ?thesis
    proof (cases "pd = 0")
      case True
      then obtain w where w: "kfree (kstack (ptable v ! np)) v = Ret w"
          "s' = upd_proc np (\<lambda>p. p\<lparr>kstack := 0, pstate := UNUSED\<rparr>) w"
        using c a Some run' u by (auto simp: fork_def myproc_def v_def Let_def)
      note wf = kfree_slots [OF w(1)]
      have ws: "slots w = slots s" using wf vs by simp
      then have "idle (ptable w ! np)" using slots_idle(1) [OF ws np(1)] np(2) by simp
      then have "slots s' = slots w" unfolding w(2) by (intro slots_upd_proc) (simp_all add: idle_def)
      then have "slots s' = slots s" "frefs s' = frefs s" using ws wf vs by (simp_all add: w(2))
      then show ?thesis by (rule call_frame [OF inv])
    next
      case False
      define w where "w = upd_proc np (\<lambda>p. p\<lparr>sz := sz (ptable v ! i), parent := Some i\<rparr>) v"
      define x where "x = tf_set np 28 0 (w\<lparr>mem := copy_words (mem w) (tf (ptable w ! np)) (tf (ptable w ! i)) 19\<rparr>)"
      have xs: "slots x = slots s" "frefs x = frefs s"
        using vs by (simp_all add: x_def w_def tf_set_def slots_upd_proc idle_def)
      have mx: "mid np (\<lambda>_. 0) x" using mid_frame [OF mid_start [OF inv np(1)] xs] .
      have lx: "length (ptable x) = length (ptable s)" using slots_idle(3) [OF xs(1) np(1)] .
      have no: "ofile (ptable x ! np) = replicate NOFILE None"
        using slots_idle(2) [OF xs(1) np(1)] inv np by (simp add: desc_inv_def idle_closed_nth)
      obtain y where y: "dup_files i np NOFILE 0 x = Ret y"
        using c a Some run' u False by (auto simp: fork_def myproc_def v_def w_def x_def Let_def simp del: dup_files.simps)
      have "mid np (\<lambda>_. 0) y \<and> tags y = tags x"
        using dup_files_mid [OF y _ ne _ mx] run'(2) lx no by simp
      then have my: "mid np (\<lambda>_. 0) y" by blast
      obtain ip where "cwd (ptable y ! i) = Some ip"
        using c a Some run' u False y by (auto simp: fork_def myproc_def v_def w_def x_def Let_def
          simp del: dup_files.simps split: option.splits)
      then obtain h where s': "s' = upd_proc np (\<lambda>p. p\<lparr>pstate := RUNNABLE\<rparr>)
          (upd_proc np (\<lambda>p. p\<lparr>name := set_name (name p) h\<rparr>)
            (upd_proc np (\<lambda>p. p\<lparr>cwd := Some ip\<rparr>) (y\<lparr>fsk := idup ip (fsk y)\<rparr>)))"
        using c a Some run' u False y by (auto simp: fork_def myproc_def v_def w_def x_def Let_def
          simp del: dup_files.simps)
      have "ftable (idup ip (fsk y)) = ftable (fsk y)" by (rule kfs_more) simp
      then have "mid np (\<lambda>_. 0) (y\<lparr>fsk := idup ip (fsk y)\<rparr>)"
        by (intro mid_frame [OF my]) (simp_all add: frefs_def)
      then have "mid np (\<lambda>_. 0) s'" unfolding s' by (intro mid_upd) simp_all
      moreover have "\<not> idle (ptable s' ! np)"
        using mid_slot [OF my] unfolding s' by (simp add: upd_proc_def idle_def)
      ultimately show ?thesis by (intro mid_end) auto
    qed
  qed
qed


lemma close_files_mid:
  assumes "close_files me n fd s = Ret s'" and "fd + n = NOFILE" and "mid me (\<lambda>_. 0) s"
  shows "mid me (\<lambda>_. 0) s' \<and> tags s' = tags s \<and>
    (\<forall>k < NOFILE. ofile (ptable s' ! me) ! k = (if k < fd then ofile (ptable s ! me) ! k else None))"
  using assms
proof (induction n arbitrary: fd s)
  case 0
  then show ?case by simp
next
  case (Suc n)
  have fd: "fd < NOFILE" using Suc.prems(2) by simp
  have me: "me < length (ptable s)" using mid_slot [OF Suc.prems(3)] .
  have len: "length (ofile (ptable s ! me)) = NOFILE"
    using refs_offD(2) [OF mid_refs [OF Suc.prems(3)] me] .
  show ?case
  proof (cases "ofile (ptable s ! me) ! fd")
    case None
    then have "close_files me n (fd + 1) s = Ret s'" using Suc.prems(1) by simp
    from Suc.IH [OF this _ Suc.prems(3)] show ?thesis using Suc.prems(2) None by (auto simp: less_Suc_eq)
  next
    case (Some f)
    then obtain t where t: "fileclose f s = Ret t" "close_files me n (fd + 1) (set_fd me fd None t) = Ret s'"
      using Suc.prems(1) by (auto simp: set_fd_def)
    note d = fileclose_mid [OF t(1) Suc.prems(3) mid_fd [OF Suc.prems(3) fd Some]]
    have of: "ofile (ptable t ! me) = ofile (ptable s ! me)" using slots_idle(2) [of t s me] d me by blast
    have lt: "me < length (ptable t)" using slots_idle(3) [of t s me] d me by simp
    have "mid me (((\<lambda>_. 0)(f := 0 - 1))(f := ((\<lambda>_. 0)(f := 0 - 1)) f + 1)) (set_fd me fd None t)"
      using d Some of by (intro set_fd_clear [OF _ fd]) auto
    then have mu: "mid me (\<lambda>_. 0) (set_fd me fd None t)" by (simp add: fun_upd_idem)
    have "ofile (ptable (set_fd me fd None t) ! me) = (ofile (ptable s ! me))[fd := None]"
      using lt of by (simp add: set_fd_def upd_proc_def)
    then show ?thesis using Suc.IH [OF t(2) _ mu] Suc.prems(2) d len by (auto simp: less_Suc_eq)
  qed
qed

lemma reparent_slots: "slots (reparent me n i s) = slots s" "frefs (reparent me n i s) = frefs s"
  by (induction n arbitrary: i s) (auto simp: Let_def slots_upd_proc idle_def)

lemma dofs_slots:
  assumes "dofs f s = Ret s'" and "\<And>t u. f t = Ret u \<Longrightarrow> fssys.more u = fssys.more t"
  shows "slots s' = slots s \<and> frefs s' = frefs s"
  using dofs_frame [OF assms] ptable_slots [of s' s] by blast

lemma exit_parts:
  assumes "exit s = Ret s'" and "cur s = Some i"
  obtains t u v w ip where "initproc s \<noteq> Some i" and "close_files i NOFILE 0 s = Ret t" and "dofs begin_op t = Ret u"
    and "dofs (iput ip) u = Ret v" and "dofs end_op v = Ret w"
    and "s' = upd_proc i (\<lambda>p. p\<lparr>pstate := ZOMBIE\<rparr>) (reparent i NPROC 0
        (wakeup1 (proc_chan (parent (ptable (upd_proc i (\<lambda>p. p\<lparr>cwd := None\<rparr>) w) ! i)))
          (upd_proc i (\<lambda>p. p\<lparr>cwd := None\<rparr>) w)))"
  using assms by (auto simp: exit_def myproc_def Let_def simp del: close_files.simps reparent.simps
      split: option.splits if_splits)

lemma exit_refs:
  assumes inv: "desc_inv s" and run: "running i s" and c: "exit s = Ret s'"
  shows "desc_inv s'"
proof -
  note run' = runningD [OF run]
  obtain t u v w ip where t: "close_files i NOFILE 0 s = Ret t" and u: "dofs begin_op t = Ret u"
      and v: "dofs (iput ip) u = Ret v" and w: "dofs end_op v = Ret w"
      and s': "s' = upd_proc i (\<lambda>p. p\<lparr>pstate := ZOMBIE\<rparr>) (reparent i NPROC 0
        (wakeup1 (proc_chan (parent (ptable (upd_proc i (\<lambda>p. p\<lparr>cwd := None\<rparr>) w) ! i)))
          (upd_proc i (\<lambda>p. p\<lparr>cwd := None\<rparr>) w)))"
    using exit_parts [OF c run'(1)] by metis
  note cl = close_files_mid [OF t _ mid_start [OF inv run'(2)], simplified]
  have mt: "mid i (\<lambda>_. 0) t" using cl by blast
  have wt: "slots w = slots t" "frefs w = frefs t"
    using dofs_slots [OF u] dofs_slots [OF v] dofs_slots [OF w] op_keeps iput_keeps by metis+
  let ?x = "reparent i NPROC 0 (wakeup1 (proc_chan (parent (ptable (upd_proc i (\<lambda>p. p\<lparr>cwd := None\<rparr>) w) ! i)))
          (upd_proc i (\<lambda>p. p\<lparr>cwd := None\<rparr>) w))"
  have xt: "slots ?x = slots t" "frefs ?x = frefs t"
    using wt by (simp_all add: reparent_slots slots_upd_proc idle_def)
  have mx: "mid i (\<lambda>_. 0) ?x" using mid_frame [OF mt xt] .
  have it: "i < length (ptable t)" using mid_slot [OF mt] .
  have "length (ofile (ptable t ! i)) = NOFILE" using refs_offD(2) [OF mid_refs [OF mt] it] .
  then have "ofile (ptable t ! i) = replicate NOFILE None" using cl by (intro nth_equalityI) auto
  then have "ofile (ptable s' ! i) = replicate NOFILE None"
    using slots_idle(2,3) [OF xt(1) it] it by (simp add: s' upd_proc_def)
  moreover have "mid i (\<lambda>_. 0) s'" unfolding s' by (rule mid_upd [OF mx]) simp
  ultimately show ?thesis by (intro mid_end) auto
qed

lemma wait_refs:
  assumes inv: "desc_inv s" and run: "running i s" and c: "wait_turn s = Ret (r, s')"
  shows "desc_inv s'"
proof -
  note run' = runningD [OF run]
  show ?thesis
  proof (cases "find_index (\<lambda>p. parent p = Some i \<and> pstate p = ZOMBIE) (ptable s)")
    case None
    then consider "s' = s" | "s' = upd_proc i (\<lambda>p. p\<lparr>chan := ChanProc i, pstate := SLEEPING\<rparr>) s"
      using c run' by (auto simp: wait_turn_def myproc_def sleep_def split: if_splits)
    then show ?thesis
    proof cases
      case 2
      have "slots s' = slots s" unfolding 2 by (rule slots_upd_proc) (use run in \<open>auto simp: idle_def running_def\<close>)
      moreover have "frefs s' = frefs s" by (simp add: 2)
      ultimately show ?thesis by (rule call_frame [OF inv])
    qed (use inv in simp)
  next
    case (Some j)
    have j: "j < length (ptable s)" "idle (ptable s ! j)" using find_index_SomeD [OF Some] by (auto simp: idle_def)
    obtain t u where t: "kfree (kstack (ptable s ! j)) s = Ret t"
        "freevm (pgdir (ptable (upd_proc j (\<lambda>p. p\<lparr>kstack := 0\<rparr>) t) ! j)) (upd_proc j (\<lambda>p. p\<lparr>kstack := 0\<rparr>) t) = Ret u"
      and s': "s' = upd_proc j (\<lambda>p. p\<lparr>pid := 0, parent := None, name := (name p)[0 := 0],
                      killed := False, pstate := UNUSED\<rparr>) u"
      using c run' Some by (auto simp: wait_turn_def myproc_def Let_def)
    have us: "slots u = slots s" "frefs u = frefs s"
      using vm_slots [OF freevm_frame [OF t(2)]] kfree_slots [OF t(1)] by (simp_all add: slots_upd_proc idle_def)
    then have "idle (ptable u ! j)" using slots_idle(1) [OF us(1) j(1)] j(2) by simp
    then have "slots s' = slots u" unfolding s' by (intro slots_upd_proc) (simp_all add: idle_def)
    then show ?thesis using us by (intro call_frame [OF inv]) (simp_all add: s')
  qed
qed


subsection \<open>Runs\<close>

text \<open>One step of a run: process \<open>i\<close> on the CPU makes one of the calls that change descriptors, or something
  happens that leaves them alone (the scheduler, an interrupt, a system call that opens and closes nothing).\<close>

inductive fd_step :: "'a kernel_scheme \<Rightarrow> 'a kernel_scheme \<Rightarrow> bool" where
  dup: "running i s \<Longrightarrow> sys_dup s = Ret (r, s') \<Longrightarrow> fd_step s s'"
| close: "running i s \<Longrightarrow> sys_close s = Ret (r, s') \<Longrightarrow> fd_step s s'"
| "open": "running i s \<Longrightarrow> sys_open s = Ret (r, s') \<Longrightarrow> fd_step s s'"
| pipe: "running i s \<Longrightarrow> sys_pipe s = Ret (r, s') \<Longrightarrow> fd_step s s'"
| fork: "running i s \<Longrightarrow> fork s = Ret (r, s') \<Longrightarrow> fd_step s s'"
| exit: "running i s \<Longrightarrow> exit s = Ret s' \<Longrightarrow> fd_step s s'"
| wait: "running i s \<Longrightarrow> wait_turn s = Ret (e, s') \<Longrightarrow> fd_step s s'"
| other: "slots s' = slots s \<Longrightarrow> frefs s' = frefs s \<Longrightarrow> fd_step s s'"

text \<open>C9: every run of \<^verbatim>\<open>dup\<close>, \<^verbatim>\<open>close\<close>, \<^verbatim>\<open>open\<close>, \<^verbatim>\<open>pipe\<close>, \<^verbatim>\<open>fork\<close>, \<^verbatim>\<open>exit\<close> and \<^verbatim>\<open>wait\<close>, with their error
  paths, keeps the descriptors and the file table in step: the reference count of an open file is the number of
  descriptors of all processes that name it, no descriptor names a file outside the table, and a slot without a running
  program has none.\<close>
theorem descriptors_counted:
  assumes "fd_step\<^sup>*\<^sup>* s s'" and "desc_inv s"
  shows "desc_inv s'"
  using assms
proof (induction rule: rtranclp_induct)
  case (step t u)
  then have t: "desc_inv t" by simp
  from step(2) show ?case
    by cases (use t in \<open>blast intro: sys_dup_refs sys_close_refs sys_open_refs sys_pipe_refs fork_refs exit_refs
      wait_refs call_frame\<close>)+
qed simp

text \<open>A machine with one process, whose descriptor 1 is the only reference to file 0.\<close>

definition demo_kernel :: kernel where
  "demo_kernel = \<lparr>mem = (\<lambda>_. 1)(0x80300044 := 0), kend = 0x80115000, use_lock = True, freelist = 0, free_pages = 0,
     ptable = idle_proc\<lparr>sz := 4096, pstate := RUNNING, pid := 1, tf := 0x80300000,
       ofile := None # Some 0 # replicate 14 None\<rparr> # replicate 63 idle_proc,
     cur = Some 0, initproc = Some 0, nextpid = 2, kdata = 0x80108000, trapret = 0x80105000, forkret = 0x80103000,
     kpgdir = 0x803ff000, hw_pgdir = 0x3ff000, pipes = (\<lambda>_. \<lparr>pdata = [], nread = 0, nwrite = 0, readopen = False, writeopen = False\<rparr>),
     cons = \<lparr>panicked = False, has_uart = False, uart_out = [], crt = (\<lambda>_. 0), crt_pos = 0, ibuf = [], in_r = 0, in_w = 0, in_e = 0\<rparr>,
     fsk = \<lparr>curpid = 1, bufs = [], disk = (\<lambda>_ _. []), havedisk1 = True, idequeue = [], ide_fault = False,
       lg_start = 2, lg_size = 30, lg_outstanding = 0, lg_committing = False, lg_dev = 1, lh_n = 0, lh_block = [],
       fsb = get_sb (replicate 512 0), inodes = [], devsw = [],
       ftable = \<lparr>ftype = FD_INODE, fref = 1, readable = True, writable = True, fpipe = 0, fip = 0, foff = 0\<rparr> #
         replicate 99 \<lparr>ftype = FD_NONE, fref = 0, readable = True, writable = True, fpipe = 0, fip = 0, foff = 0\<rparr>\<rparr>\<rparr>"

lemma demo_fields:
  "mem demo_kernel = (\<lambda>_. 1)(0x80300044 := 0)" "cur demo_kernel = Some 0" "hw_pgdir demo_kernel = 0x3ff000"
  "ptable demo_kernel = idle_proc\<lparr>sz := 4096, pstate := RUNNING, pid := 1, tf := 0x80300000,
       ofile := None # Some 0 # replicate 14 None\<rparr> # replicate 63 idle_proc"
  by (simp_all add: demo_kernel_def)

lemma demo_vload:
  "vload 4 demo_kernel = Ret 1" "vload 5 demo_kernel = Ret 0" "vload 6 demo_kernel = Ret 0" "vload 7 demo_kernel = Ret 0"
  by (simp_all add: vload_def vaddr_def walkpgdir_def demo_fields PDX_def PTX_def P2V_def KERNBASE_def PTE_ADDR_def
      PTE_P_def PGSIZE_def load8_def)

lemma demo_argint: "argint 0 demo_kernel = Ret (Some 1)"
proof -
  have "vloads 4 4 demo_kernel = Ret [1, 0, 0, 0]" by (simp add: numeral_eq_Suc demo_vload [simplified numeral_eq_Suc])
  then show ?thesis
    by (simp add: argint_def myproc_def fetchint_def tf_get_def demo_fields get32_def)
qed

lemma demo_inv: "desc_inv demo_kernel"
proof -
  have "concat (replicate k (replicate 16 (None :: nat option))) = replicate (k * 16) None" for k
    by (induction k) (simp_all add: replicate_add [symmetric] add.commute)
  then show ?thesis
    by (auto simp: desc_inv_def refs_off_def idle_closed_def fds_def slots_def frefs_def demo_kernel_def idle_proc_def
     NOFILE_def idle_def nth_Cons split: nat.splits)
qed

theorem descriptors_counted_witness:
  "\<exists>s. sys_dup demo_kernel = Ret (0, s) \<and> desc_inv s"
proof -
  have "argfd 0 demo_kernel = Ret (Some (1, 0))"
    by (simp add: argfd_def demo_argint myproc_def demo_fields NOFILE_def)
  moreover have "fdalloc 0 demo_kernel = Ret (0, set_fd 0 0 (Some 0) demo_kernel)"
    by (simp add: fdalloc_def myproc_def demo_fields NOFILE_def)
  moreover have "fref (the_file (set_fd 0 0 (Some 0) demo_kernel) 0) = 1"
    by (simp add: set_fd_def upd_proc_def demo_kernel_def)
  then obtain s where "filedup 0 (set_fd 0 0 (Some 0) demo_kernel) = Ret s" by (simp add: filedup_def)
  ultimately have d: "sys_dup demo_kernel = Ret (0, s)" by (simp add: sys_dup_def)
  have "running 0 demo_kernel" by (simp add: running_def demo_fields)
  then have "fd_step demo_kernel s" using d by (rule fd_step.dup)
  then have "desc_inv s" by (intro descriptors_counted [OF _ demo_inv]) blast
  then show ?thesis using d by blast
qed

end
