(* ===== verification/Swap.thy ===== *)
theory Swap
  imports Filerefs Mkfs
begin

text \<open>
  The adaptive swapper (\<^verbatim>\<open>vm.c\<close> of \<^verbatim>\<open>cs236-xv6-mac\<close>): the table of swap slots, the choice of pages,
  swapping out when memory runs short, and the page-fault handler that swaps in.  The messages to the console are not
  part of the state.  The result \<open>-1\<close> of \<open>select_victim_va\<close> is the word \<open>0xffffffff\<close>, as in the code.
\<close>

definition NSPAGESLOTS :: nat where "NSPAGESLOTS = 800"
definition PAGES_PER_SLOT :: nat where "PAGES_PER_SLOT = 8"
definition ALPHA :: int where "ALPHA = 25"
definition BETA :: int where "BETA = 10"

record swap_entry =
  sw_free :: bool
  sw_perm :: u32
  sw_va :: u32
  sw_pid :: int

record paging = kernel +
  swap_table :: "swap_entry list"
  Th :: int
  Npg :: int
  Limit :: int

subsection \<open>Slots\<close>

definition init_slots :: "'a paging_scheme \<Rightarrow> 'a paging_scheme" where
  "init_slots s = s\<lparr>swap_table :=
     map (\<lambda>e. e\<lparr>sw_free := True, sw_perm := 0, sw_va := 0, sw_pid := 0\<rparr>) (swap_table s)\<rparr>"

definition cleanup_swap_slots :: "int \<Rightarrow> 'a paging_scheme \<Rightarrow> 'a paging_scheme" where
  "cleanup_swap_slots p s = s\<lparr>swap_table :=
     map (\<lambda>e. if \<not> sw_free e \<and> sw_pid e = p then e\<lparr>sw_free := True\<rparr> else e) (swap_table s)\<rparr>"

definition alloc_swap_slot :: "int \<Rightarrow> u32 \<Rightarrow> u32 \<Rightarrow> 'a paging_scheme \<Rightarrow> int \<times> 'a paging_scheme" where
  "alloc_swap_slot p va perm s =
     (case find_index sw_free (swap_table s) of
        None \<Rightarrow> (-1, s)
      | Some i \<Rightarrow> (int i, s\<lparr>swap_table := (swap_table s)[i :=
          \<lparr>sw_free = False, sw_perm = perm, sw_va = va, sw_pid = p\<rparr>]\<rparr>))"

definition swap_block :: "int \<Rightarrow> nat \<Rightarrow> int" where
  "swap_block slot i = (int (unat FSSIZE) - int (unat SWAP_BLOCKS)) + slot * int PAGES_PER_SLOT + int i"

fun write_swap_from :: "nat \<Rightarrow> nat \<Rightarrow> int \<Rightarrow> u32 \<Rightarrow> 'a kernel_scheme \<Rightarrow> 'a kernel_scheme outcome" where
  "write_swap_from 0 i slot a s = Ret s"
| "write_swap_from (Suc n) i slot a s =
     (let x = map (\<lambda>k. load8 (mem s) (a + of_nat (i * BSIZE + k))) [0..<BSIZE] in
      bindR (dofs (\<lambda>t. bindR (bread ROOTDEV (word_of_int (swap_block slot i)) t) (\<lambda>(b, t).
               bindR (bwrite b (set_data b x t)) (brelse b))) s)
        (write_swap_from n (i + 1) slot a))"

definition write_swap_page :: "int \<Rightarrow> u32 \<Rightarrow> 'a kernel_scheme \<Rightarrow> 'a kernel_scheme outcome" where
  "write_swap_page slot a s = write_swap_from PAGES_PER_SLOT 0 slot a s"

fun read_swap_from :: "nat \<Rightarrow> nat \<Rightarrow> int \<Rightarrow> u32 \<Rightarrow> 'a kernel_scheme \<Rightarrow> 'a kernel_scheme outcome" where
  "read_swap_from 0 i slot a s = Ret s"
| "read_swap_from (Suc n) i slot a s =
     bindR (onfs (\<lambda>t. bindR (bread ROOTDEV (word_of_int (swap_block slot i)) t) (\<lambda>(b, t).
              let x = data (bufs t ! b) in bindR (brelse b t) (\<lambda>t. Ret (x, t)))) s)
       (\<lambda>(x, s). read_swap_from n (i + 1) slot a (s\<lparr>mem := store_bytes (mem s) (a + of_nat (i * BSIZE)) x\<rparr>))"

definition read_swap_page :: "int \<Rightarrow> u32 \<Rightarrow> 'a kernel_scheme \<Rightarrow> 'a kernel_scheme outcome" where
  "read_swap_page slot a s = read_swap_from PAGES_PER_SLOT 0 slot a s"

subsection \<open>Victims\<close>

definition better :: "proc list \<Rightarrow> proc \<Rightarrow> nat option \<Rightarrow> bool" where
  "better tab p best = (case best of None \<Rightarrow> True
     | Some b \<Rightarrow> rss p > rss (tab ! b) \<or> (rss p = rss (tab ! b) \<and> pid p < pid (tab ! b)))"

fun victim_scan :: "proc list \<Rightarrow> nat \<Rightarrow> proc list \<Rightarrow> nat option \<Rightarrow> nat option" where
  "victim_scan tab i [] best = best"
| "victim_scan tab i (p # ps) best =
     (if \<not> listed (pstate p) then victim_scan tab (i + 1) ps best
      else if pid p < 1 then victim_scan tab (i + 1) ps best
      else if better tab p best then victim_scan tab (i + 1) ps (Some i)
      else victim_scan tab (i + 1) ps best)"

definition swap_victim :: "'a ksys_scheme \<Rightarrow> nat option" where
  "swap_victim s = victim_scan (ptable s) 0 (ptable s) None"

text \<open>The entry of \<open>va\<close>, when its page table is present.\<close>

definition entry_at :: "u32 \<Rightarrow> u32 \<Rightarrow> (u32 \<Rightarrow> u32) \<Rightarrow> u32 option" where
  "entry_at pd va m =
     (let pde = m (pd + 4 * PDX va) in
      if pde AND PTE_P = 0 then None else Some (P2V (PTE_ADDR pde) + 4 * PTX va))"

definition PTE_PUW :: u32 where "PTE_PUW = PTE_P OR PTE_U OR PTE_W"

definition pages :: "proc \<Rightarrow> u32 list" where
  "pages p = map (\<lambda>k. of_nat k * PGSIZE) [0..<(unat (sz p) + 4095) div 4096]"

text \<open>The passes over the pages below \<^verbatim>\<open>sz\<close>; the first result is \<open>0xffffffff\<close> when there is none.\<close>

fun first_va :: "u32 \<Rightarrow> (u32 \<Rightarrow> bool) \<Rightarrow> u32 list \<Rightarrow> (u32 \<Rightarrow> u32) \<Rightarrow> u32" where
  "first_va pd Q [] m = 0xffffffff"
| "first_va pd Q (va # vas) m =
     (case entry_at pd va m of
        None \<Rightarrow> first_va pd Q vas m
      | Some pte \<Rightarrow> if Q (m pte) then va else first_va pd Q vas m)"

fun clear_accessed :: "u32 \<Rightarrow> u32 list \<Rightarrow> (u32 \<Rightarrow> u32) \<Rightarrow> (u32 \<Rightarrow> u32)" where
  "clear_accessed pd [] m = m"
| "clear_accessed pd (va # vas) m =
     clear_accessed pd vas
       (case entry_at pd va m of
          None \<Rightarrow> m
        | Some pte \<Rightarrow> if m pte AND PTE_PUW \<noteq> 0 then m(pte := m pte AND NOT PTE_A) else m)"

definition select_victim_va :: "proc \<Rightarrow> 'a kmem_scheme \<Rightarrow> u32 \<times> 'a kmem_scheme" where
  "select_victim_va p s =
     (let va = first_va (pgdir p) (\<lambda>e. e AND PTE_PUW = PTE_PUW \<and> e AND PTE_A = 0) (pages p) (mem s) in
      if va \<noteq> 0xffffffff then (va, s)
      else
        let s = s\<lparr>mem := clear_accessed (pgdir p) (pages p) (mem s)\<rparr> in
        (first_va (pgdir p) (\<lambda>e. e AND PTE_PUW \<noteq> 0) (pages p) (mem s), s))"

subsection \<open>Swapping out and in\<close>

definition swap_out_one :: "nat \<Rightarrow> u32 \<Rightarrow> 'a paging_scheme \<Rightarrow> 'a paging_scheme outcome" where
  "swap_out_one i va s =
     (let (pte, _) = walkpgdir (pgdir (ptable s ! i)) va False s;
          perm = mem s pte AND 0xFFF;
          s = s\<lparr>mem := (mem s)(pte := mem s pte AND NOT (PTE_P OR PTE_U))\<rparr>;
          (slot, s) = alloc_swap_slot (pid (ptable s ! i)) va perm s
      in bindR (write_swap_page slot (P2V (PTE_ADDR (mem s pte))) s) (\<lambda>s.
         bindR (kfree (P2V (PTE_ADDR (mem s pte))) s) (\<lambda>s.
           Ret (upd_proc i (\<lambda>p. p\<lparr>rss := rss p - 1\<rparr>) s))))"

fun swap_out_pages :: "nat \<Rightarrow> 'a paging_scheme \<Rightarrow> 'a paging_scheme outcome" where
  "swap_out_pages 0 s = Ret s"
| "swap_out_pages (Suc n) s =
     (case swap_victim s of
        None \<Rightarrow> Ret s
      | Some i \<Rightarrow>
          let (va, s) = select_victim_va (ptable s ! i) s in
          if va = 0xffffffff then Ret s else bindR (swap_out_one i va s) (swap_out_pages n))"

definition handle_page_fault :: "u32 \<Rightarrow> 'a paging_scheme \<Rightarrow> 'a paging_scheme outcome" where
  "handle_page_fault fault_va s =
     (let va = PGROUNDDOWN fault_va in
      bindR (myproc s) (\<lambda>me.
        case find_index (\<lambda>e. \<not> sw_free e \<and> sw_pid e = pid (ptable s ! me) \<and> sw_va e = va) (swap_table s) of
          None \<Rightarrow> Panic ''page fault: not swapped''
        | Some slot \<Rightarrow>
            let perm = sw_perm (swap_table s ! slot);
                s = s\<lparr>swap_table := (swap_table s)[slot := (swap_table s ! slot)\<lparr>sw_free := True\<rparr>]\<rparr>;
                (m, s) = kalloc s
            in bindR (if m = 0 then
                        bindR (swap_out_pages (nat (Npg s)) s) (\<lambda>s. let (m, s) = kalloc s in
                          if m = 0 then Panic ''handle_page_fault: kalloc'' else Ret (m, s))
                      else Ret (m, s)) (\<lambda>(m, s).
               bindR (read_swap_page (int slot) m s) (\<lambda>s.
               bindR (mappages (pgdir (ptable s ! me)) va PGSIZE (V2P m) (perm OR PTE_P OR PTE_U) s) (\<lambda>(r, s).
                 if r \<noteq> 0 then Panic ''handle_page_fault: mappages''
                 else Ret (upd_proc me (\<lambda>p. p\<lparr>rss := rss p + 1\<rparr>) s))))))"

subsection \<open>Growing and shrinking with the swapper\<close>

fun release_from :: "nat \<Rightarrow> u32 \<Rightarrow> u32 \<Rightarrow> u32 \<Rightarrow> 'a ksys_scheme \<Rightarrow> 'a ksys_scheme outcome" where
  "release_from 0 pd a oldsz s = Blocked"
| "release_from (Suc n) pd a oldsz s =
     (if a < oldsz then
        let (pte, _) = walkpgdir pd a False s in
        if pte = 0 then release_from n pd (PGADDR (PDX a + 1) 0 0 - PGSIZE + PGSIZE) oldsz s
        else if mem s pte AND PTE_P \<noteq> 0 then
          bindR (kfree (P2V (PTE_ADDR (mem s pte))) s) (\<lambda>s.
          bindR (add_rss (-1) s) (\<lambda>s.
            release_from n pd (a + PGSIZE) oldsz (s\<lparr>mem := (mem s)(pte := 0)\<rparr>)))
        else release_from n pd (a + PGSIZE) oldsz s
      else Ret s)"

definition swap_deallocuvm :: "u32 \<Rightarrow> u32 \<Rightarrow> u32 \<Rightarrow> 'a ksys_scheme \<Rightarrow> (u32 \<times> 'a ksys_scheme) outcome" where
  "swap_deallocuvm pd oldsz newsz s =
     (if newsz \<ge> oldsz then Ret (oldsz, s)
      else bindR (release_from (unat oldsz div 4096 + 2) pd (PGROUNDUP newsz) oldsz s)
        (\<lambda>s. Ret (newsz, s)))"

text \<open>C divides towards zero; the numbers here are never negative.\<close>

definition adapt :: "'a paging_scheme \<Rightarrow> 'a paging_scheme" where
  "adapt s =
     (let s = s\<lparr>Th := Th s * (100 - BETA) div 100\<rparr>; k = Npg s * (100 + ALPHA) div 100
      in s\<lparr>Npg := (if k > Limit s then Limit s else k)\<rparr>)"

fun grow_from :: "nat \<Rightarrow> u32 \<Rightarrow> u32 \<Rightarrow> u32 \<Rightarrow> u32 \<Rightarrow> 'a paging_scheme \<Rightarrow> (u32 \<times> 'a paging_scheme) outcome" where
  "grow_from 0 pd oldsz newsz a s = Blocked"
| "grow_from (Suc n) pd oldsz newsz a s =
     (if a < newsz then
        let (v, s) = kalloc s in
        bindR (if v = 0 then
                 bindR (swap_out_pages (nat (Npg s)) s) (\<lambda>s. Ret (kalloc (adapt s)))
               else Ret (v, s)) (\<lambda>(v, s).
          if v = 0 then bindR (swap_deallocuvm pd newsz oldsz s) (\<lambda>(_, s). Ret (0, s))
          else
            let s = s\<lparr>mem := fill_words (mem s) v 0 1024\<rparr> in
            bindR (mappages pd a PGSIZE (V2P v) (PTE_W OR PTE_U) s) (\<lambda>(r, s).
              if r < 0 then
                bindR (swap_deallocuvm pd newsz oldsz s) (\<lambda>(_, s).
                bindR (kfree v s) (\<lambda>s. Ret (0, s)))
              else bindR (add_rss 1 s) (grow_from n pd oldsz newsz (a + PGSIZE))))
      else Ret (newsz, s))"

definition swap_allocuvm :: "u32 \<Rightarrow> u32 \<Rightarrow> u32 \<Rightarrow> 'a paging_scheme \<Rightarrow> (u32 \<times> 'a paging_scheme) outcome" where
  "swap_allocuvm pd oldsz newsz s =
     (if newsz \<ge> KERNBASE then Ret (0, s)
      else if newsz < oldsz then Ret (oldsz, s)
      else grow_from (unat newsz div 4096 + 2) pd oldsz newsz (PGROUNDUP oldsz) s)"

subsection \<open>Properties\<close>

text \<open>What it means that \<open>b\<close> is the right victim of a table: it is listed, and no other listed process has a
  larger resident set, or an equal one and a lower pid.\<close>

definition candidate :: "proc \<Rightarrow> bool" where
  "candidate p \<longleftrightarrow> listed (pstate p) \<and> pid p \<ge> 1"

definition no_better :: "proc \<Rightarrow> proc \<Rightarrow> bool" where
  "no_better b p \<longleftrightarrow> rss p < rss b \<or> (rss p = rss b \<and> pid b \<le> pid p)"

lemma no_better_trans: "no_better b p \<Longrightarrow> no_better c b \<Longrightarrow> no_better c p"
  by (auto simp: no_better_def)

lemma better_iff: "better tab p (Some b) \<longleftrightarrow> \<not> no_better (tab ! b) p"
  by (auto simp: better_def no_better_def)

definition best_of :: "proc list \<Rightarrow> nat \<Rightarrow> nat option \<Rightarrow> bool" where
  "best_of tab i r = (case r of
       None \<Rightarrow> \<forall>j < i. \<not> candidate (tab ! j)
     | Some b \<Rightarrow> b < i \<and> candidate (tab ! b) \<and> (\<forall>j < i. candidate (tab ! j) \<longrightarrow> no_better (tab ! b) (tab ! j)))"

lemma victim_scan_best:
  "drop i tab = ps \<Longrightarrow> i \<le> length tab \<Longrightarrow> best_of tab i best \<Longrightarrow>
   best_of tab (length tab) (victim_scan tab i ps best)"
proof (induction tab i ps best rule: victim_scan.induct)
  case (1 tab i best)
  then show ?case by simp
next
  case (2 tab i p ps best)
  have p: "tab ! i = p" "i < length tab" "drop (i + 1) tab = ps"
    using 2(5,6) by (auto simp: drop_Suc nth_via_drop tl_drop [symmetric] intro: Suc_le_lessD dest: arg_cong [of _ _ length])
  have skip: "best_of tab (i + 1) best" if "\<not> candidate p"
    using 2(7) that p(1) by (auto simp: best_of_def less_Suc_eq split: option.splits)
  have take: "best_of tab (i + 1) (Some i)" if "candidate p" "better tab p best"
  proof (cases best)
    case None
    then show ?thesis using 2(7) that p(1) by (auto simp: best_of_def no_better_def less_Suc_eq)
  next
    case (Some b)
    then have "no_better p (tab ! b)" using that by (auto simp: better_def no_better_def)
    then show ?thesis
      using 2(7) Some that p(1) no_better_trans
      by (auto simp: best_of_def less_Suc_eq no_better_def [of p p])
  qed
  have keep: "best_of tab (i + 1) best" if "candidate p" "\<not> better tab p best"
  proof (cases best)
    case None
    then show ?thesis using that by (simp add: better_def)
  next
    case (Some b)
    then show ?thesis using 2(7) that p(1) by (auto simp: best_of_def better_iff less_Suc_eq)
  qed
  show ?case
    using 2(1-4) p skip take keep by (auto simp: candidate_def not_less)
qed

text \<open>C39: the swapper's victim is the listed process with the largest resident set, the one with the
  lowest pid among equals; there is none only when no process is listed.\<close>
theorem swap_victim_best: "best_of (ptable s) (length (ptable s)) (swap_victim s)"
  unfolding swap_victim_def by (rule victim_scan_best) (simp_all add: best_of_def)

subsection \<open>Where a page goes\<close>

text \<open>The blocks of the slots, and of the eight in front of slot 0 that the number \<open>-1\<close> stands for.\<close>

lemma swap_block_unat:
  assumes "-1 \<le> slot" and "slot < int NSPAGESLOTS" and "k < 8"
  shows "unat (word_of_int (swap_block slot k) :: u32) = nat (swap_block slot k)"
    and "9992 \<le> swap_block slot k" and "swap_block slot k < 16400"
proof -
  show r: "9992 \<le> swap_block slot k" "swap_block slot k < 16400"
    using assms by (simp_all add: swap_block_def FSSIZE_def SWAP_BLOCKS_def NSPAGESLOTS_def PAGES_PER_SLOT_def)
  show "unat (word_of_int (swap_block slot k) :: u32) = nat (swap_block slot k)"
    using r by (simp add: unsigned_of_int take_bit_int_eq_self)
qed

text \<open>With nothing held, it does not matter who runs, nor what lies above the disk.\<close>

lemma ready_same:
  assumes "ready s" and "bufs t = bufs s" and "disk t = disk s" and "idequeue t = idequeue s"
    and "ide_fault t = ide_fault s" and "havedisk1 t = havedisk1 s"
  shows "ready t"
proof -
  obtain xs where inv: "cache_inv s xs" and fr: "\<forall>i < 30. free_buf s i" "\<forall>i < 30. clean s i"
    using assms(1) quiet_clean [of s] by (auto simp: ready_def quiet_def)
  have e: "caches t = caches s" "free_buf t = free_buf s" "clean t = clean s" "dirty_valid t = dirty_valid s"
      "bio_ring t xs = bio_ring s xs"
    unfolding fun_eq_iff caches_def free_buf_def clean_def dirty_valid_def bio_ring_def assms(2,3) by simp_all
  have "cache_inv t xs" using inv fr unfolding cache_inv_def e assms(4-6) by blast
  then show ?thesis using assms(1) fr unfolding ready_def quiet_def e assms(2) by blast
qed

lemma write_swap_one:
  assumes "cur s = Some me" and "ready (fsk s)" and "n < FSSIZE"
  shows "\<exists>t. dofs (\<lambda>t. bindR (bread ROOTDEV n t) (\<lambda>(b, t). bindR (bwrite b (set_data b x t)) (brelse b))) s =
      Ret (s\<lparr>fsk := t\<rparr>) \<and> ready t \<and> disk t = (disk (fsk s))(ROOTDEV := (disk (fsk s) ROOTDEV)(n := x))"
proof -
  let ?s = "(fsk s)\<lparr>curpid := pid (ptable s ! me)\<rparr>"
  have "ready ?s" by (rule ready_same [OF assms(2)]) simp_all
  then obtain t where t: "write_block n x ?s = Ret t" "ready t"
      "disk t = (disk ?s)(ROOTDEV := (disk ?s ROOTDEV)(n := x))"
    using write_block_total [OF _ assms(3)] by blast
  have w: "bindR (bread ROOTDEV n ?s) (\<lambda>(b, t). bindR (bwrite b (set_data b x t)) (brelse b)) = Ret t"
    using t(1) unfolding write_block_def set_data_def .
  have "dofs (\<lambda>t. bindR (bread ROOTDEV n t) (\<lambda>(b, t). bindR (bwrite b (set_data b x t)) (brelse b))) s =
      Ret (s\<lparr>fsk := t\<rparr>)"
    by (simp only: dofs_def onfs_def myproc_def assms(1) option.case bindR.simps w prod.case)
  then show ?thesis using t(2,3) by auto
qed

definition page_sector :: "(u32 \<Rightarrow> u32) \<Rightarrow> u32 \<Rightarrow> nat \<Rightarrow> u8 list" where
  "page_sector m a k = map (\<lambda>j. load8 m (a + of_nat (k * BSIZE + j))) [0..<BSIZE]"

lemma write_swap_from_mem: "write_swap_from n i slot a s = Ret t \<Longrightarrow> mem t = mem s"
  by (induction n arbitrary: i s) (auto simp: Let_def dofs_def onfs_def split: prod.splits)

lemma write_swap_from_ok:
  assumes "-1 \<le> slot" and "slot < int NSPAGESLOTS" and "cur s = Some me" and "ready (fsk s)" and "i + n \<le> 8"
  shows "\<exists>t. write_swap_from n i slot a s = Ret t \<and>
    (\<forall>k \<in> {i..<i + n}. disk (fsk t) ROOTDEV (word_of_int (swap_block slot k)) = page_sector (mem s) a k) \<and>
    (\<forall>b. (\<forall>k \<in> {i..<i + n}. b \<noteq> word_of_int (swap_block slot k)) \<longrightarrow>
       disk (fsk t) ROOTDEV b = disk (fsk s) ROOTDEV b)"
  using assms(3-5)
proof (induction n arbitrary: i s)
  case (Suc n)
  let ?b = "\<lambda>k. word_of_int (swap_block slot k) :: u32"
  note u = swap_block_unat [OF assms(1,2)]
  have "?b i < FSSIZE"
    using u [of i] Suc.prems(3) by (simp add: word_less_nat_alt FSSIZE_def SWAP_BLOCKS_def)
  then obtain v where v: "dofs (\<lambda>t. bindR (bread ROOTDEV (?b i) t)
        (\<lambda>(b, t). bindR (bwrite b (set_data b (page_sector (mem s) a i) t)) (brelse b))) s = Ret (s\<lparr>fsk := v\<rparr>)"
      "ready v" "disk v = (disk (fsk s))(ROOTDEV := (disk (fsk s) ROOTDEV)(?b i := page_sector (mem s) a i))"
    using write_swap_one [OF Suc.prems(1,2)] by blast
  obtain t where t: "write_swap_from n (i + 1) slot a (s\<lparr>fsk := v\<rparr>) = Ret t"
      "\<forall>k \<in> {i + 1..<i + 1 + n}. disk (fsk t) ROOTDEV (?b k) = page_sector (mem s) a k"
      "\<forall>b. (\<forall>k \<in> {i + 1..<i + 1 + n}. b \<noteq> ?b k) \<longrightarrow> disk (fsk t) ROOTDEV b = disk v ROOTDEV b"
    using Suc.IH [of "s\<lparr>fsk := v\<rparr>" "i + 1"] Suc.prems v(2) by auto
  have w: "write_swap_from (Suc n) i slot a s = Ret t"
    using v(1) t(1) unfolding write_swap_from.simps Let_def page_sector_def [symmetric] by simp
  have ne: "?b i \<noteq> ?b k" if "k \<in> {i + 1..<i + 1 + n}" for k
  proof
    assume "?b i = ?b k"
    then have "nat (swap_block slot k) = nat (swap_block slot i)"
      using u(1) [of k] u(1) [of i] that Suc.prems(3) by simp
    then have "swap_block slot k = swap_block slot i"
      using that u(2) [of k] u(2) [of i] Suc.prems(3) by (simp add: eq_nat_nat_iff)
    then show False using that by (simp add: swap_block_def)
  qed
  have "\<forall>k \<in> {i + 1..<i + 1 + n}. ?b i \<noteq> ?b k" using ne by (intro ballI)
  then have "disk (fsk t) ROOTDEV (?b i) = disk v ROOTDEV (?b i)" using t(3) by blast
  then have "disk (fsk t) ROOTDEV (?b i) = page_sector (mem s) a i" by (simp add: v(3))
  then have "\<forall>k \<in> {i..<i + Suc n}. disk (fsk t) ROOTDEV (?b k) = page_sector (mem s) a k"
    using t(2) by (auto simp: le_less)
  moreover have "disk (fsk t) ROOTDEV b = disk (fsk s) ROOTDEV b" if "\<forall>k \<in> {i..<i + Suc n}. b \<noteq> ?b k" for b
    using t(3) [THEN spec, of b] that v(3) by simp
  ultimately show ?case using w by blast
qed simp

text \<open>C40: the swap area and the file system overlap.  \<^verbatim>\<open>mkfs\<close> reserves the blocks behind the
  superblock for swapping, but swapping a page out writes it to the last blocks of the disk, which
  the bitmap of a fresh image gives out as free data blocks: into the first free slot, or, since nobody looks
  at the \<open>-1\<close> that \<^verbatim>\<open>alloc_swap_slot\<close> returns with every slot taken, into the eight blocks in front of
  slot 0.  In both cases the page replaces what the disk had there, the slot table
  is no bar to it, and what is left for \<^verbatim>\<open>swap_out_pages\<close> to do is to free the page and count it.\<close>
theorem swap_overwrites_files:
  fixes s :: "'a paging_scheme" and i :: nat and va :: u32
  assumes "length (swap_table s) = NSPAGESLOTS" and "cur s = Some me" and "ready (fsk s)" and "used \<le> 9992"
  defines "slot \<equiv> (case find_index sw_free (swap_table s) of None \<Rightarrow> -1 | Some j \<Rightarrow> int j)"
    and "pte \<equiv> fst (walkpgdir (pgdir (ptable s ! i)) va False s)"
  defines "m \<equiv> (mem s)(pte := mem s pte AND NOT (PTE_P OR PTE_U))"
  defines "a \<equiv> P2V (PTE_ADDR (m pte))"
  shows "(\<forall>p e. fst (alloc_swap_slot p va e s) = slot \<and> (slot = -1 \<longrightarrow> alloc_swap_slot p va e s = (-1, s))) \<and>
    (\<exists>u t. write_swap_page slot a u = Ret t \<and>
      swap_out_one i va s = bindR (kfree a t) (\<lambda>s. Ret (upd_proc i (\<lambda>p. p\<lparr>rss := rss p - 1\<rparr>) s)) \<and>
      (\<forall>k < PAGES_PER_SLOT. let b = word_of_int (swap_block slot k) :: u32 in
         disk (fsk t) ROOTDEV b = page_sector m a k \<and> nmeta \<le> b \<and> b < sb_size mk_sb \<and>
         \<not> bit_of (rsect (BBLOCK b mk_sb) (mk_balloc used g)) (unat (b mod BPB))))"
proof -
  have slot: "-1 \<le> slot" "slot < int NSPAGESLOTS"
    using assms(1) find_index_SomeD [of sw_free "swap_table s"] by (auto simp: slot_def split: option.splits)
  have al: "fst (alloc_swap_slot p va e s) = slot \<and> (slot = -1 \<longrightarrow> alloc_swap_slot p va e s = (-1, s))" for p e
    by (auto simp: alloc_swap_slot_def slot_def split: option.splits)
  define u where "u = snd (alloc_swap_slot (pid (ptable s ! i)) va (mem s pte AND 0xFFF) (s\<lparr>mem := m\<rparr>))"
  have u: "alloc_swap_slot (pid (ptable s ! i)) va (mem s pte AND 0xFFF) (s\<lparr>mem := m\<rparr>) = (slot, u)"
      "mem u = m" "cur u = Some me" "fsk u = fsk s"
    using assms(2) by (auto simp: u_def alloc_swap_slot_def slot_def split: option.splits)
  obtain t where t: "write_swap_page slot a u = Ret t"
      "\<forall>k \<in> {0..<8}. disk (fsk t) ROOTDEV (word_of_int (swap_block slot k)) = page_sector m a k"
    using write_swap_from_ok [OF slot u(3), of 0 8 a] assms(3) u(2,4)
    by (auto simp: write_swap_page_def PAGES_PER_SLOT_def)
  have mt: "mem t = m"
    using write_swap_from_mem [of PAGES_PER_SLOT 0 slot a u t] t(1) u(2) by (simp add: write_swap_page_def)
  have w: "walkpgdir (pgdir (ptable s ! i)) va False s = (pte, s)"
    by (simp add: pte_def walkpgdir_def Let_def)
  have pt: "ptable (s\<lparr>mem := m\<rparr>) = ptable s" by simp
  have out: "swap_out_one i va s = bindR (kfree a t) (\<lambda>s. Ret (upd_proc i (\<lambda>p. p\<lparr>rss := rss p - 1\<rparr>) s))"
    by (simp only: swap_out_one_def Let_def w prod.case m_def [symmetric] pt u(1,2) a_def [symmetric] t(1) bindR.simps mt)
  have free: "nmeta \<le> b \<and> b < sb_size mk_sb \<and> \<not> bit_of (rsect (BBLOCK b mk_sb) (mk_balloc used g)) (unat (b mod BPB))"
    if "k < 8" "b = word_of_int (swap_block slot k)" for k and b :: u32
  proof -
    note r = swap_block_unat [OF slot that(1)]
    have u: "9992 \<le> unat b" "unat b < 16400" using r that(2) by simp_all
    have "unat nmeta = 6463" "unat (sb_size mk_sb) = 16400" by (simp_all add: layout Let_def)
    moreover have "\<not> bit_of (rsect (BBLOCK b mk_sb) (mk_balloc used g)) (unat (b mod BPB))"
      using mk_balloc_bit [of b used g] u assms(4) by simp
    ultimately show ?thesis using u by (simp add: word_le_nat_alt word_less_nat_alt)
  qed
  have "\<forall>k < PAGES_PER_SLOT. let b = word_of_int (swap_block slot k) :: u32 in
      disk (fsk t) ROOTDEV b = page_sector m a k \<and> nmeta \<le> b \<and> b < sb_size mk_sb \<and>
      \<not> bit_of (rsect (BBLOCK b mk_sb) (mk_balloc used g)) (unat (b mod BPB))"
    using t(2) free by (simp add: Let_def PAGES_PER_SLOT_def)
  then show ?thesis using al t(1) out by blast
qed

text \<open>A machine with every slot taken.\<close>

definition demo_swap :: paging where
  "demo_swap = kernel.extend (demo_kernel\<lparr>fsk := iosys.extend (iosys.truncate (binit boot_io)) (iosys.more (fsk demo_kernel))\<rparr>)
     (paging.fields (replicate NSPAGESLOTS \<lparr>sw_free = False, sw_perm = 7, sw_va = 0, sw_pid = 9\<rparr>) 100 2 100)"

theorem swap_overwrites_files_witness:
  "alloc_swap_slot 1 0 1 demo_swap = (-1, demo_swap) \<and>
   (\<exists>u t. write_swap_page (-1) 0x80000000 u = Ret t \<and>
      swap_out_one 0 0 demo_swap =
        bindR (kfree 0x80000000 t) (\<lambda>s. Ret (upd_proc 0 (\<lambda>p. p\<lparr>rss := rss p - 1\<rparr>) s)) \<and>
      disk (fsk t) ROOTDEV 9999 = page_sector ((mem demo_swap)(0x80000000 := 0)) 0x80000000 7)"
proof -
  have d: "swap_table demo_swap = replicate NSPAGESLOTS \<lparr>sw_free = False, sw_perm = 7, sw_va = 0, sw_pid = 9\<rparr>"
      "mem demo_swap = mem demo_kernel" "cur demo_swap = Some 0" "ptable demo_swap = ptable demo_kernel"
      "fsk demo_swap = iosys.extend (iosys.truncate (binit boot_io)) (iosys.more (fsk demo_kernel))"
    by (simp_all add: demo_swap_def kernel.extend_def paging.fields_def demo_fields demo_kernel_def)
  have r: "ready (fsk demo_swap)"
    by (rule ready_same [OF binit_cache_inv(2) [OF fresh_boot_io]])
      (simp_all add: d(5) iosys.extend_def iosys.truncate_def)
  have n: "find_index sw_free (swap_table demo_swap) = None" by (simp add: d(1))
  have w: "fst (walkpgdir (pgdir (ptable demo_swap ! 0)) 0 False demo_swap) = 0x80000000"
    by (simp add: walkpgdir_def d(2,4) demo_fields idle_proc_def PDX_def PTX_def P2V_def KERNBASE_def PTE_ADDR_def PTE_P_def)
  have e: "mem demo_swap 0x80000000 AND NOT (PTE_P OR PTE_U) = 0"
    by (simp add: d(2) demo_fields PTE_P_def PTE_U_def)
  have l: "length (swap_table demo_swap) = NSPAGESLOTS" by (simp add: d(1))
  have b: "word_of_int (swap_block (-1) 7) = (9999 :: u32)"
    by (simp add: swap_block_def FSSIZE_def SWAP_BLOCKS_def PAGES_PER_SLOT_def)
  have a: "P2V (PTE_ADDR 0) = 0x80000000" by (simp add: P2V_def PTE_ADDR_def KERNBASE_def)
  have k: "7 < PAGES_PER_SLOT" by (simp add: PAGES_PER_SLOT_def)
  note st = swap_overwrites_files [OF l d(3) r, of 6463 0 0 "\<lparr>sect = \<lambda>_. zeroes, freeinode = 1, freeblock = nmeta\<rparr>",
      unfolded n w option.case e fun_upd_same a Let_def]
  have al: "alloc_swap_slot 1 0 1 demo_swap = (-1, demo_swap)" using st by simp
  obtain u t where t: "write_swap_page (-1) 0x80000000 u = Ret t"
      "swap_out_one 0 0 demo_swap =
        bindR (kfree 0x80000000 t) (\<lambda>s. Ret (upd_proc 0 (\<lambda>p. p\<lparr>rss := rss p - 1\<rparr>) s))"
      "\<forall>k < PAGES_PER_SLOT. disk (fsk t) ROOTDEV (word_of_int (swap_block (-1) k)) =
         page_sector ((mem demo_swap)(0x80000000 := 0)) 0x80000000 k"
    using st by auto
  have "disk (fsk t) ROOTDEV 9999 = page_sector ((mem demo_swap)(0x80000000 := 0)) 0x80000000 7"
    using t(3) k unfolding b [symmetric] by blast
  then show ?thesis using al t(1,2) by blast
qed

end
