(* ===== verification/Kbd.thy ===== *)
theory Kbd
  imports Console
begin

text \<open>
  The keyboard (\<^verbatim>\<open>kbd.c\<close>, \<^verbatim>\<open>kbd.h\<close>) and the two callers of \<^verbatim>\<open>consoleintr\<close>.  A table gives its first entries in
  order and the ones that the source names by index; the others are 0.
\<close>

definition SHIFT :: u32 where "SHIFT = 0x01"
definition CTL :: u32 where "CTL = 0x02"
definition ALT :: u32 where "ALT = 0x04"
definition CAPSLOCK :: u32 where "CAPSLOCK = 0x08"
definition NUMLOCK :: u32 where "NUMLOCK = 0x10"
definition SCROLLLOCK :: u32 where "SCROLLLOCK = 0x20"
definition E0ESC :: u32 where "E0ESC = 0x40"

definition entry :: "u8 list \<Rightarrow> (nat \<times> u8) list \<Rightarrow> nat \<Rightarrow> u8" where
  "entry xs named i =
     (case map_of named i of Some c \<Rightarrow> c | None \<Rightarrow> if i < length xs then xs ! i else 0)"

definition code_of :: "(nat \<times> u32) list \<Rightarrow> nat \<Rightarrow> u32" where
  "code_of named i = (case map_of named i of Some c \<Rightarrow> c | None \<Rightarrow> 0)"

definition shiftcode :: "nat \<Rightarrow> u32" where
  "shiftcode = code_of [(0x1D, CTL), (0x2A, SHIFT), (0x36, SHIFT), (0x38, ALT), (0x9D, CTL), (0xB8, ALT)]"

definition togglecode :: "nat \<Rightarrow> u32" where
  "togglecode = code_of [(0x3A, CAPSLOCK), (0x45, NUMLOCK), (0x46, SCROLLLOCK)]"

definition normalmap :: "nat \<Rightarrow> u8" where
  "normalmap = entry
    [0, 27, 49, 50, 51, 52, 53, 54, 55, 56, 57, 48, 45, 61, 8, 9,
     113, 119, 101, 114, 116, 121, 117, 105, 111, 112, 91, 93, 10, 0, 97, 115,
     100, 102, 103, 104, 106, 107, 108, 59, 39, 96, 0, 92, 122, 120, 99, 118,
     98, 110, 109, 44, 46, 47, 0, 42, 0, 32, 0, 0, 0, 0, 0, 0,
     0, 0, 0, 0, 0, 0, 0, 55, 56, 57, 45, 52, 53, 54, 43, 49,
     50, 51, 48, 46, 0, 0, 0, 0]
    [(0x9C, 10), (0xB5, 47), (0xC8, 226), (0xD0, 227), (0xC9, 230), (0xD1, 231), (0xCB, 228), (0xCD, 229), (0x97, 224), (0xCF, 225), (0xD2, 232), (0xD3, 233)]"

definition shiftmap :: "nat \<Rightarrow> u8" where
  "shiftmap = entry
    [0, 27, 33, 64, 35, 36, 37, 94, 38, 42, 40, 41, 95, 43, 8, 9,
     81, 87, 69, 82, 84, 89, 85, 73, 79, 80, 123, 125, 10, 0, 65, 83,
     68, 70, 71, 72, 74, 75, 76, 58, 34, 126, 0, 124, 90, 88, 67, 86,
     66, 78, 77, 60, 62, 63, 0, 42, 0, 32, 0, 0, 0, 0, 0, 0,
     0, 0, 0, 0, 0, 0, 0, 55, 56, 57, 45, 52, 53, 54, 43, 49,
     50, 51, 48, 46, 0, 0, 0, 0]
    [(0x9C, 10), (0xB5, 47), (0xC8, 226), (0xD0, 227), (0xC9, 230), (0xD1, 231), (0xCB, 228), (0xCD, 229), (0x97, 224), (0xCF, 225), (0xD2, 232), (0xD3, 233)]"

definition ctlmap :: "nat \<Rightarrow> u8" where
  "ctlmap = entry
    [0, 0, 0, 0, 0, 0, 0, 0, 0, 0, 0, 0, 0, 0, 0, 0,
     17, 23, 5, 18, 20, 25, 21, 9, 15, 16, 0, 0, 13, 0, 1, 19,
     4, 6, 7, 8, 10, 11, 12, 0, 0, 0, 0, 28, 26, 24, 3, 22,
     2, 14, 13, 0, 0, 239, 0, 0]
    [(0x9C, 13), (0xB5, 239), (0xC8, 226), (0xD0, 227), (0xC9, 230), (0xD1, 231), (0xCB, 228), (0xCD, 229), (0x97, 224), (0xCF, 225), (0xD2, 232), (0xD3, 233)]"

text \<open>\<open>kbdgetc\<close> on a byte of the controller, with \<open>shift\<close> its static variable.\<close>

definition kbdgetc :: "u8 \<Rightarrow> u32 \<Rightarrow> int \<times> u32" where
  "kbdgetc d shift =
     (if d = 0xE0 then (0, shift OR E0ESC)
      else if d AND 0x80 \<noteq> 0 then
        let k = (if shift AND E0ESC \<noteq> 0 then unat d else unat (d AND 0x7F))
        in (0, shift AND NOT (shiftcode k OR E0ESC))
      else
        let (d, shift) = (if shift AND E0ESC \<noteq> 0 then (d OR 0x80, shift AND NOT E0ESC) else (d, shift));
            k = unat d;
            shift = shift OR shiftcode k;
            shift = shift XOR togglecode k;
            m = shift AND (CTL OR SHIFT);
            c = (if m = 0 then normalmap k else if m = 1 then shiftmap k else ctlmap k);
            c = (if shift AND CAPSLOCK \<noteq> 0 then
                   if 97 \<le> c \<and> c \<le> 122 then c + (65 - 97)
                   else if 65 \<le> c \<and> c \<le> 90 then c + (97 - 65) else c
                 else c)
        in (uint c, shift))"

text \<open>What the calls of \<^verbatim>\<open>kbdgetc\<close> return while the controller has data, and the interrupt.\<close>

fun kbd_codes :: "u8 list \<Rightarrow> u32 \<Rightarrow> int list \<times> u32" where
  "kbd_codes [] shift = ([], shift)"
| "kbd_codes (d # ds) shift =
     (let (c, shift) = kbdgetc d shift; (cs, shift) = kbd_codes ds shift in (c # cs, shift))"

definition kbdintr :: "u8 list \<Rightarrow> u32 \<Rightarrow> 'a csys_scheme \<Rightarrow> (u32 \<times> 'a csys_scheme) outcome" where
  "kbdintr ds shift s =
     (let (cs, shift) = kbd_codes ds shift in bindR (consoleintr cs s) (\<lambda>s. Ret (shift, s)))"

definition uartintr :: "u8 list \<Rightarrow> 'a csys_scheme \<Rightarrow> 'a csys_scheme outcome" where
  "uartintr ds s = consoleintr (if has_uart (cons s) then map uint ds else []) s"

end
