(* ===== verification/Trap.thy ===== *)
theory Trap
  imports Syscall Kbd
begin

text \<open>
  Interrupts and exceptions (\<^verbatim>\<open>trap.c\<close> of \<^verbatim>\<open>Assignment_3/cs236-xv6-mac\<close>).  The trap frame is at \<open>t\<close>, \<open>k\<close> is the CPU's
  number, \<open>cr2\<close> the faulting address, \<open>keys\<close> and \<open>line\<close> what keyboard and serial port have to deliver.  The result says how the trap ends:
  back to where it came from, or with the CPU given up by \<^verbatim>\<open>yield\<close>, by a system call that sleeps, or by \<^verbatim>\<open>exit\<close>.
\<close>

record trapsys = mach +
  kbshift :: u32

datatype trap_end = Resumed | Yielded | Waiting | Exited

definition T_PGFLT :: u32 where "T_PGFLT = 14"
definition T_SYSCALL :: u32 where "T_SYSCALL = 64"
definition T_IRQ0 :: u32 where "T_IRQ0 = 32"
definition IRQ_TIMER :: u32 where "IRQ_TIMER = 0"
definition IRQ_KBD :: u32 where "IRQ_KBD = 1"
definition IRQ_COM1 :: u32 where "IRQ_COM1 = 4"
definition IRQ_IDE :: u32 where "IRQ_IDE = 14"
definition IRQ_SPURIOUS :: u32 where "IRQ_SPURIOUS = 31"

definition trapno :: "u32 \<Rightarrow> 'a kmem_scheme \<Rightarrow> u32" where
  "trapno t s = mem s (t + 48)"

definition from_user :: "u32 \<Rightarrow> 'a kmem_scheme \<Rightarrow> bool" where
  "from_user t s \<longleftrightarrow> mem s (t + 60) AND 3 = 3"

definition dec :: "u32 \<Rightarrow> u8 list" where "dec w = kprintint w 10 True"
definition hex :: "u32 \<Rightarrow> u8 list" where "hex w = kprintint w 16 False"

definition exits :: "'a kernel_scheme \<Rightarrow> (trap_end \<times> 'a kernel_scheme) outcome" where
  "exits s = bindR (exit s) (\<lambda>s. Ret (Exited, s))"

definition trap_syscall :: "u32 \<Rightarrow> 'a mach_scheme \<Rightarrow> (trap_end \<times> 'a mach_scheme) outcome" where
  "trap_syscall t s =
     bindR (myproc s) (\<lambda>i.
       if killed (ptable s ! i) then exits s
       else bindR (syscall (upd_proc i (\<lambda>p. p\<lparr>tf := t\<rparr>) s)) (\<lambda>(returned, s).
         if \<not> returned then Ret (Waiting, s)
         else if killed (ptable s ! i) then exits s
         else Ret (Resumed, s)))"

text \<open>The page-fault case; the boolean says whether the handler goes on behind the \<^verbatim>\<open>switch\<close>.\<close>

definition trap_pgflt :: "u32 \<Rightarrow> 'a mach_scheme \<Rightarrow> (bool \<times> 'a mach_scheme) outcome" where
  "trap_pgflt va s =
     bindR (myproc s) (\<lambda>i.
       let p = ptable s ! i; (pte, _) = walkpgdir (pgdir p) va False s in
       if pte \<noteq> 0 \<and> mem s pte AND PTE_P = 0 \<and> mem s pte \<noteq> 0
       then bindR (swap_in_page i va s) (\<lambda>s. Ret (False, s))
       else bindR (cputs (ascii ''pid '' @ dec (word_of_int (pid p)) @ [32] @ cname (name p) @
              ascii '': bad page fault at 0x'' @ hex va @ [10]) s) (\<lambda>s.
            Ret (True, upd_proc i (\<lambda>p. p\<lparr>killed := True\<rparr>) s)))"

definition trap_other :: "nat \<Rightarrow> u32 \<Rightarrow> u32 \<Rightarrow> 'a mach_scheme \<Rightarrow> 'a mach_scheme outcome" where
  "trap_other k t cr2 s =
     (case cur s of
        Some i \<Rightarrow>
          if mem s (t + 60) AND 3 = 0 then Panic ''trap''
          else
            let p = ptable s ! i in
            bindR (cputs (ascii ''pid '' @ dec (word_of_int (pid p)) @ [32] @ cname (name p) @ ascii '': trap '' @
                dec (trapno t s) @ ascii '' err '' @ dec (mem s (t + 52)) @ ascii '' on cpu '' @ dec (of_nat k) @
                ascii '' eip 0x'' @ hex (mem s (t + 56)) @ ascii '' addr 0x'' @ hex cr2 @ ascii ''--kill proc'' @ [10]) s)
              (\<lambda>s. Ret (upd_proc i (\<lambda>p. p\<lparr>killed := True\<rparr>) s))
      | None \<Rightarrow> Panic ''trap'')"

definition trap_body :: "nat \<Rightarrow> u32 \<Rightarrow> u32 \<Rightarrow> u8 list \<Rightarrow> u8 list \<Rightarrow> 'a trapsys_scheme \<Rightarrow>
    (bool \<times> 'a trapsys_scheme) outcome" where
  "trap_body k t cr2 keys line s =
     (let no = trapno t s; more = (\<lambda>s. Ret (True, s)) in
      if no = T_IRQ0 + IRQ_TIMER then
        more (if k = 0 then wakeup ChanTicks (s\<lparr>ticks := ticks s + 1\<rparr>) else s)
      else if no = T_IRQ0 + IRQ_IDE then
        bindR (ideintr (fsk s)) (\<lambda>u. more (s\<lparr>fsk := u\<rparr>))
      else if no = T_IRQ0 + IRQ_IDE + 1 then more s
      else if no = T_IRQ0 + IRQ_KBD then
        bindR (kbdintr keys (kbshift s) s) (\<lambda>(sh, s). more (s\<lparr>kbshift := sh\<rparr>))
      else if no = T_IRQ0 + IRQ_COM1 then bindR (uartintr line s) more
      else if no = T_PGFLT then trap_pgflt cr2 s
      else if no = T_IRQ0 + 7 \<or> no = T_IRQ0 + IRQ_SPURIOUS then
        bindR (cputs (ascii ''cpu'' @ dec (of_nat k) @ ascii '': spurious interrupt at '' @ hex (mem s (t + 60)) @
          ascii '':'' @ hex (mem s (t + 56)) @ [10]) s) more
      else bindR (trap_other k t cr2 s) more)"

text \<open>What follows the \<^verbatim>\<open>switch\<close>, up to a \<^verbatim>\<open>yield\<close>, and what follows that one.\<close>

definition trap_tail :: "u32 \<Rightarrow> 'a kernel_scheme \<Rightarrow> (trap_end \<times> 'a kernel_scheme) outcome" where
  "trap_tail t s =
     (case cur s of
        None \<Rightarrow> Ret (Resumed, s)
      | Some i \<Rightarrow>
          if killed (ptable s ! i) \<and> from_user t s then exits s
          else if pstate (ptable s ! i) = RUNNING \<and> trapno t s = T_IRQ0 + IRQ_TIMER
          then bindR (yield s) (\<lambda>s. Ret (Yielded, s))
          else Ret (Resumed, s))"

definition trap_resume :: "u32 \<Rightarrow> 'a kernel_scheme \<Rightarrow> (trap_end \<times> 'a kernel_scheme) outcome" where
  "trap_resume t s =
     (case cur s of
        None \<Rightarrow> Ret (Resumed, s)
      | Some i \<Rightarrow> if killed (ptable s ! i) \<and> from_user t s then exits s else Ret (Resumed, s))"

definition trap :: "nat \<Rightarrow> u32 \<Rightarrow> u32 \<Rightarrow> u8 list \<Rightarrow> u8 list \<Rightarrow> 'a trapsys_scheme \<Rightarrow>
    (trap_end \<times> 'a trapsys_scheme) outcome" where
  "trap k t cr2 keys line s =
     (if trapno t s = T_SYSCALL then trap_syscall t s
      else bindR (trap_body k t cr2 keys line s) (\<lambda>(more, s).
        if more then trap_tail t s else Ret (Resumed, s)))"

end
