(* ===== verification/Editor.thy ===== *)
theory Editor
  imports Console
begin

text \<open>
  The console as its users see it (\<^verbatim>\<open>console.c\<close>): output never leaves the screen and never panics, and the
  keyboard interrupt is a line editor, whose state is the committed input and the line that is being typed.
\<close>

subsection \<open>The screen\<close>

definition screen_ok :: "console \<Rightarrow> bool" where
  "screen_ok k \<longleftrightarrow> \<not> panicked k \<and> uint (crt_pos k) < 24 * 80"

text \<open>\<open>k'\<close> differs from \<open>k\<close> only in what is on the screen and on the serial port.\<close>

definition shown :: "console \<Rightarrow> console \<Rightarrow> bool" where
  "shown k k' \<longleftrightarrow> screen_ok k' \<and> (\<forall>i \<ge> 24 * 80. crt k' i = crt k i) \<and> has_uart k' = has_uart k \<and>
     ibuf k' = ibuf k \<and> in_r k' = in_r k \<and> in_w k' = in_w k \<and> in_e k' = in_e k"

lemma shown_refl: "screen_ok k \<Longrightarrow> shown k k"
  by (simp add: shown_def)

lemma shown_trans: "shown k l \<Longrightarrow> shown l m \<Longrightarrow> shown k m"
  by (simp add: shown_def)

lemma cgaputc_shown:
  assumes "screen_ok k"
  shows "\<exists>k'. cgaputc c k = Ret k' \<and> shown k k'"
proof -
  define p where "p = uint (crt_pos k)"
  have p: "0 \<le> p" "p < 1920" using assms by (simp_all add: p_def screen_ok_def)
  define q where "q = (if c = 10 then p + (80 - p mod 80) else if c = BACKSPACE then (if p > 0 then p - 1 else p) else p + 1)"
  define m where "m = (if c = 10 \<or> c = BACKSPACE then crt k else (crt k)(nat p := word_of_int (c mod 256) OR 0x0700))"
  have q: "0 \<le> q" "q \<le> 1920" using p by (auto simp: q_def) presburger+
  have m: "m i = crt k i" if "1920 \<le> i" for i using p that by (auto simp: m_def)
  have s: "(if c = 10 then (p + (80 - p mod 80), crt k)
             else if c = BACKSPACE then (if p > 0 then p - 1 else p, crt k)
             else (p + 1, (crt k)(nat p := word_of_int (c mod 256) OR 0x0700))) = (q, m)"
    by (simp add: q_def m_def BACKSPACE_def)
  have w: "uint (word_of_int r :: u16) = r" if "0 \<le> r" "r < 1920" for r
    using that by (simp add: unsigned_of_int take_bit_int_eq_self)
  show ?thesis
  proof (cases "q div 80 \<ge> 24")
    case True
    then have "q = 1920" using q by presburger
    then show ?thesis
      using assms m w [of 1840] unfolding cgaputc_def p_def [symmetric]
      by (simp add: s shown_def screen_ok_def Let_def)
  next
    case False
    then have "q < 1920" by presburger
    then have "\<not> 1920 \<le> nat q" by simp
    then show ?thesis
      using assms m q w [of q] False \<open>q < 1920\<close> unfolding cgaputc_def p_def [symmetric]
      by (simp add: s shown_def screen_ok_def Let_def)
  qed
qed

lemma uartputc_shown: "screen_ok k \<Longrightarrow> shown k (uartputc c k)"
  by (simp add: shown_def screen_ok_def uartputc_def)

lemma shown_ok: "shown k k' \<Longrightarrow> screen_ok k'"
  by (simp add: shown_def)

lemma consputc_shown:
  assumes "screen_ok k"
  shows "\<exists>k'. consputc c k = Ret k' \<and> shown k k'"
proof -
  have u: "shown k (uartputc 8 (uartputc 32 (uartputc 8 k)))" "shown k (uartputc c k)"
    using assms uartputc_shown shown_ok shown_trans by blast+
  have "\<not> panicked k" using assms by (simp add: screen_ok_def)
  then show ?thesis
    using cgaputc_shown [OF shown_ok [OF u(1)], of c] cgaputc_shown [OF shown_ok [OF u(2)], of c]
      shown_trans [OF u(1)] shown_trans [OF u(2)]
    by (auto simp: consputc_def)
qed

lemma put_bytes_shown: "screen_ok k \<Longrightarrow> \<exists>k'. put_bytes bs k = Ret k' \<and> shown k k'"
proof (induction bs arbitrary: k)
  case (Cons b bs)
  obtain l where l: "consputc (uint b) k = Ret l" "shown k l" using consputc_shown [OF Cons.prems] by blast
  obtain k' where "put_bytes bs l = Ret k'" "shown l k'" using Cons.IH [OF shown_ok [OF l(2)]] by blast
  then show ?case using l shown_trans by auto
qed (auto simp: shown_refl)

text \<open>C13: output to the console always returns, keeps the cursor on the screen, never writes to the memory behind
  the 24 lines of the screen and leaves the input buffer alone.\<close>
theorem console_output_in_bounds:
  assumes "screen_ok (cons s)"
  shows "\<exists>s'. consolewrite bs s = Ret (int (length bs), s') \<and> uint (crt_pos (cons s')) < 24 * 80 \<and>
    (\<forall>i \<ge> 24 * 80. crt (cons s') i = crt (cons s) i) \<and> ibuf (cons s') = ibuf (cons s)"
  using put_bytes_shown [OF assms, of bs] by (auto simp: consolewrite_def cputs_def shown_def screen_ok_def)

text \<open>A state that differs from \<open>s\<close> only in what the console has shown.\<close>

definition outputs :: "'a csys_scheme \<Rightarrow> 'a csys_scheme \<Rightarrow> bool" where
  "outputs s s' \<longleftrightarrow> (\<exists>k. shown (cons s) k \<and> s' = s\<lparr>cons := k\<rparr>)"

lemma outputs_trans: "outputs s t \<Longrightarrow> outputs t u \<Longrightarrow> outputs s u"
  using shown_trans by (fastforce simp: outputs_def)

lemma outputs_refl: "screen_ok (cons s) \<Longrightarrow> outputs s s"
  using shown_refl by (auto simp: outputs_def intro!: exI [of _ "cons s"])

lemma outputsD:
  assumes "outputs s s'"
  shows "shown (cons s) (cons s')" and "ptable s' = ptable s" and "mem s' = mem s" and "screen_ok (cons s')"
  using assms by (auto simp: outputs_def shown_def)

lemma cputs_outputs: "screen_ok (cons s) \<Longrightarrow> \<exists>s'. cputs bs s = Ret s' \<and> outputs s s'"
  using put_bytes_shown [of "cons s" bs] by (auto simp: cputs_def outputs_def)

lemma count_pages_returns:
  assumes "unat szp \<le> 2 ^ 31"
  shows "unat szp \<le> unat va + 4096 * n \<Longrightarrow> \<exists>k. count_pages (Suc n) pd va szp m = Ret k"
proof (induction n arbitrary: va)
  case 0
  then show ?case by (simp add: word_less_nat_alt)
next
  case (Suc n)
  show ?case
  proof (cases "va < szp")
    case True
    then have "unat va < 2 ^ 31" using assms by (simp add: word_less_nat_alt)
    then have "unat (va + PGSIZE) = unat va + 4096" by (simp add: PGSIZE_def unat_word_ariths(1))
    then obtain k where "count_pages (Suc n) pd (va + PGSIZE) szp m = Ret k"
      using Suc.IH [of "va + PGSIZE"] Suc.prems by auto
    then show ?thesis by (auto simp: Let_def simp del: count_pages.simps(2) simp: count_pages.simps(2) [of "Suc n"])
  qed (auto simp: count_pages.simps(2) [of "Suc n"])
qed

lemma count_user_pages_returns:
  assumes "unat (sz p) \<le> 2 ^ 31"
  shows "\<exists>k. count_user_pages_in_RAM p m = Ret k"
proof -
  have "unat (sz p) \<le> unat (0 :: u32) + 4096 * (unat (sz p) div 4096 + 1)" by simp
  from count_pages_returns [OF assms this] show ?thesis by (simp add: count_user_pages_in_RAM_def)
qed

lemma memory_rows_outputs:
  "screen_ok (cons s) \<Longrightarrow> \<forall>p \<in> set ps. unat (sz p) \<le> 2 ^ 31 \<Longrightarrow> \<exists>s'. memory_rows ps s = Ret s' \<and> outputs s s'"
proof (induction ps arbitrary: s)
  case (Cons p ps)
  obtain n where n: "count_user_pages_in_RAM p (mem s) = Ret n" using count_user_pages_returns Cons.prems(2) by fastforce
  have "\<exists>t. (if pid p \<ge> 1 \<and> listed (pstate p) then
              bindR (count_user_pages_in_RAM p (mem s)) (\<lambda>n.
                cputs (kprintint (word_of_int (pid p)) 10 True @ [9] @ kprintint (word_of_int n) 10 True @
                       [9, 9] @ cname (name p) @ [10]) s)
            else Ret s) = Ret t \<and> outputs s t"
    by (simp add: n cputs_outputs [OF Cons.prems(1)] outputs_refl [OF Cons.prems(1)])
  then obtain t where t: "(if pid p \<ge> 1 \<and> listed (pstate p) then
              bindR (count_user_pages_in_RAM p (mem s)) (\<lambda>n.
                cputs (kprintint (word_of_int (pid p)) 10 True @ [9] @ kprintint (word_of_int n) 10 True @
                       [9, 9] @ cname (name p) @ [10]) s)
            else Ret s) = Ret t" "outputs s t" by blast
  obtain u where "memory_rows ps t = Ret u" "outputs t u"
    using Cons.IH [OF outputsD(4) [OF t(2)]] Cons.prems(2) by auto
  then show ?case using t outputs_trans by (simp only: memory_rows.simps bindR.simps) blast
qed (auto intro: outputs_refl)

lemma memory_printer_outputs:
  assumes "screen_ok (cons s)" and "\<forall>p \<in> set (ptable s). unat (sz p) \<le> 2 ^ 31"
  shows "\<exists>s'. memory_printer s = Ret s' \<and> outputs s s'"
proof -
  obtain t where t: "cputs (ascii ''Ctrl+I is detected by xv6'' @ [10]) s = Ret t" "outputs s t"
    using cputs_outputs [OF assms(1)] by blast
  obtain u where u: "cputs (ascii ''PID    NUM_PAGES      PROCESS_NAME'' @ [10]) t = Ret u" "outputs t u"
    using cputs_outputs [OF outputsD(4) [OF t(2)]] by blast
  obtain v where v: "memory_rows (ptable u) u = Ret v" "outputs u v"
    using memory_rows_outputs [OF outputsD(4) [OF u(2)]] assms(2) outputsD(2) [OF t(2)] outputsD(2) [OF u(2)] by metis
  have "memory_printer s = Ret v" by (simp only: memory_printer_def t u v bindR.simps)
  then show ?thesis using outputs_trans [OF t(2) outputs_trans [OF u(2) v(2)]] by blast
qed

lemma procdump_outputs: "screen_ok (cons s) \<Longrightarrow> \<exists>s'. procdump_from ps s = Ret s' \<and> outputs s s'"
proof (induction ps arbitrary: s)
  case (Cons p ps)
  have "\<exists>t. (if pstate p = UNUSED then Ret s
            else cputs (kprintint (word_of_int (pid p)) 10 True @ [32] @ ascii (state_name (pstate p)) @ [32] @
                    cname (name p) @
                    (if pstate p = SLEEPING
                     then concat (map (\<lambda>a. 32 # kprintint a 16 False) (saved_pcs p (mem s))) else []) @ [10]) s) = Ret t \<and> outputs s t"
    by (simp add: cputs_outputs [OF Cons.prems] outputs_refl [OF Cons.prems])
  then obtain t where t: "(if pstate p = UNUSED then Ret s
            else cputs (kprintint (word_of_int (pid p)) 10 True @ [32] @ ascii (state_name (pstate p)) @ [32] @
                    cname (name p) @
                    (if pstate p = SLEEPING
                     then concat (map (\<lambda>a. 32 # kprintint a 16 False) (saved_pcs p (mem s))) else []) @ [10]) s) = Ret t" "outputs s t" by blast
  obtain u where "procdump_from ps t = Ret u" "outputs t u" using Cons.IH [OF outputsD(4) [OF t(2)]] by blast
  then show ?case using t outputs_trans by (simp only: procdump_from.simps bindR.simps) blast
qed (auto intro: outputs_refl)


subsection \<open>The line editor\<close>

text \<open>The two parts of the input buffer, and when the counters are in order.  A line in the making has no
  newline: a newline commits it.\<close>

definition committed :: "console \<Rightarrow> u8 list" where
  "committed k = ring_list (ibuf k) (in_r k) (in_w k)"

definition typed :: "console \<Rightarrow> u8 list" where
  "typed k = ring_list (ibuf k) (in_w k) (in_e k)"

definition input_ok :: "console \<Rightarrow> bool" where
  "input_ok k \<longleftrightarrow> length (ibuf k) = INPUT_BUF \<and> unat (in_w k - in_r k) \<le> unat (in_e k - in_r k) \<and>
     unat (in_e k - in_r k) \<le> INPUT_BUF \<and> 10 \<notin> set (typed k)"

text \<open>What a character from the keyboard does to the committed input and the line.\<close>

definition edit :: "int \<Rightarrow> u8 list \<times> u8 list \<Rightarrow> u8 list \<times> u8 list" where
  "edit c x = (case x of (d, l) \<Rightarrow>
     if c = 21 then (d, [])
     else if c = 8 \<or> c = 127 then (d, butlast l)
     else if c \<in> {0, 9, 16} then (d, l)
     else if length d + length l < INPUT_BUF then
       let b = (if c = 13 then 10 else word_of_int c) in
       if b = 10 \<or> b = 4 \<or> length d + length l + 1 = INPUT_BUF then (d @ l @ [b], []) else (d, l @ [b])
     else (d, l))"

lemma ring_split:
  assumes "unat (w - r) \<le> unat (e - (r :: u32))"
  shows "ring_list d r e = ring_list d r w @ ring_list d w e" and "unat (e - w) = unat (e - r) - unat (w - r)"
proof -
  have "e - w = (e - r) - (w - r)" by simp
  then show n: "unat (e - w) = unat (e - r) - unat (w - r)"
    using assms by (simp only: unat_sub [OF assms [folded word_le_nat_alt]])
  have s: "unat (e - r) = unat (w - r) + unat (e - w)" using assms n by simp
  have "[0..<i + j] = [0..<i] @ map (\<lambda>k. k + i) [0..<j]" for i j :: nat
    using upt_add_eq_append [of 0 i j] map_add_upt [of i j] by (simp add: add.commute)
  from this [of "unat (w - r)" "unat (e - w)", folded s]
  have "[0..<unat (e - r)] = [0..<unat (w - r)] @ map (\<lambda>k. k + unat (w - r)) [0..<unat (e - w)]" .
  moreover have "r + of_nat (k + unat (w - r)) = w + of_nat k" for k by simp
  ultimately show "ring_list d r e = ring_list d r w @ ring_list d w e"
    by (simp add: ring_list_def o_def add.commute [of w])
qed

lemma ring_back:
  assumes "e \<noteq> (w :: u32)"
  shows "ring_list d w (e - 1) = butlast (ring_list d w e)"
    and "last (ring_list d w e) = d ! (unat (e - 1) mod length d)" and "ring_list d w e \<noteq> []"
proof -
  have "e - w \<noteq> 0" using assms by simp
  then have n: "unat (e - w) = Suc (unat (e - 1 - w))"
    using unat_minus_one [of "e - w"] unat_gt_0 [of "e - w"] by (simp add: algebra_simps)
  have "w + of_nat (unat (e - 1 - w)) = e - 1" by simp
  then have "ring_list d w e = ring_list d w (e - 1) @ [d ! (unat (e - 1) mod length d)]"
    by (simp add: ring_list_def n)
  then show "ring_list d w (e - 1) = butlast (ring_list d w e)"
    "last (ring_list d w e) = d ! (unat (e - 1) mod length d)" "ring_list d w e \<noteq> []" by simp_all
qed

lemma input_counts:
  assumes "input_ok k"
  shows "length (committed k) + length (typed k) = unat (in_e k - in_r k)"
  using assms ring_split(2) [of "in_w k" "in_r k" "in_e k"] by (simp add: input_ok_def committed_def typed_def)

lemma shown_input:
  assumes "shown k k'"
  shows "committed k' = committed k" and "typed k' = typed k" and "input_ok k' = input_ok k"
  using assms by (simp_all add: shown_def committed_def typed_def input_ok_def)

text \<open>Taking the last byte back.\<close>

lemma back_input:
  assumes ok: "input_ok k" and ne: "in_e k \<noteq> in_w k"
  defines "k' \<equiv> k\<lparr>in_e := in_e k - 1\<rparr>"
  shows "input_ok k'" and "committed k' = committed k" and "typed k' = butlast (typed k)"
proof -
  show c: "committed k' = committed k" by (simp add: k'_def committed_def)
  show l: "typed k' = butlast (typed k)" using ring_back(1) [OF ne] by (simp add: k'_def typed_def)
  have i: "unat (in_w k - in_r k) \<le> unat (in_e k - in_r k)" "unat (in_e k - in_r k) \<le> INPUT_BUF"
    using ok by (simp_all add: input_ok_def)
  have "in_e k - in_w k \<noteq> 0" using ne by simp
  then have "0 < unat (in_e k - in_w k)" by (simp add: unat_gt_0)
  then have lt: "unat (in_w k - in_r k) < unat (in_e k - in_r k)" using ring_split(2) [OF i(1)] by simp
  then have "in_e k - in_r k \<noteq> 0" by auto
  then have "unat (in_e k - 1 - in_r k) = unat (in_e k - in_r k) - 1"
    using unat_minus_one [of "in_e k - in_r k"] by (simp add: algebra_simps)
  moreover have "10 \<notin> set (typed k')" using ok l in_set_butlastD by (fastforce simp: input_ok_def)
  ultimately show "input_ok k'" using ok lt by (simp add: input_ok_def k'_def) linarith
qed

lemma kill_line_input:
  assumes "screen_ok k" and "input_ok k" and "n = unat (in_e k - in_w k)"
  shows "\<exists>k'. kill_line n k = Ret k' \<and> screen_ok k' \<and> input_ok k' \<and> committed k' = committed k \<and> typed k' = []"
  using assms
proof (induction n arbitrary: k)
  case 0
  then show ?case by (simp add: typed_def ring_list_def)
next
  case (Suc n)
  have ne: "in_e k \<noteq> in_w k" using Suc.prems(3) by auto
  have "last (typed k) = in_byte k (in_e k - 1)" "typed k \<noteq> []"
    using ring_back(2,3) [OF ne, of "ibuf k"] Suc.prems(2) by (simp_all add: typed_def in_byte_def input_ok_def)
  then have b: "in_byte k (in_e k - 1) \<noteq> 10" using Suc.prems(2) last_in_set by (fastforce simp: input_ok_def)
  let ?l = "k\<lparr>in_e := in_e k - 1\<rparr>"
  note bi = back_input [OF Suc.prems(2) ne]
  obtain m where m: "consputc BACKSPACE ?l = Ret m" "shown ?l m"
    using consputc_shown [of ?l] Suc.prems(1) by (auto simp: screen_ok_def)
  note si = shown_input [OF m(2)]
  have "in_e m - in_w m = in_e k - in_w k - 1" using m(2) by (simp add: shown_def)
  then have "n = unat (in_e m - in_w m)"
    using Suc.prems(3) ne unat_minus_one [of "in_e k - in_w k"] by simp
  from Suc.IH [OF shown_ok [OF m(2)] _ this]
  obtain k' where "kill_line n m = Ret k'" "screen_ok k'" "input_ok k'" "committed k' = committed m" "typed k' = []"
    using si bi by auto
  then show ?case using m b ne si bi by simp
qed

text \<open>Putting a byte behind the last one.\<close>

lemma put_input:
  fixes b :: u8
  assumes ok: "input_ok k" and room: "unat (in_e k - in_r k) < INPUT_BUF"
  defines "k' \<equiv> k\<lparr>ibuf := (ibuf k)[unat (in_e k) mod INPUT_BUF := b], in_e := in_e k + 1\<rparr>"
  shows "committed k' = committed k" and "typed k' = typed k @ [b]" and "unat (in_e k' - in_r k') = unat (in_e k - in_r k) + 1"
    and "unat (in_w k' - in_r k') \<le> unat (in_e k - in_r k)"
proof -
  have len: "length (ibuf k) = INPUT_BUF" and i: "unat (in_w k - in_r k) \<le> unat (in_e k - in_r k)"
    using ok by (simp_all add: input_ok_def)
  have d: "length (ibuf k) dvd 2 ^ 32" "length (ibuf k) < 2 ^ 32" by (simp_all add: len INPUT_BUF_def)
  have "ring_list (ibuf k') (in_r k) (in_e k + 1) = ring_list (ibuf k) (in_r k) (in_e k) @ [b]"
    using ring_list_put [OF d(1) _ d(2), of "in_e k" "in_r k" b] room len by (simp add: k'_def)
  moreover have "unat (in_e k + 1 - in_r k) = unat (in_e k - in_r k) + 1"
    using arg_cong [OF calculation, of length] by simp
  then have e: "unat (in_e k' - in_r k') = unat (in_e k - in_r k) + 1" by (simp add: k'_def)
  then have "unat (in_w k - in_r k) \<le> unat (in_e k + 1 - in_r k)" using i by (simp add: k'_def)
  from ring_split(1) [OF this, of "ibuf k'"] ring_split(1) [OF i, of "ibuf k"]
  have "committed k' @ typed k' = committed k @ typed k @ [b]"
    using calculation by (simp add: committed_def typed_def k'_def)
  moreover have "length (committed k') = length (committed k)" by (simp add: committed_def k'_def)
  ultimately show "committed k' = committed k" "typed k' = typed k @ [b]" by simp_all
  show "unat (in_e k' - in_r k') = unat (in_e k - in_r k) + 1" by (rule e)
  show "unat (in_w k' - in_r k') \<le> unat (in_e k - in_r k)" using i by (simp add: k'_def)
qed

definition input_of :: "'a csys_scheme \<Rightarrow> u8 list \<times> u8 list" where
  "input_of s = (committed (cons s), typed (cons s))"

definition console_ok :: "'a csys_scheme \<Rightarrow> bool" where
  "console_ok s \<longleftrightarrow> screen_ok (cons s) \<and> input_ok (cons s) \<and> (\<forall>p \<in> set (ptable s). unat (sz p) \<le> 2 ^ 31)"

lemma outputs_console:
  assumes "outputs s s'" and "console_ok s"
  shows "console_ok s'" and "input_of s' = input_of s"
  using outputsD [OF assms(1)] shown_input [OF outputsD(1) [OF assms(1)]] assms(2)
  by (simp_all add: console_ok_def input_of_def)

lemma commit_all:
  assumes "length (ibuf k) = INPUT_BUF" and "unat (in_w k - in_r k) \<le> unat (in_e k - in_r k)"
    and "unat (in_e k - in_r k) \<le> INPUT_BUF"
  shows "committed (k\<lparr>in_w := in_e k\<rparr>) = committed k @ typed k" and "typed (k\<lparr>in_w := in_e k\<rparr>) = []"
    and "input_ok (k\<lparr>in_w := in_e k\<rparr>)"
  using ring_split(1) [OF assms(2), of "ibuf k"] assms by (simp_all add: committed_def typed_def input_ok_def ring_list_def)

lemma input_char_edit:
  assumes ok: "console_ok s" and c: "0 \<le> c" "c < 256" "c \<notin> {8, 9, 16, 21, 127}"
  shows "\<exists>s'. input_char c s = Ret s' \<and> console_ok s' \<and> input_of s' = edit c (input_of s)"
proof (cases "c \<noteq> 0 \<and> in_e (cons s) - in_r (cons s) < of_nat INPUT_BUF")
  case False
  have "length (committed (cons s)) + length (typed (cons s)) = unat (in_e (cons s) - in_r (cons s))"
    using input_counts ok by (simp add: console_ok_def)
  then have "edit c (input_of s) = input_of s"
    using False c by (auto simp: edit_def input_of_def word_less_nat_alt INPUT_BUF_def)
  moreover have "input_char c s = Ret s" unfolding input_char_def by (rule if_not_P [OF False])
  ultimately show ?thesis using ok by simp
next
  case True
  let ?k = "cons s" and ?c = "if c = 13 then 10 else c"
  define b where "b = (word_of_int ?c :: u8)"
  let ?l = "?k\<lparr>ibuf := (ibuf ?k)[unat (in_e ?k) mod INPUT_BUF := b], in_e := in_e ?k + 1\<rparr>"
  have ik: "input_ok ?k" and sk: "screen_ok ?l" using ok by (simp_all add: console_ok_def screen_ok_def)
  have room: "unat (in_e ?k - in_r ?k) < INPUT_BUF" using True by (simp add: word_less_nat_alt INPUT_BUF_def)
  note pi = put_input [OF ik room, of b]
  obtain m where m: "consputc ?c ?l = Ret m" "shown ?l m" using consputc_shown [OF sk] by blast
  note si = shown_input [OF m(2)]
  have bc: "b = 10 \<longleftrightarrow> ?c = 10" "b = 4 \<longleftrightarrow> ?c = 4"
  proof -
    have "uint b = ?c" using c by (simp add: b_def unsigned_of_int take_bit_int_eq_self)
    then show "b = 10 \<longleftrightarrow> ?c = 10" "b = 4 \<longleftrightarrow> ?c = 4" by (simp_all add: word_uint_eq_iff)
  qed
  have mm: "in_e m = in_e ?l" "in_r m = in_r ?l" "in_w m = in_w ?l" "ibuf m = ibuf ?l" "screen_ok m"
    using m(2) by (auto simp: shown_def)
  have full: "in_e m = in_r m + of_nat INPUT_BUF \<longleftrightarrow> length (committed ?k) + length (typed ?k) + 1 = INPUT_BUF"
  proof -
    have "in_e m = in_r m + of_nat INPUT_BUF \<longleftrightarrow> in_e m - in_r m = of_nat INPUT_BUF" by (simp add: algebra_simps)
    also have "\<dots> \<longleftrightarrow> unat (in_e m - in_r m) = INPUT_BUF"
      by (simp add: word_unat_eq_iff INPUT_BUF_def)
    finally show ?thesis using pi(3) mm input_counts [OF ik] by simp
  qed
  have lk: "length (committed ?k) + length (typed ?k) < INPUT_BUF" using input_counts [OF ik] room by simp
  have ed: "edit c (input_of s) = (if b = 10 \<or> b = 4 \<or> length (committed ?k) + length (typed ?k) + 1 = INPUT_BUF
      then (committed ?k @ typed ?k @ [b], []) else (committed ?k, typed ?k @ [b]))"
    using c True lk unfolding edit_def input_of_def b_def by (simp add: Let_def)
  let ?s = "s\<lparr>cons := m\<rparr>"
  show ?thesis
  proof (cases "?c = 10 \<or> ?c = 4 \<or> in_e m = in_r m + of_nat INPUT_BUF")
    case yes: True
    define s' where "s' = wakeup ChanInput (upd_cons (\<lambda>k. k\<lparr>in_w := in_e k\<rparr>) ?s)"
    have r: "input_char c s = Ret s'"
      using True yes m unfolding input_char_def s'_def b_def by (simp add: Let_def upd_cons_def)
    have cs: "cons s' = m\<lparr>in_w := in_e m\<rparr>" by (simp add: s'_def wakeup_def wakeup1_def upd_cons_def)
    have ps: "\<forall>p \<in> set (ptable s'). unat (sz p) \<le> 2 ^ 31"
      using ok by (auto simp: s'_def wakeup_def wakeup1_def upd_cons_def console_ok_def)
    have l: "length (ibuf m) = INPUT_BUF" using mm(4) ik by (simp add: input_ok_def)
    have le: "unat (in_w m - in_r m) \<le> unat (in_e m - in_r m)" "unat (in_e m - in_r m) \<le> INPUT_BUF"
      using pi(3,4) mm(1-3) room by simp_all
    note ca = commit_all [OF l le]
    have "console_ok s'" using ca(3) mm(5) ps by (simp add: console_ok_def cs screen_ok_def)
    moreover have "b = 10 \<or> b = 4 \<or> length (committed ?k) + length (typed ?k) + 1 = INPUT_BUF"
      using yes bc full by blast
    then have "edit c (input_of s) = (committed ?k @ typed ?k @ [b], [])" unfolding ed by (rule if_P)
    moreover have "input_of s' = (committed ?k @ typed ?k @ [b], [])"
      using ca(1,2) si(1,2) pi(1,2) by (simp add: input_of_def cs)
    ultimately show ?thesis using r by auto
  next
    case no: False
    have r: "input_char c s = Ret ?s"
      using True no m unfolding input_char_def b_def by (simp add: Let_def upd_cons_def)
    have "input_ok m"
      using pi mm ik room no bc by (simp add: input_ok_def si(2))
    then have "console_ok ?s" using mm(5) ok by (simp add: console_ok_def)
    moreover have "\<not> (b = 10 \<or> b = 4 \<or> length (committed ?k) + length (typed ?k) + 1 = INPUT_BUF)"
      using no bc full by blast
    then have "edit c (input_of s) = (committed ?k, typed ?k @ [b])" unfolding ed by (rule if_not_P)
    moreover have "input_of ?s = (committed ?k, typed ?k @ [b])"
      using si(1,2) pi(1,2) by (simp add: input_of_def)
    ultimately show ?thesis using r by auto
  qed
qed

lemma consoleintr_step:
  assumes ok: "console_ok s" and c: "0 \<le> c" "c < 256" and np: "c \<noteq> 16"
  shows "\<exists>s'. (if c = 21 then
           bindR (kill_line (unat (in_e (cons s) - in_w (cons s))) (cons s)) (\<lambda>k. Ret (s\<lparr>cons := k\<rparr>))
         else if c = 8 \<or> c = 0x7f then
           if in_e (cons s) \<noteq> in_w (cons s)
           then bindR (consputc BACKSPACE ((cons s)\<lparr>in_e := in_e (cons s) - 1\<rparr>)) (\<lambda>k. Ret (s\<lparr>cons := k\<rparr>))
           else Ret s
         else if c = 9 then memory_printer s
         else input_char c s) = Ret s' \<and> console_ok s' \<and> input_of s' = edit c (input_of s)"
proof -
  have sk: "screen_ok (cons s)" and ik: "input_ok (cons s)" and szs: "\<forall>p \<in> set (ptable s). unat (sz p) \<le> 2 ^ 31"
    using ok by (simp_all add: console_ok_def)
  consider "c = 21" | "c = 8 \<or> c = 127" | "c = 9" | "c \<notin> {8, 9, 16, 21, 127}" using np by blast
  then show ?thesis
  proof cases
    case 1
    then show ?thesis using kill_line_input [OF sk ik refl] szs by (auto simp: edit_def input_of_def console_ok_def)
  next
    case 2
    show ?thesis
    proof (cases "in_e (cons s) = in_w (cons s)")
      case True
      then show ?thesis using 2 ok by (auto simp: edit_def input_of_def typed_def ring_list_def)
    next
      case False
      let ?k = "(cons s)\<lparr>in_e := in_e (cons s) - 1\<rparr>"
      have "screen_ok ?k" using sk by (simp add: screen_ok_def)
      then obtain m where m: "consputc BACKSPACE ?k = Ret m" "shown ?k m" using consputc_shown by blast
      note si = shown_input [OF m(2)] and bi = back_input [OF ik False] and so = shown_ok [OF m(2)]
      show ?thesis using 2 False m(1) si bi so szs by (auto simp: edit_def input_of_def console_ok_def)
    qed
  next
    case 3
    obtain t where t: "memory_printer s = Ret t" "outputs s t" using memory_printer_outputs [OF sk szs] by blast
    have "edit c (input_of s) = input_of s" by (simp add: 3 edit_def input_of_def)
    then show ?thesis using 3 t outputs_console [OF t(2) ok] by simp
  next
    case 4
    then show ?thesis using input_char_edit [OF ok c] by simp
  qed
qed

lemma consoleintr_loop_edits:
  assumes "console_ok s" and "\<forall>c \<in> set cs. c < 256"
  shows "\<exists>d s'. consoleintr_loop cs dump s = Ret (d, s') \<and> console_ok s' \<and>
    input_of s' = fold edit (takeWhile (\<lambda>c. 0 \<le> c) cs) (input_of s)"
  using assms
proof (induction cs arbitrary: dump s)
  case (Cons c cs)
  consider "c < 0" | "c = 16" | "0 \<le> c" "c \<noteq> 16" by linarith
  then show ?case
  proof cases
    case 2
    have "edit c (input_of s) = input_of s" by (simp add: 2 edit_def input_of_def)
    then show ?thesis using Cons 2 by simp
  next
    case 3
    from Cons.prems have "c < 256" by simp
    from consoleintr_step [OF Cons.prems(1) 3(1) this 3(2)] obtain t where
      t: "(if c = 21 then
           bindR (kill_line (unat (in_e (cons s) - in_w (cons s))) (cons s)) (\<lambda>k. Ret (s\<lparr>cons := k\<rparr>))
         else if c = 8 \<or> c = 0x7f then
           if in_e (cons s) \<noteq> in_w (cons s)
           then bindR (consputc BACKSPACE ((cons s)\<lparr>in_e := in_e (cons s) - 1\<rparr>)) (\<lambda>k. Ret (s\<lparr>cons := k\<rparr>))
           else Ret s
         else if c = 9 then memory_printer s
         else input_char c s) = Ret t" "console_ok t" "input_of t = edit c (input_of s)" by blast
    have "consoleintr_loop (c # cs) dump s = consoleintr_loop cs dump t"
      using 3 by (simp only: consoleintr_loop.simps t(1) bindR.simps) simp
    then show ?thesis using Cons.IH [OF t(2), of dump] Cons.prems(2) t(3) 3 by simp
  qed (use Cons.prems in simp)
qed simp

text \<open>C12: the console interrupt is a line editor: for every sequence of characters from the keyboard or the serial port
  it returns, and the input buffer, a ring with three counters that may wrap around, ends up holding what the abstract
  editor makes of the characters: control-U kills the line, backspace deletes a byte, and a newline, control-D or a full
  buffer commits the line.\<close>
theorem consoleintr_edits_line:
  assumes "console_ok s" and "\<forall>c \<in> set cs. c < 256"
  shows "\<exists>s'. consoleintr cs s = Ret s' \<and> console_ok s' \<and>
    input_of s' = fold edit (takeWhile (\<lambda>c. 0 \<le> c) cs) (input_of s)"
proof -
  obtain d t where t: "consoleintr_loop cs False s = Ret (d, t)" "console_ok t"
      "input_of t = fold edit (takeWhile (\<lambda>c. 0 \<le> c) cs) (input_of s)"
    using consoleintr_loop_edits [OF assms, of False] by blast
  obtain u where "procdump_from (ptable t) t = Ret u" "outputs t u"
    using procdump_outputs t(2) by (fastforce simp: console_ok_def)
  then show ?thesis using t outputs_console [of t u] by (auto simp: consoleintr_def procdump_def)
qed

definition demo_console :: csys where
  "demo_console = psys.extend demo_pipes (csys.fields
     \<lparr>panicked = False, has_uart = True, uart_out = [], crt = (\<lambda>_. 0), crt_pos = 1900, ibuf = replicate 128 0,
      in_r = 0xffffffff, in_w = 0xffffffff, in_e = 0xffffffff\<rparr>)"

lemma demo_console: "console_ok demo_console" "input_of demo_console = ([], [])"
  by (simp_all add: demo_console_def console_ok_def screen_ok_def input_ok_def input_of_def committed_def typed_def
      ring_list_def INPUT_BUF_def psys.extend_def csys.fields_def demo_pipes_def ksys.extend_def psys.fields_def idle_proc_def)

theorem consoleintr_edits_line_witness:
  "\<exists>s'. consoleintr [108, 120, 8, 115, 13, 97] demo_console = Ret s' \<and> input_of s' = ([108, 115, 10], [97])"
proof -
  obtain s' where "consoleintr [108, 120, 8, 115, 13, 97] demo_console = Ret s'"
      "input_of s' = fold edit (takeWhile (\<lambda>c. 0 \<le> c) [108, 120, 8, 115, 13, 97]) (input_of demo_console)"
    using consoleintr_edits_line [OF demo_console(1), of "[108, 120, 8, 115, 13, 97]"] by auto
  then show ?thesis by (simp add: demo_console(2) edit_def INPUT_BUF_def)
qed

theorem console_output_in_bounds_witness:
  "\<exists>s'. consolewrite (replicate 100 65) demo_console = Ret (100, s') \<and> uint (crt_pos (cons s')) < 24 * 80"
  using console_output_in_bounds [of demo_console "replicate 100 65"] demo_console(1) by (auto simp: console_ok_def)
end
