(* ===== verification/Args.thy ===== *)
theory Args
  imports Filerefs
begin

text \<open>
  The arguments of system calls (\<^verbatim>\<open>argptr\<close>, \<^verbatim>\<open>argstr\<close>): what the kernel gets from user memory lies in it.
\<close>

lemma fetch_chars_range:
  "fetch_chars n p ep s = Ret (Some xs) \<Longrightarrow> unat p + length xs < unat ep \<and> 0 \<notin> set xs \<and>
     (\<forall>k < length xs. vload (p + of_nat k) s = Ret (xs ! k)) \<and> vload (p + of_nat (length xs)) s = Ret 0"
proof (induction n arbitrary: p xs)
  case (Suc n)
  have lt: "p < ep" using Suc.prems by (simp split: if_splits)
  obtain b where b: "vload p s = Ret b" using Suc.prems lt by auto
  show ?case
  proof (cases "b = 0")
    case True
    then show ?thesis using Suc.prems lt b by (simp add: word_less_nat_alt)
  next
    case False
    then obtain ys where ys: "fetch_chars n (p + 1) ep s = Ret (Some ys)" "xs = b # ys"
      using Suc.prems lt b by auto
    have "unat (p + 1) = unat p + 1"
      using lt unat_u32_less [of ep] by (simp add: word_less_nat_alt unat_word_ariths(1))
    moreover have "vload (p + of_nat k) s = Ret (xs ! k)" if "k < length xs" for k
      using that Suc.IH [OF ys(1)] ys(2) b by (cases k) (simp_all add: ac_simps)
    ultimately show ?thesis using Suc.IH [OF ys(1)] ys(2) False by (simp add: ac_simps)
  qed
qed simp

lemma argptr_range:
  assumes a: "argptr n len s = Ret (Some p)" and cur: "cur s = Some i"
    and z: "unat (sz (ptable s ! i)) \<le> 2 ^ 31" and len: "len < 2 ^ 31"
  shows "0 \<le> len \<and> unat p < unat (sz (ptable s ! i)) \<and> unat p + nat len \<le> unat (sz (ptable s ! i))"
proof -
  have h: "0 \<le> len" "p < sz (ptable s ! i)" "p + word_of_int len \<le> sz (ptable s ! i)"
    using a cur by (auto simp: argptr_def myproc_def not_less not_le Let_def split: option.splits if_splits)
  have "unat (word_of_int len :: u32) = nat len"
    using h(1) len by (simp add: unsigned_of_int take_bit_int_eq_self)
  then have "unat (p + word_of_int len) = unat p + nat len"
    using h(1,2) len z by (simp add: unat_word_ariths(1) word_less_nat_alt)
  then show ?thesis using h by (simp add: word_less_nat_alt word_le_nat_alt)
qed

text \<open>C11: in a process below the kernel's half of the addresses, what a system call accepts from user space lies in the memory of the process: a buffer of \<open>len\<close> bytes
  behind a pointer that \<^verbatim>\<open>argptr\<close> accepts ends at \<^verbatim>\<open>sz\<close> or before, without wrapping around, and a string that \<^verbatim>\<open>argstr\<close> accepts
  is the bytes of user memory from the argument's address up to the first NUL, which is there and below \<^verbatim>\<open>sz\<close>.\<close>
theorem arguments_in_user_memory:
  assumes "cur s = Some i" and "unat (sz (ptable s ! i)) \<le> 2 ^ 31" and "len < 2 ^ 31"
  shows "(argptr n len s = Ret (Some p) \<longrightarrow> 0 \<le> len \<and> unat p + nat len \<le> unat (sz (ptable s ! i))) \<and>
    (argstr n s = Ret (Some xs) \<longrightarrow> (\<exists>a. argint n s = Ret (Some a) \<and>
       unat (word_of_int a :: u32) + length xs < unat (sz (ptable s ! i)) \<and> 0 \<notin> set xs \<and>
       (\<forall>k < length xs. vload (word_of_int a + of_nat k) s = Ret (xs ! k)) \<and>
       vload (word_of_int a + of_nat (length xs)) s = Ret 0))"
proof (intro conjI impI)
  assume "argptr n len s = Ret (Some p)"
  from argptr_range [OF this assms]
  show "0 \<le> len" "unat p + nat len \<le> unat (sz (ptable s ! i))" by simp_all
next
  assume "argstr n s = Ret (Some xs)"
  then obtain a where a: "argint n s = Ret (Some a)" "fetchstr (word_of_int a) s = Ret (Some xs)"
    by (auto simp: argstr_def split: option.splits)
  obtain k where "fetch_chars k (word_of_int a) (sz (ptable s ! i)) s = Ret (Some xs)"
    using a(2) assms(1) by (auto simp: fetchstr_def myproc_def Let_def split: if_splits)
  from fetch_chars_range [OF this] a(1)
  show "\<exists>a. argint n s = Ret (Some a) \<and> unat (word_of_int a :: u32) + length xs < unat (sz (ptable s ! i)) \<and> 0 \<notin> set xs \<and>
      (\<forall>k < length xs. vload (word_of_int a + of_nat k) s = Ret (xs ! k)) \<and>
      vload (word_of_int a + of_nat (length xs)) s = Ret 0"
    by blast
qed

theorem arguments_in_user_memory_witness:
  "argptr 0 8 demo_kernel = Ret (Some 1) \<and> unat (1 :: u32) + 8 \<le> unat (sz (ptable demo_kernel ! 0))"
proof -
  have a: "argptr 0 8 demo_kernel = Ret (Some 1)"
    by (simp add: argptr_def myproc_def demo_argint demo_fields word_le_nat_alt)
  have "unat (1 :: u32) + nat 8 \<le> unat (sz (ptable demo_kernel ! 0))"
    using arguments_in_user_memory [of demo_kernel 0 8 0 1 "[]"] a by (simp add: demo_fields)
  then show ?thesis using a by simp
qed

end
