(* ===== verification/Family.thy ===== *)
theory Family
  imports Filerefs
begin

text \<open>
  The process table over the life of processes (\<^verbatim>\<open>proc.c\<close>): pids are unique, and the parent of every process is a
  process that runs, since \<^verbatim>\<open>exit\<close> hands its children to the first process.
\<close>

definition kin :: "'a ksys_scheme \<Rightarrow> (bool \<times> bool \<times> nat option \<times> int) list" where
  "kin s = map (\<lambda>p. (pstate p = UNUSED, idle p, parent p, pid p)) (ptable s)"

definition same_kin :: "'a ksys_scheme \<Rightarrow> 'a ksys_scheme \<Rightarrow> bool" where
  "same_kin s s' \<longleftrightarrow> kin s' = kin s \<and> initproc s' = initproc s \<and> nextpid s' = nextpid s"

definition pids_ok :: "'a ksys_scheme \<Rightarrow> bool" where
  "pids_ok s \<longleftrightarrow> (\<forall>j < NPROC. pstate (ptable s ! j) \<noteq> UNUSED \<longrightarrow> 0 < pid (ptable s ! j) \<and> pid (ptable s ! j) < nextpid s) \<and>
     (\<forall>j < NPROC. \<forall>k < NPROC. pstate (ptable s ! j) \<noteq> UNUSED \<longrightarrow> pstate (ptable s ! k) \<noteq> UNUSED \<longrightarrow>
        pid (ptable s ! j) = pid (ptable s ! k) \<longrightarrow> j = k)"

definition parents_ok :: "'a ksys_scheme \<Rightarrow> bool" where
  "parents_ok s \<longleftrightarrow> (\<exists>q < NPROC. initproc s = Some q \<and> \<not> idle (ptable s ! q)) \<and>
     (\<forall>j < NPROC. \<forall>q. parent (ptable s ! j) = Some q \<longrightarrow>
        q < NPROC \<and> \<not> idle (ptable s ! q) \<and> pstate (ptable s ! j) \<noteq> UNUSED)"

text \<open>The table is well formed.\<close>

definition ptable_ok :: "'a ksys_scheme \<Rightarrow> bool" where
  "ptable_ok s \<longleftrightarrow> length (ptable s) = NPROC \<and> 0 < nextpid s \<and> pids_ok s \<and> parents_ok s"

lemma ptable_okD:
  assumes "ptable_ok s"
  shows "length (ptable s) = NPROC" and "0 < nextpid s" and "\<exists>q < NPROC. initproc s = Some q \<and> \<not> idle (ptable s ! q)"
    and "j < NPROC \<Longrightarrow> pstate (ptable s ! j) \<noteq> UNUSED \<Longrightarrow> 0 < pid (ptable s ! j) \<and> pid (ptable s ! j) < nextpid s"
    and "j < NPROC \<Longrightarrow> k < NPROC \<Longrightarrow> pstate (ptable s ! j) \<noteq> UNUSED \<Longrightarrow> pstate (ptable s ! k) \<noteq> UNUSED \<Longrightarrow>
      pid (ptable s ! j) = pid (ptable s ! k) \<Longrightarrow> j = k"
    and "j < NPROC \<Longrightarrow> parent (ptable s ! j) = Some r \<Longrightarrow>
      r < NPROC \<and> \<not> idle (ptable s ! r) \<and> pstate (ptable s ! j) \<noteq> UNUSED"
  using assms unfolding ptable_ok_def pids_ok_def parents_ok_def by blast+

lemma same_kin_refl [simp]: "same_kin s s"
  by (simp add: same_kin_def)

lemma same_kin_trans: "same_kin s t \<Longrightarrow> same_kin t u \<Longrightarrow> same_kin s u"
  by (simp add: same_kin_def)

lemma same_kinD:
  assumes "same_kin s s'"
  shows "length (ptable s') = length (ptable s)" and "initproc s' = initproc s" and "nextpid s' = nextpid s"
    and "j < length (ptable s) \<Longrightarrow> (pstate (ptable s' ! j) = UNUSED) = (pstate (ptable s ! j) = UNUSED)"
    and "j < length (ptable s) \<Longrightarrow> idle (ptable s' ! j) = idle (ptable s ! j)"
    and "j < length (ptable s) \<Longrightarrow> parent (ptable s' ! j) = parent (ptable s ! j)"
    and "j < length (ptable s) \<Longrightarrow> pid (ptable s' ! j) = pid (ptable s ! j)"
proof -
  have k: "kin s' = kin s" using assms by (simp add: same_kin_def)
  show l: "length (ptable s') = length (ptable s)" using arg_cong [OF k, of length] by (simp add: kin_def)
  show "initproc s' = initproc s" "nextpid s' = nextpid s" using assms by (simp_all add: same_kin_def)
  have "kin s' ! j = kin s ! j" using k by simp
  then show "j < length (ptable s) \<Longrightarrow> (pstate (ptable s' ! j) = UNUSED) = (pstate (ptable s ! j) = UNUSED)"
    "j < length (ptable s) \<Longrightarrow> idle (ptable s' ! j) = idle (ptable s ! j)"
    "j < length (ptable s) \<Longrightarrow> parent (ptable s' ! j) = parent (ptable s ! j)"
    "j < length (ptable s) \<Longrightarrow> pid (ptable s' ! j) = pid (ptable s ! j)"
    using l by (simp_all add: kin_def)
qed

lemma same_kin_ok:
  assumes k: "same_kin s s'" and ok: "ptable_ok s"
  shows "ptable_ok s'"
proof -
  have l: "length (ptable s) = NPROC" using ok by (simp add: ptable_ok_def)
  note d = same_kinD(1-3) [OF k] same_kinD(4-7) [OF k, unfolded l]
  have "pids_ok s'" using ok d by (simp add: ptable_ok_def pids_ok_def)
  moreover have "parents_ok s'" using ok d by (auto simp: ptable_ok_def parents_ok_def)
  ultimately show ?thesis using ok d l by (simp add: ptable_ok_def)
qed

text \<open>What leaves the table alone.\<close>

lemma same_kin_ptable:
  "ptable s' = ptable s \<Longrightarrow> initproc s' = initproc s \<Longrightarrow> nextpid s' = nextpid s \<Longrightarrow> same_kin s s'"
  by (simp add: same_kin_def kin_def)

lemma upd_proc_nextpid [simp]: "nextpid (upd_proc i f s) = nextpid s"
  by (simp add: upd_proc_def)

lemma same_kin_upd:
  assumes "(pstate (f (ptable s ! i)) = UNUSED) = (pstate (ptable s ! i) = UNUSED)"
    and "idle (f (ptable s ! i)) = idle (ptable s ! i)" and "parent (f (ptable s ! i)) = parent (ptable s ! i)"
    and "pid (f (ptable s ! i)) = pid (ptable s ! i)"
  shows "same_kin s (upd_proc i f s)"
  using assms by (simp add: same_kin_def kin_def upd_proc_def map_update_same)

lemma same_kin_vm:
  assumes "vm_frame s s'"
  shows "same_kin s s'"
proof -
  have "kin t = map (\<lambda>p. (pstate p = UNUSED, idle p, parent p, pid p)) (map (\<lambda>p. p\<lparr>rss := 0\<rparr>) (ptable t))"
    for t :: "'a ksys_scheme" by (simp add: kin_def idle_def)
  from this [of s] this [of s'] have "kin s' = kin s" using assms by (simp only: vm_frame_def)
  then show ?thesis using assms by (simp add: same_kin_def vm_frame_def)
qed

lemma same_kin_wakeup1: "same_kin s (wakeup1 c s)"
  by (simp add: same_kin_def kin_def wakeup1_def idle_def)

lemma same_kin_wakeup: "same_kin s (wakeup c s)"
  by (simp add: wakeup_def same_kin_wakeup1)

lemma onfs_kin: "onfs f s = Ret (r, s') \<Longrightarrow> same_kin s s'"
  by (auto simp: onfs_def intro: same_kin_ptable)

lemma dofs_kin: "dofs f s = Ret s' \<Longrightarrow> same_kin s s'"
  unfolding dofs_def by (auto dest: onfs_kin)

lemma on_file_kin: "same_kin s (on_file f h s)"
  by (rule same_kin_ptable) (simp_all add: on_file_def)

lemma kfree_kin: "kfree v s = Ret s' \<Longrightarrow> same_kin s s'"
  by (rule same_kin_vm [OF kmem_vm [OF kfree_more]])

lemma pipeclose_kin:
  assumes "pipeclose a w s = Ret s'"
  shows "same_kin s s'"
proof -
  define t where "t = (if w then wakeup (ChanRead a) (upd_pipe a (\<lambda>p. p\<lparr>writeopen := False\<rparr>) s)
      else wakeup (ChanWrite a) (upd_pipe a (\<lambda>p. p\<lparr>readopen := False\<rparr>) s))"
  have "same_kin s (upd_pipe a h s)" for h by (rule same_kin_ptable) (simp_all add: upd_pipe_def)
  then have st: "same_kin s t"
    unfolding t_def by (cases w) (simp_all add: same_kin_trans [OF _ same_kin_wakeup])
  have "(if \<not> readopen (pipes t a) \<and> \<not> writeopen (pipes t a) then kfree a t else Ret t) = Ret s'"
    using assms unfolding pipeclose_def Let_def t_def .
  then have "same_kin t s'" by (auto dest: kfree_kin split: if_splits)
  then show ?thesis using st same_kin_trans by blast
qed

lemma fileclose_kin:
  assumes "fileclose f s = Ret s'"
  shows "same_kin s s'"
proof -
  define t where "t = on_file f (\<lambda>p. p\<lparr>fref := fref p - 1\<rparr>) s"
  define u where "u = on_file f (\<lambda>p. p\<lparr>fref := 0, ftype := FD_NONE\<rparr>) t"
  have t: "same_kin s t" and u: "same_kin s u"
    using on_file_kin same_kin_trans unfolding u_def t_def by blast+
  have "s' = t \<or> s' = u \<or> same_kin u s'"
    using assms unfolding fileclose_def Let_def t_def [symmetric] u_def [symmetric]
    by (auto dest: pipeclose_kin dofs_kin split: if_splits ftype.splits)
  then show ?thesis using t u same_kin_trans by blast
qed

lemma filedup_kin: "filedup f s = Ret s' \<Longrightarrow> same_kin s s'"
  using on_file_kin by (auto simp: filedup_def split: if_splits)

lemma set_fd_kin: "same_kin s (upd_proc i (\<lambda>p. p\<lparr>ofile := h p\<rparr>) s)"
  by (rule same_kin_upd) (simp_all add: idle_def)

lemma dup_files_kin: "dup_files me np n fd s = Ret s' \<Longrightarrow> same_kin s s'"
proof (induction n arbitrary: fd s)
  case (Suc n)
  show ?case
  proof (cases "ofile (ptable s ! me) ! fd")
    case None
    then show ?thesis using Suc by simp
  next
    case (Some f)
    then obtain t where t: "filedup f s = Ret t"
        "dup_files me np n (fd + 1) (upd_proc np (\<lambda>p. p\<lparr>ofile := (ofile p)[fd := Some f]\<rparr>) t) = Ret s'"
      using Suc.prems by auto
    show ?thesis by (rule same_kin_trans [OF filedup_kin [OF t(1)] same_kin_trans [OF set_fd_kin Suc.IH [OF t(2)]]])
  qed
qed simp

lemma close_files_kin: "close_files me n fd s = Ret s' \<Longrightarrow> same_kin s s'"
proof (induction n arbitrary: fd s)
  case (Suc n)
  show ?case
  proof (cases "ofile (ptable s ! me) ! fd")
    case None
    then show ?thesis using Suc by simp
  next
    case (Some f)
    then obtain t where t: "fileclose f s = Ret t"
        "close_files me n (fd + 1) (upd_proc me (\<lambda>p. p\<lparr>ofile := (ofile p)[fd := None]\<rparr>) t) = Ret s'"
      using Suc.prems by auto
    show ?thesis by (rule same_kin_trans [OF fileclose_kin [OF t(1)] same_kin_trans [OF set_fd_kin Suc.IH [OF t(2)]]])
  qed
qed simp


subsection \<open>The steps of a process's life\<close>

text \<open>Parents after \<open>reparent\<close>, and what stays.\<close>

lemma reparent_kin:
  assumes "i + n \<le> length (ptable s)"
  shows "length (ptable (reparent me n i s)) = length (ptable s) \<and> initproc (reparent me n i s) = initproc s \<and>
    nextpid (reparent me n i s) = nextpid s \<and>
    (\<forall>j < length (ptable s). let p = ptable (reparent me n i s) ! j in
       (pstate p = UNUSED) = (pstate (ptable s ! j) = UNUSED) \<and> idle p = idle (ptable s ! j) \<and>
       pid p = pid (ptable s ! j) \<and>
       parent p = (if i \<le> j \<and> j < i + n \<and> parent (ptable s ! j) = Some me then initproc s else parent (ptable s ! j)))"
  using assms
proof (induction n arbitrary: i s)
  case 0
  then show ?case by auto
next
  case (Suc n)
  define u where "u = (if parent (ptable s ! i) = Some me then
          let s = upd_proc i (\<lambda>p. p\<lparr>parent := initproc s\<rparr>) s in
          if pstate (ptable s ! i) = ZOMBIE then wakeup1 (proc_chan (initproc s)) s else s
        else s)"
  have i: "i < length (ptable s)" using Suc.prems by simp
  define v where "v = (if parent (ptable s ! i) = Some me then upd_proc i (\<lambda>p. p\<lparr>parent := initproc s\<rparr>) s else s)"
  have "same_kin v u"
    by (simp add: u_def v_def Let_def same_kin_wakeup1)
  note uv = same_kinD [OF this]
  have v: "length (ptable v) = length (ptable s)" "initproc v = initproc s" "nextpid v = nextpid s"
    by (simp_all add: v_def)
  have pv: "(pstate (ptable v ! j) = UNUSED) = (pstate (ptable s ! j) = UNUSED)" "idle (ptable v ! j) = idle (ptable s ! j)"
    "pid (ptable v ! j) = pid (ptable s ! j)"
    "parent (ptable v ! j) = (if j = i \<and> parent (ptable s ! j) = Some me then initproc s else parent (ptable s ! j))" for j
    using i by (auto simp: v_def upd_proc_def nth_list_update idle_def)
  have r: "reparent me (Suc n) i s = reparent me n (i + 1) u" by (simp add: u_def)
  have "i + 1 + n \<le> length (ptable u)" using Suc.prems uv v by simp
  note IH = Suc.IH [OF this]
  have "(pstate (ptable (reparent me n (i + 1) u) ! j) = UNUSED) = (pstate (ptable s ! j) = UNUSED) \<and>
      idle (ptable (reparent me n (i + 1) u) ! j) = idle (ptable s ! j) \<and>
      pid (ptable (reparent me n (i + 1) u) ! j) = pid (ptable s ! j) \<and>
      parent (ptable (reparent me n (i + 1) u) ! j) =
        (if i \<le> j \<and> j < i + Suc n \<and> parent (ptable s ! j) = Some me then initproc s else parent (ptable s ! j))"
    if j: "j < length (ptable s)" for j
  proof -
    have ju: "j < length (ptable u)" and jv: "j < length (ptable v)" using j uv(1) v(1) by simp_all
    note h = IH [THEN conjunct2, THEN conjunct2, THEN conjunct2, rule_format, OF ju, unfolded Let_def]
    have "i + 1 \<le> j \<and> j < i + 1 + n \<longleftrightarrow> i \<le> j \<and> j < i + Suc n \<and> j \<noteq> i" by auto
    then show ?thesis using h uv(4-7) [OF jv] uv(2) v(2) pv [of j] by auto
  qed
  then show ?case unfolding r Let_def using IH uv(1-3) v by simp
qed

lemma reparent_ends:
  assumes "length (ptable s) = NPROC" and "j < NPROC"
  shows "parent (ptable (reparent me NPROC 0 s) ! j) =
    (if parent (ptable s ! j) = Some me then initproc s else parent (ptable s ! j))"
  using reparent_kin [of 0 NPROC s me] assms by (auto simp: Let_def)

lemma exit_ptable:
  assumes ok: "ptable_ok s" and run: "running i s" and c: "exit s = Ret s'"
  shows "ptable_ok s' \<and> nextpid s' = nextpid s"
proof -
  note run' = runningD [OF run]
  obtain t u v w ip where ni: "initproc s \<noteq> Some i" and t: "close_files i NOFILE 0 s = Ret t"
      and u: "dofs begin_op t = Ret u" and v: "dofs (iput ip) u = Ret v" and w: "dofs end_op v = Ret w"
      and s': "s' = upd_proc i (\<lambda>p. p\<lparr>pstate := ZOMBIE\<rparr>) (reparent i NPROC 0
        (wakeup1 (proc_chan (parent (ptable (upd_proc i (\<lambda>p. p\<lparr>cwd := None\<rparr>) w) ! i)))
          (upd_proc i (\<lambda>p. p\<lparr>cwd := None\<rparr>) w)))"
    using exit_parts [OF c run'(1)] by metis
  define x where "x = wakeup1 (proc_chan (parent (ptable (upd_proc i (\<lambda>p. p\<lparr>cwd := None\<rparr>) w) ! i)))
          (upd_proc i (\<lambda>p. p\<lparr>cwd := None\<rparr>) w)"
  have "same_kin w (upd_proc i (\<lambda>p. p\<lparr>cwd := None\<rparr>) w)" by (rule same_kin_upd) (simp_all add: idle_def)
  then have "same_kin w x" unfolding x_def by (rule same_kin_trans [OF _ same_kin_wakeup1])
  then have sx: "same_kin s x"
    using close_files_kin [OF t] dofs_kin [OF u] dofs_kin [OF v] dofs_kin [OF w] same_kin_trans by metis
  have okx: "ptable_ok x" by (rule same_kin_ok [OF sx ok])
  have lx: "length (ptable x) = NPROC" using okx by (simp add: ptable_ok_def)
  have i: "i < NPROC" using run'(2) ok by (simp add: ptable_ok_def)
  define y where "y = reparent i NPROC 0 x"
  have y: "length (ptable y) = NPROC" "initproc y = initproc x" "nextpid y = nextpid x"
    and yj: "\<And>j. j < NPROC \<Longrightarrow> (pstate (ptable y ! j) = UNUSED) = (pstate (ptable x ! j) = UNUSED)"
      "\<And>j. j < NPROC \<Longrightarrow> idle (ptable y ! j) = idle (ptable x ! j)"
      "\<And>j. j < NPROC \<Longrightarrow> pid (ptable y ! j) = pid (ptable x ! j)"
      "\<And>j. j < NPROC \<Longrightarrow> parent (ptable y ! j) =
        (if parent (ptable x ! j) = Some i then initproc x else parent (ptable x ! j))"
    using reparent_kin [of 0 NPROC x i] lx by (auto simp: y_def Let_def)
  have "s' = upd_proc i (\<lambda>p. p\<lparr>pstate := ZOMBIE\<rparr>) y" by (simp only: s' y_def x_def)
  then have z: "ptable s' = (ptable y)[i := (ptable y ! i)\<lparr>pstate := ZOMBIE\<rparr>]" "initproc s' = initproc x" "nextpid s' = nextpid x"
    using y by (simp_all add: upd_proc_def)
  have iu: "pstate (ptable x ! i) \<noteq> UNUSED"
    using same_kinD(4) [OF sx run'(2)] run by (simp add: running_def)
  have f: "(pstate (ptable s' ! j) = UNUSED) = (pstate (ptable x ! j) = UNUSED)"
      "idle (ptable s' ! j) \<longleftrightarrow> idle (ptable x ! j) \<or> j = i" "pid (ptable s' ! j) = pid (ptable x ! j)"
      "parent (ptable s' ! j) = (if parent (ptable x ! j) = Some i then initproc x else parent (ptable x ! j))"
    if j: "j < NPROC" for j
  proof -
    have "ptable s' ! j = (if j = i then (ptable y ! i)\<lparr>pstate := ZOMBIE\<rparr> else ptable y ! j)"
      using j y(1) by (simp add: z(1))
    then show "(pstate (ptable s' ! j) = UNUSED) = (pstate (ptable x ! j) = UNUSED)"
      "idle (ptable s' ! j) \<longleftrightarrow> idle (ptable x ! j) \<or> j = i" "pid (ptable s' ! j) = pid (ptable x ! j)"
      "parent (ptable s' ! j) = (if parent (ptable x ! j) = Some i then initproc x else parent (ptable x ! j))"
      using yj [OF j] iu by (cases "j = i"; simp add: idle_def [of "(ptable y ! i)\<lparr>pstate := ZOMBIE\<rparr>"])+
  qed
  have nx: "initproc x \<noteq> Some i" using ni sx by (simp add: same_kin_def)
  have "pids_ok s'" using okx f z(3) by (simp add: ptable_ok_def pids_ok_def)
  moreover have "parents_ok s'"
  proof -
    obtain q where q: "q < NPROC" "initproc x = Some q" "\<not> idle (ptable x ! q)"
      using ptable_okD(3) [OF okx] by blast
    note par = ptable_okD(6) [OF okx]
    have qi: "q \<noteq> i" using q(2) nx by auto
    have "p < NPROC \<and> \<not> idle (ptable s' ! p) \<and> pstate (ptable s' ! j) \<noteq> UNUSED"
      if j: "j < NPROC" and p: "parent (ptable s' ! j) = Some p" for j p
    proof (cases "parent (ptable x ! j) = Some i")
      case True
      then have "p = q" using f(4) [OF j] p q(2) by simp
      then show ?thesis using par [OF j True] f(1) [OF j] f(2) [OF q(1)] q qi by simp
    next
      case False
      then have xp: "parent (ptable x ! j) = Some p" using f(4) [OF j] p by simp
      then have "p \<noteq> i" using False by auto
      then show ?thesis using par [OF j xp] f(1) [OF j] f(2) [of p] by simp
    qed
    then show ?thesis using q qi f(2) [OF q(1)] z(2) by (auto simp: parents_ok_def)
  qed
  ultimately show ?thesis using okx z y same_kinD(3) [OF sx] by (simp add: ptable_ok_def)
qed


text \<open>A slot without a running program changes: it is nobody's parent.\<close>

lemma slot_change:
  assumes ok: "ptable_ok s" and n: "n < NPROC" "idle (ptable s ! n)"
    and t: "ptable s' = (ptable s)[n := p]" "initproc s' = initproc s" "nextpid s \<le> nextpid s'"
    and A: "pstate p = UNUSED \<Longrightarrow> parent p = None"
    and B: "pstate p \<noteq> UNUSED \<Longrightarrow> 0 < pid p \<and> pid p < nextpid s' \<and>
      (\<forall>j < NPROC. j \<noteq> n \<longrightarrow> pstate (ptable s ! j) \<noteq> UNUSED \<longrightarrow> pid (ptable s ! j) \<noteq> pid p)"
    and C: "\<And>q. parent p = Some q \<Longrightarrow> q < NPROC \<and> \<not> idle (ptable s ! q)"
  shows "ptable_ok s'"
proof -
  have l: "length (ptable s) = NPROC" using ok by (simp add: ptable_ok_def)
  have f: "ptable s' ! j = (if j = n then p else ptable s ! j)" if "j < NPROC" for j
    using that l by (simp add: t(1) nth_list_update)
  obtain q where q: "q < NPROC" "initproc s = Some q" "\<not> idle (ptable s ! q)"
    using ptable_okD(3) [OF ok] by blast
  note pid1 = ptable_okD(4) [OF ok] and pid2 = ptable_okD(5) [OF ok] and par = ptable_okD(6) [OF ok]
  have "pids_ok s'"
    unfolding pids_ok_def
  proof (intro conjI allI impI)
    fix j assume j: "j < NPROC" "pstate (ptable s' ! j) \<noteq> UNUSED"
    show "0 < pid (ptable s' ! j)" "pid (ptable s' ! j) < nextpid s'"
      using j f [OF j(1)] B pid1 [OF j(1)] t(3) by (auto split: if_splits)
    fix k assume k: "k < NPROC" "pstate (ptable s' ! k) \<noteq> UNUSED" and e: "pid (ptable s' ! j) = pid (ptable s' ! k)"
    show "j = k"
    proof (rule ccontr)
      assume jk: "j \<noteq> k"
      consider "j = n" | "k = n" | "j \<noteq> n" "k \<noteq> n" by blast
      then show False
      proof cases
        case 1
        then have "pstate p \<noteq> UNUSED" "pstate (ptable s ! k) \<noteq> UNUSED" "pid (ptable s ! k) = pid p"
          using j k e jk f [OF j(1)] f [OF k(1)] by simp_all
        then show False using B k(1) jk 1 by blast
      next
        case 2
        then have "pstate p \<noteq> UNUSED" "pstate (ptable s ! j) \<noteq> UNUSED" "pid (ptable s ! j) = pid p"
          using j k e jk f [OF j(1)] f [OF k(1)] by simp_all
        then show False using B j(1) jk 2 by blast
      next
        case 3
        then have "pid (ptable s ! j) = pid (ptable s ! k)" "pstate (ptable s ! j) \<noteq> UNUSED" "pstate (ptable s ! k) \<noteq> UNUSED"
          using j k e f [OF j(1)] f [OF k(1)] by simp_all
        then show False using pid2 [OF j(1) k(1)] jk by blast
      qed
    qed
  qed
  moreover have "parents_ok s'"
  proof -
    have "r < NPROC \<and> \<not> idle (ptable s' ! r) \<and> pstate (ptable s' ! j) \<noteq> UNUSED"
      if j: "j < NPROC" and r: "parent (ptable s' ! j) = Some r" for j r
    proof (cases "j = n")
      case True
      then have "parent p = Some r" using r f [OF j] by simp
      then show ?thesis using C [of r] A f [OF j] f [of r] n True by auto
    next
      case False
      then show ?thesis using par [OF j, of r] r f [OF j] f [of r] n by auto
    qed
    moreover have "\<not> idle (ptable s' ! q)" using q n f [OF q(1)] by auto
    ultimately show ?thesis using q t(2) by (auto simp: parents_ok_def)
  qed
  ultimately show ?thesis using ok t l by (simp add: ptable_ok_def)
qed

lemma allocproc_ptable:
  assumes ok: "ptable_ok s" and a: "allocproc s = (r, s')" and lt: "nextpid s < 2 ^ 31 - 1"
  shows "ptable_ok s' \<and> nextpid s' \<le> nextpid s + 1 \<and> (\<forall>n. r = Some n \<longrightarrow> n < NPROC \<and> idle (ptable s ! n) \<and> pstate (ptable s' ! n) = EMBRYO \<and>
     parent (ptable s' ! n) = None \<and> pid (ptable s' ! n) = nextpid s)"
proof (cases "find_index (\<lambda>p. pstate p = UNUSED) (ptable s)")
  case None
  then show ?thesis using a ok by (simp add: allocproc_def)
next
  case (Some n)
  have l: "length (ptable s) = NPROC" using ok by (simp add: ptable_ok_def)
  have n: "n < NPROC" "pstate (ptable s ! n) = UNUSED" using find_index_SomeD [OF Some] l by auto
  have pn: "parent (ptable s ! n) = None"
    using ok n by (cases "parent (ptable s ! n)") (auto simp: ptable_ok_def parents_ok_def)
  note pids = ptable_okD(4) [OF ok] and np = ptable_okD(2) [OF ok]
  define v where "v = upd_proc n (\<lambda>p. p\<lparr>pstate := EMBRYO, pid := nextpid s, rss := 0\<rparr>) s"
  define t where "t = v\<lparr>nextpid := int32 (nextpid v + 1)\<rparr>"
  have nt: "nextpid t = nextpid s + 1" using int32_id [of "nextpid s + 1"] np lt by (simp add: t_def v_def)
  have okt: "ptable_ok t"
  proof (rule slot_change [OF ok n(1)])
    show "idle (ptable s ! n)" using n(2) by (simp add: idle_def)
    show "ptable t = (ptable s)[n := (ptable s ! n)\<lparr>pstate := EMBRYO, pid := nextpid s, rss := 0\<rparr>]"
      by (simp add: t_def v_def upd_proc_def)
  qed (use pids np pn nt in \<open>auto simp: t_def v_def dest!: pids\<close>)
  have tn: "pstate (ptable t ! n) = EMBRYO" "parent (ptable t ! n) = None" "pid (ptable t ! n) = nextpid s"
    using n l pn by (simp_all add: t_def v_def upd_proc_def)
  obtain k u where k: "kalloc t = (k, u)" by (rule prod.exhaust)
  have pu: "ptable u = ptable t" "initproc u = initproc t" "nextpid u = nextpid t"
    using kmem_ksys [OF kalloc_more [OF k]] by blast+
  have oku: "ptable_ok u" by (rule same_kin_ok [OF same_kin_ptable okt]) (simp_all add: pu)
  have lu: "length (ptable u) = NPROC" using oku by (simp add: ptable_ok_def)
  show ?thesis
  proof (cases "k = 0")
    case True
    define w where "w = upd_proc n (\<lambda>p. p\<lparr>kstack := k\<rparr>) u"
    have s': "s' = upd_proc n (\<lambda>p. p\<lparr>pstate := UNUSED\<rparr>) w" "r = None"
      using a Some k True by (simp_all add: allocproc_def v_def t_def w_def Let_def)
    have okw: "ptable_ok w" unfolding w_def by (rule same_kin_ok [OF same_kin_upd oku]) (simp_all add: idle_def)
    have wn: "ptable w ! n = (ptable t ! n)\<lparr>kstack := k\<rparr>" using n lu by (simp add: w_def upd_proc_def pu)
    have "ptable_ok s'"
    proof (rule slot_change [OF okw n(1)])
      show "idle (ptable w ! n)" using wn tn by (simp add: idle_def)
      show "ptable s' = (ptable w)[n := (ptable w ! n)\<lparr>pstate := UNUSED\<rparr>]" by (simp add: s' upd_proc_def)
    qed (use wn tn in \<open>simp_all add: s'\<close>)
    then show ?thesis using s' nt by (simp add: w_def pu)
  next
    case False
    define x where "x = upd_proc n (\<lambda>p. p\<lparr>tf := k + KSTACKSIZE - 76\<rparr>) (upd_proc n (\<lambda>p. p\<lparr>kstack := k\<rparr>) u)"
    obtain m where s': "s' = (upd_proc n (\<lambda>p. p\<lparr>ctxt := k + KSTACKSIZE - 76 - 4 - 20\<rparr>) x)\<lparr>mem := m\<rparr>" "r = Some n"
      using a Some k False by (auto simp: allocproc_def v_def t_def x_def Let_def upd_proc_def)
    have x: "same_kin u x" unfolding x_def
      by (rule same_kin_trans [OF same_kin_upd same_kin_upd]) (simp_all add: idle_def)
    have "same_kin x s'" unfolding s'
      by (rule same_kin_trans [OF same_kin_upd same_kin_ptable]) (simp_all add: idle_def)
    with x have us: "same_kin u s'" by (rule same_kin_trans)
    have "pstate (ptable s' ! n) = EMBRYO" using n lu tn by (simp add: s' x_def upd_proc_def pu)
    then show ?thesis
      using same_kin_ok [OF us oku] same_kinD(3) [OF us] same_kinD(6,7) [OF us, of n] lu n tn pu nt s'(2)
      by (simp add: idle_def)
  qed
qed

lemma fork_ptable:
  assumes ok: "ptable_ok s" and run: "running i s" and c: "fork s = Ret (r, s')" and lt: "nextpid s < 2 ^ 31 - 1"
  shows "ptable_ok s' \<and> nextpid s' \<le> nextpid s + 1"
proof -
  note run' = runningD [OF run]
  have i: "i < NPROC" "\<not> idle (ptable s ! i)"
    using run ptable_okD(1) [OF ok] by (simp_all add: running_def idle_def)
  obtain no t where a: "allocproc s = (no, t)" by (rule prod.exhaust)
  note at = allocproc_ptable [OF ok a lt]
  then have okt: "ptable_ok t" and nt: "nextpid t \<le> nextpid s + 1" by blast+
  show ?thesis
  proof (cases no)
    case None
    then show ?thesis using c a run' okt nt by (simp add: fork_def myproc_def)
  next
    case (Some np)
    then have np: "np < NPROC" "idle (ptable s ! np)" "pstate (ptable t ! np) = EMBRYO" "parent (ptable t ! np) = None"
      using at by auto
    have ne: "i \<noteq> np" using i np by auto
    have it: "\<not> idle (ptable t ! i)"
      using slots_idle(1) [of t s i] allocproc_frame [OF a] i run'(2) by simp
    obtain pd u where u: "copyuvm (pgdir (ptable t ! i)) (sz (ptable t ! i)) t = Ret (pd, u)"
      using c a Some run' by (auto simp: fork_def myproc_def)
    define v where "v = upd_proc np (\<lambda>p. p\<lparr>pgdir := pd\<rparr>) u"
    have tv: "same_kin t v" unfolding v_def
      by (rule same_kin_trans [OF same_kin_vm [OF copyuvm_frame [OF u]] same_kin_upd]) (simp_all add: idle_def)
    have ltn: "np < length (ptable t)" "i < length (ptable t)" using ptable_okD(1) [OF okt] np i by simp_all
    have idt: "idle (ptable t ! np)" using np(3) by (simp add: idle_def)
    show ?thesis
    proof (cases "pd = 0")
      case True
      then obtain w where w: "kfree (kstack (ptable v ! np)) v = Ret w"
          "s' = upd_proc np (\<lambda>p. p\<lparr>kstack := 0, pstate := UNUSED\<rparr>) w"
        using c a Some run' u by (auto simp: fork_def myproc_def v_def Let_def)
      have tw: "same_kin t w" by (rule same_kin_trans [OF tv kfree_kin [OF w(1)]])
      note kw = same_kinD [OF tw]
      have "ptable_ok s'"
      proof (rule slot_change [OF same_kin_ok [OF tw okt] np(1)])
        show "idle (ptable w ! np)" using kw(5) [OF ltn(1)] idt by simp
        show "ptable s' = (ptable w)[np := (ptable w ! np)\<lparr>kstack := 0, pstate := UNUSED\<rparr>]" by (simp add: w(2) upd_proc_def)
      qed (use kw(6) [OF ltn(1)] np(4) in \<open>simp_all add: w(2)\<close>)
      then show ?thesis using kw(3) nt by (simp add: w(2))
    next
      case False
      define w where "w = upd_proc np (\<lambda>p. p\<lparr>sz := sz (ptable v ! i), parent := Some i\<rparr>) v"
      define x where "x = tf_set np 28 0 (w\<lparr>mem := copy_words (mem w) (tf (ptable w ! np)) (tf (ptable w ! i)) 19\<rparr>)"
      note kv = same_kinD [OF tv]
      have okv: "ptable_ok v" by (rule same_kin_ok [OF tv okt])
      have okw: "ptable_ok w"
      proof (rule slot_change [OF okv np(1)])
        show "idle (ptable v ! np)" using kv(5) [OF ltn(1)] idt by simp
        show "ptable w = (ptable v)[np := (ptable v ! np)\<lparr>sz := sz (ptable v ! i), parent := Some i\<rparr>]"
          by (simp add: w_def upd_proc_def)
        have "pstate (ptable v ! np) \<noteq> UNUSED" using kv(4) [OF ltn(1)] np(3) by simp
        then show "pstate ((ptable v ! np)\<lparr>sz := sz (ptable v ! i), parent := Some i\<rparr>) = UNUSED \<Longrightarrow>
            parent ((ptable v ! np)\<lparr>sz := sz (ptable v ! i), parent := Some i\<rparr>) = None" by simp
      qed (use kv(5) [OF ltn(2)] it i ptable_okD(4,5) [OF okv] np(1) in \<open>auto simp: w_def\<close>)
      have wx: "same_kin w x" by (rule same_kin_ptable) (simp_all add: x_def tf_set_def)
      obtain y where y: "dup_files i np NOFILE 0 x = Ret y"
        using c a Some run' u False by (auto simp: fork_def myproc_def v_def w_def x_def Let_def simp del: dup_files.simps)
      have wy: "same_kin w y" by (rule same_kin_trans [OF wx dup_files_kin [OF y]])
      obtain ip where "cwd (ptable y ! i) = Some ip"
        using c a Some run' u False y by (auto simp: fork_def myproc_def v_def w_def x_def Let_def
          simp del: dup_files.simps split: option.splits)
      then obtain h where s': "s' = upd_proc np (\<lambda>p. p\<lparr>pstate := RUNNABLE\<rparr>)
          (upd_proc np (\<lambda>p. p\<lparr>name := set_name (name p) h\<rparr>)
            (upd_proc np (\<lambda>p. p\<lparr>cwd := Some ip\<rparr>) (y\<lparr>fsk := idup ip (fsk y)\<rparr>)))"
        using c a Some run' u False y by (auto simp: fork_def myproc_def v_def w_def x_def Let_def
          simp del: dup_files.simps)
      define z where "z = upd_proc np (\<lambda>p. p\<lparr>name := set_name (name p) h\<rparr>)
            (upd_proc np (\<lambda>p. p\<lparr>cwd := Some ip\<rparr>) (y\<lparr>fsk := idup ip (fsk y)\<rparr>))"
      have yf: "same_kin y (y\<lparr>fsk := idup ip (fsk y)\<rparr>)" by (rule same_kin_ptable) simp_all
      have wz: "same_kin w z" unfolding z_def
        by (rule same_kin_trans [OF wy same_kin_trans [OF yf same_kin_trans [OF same_kin_upd same_kin_upd]]])
          (simp_all add: idle_def)
      have okz: "ptable_ok z" by (rule same_kin_ok [OF wz okw])
      have lw: "np < length (ptable w)" using ptable_okD(1) [OF okw] np(1) by simp
      have lv: "np < length (ptable v)" using lw by (simp add: w_def)
      have wn: "pstate (ptable w ! np) \<noteq> UNUSED" "idle (ptable w ! np)"
        using kv(4,5) [OF ltn(1)] np(3) idt lv by (simp_all add: w_def upd_proc_def idle_def)
      note kz = same_kinD [OF wz]
      have zn: "pstate (ptable z ! np) \<noteq> UNUSED" "idle (ptable z ! np)" using kz(4,5) [OF lw] wn by simp_all
      have sz: "s' = upd_proc np (\<lambda>p. p\<lparr>pstate := RUNNABLE\<rparr>) z" by (simp only: s' z_def)
      have own: "0 < pid (ptable z ! np) \<and> pid (ptable z ! np) < nextpid z"
        by (rule ptable_okD(4) [OF okz np(1) zn(1)])
      have other: "\<forall>j < NPROC. j \<noteq> np \<longrightarrow> pstate (ptable z ! j) \<noteq> UNUSED \<longrightarrow> pid (ptable z ! j) \<noteq> pid (ptable z ! np)"
        using ptable_okD(5) [OF okz _ np(1) _ zn(1)] by blast
      have "ptable_ok s'"
      proof (rule slot_change [OF okz np(1) zn(2)])
        show "ptable s' = (ptable z)[np := (ptable z ! np)\<lparr>pstate := RUNNABLE\<rparr>]" by (simp add: sz upd_proc_def)
      qed (use own other ptable_okD(6) [OF okz np(1)] in \<open>simp_all add: sz\<close>)
      moreover have "nextpid s' = nextpid t" using kz(3) kv(3) by (simp add: sz w_def)
      ultimately show ?thesis using nt by simp
    qed
  qed
qed

lemma wait_ptable:
  assumes ok: "ptable_ok s" and run: "running i s" and c: "wait_turn s = Ret (r, s')"
  shows "ptable_ok s' \<and> nextpid s' = nextpid s"
proof -
  note run' = runningD [OF run]
  show ?thesis
  proof (cases "find_index (\<lambda>p. parent p = Some i \<and> pstate p = ZOMBIE) (ptable s)")
    case None
    then consider "s' = s" | "s' = upd_proc i (\<lambda>p. p\<lparr>chan := ChanProc i, pstate := SLEEPING\<rparr>) s"
      using c run' by (auto simp: wait_turn_def myproc_def sleep_def split: if_splits)
    then show ?thesis
    proof cases
      case 2
      have "same_kin s s'" unfolding 2 by (rule same_kin_upd) (use run in \<open>auto simp: idle_def running_def\<close>)
      then show ?thesis using same_kin_ok [OF _ ok] same_kinD(3) by blast
    qed (use ok in simp)
  next
    case (Some j)
    have j: "j < NPROC" "pstate (ptable s ! j) = ZOMBIE" "j < length (ptable s)"
      using find_index_SomeD [OF Some] ptable_okD(1) [OF ok] by auto
    obtain t u where t: "kfree (kstack (ptable s ! j)) s = Ret t"
        "freevm (pgdir (ptable (upd_proc j (\<lambda>p. p\<lparr>kstack := 0\<rparr>) t) ! j)) (upd_proc j (\<lambda>p. p\<lparr>kstack := 0\<rparr>) t) = Ret u"
      and s': "s' = upd_proc j (\<lambda>p. p\<lparr>pid := 0, parent := None, name := (name p)[0 := 0],
                      killed := False, pstate := UNUSED\<rparr>) u"
      using c run' Some by (auto simp: wait_turn_def myproc_def Let_def)
    have su: "same_kin s u"
      by (rule same_kin_trans [OF kfree_kin [OF t(1)] same_kin_trans [OF same_kin_upd same_kin_vm [OF freevm_frame [OF t(2)]]]])
        (simp_all add: idle_def)
    have "ptable_ok s'"
    proof (rule slot_change [OF same_kin_ok [OF su ok] j(1)])
      show "idle (ptable u ! j)" using same_kinD(5) [OF su j(3)] j(2) by (simp add: idle_def)
      show "ptable s' = (ptable u)[j := (ptable u ! j)\<lparr>pid := 0, parent := None, name := (name (ptable u ! j))[0 := 0],
          killed := False, pstate := UNUSED\<rparr>]" by (simp add: s' upd_proc_def)
    qed (simp_all add: s')
    then show ?thesis using same_kinD(3) [OF su] by (simp add: s')
  qed
qed

text \<open>A step other than a fork: process \<open>i\<close> on the CPU exits, waits, kills, sleeps or gives up the CPU, or something wakes
  sleepers, or the scheduler runs a process, or a step leaves states, parents and pids alone.\<close>

inductive life_step :: "'a kernel_scheme \<Rightarrow> 'a kernel_scheme \<Rightarrow> bool" where
  exit: "running i s \<Longrightarrow> exit s = Ret s' \<Longrightarrow> life_step s s'"
| wait: "running i s \<Longrightarrow> wait_turn s = Ret (e, s') \<Longrightarrow> life_step s s'"
| kill: "running i s \<Longrightarrow> kill k s = (r, s') \<Longrightarrow> life_step s s'"
| sleep: "running i s \<Longrightarrow> sleep c s = Ret s' \<Longrightarrow> life_step s s'"
| yield: "running i s \<Longrightarrow> yield s = Ret s' \<Longrightarrow> life_step s s'"
| wakeup: "life_step s (wakeup c s)"
| schedule: "scheduler_step pos s = Ret (r, k, s') \<Longrightarrow> life_step s s'"
| leave: "life_step s (scheduler_return s)"
| other: "ptable s' = ptable s \<Longrightarrow> initproc s' = initproc s \<Longrightarrow> nextpid s' = nextpid s \<Longrightarrow> life_step s s'"

text \<open>\<open>life_run n s s'\<close>: a run of such steps and of \<open>n\<close> forks.\<close>

inductive life_run :: "nat \<Rightarrow> 'a kernel_scheme \<Rightarrow> 'a kernel_scheme \<Rightarrow> bool" where
  start: "life_run 0 s s"
| fork: "life_run n s t \<Longrightarrow> running i t \<Longrightarrow> fork t = Ret (r, u) \<Longrightarrow> life_run (Suc n) s u"
| step: "life_run n s t \<Longrightarrow> life_step t u \<Longrightarrow> life_run n s u"

lemma kill_kin:
  assumes "kill k s = (r, s')"
  shows "same_kin s s'"
proof (cases "find_index (\<lambda>p. pid p = k) (ptable s)")
  case None
  then show ?thesis using assms by (simp add: kill_def)
next
  case (Some i)
  define t where "t = upd_proc i (\<lambda>p. p\<lparr>killed := True\<rparr>) s"
  have t: "same_kin s t" unfolding t_def by (rule same_kin_upd) (simp_all add: idle_def)
  have "s' = t \<or> pstate (ptable t ! i) = SLEEPING \<and> s' = upd_proc i (\<lambda>p. p\<lparr>pstate := RUNNABLE\<rparr>) t"
    using assms Some by (auto simp: kill_def Let_def t_def [symmetric] split: if_splits)
  moreover have "same_kin t (upd_proc i (\<lambda>p. p\<lparr>pstate := RUNNABLE\<rparr>) t)" if "pstate (ptable t ! i) = SLEEPING"
    by (rule same_kin_upd) (use that in \<open>simp_all add: idle_def\<close>)
  ultimately show ?thesis using t same_kin_trans by blast
qed

lemma running_kin:
  assumes "running i s" and "idle (f (ptable s ! i)) = False" and "parent (f (ptable s ! i)) = parent (ptable s ! i)"
    and "pid (f (ptable s ! i)) = pid (ptable s ! i)"
  shows "same_kin s (upd_proc i f s)"
  by (rule same_kin_upd) (use assms in \<open>auto simp: running_def idle_def\<close>)

lemma scheduler_kin:
  assumes "scheduler_step pos s = Ret (r, k, s')" and "ptable_ok s"
  shows "same_kin s s'"
proof (cases "find_index (\<lambda>p. pstate p = RUNNABLE) (drop pos (ptable s))")
  case None
  then show ?thesis using assms by (simp add: scheduler_step_def)
next
  case (Some j)
  have "j < length (drop pos (ptable s))" "pstate (drop pos (ptable s) ! j) = RUNNABLE"
    using find_index_SomeD [OF Some] by auto
  then have j: "pstate (ptable s ! (pos + j)) = RUNNABLE" by simp
  obtain t where t: "switchuvm (pos + j) (s\<lparr>cur := Some (pos + j)\<rparr>) = Ret t"
      "s' = upd_proc (pos + j) (\<lambda>p. p\<lparr>pstate := RUNNING\<rparr>) t"
    using assms(1) Some by (auto simp: scheduler_step_def Let_def)
  have pt: "ptable t = ptable s" "initproc t = initproc s" "nextpid t = nextpid s"
    using t(1) by (auto simp: switchuvm_def Let_def split: if_splits)
  have "same_kin t s'" unfolding t(2) by (rule same_kin_upd) (simp_all add: pt j idle_def)
  then show ?thesis using same_kin_trans [OF same_kin_ptable [OF pt]] by blast
qed

lemma life_step_ptable:
  assumes "life_step t u" and t: "ptable_ok t"
  shows "ptable_ok u \<and> nextpid u = nextpid t"
proof -
  have k: ?thesis if "same_kin t u" using same_kin_ok [OF that t] same_kinD(3) [OF that] by simp
  from assms(1) show ?thesis
  proof cases
    case (sleep i c)
    then have "u = upd_proc i (\<lambda>p. p\<lparr>chan := c, pstate := SLEEPING\<rparr>) t"
      by (simp add: sleep_def running_def)
    then have "same_kin t u" using running_kin [OF sleep(1)] by (simp add: idle_def)
    then show ?thesis by (rule k)
  next
    case (yield i)
    then have "u = upd_proc i (\<lambda>p. p\<lparr>pstate := RUNNABLE\<rparr>) t"
      by (simp add: yield_def myproc_def running_def)
    then have "same_kin t u" using running_kin [OF yield(1)] by (simp add: idle_def)
    then show ?thesis by (rule k)
  next
    case leave
    have "same_kin t u"
      unfolding leave by (rule same_kin_ptable) (simp_all add: scheduler_return_def switchkvm_def)
    then show ?thesis by (rule k)
  next
    case (exit i)
    show ?thesis by (rule exit_ptable [OF t exit])
  next
    case (wait i e)
    show ?thesis by (rule wait_ptable [OF t wait])
  next
    case (kill i k r)
    then show ?thesis using k [OF kill_kin] by blast
  next
    case (wakeup c)
    then show ?thesis using k same_kin_wakeup by blast
  next
    case (schedule pos r k)
    then show ?thesis using k [OF scheduler_kin] t by blast
  next
    case other
    then show ?thesis using k [OF same_kin_ptable] by blast
  qed
qed

text \<open>C10: over every run of \<^verbatim>\<open>fork\<close>, \<^verbatim>\<open>exit\<close>, \<^verbatim>\<open>wait\<close>, \<^verbatim>\<open>kill\<close>, \<^verbatim>\<open>sleep\<close>, \<^verbatim>\<open>wakeup\<close>, \<^verbatim>\<open>yield\<close> and the scheduler with too
  few forks to bring the \<^verbatim>\<open>int\<close> \<^verbatim>\<open>nextpid\<close> to its maximum, behind which it turns negative, the
  process table stays well formed: the pids of all processes are different, positive and below \<^verbatim>\<open>nextpid\<close>; the first process
  never goes away; the parent of a process is always a process that runs or could, because \<^verbatim>\<open>exit\<close> hands its children over;
  and an unused slot has no parent.\<close>
theorem process_table_well_formed:
  assumes "life_run n s s'" and "ptable_ok s" and "nextpid s + int n < 2 ^ 31"
  shows "ptable_ok s' \<and> nextpid s' \<le> nextpid s + int n"
  using assms
proof (induction rule: life_run.induct)
  case (fork n s t i r u)
  then show ?case using fork_ptable [of t i r u] by simp
next
  case (step n s t u)
  then show ?case using life_step_ptable [of t u] by simp
qed simp

theorem process_table_well_formed_witness:
  "\<exists>s. fork demo_kernel = Ret (-1, s) \<and> nextpid s = 3 \<and> ptable_ok s"
proof -
  have ok: "ptable_ok demo_kernel"
    unfolding ptable_ok_def pids_ok_def parents_ok_def
    by (auto simp: demo_fields demo_kernel_def idle_proc_def NPROC_def idle_def nth_Cons split: nat.splits)
  have k: "kalloc s = (0, s)" if "freelist s = 0" for s :: kernel using that by (simp add: kalloc_def Let_def)
  have "find_index (\<lambda>p. pstate p = UNUSED) (ptable demo_kernel) = Some 1"
    by (simp add: demo_fields idle_proc_def)
  then obtain s where "allocproc demo_kernel = (None, s)" "nextpid s = 3"
    by (simp add: allocproc_def Let_def k demo_kernel_def upd_proc_def int32_id)
  then have f: "fork demo_kernel = Ret (-1, s)" by (simp add: fork_def myproc_def demo_fields)
  have "running 0 demo_kernel" by (simp add: running_def demo_fields)
  then have "life_run (Suc 0) demo_kernel s" using f by (rule life_run.fork [OF life_run.start])
  then have "ptable_ok s" using process_table_well_formed [OF _ ok] by (simp add: demo_kernel_def)
  then show ?thesis using f \<open>nextpid s = 3\<close> by blast
qed

end
