(* ===== verification/Txn.thy ===== *)
theory Txn
  imports Recovery Fs
begin

text \<open>
  Work inside a transaction.  \<open>work s H\<close>: the buffers in \<open>H\<close> are held and valid, the others free, and the dirty
  buffers are those of the logged blocks, which lie outside the log.  Each of \<^verbatim>\<open>bread\<close>, \<^verbatim>\<open>log_write\<close> and \<^verbatim>\<open>brelse\<close> keeps this and
  changes the blocks, as the kernel sees them, in the way its caller means.
\<close>

definition busy :: "'a logsys_scheme \<Rightarrow> nat \<Rightarrow> bool" where
  "busy s i \<longleftrightarrow> i < 30 \<and> held s i \<and> bit (flags (bufs s ! i)) 1 \<and>
     (\<exists>n. caches s i n \<and> (dirty s i \<or> data (bufs s ! i) = disk s ROOTDEV n))"

text \<open>A block that operations may write: on the disk, and neither the superblock nor in the log.\<close>

definition home_ok :: "int \<Rightarrow> u32 \<Rightarrow> bool" where
  "home_ok st n \<longleftrightarrow> n < FSSIZE \<and> n \<noteq> 1 \<and> \<not> in_log st n"

definition work :: "'a logsys_scheme \<Rightarrow> nat set \<Rightarrow> bool" where
  "work s H \<longleftrightarrow> (\<exists>xs. cache_inv s xs) \<and> (\<forall>i < 30. i \<notin> H \<longrightarrow> free_buf s i) \<and> (\<forall>i \<in> H. busy s i) \<and>
     (\<forall>i < 30. dirty s i \<longrightarrow> (\<exists>n \<in> set (logged s). caches s i n)) \<and>
     (\<forall>n \<in> set (logged s). home_ok (lg_start s) n \<and> (\<exists>i. caches s i n \<and> dirty s i)) \<and> distinct (logged s) \<and>
     length (lh_block s) = LOGSIZE \<and> 0 \<le> lh_n s \<and> lh_n s \<le> int LOGSIZE"

lemma workD:
  assumes "work s H"
  shows "\<exists>xs. cache_inv s xs" and "i < 30 \<Longrightarrow> i \<notin> H \<Longrightarrow> free_buf s i" and "i \<in> H \<Longrightarrow> busy s i"
    and "i < 30 \<Longrightarrow> dirty s i \<Longrightarrow> \<exists>n \<in> set (logged s). caches s i n"
    and "n \<in> set (logged s) \<Longrightarrow> home_ok (lg_start s) n"
    and "n \<in> set (logged s) \<Longrightarrow> \<exists>i. caches s i n \<and> dirty s i"
    and "distinct (logged s)" and "length (lh_block s) = LOGSIZE" and "0 \<le> lh_n s" and "lh_n s \<le> int LOGSIZE"
  using assms unfolding work_def by blast+

text \<open>The blocks a routine may still log.\<close>

definition room :: "'a logsys_scheme \<Rightarrow> int" where
  "room s = min (int LOGSIZE) (lg_size s - 1) - lh_n s"

text \<open>From \<open>s\<close> to \<open>s'\<close> at most \<open>k\<close> blocks were logged, and the rest of the log and of the machine is as before.\<close>

definition spent :: "'a logsys_scheme \<Rightarrow> 'a logsys_scheme \<Rightarrow> int \<Rightarrow> bool" where
  "spent s s' k \<longleftrightarrow> room s - k \<le> room s' \<and> lh_n s \<le> lh_n s' \<and> lg_outstanding s' = lg_outstanding s \<and> lg_size s' = lg_size s \<and>
     lg_start s' = lg_start s \<and> lg_dev s' = lg_dev s \<and> lg_committing s' = lg_committing s \<and>
     logsys.more s' = logsys.more s \<and> curpid s' = curpid s \<and> disk s' = disk s"

lemma spent_refl [simp]: "0 \<le> k \<Longrightarrow> spent s s k"
  by (simp add: spent_def)

lemma spent_trans: "spent s t j \<Longrightarrow> spent t u k \<Longrightarrow> j + k \<le> l \<Longrightarrow> spent s u l"
  by (simp add: spent_def)

lemma spentD: "spent s t k \<Longrightarrow> 0 < lg_outstanding s \<Longrightarrow> 0 < lg_outstanding t"
  by (simp add: spent_def)

lemma spent_more:
  fixes s s' :: "'a logsys_scheme"
  assumes "iosys.more s' = iosys.more s" and "curpid s' = curpid s" and "disk s' = disk s"
  shows "spent s s' 0"
proof -
  have "logsys.more s' = logsys.more s" using assms(1) by (cases s; cases s'; simp)
  then show ?thesis using log_fields [OF assms(1)] assms(2,3) by (simp add: spent_def room_def)
qed

lemma work_dirty_card:
  assumes "work s H"
  shows "int (card {i. i < 30 \<and> dirty s i}) \<le> lh_n s"
proof -
  note w = workD(4) [OF assms] and n = workD(9) [OF assms]
  have "inj_on (\<lambda>i. blockno (bufs s ! i)) {i. i < 30 \<and> dirty s i}"
  proof (rule inj_onI)
    fix i j assume "i \<in> {i. i < 30 \<and> dirty s i}" "j \<in> {i. i < 30 \<and> dirty s i}"
      and e: "blockno (bufs s ! i) = blockno (bufs s ! j)"
    then obtain m n where "caches s i m" "caches s j n" using w [of i] w [of j] by auto
    then have "caches s i m" "caches s j m" using e by (auto simp: caches_def)
    then show "i = j" using workD(1) [OF assms] caches_unique by blast
  qed
  moreover have "(\<lambda>i. blockno (bufs s ! i)) ` {i. i < 30 \<and> dirty s i} \<subseteq> set (logged s)"
  proof (intro image_subsetI)
    fix i assume "i \<in> {i. i < 30 \<and> dirty s i}"
    then obtain m where "m \<in> set (logged s)" "caches s i m" using w [of i] by auto
    then show "blockno (bufs s ! i) \<in> set (logged s)" by (simp add: caches_def)
  qed
  ultimately have "card {i. i < 30 \<and> dirty s i} \<le> card (set (logged s))"
    using card_inj_on_le [OF _ _ List.finite_set] by blast
  also have "\<dots> \<le> length (logged s)" by (rule card_length)
  also have "\<dots> \<le> nat (lh_n s)" by (simp add: logged_def)
  finally show ?thesis using n by simp
qed

lemma work_clean:
  assumes "work s H" and "finite H" and "lh_n s + int (card H) < 30"
  shows "\<exists>i < 30. i \<notin> H \<and> \<not> dirty s i"
proof (rule ccontr)
  assume "\<not> ?thesis"
  then have "{i. i < 30} \<subseteq> H \<union> {i. i < 30 \<and> dirty s i}" by auto
  then have "card {i :: nat. i < 30} \<le> card (H \<union> {i. i < 30 \<and> dirty s i})"
    using assms(2) by (intro card_mono) auto
  also have "\<dots> \<le> card H + card {i. i < 30 \<and> dirty s i}" by (rule card_Un_le)
  finally show False using work_dirty_card [OF assms(1)] assms(3) by simp
qed

lemma work_held_data:
  assumes "work s H" and "i \<in> H" and "caches s i n"
  shows "data (bufs s ! i) = bview s n"
  using workD(1) [OF assms(1)] workD(3) [OF assms(1,2)] bview_cached [OF _ assms(3)] by (auto simp: busy_def)

lemma work_carry:
  assumes w: "work s H" and more: "iosys.more s' = iosys.more s" and inv: "cache_inv s' xs"
    and "\<And>i. i < 30 \<Longrightarrow> i \<notin> H' \<Longrightarrow> free_buf s' i" and "\<And>i. i \<in> H' \<Longrightarrow> busy s' i"
    and "\<And>i. i < 30 \<Longrightarrow> dirty s' i \<Longrightarrow> \<exists>n \<in> set (logged s). caches s' i n"
    and "\<And>n. n \<in> set (logged s) \<Longrightarrow> \<exists>i. caches s' i n \<and> dirty s' i"
  shows "work s' H'"
proof -
  note lf = log_fields [OF more]
  have lg: "logged s' = logged s" using lf by (simp add: logged_def)
  note old = workD(5,7-10) [OF w]
  have new: "\<exists>xs. cache_inv s' xs" "\<forall>i < 30. i \<notin> H' \<longrightarrow> free_buf s' i" "\<forall>i \<in> H'. busy s' i"
      "\<forall>i < 30. dirty s' i \<longrightarrow> (\<exists>n \<in> set (logged s). caches s' i n)"
      "\<forall>n \<in> set (logged s). \<exists>i. caches s' i n \<and> dirty s' i"
    using inv assms(4-7) by (blast, simp_all)
  show ?thesis
    unfolding work_def lg lf by (intro conjI ballI new old new(5) [rule_format])
qed

lemma work_bread:
  assumes w: "work s H" and fin: "finite H" and n: "n < FSSIZE" "\<And>i. i \<in> H \<Longrightarrow> \<not> caches s i n"
    and r: "lh_n s + int (card H) < 30"
  shows "\<exists>i s'. bread ROOTDEV n s = Ret (i, s') \<and> work s' (insert i H) \<and> i \<notin> H \<and> caches s' i n \<and>
    data (bufs s' ! i) = bview s n \<and> bview s' = bview s \<and> spent s s' 0 \<and> (\<forall>j \<in> H. caches s' j = caches s j)"
proof -
  obtain xs where inv: "cache_inv s xs" using workD(1) [OF w] by blast
  have free: "free_buf s i" if "caches s i n" for i
    using that n(2) workD(2) [OF w, of i] by (auto simp: caches_def)
  obtain k where "k < 30" "k \<notin> H" "\<not> dirty s k" using work_clean [OF w fin r] by blast
  then have "\<exists>i < 30. free_buf s i \<and> \<not> bit (flags (bufs s ! i)) 2"
    using workD(2) [OF w] by (auto simp: dirty_def)
  then obtain i s' where b: "bread ROOTDEV n s = Ret (i, s')" using bread_total [OF inv free n(1)] by blast
  note f = bread_Ret [OF inv b]
  have i: "i < 30" using f(3) by (simp add: caches_def)
  have iH: "i \<notin> H" using f(9) workD(3) [OF w, of i] held_not_free by (auto simp: busy_def)
  note lf = log_fields [OF bread_more [OF b]]
  have lg: "logged s' = logged s" using lf by (simp add: logged_def)
  have same: "bufs s' ! j = bufs s ! j" if "j \<noteq> i" for j using f(7) that by blast
  have "busy s' j" if "j \<in> insert i H" for j
  proof (cases "j = i")
    case True
    then show ?thesis using f(2,3,5,10) i by (auto simp: busy_def dirty_def)
  next
    case False
    then have "busy s j" using workD(3) [OF w, of j] that by auto
    then show ?thesis using same [OF False] f(8) by (auto simp: busy_def held_def caches_def dirty_def)
  qed
  moreover have "free_buf s' j" if "j < 30" "j \<notin> insert i H" for j
    using workD(2) [OF w, of j] that same [of j] by (auto simp: free_buf_def)
  moreover have "\<exists>m \<in> set (logged s'). caches s' j m" if "j < 30" "dirty s' j" for j
  proof -
    have d: "dirty s j" using that f(11) same [of j] by (cases "j = i") (auto simp: dirty_def)
    then obtain m where m: "m \<in> set (logged s)" "caches s j m" using workD(4) [OF w \<open>j < 30\<close>] by blast
    have "caches s' j m"
    proof (cases "j = i")
      case True
      then have "caches s i n" using bread_victim [OF inv b] d by (simp add: dirty_def)
      then show ?thesis using m f(3) True by (auto simp: caches_def)
    qed (use m same in \<open>simp add: caches_def\<close>)
    then show ?thesis using m lg by auto
  qed
  moreover have "\<exists>j. caches s' j m \<and> dirty s' j" if "m \<in> set (logged s')" for m
  proof -
    have "m \<in> set (logged s)" using that lg by simp
    then obtain j where j: "caches s j m" "dirty s j" using workD(6) [OF w] by blast
    have p: "pin_eq s s'" by (rule bread_pin_eq [OF inv b])
    have "caches s' j = caches s j" "dirty s' j" using p j(2) unfolding pin_eq_def by auto
    then show ?thesis using j(1) by (intro exI [of _ j]) simp
  qed
  ultimately have "work s' (insert i H)"
    unfolding lg by (intro work_carry [OF w bread_more [OF b] f(1)])
  moreover have "spent s s' 0"
    using f(8) by (intro spent_more bread_more [OF b]) blast+
  moreover have "\<forall>j \<in> H. caches s' j = caches s j"
  proof
    fix j assume "j \<in> H"
    then have "j \<noteq> i" using iH by blast
    then show "caches s' j = caches s j" using same by (simp add: caches_def fun_eq_iff)
  qed
  ultimately show ?thesis using b f(3,4,6) iH by blast
qed

lemma work_brelse:
  assumes w: "work s H" and i: "i \<in> H"
  shows "\<exists>s'. brelse i s = Ret s' \<and> work s' (H - {i}) \<and> bview s' = bview s \<and> spent s s' 0 \<and>
    (\<forall>j \<in> H - {i}. caches s' j = caches s j)"
proof -
  obtain xs where inv: "cache_inv s xs" using workD(1) [OF w] by blast
  have "busy s i" using workD(3) [OF w] i by simp
  then obtain n where h: "held s i" "caches s i n" "bit (flags (bufs s ! i)) 1"
      "bit (flags (bufs s ! i)) 2 \<or> data (bufs s ! i) = disk s ROOTDEV n"
    by (auto simp: busy_def dirty_def)
  obtain s' xs' where b: "brelse i s = Ret s'" "cache_inv s' xs'" "bview s' = bview s" "free_buf s' i"
      "caches s' i n" "disk s' = disk s" "curpid s' = curpid s" "flags (bufs s' ! i) = flags (bufs s ! i)"
      "\<forall>j. j \<noteq> i \<longrightarrow> same_buf (bufs s' ! j) (bufs s ! j)"
    using brelse_held [OF inv h] by blast
  note lf = log_fields [OF brelse_more [OF b(1)]]
  have lg: "logged s' = logged s" using lf by (simp add: logged_def)
  have ca: "caches s' j = caches s j" for j
    using b(5,9) h(2) by (cases "j = i") (auto simp: caches_def same_buf_def fun_eq_iff)
  have di: "dirty s' j = dirty s j" for j
    using b(8,9) by (cases "j = i") (auto simp: dirty_def same_buf_def)
  have "busy s' j" if "j \<in> H - {i}" for j
  proof -
    have "same_buf (bufs s' ! j) (bufs s ! j)" "busy s j" using b(9) that workD(3) [OF w] by auto
    then show ?thesis using b(6,7) ca di by (auto simp: busy_def held_def same_buf_def)
  qed
  moreover have "free_buf s' j" if "j < 30" "j \<notin> H - {i}" for j
  proof (cases "j = i")
    case False
    then have "same_buf (bufs s' ! j) (bufs s ! j)" "free_buf s j" using b(9) that workD(2) [OF w] by auto
    then show ?thesis by (simp add: same_buf_free)
  qed (use b(4) in simp)
  moreover have "\<exists>m \<in> set (logged s'). caches s' j m" if "j < 30" "dirty s' j" for j
    using that workD(4) [OF w] unfolding lg di ca by blast
  moreover have "\<exists>j. caches s' j m \<and> dirty s' j" if "m \<in> set (logged s')" for m
    using that workD(6) [OF w] unfolding lg di ca by blast
  ultimately have "work s' (H - {i})"
    unfolding lg by (intro work_carry [OF w brelse_more [OF b(1)] b(2)])
  moreover have "spent s s' 0"
    using spent_more [OF brelse_more [OF b(1)] b(7,6)] .
  ultimately show ?thesis using b(1,3) ca by blast
qed

lemma log_write_shape:
  assumes "log_write b s = Ret s'"
  shows "\<exists>n L. s' = upd_buf b (\<lambda>x. x\<lparr>flags := flags x OR B_DIRTY\<rparr>) (s\<lparr>lh_n := n, lh_block := L\<rparr>)"
proof (cases "find_index (\<lambda>x. word_of_int x = blockno (bufs s ! b)) (take (nat (lh_n s)) (lh_block s)) = None \<or>
    find_index (\<lambda>x. word_of_int x = blockno (bufs s ! b)) (take (nat (lh_n s)) (lh_block s)) = Some (nat (lh_n s))")
  case True
  then have "s' = upd_buf b (\<lambda>x. x\<lparr>flags := flags x OR B_DIRTY\<rparr>)
      (s\<lparr>lh_n := lh_n s + 1, lh_block := (lh_block s)[nat (lh_n s) := sint (blockno (bufs s ! b))]\<rparr>)"
    using assms by (auto simp: log_write_def Let_def upd_buf_def split: if_splits)
  then show ?thesis by blast
next
  case False
  then obtain i where "find_index (\<lambda>x. word_of_int x = blockno (bufs s ! b)) (take (nat (lh_n s)) (lh_block s)) = Some i"
      "i \<noteq> nat (lh_n s)" by auto
  then have "s' = upd_buf b (\<lambda>x. x\<lparr>flags := flags x OR B_DIRTY\<rparr>)
      (s\<lparr>lh_n := lh_n s, lh_block := (lh_block s)[i := sint (blockno (bufs s ! b))]\<rparr>)"
    using assms by (auto simp: log_write_def Let_def upd_buf_def split: if_splits)
  then show ?thesis by blast
qed

lemma work_log_write:
  assumes w: "work s H" and i: "i \<in> H" "caches s i n" and r: "0 < room s" "0 < lg_outstanding s" and ho: "home_ok (lg_start s) n"
  shows "\<exists>s'. log_write i (set_data i x s) = Ret s' \<and> work s' H \<and> bview s' = (bview s)(n := x) \<and> spent s s' 1 \<and>
    0 < lh_n s' \<and> (\<forall>j. caches s' j = caches s j)"
proof -
  obtain xs where inv: "cache_inv s xs" using workD(1) [OF w] by blast
  have len: "length (bufs s) = 31" by (rule cache_inv_len [OF inv])
  have bi: "busy s i" using workD(3) [OF w] i by simp
  then have h: "held s i" "bit (flags (bufs s ! i)) 1" "i < 30" by (auto simp: busy_def)
  let ?t = "set_data i x s"
  have t: "?t = upd_buf i (\<lambda>b. b\<lparr>data := x\<rparr>) s" by (simp add: set_data_def)
  note d = set_data_held [OF inv h(1) i(2) h(2) t]
  have ll: "0 \<le> lh_n ?t" "lh_n ?t < int LOGSIZE" "lh_n ?t < lg_size ?t - 1" "1 \<le> lg_outstanding ?t"
      "length (lh_block ?t) = LOGSIZE" "i < length (bufs ?t)"
    using workD(8,9) [OF w] r h(3) len by (auto simp: t room_def)
  obtain s' where l: "log_write i ?t = Ret s'" "length (lh_block s') = LOGSIZE"
      "lg_outstanding s' = lg_outstanding s" "lg_size s' = lg_size s"
      "logged s' = (if blockno (bufs ?t ! i) \<in> set (logged ?t) then logged ?t else logged ?t @ [blockno (bufs ?t ! i)])"
      "lh_n s' = (if blockno (bufs ?t ! i) \<in> set (logged ?t) then lh_n s else lh_n s + 1)"
    using log_write_ok [OF ll] by (auto simp: t)
  have n: "blockno (bufs ?t ! i) = n" "logged ?t = logged s"
    using i(2) len by (auto simp: t caches_def)
  obtain m L where s': "s' = upd_buf i (\<lambda>x. x\<lparr>flags := flags x OR B_DIRTY\<rparr>) (?t\<lparr>lh_n := m, lh_block := L\<rparr>)"
    using log_write_shape [OF l(1)] by blast
  let ?u = "?t\<lparr>lh_n := m, lh_block := L\<rparr>"
  have u: "cache_inv ?u xs" "held ?u i" "caches ?u i n" "bit (flags (bufs ?u ! i)) 1" "bview ?u = (bview s)(n := x)"
    using d h(2) by simp_all
  note f = set_dirty_held [OF u(1-4) s']
  have same: "bufs s' ! j = bufs s ! j" if "j \<noteq> i" for j using that by (simp add: s' t)
  have dk: "disk s' = disk s" "curpid s' = curpid s" by (simp_all add: s' t)
  have ca: "caches s' j = caches s j" for j
    using f(3) i(2) same [of j] by (cases "j = i") (auto simp: caches_def fun_eq_iff)
  have lg: "set (logged s') = insert n (set (logged s))" using l(5) n by auto
  have "busy s' j" if "j \<in> H" for j
  proof (cases "j = i")
    case True
    then show ?thesis using f(2,3,5) h(3) by (auto simp: busy_def dirty_def)
  next
    case False
    then have "busy s j" using workD(3) [OF w, of j] that by auto
    then show ?thesis using same [OF False] dk by (auto simp: busy_def held_def caches_def dirty_def)
  qed
  moreover have "free_buf s' j" if "j < 30" "j \<notin> H" for j
    using workD(2) [OF w, of j] that same [of j] i by (cases "j = i") (auto simp: free_buf_def)
  moreover have "\<exists>m \<in> set (logged s'). caches s' j m" if "j < 30" "dirty s' j" for j
  proof (cases "j = i")
    case True
    then show ?thesis using f(3) lg by auto
  next
    case False
    then have "dirty s j" using that same [OF False] by (simp add: dirty_def)
    then show ?thesis using workD(4) [OF w \<open>j < 30\<close>] lg ca by auto
  qed
  moreover have st: "lg_start s' = lg_start s" "lg_dev s' = lg_dev s" "lg_committing s' = lg_committing s"
    by (simp_all add: s' t upd_buf_def)
  moreover have "home_ok (lg_start s') m \<and> (\<exists>j. caches s' j m \<and> dirty s' j)" if "m \<in> set (logged s')" for m
  proof (cases "m = n")
    case True
    then show ?thesis using ho st f(3,5) by (auto simp: dirty_def)
  next
    case False
    then have "home_ok (lg_start s) m \<and> (\<exists>j. caches s j m \<and> dirty s j)" using that lg workD(5,6) [OF w] by auto
    then obtain j where "home_ok (lg_start s) m" "caches s j m" "dirty s j" by blast
    moreover have "dirty s' j" using \<open>dirty s j\<close> same [of j] f(5) by (cases "j = i") (auto simp: dirty_def)
    ultimately show ?thesis using ca st by auto
  qed
  moreover have "distinct (logged s')" using l(5) n workD(7) [OF w] by auto
  moreover have "0 \<le> lh_n s'" "lh_n s' \<le> int LOGSIZE" using l(6) workD(9) [OF w] r by (auto simp: room_def)
  ultimately have "work s' H" using f(1) l(2) unfolding work_def by blast
  moreover have "logsys.more s' = logsys.more s" by (simp add: s' t upd_buf_def)
  then have "spent s s' 1" using l dk st by (auto simp: spent_def room_def)
  moreover have "bview s' = (bview s)(n := x)" using f(4) u(5) by simp
  moreover have "0 < lh_n s'"
  proof (rule ccontr)
    assume "\<not> 0 < lh_n s'"
    then have "logged s' = []" by (simp add: logged_def)
    then show False using lg by auto
  qed
  ultimately show ?thesis using l(1) ca by blast
qed

text \<open>One block read, rewritten through the log and released.\<close>

lemma work_rewrite:
  assumes w: "work s H" and fin: "finite H" and n: "home_ok (lg_start s) n" "\<And>i. i \<in> H \<Longrightarrow> \<not> caches s i n"
    and r: "int (card H) < room s" "0 < lg_outstanding s"
  shows "\<exists>i s1 s2 s'. bread ROOTDEV n s = Ret (i, s1) \<and> data (bufs s1 ! i) = bview s n \<and> logsys.more s1 = logsys.more s \<and>
    log_write i (set_data i x s1) = Ret s2 \<and> brelse i s2 = Ret s' \<and>
    work s' H \<and> bview s' = (bview s)(n := x) \<and> spent s s' 1 \<and> 0 < lh_n s' \<and> (\<forall>j \<in> H. caches s' j = caches s j)"
proof -
  have "lh_n s + int (card H) < 30" using r(1) by (simp add: room_def LOGSIZE_def)
  moreover have "n < FSSIZE" using n(1) by (simp add: home_ok_def)
  ultimately obtain i s1 where b: "bread ROOTDEV n s = Ret (i, s1)" "work s1 (insert i H)"
      "i \<notin> H" "caches s1 i n" "data (bufs s1 ! i) = bview s n" "bview s1 = bview s" "spent s s1 0"
      "\<forall>j \<in> H. caches s1 j = caches s j" using work_bread [OF w fin _ n(2)] by blast
  have "0 < room s1" "0 < lg_outstanding s1" "home_ok (lg_start s1) n" using b(7) r n(1) by (auto simp: spent_def)
  from work_log_write [OF b(2) insertI1 b(4) this, of x] obtain s2 where l: "log_write i (set_data i x s1) = Ret s2"
      "work s2 (insert i H)" "bview s2 = (bview s)(n := x)" "spent s1 s2 1" "0 < lh_n s2" "\<forall>j. caches s2 j = caches s1 j"
    using b(6) by auto
  obtain s' where e: "brelse i s2 = Ret s'" "work s' (insert i H - {i})" "bview s' = bview s2" "spent s2 s' 0"
      "\<forall>j \<in> insert i H - {i}. caches s' j = caches s2 j"
    using work_brelse [OF l(2) insertI1] by blast
  have H: "insert i H - {i} = H" using b(3) by blast
  have "spent s s' 1" using spent_trans [OF spent_trans [OF b(7) l(4) order_refl] e(4), of 1] by simp
  moreover have "logsys.more s1 = logsys.more s" "lh_n s2 \<le> lh_n s'" using b(7) e(4) by (simp_all add: spent_def)
  ultimately show ?thesis using b l e unfolding H by auto
qed

text \<open>One block read and released.\<close>

lemma work_peek:
  assumes w: "work s H" and fin: "finite H" and n: "n < FSSIZE" "\<And>i. i \<in> H \<Longrightarrow> \<not> caches s i n"
    and r: "lh_n s + int (card H) < 30"
  shows "\<exists>i s1 s'. bread ROOTDEV n s = Ret (i, s1) \<and> data (bufs s1 ! i) = bview s n \<and> logsys.more s1 = logsys.more s \<and>
    brelse i s1 = Ret s' \<and> work s' H \<and> bview s' = bview s \<and> spent s s' 0 \<and> (\<forall>j \<in> H. caches s' j = caches s j)"
proof -
  from work_bread [OF w fin n r] obtain i s1 where b: "bread ROOTDEV n s = Ret (i, s1)" "work s1 (insert i H)"
      "i \<notin> H" "caches s1 i n" "data (bufs s1 ! i) = bview s n" "bview s1 = bview s" "spent s s1 0"
      "\<forall>j \<in> H. caches s1 j = caches s j" by blast
  obtain s' where e: "brelse i s1 = Ret s'" "work s' (insert i H - {i})" "bview s' = bview s1" "spent s1 s' 0"
      "\<forall>j \<in> insert i H - {i}. caches s' j = caches s1 j"
    using work_brelse [OF b(2) insertI1] by blast
  have H: "insert i H - {i} = H" using b(3) by blast
  have "spent s s' 0" using spent_trans [OF b(7) e(4), of 0] by simp
  moreover have "logsys.more s1 = logsys.more s" using b(7) by (simp add: spent_def)
  ultimately show ?thesis using b e unfolding H by auto
qed

end
