(* ===== verification/Blocks.thy ===== *)
theory Blocks
  imports Txn
begin

text \<open>
  The blocks of the file system inside a transaction: the bitmap, block allocation and release.
\<close>

subsection \<open>Free blocks\<close>

text \<open>Block \<open>b\<close> is marked in use in the bitmap.\<close>

definition used :: "(u32 \<Rightarrow> u8 list) \<Rightarrow> superblock \<Rightarrow> u32 \<Rightarrow> bool" where
  "used v sb b \<longleftrightarrow> bit_of (v (BBLOCK b sb)) (unat (b mod BPB))"

text \<open>The bitmap lies outside the log and marks in use its own blocks, the superblock and the log.\<close>

definition bitmap_ok :: "int \<Rightarrow> (u32 \<Rightarrow> u8 list) \<Rightarrow> superblock \<Rightarrow> bool" where
  "bitmap_ok st v sb \<longleftrightarrow> sb_size sb \<le> FSSIZE \<and> (\<forall>b < sb_size sb. \<not> home_ok st b \<longrightarrow> used v sb b) \<and>
     (\<forall>b < sb_size sb. BBLOCK b sb < sb_size sb \<and> home_ok st (BBLOCK b sb) \<and> used v sb (BBLOCK b sb) \<and>
        length (v (BBLOCK b sb)) = BSIZE)"

definition marked :: "(u32 \<Rightarrow> u8 list) \<Rightarrow> superblock \<Rightarrow> u32 \<Rightarrow> u8 list" where
  "marked v sb b = (let d = v (BBLOCK b sb); i = unat (b mod BPB) in d[i div 8 := d ! (i div 8) OR push_bit (i mod 8) 1])"

lemma free_bit_Some:
  "free_bit d b sz k bi = Some j \<Longrightarrow> bi \<le> j \<and> j < bi + k \<and> b + of_nat j < sz \<and> \<not> bit_of d j \<and> (\<forall>i. bi \<le> i \<and> i < j \<longrightarrow> bit_of d i)"
proof (induction k arbitrary: bi)
  case (Suc k)
  show ?case
  proof (cases "d ! (bi div 8) AND push_bit (bi mod 8) 1 = 0")
    case True
    then show ?thesis using Suc.prems by (auto simp: bit_of_def split: if_splits)
  next
    case False
    then have "free_bit d b sz k (Suc bi) = Some j" using Suc.prems by (auto split: if_splits)
    note f = Suc.IH [OF this]
    have "bit_of d i" if "bi \<le> i" "i < j" for i
      using f that False by (cases "i = bi") (auto simp: bit_of_def)
    then show ?thesis using f by auto
  qed
qed simp

lemma free_bit_None:
  assumes "free_bit d b sz k bi = None" and "unat b + bi + k < 2 ^ 32"
  shows "bi \<le> j \<Longrightarrow> j < bi + k \<Longrightarrow> b + of_nat j < sz \<Longrightarrow> bit_of d j"
  using assms
proof (induction k arbitrary: bi)
  case (Suc k)
  have "b + of_nat bi \<le> b + of_nat j"
    using Suc.prems by (simp add: word_le_nat_alt unat_plus_of_nat)
  then have lt: "b + of_nat bi < sz" using Suc.prems(3) by (rule order_le_less_trans)
  then have "d ! (bi div 8) AND push_bit (bi mod 8) 1 \<noteq> 0" "free_bit d b sz k (Suc bi) = None"
    using Suc.prems(4) by (auto split: if_splits)
  then show ?case
    using Suc.IH [of "Suc bi"] Suc.prems by (cases "j = bi") (auto simp: bit_of_def)
qed simp

lemma bitmap_index:
  fixes b :: u32
  assumes "unat b mod 4096 = 0" and "j < 4096" and "unat b + j < 2 ^ 32"
  shows "unat ((b + of_nat j) mod BPB) = j" and "BBLOCK (b + of_nat j) sb = BBLOCK b sb"
proof -
  have u: "unat (b + of_nat j) = unat b + j" by (rule unat_plus_of_nat [OF assms(3)])
  obtain q where q: "unat b = 4096 * q" using assms(1) by (metis mod_0_imp_dvd dvdE)
  have B: "unat BPB = 4096" by (simp add: BPB_def)
  show "unat ((b + of_nat j) mod BPB) = j" using assms(2) by (simp add: unat_mod u q B)
  have "unat ((b + of_nat j) div BPB) = unat (b div BPB)" using assms(2) by (simp add: unat_div u q B)
  then have "(b + of_nat j) div BPB = b div BPB" by (simp only: word_unat_eq_iff)
  then show "BBLOCK (b + of_nat j) sb = BBLOCK b sb" by (simp add: BBLOCK_def)
qed

lemma BBLOCK_eq: "BBLOCK b sb = BBLOCK c sb \<longleftrightarrow> b div BPB = c div BPB"
  by (simp add: BBLOCK_def)

lemma same_bit:
  fixes b c :: u32
  shows "b div BPB = c div BPB \<and> unat (b mod BPB) = unat (c mod BPB) \<longleftrightarrow> b = c"
  by (metis mod_div_mult_eq word_unat_eq_iff)

lemma bit_less: "unat (b mod BPB) div 8 < BSIZE"
proof -
  have "unat (b mod BPB) < 4096" by (simp add: unat_mod BPB_def)
  then show ?thesis by (simp add: BSIZE_def)
qed

text \<open>Marking a block: only its own bit changes.\<close>

lemma used_marked:
  assumes "length (v (BBLOCK b sb)) = BSIZE"
  shows "used (v(BBLOCK b sb := marked v sb b)) sb c \<longleftrightarrow> c = b \<or> used v sb c"
proof (cases "BBLOCK c sb = BBLOCK b sb")
  case True
  have l: "unat (b mod BPB) div 8 < length (v (BBLOCK b sb))" using bit_less [of b] assms by simp
  have "used (v(BBLOCK b sb := marked v sb b)) sb c \<longleftrightarrow> unat (b mod BPB) = unat (c mod BPB) \<or> used v sb c"
    using set_bit_of [OF l] True by (simp add: used_def marked_def Let_def)
  moreover have "unat (b mod BPB) = unat (c mod BPB) \<longleftrightarrow> c = b"
    using same_bit [of b c] True [unfolded BBLOCK_eq] by auto
  ultimately show ?thesis by blast
next
  case False
  then show ?thesis by (auto simp: used_def)
qed

lemma length_marked [simp]: "length (marked v sb b) = length (v (BBLOCK b sb))"
  by (simp add: marked_def Let_def)

text \<open>What \<^verbatim>\<open>balloc\<close> does to the blocks: the bit set, the block zeroed.\<close>

definition taken :: "(u32 \<Rightarrow> u8 list) \<Rightarrow> superblock \<Rightarrow> u32 \<Rightarrow> (u32 \<Rightarrow> u8 list)" where
  "taken v sb b = v(BBLOCK b sb := marked v sb b, b := replicate BSIZE 0)"

lemma used_taken:
  assumes "bitmap_ok st v sb" and "b < sb_size sb" and "\<not> used v sb b" and "c < sb_size sb"
  shows "used (taken v sb b) sb c \<longleftrightarrow> c = b \<or> used v sb c"
proof -
  have "BBLOCK c sb \<noteq> b" using assms unfolding bitmap_ok_def by blast
  then have "used (taken v sb b) sb c = used (v(BBLOCK b sb := marked v sb b)) sb c"
    by (simp add: used_def taken_def)
  then show ?thesis using used_marked assms unfolding bitmap_ok_def by blast
qed

lemma taken_other: "c \<noteq> b \<Longrightarrow> c \<noteq> BBLOCK b sb \<Longrightarrow> taken v sb b c = v c"
  by (simp add: taken_def)

lemma bitmap_ok_taken:
  assumes "bitmap_ok st v sb" and "b < sb_size sb" and "\<not> used v sb b"
  shows "bitmap_ok st (taken v sb b) sb"
proof -
  have "length (taken v sb b (BBLOCK c sb)) = BSIZE" if "c < sb_size sb" for c
    using assms that unfolding bitmap_ok_def taken_def by auto
  then show ?thesis using assms used_taken [OF assms] unfolding bitmap_ok_def by blast
qed

subsection \<open>\<^verbatim>\<open>balloc\<close>\<close>

lemma fsb_more: "logsys.more s' = logsys.more s \<Longrightarrow> fsb s' = fsb s \<and> inodes s' = inodes s \<and> devsw s' = devsw s \<and> fssys.more s' = fssys.more s"
  for s s' :: "'a fssys_scheme"
  by (cases s; cases s'; simp)

lemma bzero_ok:
  assumes w: "work s H" and fin: "finite H" and n: "home_ok (lg_start s) n" "\<And>i. i \<in> H \<Longrightarrow> \<not> caches s i n"
    and r: "int (card H) < room s" "0 < lg_outstanding s"
  shows "\<exists>s'. bzero ROOTDEV n s = Ret s' \<and> work s' H \<and> bview s' = (bview s)(n := replicate BSIZE 0) \<and>
    spent s s' 1 \<and> (\<forall>j \<in> H. caches s' j = caches s j)"
  using work_rewrite [OF assms, of "replicate BSIZE 0"] by (auto simp: bzero_def)

lemma balloc_from_ok:
  assumes "work s H" and fin: "finite H" and bm: "bitmap_ok (lg_start s) (bview s) (fsb s)"
    and r: "int (card H) + 1 < room s" "0 < lg_outstanding s"
    and H: "\<And>i b. i \<in> H \<Longrightarrow> caches s i b \<Longrightarrow> used (bview s) (fsb s) b \<and> (\<forall>c < sb_size (fsb s). b \<noteq> BBLOCK c (fsb s))"
    and b: "unat b mod 4096 = 0" "\<forall>c < b. used (bview s) (fsb s) c"
    and f: "f < sb_size (fsb s)" "\<not> used (bview s) (fsb s) f" "b \<le> f" "unat f < unat b + 4096 * n"
  shows "\<exists>a s'. balloc_from n ROOTDEV b s = Ret (a, s') \<and> a < sb_size (fsb s) \<and> \<not> used (bview s) (fsb s) a \<and>
    (\<forall>c < a. used (bview s) (fsb s) c) \<and> work s' H \<and> bview s' = taken (bview s) (fsb s) a \<and> spent s s' 2 \<and>
    (\<forall>j \<in> H. caches s' j = caches s j)"
  using assms
proof (induction n arbitrary: b s)
  case (Suc n)
  let ?sb = "fsb s" and ?v = "bview s"
  have bs: "b < sb_size ?sb" using Suc.prems by (simp add: order_le_less_trans)
  have szF: "sb_size ?sb \<le> FSSIZE" using Suc.prems by (simp add: bitmap_ok_def)
  have small: "unat b < 16400" using bs szF by (simp add: word_less_nat_alt word_le_nat_alt FSSIZE_def SWAP_BLOCKS_def)
  let ?B = "BBLOCK b ?sb"
  have hB: "home_ok (lg_start s) ?B" using Suc.prems(3) bs unfolding bitmap_ok_def by blast
  have B: "?B < FSSIZE" "\<And>i. i \<in> H \<Longrightarrow> \<not> caches s i ?B"
    using Suc.prems bs hB by (auto simp: home_ok_def)
  have bits: "used ?v ?sb (b + of_nat j) = bit_of (?v ?B) j" if "j < 4096" for j
    using bitmap_index [OF Suc.prems(7) that] small that by (simp add: used_def)
  have lh: "lh_n s + int (card H) < 30" using Suc.prems(4) by (simp add: room_def LOGSIZE_def)
  show ?case
  proof (cases "free_bit (?v ?B) b (sb_size ?sb) 4096 0")
    case None
    obtain i s1 s2 where p: "bread ROOTDEV ?B s = Ret (i, s1)" "data (bufs s1 ! i) = ?v ?B" "logsys.more s1 = logsys.more s"
      "brelse i s1 = Ret s2" "work s2 H" "bview s2 = ?v" "spent s s2 0" "\<forall>j \<in> H. caches s2 j = caches s j"
      using work_peek [OF Suc.prems(1,2) B lh] by blast
    have sb: "fsb s1 = ?sb" "fsb s2 = ?sb" and st: "lg_start s2 = lg_start s"
      using p(3,7) fsb_more by (auto simp: spent_def)
    have go: "balloc_from (Suc n) ROOTDEV b s = balloc_from n ROOTDEV (b + BPB) s2"
      using bs p(1,2,4) None sb by (simp add: BPB_def)
    have full: "used ?v ?sb (b + of_nat j)" if "j < 4096" "b + of_nat j < sb_size ?sb" for j
      using free_bit_None [OF None, of j] small that bits by simp
    have used: "used ?v ?sb c" if "c < sb_size ?sb" "unat c < unat b + 4096" for c
    proof (cases "c < b")
      case False
      then have "c = b + of_nat (unat c - unat b)"
        using small by (simp add: word_unat_eq_iff unat_plus_of_nat word_less_nat_alt)
      then show ?thesis using full [of "unat c - unat b"] that False by (simp add: word_less_nat_alt)
    qed (use Suc.prems(8) in blast)
    have ub: "unat (b + BPB) = unat b + 4096"
      using small unat_plus_of_nat [of b 4096] by (simp add: BPB_def)
    have bf: "b + BPB \<le> f"
      using used [OF Suc.prems(9)] Suc.prems(10) unfolding word_le_nat_alt ub by (meson not_less)
    have "int (card H) + 1 < room s2" "0 < lg_outstanding s2" using p(7) Suc.prems(4,5) by (auto simp: spent_def)
    moreover have "unat (b + BPB) mod 4096 = 0" using Suc.prems(7) by (simp add: ub)
    moreover have "\<forall>c < b + BPB. used ?v ?sb c"
    proof (intro allI impI)
      fix c assume c: "c < b + BPB"
      then have "c < sb_size ?sb" using bf Suc.prems(9) by (meson order_less_le_trans order_less_trans)
      then show "used ?v ?sb c" using used c by (simp add: word_less_nat_alt ub)
    qed
    moreover have "unat f < unat (b + BPB) + 4096 * n" using Suc.prems(12) by (simp add: ub)
    ultimately obtain a s' where "balloc_from n ROOTDEV (b + BPB) s2 = Ret (a, s') \<and> a < sb_size ?sb \<and> \<not> used ?v ?sb a \<and>
        (\<forall>c < a. used ?v ?sb c) \<and> work s' H \<and> bview s' = taken ?v ?sb a \<and> spent s2 s' 2 \<and>
        (\<forall>j \<in> H. caches s' j = caches s2 j)"
      using Suc.IH [of s2 "b + BPB"] Suc.prems(3,6,9,10) bf p(5,6,8) fin sb st by auto
    then show ?thesis using go p(7,8) spent_trans [OF p(7), of s' 2 2] by auto
  next
    case (Some j)
    note j = free_bit_Some [OF Some, simplified]
    let ?a = "b + of_nat j"
    have x: "marked ?v ?sb ?a = (?v ?B)[j div 8 := ?v ?B ! (j div 8) OR push_bit (j mod 8) 1]"
      using bitmap_index [OF Suc.prems(7), of j] j small by (simp add: marked_def Let_def)
    have Ba: "BBLOCK ?a ?sb = ?B" using bitmap_index [OF Suc.prems(7), of j] j small by simp
    have na: "\<not> used ?v ?sb ?a" "?a < sb_size ?sb" using bits [of j] j by auto
    have r1: "int (card H) < room s" using Suc.prems(4) by simp
    obtain i s1 s2 s3 where p: "bread ROOTDEV ?B s = Ret (i, s1)" "data (bufs s1 ! i) = ?v ?B" "logsys.more s1 = logsys.more s"
      "log_write i (set_data i (marked ?v ?sb ?a) s1) = Ret s2" "brelse i s2 = Ret s3" "work s3 H"
      "bview s3 = ?v(?B := marked ?v ?sb ?a)" "spent s s3 1" "\<forall>j \<in> H. caches s3 j = caches s j"
      using work_rewrite [OF Suc.prems(1,2) hB B(2) r1 Suc.prems(5)] by blast
    have sb: "fsb s1 = ?sb" using p(3) fsb_more by auto
    have "\<not> caches s3 i ?a" if "i \<in> H" for i using that p(9) na Suc.prems(6) by auto
    moreover have "int (card H) < room s3" "0 < lg_outstanding s3" using p(8) Suc.prems(4,5) by (auto simp: spent_def)
    moreover have "home_ok (lg_start s3) ?a"
      using na p(8) Suc.prems(3) unfolding bitmap_ok_def spent_def by metis
    ultimately obtain s' where z: "bzero ROOTDEV ?a s3 = Ret s'" "work s' H" "bview s' = (bview s3)(?a := replicate BSIZE 0)"
        "spent s3 s' 1" "\<forall>j \<in> H. caches s' j = caches s3 j"
      using bzero_ok [OF p(6) fin] by blast
    have "balloc_from (Suc n) ROOTDEV b s = Ret (?a, s')"
      using bs p(1,2,4,5) Some sb z(1) by (simp add: BPB_def x Let_def)
    moreover have "bview s' = taken ?v ?sb ?a" using z(3) p(7) Ba by (simp add: taken_def)
    moreover have "used ?v ?sb c" if "c < ?a" for c
    proof (cases "c < b")
      case False
      then have "c = b + of_nat (unat c - unat b)"
        using small by (simp add: word_unat_eq_iff unat_plus_of_nat word_less_nat_alt)
      moreover have "unat c - unat b < j"
        using that False small j unat_plus_of_nat [of b j] by (auto simp: word_less_nat_alt)
      ultimately show ?thesis using j bits [of "unat c - unat b"] by auto
    qed (use Suc.prems(8) in blast)
    ultimately show ?thesis using na z spent_trans [OF p(8) z(4), of 2] p(9) by auto
  qed
qed (simp add: word_le_nat_alt)

text \<open>Blocks no buffer in \<open>H\<close> stands in the way of allocation: they are in use, and not of the bitmap.\<close>

definition aside :: "'a fssys_scheme \<Rightarrow> nat set \<Rightarrow> bool" where
  "aside s H \<longleftrightarrow> finite H \<and> (\<forall>i \<in> H. \<forall>b. caches s i b \<longrightarrow> used (bview s) (fsb s) b \<and> (\<forall>c < sb_size (fsb s). b \<noteq> BBLOCK c (fsb s)))"

lemma aside_empty [simp]: "aside s {}"
  by (simp add: aside_def)

lemma balloc_ok:
  assumes w: "work s H" and bm: "bitmap_ok (lg_start s) (bview s) (fsb s)" and r: "int (card H) + 1 < room s" "0 < lg_outstanding s"
    and H: "aside s H" and f: "f < sb_size (fsb s)" "\<not> used (bview s) (fsb s) f"
  shows "\<exists>a s'. balloc ROOTDEV s = Ret (a, s') \<and> a < sb_size (fsb s) \<and> \<not> used (bview s) (fsb s) a \<and>
    (\<forall>c < a. used (bview s) (fsb s) c) \<and> work s' H \<and> bview s' = taken (bview s) (fsb s) a \<and> spent s s' 2 \<and>
    (\<forall>j \<in> H. caches s' j = caches s j)"
proof -
  have "unat f < unat (sb_size (fsb s))" using f(1) by (simp add: word_less_nat_alt)
  then have "unat f < unat (0 :: u32) + 4096 * (unat (sb_size (fsb s)) div 4096 + 2)" by simp
  then show ?thesis
    unfolding balloc_def by (intro balloc_from_ok [OF w _ bm r _ _ _ f]) (use H in \<open>auto simp: aside_def\<close>)
qed

lemma balloc_from_full:
  assumes "work s {}" and bm: "bitmap_ok (lg_start s) (bview s) (fsb s)" and "0 < room s"
    and "unat b mod 4096 = 0" and "\<forall>c < sb_size (fsb s). used (bview s) (fsb s) c"
    and "unat (sb_size (fsb s)) + 4096 \<le> unat b + 4096 * n" and "unat b < unat (sb_size (fsb s)) + 4096"
  shows "balloc_from n ROOTDEV b s = Panic ''balloc: out of blocks''"
  using assms
proof (induction n arbitrary: b s)
  case (Suc n)
  let ?sb = "fsb s" and ?v = "bview s" and ?B = "BBLOCK b (fsb s)"
  show ?case
  proof (cases "b < sb_size ?sb")
    case True
    have szF: "sb_size ?sb \<le> FSSIZE" using Suc.prems by (simp add: bitmap_ok_def)
    have small: "unat b < 16400" using True szF by (simp add: word_less_nat_alt word_le_nat_alt FSSIZE_def SWAP_BLOCKS_def)
    have B: "?B < FSSIZE" using Suc.prems True unfolding bitmap_ok_def home_ok_def by blast
    have lh: "lh_n s + int (card ({} :: nat set)) < 30" using Suc.prems(3) by (simp add: room_def LOGSIZE_def)
    have "free_bit (?v ?B) b (sb_size ?sb) 4096 0 = None"
    proof (cases "free_bit (?v ?B) b (sb_size ?sb) 4096 0")
      case (Some j)
      note j = free_bit_Some [OF Some, simplified]
      then have "\<not> used ?v ?sb (b + of_nat j)"
        using bitmap_index [OF Suc.prems(4), of j] small by (simp add: used_def)
      then show ?thesis using j Suc.prems(5) by blast
    qed
    moreover obtain i s1 s2 where p: "bread ROOTDEV ?B s = Ret (i, s1)" "data (bufs s1 ! i) = ?v ?B" "logsys.more s1 = logsys.more s"
      "brelse i s1 = Ret s2" "work s2 {}" "bview s2 = ?v" "spent s s2 0"
      using work_peek [OF Suc.prems(1) _ B _ lh] by blast
    moreover have sb: "fsb s1 = ?sb" "fsb s2 = ?sb" using p(3,7) fsb_more by (auto simp: spent_def)
    ultimately have "balloc_from (Suc n) ROOTDEV b s = balloc_from n ROOTDEV (b + BPB) s2"
      using True by (simp add: BPB_def)
    moreover have ub: "unat (b + BPB) = unat b + 4096"
      using small unat_plus_of_nat [of b 4096] by (simp add: BPB_def)
    ultimately show ?thesis
      using Suc.IH [OF p(5), of "b + BPB"] Suc.prems p(6,7) True sb by (simp add: spent_def word_less_nat_alt)
  qed simp
qed simp

lemma balloc_full:
  assumes "work s {}" and "bitmap_ok (lg_start s) (bview s) (fsb s)" and "0 < room s" and "\<forall>c < sb_size (fsb s). used (bview s) (fsb s) c"
  shows "balloc ROOTDEV s = Panic ''balloc: out of blocks''"
  unfolding balloc_def by (rule balloc_from_full) (use assms in simp_all)

subsection \<open>\<^verbatim>\<open>bfree\<close>\<close>

lemma clear_bit_of:
  assumes "i div 8 < length d"
  shows "bit_of (d[i div 8 := d ! (i div 8) AND NOT (push_bit (i mod 8) 1)]) j \<longleftrightarrow> i \<noteq> j \<and> bit_of d j"
proof (cases "i div 8 = j div 8")
  case True
  have "bit (push_bit (i mod 8) 1 :: u8) (j mod 8) \<longleftrightarrow> i mod 8 = j mod 8"
    by (auto simp: bit_simps)
  moreover have "i mod 8 = j mod 8 \<longleftrightarrow> i = j" using True by (metis div_mult_mod_eq)
  ultimately show ?thesis using True assms
    by (auto simp: bit_of_iff bit_and_iff bit_not_iff_eq intro: bit_imp_le_length dest: bit_imp_le_length)
next
  case False
  then show ?thesis by (auto simp: bit_of_iff)
qed

definition cleared :: "(u32 \<Rightarrow> u8 list) \<Rightarrow> superblock \<Rightarrow> u32 \<Rightarrow> (u32 \<Rightarrow> u8 list)" where
  "cleared v sb b = (let d = v (BBLOCK b sb); i = unat (b mod BPB)
     in v(BBLOCK b sb := d[i div 8 := d ! (i div 8) AND NOT (push_bit (i mod 8) 1)]))"

lemma used_cleared:
  assumes "length (v (BBLOCK b sb)) = BSIZE"
  shows "used (cleared v sb b) sb c \<longleftrightarrow> c \<noteq> b \<and> used v sb c"
proof (cases "BBLOCK c sb = BBLOCK b sb")
  case True
  have l: "unat (b mod BPB) div 8 < length (v (BBLOCK b sb))" using bit_less [of b] assms by simp
  have "used (cleared v sb b) sb c \<longleftrightarrow> unat (b mod BPB) \<noteq> unat (c mod BPB) \<and> used v sb c"
    using clear_bit_of [OF l] True by (simp add: used_def cleared_def Let_def)
  moreover have "unat (b mod BPB) = unat (c mod BPB) \<longleftrightarrow> c = b"
    using same_bit [of b c] True [unfolded BBLOCK_eq] by auto
  ultimately show ?thesis by blast
next
  case False
  then show ?thesis by (auto simp: used_def cleared_def Let_def)
qed

lemma bfree_ok:
  assumes w: "work s {}" and bm: "bitmap_ok (lg_start s) (bview s) (fsb s)" and r: "0 < room s" "0 < lg_outstanding s"
    and b: "b < sb_size (fsb s)" "used (bview s) (fsb s) b"
  shows "\<exists>s'. bfree ROOTDEV b s = Ret s' \<and> work s' {} \<and> bview s' = cleared (bview s) (fsb s) b \<and> spent s s' 1"
proof -
  let ?B = "BBLOCK b (fsb s)" and ?v = "bview s" and ?i = "unat (b mod BPB)"
  let ?x = "(?v ?B)[?i div 8 := ?v ?B ! (?i div 8) AND NOT (push_bit (?i mod 8) 1)]"
  have B: "home_ok (lg_start s) ?B" using bm b unfolding bitmap_ok_def by blast
  obtain i s1 s2 s3 where p: "bread ROOTDEV ?B s = Ret (i, s1)" "data (bufs s1 ! i) = ?v ?B" "logsys.more s1 = logsys.more s"
      "log_write i (set_data i ?x s1) = Ret s2" "brelse i s2 = Ret s3" "work s3 {}"
      "bview s3 = ?v(?B := ?x)" "spent s s3 1"
    using work_rewrite [OF w _ B _ _ r(2), of ?x] r(1) by auto
  have "?v ?B ! (?i div 8) AND push_bit (?i mod 8) 1 \<noteq> 0" using b(2) by (simp add: used_def bit_of_def)
  then show ?thesis using p by (simp add: bfree_def Let_def cleared_def)
qed

end
