(* ===== verification/Inode.thy ===== *)
theory Inode
  imports Blocks
begin

text \<open>
  The blocks of a file: \<open>slot v p k\<close> is the address of block \<open>k\<close> of inode \<open>p\<close> as the blocks \<open>v\<close> have it,
  0 when there is none, and slot \<^verbatim>\<open>MAXFILE\<close> is the indirect block.  \<^verbatim>\<open>bmap\<close> fills slots.
\<close>

definition slot :: "(u32 \<Rightarrow> u8 list) \<Rightarrow> inode \<Rightarrow> nat \<Rightarrow> u32" where
  "slot v p k =
     (if k < NDIRECT then addrs p ! k else if k = MAXFILE then addrs p ! NDIRECT
      else if addrs p ! NDIRECT = 0 then 0 else get32 (v (addrs p ! NDIRECT)) (4 * (k - NDIRECT)))"

text \<open>A block a file may own: in use, and neither log, superblock, bitmap nor inodes.\<close>

definition data_block :: "int \<Rightarrow> (u32 \<Rightarrow> u8 list) \<Rightarrow> superblock \<Rightarrow> u32 \<Rightarrow> bool" where
  "data_block st v sb b \<longleftrightarrow> b < sb_size sb \<and> used v sb b \<and> home_ok st b \<and> length (v b) = BSIZE \<and>
     (\<forall>c < sb_size sb. b \<noteq> BBLOCK c sb) \<and> (\<forall>i < sb_ninodes sb. b \<noteq> IBLOCK i sb)"

definition fs_ok :: "int \<Rightarrow> (u32 \<Rightarrow> u8 list) \<Rightarrow> superblock \<Rightarrow> bool" where
  "fs_ok st v sb \<longleftrightarrow> bitmap_ok st v sb \<and> used v sb 0 \<and>
     (\<forall>i < sb_ninodes sb. IBLOCK i sb < sb_size sb \<and> home_ok st (IBLOCK i sb) \<and> used v sb (IBLOCK i sb) \<and>
        length (v (IBLOCK i sb)) = BSIZE \<and> (\<forall>c < sb_size sb. IBLOCK i sb \<noteq> BBLOCK c sb))"

definition file_ok :: "int \<Rightarrow> (u32 \<Rightarrow> u8 list) \<Rightarrow> superblock \<Rightarrow> inode \<Rightarrow> bool" where
  "file_ok st v sb p \<longleftrightarrow> idev p = ROOTDEV \<and> length (addrs p) = 13 \<and>
     (\<forall>k \<le> MAXFILE. slot v p k \<noteq> 0 \<longrightarrow> data_block st v sb (slot v p k)) \<and>
     (\<forall>j \<le> MAXFILE. \<forall>k \<le> MAXFILE. slot v p j = slot v p k \<longrightarrow> slot v p j \<noteq> 0 \<longrightarrow> j = k)"

definition frees :: "(u32 \<Rightarrow> u8 list) \<Rightarrow> superblock \<Rightarrow> nat" where
  "frees v sb = card {b. b < sb_size sb \<and> \<not> used v sb b}"

text \<open>The blocks of the file stay its blocks, new ones were free; the blocks of other files and the inodes stay as they
  are; at most \<open>c\<close> free blocks go.\<close>

definition keeps :: "int \<Rightarrow> superblock \<Rightarrow> nat \<Rightarrow> (u32 \<Rightarrow> u8 list) \<Rightarrow> inode \<Rightarrow> (u32 \<Rightarrow> u8 list) \<Rightarrow> inode \<Rightarrow> bool" where
  "keeps st sb c v p v' p' \<longleftrightarrow> fs_ok st v' sb \<and> file_ok st v' sb p' \<and> p' = p\<lparr>addrs := addrs p'\<rparr> \<and>
     (\<forall>j \<le> MAXFILE. slot v p j \<noteq> 0 \<longrightarrow> slot v' p' j = slot v p j) \<and>
     (\<forall>j \<le> MAXFILE. slot v p j = 0 \<longrightarrow> slot v' p' j \<noteq> 0 \<longrightarrow> \<not> used v sb (slot v' p' j)) \<and>
     (\<forall>b. data_block st v sb b \<longrightarrow> (\<forall>j \<le> MAXFILE. b \<noteq> slot v p j) \<longrightarrow> v' b = v b \<and> data_block st v' sb b) \<and>
     (\<forall>i < sb_ninodes sb. v' (IBLOCK i sb) = v (IBLOCK i sb)) \<and>
     (\<forall>b < sb_size sb. used v sb b \<longrightarrow> used v' sb b) \<and> frees v sb \<le> frees v' sb + c"

lemma keepsD:
  assumes "keeps st sb c v p v' p'"
  shows "fs_ok st v' sb" and "file_ok st v' sb p'" and "p' = p\<lparr>addrs := addrs p'\<rparr>"
    and "j \<le> MAXFILE \<Longrightarrow> slot v p j \<noteq> 0 \<Longrightarrow> slot v' p' j = slot v p j"
    and "j \<le> MAXFILE \<Longrightarrow> slot v p j = 0 \<Longrightarrow> slot v' p' j \<noteq> 0 \<Longrightarrow> \<not> used v sb (slot v' p' j)"
    and "data_block st v sb b \<Longrightarrow> (\<And>j. j \<le> MAXFILE \<Longrightarrow> b \<noteq> slot v p j) \<Longrightarrow> v' b = v b \<and> data_block st v' sb b"
    and "i < sb_ninodes sb \<Longrightarrow> v' (IBLOCK i sb) = v (IBLOCK i sb)"
    and "b < sb_size sb \<Longrightarrow> used v sb b \<Longrightarrow> used v' sb b" and "frees v sb \<le> frees v' sb + c"
  using assms unfolding keeps_def by blast+

text \<open>Slot \<open>k\<close> is filled, with a new zeroed block if it was empty; the contents of the file's blocks stay.\<close>

definition fills :: "int \<Rightarrow> superblock \<Rightarrow> nat \<Rightarrow> nat \<Rightarrow> (u32 \<Rightarrow> u8 list) \<Rightarrow> inode \<Rightarrow> (u32 \<Rightarrow> u8 list) \<Rightarrow> inode \<Rightarrow> bool" where
  "fills st sb k c v p v' p' \<longleftrightarrow> keeps st sb c v p v' p' \<and> slot v' p' k \<noteq> 0 \<and>
     (\<forall>j \<le> MAXFILE. j \<noteq> k \<longrightarrow> j \<noteq> MAXFILE \<longrightarrow> slot v' p' j = slot v p j) \<and>
     (\<forall>j < MAXFILE. slot v p j \<noteq> 0 \<longrightarrow> v' (slot v p j) = v (slot v p j)) \<and>
     (slot v p k = 0 \<longrightarrow> k < MAXFILE \<longrightarrow> v' (slot v' p' k) = replicate BSIZE 0) \<and> (slot v p k \<noteq> 0 \<longrightarrow> v' = v \<and> p' = p)"

lemma fillsD:
  assumes "fills st sb k c v p v' p'"
  shows "keeps st sb c v p v' p'" and "slot v' p' k \<noteq> 0"
    and "j \<le> MAXFILE \<Longrightarrow> j \<noteq> k \<Longrightarrow> j \<noteq> MAXFILE \<Longrightarrow> slot v' p' j = slot v p j"
    and "j < MAXFILE \<Longrightarrow> slot v p j \<noteq> 0 \<Longrightarrow> v' (slot v p j) = v (slot v p j)"
    and "slot v p k = 0 \<Longrightarrow> k < MAXFILE \<Longrightarrow> v' (slot v' p' k) = replicate BSIZE 0"
    and "slot v p k \<noteq> 0 \<Longrightarrow> v' = v \<and> p' = p"
  using assms unfolding fills_def by blast+

lemma keeps_trans:
  assumes 1: "keeps st sb c v p t q" and 2: "keeps st sb d t q v' p'"
  shows "keeps st sb (c + d) v p v' p'"
proof -
  note a = keepsD [OF 1] and b = keepsD [OF 2]
  have 3: "slot v' p' j = slot v p j" if "j \<le> MAXFILE" "slot v p j \<noteq> 0" for j
    using a(4) [OF that] b(4) [of j] that by simp
  have 4: "\<not> used v sb (slot v' p' j)" if "j \<le> MAXFILE" "slot v p j = 0" "slot v' p' j \<noteq> 0" for j
  proof (cases "slot t q j = 0")
    case True
    have "slot v' p' j < sb_size sb" using b(2) that by (auto simp: file_ok_def data_block_def)
    then show ?thesis using b(5) [OF that(1) True that(3)] a(8) by blast
  next
    case False
    then show ?thesis using b(4) [OF that(1)] a(5) [OF that(1,2)] by simp
  qed
  have 5: "v' b = v b \<and> data_block st v' sb b" if d: "data_block st v sb b" "\<forall>j \<le> MAXFILE. b \<noteq> slot v p j" for b
  proof -
    have t: "t b = v b" "data_block st t sb b" using a(6) d by auto
    have "b \<noteq> slot t q j" if j: "j \<le> MAXFILE" for j
    proof (cases "slot v p j = 0")
      case True
      then have "slot t q j = 0 \<or> \<not> used v sb (slot t q j)" using a(5) [OF j] by blast
      moreover have "b \<noteq> 0" using d(2) True j by auto
      ultimately show ?thesis using d(1) by (auto simp: data_block_def)
    qed (use a(4) [OF j] d(2) j in simp)
    then show ?thesis using b(6) [OF t(2)] t(1) by simp
  qed
  have 6: "p' = p\<lparr>addrs := addrs p'\<rparr>" using a(3) b(3) by (metis inode.update_convs(11) inode.surjective)
  show ?thesis unfolding keeps_def using 3 4 5 6 a(7-9) b(1,2,7-9) by auto
qed

lemma keeps_refl: "fs_ok st v sb \<Longrightarrow> file_ok st v sb p \<Longrightarrow> keeps st sb c v p v p"
  by (simp add: keeps_def)

lemma keeps_mono: "keeps st sb c v p v' p' \<Longrightarrow> c \<le> d \<Longrightarrow> keeps st sb d v p v' p'"
  unfolding keeps_def by auto

lemma fills_same:
  assumes "fs_ok st v sb" and "file_ok st v sb p" and "slot v p k \<noteq> 0"
  shows "fills st sb k c v p v p"
  using assms by (simp add: fills_def keeps_refl)

lemma frees_taken:
  assumes "bitmap_ok st v sb" and "a < sb_size sb" and "\<not> used v sb a"
  shows "frees v sb = frees (taken v sb a) sb + 1"
proof -
  have "{b. b < sb_size sb \<and> \<not> used v sb b} = insert a {b. b < sb_size sb \<and> \<not> used (taken v sb a) sb b}"
    using used_taken [OF assms] assms by auto
  moreover have "a \<notin> {b. b < sb_size sb \<and> \<not> used (taken v sb a) sb b}"
    using used_taken [OF assms assms(2)] by simp
  ultimately show ?thesis by (simp add: frees_def)
qed

lemma frees_pos: "0 < frees v sb \<Longrightarrow> \<exists>b < sb_size sb. \<not> used v sb b"
  unfolding frees_def card_gt_0_iff by auto

text \<open>A fresh block is like the blocks a file may own; taking it leaves the others.\<close>

lemma fresh_block:
  assumes fs: "fs_ok st v sb" and a: "a < sb_size sb" "\<not> used v sb a"
  shows "a \<noteq> 0" and "data_block st (taken v sb a) sb a" and "fs_ok st (taken v sb a) sb"
    and "taken v sb a a = replicate BSIZE 0"
    and "data_block st v sb b \<Longrightarrow> data_block st (taken v sb a) sb b \<and> taken v sb a b = v b \<and> b \<noteq> a"
    and "i < sb_ninodes sb \<Longrightarrow> taken v sb a (IBLOCK i sb) = v (IBLOCK i sb)"
proof -
  have bm: "bitmap_ok st v sb" and z: "used v sb 0" using fs by (simp_all add: fs_ok_def)
  note ut = used_taken [OF bm a]
  show "a \<noteq> 0" using z a by auto
  have nb: "a \<noteq> BBLOCK c sb" if "c < sb_size sb" for c using bm a(2) that unfolding bitmap_ok_def by blast
  have ni: "a \<noteq> IBLOCK i sb" if "i < sb_ninodes sb" for i using fs a(2) that unfolding fs_ok_def by blast
  have "home_ok st a" using bm a unfolding bitmap_ok_def by blast
  moreover show ta: "taken v sb a a = replicate BSIZE 0" by (simp add: taken_def)
  ultimately show "data_block st (taken v sb a) sb a"
    using ut [OF a(1)] a nb ni unfolding data_block_def by simp
  show ib: "taken v sb a (IBLOCK i sb) = v (IBLOCK i sb)" if "i < sb_ninodes sb" for i
    using fs that ni [OF that] a(1) by (intro taken_other) (auto simp: fs_ok_def)
  have "used (taken v sb a) sb 0" using ut [of 0] z a(1) by (metis order_le_less_trans word_zero_le)
  then show "fs_ok st (taken v sb a) sb"
    using fs ib bitmap_ok_taken [OF bm a] ut unfolding fs_ok_def by auto
  show "data_block st (taken v sb a) sb b \<and> taken v sb a b = v b \<and> b \<noteq> a" if d: "data_block st v sb b" for b
  proof -
    have b: "b \<noteq> a" "b \<noteq> BBLOCK a sb" "b < sb_size sb" using d a unfolding data_block_def by auto
    then show ?thesis using d ut [OF b(3)] by (simp add: data_block_def taken_other)
  qed
qed

text \<open>Storing into a data block touches neither bitmap nor inodes.\<close>

lemma store_block:
  assumes fs: "fs_ok st v sb" and d: "data_block st v sb b" and x: "length x = BSIZE"
  shows "c < sb_size sb \<Longrightarrow> used (v(b := x)) sb c = used v sb c" and "fs_ok st (v(b := x)) sb"
    and "data_block st (v(b := x)) sb c = data_block st v sb c" and "frees (v(b := x)) sb = frees v sb"
    and "i < sb_ninodes sb \<Longrightarrow> (v(b := x)) (IBLOCK i sb) = v (IBLOCK i sb)"
proof -
  have ut: "used (v(b := x)) sb c = used v sb c" if "c < sb_size sb" for c
    using d that by (auto simp: used_def data_block_def)
  then show "c < sb_size sb \<Longrightarrow> used (v(b := x)) sb c = used v sb c" .
  show ib: "i < sb_ninodes sb \<Longrightarrow> (v(b := x)) (IBLOCK i sb) = v (IBLOCK i sb)" for i
    using d by (auto simp: data_block_def)
  have "0 < sb_size sb" using d unfolding data_block_def by (metis order_le_less_trans word_zero_le)
  moreover have "length ((v(b := x)) (BBLOCK c sb)) = BSIZE" if "c < sb_size sb" for c
    using fs that x by (simp add: fs_ok_def bitmap_ok_def)
  ultimately show "fs_ok st (v(b := x)) sb"
    using fs ib ut unfolding fs_ok_def bitmap_ok_def by auto
  show "data_block st (v(b := x)) sb c = data_block st v sb c"
    using ut [of c] d x by (auto simp: data_block_def)
  have "{c. c < sb_size sb \<and> \<not> used (v(b := x)) sb c} = {c. c < sb_size sb \<and> \<not> used v sb c}" using ut by auto
  then show "frees (v(b := x)) sb = frees v sb" by (simp add: frees_def)
qed

lemma file_okD:
  assumes "file_ok st v sb p"
  shows "idev p = ROOTDEV" and "length (addrs p) = 13"
    and "k \<le> MAXFILE \<Longrightarrow> slot v p k \<noteq> 0 \<Longrightarrow> data_block st v sb (slot v p k)"
    and "j \<le> MAXFILE \<Longrightarrow> k \<le> MAXFILE \<Longrightarrow> slot v p j = slot v p k \<Longrightarrow> slot v p j \<noteq> 0 \<Longrightarrow> j = k"
  using assms unfolding file_ok_def by blast+

lemma fills_new:
  assumes fs: "fs_ok st v sb" and ok: "file_ok st v sb p" and k: "k \<le> MAXFILE" "slot v p k = 0"
    and a: "a < sb_size sb" "\<not> used v sb a"
    and p': "p' = p\<lparr>addrs := addrs p'\<rparr>" "length (addrs p') = 13"
    and v': "v' = taken v sb a \<or> slot v p MAXFILE \<noteq> 0 \<and> k \<noteq> MAXFILE \<and> (\<exists>x. length x = BSIZE \<and> v' = (taken v sb a)(slot v p MAXFILE := x))"
    and sl: "\<And>j. j \<le> MAXFILE \<Longrightarrow> slot v' p' j = (if j = k then a else slot v p j)"
  shows "fills st sb k 1 v p v' p'"
proof -
  let ?t = "taken v sb a"
  note f = fresh_block [OF fs a]
  have bm: "bitmap_ok st v sb" using fs by (simp add: fs_ok_def)
  have dt: "data_block st ?t sb (slot v p j) \<and> ?t (slot v p j) = v (slot v p j) \<and> slot v p j \<noteq> a"
    if "j \<le> MAXFILE" "slot v p j \<noteq> 0" for j
    using f(5) file_okD(3) [OF ok that] by blast
  have v: "fs_ok st v' sb" "data_block st v' sb b = data_block st ?t sb b" "frees v' sb = frees ?t sb"
      "c < sb_size sb \<Longrightarrow> used v' sb c = used ?t sb c"
      "i < sb_ninodes sb \<Longrightarrow> v' (IBLOCK i sb) = v (IBLOCK i sb)" for b c i
    using v' f(3,6) store_block [OF f(3)] dt [of MAXFILE] by auto
  have other: "v' b = ?t b" if "slot v p MAXFILE = 0 \<or> k = MAXFILE \<or> b \<noteq> slot v p MAXFILE" for b
    using v' that by auto
  have data: "v' (slot v p j) = v (slot v p j)" if "j < MAXFILE" "slot v p j \<noteq> 0" for j
  proof -
    have "slot v p MAXFILE = 0 \<or> slot v p j \<noteq> slot v p MAXFILE" using file_okD(4) [OF ok, of j MAXFILE] that by auto
    then have "v' (slot v p j) = ?t (slot v p j)" using other by blast
    then show ?thesis using dt [of j] that by simp
  qed
  have new: "v' a = replicate BSIZE 0" using other [of a] dt [of MAXFILE] f(4) by auto
  have "file_ok st v' sb p'"
    unfolding file_ok_def
  proof (intro conjI allI impI)
    show "idev p' = ROOTDEV" using file_okD(1) [OF ok] p'(1) by (metis inode.select_convs(1) inode.surjective inode.update_convs(11))
    fix j assume j: "j \<le> MAXFILE"
    then show "data_block st v' sb (slot v' p' j)" if "slot v' p' j \<noteq> 0"
      using that dt [OF j] f(2) sl [OF j] v(2) by (auto split: if_splits)
    fix l assume "l \<le> MAXFILE" "slot v' p' j = slot v' p' l" "slot v' p' j \<noteq> 0"
    then show "j = l"
      using sl j dt [of j] dt [of l] file_okD(4) [OF ok j, of l] by (auto split: if_splits)
  qed (use p' in simp)
  moreover have "v' b = v b \<and> data_block st v' sb b" if "data_block st v sb b" "\<forall>j \<le> MAXFILE. b \<noteq> slot v p j" for b
    using f(5) [OF that(1)] other [of b] that(2) v(2) by simp
  moreover have "frees v sb \<le> frees v' sb + 1" using frees_taken [OF bm a] v(3) by simp
  ultimately show ?thesis
    using v(1,4,5) used_taken [OF bm a] p'(1) sl k f(1) a(2) data new unfolding fills_def keeps_def by simp
qed

lemma get32_zero: "k + 3 < n \<Longrightarrow> get32 (replicate n 0) k = 0"
  by (simp add: get32_def)

lemma slot_direct: "k < NDIRECT \<Longrightarrow> slot v p k = addrs p ! k"
  and slot_ind: "slot v p MAXFILE = addrs p ! NDIRECT"
  and slot_entry: "NDIRECT \<le> k \<Longrightarrow> k < MAXFILE \<Longrightarrow> slot v p k =
    (if addrs p ! NDIRECT = 0 then 0 else get32 (v (addrs p ! NDIRECT)) (4 * (k - NDIRECT)))"
  by (simp_all add: slot_def MAXFILE_def NINDIRECT_def)

lemma fill_direct:
  assumes fs: "fs_ok st v sb" and ok: "file_ok st v sb p" and a: "a < sb_size sb" "\<not> used v sb a"
    and k: "k < NDIRECT" "addrs p ! k = 0"
  shows "fills st sb k 1 v p (taken v sb a) (p\<lparr>addrs := (addrs p)[k := a]\<rparr>)"
proof (rule fills_new [OF fs ok _ _ a _ _ disjI1 [OF refl]])
  let ?p = "p\<lparr>addrs := (addrs p)[k := a]\<rparr>"
  have l: "length (addrs p) = 13" by (rule file_okD(2) [OF ok])
  have i: "addrs ?p ! NDIRECT = addrs p ! NDIRECT" using k by simp
  have same: "taken v sb a (addrs p ! NDIRECT) = v (addrs p ! NDIRECT)" if "addrs p ! NDIRECT \<noteq> 0"
    using fresh_block(5) [OF fs a file_okD(3) [OF ok, of MAXFILE]] that by (simp add: slot_ind)
  fix j assume j: "j \<le> MAXFILE"
  consider "j < NDIRECT" | "j = MAXFILE" | "NDIRECT \<le> j" "j < MAXFILE" using j by linarith
  then show "slot (taken v sb a) ?p j = (if j = k then a else slot v p j)"
  proof cases
    case 2
    then show ?thesis using i k by (simp add: slot_ind) (simp add: MAXFILE_def)
  qed (use k l i same in \<open>simp_all add: slot_direct slot_entry nth_list_update NDIRECT_def\<close>)
qed (use k file_okD(2) [OF ok] in \<open>simp_all add: slot_direct MAXFILE_def\<close>)

lemma fill_indirect:
  assumes fs: "fs_ok st v sb" and ok: "file_ok st v sb p" and a: "a < sb_size sb" "\<not> used v sb a"
    and k: "addrs p ! NDIRECT = 0"
  shows "fills st sb MAXFILE 1 v p (taken v sb a) (p\<lparr>addrs := (addrs p)[NDIRECT := a]\<rparr>)"
proof (rule fills_new [OF fs ok _ _ a _ _ disjI1 [OF refl]])
  let ?p = "p\<lparr>addrs := (addrs p)[NDIRECT := a]\<rparr>"
  have l: "length (addrs p) = 13" by (rule file_okD(2) [OF ok])
  fix j assume j: "j \<le> MAXFILE"
  consider "j < NDIRECT" | "j = MAXFILE" | "NDIRECT \<le> j" "j < MAXFILE" using j by linarith
  then show "slot (taken v sb a) ?p j = (if j = MAXFILE then a else slot v p j)"
  proof cases
    case 3
    then show ?thesis using k l fresh_block(4) [OF fs a]
      by (simp add: slot_entry NDIRECT_def MAXFILE_def NINDIRECT_def get32_zero BSIZE_def)
  qed (use k l in \<open>simp_all add: slot_direct slot_ind, simp_all add: MAXFILE_def NDIRECT_def\<close>)
qed (use k file_okD(2) [OF ok] in \<open>simp_all add: slot_ind\<close>)

lemma fill_entry:
  assumes fs: "fs_ok st v sb" and ok: "file_ok st v sb p" and a: "a < sb_size sb" "\<not> used v sb a"
    and k: "NDIRECT \<le> k" "k < MAXFILE" "addrs p ! NDIRECT \<noteq> 0" "slot v p k = 0"
  shows "fills st sb k 1 v p ((taken v sb a)(addrs p ! NDIRECT := put32 (v (addrs p ! NDIRECT)) (4 * (k - NDIRECT)) a)) p"
proof (rule fills_new [OF fs ok _ k(4) a _ _ disjI2])
  let ?x = "put32 (v (addrs p ! NDIRECT)) (4 * (k - NDIRECT)) a"
  have l: "length (v (addrs p ! NDIRECT)) = BSIZE"
    using file_okD(3) [OF ok, of MAXFILE] k by (simp add: slot_ind data_block_def)
  then show "slot v p MAXFILE \<noteq> 0 \<and> k \<noteq> MAXFILE \<and> (\<exists>x. length x = BSIZE \<and>
      (taken v sb a)(addrs p ! NDIRECT := ?x) = (taken v sb a)(slot v p MAXFILE := x))"
    using k by (intro conjI exI [of _ ?x]) (simp_all add: slot_ind)
  fix j assume j: "j \<le> MAXFILE"
  have b: "4 * (k - NDIRECT) + 3 < length (v (addrs p ! NDIRECT))"
    using k l by (simp add: BSIZE_def NDIRECT_def MAXFILE_def NINDIRECT_def)
  consider "j < NDIRECT" | "j = MAXFILE" | "NDIRECT \<le> j" "j < MAXFILE" using j by linarith
  then show "slot ((taken v sb a)(addrs p ! NDIRECT := ?x)) p j = (if j = k then a else slot v p j)"
  proof cases
    case 3
    show ?thesis
    proof (cases "j = k")
      case False
      then have "4 * (k - NDIRECT) + 3 < 4 * (j - NDIRECT) \<or> 4 * (j - NDIRECT) + 3 < 4 * (k - NDIRECT)"
        using 3 k by linarith
      then show ?thesis using 3 k False by (simp add: slot_entry)
    qed (use 3 k b in \<open>simp add: slot_entry\<close>)
  qed (use k in \<open>simp_all add: slot_direct slot_ind\<close>)
qed (use k file_okD(2) [OF ok] in simp_all)

text \<open>Filling the indirect block first.\<close>

lemma fills_comp:
  assumes 1: "fills st sb MAXFILE c v p t q" and 2: "fills st sb k d t q v' p'" and k: "k < MAXFILE" "slot v p MAXFILE = 0"
      "slot v p k = 0"
  shows "fills st sb k (c + d) v p v' p'"
proof -
  note a = fillsD [OF 1] and b = fillsD [OF 2]
  have tk: "slot t q k = 0" using a(3) [of k] k by simp
  have old: "v' (slot v p j) = v (slot v p j)" if "j < MAXFILE" "slot v p j \<noteq> 0" for j
    using keepsD(4) [OF a(1), of j] a(4) [OF that] b(4) [of j] that by simp
  have other: "slot v' p' j = slot v p j" if "j \<le> MAXFILE" "j \<noteq> k" "j \<noteq> MAXFILE" for j
    using a(3) [of j] b(3) [of j] that by simp
  show ?thesis
    unfolding fills_def using keeps_trans [OF a(1) b(1)] old other b(2,5) tk k(3) by auto
qed

subsection \<open>\<^verbatim>\<open>bmap\<close>\<close>

lemma inodes_frame [simp]:
  "work (s\<lparr>inodes := x\<rparr>) H = work s H" "bview (s\<lparr>inodes := x\<rparr>) = bview s" "room (s\<lparr>inodes := x\<rparr>) = room s"
  for s :: "'a fssys_scheme"
  by (simp_all add: work_def busy_def cache_inv_def bio_ring_def free_buf_def held_def clean_def dirty_valid_def Let_def
      caches_def dirty_def logged_def bview_def fun_eq_iff room_def cong: option.case_cong)

lemma upd_inode_frame [simp]:
  "work (upd_inode ip f s) H = work s H" "bview (upd_inode ip f s) = bview s" "room (upd_inode ip f s) = room s"
  "lg_outstanding (upd_inode ip f s) = lg_outstanding s" "lg_start (upd_inode ip f s) = lg_start s"
  "fsb (upd_inode ip f s) = fsb s" "length (inodes (upd_inode ip f s)) = length (inodes s)"
  "ip < length (inodes s) \<Longrightarrow> inodes (upd_inode ip f s) ! ip = f (inodes s ! ip)"
  by (simp_all add: upd_inode_def)

text \<open>From \<open>s\<close> to \<open>s'\<close> at most \<open>k\<close> blocks were logged, and of the inodes in memory only \<open>ip\<close> changed.\<close>

definition ispent :: "'a fssys_scheme \<Rightarrow> 'a fssys_scheme \<Rightarrow> nat \<Rightarrow> int \<Rightarrow> bool" where
  "ispent s s' ip k \<longleftrightarrow> spent s (s'\<lparr>inodes := inodes s\<rparr>) k \<and> (\<exists>p. inodes s' = (inodes s)[ip := p])"

lemma ispent_spent: "spent s s' k \<Longrightarrow> ispent s s' ip k"
proof -
  assume a: "spent s s' k"
  then have "inodes s' = inodes s" using fsb_more by (auto simp: spent_def)
  then show ?thesis using a unfolding ispent_def by (metis fssys.surjective fssys.update_convs(2) list_update_id)
qed

lemma ispentD:
  assumes "ispent s s' ip k"
  shows "room s - k \<le> room s'" and "lg_outstanding s' = lg_outstanding s" and "lg_start s' = lg_start s" and "fsb s' = fsb s"
    and "length (inodes s') = length (inodes s)" and "j \<noteq> ip \<Longrightarrow> inodes s' ! j = inodes s ! j"
  using assms by (auto simp: ispent_def spent_def dest!: fsb_more)

lemma ispent_upd: "ispent s s' ip k \<Longrightarrow> ispent s (upd_inode ip f s') ip k"
  by (auto simp: ispent_def upd_inode_def)

lemma ispent_trans:
  assumes "ispent s t ip j" and "ispent t u ip k" and "j + k \<le> l"
  shows "ispent s u ip l"
proof -
  have "spent s (t\<lparr>inodes := inodes s\<rparr>) j" "spent t (u\<lparr>inodes := inodes t\<rparr>) k"
    using assms by (simp_all add: ispent_def)
  moreover have "logsys.more (t\<lparr>inodes := inodes s\<rparr>) = logsys.more s \<Longrightarrow>
      logsys.more (u\<lparr>inodes := inodes t\<rparr>) = logsys.more t \<Longrightarrow> logsys.more (u\<lparr>inodes := inodes s\<rparr>) = logsys.more s"
    by (cases s; cases t; cases u; simp)
  ultimately have "spent s (u\<lparr>inodes := inodes s\<rparr>) l" using assms(3) by (simp add: spent_def)
  moreover obtain p q where "inodes t = (inodes s)[ip := p]" "inodes u = (inodes t)[ip := q]"
    using assms by (auto simp: ispent_def)
  then have "inodes u = (inodes s)[ip := q]" by simp
  ultimately show ?thesis by (auto simp: ispent_def)
qed

text \<open>Allocating a block for address \<open>i\<close> of the inode.\<close>

lemma balloc_addr:
  assumes w: "work s {}" and fs: "fs_ok (lg_start s) (bview s) (fsb s)" and ip: "ip < length (inodes s)"
    and r: "1 < room s" "0 < lg_outstanding s" and f: "0 < frees (bview s) (fsb s)"
  shows "\<exists>a s1 s'. balloc ROOTDEV s = Ret (a, s1) \<and> s' = upd_inode ip (\<lambda>p. p\<lparr>addrs := (addrs p)[i := a]\<rparr>) s1 \<and>
    a < sb_size (fsb s) \<and> \<not> used (bview s) (fsb s) a \<and> work s' {} \<and> bview s' = taken (bview s) (fsb s) a \<and>
    ispent s s' ip 2 \<and> inodes s' ! ip = (inodes s ! ip)\<lparr>addrs := (addrs (inodes s ! ip))[i := a]\<rparr>"
proof -
  have bm: "bitmap_ok (lg_start s) (bview s) (fsb s)" using fs by (simp add: fs_ok_def)
  have r0: "int (card ({} :: nat set)) + 1 < room s" using r(1) by simp
  obtain f where f: "f < sb_size (fsb s)" "\<not> used (bview s) (fsb s) f" using frees_pos [OF f] by blast
  obtain a s1 where b: "balloc ROOTDEV s = Ret (a, s1)" "a < sb_size (fsb s)" "\<not> used (bview s) (fsb s) a"
      "work s1 {}" "bview s1 = taken (bview s) (fsb s) a" "spent s s1 2"
    using balloc_ok [OF w bm r0 r(2) aside_empty f] by blast
  have "inodes s1 = inodes s" using b(6) fsb_more by (auto simp: spent_def)
  then show ?thesis using b ip ispent_upd [OF ispent_spent [OF b(6)]] by auto
qed

lemma work_spentD:
  assumes "spent s s' k"
  shows "lg_start s' = lg_start s" and "fsb s' = fsb s" and "inodes s' = inodes s" and "lg_outstanding s' = lg_outstanding s"
    and "room s - k \<le> room s'"
  using assms by (auto simp: spent_def dest!: fsb_more)

lemma bmap_hit:
  assumes w: "work s {}" and ok: "file_ok (lg_start s) (bview s) (fsb s) (inodes s ! ip)" and k: "unat bn < MAXFILE"
    and hit: "slot (bview s) (inodes s ! ip) (unat bn) \<noteq> 0" and r: "lh_n s < 30"
  shows "\<exists>s'. bmap ip bn s = Ret (slot (bview s) (inodes s ! ip) (unat bn), s') \<and> work s' {} \<and> bview s' = bview s \<and> spent s s' 0"
proof (cases "unat bn < NDIRECT")
  case True
  then show ?thesis using hit w by (simp add: bmap_def Let_def slot_direct)
next
  case False
  let ?p = "inodes s ! ip"
  have e: "addrs ?p ! NDIRECT \<noteq> 0" "slot (bview s) ?p (unat bn) = get32 (bview s (addrs ?p ! NDIRECT)) (4 * (unat bn - NDIRECT))"
    using hit False k by (auto simp: slot_entry split: if_splits)
  have "addrs ?p ! NDIRECT < FSSIZE"
    using file_okD(3) [OF ok, of MAXFILE] e by (simp add: slot_ind data_block_def home_ok_def)
  moreover have "lh_n s + int (card ({} :: nat set)) < 30" using r by simp
  ultimately obtain i s1 s' where "bread ROOTDEV (addrs ?p ! NDIRECT) s = Ret (i, s1)" "data (bufs s1 ! i) = bview s (addrs ?p ! NDIRECT)"
      "brelse i s1 = Ret s'" "work s' {}" "bview s' = bview s" "spent s s' 0"
    using work_peek [OF w _ _ _ ] by blast
  moreover have "unat bn - NDIRECT < NINDIRECT" using k False by (simp add: MAXFILE_def)
  ultimately show ?thesis using e hit False file_okD(1) [OF ok] by (simp add: bmap_def Let_def)
qed

lemma bmap_entry:
  assumes w: "work s {}" and fs: "fs_ok (lg_start s) (bview s) (fsb s)" and ok: "file_ok (lg_start s) (bview s) (fsb s) (inodes s ! ip)"
    and k: "NDIRECT \<le> k" "k < MAXFILE" and ind: "addrs (inodes s ! ip) ! NDIRECT = ind" "ind \<noteq> 0"
    and miss: "slot (bview s) (inodes s ! ip) k = 0"
    and r: "2 < room s" "0 < lg_outstanding s" and f: "0 < frees (bview s) (fsb s)"
  shows "\<exists>i s1 a s2 s3 s'. bread ROOTDEV ind s = Ret (i, s1) \<and> get32 (data (bufs s1 ! i)) (4 * (k - NDIRECT)) = 0 \<and>
    balloc ROOTDEV s1 = Ret (a, s2) \<and>
    log_write i (set_data i (put32 (data (bufs s2 ! i)) (4 * (k - NDIRECT)) a) s2) = Ret s3 \<and> brelse i s3 = Ret s' \<and>
    work s' {} \<and> spent s s' 3 \<and> a = slot (bview s') (inodes s' ! ip) k \<and>
    fills (lg_start s) (fsb s) k 1 (bview s) (inodes s ! ip) (bview s') (inodes s' ! ip)"
proof -
  let ?p = "inodes s ! ip" and ?v = "bview s" and ?sb = "fsb s"
  have d: "data_block (lg_start s) ?v ?sb ind"
    using file_okD(3) [OF ok, of MAXFILE] ind by (simp add: slot_ind)
  then have i: "ind < FSSIZE" "home_ok (lg_start s) ind" by (simp_all add: data_block_def home_ok_def)
  have "lh_n s + int (card ({} :: nat set)) < 30" using r(1) by (simp add: room_def LOGSIZE_def)
  from work_bread [OF w _ i(1) _ this] obtain i s1 where b: "bread ROOTDEV ind s = Ret (i, s1)" "work s1 {i}"
      "caches s1 i ind" "data (bufs s1 ! i) = ?v ind" "bview s1 = ?v" "spent s s1 0"
    by auto
  note e1 = work_spentD [OF b(6)]
  have zero: "get32 (?v ind) (4 * (k - NDIRECT)) = 0" using miss k ind by (simp add: slot_entry)
  have "aside s1 {i}"
    using b(3,5) d e1(2) by (auto simp: aside_def data_block_def caches_def)
  moreover obtain c where "c < sb_size (fsb s1)" "\<not> used (bview s1) (fsb s1) c"
    using frees_pos [OF f] b(5) e1(2) by auto
  moreover have "bitmap_ok (lg_start s1) (bview s1) (fsb s1)" using fs b(5) e1 by (simp add: fs_ok_def)
  moreover have "int (card {i}) + 1 < room s1" "0 < lg_outstanding s1" using e1 r by auto
  ultimately obtain a s2 where a: "balloc ROOTDEV s1 = Ret (a, s2)" "a < sb_size ?sb" "\<not> used ?v ?sb a"
      "work s2 {i}" "bview s2 = taken ?v ?sb a" "spent s1 s2 2" "caches s2 i = caches s1 i"
    using balloc_ok [OF b(2)] unfolding e1 b(5) by blast
  note e2 = work_spentD [OF a(6)]
  have c2: "caches s2 i ind" using a(7) b(3) by simp
  have ia: "taken ?v ?sb a ind = ?v ind" using fresh_block(5) [OF fs a(2,3) d] by simp
  have d2: "data (bufs s2 ! i) = ?v ind" using work_held_data [OF a(4) _ c2] a(5) ia by simp
  have "0 < room s2" "0 < lg_outstanding s2" "home_ok (lg_start s2) ind" using e1 e2 r i by auto
  from work_log_write [OF a(4) _ c2 this, of "put32 (data (bufs s2 ! i)) (4 * (k - NDIRECT)) a"] obtain s3 where
      l: "log_write i (set_data i (put32 (data (bufs s2 ! i)) (4 * (k - NDIRECT)) a) s2) = Ret s3" "work s3 {i}"
      "bview s3 = (bview s2)(ind := put32 (?v ind) (4 * (k - NDIRECT)) a)" "spent s2 s3 1"
    using d2 by auto
  obtain s' where e: "brelse i s3 = Ret s'" "work s' {}" "bview s' = bview s3" "spent s3 s' 0"
    using work_brelse [OF l(2)] by auto
  have sp: "spent s s' 3"
    using spent_trans [OF spent_trans [OF spent_trans [OF b(6) a(6) order_refl] l(4) order_refl] e(4), of 3] by simp
  have v': "bview s' = (taken ?v ?sb a)(ind := put32 (?v ind) (4 * (k - NDIRECT)) a)" using e(3) l(3) a(5) by simp
  have F: "fills (lg_start s) ?sb k 1 ?v ?p (bview s') (inodes s' ! ip)"
    using fill_entry [OF fs ok a(2,3) k _ miss] ind unfolding v' work_spentD(3) [OF sp] by simp
  have "4 * (k - NDIRECT) + 3 < length (?v ind)"
    using d k by (simp add: data_block_def BSIZE_def NDIRECT_def MAXFILE_def NINDIRECT_def)
  then have "slot (bview s') (inodes s' ! ip) k = a"
    using k ind unfolding work_spentD(3) [OF sp] by (simp add: slot_entry v')
  then show ?thesis using b(1,4) a(1) l(1) e(1,2) sp F zero by auto
qed

lemma fills_mono: "fills st sb k c v p v' p' \<Longrightarrow> c \<le> d \<Longrightarrow> fills st sb k d v p v' p'"
  unfolding fills_def by (blast intro: keeps_mono)

lemma ispent_mono: "ispent s t ip j \<Longrightarrow> j \<le> k \<Longrightarrow> ispent s t ip k"
  by (auto simp: ispent_def spent_def)

lemma bmap_fills:
  assumes w: "work s {}" and fs: "fs_ok (lg_start s) (bview s) (fsb s)" and ip: "ip < length (inodes s)"
    and ok: "file_ok (lg_start s) (bview s) (fsb s) (inodes s ! ip)" and k: "unat bn < MAXFILE"
    and r: "4 < room s" "0 < lg_outstanding s" and f: "1 < frees (bview s) (fsb s)"
  shows "\<exists>a s'. bmap ip bn s = Ret (a, s') \<and> a = slot (bview s') (inodes s' ! ip) (unat bn) \<and> work s' {} \<and> ispent s s' ip 5 \<and>
    fills (lg_start s) (fsb s) (unat bn) 2 (bview s) (inodes s ! ip) (bview s') (inodes s' ! ip)"
proof (cases "slot (bview s) (inodes s ! ip) (unat bn) = 0")
  case False
  have "lh_n s < 30" using r by (simp add: room_def LOGSIZE_def)
  from bmap_hit [OF w ok k False this] obtain s' where b:
      "bmap ip bn s = Ret (slot (bview s) (inodes s ! ip) (unat bn), s')" "work s' {}" "bview s' = bview s" "spent s s' 0"
    by blast
  have "fills (lg_start s) (fsb s) (unat bn) 2 (bview s) (inodes s ! ip) (bview s') (inodes s' ! ip)"
    using fills_same [OF fs ok False] work_spentD(3) [OF b(4)] b(3) by simp
  then show ?thesis
    using b work_spentD(3) [OF b(4)] ispent_mono [OF ispent_spent [OF b(4)]] by (intro exI [of _ s'] exI) auto
next
  case miss: True
  let ?p = "inodes s ! ip" and ?v = "bview s" and ?sb = "fsb s" and ?k = "unat bn"
  have dev: "idev ?p = ROOTDEV" and l: "length (addrs ?p) = 13" using file_okD [OF ok] by blast+
  show ?thesis
  proof (cases "?k < NDIRECT")
    case True
    obtain a s1 s' where b: "balloc ROOTDEV s = Ret (a, s1)" "s' = upd_inode ip (\<lambda>p. p\<lparr>addrs := (addrs p)[?k := a]\<rparr>) s1"
        "a < sb_size ?sb" "\<not> used ?v ?sb a" "work s' {}" "bview s' = taken ?v ?sb a" "ispent s s' ip 2"
        "inodes s' ! ip = ?p\<lparr>addrs := (addrs ?p)[?k := a]\<rparr>"
      using balloc_addr [OF w fs ip _ r(2), of ?k] r(1) f by auto
    have z: "addrs ?p ! ?k = 0" using miss True by (simp add: slot_direct)
    have "fills (lg_start s) ?sb ?k 1 ?v ?p (bview s') (inodes s' ! ip)"
      unfolding b(6,8) by (rule fill_direct [OF fs ok b(3,4) True z])
    moreover have "bmap ip bn s = Ret (a, s')" using True z b(1,2) dev by (simp add: bmap_def Let_def)
    moreover have "a = slot (bview s') (inodes s' ! ip) ?k" using True l by (simp add: slot_direct b(8) NDIRECT_def)
    ultimately show ?thesis
      using b(5) ispent_mono [OF b(7), of 5] fills_mono [of _ _ _ 1 _ _ _ _ 2] by (intro exI [of _ s'] exI [of _ a]) auto
  next
    case False
    then have kn: "NDIRECT \<le> ?k" "?k - NDIRECT < NINDIRECT" using k by (simp_all add: MAXFILE_def)
    show ?thesis
    proof (cases "addrs ?p ! NDIRECT = 0")
      case ind: False
      have r2: "2 < room s" and f1: "0 < frees ?v ?sb" using r f by auto
      from bmap_entry [OF w fs ok kn(1) k refl ind miss r2 r(2) f1] obtain i s1 a s2 s3 s' where
          b: "bread ROOTDEV (addrs ?p ! NDIRECT) s = Ret (i, s1)" "get32 (data (bufs s1 ! i)) (4 * (?k - NDIRECT)) = 0"
          "balloc ROOTDEV s1 = Ret (a, s2)"
          "log_write i (set_data i (put32 (data (bufs s2 ! i)) (4 * (?k - NDIRECT)) a) s2) = Ret s3" "brelse i s3 = Ret s'"
          "work s' {}" "spent s s' 3" "a = slot (bview s') (inodes s' ! ip) ?k"
          "fills (lg_start s) ?sb ?k 1 ?v ?p (bview s') (inodes s' ! ip)"
        by blast
      have "bmap ip bn s = Ret (a, s')" using False kn ind dev b(1-5) by (simp add: bmap_def Let_def)
      then show ?thesis
        using b(6,8,9) ispent_mono [OF ispent_spent [OF b(7)], of 5] fills_mono [of _ _ _ 1 _ _ _ _ 2]
        by (intro exI [of _ s'] exI [of _ a]) auto
    next
      case ind: True
      obtain c s1 t where c: "balloc ROOTDEV s = Ret (c, s1)" "t = upd_inode ip (\<lambda>p. p\<lparr>addrs := (addrs p)[NDIRECT := c]\<rparr>) s1"
          "c < sb_size ?sb" "\<not> used ?v ?sb c" "work t {}" "bview t = taken ?v ?sb c" "ispent s t ip 2"
          "inodes t ! ip = ?p\<lparr>addrs := (addrs ?p)[NDIRECT := c]\<rparr>"
        using balloc_addr [OF w fs ip _ r(2), of NDIRECT] r(1) f by auto
      note e = ispentD [OF c(7)]
      have F1: "fills (lg_start s) ?sb MAXFILE 1 ?v ?p (bview t) (inodes t ! ip)"
        unfolding c(6,8) by (rule fill_indirect [OF fs ok c(3,4) ind])
      note d = fillsD [OF F1] and kp = keepsD [OF fillsD(1) [OF F1]]
      have ct: "addrs (inodes t ! ip) ! NDIRECT = c" "c \<noteq> 0"
        using l fresh_block(1) [OF fs c(3,4)] by (simp_all add: c(8) NDIRECT_def)
      have miss': "slot (bview t) (inodes t ! ip) ?k = 0" using d(3) [of ?k] k miss by simp
      have P: "fs_ok (lg_start t) (bview t) (fsb t)" "file_ok (lg_start t) (bview t) (fsb t) (inodes t ! ip)"
          "2 < room t" "0 < lg_outstanding t" "0 < frees (bview t) (fsb t)"
        using kp(1,2,9) e(1-4) r f by auto
      from bmap_entry [OF c(5) P(1,2) kn(1) k ct miss' P(3-5)] obtain i s1' a s2 s3 s' where
          b: "bread ROOTDEV c t = Ret (i, s1')" "get32 (data (bufs s1' ! i)) (4 * (?k - NDIRECT)) = 0"
          "balloc ROOTDEV s1' = Ret (a, s2)"
          "log_write i (set_data i (put32 (data (bufs s2 ! i)) (4 * (?k - NDIRECT)) a) s2) = Ret s3" "brelse i s3 = Ret s'"
          "work s' {}" "spent t s' 3" "a = slot (bview s') (inodes s' ! ip) ?k"
          "fills (lg_start t) (fsb t) ?k 1 (bview t) (inodes t ! ip) (bview s') (inodes s' ! ip)"
        by blast
      have "bmap ip bn s = Ret (a, s')"
        using False kn ind dev b(1-5) c(1,2) by (simp add: bmap_def Let_def)
      moreover have "fills (lg_start s) ?sb ?k (1 + 1) ?v ?p (bview s') (inodes s' ! ip)"
        by (rule fills_comp [OF F1 b(9) [unfolded e(3,4)] k _ miss]) (simp add: slot_ind ind)
      moreover have "ispent s s' ip 5" by (rule ispent_trans [OF c(7) ispent_spent [OF b(7)]]) simp
      ultimately show ?thesis using b(6,8) by (intro exI [of _ s'] exI [of _ a]) (simp add: numeral_2_eq_2)
    qed
  qed
qed

end
