(* ===== verification/Content.thy ===== *)
theory Content
  imports Inode
begin

text \<open>
  The contents of a file as bytes: \<^verbatim>\<open>readi\<close> returns them, \<^verbatim>\<open>writei\<close> replaces a range of them and extends the
  file at its end.
\<close>

definition fbyte :: "(u32 \<Rightarrow> u8 list) \<Rightarrow> inode \<Rightarrow> nat \<Rightarrow> u8" where
  "fbyte v p i = v (slot v p (i div BSIZE)) ! (i mod BSIZE)"

definition content :: "(u32 \<Rightarrow> u8 list) \<Rightarrow> inode \<Rightarrow> u8 list" where
  "content v p = map (fbyte v p) [0..<unat (isize p)]"

text \<open>A file has no holes.\<close>

definition full :: "(u32 \<Rightarrow> u8 list) \<Rightarrow> inode \<Rightarrow> bool" where
  "full v p \<longleftrightarrow> unat (isize p) \<le> MAXFILE * BSIZE \<and> (\<forall>i < unat (isize p). slot v p (i div BSIZE) \<noteq> 0)"

lemma in_block:
  assumes "off mod BSIZE + i < BSIZE"
  shows "(off + i) div BSIZE = off div BSIZE" and "(off + i) mod BSIZE = off mod BSIZE + i"
proof -
  have e: "off + i = off mod BSIZE + i + off div BSIZE * BSIZE" by simp
  have nz: "BSIZE \<noteq> 0" by (simp add: BSIZE_def)
  show "(off + i) div BSIZE = off div BSIZE" using assms by (subst e, subst div_mult_self1 [OF nz]) simp
  show "(off + i) mod BSIZE = off mod BSIZE + i" using assms by (subst e, subst mod_mult_self1) simp
qed

lemma chunk_bytes:
  assumes "length (v (slot v p (off div BSIZE))) = BSIZE" and "m \<le> BSIZE - off mod BSIZE"
  shows "take m (drop (off mod BSIZE) (v (slot v p (off div BSIZE)))) = map (fbyte v p) [off..<off + m]"
proof (rule nth_equalityI)
  fix i assume "i < length (take m (drop (off mod BSIZE) (v (slot v p (off div BSIZE)))))"
  then have i: "i < m" by simp
  have "off mod BSIZE + i < BSIZE" using i assms(2) by simp
  note in_block [OF this]
  then show "take m (drop (off mod BSIZE) (v (slot v p (off div BSIZE)))) ! i = map (fbyte v p) [off..<off + m] ! i"
    using i assms by (simp add: fbyte_def)
qed (use assms in simp)

lemma unat_chunk:
  fixes r off :: u32
  shows "unat (min r (512 - off mod 512)) = min (unat r) (BSIZE - unat off mod BSIZE)"
proof -
  have "off mod 512 < 512" by (simp add: word_less_nat_alt unat_mod)
  then have "unat (512 - off mod 512) = BSIZE - unat off mod BSIZE"
    by (simp add: unat_sub_if' word_less_nat_alt unat_mod BSIZE_def)
  then show ?thesis by (simp add: min_def word_le_nat_alt)
qed

lemma unat_add_small: "unat a + unat b < 2 ^ 32 \<Longrightarrow> unat (a + b) = unat a + unat b" for a b :: u32
  by (simp add: unat_word_ariths)

lemma unat_off:
  fixes off :: u32
  shows "unat (off div 512) = unat off div BSIZE" and "unat (off mod 512) = unat off mod BSIZE"
  by (simp_all add: unat_div unat_mod BSIZE_def)

lemma block_in_file: "i < MAXFILE * BSIZE \<Longrightarrow> i div BSIZE < MAXFILE"
  by (simp add: BSIZE_def less_mult_imp_div_less)

lemma read_loop_ok:
  assumes "work s {}" and "file_ok (lg_start s) (bview s) (fsb s) (inodes s ! ip)" and "lh_n s < 30"
    and "unat off + unat r \<le> MAXFILE * BSIZE"
    and "\<And>i. unat off \<le> i \<Longrightarrow> i < unat off + unat r \<Longrightarrow> slot (bview s) (inodes s ! ip) (i div BSIZE) \<noteq> 0"
  shows "\<exists>s'. read_loop ip off r s = Ret (map (fbyte (bview s) (inodes s ! ip)) [unat off..<unat off + unat r], s') \<and>
    work s' {} \<and> bview s' = bview s \<and> spent s s' 0"
  using assms
proof (induction "unat r" arbitrary: off r s rule: less_induct)
  case less
  show ?case
  proof (cases "r = 0")
    case True
    then show ?thesis using less.prems(1) by (simp add: read_loop.simps)
  next
    case False
    let ?v = "bview s" and ?p = "inodes s ! ip" and ?k = "unat off div BSIZE"
    let ?m = "min r (512 - off mod 512)"
    have rp: "0 < unat r" using False by (simp add: word_gt_0 unat_gt_0)
    have k: "?k < MAXFILE" using less.prems(4) rp by (intro block_in_file) linarith
    have nz: "slot ?v ?p ?k \<noteq> 0" using less.prems(5) [of "unat off"] rp by simp
    have db: "data_block (lg_start s) ?v (fsb s) (slot ?v ?p ?k)"
      using file_okD(3) [OF less.prems(2) _ nz] k by simp
    from bmap_hit [OF less.prems(1,2), of "off div 512"] k nz less.prems(3) obtain s1 where
        b: "bmap ip (off div 512) s = Ret (slot ?v ?p ?k, s1)" "work s1 {}" "bview s1 = ?v" "spent s s1 0"
      by (auto simp: unat_off)
    note e1 = work_spentD [OF b(4)]
    have lh: "lh_n s1 + int (card ({} :: nat set)) < 30"
      using b(4) less.prems(3) by (auto simp: spent_def room_def)
    have F: "slot ?v ?p ?k < FSSIZE" using db by (simp add: data_block_def home_ok_def)
    obtain i s2 s3 where c: "bread ROOTDEV (slot ?v ?p ?k) s1 = Ret (i, s2)" "data (bufs s2 ! i) = ?v (slot ?v ?p ?k)"
        "brelse i s2 = Ret s3" "work s3 {}" "bview s3 = ?v" "spent s1 s3 0"
      using work_peek [OF b(2) _ F _ lh] unfolding b(3) by blast
    note e3 = work_spentD [OF c(6)]
    have sp: "spent s s3 0" using spent_trans [OF b(4) c(6), of 0] by simp
    have m: "unat ?m = min (unat r) (BSIZE - unat off mod BSIZE)" by (rule unat_chunk)
    have bytes: "take (unat ?m) (drop (unat (off mod 512)) (data (bufs s2 ! i))) = map (fbyte ?v ?p) [unat off..<unat off + unat ?m]"
      unfolding c(2) unat_off(2) by (rule chunk_bytes) (use db m in \<open>simp_all add: data_block_def\<close>)
    have lt: "unat (r - ?m) < unat r" by (rule chunk_less(1) [OF False])
    have r': "unat (r - ?m) = unat r - unat ?m" by (rule unat_sub) simp
    have mr: "unat ?m \<le> unat r" using m by simp
    have off': "unat (off + ?m) = unat off + unat ?m"
      using less.prems(4) mr by (intro unat_add_small) (simp add: MAXFILE_def NDIRECT_def NINDIRECT_def BSIZE_def)
    have "\<exists>s'. read_loop ip (off + ?m) (r - ?m) s3 =
        Ret (map (fbyte (bview s3) (inodes s3 ! ip)) [unat (off + ?m)..<unat (off + ?m) + unat (r - ?m)], s') \<and>
        work s' {} \<and> bview s' = bview s3 \<and> spent s3 s' 0"
    proof (rule less.hyps [OF lt c(4)])
      show "lh_n s3 < 30" using sp less.prems(3) by (auto simp: spent_def room_def)
      fix i assume "unat (off + ?m) \<le> i" "i < unat (off + ?m) + unat (r - ?m)"
      then show "slot (bview s3) (inodes s3 ! ip) (i div BSIZE) \<noteq> 0"
        using less.prems(5) [of i] mr off' r' c(5) e1 e3 by simp
    qed (use less.prems(2,4) mr off' r' c(5) e1 e3 in simp_all)
    then obtain s' where ih: "read_loop ip (off + ?m) (r - ?m) s3 =
        Ret (map (fbyte ?v ?p) [unat off + unat ?m..<unat off + unat r], s')" "work s' {}" "bview s' = ?v" "spent s3 s' 0"
      using mr off' r' c(5) e1 e3 by auto
    have "[unat off..<unat off + unat r] = [unat off..<unat off + unat ?m] @ [unat off + unat ?m..<unat off + unat r]"
      using upt_add_eq_append [of "unat off" "unat off + unat ?m" "unat r - unat ?m"] mr by simp
    moreover have "idev (inodes s1 ! ip) = ROOTDEV" using e1(3) file_okD(1) [OF less.prems(2)] by simp
    moreover have "spent s s' 0" using spent_trans [OF sp ih(4), of 0] by simp
    ultimately show ?thesis
      using False b(1) c(1,3) bytes ih(1-3) by (simp add: read_loop.simps [of ip off r s] Let_def)
  qed
qed

lemma sint_small:
  assumes "unat (n :: u32) < 2 ^ 31"
  shows "sint n = int (unat n)"
proof -
  have "int (unat n) < int (2 ^ 31)" using assms by (simp only: of_nat_less_iff)
  then have "uint n < 2 ^ 31" by simp
  moreover have "- (2 ^ 31) \<le> uint n" by (rule order_trans [OF _ uint_ge_0]) simp
  ultimately show ?thesis using signed_take_bit_int_eq_self [of 31 "uint n"] by (simp add: sint_uint)
qed

lemma file_small: "i \<le> MAXFILE * BSIZE \<Longrightarrow> i < 2 ^ 31"
  by (simp add: MAXFILE_def NDIRECT_def NINDIRECT_def BSIZE_def)

lemma readi_content:
  assumes w: "work s {}" and ok: "file_ok (lg_start s) (bview s) (fsb s) (inodes s ! ip)" and r: "lh_n s < 30"
    and fu: "full (bview s) (inodes s ! ip)" and ty: "itype (inodes s ! ip) \<noteq> T_DEV"
    and off: "off \<le> isize (inodes s ! ip)" "unat off + unat n < 2 ^ 32"
  shows "\<exists>s'. readi ip off n s = Ret (Data (int (min (unat n) (unat (isize (inodes s ! ip)) - unat off)))
        (take (unat n) (drop (unat off) (content (bview s) (inodes s ! ip)))), s') \<and>
      work s' {} \<and> bview s' = bview s \<and> spent s s' 0"
proof -
  let ?p = "inodes s ! ip" and ?v = "bview s"
  let ?n = "if off + n > isize ?p then isize ?p - off else n"
  have sz: "unat (isize ?p) \<le> MAXFILE * BSIZE" using fu by (simp add: full_def)
  have o: "unat off \<le> unat (isize ?p)" using off(1) by (simp add: word_le_nat_alt)
  have on: "unat (off + n) = unat off + unat n" by (rule unat_add_small [OF off(2)])
  have n: "unat ?n = min (unat n) (unat (isize ?p) - unat off)"
    using on o unat_sub [OF off(1)] by (auto simp: word_less_nat_alt min_def)
  have le: "unat off + unat ?n \<le> unat (isize ?p)" using n o by simp
  obtain s' where b: "read_loop ip off ?n s = Ret (map (fbyte ?v ?p) [unat off..<unat off + unat ?n], s')"
      "work s' {}" "bview s' = ?v" "spent s s' 0"
    using read_loop_ok [OF w ok r, of off ?n] fu le sz by (auto simp: full_def)
  have "map (fbyte ?v ?p) [unat off..<unat off + unat ?n] = take (unat n) (drop (unat off) (content ?v ?p))"
    unfolding content_def drop_map take_map n drop_upt
    using o by (cases "unat n \<le> unat (isize ?p) - unat off") (simp_all add: take_upt)
  moreover have "sint ?n = int (min (unat n) (unat (isize ?p) - unat off))"
    using sint_small [of ?n] file_small [of "unat ?n"] le sz n by simp
  moreover have "\<not> isize ?p < off" "\<not> off + n < off" using off(1) on by (simp_all add: not_less word_le_nat_alt)
  ultimately show ?thesis using b ty by (simp add: readi_def Let_def)
qed

subsection \<open>Writing\<close>

lemma ispent_lh: "ispent s s' ip k \<Longrightarrow> lh_n s \<le> lh_n s' \<and> disk s' = disk s \<and> lg_dev s' = lg_dev s \<and> lg_size s' = lg_size s"
  by (simp add: ispent_def spent_def)

lemma slot_store:
  assumes ok: "file_ok st v sb p" and k: "k < MAXFILE" "slot v p k \<noteq> 0" and j: "j \<le> MAXFILE"
  shows "slot (v(slot v p k := x)) p j = slot v p j"
proof -
  have "addrs p ! NDIRECT \<noteq> 0 \<Longrightarrow> slot v p k \<noteq> addrs p ! NDIRECT"
    using file_okD(4) [OF ok, of k MAXFILE] k by (auto simp: slot_ind)
  then show ?thesis by (auto simp: slot_def)
qed

lemma keeps_store:
  assumes fs: "fs_ok st v sb" and ok: "file_ok st v sb p" and k: "k < MAXFILE" "slot v p k \<noteq> 0" and x: "length x = BSIZE"
  shows "keeps st sb 0 v p (v(slot v p k := x)) p"
proof -
  have d: "data_block st v sb (slot v p k)" using file_okD(3) [OF ok] k by simp
  note s = store_block [OF fs d x] and sl = slot_store [OF ok k]
  have "file_ok st (v(slot v p k := x)) sb p"
    using file_okD [OF ok] sl s(3) by (simp add: file_ok_def)
  then show ?thesis using s sl k by (simp add: keeps_def)
qed

lemma same_block_iff: "off \<le> i \<Longrightarrow> i < off + m \<Longrightarrow> m \<le> BSIZE - off mod BSIZE \<Longrightarrow>
    i div BSIZE = off div BSIZE \<and> i mod BSIZE = off mod BSIZE + (i - off)"
  using in_block [of off "i - off"] by simp

lemma fbyte_store:
  assumes ok: "file_ok st v sb p" and k: "off div BSIZE < MAXFILE" "slot v p (off div BSIZE) \<noteq> 0"
    and m: "m \<le> BSIZE - off mod BSIZE" "m \<le> length src"
    and x: "x = v (slot v p (off div BSIZE))" "y = take (off mod BSIZE) x @ take m src @ drop (off mod BSIZE + m) x"
    and i: "i < MAXFILE * BSIZE" "slot v p (i div BSIZE) \<noteq> 0"
  shows "fbyte (v(slot v p (off div BSIZE) := y)) p i = (if off \<le> i \<and> i < off + m then src ! (i - off) else fbyte v p i)"
proof (cases "i div BSIZE = off div BSIZE")
  case False
  have "slot v p (i div BSIZE) \<noteq> slot v p (off div BSIZE)"
    using file_okD(4) [OF ok, of "i div BSIZE" "off div BSIZE"] False i k block_in_file [OF i(1)] by auto
  moreover have "\<not> (off \<le> i \<and> i < off + m)" using same_block_iff [OF _ _ m(1)] False by blast
  ultimately show ?thesis
    using slot_store [OF ok k, of "i div BSIZE"] block_in_file [OF i(1)] by (auto simp: fbyte_def)
next
  case True
  have l: "length x = BSIZE" using file_okD(3) [OF ok, of "off div BSIZE"] k x(1) by (simp add: data_block_def)
  let ?o = "off mod BSIZE" and ?j = "i mod BSIZE"
  have B: "0 < BSIZE" by (simp add: BSIZE_def)
  have jB: "?j < BSIZE" "?o < BSIZE" using B by simp_all
  have e: "i = off div BSIZE * BSIZE + ?j" "off = off div BSIZE * BSIZE + ?o" using True by (metis div_mult_mod_eq)+
  have r: "off \<le> i \<longleftrightarrow> ?o \<le> ?j" "i < off + m \<longleftrightarrow> ?j < ?o + m" "i - off = ?j - ?o" using e by linarith+
  have "y ! ?j = (if ?o \<le> ?j \<and> ?j < ?o + m then src ! (?j - ?o) else x ! ?j)"
    using jB l m unfolding x(2) by (auto simp: nth_append)
  then show ?thesis
    using slot_store [OF ok k, of "off div BSIZE"] k x(1) by (simp add: fbyte_def True r)
qed

text \<open>The bytes from \<open>off\<close> on are those of \<open>src\<close>, every other byte of the file is as before.\<close>

definition wrote :: "(u32 \<Rightarrow> u8 list) \<Rightarrow> inode \<Rightarrow> (u32 \<Rightarrow> u8 list) \<Rightarrow> inode \<Rightarrow> nat \<Rightarrow> u8 list \<Rightarrow> bool" where
  "wrote v p v' p' off src \<longleftrightarrow>
     (\<forall>i. off \<le> i \<longrightarrow> i < off + length src \<longrightarrow> slot v' p' (i div BSIZE) \<noteq> 0 \<and> fbyte v' p' i = src ! (i - off)) \<and>
     (\<forall>i < MAXFILE * BSIZE. slot v p (i div BSIZE) \<noteq> 0 \<longrightarrow> \<not> (off \<le> i \<and> i < off + length src) \<longrightarrow> fbyte v' p' i = fbyte v p i) \<and>
     ((\<forall>i. off \<le> i \<longrightarrow> i < off + length src \<longrightarrow> slot v p (i div BSIZE) \<noteq> 0) \<longrightarrow> p' = p)"

lemma wroteD:
  assumes "wrote v p v' p' off src"
  shows "off \<le> i \<Longrightarrow> i < off + length src \<Longrightarrow> slot v' p' (i div BSIZE) \<noteq> 0 \<and> fbyte v' p' i = src ! (i - off)"
    and "i < MAXFILE * BSIZE \<Longrightarrow> slot v p (i div BSIZE) \<noteq> 0 \<Longrightarrow> \<not> (off \<le> i \<and> i < off + length src) \<Longrightarrow> fbyte v' p' i = fbyte v p i"
    and "(\<And>i. off \<le> i \<Longrightarrow> i < off + length src \<Longrightarrow> slot v p (i div BSIZE) \<noteq> 0) \<Longrightarrow> p' = p"
  using assms unfolding wrote_def by blast+

lemma wrote_trans:
  assumes 1: "wrote v p t q off xs" and 2: "wrote t q v' p' (off + length xs) ys"
    and k1: "keeps st sb c v p t q" and k2: "keeps st sb d t q v' p'" and le: "off + length xs + length ys \<le> MAXFILE * BSIZE"
  shows "wrote v p v' p' off (xs @ ys)"
  unfolding wrote_def
proof (intro conjI allI impI)
  fix i assume i: "off \<le> i" "i < off + length (xs @ ys)"
  have im: "i < MAXFILE * BSIZE" using i le by simp
  have B: "i div BSIZE \<le> MAXFILE" using block_in_file [OF im] by simp
  show "slot v' p' (i div BSIZE) \<noteq> 0"
  proof (cases "i < off + length xs")
    case True
    then show ?thesis using wroteD(1) [OF 1 i(1)] keepsD(4) [OF k2 B] by simp
  qed (use wroteD(1) [OF 2, of i] i in simp)
  show "fbyte v' p' i = (xs @ ys) ! (i - off)"
  proof (cases "i < off + length xs")
    case True
    moreover have "i - off < length xs" using True i(1) by linarith
    ultimately show ?thesis using wroteD(1) [OF 1 i(1)] wroteD(2) [OF 2 im] by (simp add: nth_append)
  next
    case False
    moreover have "\<not> i - off < length xs" using False i(1) by linarith
    ultimately show ?thesis using wroteD(1) [OF 2, of i] i by (simp add: nth_append)
  qed
next
  fix i assume i: "i < MAXFILE * BSIZE" "slot v p (i div BSIZE) \<noteq> 0" "\<not> (off \<le> i \<and> i < off + length (xs @ ys))"
  have "slot t q (i div BSIZE) \<noteq> 0" using keepsD(4) [OF k1 _ i(2)] block_in_file [OF i(1)] i(2) by simp
  then have "fbyte v' p' i = fbyte t q i" by (rule wroteD(2) [OF 2 i(1)]) (use i(3) in auto)
  also have "\<dots> = fbyte v p i" by (rule wroteD(2) [OF 1 i(1,2)]) (use i(3) in auto)
  finally show "fbyte v' p' i = fbyte v p i" .
next
  assume a: "\<forall>i. off \<le> i \<longrightarrow> i < off + length (xs @ ys) \<longrightarrow> slot v p (i div BSIZE) \<noteq> 0"
  have q: "q = p" by (rule wroteD(3) [OF 1]) (use a in simp)
  have "p' = q"
  proof (rule wroteD(3) [OF 2])
    fix i assume i: "off + length xs \<le> i" "i < off + length xs + length ys"
    then have "slot v p (i div BSIZE) \<noteq> 0" using a by simp
    moreover have "i div BSIZE \<le> MAXFILE" using block_in_file [of i] i le by simp
    ultimately show "slot t q (i div BSIZE) \<noteq> 0" using keepsD(4) [OF k1] by simp
  qed
  then show "p' = p" using q by simp
qed

lemma wrote_chunk:
  assumes F: "fills st sb (off div BSIZE) c v p t q" and off: "off < MAXFILE * BSIZE"
    and m: "m \<le> BSIZE - off mod BSIZE" "m \<le> length src" "0 < m" "off + m \<le> MAXFILE * BSIZE"
    and y: "y = take (off mod BSIZE) x @ take m src @ drop (off mod BSIZE + m) x" "x = t (slot t q (off div BSIZE))"
  shows "keeps st sb c v p (t(slot t q (off div BSIZE) := y)) q"
    and "wrote v p (t(slot t q (off div BSIZE) := y)) q off (take m src)"
proof -
  let ?k = "off div BSIZE"
  note f = fillsD [OF F] and kp = keepsD [OF fillsD(1) [OF F]]
  have k: "?k < MAXFILE" "slot t q ?k \<noteq> 0" using block_in_file [OF off] f(2) by simp_all
  have "length x = BSIZE" using file_okD(3) [OF kp(2), of ?k] k y(2) by (simp add: data_block_def)
  then have l: "length y = BSIZE" using m y(1) by simp
  have k2: "keeps st sb 0 t q (t(slot t q ?k := y)) q" by (rule keeps_store [OF kp(1,2) k l])
  show "keeps st sb c v p (t(slot t q ?k := y)) q" using keeps_trans [OF f(1) k2] by simp
  have byte: "fbyte (t(slot t q ?k := y)) q i = (if off \<le> i \<and> i < off + m then src ! (i - off) else fbyte t q i)"
      if "i < MAXFILE * BSIZE" "slot t q (i div BSIZE) \<noteq> 0" for i
    by (rule fbyte_store [OF kp(2) k m(1,2) y(2,1) that])
  have lm: "length (take m src) = m" using m(2) by simp
  show "wrote v p (t(slot t q ?k := y)) q off (take m src)"
    unfolding wrote_def
  proof (intro conjI allI impI)
    fix i assume i: "off \<le> i" "i < off + length (take m src)"
    then have e: "i div BSIZE = ?k" using same_block_iff [of off i m] m(1,2) by simp
    show "slot (t(slot t q ?k := y)) q (i div BSIZE) \<noteq> 0"
      unfolding e using slot_store [OF kp(2) k, of ?k y] k by simp
    have "i < MAXFILE * BSIZE" using i m by simp
    then show "fbyte (t(slot t q ?k := y)) q i = take m src ! (i - off)"
      using byte [of i] e k(2) i m(2) by simp
  next
    fix i assume i: "i < MAXFILE * BSIZE" "slot v p (i div BSIZE) \<noteq> 0" "\<not> (off \<le> i \<and> i < off + length (take m src))"
    have B: "i div BSIZE < MAXFILE" by (rule block_in_file [OF i(1)])
    have s: "slot t q (i div BSIZE) = slot v p (i div BSIZE)" using kp(4) [OF _ i(2)] B by simp
    have "fbyte t q i = fbyte v p i" using f(4) [OF B i(2)] s by (simp add: fbyte_def)
    then show "fbyte (t(slot t q ?k := y)) q i = fbyte v p i"
      using byte [OF i(1)] s i(2,3) unfolding lm by auto
  next
    assume "\<forall>i. off \<le> i \<longrightarrow> i < off + length (take m src) \<longrightarrow> slot v p (i div BSIZE) \<noteq> 0"
    then have "slot v p ?k \<noteq> 0" using m by simp
    then show "q = p" using f(6) by blast
  qed
qed

lemma write_loop_ok:
  assumes "work s {}" and "fs_ok (lg_start s) (bview s) (fsb s)" and "ip < length (inodes s)"
    and "file_ok (lg_start s) (bview s) (fsb s) (inodes s ! ip)"
    and "unat off + unat r \<le> MAXFILE * BSIZE" and "length src = unat r" and "r \<noteq> 0 \<Longrightarrow> unat off mod BSIZE + unat r \<le> BSIZE * c"
    and "6 * int c \<le> room s" and "0 < lg_outstanding s" and "2 * c \<le> frees (bview s) (fsb s)"
  shows "\<exists>s'. write_loop ip off src r s = Ret (off + r, s') \<and> work s' {} \<and> ispent s s' ip (6 * int c) \<and>
    keeps (lg_start s) (fsb s) (2 * c) (bview s) (inodes s ! ip) (bview s') (inodes s' ! ip) \<and>
    wrote (bview s) (inodes s ! ip) (bview s') (inodes s' ! ip) (unat off) src \<and> (r \<noteq> 0 \<longrightarrow> 0 < lh_n s')"
  using assms
proof (induction c arbitrary: off r src s)
  case 0
  then have "r = 0" by (cases "r = 0") (auto simp: unat_eq_0)
  then show ?case
    using 0 by (auto simp: write_loop.simps ispent_spent keeps_refl wrote_def)
next
  case (Suc c)
  show ?case
  proof (cases "r = 0")
    case True
    then show ?thesis
      using Suc.prems by (auto simp: write_loop.simps ispent_spent keeps_refl wrote_def)
  next
    case False
    let ?v = "bview s" and ?p = "inodes s ! ip" and ?k = "unat off div BSIZE" and ?st = "lg_start s" and ?sb = "fsb s"
    define m where "m = min r (512 - off mod 512)"
    have rp: "0 < unat r" using False by (simp add: word_gt_0 unat_gt_0)
    have mm: "unat m = min (unat r) (BSIZE - unat off mod BSIZE)" unfolding m_def by (rule unat_chunk)
    have m0: "0 < unat m" using chunk_less(2) [OF False, of off] by (simp add: m_def word_less_nat_alt)
    have mr: "unat m \<le> unat r" "unat m \<le> BSIZE - unat off mod BSIZE" "unat m \<le> length src" using mm Suc.prems(6) by simp_all
    have offM: "unat off < MAXFILE * BSIZE" using Suc.prems(5) rp by linarith
    have k: "unat (off div 512) < MAXFILE" using block_in_file [OF offM] by (simp add: unat_off)
    have r4: "4 < room s" "1 < frees ?v ?sb" using Suc.prems(8,10) by auto
    from bmap_fills [OF Suc.prems(1-4) k r4(1) Suc.prems(9) r4(2)] obtain a s1 where
        b: "bmap ip (off div 512) s = Ret (a, s1)" "a = slot (bview s1) (inodes s1 ! ip) ?k" "work s1 {}" "ispent s s1 ip 5"
        "fills ?st ?sb ?k 2 ?v ?p (bview s1) (inodes s1 ! ip)"
      unfolding unat_off by blast
    note e1 = ispentD [OF b(4)] and kp = keepsD [OF fillsD(1) [OF b(5)]]
    have ad: "data_block ?st (bview s1) ?sb a"
      using file_okD(3) [OF kp(2), of ?k] fillsD(2) [OF b(5)] k b(2) by (simp add: unat_off)
    have h: "home_ok (lg_start s1) a" using ad e1(3) by (simp add: data_block_def)
    have r1: "int (card ({} :: nat set)) < room s1" "0 < lg_outstanding s1" using e1 Suc.prems(8,9) by auto
    define y where "y = take (unat off mod BSIZE) (bview s1 a) @ take (unat m) src @ drop (unat off mod BSIZE + unat m) (bview s1 a)"
    obtain i s2 s3 s4 where w: "bread ROOTDEV a s1 = Ret (i, s2)" "data (bufs s2 ! i) = bview s1 a"
        "log_write i (set_data i y s2) = Ret s3" "brelse i s3 = Ret s4" "work s4 {}" "bview s4 = (bview s1)(a := y)" "spent s1 s4 1" "0 < lh_n s4"
      using work_rewrite [OF b(3) _ h _ r1, of y] by auto
    have in4: "inodes s4 = inodes s1" using work_spentD(3) [OF w(7)] .
    have i4: "ispent s s4 ip 6" by (rule ispent_trans [OF b(4) ispent_spent [OF w(7)]]) simp
    note e4 = ispentD [OF i4]
    have mM: "unat off + unat m \<le> MAXFILE * BSIZE" using Suc.prems(5) mr by linarith
    note wc = wrote_chunk [OF b(5) offM mr(2,3) m0 mM y_def [unfolded b(2)] refl, folded b(2), folded w(6) in4]
    note k4 = keepsD [OF wc(1)]
    have off': "unat (off + m) = unat off + unat m"
      using mM by (intro unat_add_small) (simp add: MAXFILE_def NDIRECT_def NINDIRECT_def BSIZE_def)
    have r': "unat (r - m) = unat r - unat m" using mr by (intro unat_sub) (simp add: word_le_nat_alt)
    have fit: "unat (off + m) mod BSIZE + unat (r - m) \<le> BSIZE * c" if "r - m \<noteq> 0"
    proof -
      have "unat m \<noteq> unat r" using that r' by (metis diff_self_eq_0 unat_eq_zero)
      then have e: "unat m = BSIZE - unat off mod BSIZE" using mm by (simp add: min_def split: if_splits)
      have "unat off mod BSIZE < BSIZE" by (simp add: BSIZE_def)
      then have s: "unat off mod BSIZE + unat m = BSIZE" using e by linarith
      have "(unat off + unat m) mod BSIZE = (unat off mod BSIZE + unat m) mod BSIZE" by (simp add: mod_add_left_eq)
      then have "(unat off + unat m) mod BSIZE = 0" using s by simp
      then show ?thesis using Suc.prems(7) [OF False] s mr(1) by (simp add: off' r')
    qed
    have "\<exists>s'. write_loop ip (off + m) (drop (unat m) src) (r - m) s4 = Ret (off + m + (r - m), s') \<and> work s' {} \<and>
        ispent s4 s' ip (6 * int c) \<and>
        keeps (lg_start s4) (fsb s4) (2 * c) (bview s4) (inodes s4 ! ip) (bview s') (inodes s' ! ip) \<and>
        wrote (bview s4) (inodes s4 ! ip) (bview s') (inodes s' ! ip) (unat (off + m)) (drop (unat m) src) \<and>
        (r - m \<noteq> 0 \<longrightarrow> 0 < lh_n s')"
    proof (rule Suc.IH [OF w(5)])
      show "fs_ok (lg_start s4) (bview s4) (fsb s4)" using k4(1) e4 by simp
      show "file_ok (lg_start s4) (bview s4) (fsb s4) (inodes s4 ! ip)" using k4(2) e4 by simp
      show "ip < length (inodes s4)" using e4 Suc.prems(3) by simp
      show "unat (off + m) + unat (r - m) \<le> MAXFILE * BSIZE" using Suc.prems(5) mr(1) by (simp add: off' r')
      show "length (drop (unat m) src) = unat (r - m)" using Suc.prems(6) by (simp add: r')
      show "6 * int c \<le> room s4" using e4(1) Suc.prems(8) by simp
      show "0 < lg_outstanding s4" using e4 Suc.prems(9) by simp
      show "2 * c \<le> frees (bview s4) (fsb s4)" using k4(9) e4 Suc.prems(10) by simp
    qed (rule fit)
    then obtain s' where ih: "write_loop ip (off + m) (drop (unat m) src) (r - m) s4 = Ret (off + r, s')" "work s' {}"
        "ispent s4 s' ip (6 * int c)" "keeps ?st ?sb (2 * c) (bview s4) (inodes s4 ! ip) (bview s') (inodes s' ! ip)"
        "wrote (bview s4) (inodes s4 ! ip) (bview s') (inodes s' ! ip) (unat off + unat m) (drop (unat m) src)"
      by (auto simp: e4 off')
    have "write_loop ip off src r s = Ret (off + r, s')"
      using False b(1) w(1-4) ih(1) e1(6) file_okD(1) [OF kp(2)] unfolding write_loop.simps [of ip off src r s]
      by (simp add: Let_def y_def unat_off flip: m_def)
    moreover have "0 < lh_n s'" using w(8) ispent_lh [OF ih(3)] by linarith
    moreover have "ispent s s' ip (6 * int (Suc c))" by (rule ispent_trans [OF i4 ih(3)]) simp
    moreover have "keeps ?st ?sb (2 * Suc c) ?v ?p (bview s') (inodes s' ! ip)"
      using keeps_trans [OF wc(1) ih(4)] by simp
    moreover have "wrote ?v ?p (bview s') (inodes s' ! ip) (unat off) (take (unat m) src @ drop (unat m) src)"
      by (rule wrote_trans [OF wc(2) _ wc(1) ih(4)]) (use ih(5) mr Suc.prems(5,6) in simp_all)
    ultimately show ?thesis using ih(2) by auto
  qed
qed

subsection \<open>The inode on the disk\<close>

definition disk_inode :: "(u32 \<Rightarrow> u8 list) \<Rightarrow> superblock \<Rightarrow> u32 \<Rightarrow> dinode" where
  "disk_inode v sb i = get_dinode (v (IBLOCK i sb)) (64 * unat (i mod IPB))"

definition synced :: "(u32 \<Rightarrow> u8 list) \<Rightarrow> superblock \<Rightarrow> inode \<Rightarrow> bool" where
  "synced v sb p \<longleftrightarrow> inum p < sb_ninodes sb \<and> disk_inode v sb (inum p) = dinode_of p"

text \<open>Storing into a block of inodes touches neither the bitmap nor the blocks of files.\<close>

lemma store_inode:
  assumes fs: "fs_ok st v sb" and i: "i < sb_ninodes sb" and x: "length x = BSIZE"
  shows "fs_ok st (v(IBLOCK i sb := x)) sb" and "data_block st (v(IBLOCK i sb := x)) sb b = data_block st v sb b"
    and "data_block st v sb b \<Longrightarrow> (v(IBLOCK i sb := x)) b = v b"
    and "file_ok st v sb q \<Longrightarrow> j \<le> MAXFILE \<Longrightarrow> slot (v(IBLOCK i sb := x)) q j = slot v q j"
    and "file_ok st v sb q \<Longrightarrow> file_ok st (v(IBLOCK i sb := x)) sb q"
proof -
  let ?w = "v(IBLOCK i sb := x)"
  have ne: "IBLOCK i sb \<noteq> BBLOCK c sb" if "c < sb_size sb" for c using fs i that unfolding fs_ok_def by blast
  have u: "used ?w sb c = used v sb c" if "c < sb_size sb" for c using ne [OF that] by (simp add: used_def)
  have z: "0 < sb_size sb" using fs i unfolding fs_ok_def by (metis order_le_less_trans word_zero_le)
  have bl: "?w (BBLOCK c sb) = v (BBLOCK c sb)" if "c < sb_size sb" for c using ne [OF that] by simp
  have "bitmap_ok st ?w sb" using fs u bl unfolding fs_ok_def bitmap_ok_def by simp
  then show "fs_ok st ?w sb" using fs u [OF z] u x unfolding fs_ok_def by auto
  show d: "data_block st ?w sb b = data_block st v sb b" for b
    using u [of b] x i by (auto simp: data_block_def)
  show e: "data_block st v sb b \<Longrightarrow> ?w b = v b" for b using i by (auto simp: data_block_def)
  show s: "slot ?w q j = slot v q j" if q: "file_ok st v sb q" "j \<le> MAXFILE" for q j
  proof -
    have "addrs q ! NDIRECT \<noteq> 0 \<Longrightarrow> ?w (addrs q ! NDIRECT) = v (addrs q ! NDIRECT)"
      using file_okD(3) [OF q(1), of MAXFILE] e by (simp add: slot_ind)
    then show ?thesis by (simp add: slot_def)
  qed
  show "file_ok st ?w sb q" if q: "file_ok st v sb q"
    using file_okD [OF q] s [OF q] d by (simp add: file_ok_def)
qed

lemma inode_place: "64 * unat (i mod IPB) + 64 \<le> BSIZE"
proof -
  have "unat (i mod IPB) < 8" by (simp add: unat_mod IPB_def)
  then show ?thesis by (simp add: BSIZE_def)
qed

lemma disk_inode_put:
  assumes "length (v (IBLOCK i sb)) = BSIZE" and "length (daddrs d) = 13"
    and w: "w = v(IBLOCK i sb := put_dinode d (v (IBLOCK i sb)) (64 * unat (i mod IPB)))"
  shows "disk_inode w sb i = d" and "j \<noteq> i \<Longrightarrow> disk_inode w sb j = disk_inode v sb j"
proof -
  show "disk_inode w sb i = d"
    using get_put_dinode [OF _ assms(2)] inode_place [of i] assms(1) by (simp add: w disk_inode_def)
  assume ji: "j \<noteq> i"
  show "disk_inode w sb j = disk_inode v sb j"
  proof (cases "IBLOCK j sb = IBLOCK i sb")
    case True
    then have "j div IPB = i div IPB" by (simp add: IBLOCK_def)
    then have "unat (j mod IPB) \<noteq> unat (i mod IPB)" using ji by (metis mod_div_mult_eq word_unat_eq_iff)
    then have "64 * unat (j mod IPB) + 64 \<le> 64 * unat (i mod IPB) \<or> 64 * unat (i mod IPB) + 64 \<le> 64 * unat (j mod IPB)"
      by linarith
    then show ?thesis using get_put_dinode_other [OF _ assms(2)] True by (simp add: w disk_inode_def)
  qed (simp add: w disk_inode_def)
qed

lemma iupdate_ok:
  assumes w: "work s {}" and fs: "fs_ok (lg_start s) (bview s) (fsb s)" and p: "p = inodes s ! ip" "idev p = ROOTDEV"
      "inum p < sb_ninodes (fsb s)" and r: "0 < room s" "0 < lg_outstanding s"
  shows "\<exists>s'. iupdate ip s = Ret s' \<and> work s' {} \<and> spent s s' 1 \<and>
    bview s' = (bview s)(IBLOCK (inum p) (fsb s) :=
      put_dinode (dinode_of p) (bview s (IBLOCK (inum p) (fsb s))) (64 * unat (inum p mod IPB)))"
proof -
  let ?b = "IBLOCK (inum p) (fsb s)"
  let ?x = "put_dinode (dinode_of p) (bview s ?b) (64 * unat (inum p mod IPB))"
  have h: "home_ok (lg_start s) ?b" using fs p(3) unfolding fs_ok_def by blast
  have r0: "int (card ({} :: nat set)) < room s" using r by simp
  obtain i s1 s2 s3 where c: "bread ROOTDEV ?b s = Ret (i, s1)" "data (bufs s1 ! i) = bview s ?b"
      "log_write i (set_data i ?x s1) = Ret s2" "brelse i s2 = Ret s3" "work s3 {}" "bview s3 = (bview s)(?b := ?x)" "spent s s3 1"
    using work_rewrite [OF w _ h _ r0 r(2), of ?x] by auto
  then show ?thesis using p by (simp add: iupdate_def Let_def)
qed

subsection \<open>\<^verbatim>\<open>writei\<close>\<close>

definition file_good :: "int \<Rightarrow> (u32 \<Rightarrow> u8 list) \<Rightarrow> superblock \<Rightarrow> inode \<Rightarrow> bool" where
  "file_good st v sb p \<longleftrightarrow> fs_ok st v sb \<and> file_ok st v sb p \<and> full v p \<and> synced v sb p"

text \<open>Two files without a common block.\<close>

definition apart :: "(u32 \<Rightarrow> u8 list) \<Rightarrow> inode \<Rightarrow> inode \<Rightarrow> bool" where
  "apart v p q \<longleftrightarrow> (\<forall>j \<le> MAXFILE. \<forall>k \<le> MAXFILE. slot v p j = slot v q k \<longrightarrow> slot v q k = 0)"

text \<open>The file \<open>q\<close> has the same blocks with the same contents.\<close>

definition same_file :: "int \<Rightarrow> superblock \<Rightarrow> (u32 \<Rightarrow> u8 list) \<Rightarrow> (u32 \<Rightarrow> u8 list) \<Rightarrow> inode \<Rightarrow> bool" where
  "same_file st sb v v' q \<longleftrightarrow> file_ok st v' sb q \<and> (\<forall>j \<le> MAXFILE. slot v' q j = slot v q j \<and> (slot v q j \<noteq> 0 \<longrightarrow> v' (slot v q j) = v (slot v q j)))"

lemma same_file_content:
  assumes "same_file st sb v v' q" and "full v q"
  shows "content v' q = content v q" and "full v' q"
proof -
  have s: "slot v q (i div BSIZE) \<noteq> 0 \<and> i div BSIZE \<le> MAXFILE" if "i < unat (isize q)" for i
    using assms(2) that block_in_file [of i] by (auto simp: full_def)
  show "content v' q = content v q"
    unfolding content_def using assms(1) s by (auto simp: fbyte_def same_file_def)
  show "full v' q" using assms s by (auto simp: full_def same_file_def)
qed

lemma same_file_trans: "same_file st sb v t q \<Longrightarrow> same_file st sb t v' q \<Longrightarrow> same_file st sb v v' q"
  unfolding same_file_def by simp

lemma keeps_same_file:
  assumes k: "keeps st sb c v p v' p'" and q: "file_ok st v sb q" and a: "apart v p q"
  shows "same_file st sb v v' q"
proof -
  have b: "v' (slot v q j) = v (slot v q j) \<and> data_block st v' sb (slot v q j)" if "j \<le> MAXFILE" "slot v q j \<noteq> 0" for j
    using keepsD(6) [OF k file_okD(3) [OF q that]] a that unfolding apart_def by metis
  have s: "slot v' q j = slot v q j" if "j \<le> MAXFILE" for j
    using b [of MAXFILE, unfolded slot_ind] by (simp add: slot_def)
  show ?thesis using b s file_okD [OF q] by (simp add: same_file_def file_ok_def)
qed

lemma keeps_apart:
  assumes k: "keeps st sb c v p v' p'" and q: "file_ok st v sb q" and a: "apart v p q"
  shows "apart v' p' q"
  unfolding apart_def
proof (intro allI impI)
  fix j l assume jl: "j \<le> MAXFILE" "l \<le> MAXFILE" "slot v' p' j = slot v' q l"
  have s: "slot v' q l = slot v q l" using keeps_same_file [OF assms] jl(2) by (simp add: same_file_def)
  show "slot v' q l = 0"
  proof (cases "slot v p j = 0")
    case False
    then show ?thesis using keepsD(4) [OF k jl(1)] a jl s unfolding apart_def by metis
  next
    case True
    show ?thesis
    proof (rule ccontr)
      assume n: "slot v' q l \<noteq> 0"
      then have "used v sb (slot v q l)" using file_okD(3) [OF q jl(2)] s by (simp add: data_block_def)
      then show False using keepsD(5) [OF k jl(1) True] n jl(3) s by simp
    qed
  qed
qed

lemma write_content:
  assumes f: "full v p" and off: "off \<le> unat (isize p)" and le: "off + length src \<le> MAXFILE * BSIZE"
    and w: "wrote v p v' p' off src"
    and b: "\<And>i. i < MAXFILE * BSIZE \<Longrightarrow> slot v' p' (i div BSIZE) \<noteq> 0 \<Longrightarrow>
        slot w q (i div BSIZE) = slot v' p' (i div BSIZE) \<and> fbyte w q i = fbyte v' p' i"
    and sl: "\<And>j. j \<le> MAXFILE \<Longrightarrow> slot v p j \<noteq> 0 \<Longrightarrow> slot v' p' j = slot v p j"
    and n: "unat (isize q) = max (unat (isize p)) (off + length src)"
  shows "content w q = take off (content v p) @ src @ drop (off + length src) (content v p)" and "full w q"
proof -
  let ?C = "content v p"
  have sz: "unat (isize p) \<le> MAXFILE * BSIZE" and nz: "\<And>i. i < unat (isize p) \<Longrightarrow> slot v p (i div BSIZE) \<noteq> 0"
    using f by (auto simp: full_def)
  have lC: "length ?C = unat (isize p)" by (simp add: content_def)
  have lt: "i < MAXFILE * BSIZE" if "i < unat (isize q)" for i using that n sz le by simp
  have new: "slot v' p' (i div BSIZE) \<noteq> 0" if i: "i < unat (isize q)" for i
  proof (cases "off \<le> i \<and> i < off + length src")
    case False
    then have o: "i < unat (isize p)" using i n off by auto
    show ?thesis using sl [OF _ nz [OF o]] nz [OF o] block_in_file [OF lt [OF i]] by simp
  qed (use wroteD(1) [OF w] in blast)
  show "full w q" using new b lt n sz le by (auto simp: full_def)
  show "content w q = take off ?C @ src @ drop (off + length src) ?C"
  proof (rule nth_equalityI)
    show "length (content w q) = length (take off ?C @ src @ drop (off + length src) ?C)"
      using n off lC by (simp add: content_def max_def)
    fix i assume "i < length (content w q)"
    then have i: "i < unat (isize q)" by (simp add: content_def)
    have e: "content w q ! i = fbyte v' p' i" using b [OF lt [OF i] new [OF i]] i by (simp add: content_def)
    consider "i < off" | "off \<le> i" "i < off + length src" | "off + length src \<le> i" by linarith
    then show "content w q ! i = (take off ?C @ src @ drop (off + length src) ?C) ! i"
    proof cases
      case 1
      then have "fbyte v' p' i = fbyte v p i" by (intro wroteD(2) [OF w lt [OF i]] nz) (use off in auto)
      then show ?thesis using e 1 off lC by (simp add: nth_append) (simp add: content_def)
    next
      case 2
      then have "fbyte v' p' i = src ! (i - off)" using wroteD(1) [OF w] by blast
      moreover have "\<not> i < off" "i - off < length src" using 2 by linarith+
      ultimately show ?thesis using e off lC by (simp add: nth_append min_def)
    next
      case 3
      then have o: "i < unat (isize p)" using i n by simp
      then have "fbyte v' p' i = fbyte v p i" by (intro wroteD(2) [OF w lt [OF i]] nz) (use 3 in auto)
      moreover have "\<not> i < off" "\<not> i - off < length src" "off + length src + (i - off - length src) = i" using 3 by linarith+
      ultimately show ?thesis using e off lC o by (simp add: nth_append min_def) (simp add: content_def)
    qed
  qed
qed

lemma keeps_inodes:
  assumes "keeps st sb c v p v' p'" and "i < sb_ninodes sb"
  shows "disk_inode v' sb i = disk_inode v sb i"
  using keepsD(7) [OF assms] by (simp add: disk_inode_def)

lemma writei_ok:
  assumes w: "work s {}" and ip: "ip < length (inodes s)" and p: "p = inodes s ! ip" and ty: "itype p \<noteq> T_DEV"
    and good: "file_good (lg_start s) (bview s) (fsb s) p"
    and off: "off \<le> isize p" "unat off + unat n \<le> MAXFILE * BSIZE" and src: "length src = unat n"
    and c: "n \<noteq> 0 \<Longrightarrow> unat off mod BSIZE + unat n \<le> BSIZE * c"
    and r: "6 * int c + 1 \<le> room s" "0 < lg_outstanding s" "2 * c \<le> frees (bview s) (fsb s)"
  shows "\<exists>s'. writei ip src off n s = Ret (Data (int (unat n)) [], s') \<and> work s' {} \<and> ispent s s' ip (6 * int c + 1) \<and>
    file_good (lg_start s) (bview s') (fsb s) (inodes s' ! ip) \<and>
    content (bview s') (inodes s' ! ip) = take (unat off) (content (bview s) p) @ src @ drop (unat off + unat n) (content (bview s) p) \<and>
    inodes s' ! ip = p\<lparr>isize := isize (inodes s' ! ip), addrs := addrs (inodes s' ! ip)\<rparr> \<and>
    (\<forall>q. file_ok (lg_start s) (bview s) (fsb s) q \<longrightarrow> apart (bview s) p q \<longrightarrow>
       same_file (lg_start s) (fsb s) (bview s) (bview s') q) \<and>
    (\<forall>i < sb_ninodes (fsb s). i \<noteq> inum p \<longrightarrow> disk_inode (bview s') (fsb s) i = disk_inode (bview s) (fsb s) i) \<and>
    (n \<noteq> 0 \<longrightarrow> 0 < lh_n s')"
proof -
  let ?st = "lg_start s" and ?sb = "fsb s" and ?v = "bview s"
  have fs: "fs_ok ?st ?v ?sb" and ok: "file_ok ?st ?v ?sb p" and fu: "full ?v p" and sy: "synced ?v ?sb p"
    using good by (simp_all add: file_good_def)
  have le: "unat off \<le> unat (isize p)" using off(1) by (simp add: word_le_nat_alt)
  have on: "unat (off + n) = unat off + unat n"
    using off(2) by (intro unat_add_small) (simp add: MAXFILE_def NDIRECT_def NINDIRECT_def BSIZE_def)
  obtain s1 where l: "write_loop ip off src n s = Ret (off + n, s1)" "work s1 {}" "ispent s s1 ip (6 * int c)"
      "keeps ?st ?sb (2 * c) ?v p (bview s1) (inodes s1 ! ip)" "wrote ?v p (bview s1) (inodes s1 ! ip) (unat off) src"
      "n \<noteq> 0 \<longrightarrow> 0 < lh_n s1"
    using write_loop_ok [OF w fs ip ok [unfolded p] off(2) src c _ r(2,3)] r(1) unfolding p by auto
  note e1 = ispentD [OF l(3)] and k1 = keepsD [OF l(4)]
  let ?q = "inodes s1 ! ip"
  have M: "unat (of_nat (MAXFILE * BSIZE) :: u32) = MAXFILE * BSIZE"
    by (simp add: MAXFILE_def NDIRECT_def NINDIRECT_def BSIZE_def)
  have go: "writei ip src off n s = bindR (if n > 0 \<and> off + n > isize ?q
       then iupdate ip (upd_inode ip (\<lambda>p. p\<lparr>isize := off + n\<rparr>) s1) else Ret s1) (\<lambda>s. Ret (Data (int (unat n)) [], s))"
    using l(1) ty off M on sint_small [of n] file_small [of "unat n"] unfolding p
    by (simp add: writei_def Let_def word_less_nat_alt word_le_nat_alt)
  have q: "isize ?q = isize p" "inum ?q = inum p" "idev ?q = ROOTDEV" "itype ?q = itype p"
    using k1(3) file_okD(1) [OF ok] by (metis inode.select_convs inode.surjective inode.update_convs(11))+
  have same: "same_file ?st ?sb ?v (bview s1) g" if "file_ok ?st ?v ?sb g" "apart ?v p g" for g
    by (rule keeps_same_file [OF l(4) that])
  show ?thesis
  proof (cases "n > 0 \<and> off + n > isize p")
    case False
    then have b: "writei ip src off n s = Ret (Data (int (unat n)) [], s1)"
      unfolding go q(1) if_not_P [OF False] by simp
    have "?q = p"
    proof (rule wroteD(3) [OF l(5)])
      fix i assume i: "unat off \<le> i" "i < unat off + length src"
      then have "n > 0" using src by (cases "n = 0") (auto simp: word_gt_0)
      then have "unat off + unat n \<le> unat (isize p)" using False on by (simp add: word_less_nat_alt not_less)
      then show "slot ?v p (i div BSIZE) \<noteq> 0" using fu i src by (simp add: full_def)
    qed
    moreover have "max (unat (isize p)) (unat off + length src) = unat (isize p)"
    proof (cases "n = 0")
      case True
      then show ?thesis using src le by simp
    next
      case False
      then have "unat off + unat n \<le> unat (isize p)"
        using \<open>\<not> (n > 0 \<and> off + n > isize p)\<close> on by (simp add: word_less_nat_alt not_less word_gt_0 unat_gt_0)
      then show ?thesis using src by simp
    qed
    then have "content (bview s1) ?q = take (unat off) (content ?v p) @ src @ drop (unat off + length src) (content ?v p)"
        "full (bview s1) ?q"
      using write_content [OF fu le _ l(5) _ k1(4), of "bview s1" ?q] off(2) src q(1) by auto
    moreover have "synced (bview s1) ?sb p" using sy keeps_inodes [OF l(4)] by (simp add: synced_def)
    ultimately show ?thesis
      using b l(2,6) k1(1,2) ispent_mono [OF l(3)] src same keeps_inodes [OF l(4)] unfolding file_good_def
      by (intro exI [of _ s1]) simp
  next
    case True
    let ?t = "upd_inode ip (\<lambda>p. p\<lparr>isize := off + n\<rparr>) s1"
    let ?q' = "?q\<lparr>isize := off + n\<rparr>" and ?b = "IBLOCK (inum p) ?sb"
    have t: "inodes ?t ! ip = ?q'" using ip e1(5) by simp
    have sl: "slot u ?q' j = slot u ?q j" for u j by (simp add: slot_def)
    have ok': "file_ok ?st (bview s1) ?sb ?q'" using k1(2) by (simp add: file_ok_def sl)
    have io: "inum p < sb_ninodes ?sb" using sy by (simp add: synced_def)
    have fst: "fs_ok (lg_start ?t) (bview ?t) (fsb ?t)" using k1(1) e1 by simp
    have r1: "0 < room ?t" "0 < lg_outstanding ?t" using e1 r by simp_all
    obtain s2 where u: "iupdate ip ?t = Ret s2" "work s2 {}" "spent ?t s2 1"
        "bview s2 = (bview s1)(?b := put_dinode (dinode_of ?q') (bview s1 ?b) (64 * unat (inum p mod IPB)))"
      using iupdate_ok [OF _ fst t [symmetric] _ _ r1] l(2) q io e1 by auto
    have i2: "inodes s2 ! ip = ?q'" using work_spentD(3) [OF u(3)] t by simp
    have b: "writei ip src off n s = Ret (Data (int (unat n)) [], s2)"
      unfolding go q(1) if_P [OF True] by (simp add: u(1))
    have isp: "ispent s s2 ip (6 * int c + 1)" by (rule ispent_trans [OF ispent_upd [OF l(3)] ispent_spent [OF u(3)]]) simp
    have lb: "length (bview s1 ?b) = BSIZE" using k1(1) io unfolding fs_ok_def by blast
    have l13: "length (daddrs (dinode_of ?q')) = 13" using file_okD(2) [OF ok'] by (simp add: dinode_of_def)
    have lx: "length (put_dinode (dinode_of ?q') (bview s1 ?b) (64 * unat (inum p mod IPB))) = BSIZE" using lb by simp
    note si = store_inode [OF k1(1) io lx, folded u(4)] and dp = disk_inode_put [OF lb l13 u(4)]
    have data: "bview s2 (slot (bview s1) g j) = bview s1 (slot (bview s1) g j)"
      if "file_ok ?st (bview s1) ?sb g" "j \<le> MAXFILE" "slot (bview s1) g j \<noteq> 0" for g j
      by (rule si(3) [OF file_okD(3) [OF that]])
    have same2: "same_file ?st ?sb (bview s1) (bview s2) g" if g: "file_ok ?st (bview s1) ?sb g" for g
      using si(5) [OF g] si(4) [OF g] data [OF g] by (simp add: same_file_def)
    have bytes: "slot (bview s2) ?q' (i div BSIZE) = slot (bview s1) ?q (i div BSIZE) \<and> fbyte (bview s2) ?q' i = fbyte (bview s1) ?q i"
      if "i < MAXFILE * BSIZE" "slot (bview s1) ?q (i div BSIZE) \<noteq> 0" for i
      using same2 [OF ok'] that block_in_file [OF that(1)] by (simp add: same_file_def fbyte_def sl)
    have "unat (isize ?q') = max (unat (isize p)) (unat off + length src)"
      using True on src by (simp add: word_less_nat_alt)
    then have "content (bview s2) ?q' = take (unat off) (content ?v p) @ src @ drop (unat off + length src) (content ?v p)"
        "full (bview s2) ?q'"
      using write_content [OF fu le _ l(5) bytes k1(4)] off(2) src by auto
    moreover have "synced (bview s2) ?sb ?q'" using io dp(1) q(2) by (simp add: synced_def)
    moreover have "file_ok ?st (bview s2) ?sb ?q'" by (rule si(5) [OF ok'])
    moreover have "same_file ?st ?sb ?v (bview s2) g" if "file_ok ?st ?v ?sb g" "apart ?v p g" for g
      using same_file_trans [OF same [OF that] same2] same [OF that] by (simp add: same_file_def)
    moreover have "inodes s2 ! ip = p\<lparr>isize := isize (inodes s2 ! ip), addrs := addrs (inodes s2 ! ip)\<rparr>"
      unfolding i2 by (subst k1(3)) simp
    moreover have "disk_inode (bview s2) ?sb i = disk_inode ?v ?sb i" if "i < sb_ninodes ?sb" "i \<noteq> inum p" for i
      using dp(2) [OF that(2)] keeps_inodes [OF l(4) that(1)] by simp
    moreover have "0 < lh_n s2" if "n \<noteq> 0" using that l(6) u(3) by (auto simp: spent_def upd_inode_def)
    ultimately show ?thesis
      using b u(2) isp si(1) src unfolding file_good_def
      by (intro exI [of _ s2] conjI allI impI) (simp_all only: i2 simp_thms)
  qed
qed

end
