(* ===== verification/Files.thy ===== *)
theory Files
  imports Content
begin

text \<open>
  What the file system promises of a transaction: \<^verbatim>\<open>balloc\<close> and \<^verbatim>\<open>bfree\<close>, \<^verbatim>\<open>writei\<close> and \<^verbatim>\<open>readi\<close>, and a write cut by
  a power failure at any point of its commit.
\<close>

lemma work_start:
  assumes "calm s" and "lh_n s = 0" and "length (lh_block s) = LOGSIZE"
  shows "work s {}"
proof -
  have "logged s = []" using assms(2) by (simp add: logged_def)
  then show ?thesis using assms by (auto simp: work_def calm_def quiet_def)
qed

lemma outstanding_frame [simp]:
  "bview (s\<lparr>lg_outstanding := a\<rparr>) = bview s" "calm (s\<lparr>lg_outstanding := a\<rparr>) = calm s"
  "bview (s\<lparr>lg_outstanding := a, lg_committing := c\<rparr>) = bview s"
  for s :: "'a logsys_scheme"
  by (simp_all add: calm_def quiet_def cache_inv_def bio_ring_def free_buf_def held_def clean_def dirty_valid_def Let_def
      caches_def dirty_def bview_def fun_eq_iff cong: option.case_cong)

text \<open>A small disk: sixty-four blocks in use, the log at block 2, inodes at 32, the bitmap at 58; the file of inode 1 is
  four bytes in block 60, the directory of inode 2 has the entry "a" in block 61.\<close>

definition demo_sb :: superblock where
  "demo_sb = \<lparr>sb_size = 1000, sb_nswap = 0, sb_nblocks = 900, sb_ninodes = 16, sb_nlog = 30, sb_logstart = 2,
     sb_inodestart = 32, sb_bmapstart = 58\<rparr>"

definition demo_inode :: inode where
  "demo_inode = \<lparr>idev = ROOTDEV, inum = 1, iref = 1, ilk = \<lparr>slocked = 0, spid = 0\<rparr>, ivalid = True, itype = T_FILE,
     major = 0, minor = 0, nlink = 1, isize = 4, addrs = 60 # replicate 12 0\<rparr>"

definition demo_dir :: inode where
  "demo_dir = \<lparr>idev = ROOTDEV, inum = 2, iref = 1, ilk = \<lparr>slocked = 0, spid = 0\<rparr>, ivalid = True, itype = T_DIR,
     major = 0, minor = 0, nlink = 1, isize = 16, addrs = 61 # replicate 12 0\<rparr>"

definition demo_disk :: "u32 \<Rightarrow> u8 list" where
  "demo_disk b =
     (if b = 58 then replicate 8 255 @ replicate 504 0
      else if b = 1 then put32 (replicate 512 0) 20 2
      else if b = 32 then put_dinode (dinode_of demo_dir) (put_dinode (dinode_of demo_inode) (replicate 512 0) 64) 128
      else if b = 60 then [1, 2, 3, 4] @ replicate 508 0 else if b = 61 then [5, 0, 97] @ replicate 509 0 else replicate 512 0)"

definition demo_fs :: "int \<Rightarrow> fssys" where
  "demo_fs out = binit \<lparr>curpid = 1, bufs = replicate 31 zero_buf, disk = (\<lambda>_. demo_disk), havedisk1 = True, idequeue = [],
     ide_fault = False, lg_start = 2, lg_size = 30, lg_outstanding = out, lg_committing = False, lg_dev = ROOTDEV, lh_n = 0,
     lh_block = replicate LOGSIZE 0, fsb = demo_sb, inodes = [demo_inode, demo_dir], devsw = []\<rparr>"

lemma link_first_more: "iosys.more (link_first i s) = iosys.more s"
  by (simp add: link_first_def Let_def)

lemma binit_more: "iosys.more (binit s) = iosys.more s"
proof -
  have "iosys.more (binit_from n i s) = iosys.more s" for n i and s :: "'a iosys_scheme"
    by (induction n arbitrary: i s) (simp_all add: link_first_more)
  then show ?thesis by (simp add: binit_def)
qed

lemma demo_fs_fields:
  "lg_start (demo_fs out) = 2" "lg_size (demo_fs out) = 30" "lg_outstanding (demo_fs out) = out" "\<not> lg_committing (demo_fs out)"
  "lg_dev (demo_fs out) = ROOTDEV" "lh_n (demo_fs out) = 0" "length (lh_block (demo_fs out)) = LOGSIZE"
  "fsb (demo_fs out) = demo_sb" "inodes (demo_fs out) = [demo_inode, demo_dir]" "room (demo_fs out) = 29"
proof -
  let ?s = "\<lparr>curpid = 1, bufs = replicate 31 zero_buf, disk = (\<lambda>_. demo_disk), havedisk1 = True, idequeue = [],
     ide_fault = False, lg_start = 2, lg_size = 30, lg_outstanding = out, lg_committing = False, lg_dev = ROOTDEV, lh_n = 0,
     lh_block = replicate LOGSIZE 0, fsb = demo_sb, inodes = [demo_inode, demo_dir], devsw = []\<rparr>"
  have m: "iosys.more (demo_fs out) = iosys.more ?s" by (simp only: demo_fs_def binit_more)
  note lf = log_fields [OF m]
  have "spent ?s (demo_fs out\<lparr>disk := disk ?s, curpid := curpid ?s\<rparr>) 0"
    by (rule spent_more) (use m in simp_all)
  then have "fsb (demo_fs out) = fsb ?s \<and> inodes (demo_fs out) = inodes ?s"
    using work_spentD(2,3) by force
  with lf show "lg_start (demo_fs out) = 2" "lg_size (demo_fs out) = 30" "lg_outstanding (demo_fs out) = out" "\<not> lg_committing (demo_fs out)"
    "lg_dev (demo_fs out) = ROOTDEV" "lh_n (demo_fs out) = 0" "length (lh_block (demo_fs out)) = LOGSIZE"
    "fsb (demo_fs out) = demo_sb" "inodes (demo_fs out) = [demo_inode, demo_dir]" "room (demo_fs out) = 29"
    by (simp_all add: room_def LOGSIZE_def)
qed

lemma demo_fs_calm: "calm (demo_fs out)" "disk (demo_fs out) = (\<lambda>_. demo_disk)" "bview (demo_fs out) = demo_disk"
proof -
  let ?s = "\<lparr>curpid = 1, bufs = replicate 31 zero_buf, disk = (\<lambda>_. demo_disk), havedisk1 = True, idequeue = [],
     ide_fault = False, lg_start = 2, lg_size = 30, lg_outstanding = out, lg_committing = False, lg_dev = ROOTDEV, lh_n = 0,
     lh_block = replicate LOGSIZE 0, fsb = demo_sb, inodes = [demo_inode, demo_dir], devsw = []\<rparr>"
  have f: "fresh_bufs ?s" by (simp add: fresh_bufs_def zero_buf_def)
  show c: "calm (demo_fs out)" and d: "disk (demo_fs out) = (\<lambda>_. demo_disk)"
    using binit_calm [OF f] unfolding demo_fs_def by simp_all
  show "bview (demo_fs out) = demo_disk" using calm_bview [OF c] d by simp
qed

lemma demo_size: "sb_size demo_sb = 1000" by (simp add: demo_sb_def)

lemma demo_BBLOCK: "b < 1000 \<Longrightarrow> BBLOCK b demo_sb = 58"
proof -
  assume "b < 1000"
  then have "unat b div 4096 = 0" by (simp add: word_less_nat_alt)
  then have "b div BPB = 0" by (simp add: word_unat_eq_iff unat_div BPB_def)
  then show ?thesis by (simp add: BBLOCK_def demo_sb_def)
qed

lemma demo_used: "b < 1000 \<Longrightarrow> used demo_disk demo_sb b \<longleftrightarrow> b < 64"
proof -
  assume b: "b < 1000"
  then have u: "unat b < 1000" by (simp add: word_less_nat_alt)
  have m: "unat (b mod BPB) = unat b" using u by (simp add: unat_mod BPB_def)
  have "bit_of (demo_disk 58) (unat b) \<longleftrightarrow> unat b div 8 < 8"
  proof (cases "unat b div 8 < 8")
    case True
    have "bit (255 :: u8) (unat b mod 8)"
    proof -
      have "unat b mod 8 \<in> {0, 1, 2, 3, 4, 5, 6, 7}" by auto
      then show ?thesis by (auto simp: bit_numeral_rec)
    qed
    then show ?thesis using True by (simp add: bit_of_iff demo_disk_def nth_append)
  next
    case False
    have "unat b div 8 - 8 < 504" using u by linarith
    then show ?thesis using False by (simp add: bit_of_iff demo_disk_def nth_append)
  qed
  then show ?thesis using demo_BBLOCK [OF b] m by (simp add: used_def word_less_nat_alt) linarith
qed

lemma length_demo [simp]: "length (demo_disk b) = BSIZE"
  by (simp add: demo_disk_def BSIZE_def)

lemma demo_IBLOCK: "i < 16 \<Longrightarrow> IBLOCK i demo_sb = 32 \<or> IBLOCK i demo_sb = 33"
proof -
  assume "i < 16"
  then have "unat i div 8 = 0 \<or> unat i div 8 = 1" by (simp add: word_less_nat_alt) linarith
  then have "i div IPB = 0 \<or> i div IPB = 1" by (simp add: word_unat_eq_iff unat_div IPB_def)
  then show ?thesis by (auto simp: IBLOCK_def demo_sb_def)
qed

lemma in_log_unat: "in_log (int a) b \<longleftrightarrow> a \<le> unat b \<and> unat b < a + LOGSIZE"
proof -
  have "uint b = int (unat b)" by simp
  then have "in_log (int a) b \<longleftrightarrow> int a \<le> int (unat b) \<and> int (unat b) < int (a + LOGSIZE)" by (simp only: in_log_def of_nat_add)
  then show ?thesis by (simp only: of_nat_le_iff of_nat_less_iff)
qed

lemma demo_home: "b < 1000 \<Longrightarrow> 32 \<le> unat b \<Longrightarrow> home_ok 2 b"
  using in_log_unat [of 2 b] by (auto simp: home_ok_def LOGSIZE_def FSSIZE_def SWAP_BLOCKS_def word_less_nat_alt)

lemma demo_fs_ok: "fs_ok 2 demo_disk demo_sb"
proof -
  have sz: "sb_size demo_sb = 1000" "sb_ninodes demo_sb = 16" by (simp_all add: demo_sb_def)
  have "used demo_disk demo_sb b" if "b < 1000" "\<not> home_ok 2 b" for b
  proof -
    have "\<not> 32 \<le> unat b" using demo_home that by blast
    then show ?thesis using demo_used [OF that(1)] by (simp add: word_less_nat_alt)
  qed
  moreover have "home_ok 2 58" "home_ok 2 32" "home_ok 2 33" by (simp_all add: demo_home)
  moreover have "used demo_disk demo_sb 58" "used demo_disk demo_sb 32" "used demo_disk demo_sb 33" "used demo_disk demo_sb 0"
    by (simp_all add: demo_used)
  moreover have "IBLOCK i demo_sb < 1000 \<and> home_ok 2 (IBLOCK i demo_sb) \<and> used demo_disk demo_sb (IBLOCK i demo_sb) \<and>
      IBLOCK i demo_sb \<noteq> 58" if "i < 16" for i
    using demo_IBLOCK [OF that] by (elim disjE) (simp_all add: demo_home demo_used)
  ultimately show ?thesis
    unfolding fs_ok_def bitmap_ok_def sz by (simp add: demo_BBLOCK FSSIZE_def SWAP_BLOCKS_def)
qed

lemma demo_slots:
  assumes "addrs p = a # replicate 12 0" and "k \<le> MAXFILE"
  shows "slot demo_disk p k = (if k = 0 then a else 0)"
proof -
  have "addrs p ! j = (if j = 0 then a else 0)" if "j < 13" for j
    using that assms(1) by (cases j) simp_all
  then show ?thesis using assms(2) by (simp add: slot_def NDIRECT_def MAXFILE_def)
qed

lemma demo_good:
  assumes p: "addrs p = a # replicate 12 0" "idev p = ROOTDEV" "0 < unat (isize p)" "unat (isize p) \<le> BSIZE"
    and a: "a = 60 \<or> a = 61" and sy: "synced demo_disk demo_sb p"
  shows "file_good 2 demo_disk demo_sb p"
proof -
  have "data_block 2 demo_disk demo_sb a"
    using demo_IBLOCK demo_used [of a] demo_home [of a] demo_BBLOCK a
    by (fastforce simp: data_block_def demo_sb_def)
  moreover have "a \<noteq> 0" using a by auto
  ultimately have "file_ok 2 demo_disk demo_sb p"
    using demo_slots [OF p(1)] p(1,2) unfolding file_ok_def by simp
  moreover have "slot demo_disk p (i div BSIZE) \<noteq> 0" if "i < unat (isize p)" for i
  proof -
    have "i div BSIZE = 0" using that p(4) by simp
    then show ?thesis using demo_slots [OF p(1), of 0] \<open>a \<noteq> 0\<close> by simp
  qed
  then have "full demo_disk p" using p(4) by (simp add: full_def MAXFILE_def NDIRECT_def BSIZE_def)
  ultimately show ?thesis using demo_fs_ok sy by (simp add: file_good_def)
qed

lemma demo_file_good: "file_good 2 demo_disk demo_sb demo_inode" and demo_dir_good: "file_good 2 demo_disk demo_sb demo_dir"
proof -
  let ?d = "put_dinode (dinode_of demo_inode) (replicate 512 0) 64"
  have l: "length (daddrs (dinode_of demo_inode)) = 13" "length (daddrs (dinode_of demo_dir)) = 13"
    by (simp_all add: dinode_of_def demo_inode_def demo_dir_def)
  have b: "IBLOCK 1 demo_sb = 32" "IBLOCK 2 demo_sb = 32" by (simp_all add: IBLOCK_def IPB_def demo_sb_def)
  have "get_dinode ?d 64 = dinode_of demo_inode" by (rule get_put_dinode [OF _ l(1)]) simp
  then have "get_dinode (put_dinode (dinode_of demo_dir) ?d 128) 64 = dinode_of demo_inode"
    using get_put_dinode_other [OF _ l(2), of 64 128 ?d] by simp
  moreover have "get_dinode (put_dinode (dinode_of demo_dir) ?d 128) 128 = dinode_of demo_dir"
    by (rule get_put_dinode [OF _ l(2)]) simp
  moreover have "inum demo_inode = 1" "inum demo_dir = 2" "sb_ninodes demo_sb = 16"
    by (simp_all add: demo_inode_def demo_dir_def demo_sb_def)
  ultimately have s: "synced demo_disk demo_sb demo_inode" "synced demo_disk demo_sb demo_dir"
    using b by (simp_all add: synced_def disk_inode_def IPB_def demo_disk_def)
  show "file_good 2 demo_disk demo_sb demo_inode"
    by (rule demo_good [OF _ _ _ _ _ s(1), of 60]) (simp_all add: demo_inode_def BSIZE_def)
  show "file_good 2 demo_disk demo_sb demo_dir"
    by (rule demo_good [OF _ _ _ _ _ s(2), of 61]) (simp_all add: demo_dir_def BSIZE_def)
qed

lemma demo_frees: "8 \<le> frees demo_disk demo_sb"
proof -
  have "{100, 101, 102, 103, 104, 105, 106, 107} \<subseteq> {b. b < sb_size demo_sb \<and> \<not> used demo_disk demo_sb b}"
    by (simp add: demo_used) (simp add: demo_sb_def)
  then have "card {100, 101, 102, 103, 104, 105, 106, 107 :: u32} \<le> frees demo_disk demo_sb"
    unfolding frees_def by (intro card_mono) simp_all
  then show ?thesis by simp
qed

lemma demo_work: "work (demo_fs out) {}"
  using work_start [OF demo_fs_calm(1)] by (simp add: demo_fs_fields)

subsection \<open>From a transaction to its commit\<close>

text \<open>The log on the disk is where the superblock says, and its header is empty.\<close>

definition log_empty :: "'a logsys_scheme \<Rightarrow> bool" where
  "log_empty s \<longleftrightarrow> lg_dev s = ROOTDEV \<and> lg_size s = int LOGSIZE \<and> 1 < lg_start s \<and> lg_start s + int LOGSIZE \<le> uint FSSIZE \<and>
     sint (sb_logstart (get_sb (disk s ROOTDEV 1))) = lg_start s \<and>
     length (disk s ROOTDEV (head_block s)) = BSIZE \<and> sint (get32 (disk s ROOTDEV (head_block s)) 0) = 0"

lemma log_empty_spent:
  assumes "log_empty s" and "spent s s' k"
  shows "log_empty s'"
  using assms by (simp add: log_empty_def spent_def head_block_def)

lemma log_empty_frame [simp]:
  "log_empty (s\<lparr>lg_outstanding := a\<rparr>) = log_empty s" "log_empty (upd_inode ip f t) = log_empty t"
  "log_empty (t\<lparr>inodes := x\<rparr>) = log_empty t"
  for s :: "'a logsys_scheme" and t :: "'b fssys_scheme"
  by (simp_all add: log_empty_def head_block_def upd_inode_def)

lemma work_txn:
  assumes w: "work s {}" and l: "log_empty s" and n: "0 < lh_n s" "lh_n s < int LOGSIZE"
  shows "txn_ok s (nat (lh_n s))"
proof -
  let ?n = "nat (lh_n s)"
  have lb: "length (lh_block s) = LOGSIZE" by (rule workD(8) [OF w])
  have ll: "length (logged s) = ?n" using n lb by (simp add: logged_def)
  have h: "logged s ! t = home_at s t" if "t < ?n" for t using that n lb by (simp add: logged_def home_at_def)
  have mem: "home_at s t \<in> set (logged s)" if "t < ?n" for t using h [OF that] ll that nth_mem [of t "logged s"] by simp
  have ho: "home_ok (lg_start s) (home_at s t)" if "t < ?n" for t using workD(5) [OF w mem [OF that]] .
  have inj: "t = u" if "t < ?n" "u < ?n" "home_at s t = home_at s u" for t u
    using nth_eq_iff_index_eq [OF workD(7) [OF w], of t u] that h ll by simp
  have pin: "\<exists>j. caches s j (home_at s t) \<and> dirty s j" if "t < ?n" for t using workD(6) [OF w mem [OF that]] .
  have dirty: "\<exists>t < ?n. caches s k (home_at s t)" if "k < 30" "dirty s k" for k
  proof -
    have "\<exists>m \<in> set (logged s). caches s k m" using workD(4) [OF w that] .
    then obtain t where "t < length (logged s)" "caches s k (logged s ! t)" by (metis in_set_conv_nth)
    then show ?thesis using h ll by (intro exI [of _ t]) simp
  qed
  have lo: "log_ok s ?n"
    using l n ho inj unfolding log_ok_def log_empty_def home_ok_def in_log_def by auto
  have "quiet s" using workD(1,2) [OF w] by (auto simp: quiet_def)
  then show ?thesis
    unfolding txn_ok_def using lo n lb pin dirty l ho by (auto simp: log_empty_def home_ok_def)
qed

lemma txn_ok_frame [simp]:
  "txn_ok (s\<lparr>lg_outstanding := a, lg_committing := c\<rparr>) n = txn_ok s n" for s :: "'a logsys_scheme"
  by (simp add: txn_ok_def log_ok_def quiet_def cache_inv_def bio_ring_def free_buf_def held_def clean_def dirty_valid_def Let_def
      caches_def dirty_def home_at_def head_block_def)

subsection \<open>The file on the disk\<close>

definition disk_file :: "(u32 \<Rightarrow> u8 list) \<Rightarrow> superblock \<Rightarrow> u32 \<Rightarrow> u8 list" where
  "disk_file v sb i =
     (let d = disk_inode v sb i in content v
        \<lparr>idev = ROOTDEV, inum = i, iref = 1, ilk = \<lparr>slocked = 0, spid = 0\<rparr>, ivalid = True, itype = dtype d, major = dmajor d,
         minor = dminor d, nlink = dnlink d, isize = dsize d, addrs = daddrs d\<rparr>)"

lemma content_cong: "addrs p = addrs q \<Longrightarrow> isize p = isize q \<Longrightarrow> content v p = content v q"
  by (simp add: content_def fbyte_def slot_def)

lemma disk_file_good:
  assumes g: "file_good st v sb p" and a: "\<And>b. home_ok st b \<Longrightarrow> u b = v b"
  shows "disk_file u sb (inum p) = content v p"
proof -
  have fs: "fs_ok st v sb" and ok: "file_ok st v sb p" and fu: "full v p" and sy: "synced v sb p"
    using g by (simp_all add: file_good_def)
  have "home_ok st (IBLOCK (inum p) sb)" using fs sy unfolding fs_ok_def synced_def by blast
  then have "disk_inode u sb (inum p) = dinode_of p" using sy a by (simp add: disk_inode_def synced_def)
  then have "disk_file u sb (inum p) = content u p"
    unfolding disk_file_def Let_def by (intro content_cong) (simp_all add: dinode_of_def)
  also have "\<dots> = content v p"
  proof -
    have b: "u (slot v p j) = v (slot v p j)" if "j \<le> MAXFILE" "slot v p j \<noteq> 0" for j
      using file_okD(3) [OF ok that] a by (simp add: data_block_def)
    then have s: "slot u p j = slot v p j" if "j \<le> MAXFILE" for j
      using b [of MAXFILE, unfolded slot_ind] by (simp add: slot_def)
    have "fbyte u p i = fbyte v p i" if i: "i < unat (isize p)" for i
    proof -
      have "slot v p (i div BSIZE) \<noteq> 0" "i div BSIZE < MAXFILE"
        using fu i block_in_file [of i] by (auto simp: full_def)
      then show ?thesis using b [of "i div BSIZE"] s [of "i div BSIZE"] by (simp add: fbyte_def)
    qed
    then show ?thesis by (simp add: content_def)
  qed
  finally show ?thesis .
qed

subsection \<open>Properties\<close>

text \<open>C6: inside a transaction with room in the log \<^verbatim>\<open>balloc\<close> takes the first block whose bit is clear, sets that bit and
  no other, zeroes the block and leaves every other block of the disk but the bitmap block of that bit as it is;
  \<^verbatim>\<open>bfree\<close> gives it back, restores the bitmap and changes no other block; with no free block \<^verbatim>\<open>balloc\<close> panics.\<close>
theorem balloc_first_free:
  assumes "work s {}" and "fs_ok (lg_start s) (bview s) (fsb s)" and "2 < room s" and "0 < lg_outstanding s"
  shows "if \<forall>b < sb_size (fsb s). used (bview s) (fsb s) b then balloc ROOTDEV s = Panic ''balloc: out of blocks''
    else \<exists>a s' t. balloc ROOTDEV s = Ret (a, s') \<and> a \<noteq> 0 \<and> a < sb_size (fsb s) \<and> \<not> used (bview s) (fsb s) a \<and>
      (\<forall>b < a. used (bview s) (fsb s) b) \<and> bview s' a = replicate BSIZE 0 \<and>
      (\<forall>b < sb_size (fsb s). used (bview s') (fsb s) b \<longleftrightarrow> b = a \<or> used (bview s) (fsb s) b) \<and>
      (\<forall>b. b \<noteq> a \<longrightarrow> b \<noteq> BBLOCK a (fsb s) \<longrightarrow> bview s' b = bview s b) \<and>
      (\<forall>b. data_block (lg_start s) (bview s) (fsb s) b \<longrightarrow> bview s' b = bview s b) \<and>
      bfree ROOTDEV a s' = Ret t \<and> (\<forall>b. b \<noteq> BBLOCK a (fsb s) \<longrightarrow> bview t b = bview s' b) \<and> (\<forall>b < sb_size (fsb s). used (bview t) (fsb s) b = used (bview s) (fsb s) b)"
proof -
  let ?v = "bview s" and ?sb = "fsb s"
  have bm: "bitmap_ok (lg_start s) ?v ?sb" using assms(2) by (simp add: fs_ok_def)
  have r: "int (card ({} :: nat set)) + 1 < room s" using assms(3) by simp
  show ?thesis
  proof (cases "\<forall>b < sb_size ?sb. used ?v ?sb b")
    case True
    then show ?thesis using balloc_full [OF assms(1) bm] assms(3) by simp
  next
    case False
    then obtain f where f: "f < sb_size ?sb" "\<not> used ?v ?sb f" by blast
    obtain a s' where b: "balloc ROOTDEV s = Ret (a, s')" "a < sb_size ?sb" "\<not> used ?v ?sb a" "\<forall>c < a. used ?v ?sb c"
        "work s' {}" "bview s' = taken ?v ?sb a" "spent s s' 2"
      using balloc_ok [OF assms(1) bm r assms(4) aside_empty f] by blast
    note fr = fresh_block [OF assms(2) b(2,3)] and ut = used_taken [OF bm b(2,3)] and e = work_spentD [OF b(7)]
    have bm': "bitmap_ok (lg_start s') (bview s') (fsb s')" using bitmap_ok_taken [OF bm b(2,3)] b(6) e by simp
    have "0 < room s'" "0 < lg_outstanding s'" "a < sb_size (fsb s')" "used (bview s') (fsb s') a"
      using e assms(3,4) b(2,6) ut [OF b(2)] by simp_all
    then obtain t where t: "bfree ROOTDEV a s' = Ret t" "bview t = cleared (taken ?v ?sb a) ?sb a"
      using bfree_ok [OF b(5) bm'] b(6) e(2) by auto
    have "length (taken ?v ?sb a (BBLOCK a ?sb)) = BSIZE" using bm' b(2,6) e unfolding bitmap_ok_def by simp
    note uc = used_cleared [of "taken ?v ?sb a", OF this]
    have "used (bview t) ?sb b = used ?v ?sb b" if "b < sb_size ?sb" for b
      unfolding t(2) uc ut [OF that] using b(3) by auto
    moreover have "bview s' b = ?v b" if "b \<noteq> a" "b \<noteq> BBLOCK a ?sb" for b
      using that by (simp add: b(6) taken_def)
    moreover have "bview t b = bview s' b" if "b \<noteq> BBLOCK a ?sb" for b
      using that by (simp add: t(2) b(6) cleared_def Let_def)
    ultimately show ?thesis using False b(1-4,6) fr(1,4,5) ut t(1) by simp
  qed
qed

theorem balloc_first_free_witness:
  "\<exists>s'. balloc ROOTDEV (demo_fs 1) = Ret (64, s') \<and> bview s' 64 = replicate BSIZE 0 \<and> used (bview s') demo_sb 64"
proof -
  let ?s = "demo_fs 1"
  have fs: "fs_ok (lg_start ?s) (bview ?s) (fsb ?s)" using demo_fs_ok by (simp add: demo_fs_fields demo_fs_calm)
  have n: "\<not> (\<forall>b < sb_size (fsb ?s). used (bview ?s) (fsb ?s) b)"
    using demo_used [of 64] by (auto simp: demo_fs_fields demo_fs_calm demo_size intro!: exI [of _ 64])
  have r: "2 < room ?s" "0 < lg_outstanding ?s" by (simp_all add: demo_fs_fields)
  obtain a s' where a: "balloc ROOTDEV ?s = Ret (a, s')" "a < 1000" "\<not> used demo_disk demo_sb a"
      "\<forall>b < a. used demo_disk demo_sb b" "bview s' a = replicate BSIZE 0" "used (bview s') demo_sb a"
    using balloc_first_free [OF demo_work fs r, unfolded if_not_P [OF n]]
    unfolding demo_fs_fields demo_fs_calm demo_size by blast
  have "\<not> a < 64" using a(2,3) demo_used by blast
  moreover have "\<not> 64 < a" using a(4) demo_used [of 64] by auto
  ultimately have "a = 64" by simp
  then show ?thesis using a by blast
qed

text \<open>C4: what \<^verbatim>\<open>writei\<close> writes, \<^verbatim>\<open>readi\<close> reads back.  A write of up to three blocks at any offset up to the end of the
  file, which may need new data blocks and an indirect block, replaces those bytes, extends the file at its end
  and writes the inode when it grew; every file that shares no block with it keeps its contents, and every other inode
  on the disk stays.\<close>
theorem writei_readi:
  assumes "work s {}" and "ip < length (inodes s)" and "p = inodes s ! ip" and "itype p \<noteq> T_DEV"
    and "file_good (lg_start s) (bview s) (fsb s) p" and "off \<le> isize p" and "unat off + unat n \<le> MAXFILE * BSIZE"
    and "length src = unat n" and "unat n \<le> 3 * BSIZE" and "25 < room s" and "0 < lg_outstanding s"
    and "8 \<le> frees (bview s) (fsb s)"
  shows "\<exists>s1 s2. writei ip src off n s = Ret (Data (int (unat n)) [], s1) \<and> readi ip off n s1 = Ret (Data (int (unat n)) src, s2) \<and>
    content (bview s1) (inodes s1 ! ip) = take (unat off) (content (bview s) p) @ src @ drop (unat off + unat n) (content (bview s) p) \<and>
    file_good (lg_start s) (bview s1) (fsb s) (inodes s1 ! ip) \<and>
    (\<forall>q. file_ok (lg_start s) (bview s) (fsb s) q \<longrightarrow> full (bview s) q \<longrightarrow> apart (bview s) p q \<longrightarrow>
       content (bview s1) q = content (bview s) q) \<and>
    (\<forall>i < sb_ninodes (fsb s). i \<noteq> inum p \<longrightarrow> disk_inode (bview s1) (fsb s) i = disk_inode (bview s) (fsb s) i)"
proof -
  let ?C = "content (bview s) p"
  have c: "unat off mod BSIZE + unat n \<le> BSIZE * 4" using assms(9) by (simp add: BSIZE_def)
  have r: "6 * int 4 + 1 \<le> room s" "2 * 4 \<le> frees (bview s) (fsb s)" using assms(10,12) by simp_all
  obtain s1 where b: "writei ip src off n s = Ret (Data (int (unat n)) [], s1)" "work s1 {}" "ispent s s1 ip (6 * int 4 + 1)"
      "file_good (lg_start s) (bview s1) (fsb s) (inodes s1 ! ip)"
      "content (bview s1) (inodes s1 ! ip) = take (unat off) ?C @ src @ drop (unat off + unat n) ?C"
      "inodes s1 ! ip = p\<lparr>isize := isize (inodes s1 ! ip), addrs := addrs (inodes s1 ! ip)\<rparr>"
      "\<forall>q. file_ok (lg_start s) (bview s) (fsb s) q \<longrightarrow> apart (bview s) p q \<longrightarrow>
         same_file (lg_start s) (fsb s) (bview s) (bview s1) q"
      "\<forall>i < sb_ninodes (fsb s). i \<noteq> inum p \<longrightarrow> disk_inode (bview s1) (fsb s) i = disk_inode (bview s) (fsb s) i"
    using writei_ok [OF assms(1-8) c r(1) assms(11) r(2)] by blast
  note e = ispentD [OF b(3)]
  let ?q = "inodes s1 ! ip"
  have lC: "length ?C = unat (isize p)" "length (content (bview s1) ?q) = unat (isize ?q)" by (simp_all add: content_def)
  have lo: "unat off \<le> unat (isize p)" using assms(6) by (simp add: word_le_nat_alt)
  then have sz: "unat off + unat n \<le> unat (isize ?q)" using b(5) lC assms(8) by simp
  have ok: "file_ok (lg_start s1) (bview s1) (fsb s1) ?q" "full (bview s1) ?q" using b(4) e by (simp_all add: file_good_def)
  have ty: "itype ?q \<noteq> T_DEV" using assms(4) by (subst b(6)) simp
  have lh: "lh_n s1 < 30" using e(1) assms(10) by (simp add: room_def LOGSIZE_def)
  have sm: "unat off + unat n < 2 ^ 32" using assms(7) by (simp add: MAXFILE_def NDIRECT_def NINDIRECT_def BSIZE_def)
  have oq: "off \<le> isize ?q" using sz by (simp add: word_le_nat_alt)
  obtain s2 where "readi ip off n s1 = Ret (Data (int (min (unat n) (unat (isize ?q) - unat off)))
      (take (unat n) (drop (unat off) (content (bview s1) ?q))), s2)"
    using readi_content [OF b(2) ok(1) lh ok(2) ty oq sm] by blast
  moreover have "take (unat n) (drop (unat off) (content (bview s1) ?q)) = src"
    using lC lo assms(8) by (simp add: b(5))
  moreover have "min (unat n) (unat (isize ?q) - unat off) = unat n" using sz by simp
  moreover have "content (bview s1) q = content (bview s) q"
    if "file_ok (lg_start s) (bview s) (fsb s) q" "full (bview s) q" "apart (bview s) p q" for q
    using b(7) that same_file_content(1) by blast
  ultimately show ?thesis using b(1,4,5,8) by auto
qed

theorem writei_readi_witness:
  "\<exists>s1 s2. writei 0 (replicate 600 9) 2 600 (demo_fs 1) = Ret (Data 600 [], s1) \<and>
     readi 0 2 600 s1 = Ret (Data 600 (replicate 600 9), s2) \<and>
     content (bview s1) (inodes s1 ! 0) = [1, 2] @ replicate 600 9"
proof -
  let ?s = "demo_fs 1"
  have 1: "0 < length (inodes ?s)" "demo_inode = inodes ?s ! 0" "itype demo_inode \<noteq> T_DEV" "2 \<le> isize demo_inode"
      "unat (2 :: u32) + unat (600 :: u32) \<le> MAXFILE * BSIZE" "length (replicate 600 (9 :: u8)) = unat (600 :: u32)"
      "unat (600 :: u32) \<le> 3 * BSIZE" "25 < room ?s" "0 < lg_outstanding ?s"
    by (simp_all add: demo_fs_fields demo_inode_def T_FILE_def T_DEV_def MAXFILE_def NDIRECT_def NINDIRECT_def BSIZE_def)
  have 2: "file_good (lg_start ?s) (bview ?s) (fsb ?s) demo_inode" "8 \<le> frees (bview ?s) (fsb ?s)"
    using demo_file_good demo_frees by (simp_all add: demo_fs_fields demo_fs_calm)
  have "content demo_disk demo_inode = [1, 2, 3, 4]"
  proof -
    have "fbyte demo_disk demo_inode i = [1, 2, 3, 4] ! i" if "i < 4" for i
    proof -
      have "([1, 2, 3, 4] @ replicate 508 0) ! i = ([1, 2, 3, 4] :: u8 list) ! i" using that by (subst nth_append) simp
      then show ?thesis using that demo_slots [of demo_inode 60 0] by (simp add: fbyte_def BSIZE_def) (simp add: demo_disk_def demo_inode_def)
    qed
    then show ?thesis by (intro nth_equalityI) (simp_all add: content_def demo_inode_def)
  qed
  then show ?thesis
    using writei_readi [OF demo_work 1(1-3) 2(1) 1(4-9) 2(2)] by (auto simp: demo_fs_calm)
qed

text \<open>C3: a file write is atomic over a power failure.  A transaction of one \<^verbatim>\<open>writei\<close> of up to three blocks (what
  \<^verbatim>\<open>filewrite\<close> puts into one) always ends; if the power fails after any number of the disk writes of its commit,
  the recovery at the next boot leaves on the disk either the old contents of the file or all of the new ones, in its
  size, its block addresses and its bytes.\<close>
theorem write_survives_crash:
  assumes "calm s" and "lh_n s = 0" and "length (lh_block s) = LOGSIZE" and "lg_outstanding s = 0" and "\<not> lg_committing s"
    and "log_empty s" and "ip < length (inodes s)" and "p = inodes s ! ip" and "itype p \<noteq> T_DEV"
    and "file_good (lg_start s) (bview s) (fsb s) p" and "off \<le> isize p" and "unat off + unat n \<le> MAXFILE * BSIZE"
    and "length src = unat n" and "n \<noteq> 0" and "unat n \<le> 3 * BSIZE" and "8 \<le> frees (bview s) (fsb s)"
  shows "\<exists>s1 s2 t. begin_op s = Ret s1 \<and> writei ip src off n s1 = Ret (Data (int (unat n)) [], s2) \<and> end_op s2 = Ret t \<and>
    (\<forall>k \<le> 2 * nat (lh_n s2) + 2. \<exists>s3 r. commit_cut k (s2\<lparr>lg_outstanding := 0, lg_committing := True\<rparr>) = Ret s3 \<and>
       initlog ROOTDEV (power_cycle s3) = Ret r \<and>
       disk_file (disk r ROOTDEV) (fsb s) (inum p) =
         (if k \<le> nat (lh_n s2) then content (bview s) p
          else take (unat off) (content (bview s) p) @ src @ drop (unat off + unat n) (content (bview s) p)))"
proof -
  let ?v = "bview s" and ?st = "lg_start s" and ?sb = "fsb s" and ?C = "content (bview s) p"
  let ?D = "take (unat off) ?C @ src @ drop (unat off + unat n) ?C"
  define s1 where "s1 = s\<lparr>lg_outstanding := 1\<rparr>"
  have b: "begin_op s = Ret s1" using assms(2,4,5) by (simp add: begin_op_def MAXOPBLOCKS_def LOGSIZE_def s1_def)
  have 1: "lh_n s1 = 0" "length (lh_block s1) = LOGSIZE" "lg_outstanding s1 = 1" "lg_start s1 = ?st" "fsb s1 = ?sb"
      "inodes s1 = inodes s" "bview s1 = ?v" "calm s1" "log_empty s1" "disk s1 = disk s" "\<not> lg_committing s1" "lg_size s1 = int LOGSIZE"
    using assms by (simp_all add: s1_def log_empty_def head_block_def)
  have w: "work s1 {}" by (rule work_start [OF 1(8,1,2)])
  have c: "unat off mod BSIZE + unat n \<le> BSIZE * 4" using assms(15) by (simp add: BSIZE_def)
  have r: "6 * int 4 + 1 \<le> room s1" "0 < lg_outstanding s1" "2 * 4 \<le> frees (bview s1) (fsb s1)"
    using 1 assms(16) by (simp_all add: room_def LOGSIZE_def)
  have g: "file_good (lg_start s1) (bview s1) (fsb s1) p" "ip < length (inodes s1)" "p = inodes s1 ! ip"
    using assms(7,8,10) 1 by simp_all
  obtain s2 where 2: "writei ip src off n s1 = Ret (Data (int (unat n)) [], s2)" "work s2 {}" "ispent s1 s2 ip (6 * int 4 + 1)"
      "file_good ?st (bview s2) ?sb (inodes s2 ! ip)" "content (bview s2) (inodes s2 ! ip) = ?D"
      "inodes s2 ! ip = p\<lparr>isize := isize (inodes s2 ! ip), addrs := addrs (inodes s2 ! ip)\<rparr>" "0 < lh_n s2"
    using writei_ok [OF w g(2,3) assms(9) g(1) assms(11-13) c r] assms(14) unfolding 1 by blast
  note e = ispentD [OF 2(3)] and d = ispent_lh [OF 2(3)]
  have le: "log_empty s2"
  proof -
    have "spent s1 (s2\<lparr>inodes := inodes s1\<rparr>) (6 * int 4 + 1)" using 2(3) by (simp add: ispent_def)
    from log_empty_spent [OF 1(9) this] show ?thesis by simp
  qed
  define n2 where "n2 = nat (lh_n s2)"
  let ?s = "s2\<lparr>lg_outstanding := 0, lg_committing := True\<rparr>"
  have "lh_n s2 < int LOGSIZE" using e(1) r(1) d 1(12) by (simp add: room_def LOGSIZE_def)
  then have x: "txn_ok ?s n2" using work_txn [OF 2(2) le 2(7)] by (simp add: n2_def)
  have st: "lg_start ?s = ?st" using e(3) 1(4) by simp
  have dk: "disk ?s ROOTDEV = ?v" using d 1(10) calm_bview [OF assms(1)] by simp
  have io: "inum (inodes s2 ! ip) = inum p" by (subst 2(6)) simp
  have cut: "\<exists>s3 r. commit_cut k ?s = Ret s3 \<and> (k = 2 * n2 + 2 \<longrightarrow> commit ?s = Ret s3) \<and> initlog ROOTDEV (power_cycle s3) = Ret r \<and>
      disk_file (disk r ROOTDEV) ?sb (inum p) = (if k \<le> n2 then ?C else ?D)" if k: "k \<le> 2 * n2 + 2" for k
  proof -
    obtain s3 where s3: "commit_cut k ?s = Ret s3" "quiet s3" "cut_disk ?s n2 k (disk s3 ROOTDEV)"
      using commit_cut_ok [OF x k] by blast
    obtain q where q: "initlog ROOTDEV (power_cycle s3) = Ret q"
        "\<forall>b. \<not> in_log ?st b \<longrightarrow> disk q ROOTDEV b = (if k \<le> n2 then disk ?s ROOTDEV b else bview ?s b)"
      using recover_after_cut [OF x k s3(2,3)] unfolding st by blast
    have all: "k = 2 * n2 + 2 \<longrightarrow> commit ?s = Ret s3"
      using s3(1) commit_cut_commit [of ?s] 2(7) by (auto simp: n2_def)
    have v: "disk q ROOTDEV b = (if k \<le> n2 then ?v b else bview s2 b)" if "home_ok ?st b" for b
      using q(2) that dk by (simp add: home_ok_def)
    have "disk_file (disk q ROOTDEV) ?sb (inum p) = (if k \<le> n2 then ?C else ?D)"
    proof (cases "k \<le> n2")
      case True
      then show ?thesis using disk_file_good [OF assms(10), of "disk q ROOTDEV"] v by simp
    next
      case False
      then show ?thesis using disk_file_good [OF 2(4), of "disk q ROOTDEV"] v 2(5) unfolding io by simp
    qed
    then show ?thesis using s3(1) all q(1) by blast
  qed
  obtain s3 where "commit ?s = Ret s3" using cut [of "2 * n2 + 2"] by auto
  moreover have "lg_outstanding s2 = 1" "\<not> lg_committing s2"
    using e(2) 1(3,11) 2(3) by (simp_all add: ispent_def spent_def)
  ultimately have "end_op s2 = Ret (s3\<lparr>lg_committing := False\<rparr>)" by (simp add: end_op_def)
  then show ?thesis using b 2(1) cut unfolding n2_def by blast
qed

theorem write_survives_crash_witness:
  "\<exists>s1 s2 r. begin_op (demo_fs 0) = Ret s1 \<and> writei 0 [7, 8] 4 2 s1 = Ret (Data 2 [], s2) \<and>
     (\<exists>s3. commit_cut 0 (s2\<lparr>lg_outstanding := 0, lg_committing := True\<rparr>) = Ret s3 \<and> initlog ROOTDEV (power_cycle s3) = Ret r \<and>
        disk_file (disk r ROOTDEV) demo_sb 1 = content demo_disk demo_inode)"
proof -
  let ?s = "demo_fs 0"
  have 1: "lh_n ?s = 0" "length (lh_block ?s) = LOGSIZE" "lg_outstanding ?s = 0" "\<not> lg_committing ?s"
    by (simp_all add: demo_fs_fields)
  have "head_block ?s = 2" by (simp add: head_block_def demo_fs_fields)
  then have le: "log_empty ?s"
    by (simp add: log_empty_def demo_fs_fields demo_fs_calm get_sb_def LOGSIZE_def FSSIZE_def SWAP_BLOCKS_def)
      (simp add: demo_disk_def get32_zero)
  have 2: "0 < length (inodes ?s)" "demo_inode = inodes ?s ! 0" "itype demo_inode \<noteq> T_DEV"
    by (simp_all add: demo_fs_fields demo_inode_def T_FILE_def T_DEV_def)
  have 3: "file_good (lg_start ?s) (bview ?s) (fsb ?s) demo_inode" "8 \<le> frees (bview ?s) (fsb ?s)"
    using demo_file_good demo_frees by (simp_all add: demo_fs_fields demo_fs_calm)
  have 4: "(4 :: u32) \<le> isize demo_inode" "unat (4 :: u32) + unat (2 :: u32) \<le> MAXFILE * BSIZE"
      "length [7, 8 :: u8] = unat (2 :: u32)" "(2 :: u32) \<noteq> 0" "unat (2 :: u32) \<le> 3 * BSIZE"
    by (simp_all add: demo_inode_def MAXFILE_def NDIRECT_def NINDIRECT_def BSIZE_def)
  obtain s1 s2 where "begin_op ?s = Ret s1" "writei 0 [7, 8] 4 2 s1 = Ret (Data 2 [], s2)"
      "\<exists>s3 r. commit_cut 0 (s2\<lparr>lg_outstanding := 0, lg_committing := True\<rparr>) = Ret s3 \<and> initlog ROOTDEV (power_cycle s3) = Ret r \<and>
         disk_file (disk r ROOTDEV) (fsb ?s) (inum demo_inode) = content (bview ?s) demo_inode"
    using write_survives_crash [OF demo_fs_calm(1) 1 le 2 3(1) 4 3(2)] by fastforce
  moreover have "inum demo_inode = 1" by (simp add: demo_inode_def)
  ultimately show ?thesis unfolding demo_fs_fields demo_fs_calm by metis
qed

end
