(* ===== verification/Dirs.thy ===== *)
theory Dirs
  imports Files
begin

text \<open>
  Directories as tables from names to inode numbers: \<^verbatim>\<open>dirlookup\<close> finds the first live entry of a name, and
  \<^verbatim>\<open>dirlink\<close> adds one without touching the others.
\<close>

text \<open>A name as the directory compares it: up to its NUL, at most \<^verbatim>\<open>DIRSIZ\<close> bytes.\<close>

definition dname :: "u8 list \<Rightarrow> u8 list" where
  "dname xs = take DIRSIZ (takeWhile (\<lambda>c. c \<noteq> 0) xs)"

definition entries :: "u8 list \<Rightarrow> u8 list list" where
  "entries C = map (\<lambda>i. take 16 (drop (16 * i) C)) [0..<length C div 16]"

definition is_entry :: "u8 list \<Rightarrow> u8 list \<Rightarrow> bool" where
  "is_entry name e \<longleftrightarrow> get16 e 0 \<noteq> 0 \<and> dname name = dname (drop 2 e)"

text \<open>The slot and the inode number a directory gives for a name.\<close>

definition dir_find :: "u8 list \<Rightarrow> u8 list \<Rightarrow> (nat \<times> u16) option" where
  "dir_find C name = map_option (\<lambda>i. (i, get16 (entries C ! i) 0)) (find_index (is_entry name) (entries C))"

lemma cstr_chars: "cstr (chars xs) (takeWhile (\<lambda>c. c \<noteq> 0) xs)"
proof -
  let ?w = "takeWhile (\<lambda>c. c \<noteq> 0) xs"
  have "length ?w \<le> length xs" by (rule length_takeWhile_le)
  moreover have "xs ! length ?w = 0" if "length ?w < length xs" using nth_length_takeWhile [OF that] by simp
  ultimately have "chars xs (length ?w) = 0" by (simp add: chars_def)
  moreover have "chars xs i = ?w ! i" if "i < length ?w" for i
    using that \<open>length ?w \<le> length xs\<close> by (simp add: chars_def takeWhile_nth)
  moreover have "0 \<notin> set ?w" by (auto dest: set_takeWhileD)
  ultimately show ?thesis by (simp add: cstr_def)
qed

lemma namecmp_dname: "namecmp a b = 0 \<longleftrightarrow> dname a = dname b"
  unfolding namecmp_def dname_def by (rule strncmp_cstr [OF cstr_chars cstr_chars])

lemma length_dirent [simp]: "length (mk_dirent n name old) = 16"
  by (simp add: mk_dirent_def DIRSIZ_def)

lemma dirent_inum: "get16 (mk_dirent n name old) 0 = ucast n"
  by (simp add: mk_dirent_def get16_def put16_def nth_append)
    (rule bit_word_eqI, auto simp: bit_simps)

lemma takeWhile_pad: "\<forall>c \<in> set xs. c \<noteq> 0 \<Longrightarrow> takeWhile (\<lambda>c. c \<noteq> 0) (xs @ replicate k 0) = xs"
  for xs :: "u8 list"
  by (induction xs) (simp_all add: takeWhile_eq_Nil_iff)

lemma dirent_name: "dname (drop 2 (mk_dirent n name old)) = dname name"
proof -
  let ?w = "takeWhile (\<lambda>c. c \<noteq> 0) name"
  let ?e = "map (strncpy (chars (drop 2 old)) (chars name) (int DIRSIZ)) [0..<DIRSIZ]"
  have "drop 2 (mk_dirent n name old) = ?e" by (simp add: mk_dirent_def)
  moreover have "?e = map (\<lambda>i. if i < length ?w then ?w ! i else 0) [0..<DIRSIZ]"
    by (simp add: strncpy_apply [OF cstr_chars])
  moreover have "dname (map (\<lambda>i. if i < length ?w then ?w ! i else 0) [0..<DIRSIZ]) = take DIRSIZ ?w"
  proof -
    let ?l = "map (\<lambda>i. if i < length ?w then ?w ! i else 0) [0..<DIRSIZ]"
    have "?l = take DIRSIZ ?w @ replicate (DIRSIZ - length ?w) 0"
      by (intro nth_equalityI) (auto simp: nth_append)
    moreover have "\<forall>c \<in> set (take DIRSIZ ?w). c \<noteq> 0" by (auto dest!: in_set_takeD set_takeWhileD)
    then have "takeWhile (\<lambda>c. c \<noteq> 0) (take DIRSIZ ?w @ replicate (DIRSIZ - length ?w) 0) = take DIRSIZ ?w"
      by (rule takeWhile_pad)
    ultimately show ?thesis by (simp add: dname_def)
  qed
  ultimately show ?thesis by (simp add: dname_def)
qed

lemma entries_splice:
  assumes C: "length C = 16 * m" and i: "i \<le> m" and e: "length e = 16"
  shows "entries (take (16 * i) C @ e @ drop (16 * i + 16) C) = take i (entries C) @ e # drop (Suc i) (entries C)"
    (is "entries ?D = ?es")
proof (rule nth_equalityI)
  have lD: "length ?D = 16 * max m (i + 1)" using C i e by (simp add: max_def)
  have lE: "length (entries C) = m" using C by (simp add: entries_def)
  show l: "length (entries ?D) = length ?es" using lD lE i by (simp add: entries_def max_def)
  fix j assume "j < length (entries ?D)"
  then have j: "j < max m (i + 1)" using lD by (simp add: entries_def)
  have ej: "entries ?D ! j = take 16 (drop (16 * j) ?D)" using j lD by (simp add: entries_def)
  consider "j < i" | "j = i" | "i < j" by linarith
  then show "entries ?D ! j = ?es ! j"
  proof cases
    case 1
    then have "take 16 (drop (16 * j) (take (16 * i) C)) = take 16 (drop (16 * j) C)"
      by (simp add: drop_take min_def)
    then show ?thesis unfolding ej using 1 i C lE by (simp add: nth_append entries_def)
  next
    case 2
    then show ?thesis unfolding ej using i C e lE by (simp add: nth_append)
  next
    case 3
    then have "drop (16 * j) ?D = drop (16 * j) C" using i C e by simp
    moreover have "j - i = Suc (j - Suc i)" "Suc i + (j - Suc i) = j" using 3 by simp_all
    ultimately show ?thesis unfolding ej using 3 i j C lE by (simp add: nth_append min_def) (simp add: entries_def max_def split: if_splits)
  qed
qed

lemma find_index_drop:
  "i < length xs \<Longrightarrow> find_index P (drop i xs) = (if P (xs ! i) then Some 0 else map_option Suc (find_index P (drop (Suc i) xs)))"
  by (simp add: Cons_nth_drop_Suc [symmetric])

lemma find_index_update:
  assumes "i < length xs" and "\<not> P (xs ! i)" and "\<not> P y"
  shows "find_index P (xs[i := y]) = find_index P xs"
  using assms by (induction xs arbitrary: i) (auto split: nat.splits simp: nth_Cons list_update.simps)

lemma find_index_append: "find_index P (xs @ ys) = (case find_index P xs of Some i \<Rightarrow> Some i | None \<Rightarrow> map_option (\<lambda>i. length xs + i) (find_index P ys))"
  by (induction xs) (cases "find_index P ys", auto split: option.splits)+

subsection \<open>The operations\<close>

text \<open>A directory that can be read: its size is a whole number of entries.\<close>

definition dir_ok :: "'a fssys_scheme \<Rightarrow> nat \<Rightarrow> bool" where
  "dir_ok s dp \<longleftrightarrow> dp < length (inodes s) \<and> itype (inodes s ! dp) = T_DIR \<and>
     file_good (lg_start s) (bview s) (fsb s) (inodes s ! dp) \<and> unat (isize (inodes s ! dp)) mod 16 = 0"

lemma dir_read:
  assumes w: "work s {}" and d: "dir_ok s dp" and lh: "lh_n s < 30" and C: "C = content (bview s) (inodes s ! dp)"
    and i: "i < length (entries C)"
  shows "\<exists>s'. readi dp (of_nat (16 * i)) 16 s = Ret (Data 16 (entries C ! i), s') \<and> work s' {} \<and> bview s' = bview s \<and> spent s s' 0"
proof -
  let ?p = "inodes s ! dp"
  have g: "file_ok (lg_start s) (bview s) (fsb s) ?p" "full (bview s) ?p" "itype ?p \<noteq> T_DEV"
    using d by (simp_all add: dir_ok_def file_good_def T_DIR_def T_DEV_def)
  have lC: "length C = unat (isize ?p)" by (simp add: C content_def)
  have m: "16 * i + 16 \<le> unat (isize ?p)"
    using i d lC by (simp add: entries_def dir_ok_def)
  have sz: "unat (isize ?p) \<le> MAXFILE * BSIZE" using g(2) by (simp add: full_def)
  then have u: "unat (of_nat (16 * i) :: u32) = 16 * i"
    using m by (intro unat_of_nat_less) (simp add: MAXFILE_def NDIRECT_def NINDIRECT_def BSIZE_def)
  have off: "of_nat (16 * i) \<le> isize ?p" "unat (of_nat (16 * i) :: u32) + unat (16 :: u32) < 2 ^ 32"
    using m sz u by (simp_all add: word_le_nat_alt MAXFILE_def NDIRECT_def NINDIRECT_def BSIZE_def)
  have "min 16 (unat (isize ?p) - 16 * i) = 16" using m by simp
  then show ?thesis
    using readi_content [OF w g(1) lh g(2,3) off] i unfolding u C [symmetric] by (simp add: entries_def)
qed

lemma dir_spent:
  assumes "spent s s' k" and "bview s' = bview s"
  shows "dir_ok s' dp = dir_ok s dp" and "content (bview s') (inodes s' ! dp) = content (bview s) (inodes s ! dp)"
  using work_spentD [OF assms(1)] assms(2) by (simp_all add: dir_ok_def)

lemma dir_size:
  assumes d: "dir_ok s dp" and C: "C = content (bview s) (inodes s ! dp)"
  shows "unat (isize (inodes s ! dp)) = 16 * length (entries C)" and "16 * length (entries C) \<le> MAXFILE * BSIZE"
    and "i \<le> length (entries C) \<Longrightarrow> unat (of_nat (16 * i) :: u32) = 16 * i"
    and "i \<le> length (entries C) \<Longrightarrow> of_nat (16 * i) < isize (inodes s ! dp) \<longleftrightarrow> i < length (entries C)"
proof -
  let ?z = "unat (isize (inodes s ! dp))"
  show z: "?z = 16 * length (entries C)" using d by (auto simp: dir_ok_def entries_def C content_def)
  show le: "16 * length (entries C) \<le> MAXFILE * BSIZE" using d z by (simp add: dir_ok_def file_good_def full_def)
  show u: "unat (of_nat (16 * i) :: u32) = 16 * i" if "i \<le> length (entries C)" for i
    using le that by (intro unat_of_nat_less) (simp add: MAXFILE_def NDIRECT_def NINDIRECT_def BSIZE_def)
  show "of_nat (16 * i) < isize (inodes s ! dp) \<longleftrightarrow> i < length (entries C)" if "i \<le> length (entries C)"
    unfolding word_less_nat_alt u [OF that] z by simp
qed

lemma lookup_from_ok:
  assumes "work s {}" and "dir_ok s dp" and "lh_n s < 30" and "C = content (bview s) (inodes s ! dp)"
    and "i \<le> length (entries C)" and "length (entries C) < i + k"
  shows "\<exists>s'. work s' {} \<and> bview s' = bview s \<and> spent s s' 0 \<and> lookup_from k dp name (of_nat (16 * i)) s =
    (case find_index (is_entry name) (drop i (entries C)) of
       None \<Rightarrow> Ret (None, s')
     | Some j \<Rightarrow> bindR (iget ROOTDEV (ucast (get16 (entries C ! (i + j)) 0)) s') (\<lambda>(n, s). Ret (Some (n, of_nat (16 * (i + j))), s)))"
  using assms
proof (induction k arbitrary: i s)
  case (Suc k)
  let ?E = "entries C"
  note sz = dir_size [OF Suc.prems(2,4)]
  show ?case
  proof (cases "i < length ?E")
    case False
    then have "lookup_from (Suc k) dp name (of_nat (16 * i)) s = Ret (None, s)" using sz(4) Suc.prems(5) by simp
    then show ?thesis using False Suc.prems(1) by (intro exI [of _ s]) simp
  next
    case True
    obtain s1 where r: "readi dp (of_nat (16 * i)) 16 s = Ret (Data 16 (?E ! i), s1)" "work s1 {}" "bview s1 = bview s" "spent s s1 0"
      using dir_read [OF Suc.prems(1-4) True] by blast
    note e = work_spentD [OF r(4)] and ds = dir_spent [OF r(4,3)]
    have lh: "lh_n s1 < 30" using r(4) Suc.prems(3) by (auto simp: spent_def room_def)
    have dev: "idev (inodes s1 ! dp) = ROOTDEV"
      using Suc.prems(2) e(3) file_okD(1) by (auto simp: dir_ok_def file_good_def)
    have lt: "of_nat (16 * i) < isize (inodes s ! dp)" using sz(4) True by simp
    have step: "lookup_from (Suc k) dp name (of_nat (16 * i)) s =
        (if is_entry name (?E ! i) then bindR (iget ROOTDEV (ucast (get16 (?E ! i) 0)) s1) (\<lambda>(n, s). Ret (Some (n, of_nat (16 * i)), s))
         else lookup_from k dp name (of_nat (16 * Suc i)) s1)"
      using lt r(1) dev by (simp add: is_entry_def namecmp_dname add.commute)
    show ?thesis
    proof (cases "is_entry name (?E ! i)")
      case m: True
      then have "find_index (is_entry name) (drop i ?E) = Some 0" using True by (simp add: find_index_drop)
      then show ?thesis unfolding step using m r(2-4) by (intro exI [of _ s1]) simp
    next
      case m: False
      have "C = content (bview s1) (inodes s1 ! dp)" "Suc i \<le> length ?E" "length ?E < Suc i + k"
        using Suc.prems(4,6) ds(2) True by simp_all
      from Suc.IH [OF r(2) _ lh this] ds(1) Suc.prems(2) obtain s' where ih: "work s' {}" "bview s' = bview s1" "spent s1 s' 0"
          "lookup_from k dp name (of_nat (16 * Suc i)) s1 = (case find_index (is_entry name) (drop (Suc i) ?E) of
             None \<Rightarrow> Ret (None, s')
           | Some j \<Rightarrow> bindR (iget ROOTDEV (ucast (get16 (?E ! (Suc i + j)) 0)) s')
               (\<lambda>(n, s). Ret (Some (n, of_nat (16 * (Suc i + j))), s)))"
        by blast
      have f: "find_index (is_entry name) (drop i ?E) = map_option Suc (find_index (is_entry name) (drop (Suc i) ?E))"
        using True m by (simp add: find_index_drop)
      have "spent s s' 0" using spent_trans [OF r(4) ih(3), of 0] by simp
      then show ?thesis
        unfolding step f using m ih r(3)
        by (intro exI [of _ s']) (cases "find_index (is_entry name) (drop (Suc i) ?E)"; simp)
    qed
  qed
qed simp

lemma dirlookup_ok:
  assumes "work s {}" and d: "dir_ok s dp" and "lh_n s < 30" and C: "C = content (bview s) (inodes s ! dp)"
  shows "\<exists>s'. work s' {} \<and> bview s' = bview s \<and> spent s s' 0 \<and> dirlookup dp name s =
    (case dir_find C name of
       None \<Rightarrow> Ret (None, s')
     | Some (k, n) \<Rightarrow> bindR (iget ROOTDEV (ucast n) s') (\<lambda>(i, s). Ret (Some (i, of_nat (16 * k)), s)))"
proof -
  have f: "length (entries C) < 0 + (unat (isize (inodes s ! dp)) div 16 + 2)" using dir_size(1) [OF d C] by simp
  have "dirlookup dp name s = lookup_from (unat (isize (inodes s ! dp)) div 16 + 2) dp name (of_nat (16 * 0)) s"
    using d by (simp add: dirlookup_def dir_ok_def)
  moreover obtain s' where "work s' {}" "bview s' = bview s" "spent s s' 0"
      "lookup_from (unat (isize (inodes s ! dp)) div 16 + 2) dp name (of_nat (16 * 0)) s =
       (case find_index (is_entry name) (drop 0 (entries C)) of
          None \<Rightarrow> Ret (None, s')
        | Some j \<Rightarrow> bindR (iget ROOTDEV (ucast (get16 (entries C ! (0 + j)) 0)) s') (\<lambda>(n, s). Ret (Some (n, of_nat (16 * (0 + j))), s)))"
    using lookup_from_ok [OF assms(1-4) _ f] by blast
  ultimately show ?thesis
    by (intro exI [of _ s']) (cases "find_index (is_entry name) (entries C)"; simp add: dir_find_def del: lookup_from.simps)
qed

text \<open>The first free entry, or the end.\<close>

definition first_free :: "u8 list list \<Rightarrow> nat" where
  "first_free es = (case find_index (\<lambda>e. get16 e 0 = 0) es of Some j \<Rightarrow> j | None \<Rightarrow> length es)"

lemma first_free_drop:
  "i < length es \<Longrightarrow> first_free (drop i es) = (if get16 (es ! i) 0 = 0 then 0 else Suc (first_free (drop (Suc i) es)))"
  by (auto simp: first_free_def find_index_drop split: option.splits)

lemma first_free_le: "first_free es \<le> length es"
  by (auto simp: first_free_def split: option.splits dest: find_index_SomeD)

lemma first_free_first:
  "(\<forall>j < first_free es. get16 (es ! j) 0 \<noteq> 0) \<and> (first_free es < length es \<longrightarrow> get16 (es ! first_free es) 0 = 0)"
  by (auto simp: first_free_def find_index_None find_index_Some split: option.splits)

lemma empty_from_ok:
  assumes "work s {}" and "dir_ok s dp" and "lh_n s < 30" and "C = content (bview s) (inodes s ! dp)"
    and "i \<le> length (entries C)" and "length (entries C) < i + k"
  shows "\<exists>s' d. work s' {} \<and> bview s' = bview s \<and> spent s s' 0 \<and>
    empty_from k dp (of_nat (16 * i)) de s = Ret (of_nat (16 * (i + first_free (drop i (entries C)))), d, s')"
  using assms
proof (induction k arbitrary: i s de)
  case (Suc k)
  let ?E = "entries C"
  note sz = dir_size [OF Suc.prems(2,4)]
  show ?case
  proof (cases "i < length ?E")
    case False
    then have "empty_from (Suc k) dp (of_nat (16 * i)) de s = Ret (of_nat (16 * i), de, s)" using sz(4) Suc.prems(5) by simp
    then show ?thesis using False Suc.prems(1) by (intro exI [of _ s] exI [of _ de]) (simp add: first_free_def)
  next
    case True
    obtain s1 where r: "readi dp (of_nat (16 * i)) 16 s = Ret (Data 16 (?E ! i), s1)" "work s1 {}" "bview s1 = bview s" "spent s s1 0"
      using dir_read [OF Suc.prems(1-4) True] by blast
    note ds = dir_spent [OF r(4,3)]
    have lh: "lh_n s1 < 30" using r(4) Suc.prems(3) by (auto simp: spent_def room_def)
    have lt: "of_nat (16 * i) < isize (inodes s ! dp)" using sz(4) True by simp
    have step: "empty_from (Suc k) dp (of_nat (16 * i)) de s =
        (if get16 (?E ! i) 0 = 0 then Ret (of_nat (16 * i), ?E ! i, s1) else empty_from k dp (of_nat (16 * Suc i)) (?E ! i) s1)"
      using lt r(1) by (simp add: add.commute)
    show ?thesis
    proof (cases "get16 (?E ! i) 0 = 0")
      case z: True
      then show ?thesis unfolding step using r(2-4) True by (intro exI [of _ s1]) (simp add: first_free_drop)
    next
      case z: False
      have "C = content (bview s1) (inodes s1 ! dp)" "Suc i \<le> length ?E" "length ?E < Suc i + k"
        using Suc.prems(4,6) ds(2) True by simp_all
      from Suc.IH [OF r(2) _ lh this] ds(1) Suc.prems(2) obtain s' d where ih: "work s' {}" "bview s' = bview s1" "spent s1 s' 0"
          "empty_from k dp (of_nat (16 * Suc i)) (?E ! i) s1 = Ret (of_nat (16 * (Suc i + first_free (drop (Suc i) ?E))), d, s')"
        by blast
      have "spent s s' 0" using spent_trans [OF r(4) ih(3), of 0] by simp
      then show ?thesis
        unfolding step first_free_drop [OF True] using z ih r(3) by (intro exI [of _ s'] exI [of _ d]) simp
    qed
  qed
qed simp

text \<open>Putting an entry for a new name into a free slot.\<close>

lemma dir_find_new:
  assumes C: "length C = 16 * m" and new: "dir_find C name = None" and k: "k = first_free (entries C)"
    and e: "length e = 16" "get16 e 0 = n" "n \<noteq> 0" "dname (drop 2 e) = dname name"
  shows "dir_find (take (16 * k) C @ e @ drop (16 * k + 16) C) nm = (if dname nm = dname name then Some (k, n) else dir_find C nm)"
proof -
  let ?E = "entries C" and ?D = "take (16 * k) C @ e @ drop (16 * k + 16) C"
  have lE: "length ?E = m" using C by (simp add: entries_def)
  have km: "k \<le> m" using first_free_le [of ?E] lE k by simp
  have D: "entries ?D = take k ?E @ e # drop (Suc k) ?E" by (rule entries_splice [OF C km e(1)])
  have ie: "is_entry x e \<longleftrightarrow> dname x = dname name" for x using e by (simp add: is_entry_def)
  have none: "\<not> is_entry nm y" if "y \<in> set ?E" "dname nm = dname name" for y
    using new that by (auto simp: dir_find_def find_index_None is_entry_def)
  show ?thesis
  proof (cases "dname nm = dname name")
    case True
    have "find_index (is_entry nm) (take k ?E) = None"
      using none [OF _ True] by (auto simp: find_index_None dest: in_set_takeD)
    then have "find_index (is_entry nm) (entries ?D) = Some k"
      using ie [of nm] True km lE by (simp add: D find_index_append)
    moreover have "entries ?D ! k = e" using km lE by (simp add: D nth_append)
    ultimately show ?thesis using True e(2) by (simp add: dir_find_def)
  next
    case False
    then have ne: "\<not> is_entry nm e" using ie by simp
    show ?thesis
    proof (cases "k < m")
      case True
      then have "get16 (?E ! k) 0 = 0" using k lE by (auto simp: first_free_def split: option.splits dest: find_index_SomeD)
      then have ok: "\<not> is_entry nm (?E ! k)" by (simp add: is_entry_def)
      have u: "entries ?D = ?E[k := e]" using True lE by (simp add: D upd_conv_take_nth_drop)
      have "find_index (is_entry nm) (entries ?D) = find_index (is_entry nm) ?E"
        unfolding u by (rule find_index_update) (use True lE ok ne in simp_all)
      moreover have "i \<noteq> k" if "find_index (is_entry nm) ?E = Some i" for i
        using find_index_SomeD [OF that] ok by auto
      ultimately show ?thesis using False by (cases "find_index (is_entry nm) ?E") (auto simp: dir_find_def u)
    next
      case o: False
      then have km': "k = m" using km by simp
      have u: "entries ?D = ?E @ [e]" unfolding D using km' lE by simp
      have "find_index (is_entry nm) (entries ?D) = find_index (is_entry nm) ?E"
        unfolding u using ne by (simp add: find_index_append split: option.splits)
      then show ?thesis
        using False by (cases "find_index (is_entry nm) ?E") (auto simp: dir_find_def u nth_append dest: find_index_SomeD)
    qed
  qed
qed

lemma dirlink_ok:
  assumes w: "work s {}" and d: "dir_ok s dp" and C: "C = content (bview s) (inodes s ! dp)"
    and new: "dir_find C name = None" and n: "ucast n \<noteq> (0 :: u16)"
    and r: "6 < room s" "0 < lg_outstanding s" "2 \<le> frees (bview s) (fsb s)" and fit: "length C + 16 \<le> MAXFILE * BSIZE"
  shows "\<exists>s'. dirlink dp name n de s = Ret (0, s') \<and> work s' {} \<and> dir_ok s' dp \<and> ispent s s' dp 7 \<and>
    (\<forall>nm. dir_find (content (bview s') (inodes s' ! dp)) nm =
       (if dname nm = dname name then Some (first_free (entries C), ucast n) else dir_find C nm)) \<and>
    length (content (bview s') (inodes s' ! dp)) = 16 * max (length (entries C)) (first_free (entries C) + 1)"
proof -
  let ?E = "entries C" and ?k = "first_free (entries C)" and ?p = "inodes s ! dp"
  have lh: "lh_n s < 30" using r(1) by (simp add: room_def LOGSIZE_def)
  note sz = dir_size [OF d C]
  have lC: "length C = 16 * length ?E" using sz(1) by (simp add: C content_def)
  have km: "?k \<le> length ?E" by (rule first_free_le)
  obtain s1 where 1: "work s1 {}" "bview s1 = bview s" "spent s s1 0" "dirlookup dp name s = Ret (None, s1)"
    using dirlookup_ok [OF w d lh C, of name] unfolding new by auto
  note d1 = dir_spent [OF 1(3,2)] and e1 = work_spentD [OF 1(3)]
  have lh1: "lh_n s1 < 30" using 1(3) lh by (auto simp: spent_def room_def)
  have C1: "C = content (bview s1) (inodes s1 ! dp)" using d1(2) C by simp
  have f: "length ?E < 0 + (unat (isize (inodes s1 ! dp)) div 16 + 2)" using sz(1) e1(3) by simp
  obtain s2 de' where 2: "work s2 {}" "bview s2 = bview s1" "spent s1 s2 0"
      "empty_from (unat (isize (inodes s1 ! dp)) div 16 + 2) dp (of_nat (16 * 0)) de s1 =
        Ret (of_nat (16 * (0 + first_free (drop 0 ?E))), de', s2)"
    using empty_from_ok [OF 1(1) _ lh1 C1 _ f] d d1(1) by blast
  note e2 = work_spentD [OF 2(3)]
  let ?off = "of_nat (16 * ?k) :: u32" and ?e = "mk_dirent n name de'"
  have same: "inodes s2 = inodes s" "lg_start s2 = lg_start s" "fsb s2 = fsb s" "bview s2 = bview s" using e1 e2 1(2) 2(2) by simp_all
  have off: "unat ?off = 16 * ?k" by (rule sz(3) [OF km])
  have g: "file_good (lg_start s2) (bview s2) (fsb s2) ?p" "itype ?p \<noteq> T_DEV" "dp < length (inodes s2)" "?p = inodes s2 ! dp"
    using d same by (simp_all add: dir_ok_def T_DIR_def T_DEV_def)
  have o1: "?off \<le> isize ?p" unfolding word_le_nat_alt off sz(1) using km by simp
  have o2: "unat ?off + unat (16 :: u32) \<le> MAXFILE * BSIZE" unfolding off using km lC fit by simp
  have o3: "unat ?off mod BSIZE + unat (16 :: u32) \<le> BSIZE * 1"
  proof -
    have "16 * ?k mod 512 = 16 * (?k mod 32)" by (simp add: mult_mod_right)
    moreover have "?k mod 32 < 32" by simp
    ultimately have "16 * ?k mod 512 + 16 \<le> 512" by linarith
    then show ?thesis unfolding off by (simp add: BSIZE_def)
  qed
  have rr: "6 * int 1 + 1 \<le> room s2" "0 < lg_outstanding s2" "2 * 1 \<le> frees (bview s2) (fsb s2)"
    using e1 e2 r same by simp_all
  have le: "length ?e = unat (16 :: u32)" by simp
  obtain s3 where 3: "writei dp ?e ?off 16 s2 = Ret (Data (int (unat (16 :: u32))) [], s3)" "work s3 {}" "ispent s2 s3 dp (6 * int 1 + 1)"
      "file_good (lg_start s2) (bview s3) (fsb s2) (inodes s3 ! dp)"
      "content (bview s3) (inodes s3 ! dp) = take (16 * ?k) C @ ?e @ drop (16 * ?k + unat (16 :: u32)) C"
      "inodes s3 ! dp = ?p\<lparr>isize := isize (inodes s3 ! dp), addrs := addrs (inodes s3 ! dp)\<rparr>"
    using writei_ok [OF 2(1) g(3,4,2,1) o1 o2 le o3 rr] unfolding off same(4) C [symmetric] by blast
  note e3 = ispentD [OF 3(3)]
  have c3: "content (bview s3) (inodes s3 ! dp) = take (16 * ?k) C @ ?e @ drop (16 * ?k + 16) C" using 3(5) by simp
  have "dirlink dp name n de s = Ret (0, s3)"
    using 1(4) 2(4) 3(1) by (simp add: dirlink_def del: empty_from.simps)
  moreover have "ispent s s3 dp 7"
    by (rule ispent_trans [OF ispent_spent [OF 1(3)] ispent_trans [OF ispent_spent [OF 2(3)] 3(3) order_refl]]) simp
  moreover have lc3: "length (content (bview s3) (inodes s3 ! dp)) = 16 * max (length ?E) (?k + 1)"
    unfolding c3 using lC km by (simp add: max_def)
  moreover have "dir_ok s3 dp"
  proof -
    have "unat (isize (inodes s3 ! dp)) = 16 * max (length ?E) (?k + 1)"
      unfolding lc3 [symmetric] by (simp add: content_def)
    then have "unat (isize (inodes s3 ! dp)) mod 16 = 0" by simp
    moreover have "itype (inodes s3 ! dp) = T_DIR" using d by (subst 3(6)) (simp add: dir_ok_def)
    ultimately show ?thesis using 3(4) e3 same d by (simp add: dir_ok_def)
  qed
  moreover have "dir_find (content (bview s3) (inodes s3 ! dp)) nm =
      (if dname nm = dname name then Some (?k, ucast n) else dir_find C nm)" for nm
    unfolding c3 using n by (intro dir_find_new [OF lC new refl]) (simp_all add: dirent_inum dirent_name)
  ultimately show ?thesis using 3(2) by blast
qed

text \<open>C5: \<^verbatim>\<open>dirlink\<close> of a name the directory does not have succeeds.  The name goes into the first entry \<open>k\<close> whose inode
  number is 0, or behind the last entry if there is none, and only then the directory grows; from then on \<^verbatim>\<open>dirlookup\<close> finds that name, or any name with the same first \<^verbatim>\<open>DIRSIZ\<close> bytes, at that entry with the inode number
  given, and every other name exactly as before; the directory stays well formed.\<close>
theorem dirlink_then_lookup:
  assumes "work s {}" and "dir_ok s dp" and "dir_find (content (bview s) (inodes s ! dp)) name = None"
    and "ucast n \<noteq> (0 :: u16)" and "7 < room s" and "0 < lg_outstanding s" and "2 \<le> frees (bview s) (fsb s)"
    and "unat (isize (inodes s ! dp)) + 16 \<le> MAXFILE * BSIZE"
  defines "es \<equiv> entries (content (bview s) (inodes s ! dp))"
  shows "\<exists>s' k. dirlink dp name n de s = Ret (0, s') \<and> dir_ok s' dp \<and>
    k \<le> length es \<and> (\<forall>j < k. get16 (es ! j) 0 \<noteq> 0) \<and> (k < length es \<longrightarrow> get16 (es ! k) 0 = 0) \<and>
    length (content (bview s') (inodes s' ! dp)) = 16 * max (length es) (k + 1) \<and>
    (\<forall>nm. \<exists>t. bview t = bview s' \<and> inodes t = inodes s' \<and> dirlookup dp nm s' =
       (case if dname nm = dname name then Some (k, ucast n) else dir_find (content (bview s) (inodes s ! dp)) nm of
          None \<Rightarrow> Ret (None, t)
        | Some (j, i) \<Rightarrow> bindR (iget ROOTDEV (ucast i) t) (\<lambda>(ip, s). Ret (Some (ip, of_nat (16 * j)), s))))"
proof -
  let ?C = "content (bview s) (inodes s ! dp)"
  have r: "6 < room s" "length ?C + 16 \<le> MAXFILE * BSIZE" using assms(5,8) by (simp_all add: content_def)
  obtain s' where s': "dirlink dp name n de s = Ret (0, s')" "work s' {}" "dir_ok s' dp" "ispent s s' dp 7"
      "\<forall>nm. dir_find (content (bview s') (inodes s' ! dp)) nm =
         (if dname nm = dname name then Some (first_free (entries ?C), ucast n) else dir_find ?C nm)"
      "length (content (bview s') (inodes s' ! dp)) = 16 * max (length (entries ?C)) (first_free (entries ?C) + 1)"
    using dirlink_ok [OF assms(1,2) refl assms(3,4) r(1) assms(6,7) r(2)] by blast
  have lh: "lh_n s' < 30" using ispentD(1) [OF s'(4)] assms(5) by (simp add: room_def LOGSIZE_def)
  have "\<exists>t. bview t = bview s' \<and> inodes t = inodes s' \<and> dirlookup dp nm s' =
       (case if dname nm = dname name then Some (first_free (entries ?C), ucast n) else dir_find ?C nm of
          None \<Rightarrow> Ret (None, t)
        | Some (j, i) \<Rightarrow> bindR (iget ROOTDEV (ucast i) t) (\<lambda>(ip, s). Ret (Some (ip, of_nat (16 * j)), s)))" for nm
    using dirlookup_ok [OF s'(2,3) lh refl, of nm] work_spentD(3) unfolding s'(5) [rule_format] by blast
  then show ?thesis using s'(1,3,6) first_free_le [of "entries ?C"] first_free_first [of "entries ?C"] unfolding es_def by blast
qed

lemma demo_dir_content: "content demo_disk demo_dir = [5, 0, 97] @ replicate 13 0"
proof -
  have "fbyte demo_disk demo_dir i = ([5, 0, 97] @ replicate 13 0) ! i" if "i < 16" for i
  proof -
    have "([5, 0, 97] @ replicate 509 0) ! i = ([5, 0, 97] @ replicate 13 0 :: u8 list) ! i"
      unfolding nth_append using that by simp
    then show ?thesis
      using that demo_slots [of demo_dir 61 0] by (simp add: fbyte_def BSIZE_def) (simp add: demo_disk_def demo_dir_def)
  qed
  then show ?thesis by (intro nth_equalityI) (simp_all add: content_def demo_dir_def)
qed

theorem dirlink_then_lookup_witness:
  "\<exists>s' t. dirlink 1 [98] 7 (replicate 16 0) (demo_fs 1) = Ret (0, s') \<and> bview t = bview s' \<and>
     dirlookup 1 [98, 0, 99] s' = bindR (iget ROOTDEV 7 t) (\<lambda>(ip, s). Ret (Some (ip, 16), s))"
proof -
  let ?s = "demo_fs 1"
  have d: "dir_ok ?s 1" using demo_dir_good by (simp add: dir_ok_def demo_fs_fields demo_fs_calm) (simp add: demo_dir_def)
  have "dir_find ([5, 0, 97] @ replicate 13 0) [98] = None" by code_simp
  then have f: "dir_find (content (bview ?s) (inodes ?s ! 1)) [98] = None"
    by (simp add: demo_fs_fields demo_fs_calm demo_dir_content)
  have r: "7 < room ?s" "0 < lg_outstanding ?s" "2 \<le> frees (bview ?s) (fsb ?s)" "ucast (7 :: u32) \<noteq> (0 :: u16)"
      "unat (isize (inodes ?s ! 1)) + 16 \<le> MAXFILE * BSIZE"
    using demo_frees by (simp_all add: demo_fs_fields demo_fs_calm demo_dir_def MAXFILE_def NDIRECT_def NINDIRECT_def BSIZE_def)
  have e: "dname [98, 0, 99] = dname [98]" by (simp add: dname_def)
  have e1: "entries (content (bview ?s) (inodes ?s ! 1)) = [[5, 0, 97] @ replicate 13 0]"
    by (simp add: demo_fs_fields demo_fs_calm demo_dir_content) (simp add: entries_def)
  obtain s' k where l: "dirlink 1 [98] 7 (replicate 16 0) ?s = Ret (0, s')"
      "k \<le> 1" "k < 1 \<longrightarrow> get16 ([5, 0, 97] @ replicate 13 0) 0 = 0"
      "\<forall>nm. \<exists>t. bview t = bview s' \<and> inodes t = inodes s' \<and> dirlookup 1 nm s' =
       (case if dname nm = dname [98] then Some (k, ucast (7 :: u32)) else dir_find (content (bview ?s) (inodes ?s ! 1)) nm of
          None \<Rightarrow> Ret (None, t)
        | Some (j, i) \<Rightarrow> bindR (iget ROOTDEV (ucast i) t) (\<lambda>(ip, s). Ret (Some (ip, of_nat (16 * j)), s)))"
    using dirlink_then_lookup [OF demo_work d f r(4,1,2,3,5), of "replicate 16 0"] unfolding e1 by force
  have "get16 ([5, 0, 97] @ replicate 13 0) 0 = 5" by (simp add: get16_def)
  then have k: "k = 1" using l(2,3) by simp
  show ?thesis using l(1) l(4) [unfolded k, rule_format, of "[98, 0, 99]"] unfolding if_P [OF e] by auto
qed

subsection \<open>Paths\<close>

text \<open>The path elements as \<^verbatim>\<open>namex\<close> meets them: what it gets by calling \<^verbatim>\<open>skipelem\<close> until it returns 0.\<close>

function elems :: "u8 list \<Rightarrow> u8 list \<Rightarrow> u8 list list" where
  "elems path name = (case skipelem path name of None \<Rightarrow> [] | Some (rest, name) \<Rightarrow> dname name # elems rest name)"
  by pat_completeness auto
termination by (relation "measure (\<lambda>(path, name). length path)") (auto dest: skipelem_length)

declare elems.simps [simp del]

text \<open>The reference: cut the path at every slash and leave out the empty pieces.\<close>

fun pieces :: "u8 list \<Rightarrow> u8 list list" where
  "pieces [] = [[]]"
| "pieces (c # cs) = (if c = slash then [] # pieces cs else (c # hd (pieces cs)) # tl (pieces cs))"

definition path_names :: "u8 list \<Rightarrow> u8 list list" where
  "path_names path = map (take DIRSIZ) (filter (\<lambda>s. s \<noteq> []) (pieces path))"

lemma pieces_nonempty: "pieces p \<noteq> []"
  by (induction p) auto

lemma pieces_slash: "filter (\<lambda>s. s \<noteq> []) (pieces (dropWhile (\<lambda>c. c = slash) p)) = filter (\<lambda>s. s \<noteq> []) (pieces p)"
  by (induction p) auto

lemma pieces_elem: "pieces p = takeWhile (\<lambda>c. c \<noteq> slash) p #
    (case dropWhile (\<lambda>c. c \<noteq> slash) p of [] \<Rightarrow> [] | _ # r \<Rightarrow> pieces r)"
  by (induction p) auto

lemma skipelem_pieces:
  assumes "skipelem path name = Some (rest, nm)" and z: "0 \<notin> set path"
  shows "path_names path = dname nm # path_names rest" and "0 \<notin> set rest"
proof -
  let ?p = "dropWhile (\<lambda>c. c = slash) path"
  let ?s = "takeWhile (\<lambda>c. c \<noteq> slash) ?p" and ?r = "dropWhile (\<lambda>c. c \<noteq> slash) ?p"
  have p: "?p \<noteq> []" and rest: "rest = dropWhile (\<lambda>c. c = slash) ?r"
    and nm: "nm = (if length ?s \<ge> DIRSIZ then take DIRSIZ ?s else ?s @ [0] @ drop (length ?s + 1) name)"
    using assms(1) by (auto simp: skipelem_def Let_def split: if_splits)
  have zs: "\<forall>c \<in> set ?s. c \<noteq> 0" using z by (auto dest!: set_takeWhileD set_dropWhileD)
  show "0 \<notin> set rest" using z unfolding rest by (auto dest!: set_dropWhileD)
  have "hd ?p \<noteq> slash" using hd_dropWhile [OF p] .
  then have ns: "?s \<noteq> []" using p by (cases ?p) auto
  have "dname nm = take DIRSIZ ?s"
  proof (cases "length ?s \<ge> DIRSIZ")
    case True
    have w: "takeWhile (\<lambda>c. c \<noteq> 0) (take DIRSIZ ?s) = take DIRSIZ ?s"
      using zs by (subst takeWhile_eq_all_conv) (blast dest: in_set_takeD)
    show ?thesis unfolding nm if_P [OF True] dname_def w by simp
  next
    case False
    have "takeWhile (\<lambda>c. c \<noteq> 0) (?s @ [0] @ x) = ?s" for x
      using zs by (subst takeWhile_append2) auto
    then show ?thesis using False by (simp add: nm dname_def)
  qed
  moreover have "filter (\<lambda>s. s \<noteq> []) (pieces path) = ?s # filter (\<lambda>s. s \<noteq> []) (pieces rest)"
  proof -
    have "filter (\<lambda>s. s \<noteq> []) (pieces path) = filter (\<lambda>s. s \<noteq> []) (pieces ?p)" by (simp only: pieces_slash)
    also have "\<dots> = ?s # filter (\<lambda>s. s \<noteq> []) (case ?r of [] \<Rightarrow> [] | _ # r \<Rightarrow> pieces r)"
      by (subst pieces_elem) (simp only: filter.simps ns not_False_eq_True if_True)
    also have "filter (\<lambda>s. s \<noteq> []) (case ?r of [] \<Rightarrow> [] | _ # r \<Rightarrow> pieces r) = filter (\<lambda>s. s \<noteq> []) (pieces rest)"
    proof (cases ?r)
      case (Cons c r)
      then have "c = slash" using hd_dropWhile [of "\<lambda>c. c \<noteq> slash" ?p] by simp
      then have "rest = dropWhile (\<lambda>c. c = slash) r" using Cons rest by simp
      then show ?thesis using Cons by (simp only: pieces_slash list.case)
    next
      case Nil
      have "rest = []" unfolding rest Nil by (simp only: dropWhile.simps)
      then show ?thesis unfolding Nil by (simp only: list.case filter.simps pieces.simps simp_thms if_False)
    qed
    finally show ?thesis .
  qed
  ultimately show "path_names path = dname nm # path_names rest" by (simp add: path_names_def)
qed

lemma skipelem_None: "skipelem path name = None \<longleftrightarrow> (\<forall>c \<in> set path. c = slash)"
  by (auto simp: skipelem_def Let_def dropWhile_eq_Nil_conv)

text \<open>C29: walking a path by \<^verbatim>\<open>skipelem\<close> is the same as splitting it at its slashes: repeated, leading and trailing
  slashes make no elements, and each element is its name cut to \<^verbatim>\<open>DIRSIZ\<close> bytes, whatever the name buffer held.\<close>
theorem skipelem_splits_path:
  assumes "0 \<notin> set path"
  shows "elems path name = path_names path"
  using assms
proof (induction "length path" arbitrary: path name rule: less_induct)
  case less
  show ?case
  proof (cases "skipelem path name")
    case None
    then have "\<forall>c \<in> set path. c = slash" by (simp add: skipelem_None)
    then have "filter (\<lambda>s. s \<noteq> []) (pieces path) = []" by (induction path) auto
    then show ?thesis using None by (simp add: elems.simps path_names_def)
  next
    case (Some x)
    obtain rest nm where x: "x = (rest, nm)" by (cases x) auto
    note s = skipelem_pieces [OF Some [unfolded x] less.prems]
    have "elems rest nm = path_names rest"
      by (rule less.hyps [OF skipelem_length [OF Some [unfolded x]] s(2)])
    then show ?thesis using Some x s(1) by (simp add: elems.simps [of path])
  qed
qed

theorem skipelem_splits_path_witness:
  "elems [47, 97, 47, 47, 98, 98, 47] [] = [[97], [98, 98]]"
  using skipelem_splits_path [of "[47, 97, 47, 47, 98, 98, 47]" "[]"] by (simp add: path_names_def DIRSIZ_def)

end
