(* ===== verification/Sched.thy ===== *)
theory Sched
  imports Console
begin

text \<open>
  The processes of the second assignment (\<^verbatim>\<open>proc.c\<close> in \<^verbatim>\<open>cs236-xv6-mac-a2\<close>): the scheduler
  with dynamic priorities, the accounting it rests on, and processes that wait to be started.
  The table is that assignment's: its states, its fields and its \<^verbatim>\<open>sleep\<close>, \<^verbatim>\<open>fork\<close>, \<^verbatim>\<open>exit\<close>,
  \<^verbatim>\<open>wait\<close>.  What \<^verbatim>\<open>fork\<close> and \<^verbatim>\<open>exit\<close> do to memory and files is the same code as in the third
  assignment and is modelled there (\<open>Process\<close>); here \<open>fork\<close> is given the stack that \<^verbatim>\<open>kalloc\<close>
  and the directory that \<^verbatim>\<open>copyuvm\<close> return, and \<open>exit\<close> starts where the files are closed.

  The clock \<^verbatim>\<open>ticks\<close> is an unsigned word, the times kept of a process are C integers: a
  difference is taken in words and read back as a signed integer.
\<close>

definition INIT_PRIORITY :: int where "INIT_PRIORITY = 50"
definition ALPHA :: int where "ALPHA = 1"
definition BETA :: int where "BETA = 2"

datatype procstate = UNUSED | EMBRYO | SLEEPING | WAITING_TO_START | RUNNABLE | RUNNING | ZOMBIE
  | STOPPED | SUSPENDED

text \<open>\<open>sleep_start\<close> is the local variable \<^verbatim>\<open>sleep_start_tick\<close> of \<^verbatim>\<open>sleep\<close>, which lives on the
  process's kernel stack while it sleeps; \<open>eip\<close> is its \<^verbatim>\<open>tf->eip\<close>.\<close>

record proc =
  pstate :: procstate
  pid :: int
  parent :: "nat option"
  kstack :: u32
  pgdir :: u32
  eip :: u32
  chan :: chan
  killed :: bool
  pending_signal :: int
  signal_handler :: u32
  suspended :: bool
  backup_eip :: u32
  start_later :: int
  exec_time :: int
  creation_time :: int
  end_time :: int
  first_run_time :: int
  total_run_time :: int
  total_wait_time :: int
  context_switches :: int
  has_started :: bool
  start_run_tick :: int
  total_sleeping_time :: int
  sleep_start :: int

record sched =
  ptable :: "proc list"
  cur :: "nat option"
  initproc :: "nat option"
  nextpid :: int
  ticks :: u32
  cons :: console

definition upd_proc :: "nat \<Rightarrow> (proc \<Rightarrow> proc) \<Rightarrow> 'a sched_scheme \<Rightarrow> 'a sched_scheme" where
  "upd_proc i f s = s\<lparr>ptable := (ptable s)[i := f (ptable s ! i)]\<rparr>"

definition myproc :: "'a sched_scheme \<Rightarrow> nat outcome" where
  "myproc s = (case cur s of None \<Rightarrow> Panic ''trap'' | Some i \<Rightarrow> Ret i)"

text \<open>\<^verbatim>\<open>x = ticks\<close>, \<^verbatim>\<open>ticks - t\<close> and \<^verbatim>\<open>x += ticks - t\<close> for integers \<^verbatim>\<open>x\<close> and \<^verbatim>\<open>t\<close>.\<close>

definition now :: "'a sched_scheme \<Rightarrow> int" where
  "now s = sint (ticks s)"

definition since :: "'a sched_scheme \<Rightarrow> int \<Rightarrow> int" where
  "since s t = sint (ticks s - word_of_int t)"

definition add_since :: "'a sched_scheme \<Rightarrow> int \<Rightarrow> int \<Rightarrow> int" where
  "add_since s t x = sint (word_of_int x + (ticks s - word_of_int t))"

definition cprint :: "u8 list \<Rightarrow> 'a sched_scheme \<Rightarrow> 'a sched_scheme outcome" where
  "cprint bs s = bindR (put_bytes bs (cons s)) (\<lambda>k. Ret (s\<lparr>cons := k\<rparr>))"

subsection \<open>Creating processes\<close>

definition allocproc :: "u32 \<Rightarrow> 'a sched_scheme \<Rightarrow> nat option \<times> 'a sched_scheme" where
  "allocproc k s =
     (case find_index (\<lambda>p. pstate p = UNUSED) (ptable s) of
        None \<Rightarrow> (None, s)
      | Some i \<Rightarrow>
          let s = upd_proc i (\<lambda>p. p\<lparr>pstate := EMBRYO, pid := nextpid s, suspended := False\<rparr>) s;
              s = s\<lparr>nextpid := int32 (nextpid s + 1)\<rparr>;
              s = upd_proc i (\<lambda>p. p\<lparr>kstack := k\<rparr>) s
          in if k = 0 then (None, upd_proc i (\<lambda>p. p\<lparr>pstate := UNUSED\<rparr>) s) else (Some i, s))"

definition fork :: "u32 \<Rightarrow> u32 \<Rightarrow> 'a sched_scheme \<Rightarrow> (int \<times> 'a sched_scheme) outcome" where
  "fork k d s =
     bindR (myproc s) (\<lambda>me.
       case allocproc k s of
         (None, s) \<Rightarrow> Ret (-1, s)
       | (Some i, s) \<Rightarrow>
           let s = upd_proc i (\<lambda>p. p\<lparr>creation_time := now s, has_started := False,
                     total_run_time := 0, total_wait_time := 0, context_switches := 0,
                     total_sleeping_time := 0, start_run_tick := 0, exec_time := -1,
                     backup_eip := 0xFFFFFFF, pgdir := d\<rparr>) s
           in if d = 0 then Ret (-1, upd_proc i (\<lambda>p. p\<lparr>kstack := 0, pstate := UNUSED\<rparr>) s)
              else
                let s = upd_proc i (\<lambda>p. p\<lparr>parent := Some me, eip := eip (ptable s ! me)\<rparr>) s
                in Ret (pid (ptable s ! i), upd_proc i (\<lambda>p. p\<lparr>pstate := RUNNABLE\<rparr>) s))"

text \<open>\<^verbatim>\<open>sys_custom_fork\<close> with the two words \<^verbatim>\<open>argint\<close> fetched, \<open>None\<close> where it failed; a
  failure of the second is \<^verbatim>\<open>-1\<close>, which \<^verbatim>\<open>< -1\<close> does not see, and leaves \<open>e\<close>, what the stack
  held.\<close>

definition sys_custom_fork :: "int option \<Rightarrow> int option \<Rightarrow> int \<Rightarrow> u32 \<Rightarrow> u32 \<Rightarrow> 'a sched_scheme \<Rightarrow>
    (int \<times> 'a sched_scheme) outcome" where
  "sys_custom_fork a0 a1 e k d s =
     (case a0 of
        None \<Rightarrow> Ret (-1, s)
      | Some later \<Rightarrow>
          let e = (case a1 of None \<Rightarrow> e | Some n \<Rightarrow> n) in
          bindR (fork k d s) (\<lambda>(n, s).
            if n < 0 then Ret (-1, s)
            else if n = 0 then Ret (0, s)
            else Ret (n, case find_index (\<lambda>p. pid p = n) (ptable s) of
              None \<Rightarrow> s
            | Some i \<Rightarrow> upd_proc i (\<lambda>p. p\<lparr>start_later := later, exec_time := e,
                pstate := if later = 1 then WAITING_TO_START else RUNNABLE\<rparr>) s)))"

definition sys_scheduler_start :: "'a sched_scheme \<Rightarrow> int \<times> 'a sched_scheme" where
  "sys_scheduler_start s =
     (0, s\<lparr>ptable := map (\<lambda>p. if start_later p = 1 \<and> pstate p = WAITING_TO_START
       then p\<lparr>pstate := RUNNABLE, start_later := 0\<rparr> else p) (ptable s)\<rparr>)"

subsection \<open>Sleep, wakeup, kill, wait\<close>

definition wakeup1 :: "chan \<Rightarrow> 'a sched_scheme \<Rightarrow> 'a sched_scheme" where
  "wakeup1 c s = s\<lparr>ptable := map (\<lambda>p.
     if pstate p = SLEEPING \<and> chan p = c \<and> \<not> suspended p then p\<lparr>pstate := RUNNABLE\<rparr> else p) (ptable s)\<rparr>"

definition wakeup :: "chan \<Rightarrow> 'a sched_scheme \<Rightarrow> 'a sched_scheme" where
  "wakeup c s = wakeup1 c s"

definition kill :: "int \<Rightarrow> 'a sched_scheme \<Rightarrow> int \<times> 'a sched_scheme" where
  "kill k s =
     (case find_index (\<lambda>p. pid p = k) (ptable s) of
        None \<Rightarrow> (-1, s)
      | Some i \<Rightarrow> (0, upd_proc i (\<lambda>p. p\<lparr>killed := True,
          pstate := if pstate p = SLEEPING then RUNNABLE else pstate p\<rparr>) s))"

text \<open>\<^verbatim>\<open>exit\<close> from its \<^verbatim>\<open>acquire\<close> of the table lock to its call of \<^verbatim>\<open>sched\<close>, with the report it
  prints.\<close>

fun reparent :: "nat \<Rightarrow> nat \<Rightarrow> nat \<Rightarrow> 'a sched_scheme \<Rightarrow> 'a sched_scheme" where
  "reparent me 0 i s = s"
| "reparent me (Suc n) i s =
     reparent me n (i + 1)
       (if parent (ptable s ! i) = Some me then
          let s = upd_proc i (\<lambda>p. p\<lparr>parent := initproc s\<rparr>) s in
          if pstate (ptable s ! i) = ZOMBIE then
            wakeup1 (case initproc s of None \<Rightarrow> NoChan | Some k \<Rightarrow> ChanProc k) s
          else s
        else s)"

definition line :: "string \<Rightarrow> int \<Rightarrow> u8 list" where
  "line t n = ascii t @ kprintint (word_of_int n) 10 True @ [10]"

definition report :: "proc \<Rightarrow> u8 list" where
  "report p =
     (let tat = end_time p - creation_time p;
          wt = tat - total_run_time p - total_sleeping_time p;
          rt = first_run_time p - creation_time p;
          cs = context_switches p - 1
      in line ''PID: '' (pid p) @ line ''TAT: '' tat @ line ''WT: '' wt @ line ''RT: '' rt @
         line ''#CS: '' cs @ line ''Sleeping Time: '' (total_sleeping_time p))"

definition exit :: "'a sched_scheme \<Rightarrow> 'a sched_scheme outcome" where
  "exit s =
     bindR (myproc s) (\<lambda>me.
       let s = wakeup1 (case parent (ptable s ! me) of None \<Rightarrow> NoChan | Some k \<Rightarrow> ChanProc k) s;
           s = reparent me NPROC 0 s;
           s = upd_proc me (\<lambda>p. p\<lparr>end_time := now s\<rparr>) s
       in bindR (cprint (report (ptable s ! me)) s) (\<lambda>s.
            if pstate (ptable s ! me) = ZOMBIE then
              bindR (cprint (ascii ''exit(): process '' @
                  kprintint (word_of_int (pid (ptable s ! me))) 10 True @
                  ascii '' already zombie, panic!'' @ [10]) s)
                (\<lambda>s. Panic ''zombie exit'')
            else Ret (upd_proc me (\<lambda>p. p\<lparr>pstate := ZOMBIE\<rparr>) s)))"

text \<open>One turn of \<^verbatim>\<open>wait\<close>'s loop: a child's pid, \<open>-1\<close>, or \<open>None\<close> where it goes to sleep.\<close>

definition sleep :: "chan \<Rightarrow> 'a sched_scheme \<Rightarrow> 'a sched_scheme outcome" where
  "sleep c s =
     (case cur s of
        None \<Rightarrow> Panic ''sleep''
      | Some i \<Rightarrow> Ret (upd_proc i (\<lambda>p. p\<lparr>sleep_start := now s, chan := c, pstate := SLEEPING\<rparr>) s))"

definition sleep_return :: "'a sched_scheme \<Rightarrow> 'a sched_scheme outcome" where
  "sleep_return s =
     bindR (myproc s) (\<lambda>i.
       let s = upd_proc i (\<lambda>p. p\<lparr>total_sleeping_time := add_since s (sleep_start p) (total_sleeping_time p)\<rparr>) s;
           s = upd_proc i (\<lambda>p. p\<lparr>chan := NoChan\<rparr>) s
       in if killed (ptable s ! i) then exit s else Ret s)"

definition wait_turn :: "'a sched_scheme \<Rightarrow> (int option \<times> 'a sched_scheme) outcome" where
  "wait_turn s =
     bindR (myproc s) (\<lambda>me.
       case find_index (\<lambda>p. parent p = Some me \<and> pstate p = ZOMBIE) (ptable s) of
         Some i \<Rightarrow>
           Ret (Some (pid (ptable s ! i)), upd_proc i (\<lambda>p. p\<lparr>kstack := 0, pid := 0, parent := None,
             killed := False, pstate := UNUSED\<rparr>) s)
       | None \<Rightarrow>
           if \<not> (\<exists>p \<in> set (ptable s). parent p = Some me) \<or> killed (ptable s ! me) then Ret (Some (-1), s)
           else bindR (sleep (ChanProc me) s) (\<lambda>s. Ret (None, s)))"

definition yield :: "'a sched_scheme \<Rightarrow> 'a sched_scheme outcome" where
  "yield s = bindR (myproc s) (\<lambda>i.
     Ret (if pstate (ptable s ! i) = SUSPENDED then s
          else upd_proc i (\<lambda>p. p\<lparr>pstate := RUNNABLE\<rparr>) s))"

subsection \<open>The scheduler\<close>

definition dynamic_priority :: "'a sched_scheme \<Rightarrow> proc \<Rightarrow> int" where
  "dynamic_priority s p =
     (let tat = since s (creation_time p);
          wt = tat - total_run_time p - total_sleeping_time p
      in INIT_PRIORITY - ALPHA * total_run_time p + BETA * wt)"

text \<open>The loop of \<^verbatim>\<open>scheduler\<close> over the table from position \<open>i\<close>, with \<open>n\<close> slots to go, the best
  priority so far and the process that has it.\<close>

fun sched_scan :: "nat \<Rightarrow> nat \<Rightarrow> int \<Rightarrow> nat option \<Rightarrow> 'a sched_scheme \<Rightarrow> nat option \<times> 'a sched_scheme" where
  "sched_scan 0 i best chosen s = (chosen, s)"
| "sched_scan (Suc n) i best chosen s =
     (if pstate (ptable s ! i) \<noteq> RUNNABLE then sched_scan n (i + 1) best chosen s
      else if suspended (ptable s ! i) then sched_scan n (i + 1) best chosen s
      else
        let s = (if has_started (ptable s ! i) then s
                 else upd_proc i (\<lambda>p. p\<lparr>first_run_time := now s, has_started := True\<rparr>) s);
            d = dynamic_priority s (ptable s ! i)
        in if d > best \<or>
              d = best \<and> (case chosen of None \<Rightarrow> False | Some j \<Rightarrow> pid (ptable s ! i) < pid (ptable s ! j))
           then sched_scan n (i + 1) d (Some i) s
           else sched_scan n (i + 1) best chosen s)"

text \<open>One turn of the scheduler's outer loop up to the \<^verbatim>\<open>swtch\<close> to the process it has chosen, with
  \<open>prev\<close> the one it ran before, and what it does when the process has switched back.
  The checks of \<^verbatim>\<open>switchuvm\<close> stop the kernel on a process without a stack or a page directory.\<close>

definition scheduler_step :: "nat option \<Rightarrow> 'a sched_scheme \<Rightarrow> (nat option \<times> 'a sched_scheme) outcome" where
  "scheduler_step prev s =
     (case sched_scan NPROC 0 (-1000000000) None s of
        (None, s) \<Rightarrow> Ret (None, s)
      | (Some i, s) \<Rightarrow>
          let s = upd_proc i (\<lambda>p. p\<lparr>start_run_tick := now s\<rparr>) s;
              s = (if prev \<noteq> Some i
                   then upd_proc i (\<lambda>p. p\<lparr>context_switches := context_switches p + 1\<rparr>) s else s);
              s = s\<lparr>cur := Some i\<rparr>
          in if kstack (ptable s ! i) = 0 then Panic ''switchuvm: no kstack''
             else if pgdir (ptable s ! i) = 0 then Panic ''switchuvm: no pgdir''
             else Ret (Some i, upd_proc i (\<lambda>p. p\<lparr>pstate := RUNNING\<rparr>) s))"

definition scheduler_return :: "nat \<Rightarrow> 'a sched_scheme \<Rightarrow> 'a sched_scheme" where
  "scheduler_return i s =
     (let s = upd_proc i (\<lambda>p. p\<lparr>total_run_time := add_since s (start_run_tick p) (total_run_time p)\<rparr>) s;
          s = (if exec_time (ptable s ! i) > 0 \<and> total_run_time (ptable s ! i) \<ge> exec_time (ptable s ! i)
               then upd_proc i (\<lambda>p. p\<lparr>killed := True\<rparr>) s else s)
      in s\<lparr>cur := None\<rparr>)"

subsection \<open>Who runs next\<close>

definition ready :: "proc \<Rightarrow> bool" where
  "ready p \<longleftrightarrow> pstate p = RUNNABLE \<and> \<not> suspended p"

text \<open>\<open>runs_before s p q\<close>: \<open>p\<close> has the higher priority, or the same one and a pid not above \<open>q\<close>'s.\<close>

definition runs_before :: "'a sched_scheme \<Rightarrow> proc \<Rightarrow> proc \<Rightarrow> bool" where
  "runs_before s p q \<longleftrightarrow> dynamic_priority s p > dynamic_priority s q \<or>
     dynamic_priority s p = dynamic_priority s q \<and> pid p \<le> pid q"

text \<open>The scan only notes first runs: every other field of the table stays.\<close>

definition noted :: "proc \<Rightarrow> proc \<Rightarrow> bool" where
  "noted p q \<longleftrightarrow> (\<exists>t b. q = p\<lparr>first_run_time := t, has_started := b\<rparr>)"

lemma noted_refl [simp]: "noted p p"
proof -
  have "p = p\<lparr>first_run_time := first_run_time p, has_started := has_started p\<rparr>" by simp
  then show ?thesis unfolding noted_def by blast
qed

lemma noted_trans: "noted p q \<Longrightarrow> noted q r \<Longrightarrow> noted p r"
  unfolding noted_def by fastforce

lemma noted_fields:
  assumes "noted p q"
  shows "pstate q = pstate p" "pid q = pid p" "suspended q = suspended p" "parent q = parent p"
    "kstack q = kstack p" "pgdir q = pgdir p" "chan q = chan p" "killed q = killed p"
    "creation_time q = creation_time p" "total_run_time q = total_run_time p"
    "total_sleeping_time q = total_sleeping_time p" "start_run_tick q = start_run_tick p"
    "sleep_start q = sleep_start p" "exec_time q = exec_time p" "ready q = ready p"
  using assms by (auto simp: noted_def ready_def)

lemma noted_priority:
  assumes "noted p q" and "ticks t = ticks s"
  shows "dynamic_priority t q = dynamic_priority s p"
  using assms by (simp add: dynamic_priority_def noted_fields since_def)

text \<open>What a scan relates: the two states agree but for the notes.\<close>

definition scanned :: "'a sched_scheme \<Rightarrow> 'a sched_scheme \<Rightarrow> bool" where
  "scanned s s' \<longleftrightarrow> (\<exists>qs. s' = s\<lparr>ptable := qs\<rparr> \<and> list_all2 noted (ptable s) qs)"

lemma scanned_refl [simp]: "scanned s s"
proof -
  have "s = s\<lparr>ptable := ptable s\<rparr>" by simp
  then show ?thesis unfolding scanned_def by (metis list_all2_refl noted_refl)
qed

lemma scanned_trans:
  assumes "scanned s t" and "scanned t u"
  shows "scanned s u"
proof -
  obtain qs rs where t: "t = s\<lparr>ptable := qs\<rparr>" "list_all2 noted (ptable s) qs"
    and u: "u = t\<lparr>ptable := rs\<rparr>" "list_all2 noted (ptable t) rs"
    using assms unfolding scanned_def by blast
  have "list_all2 noted (ptable s) rs"
    using t u(2) noted_trans by (simp add: list_all2_conv_all_nth) metis
  then show ?thesis using t(1) u(1) unfolding scanned_def by auto
qed

lemma scannedD:
  assumes "scanned s s'"
  shows "ticks s' = ticks s" "cur s' = cur s" "initproc s' = initproc s" "nextpid s' = nextpid s"
    "cons s' = cons s" "length (ptable s') = length (ptable s)"
    "\<And>i. i < length (ptable s) \<Longrightarrow> noted (ptable s ! i) (ptable s' ! i)"
  using assms by (auto simp: scanned_def list_all2_conv_all_nth)

lemma scanned_note:
  "scanned s (upd_proc i (\<lambda>p. p\<lparr>first_run_time := t, has_started := b\<rparr>) s)"
proof -
  have "list_all2 noted (ptable s) ((ptable s)[i := (ptable s ! i)\<lparr>first_run_time := t, has_started := b\<rparr>])"
    using noted_refl unfolding list_all2_conv_all_nth
    by (metis length_list_update noted_def nth_list_update nth_list_update_neq)
  then show ?thesis unfolding scanned_def upd_proc_def by blast
qed

lemma scanned_before:
  assumes "scanned s s'" and "i < length (ptable s)" and "j < length (ptable s)"
  shows "runs_before s' (ptable s' ! i) (ptable s' ! j) = runs_before s (ptable s ! i) (ptable s ! j)"
    and "ready (ptable s' ! i) = ready (ptable s ! i)"
    and "dynamic_priority s' (ptable s' ! i) = dynamic_priority s (ptable s ! i)"
proof -
  have n: "noted (ptable s ! i) (ptable s' ! i)" "noted (ptable s ! j) (ptable s' ! j)" "ticks s' = ticks s"
    using scannedD [OF assms(1)] assms(2,3) by auto
  show "runs_before s' (ptable s' ! i) (ptable s' ! j) = runs_before s (ptable s ! i) (ptable s ! j)"
    unfolding runs_before_def noted_priority [OF n(1,3)] noted_priority [OF n(2,3)]
    by (simp add: noted_fields [OF n(1)] noted_fields [OF n(2)])
  show "ready (ptable s' ! i) = ready (ptable s ! i)" by (rule noted_fields(15) [OF n(1)])
  show "dynamic_priority s' (ptable s' ! i) = dynamic_priority s (ptable s ! i)"
    by (rule noted_priority [OF n(1,3)])
qed

text \<open>What the scan holds after the first \<open>i\<close> slots: nobody of these, if nobody ready had a
  priority above the floor, else the one that runs before every other ready one.\<close>

definition best_upto :: "nat \<Rightarrow> int \<Rightarrow> 'a sched_scheme \<Rightarrow> int \<Rightarrow> nat option \<Rightarrow> bool" where
  "best_upto i fl s best chosen \<longleftrightarrow>
     (case chosen of
        None \<Rightarrow> best = fl \<and> (\<forall>k < i. ready (ptable s ! k) \<longrightarrow> dynamic_priority s (ptable s ! k) \<le> fl)
      | Some j \<Rightarrow> j < i \<and> ready (ptable s ! j) \<and> best = dynamic_priority s (ptable s ! j) \<and> best > fl \<and>
          (\<forall>k < i. ready (ptable s ! k) \<longrightarrow> runs_before s (ptable s ! j) (ptable s ! k)))"

lemma best_upto_scanned:
  assumes "scanned s s'" and "i \<le> length (ptable s)"
  shows "best_upto i fl s' best chosen = best_upto i fl s best chosen"
proof (cases chosen)
  case None
  have "ready (ptable s' ! k) = ready (ptable s ! k) \<and>
      dynamic_priority s' (ptable s' ! k) = dynamic_priority s (ptable s ! k)" if "k < i" for k
    using scanned_before(2,3) [OF assms(1), of k k] that assms(2) by simp
  then show ?thesis using None by (auto simp: best_upto_def)
next
  case (Some j)
  have "ready (ptable s' ! k) = ready (ptable s ! k) \<and>
      dynamic_priority s' (ptable s' ! k) = dynamic_priority s (ptable s ! k)" if "k < i" for k
    using scanned_before(2,3) [OF assms(1), of k k] that assms(2) by simp
  moreover have "runs_before s' (ptable s' ! j) (ptable s' ! k) = runs_before s (ptable s ! j) (ptable s ! k)"
    if "k < i" "j < i" for k
    using scanned_before(1) [OF assms(1), of j k] that assms(2) by simp
  ultimately show ?thesis using Some by (auto simp: best_upto_def)
qed

lemma runs_before_trans: "runs_before s p q \<Longrightarrow> runs_before s q r \<Longrightarrow> runs_before s p r"
  by (auto simp: runs_before_def)

lemma best_upto_take:
  assumes "best_upto i fl s best chosen" and "ready (ptable s ! i)"
    and "dynamic_priority s (ptable s ! i) > best \<or> dynamic_priority s (ptable s ! i) = best \<and>
      (case chosen of None \<Rightarrow> False | Some j \<Rightarrow> pid (ptable s ! i) < pid (ptable s ! j))"
  shows "best_upto (i + 1) fl s (dynamic_priority s (ptable s ! i)) (Some i)"
proof (cases chosen)
  case None
  then show ?thesis
    using assms by (auto simp: best_upto_def less_Suc_eq runs_before_def)
next
  case (Some j)
  then have "runs_before s (ptable s ! i) (ptable s ! j)"
    using assms by (auto simp: best_upto_def runs_before_def)
  then show ?thesis
    using assms Some runs_before_trans [of s "ptable s ! i" "ptable s ! j"]
    by (auto simp: best_upto_def less_Suc_eq runs_before_def)
qed

lemma best_upto_leave:
  assumes "best_upto i fl s best chosen"
    and "\<not> (dynamic_priority s (ptable s ! i) > best \<or> dynamic_priority s (ptable s ! i) = best \<and>
      (case chosen of None \<Rightarrow> False | Some j \<Rightarrow> pid (ptable s ! i) < pid (ptable s ! j)))"
  shows "best_upto (i + 1) fl s best chosen"
  using assms by (auto simp: best_upto_def less_Suc_eq runs_before_def split: option.splits)

lemma sched_scan_best:
  assumes "i + n = length (ptable s)" and "best_upto i fl s best chosen"
    and "sched_scan n i best chosen s = (r, s')"
  shows "scanned s s' \<and> (\<exists>best'. best_upto (i + n) fl s' best' r)"
  using assms
proof (induction n arbitrary: i best chosen s)
  case 0
  then show ?case by auto
next
  case (Suc n)
  let ?p = "ptable s ! i"
  show ?case
  proof (cases "ready ?p")
    case False
    then have "best_upto (i + 1) fl s best chosen"
      using Suc.prems(2) by (auto simp: best_upto_def less_Suc_eq split: option.splits)
    moreover have "sched_scan n (i + 1) best chosen s = (r, s')"
      using Suc.prems(3) False by (auto simp: ready_def split: if_splits)
    ultimately show ?thesis
      using Suc.IH [of "i + 1" s best chosen] Suc.prems(1) by simp
  next
    case True
    define s1 where "s1 = (if has_started ?p then s
      else upd_proc i (\<lambda>p. p\<lparr>first_run_time := now s, has_started := True\<rparr>) s)"
    have sc: "scanned s s1" by (simp add: s1_def scanned_note)
    have len: "i < length (ptable s)" using Suc.prems(1) by simp
    have b: "best_upto i fl s1 best chosen"
      using best_upto_scanned [OF sc] Suc.prems(2) len by simp
    have rd: "ready (ptable s1 ! i)" using scanned_before(2) [OF sc len len] True by simp
    let ?d = "dynamic_priority s1 (ptable s1 ! i)"
    let ?take = "?d > best \<or> ?d = best \<and>
      (case chosen of None \<Rightarrow> False | Some j \<Rightarrow> pid (ptable s1 ! i) < pid (ptable s1 ! j))"
    have step: "sched_scan (Suc n) i best chosen s =
        (if ?take then sched_scan n (i + 1) ?d (Some i) s1 else sched_scan n (i + 1) best chosen s1)"
      using True unfolding s1_def ready_def sched_scan.simps(2) Let_def by simp
    have len': "i + 1 + n = length (ptable s1)" using Suc.prems(1) scannedD(6) [OF sc] by simp
    have "\<exists>best' chosen'. best_upto (i + 1) fl s1 best' chosen' \<and>
        sched_scan n (i + 1) best' chosen' s1 = (r, s')"
    proof (cases ?take)
      case take: True
      have "best_upto (i + 1) fl s1 ?d (Some i)"
        by (rule best_upto_take [OF b rd take])
      moreover have "sched_scan n (i + 1) ?d (Some i) s1 = (r, s')"
        using Suc.prems(3) step take by simp
      ultimately show ?thesis by blast
    next
      case leave: False
      have "best_upto (i + 1) fl s1 best chosen"
        by (rule best_upto_leave [OF b leave])
      moreover have "sched_scan n (i + 1) best chosen s1 = (r, s')"
        using Suc.prems(3) step leave by simp
      ultimately show ?thesis by blast
    qed
    then obtain best' chosen' where n: "best_upto (i + 1) fl s1 best' chosen'"
      "sched_scan n (i + 1) best' chosen' s1 = (r, s')" by blast
    have "scanned s1 s' \<and> (\<exists>best'. best_upto (i + 1 + n) fl s' best' r)"
      by (rule Suc.IH [OF len' n])
    then show ?thesis using scanned_trans [OF sc] by simp
  qed
qed


lemma sched_scan_from_start:
  assumes "length (ptable s) = NPROC" and "sched_scan NPROC 0 fl None s = (r, s')"
  shows "scanned s s'" and "\<exists>best. best_upto NPROC fl s best r"
proof -
  have b: "best_upto 0 fl s fl None" by (simp add: best_upto_def)
  have l: "0 + NPROC = length (ptable s)" using assms(1) by simp
  have *: "scanned s s' \<and> (\<exists>best. best_upto (0 + NPROC) fl s' best r)"
    by (rule sched_scan_best [OF l b assms(2)])
  then show "scanned s s'" by simp
  then show "\<exists>best. best_upto NPROC fl s best r"
    using * best_upto_scanned [of s s' NPROC fl _ r] assms(1) by auto
qed

text \<open>What a dispatch leaves of the other processes, and of the chosen one.\<close>

lemma scheduler_stepD:
  assumes "length (ptable s) = NPROC" and "scheduler_step prev s = Ret (r, s')"
  shows "length (ptable s') = NPROC" "ticks s' = ticks s" "nextpid s' = nextpid s"
    "initproc s' = initproc s"
    "\<And>j. j < NPROC \<Longrightarrow> r \<noteq> Some j \<Longrightarrow> noted (ptable s ! j) (ptable s' ! j)"
    "\<And>i. r = Some i \<Longrightarrow> i < NPROC \<Longrightarrow> cur s' = Some i \<and> pstate (ptable s' ! i) = RUNNING \<and>
       start_run_tick (ptable s' ! i) = now s \<and>
       (\<exists>q. noted (ptable s ! i) q \<and> ptable s' ! i = q\<lparr>start_run_tick := now s,
          context_switches := context_switches q + (if prev \<noteq> Some i then 1 else 0), pstate := RUNNING\<rparr>)"
proof -
  obtain r1 t where t: "sched_scan NPROC 0 (-1000000000) None s = (r1, t)" by fastforce
  note sc = scannedD [OF sched_scan_from_start(1) [OF assms(1) t]]
  have now: "now t = now s" by (simp add: now_def sc)
  have r: "r = r1" using assms(2) by (auto simp: scheduler_step_def t Let_def split: option.splits if_splits)
  show "length (ptable s') = NPROC" "ticks s' = ticks s" "nextpid s' = nextpid s" "initproc s' = initproc s"
    using assms(2) sc assms(1)
    by (auto simp: scheduler_step_def t Let_def upd_proc_def split: option.splits if_splits)
  show "noted (ptable s ! j) (ptable s' ! j)" if "j < NPROC" "r \<noteq> Some j" for j
    using assms(2) sc(7) [of j] that assms(1) r
    by (auto simp: scheduler_step_def t Let_def upd_proc_def split: option.splits if_splits)
  show "cur s' = Some i \<and> pstate (ptable s' ! i) = RUNNING \<and> start_run_tick (ptable s' ! i) = now s \<and>
       (\<exists>q. noted (ptable s ! i) q \<and> ptable s' ! i = q\<lparr>start_run_tick := now s,
          context_switches := context_switches q + (if prev \<noteq> Some i then 1 else 0), pstate := RUNNING\<rparr>)"
    if "r = Some i" "i < NPROC" for i
    using assms(2) sc(6) sc(7) [of i] that assms(1) r
    by (auto simp: scheduler_step_def t Let_def upd_proc_def now now_def sc split: option.splits if_splits
        intro!: exI [of _ "ptable t ! i"])
qed

lemma scheduler_step_best:
  assumes "length (ptable s) = NPROC" and "scheduler_step prev s = Ret (r, s')"
  shows "\<exists>best. best_upto NPROC (-1000000000) s best r"
proof -
  obtain r1 t where t: "sched_scan NPROC 0 (-1000000000) None s = (r1, t)" by fastforce
  have "r = r1" using assms(2) by (auto simp: scheduler_step_def t Let_def split: option.splits if_splits)
  then show ?thesis using sched_scan_from_start(2) [OF assms(1) t] by simp
qed

text \<open>C14: the scheduler gives the CPU to a ready process of the highest dynamic priority, of several
  such to one with the smallest pid; it leaves the CPU idle only when nobody is ready.  A
  suspended process or one that waits to be started is never chosen.  The floor is the
  constant the code starts its search from.\<close>
theorem scheduler_picks_highest:
  assumes "length (ptable s) = NPROC" and "scheduler_step prev s = Ret (r, s')"
    and "\<forall>p \<in> set (ptable s). ready p \<longrightarrow> dynamic_priority s p > -1000000000"
  shows "case r of
      None \<Rightarrow> \<forall>p \<in> set (ptable s). \<not> ready p
    | Some i \<Rightarrow> i < NPROC \<and> ready (ptable s ! i) \<and> cur s' = Some i \<and> pstate (ptable s' ! i) = RUNNING \<and>
        (\<forall>q \<in> set (ptable s). ready q \<longrightarrow>
           dynamic_priority s (ptable s ! i) > dynamic_priority s q \<or>
           dynamic_priority s (ptable s ! i) = dynamic_priority s q \<and> pid (ptable s ! i) \<le> pid q)"
proof -
  obtain best where b: "best_upto NPROC (-1000000000) s best r"
    using scheduler_step_best [OF assms(1,2)] by blast
  show ?thesis
  proof (cases r)
    case None
    then have "\<not> ready p" if "p \<in> set (ptable s)" for p
      using b that assms(1,3) by (force simp: best_upto_def in_set_conv_nth)
    then show ?thesis using None by simp
  next
    case (Some i)
    then have i: "i < NPROC" "ready (ptable s ! i)"
        "\<And>k. k < NPROC \<Longrightarrow> ready (ptable s ! k) \<Longrightarrow> runs_before s (ptable s ! i) (ptable s ! k)"
      using b by (auto simp: best_upto_def)
    have "runs_before s (ptable s ! i) q" if "q \<in> set (ptable s)" "ready q" for q
      using i(3) that assms(1) by (metis in_set_conv_nth)
    then show ?thesis
      using Some i(1,2) scheduler_stepD(6) [OF assms(1,2) Some i(1)] by (simp add: runs_before_def)
  qed
qed

definition no_proc :: proc where
  "no_proc = \<lparr>pstate = UNUSED, pid = 0, parent = None, kstack = 0, pgdir = 0, eip = 0, chan = NoChan,
     killed = False, pending_signal = 0, signal_handler = 0, suspended = False, backup_eip = 0,
     start_later = 0, exec_time = -1, creation_time = 0, end_time = 0, first_run_time = 0,
     total_run_time = 0, total_wait_time = 0, context_switches = 0, has_started = False,
     start_run_tick = 0, total_sleeping_time = 0, sleep_start = 0\<rparr>"

text \<open>At tick 10: init sleeps, the shell has run 9 ticks, two children were made at tick 2 and tick
  4, and the first of them has run 3 ticks.\<close>

definition demo_procs :: "proc list" where
  "demo_procs =
     [no_proc\<lparr>pstate := SLEEPING, pid := 1, kstack := 1, pgdir := 1, chan := ChanProc 0\<rparr>,
      no_proc\<lparr>pstate := RUNNABLE, pid := 2, parent := Some 0, kstack := 1, pgdir := 1, total_run_time := 9\<rparr>,
      no_proc\<lparr>pstate := RUNNABLE, pid := 3, parent := Some 1, kstack := 1, pgdir := 1,
        creation_time := 2, total_run_time := 3\<rparr>,
      no_proc\<lparr>pstate := RUNNABLE, pid := 4, parent := Some 1, kstack := 1, pgdir := 1, creation_time := 4\<rparr>] @
     replicate 60 no_proc"

definition demo_sched :: sched where
  "demo_sched = \<lparr>ptable = demo_procs, cur = None, initproc = Some 0, nextpid = 5, ticks = 10,
     cons = \<lparr>panicked = False, has_uart = True, uart_out = [], crt = (\<lambda>_. 0), crt_pos = 0,
       ibuf = replicate 128 0, in_r = 0, in_w = 0, in_e = 0\<rparr>\<rparr>"

lemma demo_scan: "fst (sched_scan NPROC 0 (-1000000000) None demo_sched) = Some 3"
  by code_simp

lemma demo_length: "length (ptable demo_sched) = NPROC"
  by (simp add: demo_sched_def demo_procs_def NPROC_def)

lemma demo_step: "\<exists>s'. scheduler_step None demo_sched = Ret (Some 3, s')"
proof -
  obtain t where t: "sched_scan NPROC 0 (-1000000000) None demo_sched = (Some 3, t)"
    using demo_scan by (metis prod.collapse)
  note sc = scannedD [OF sched_scan_from_start(1) [OF demo_length t]]
  have n: "noted (ptable demo_sched ! 3) (ptable t ! 3)"
    by (rule sc(7)) (simp add: demo_length NPROC_def)
  have "length (ptable t) = 64" using sc(6) by (simp add: demo_length NPROC_def)
  moreover have "kstack (ptable t ! 3) \<noteq> 0" "pgdir (ptable t ! 3) \<noteq> 0"
    by (simp_all add: noted_fields(5,6) [OF n] demo_sched_def demo_procs_def)
  ultimately show ?thesis
    by (simp add: scheduler_step_def t Let_def upd_proc_def)
qed

theorem scheduler_picks_highest_witness:
  "\<exists>s'. scheduler_step None demo_sched = Ret (Some 3, s') \<and> cur s' = Some 3 \<and> (\<forall>q \<in> set (ptable demo_sched). ready q \<longrightarrow>
     dynamic_priority demo_sched (ptable demo_sched ! 3) \<ge> dynamic_priority demo_sched q)"
proof -
  obtain s' where s': "scheduler_step None demo_sched = Ret (Some 3, s')" using demo_step by blast
  have "list_all (\<lambda>p. ready p \<longrightarrow> dynamic_priority demo_sched p > -1000000000) (ptable demo_sched)"
    by code_simp
  then have fl: "\<forall>p \<in> set (ptable demo_sched). ready p \<longrightarrow> dynamic_priority demo_sched p > -1000000000"
    by (simp add: list_all_iff)
  show ?thesis
    using s' scheduler_picks_highest [OF demo_length s' fl] by force
qed

end
