(* ===== verification/Signals.thy ===== *)
theory Signals
  imports Sched
begin

text \<open>
  The signals of the second assignment: the control keys the console turns into signals for every
  process (\<^verbatim>\<open>consoleintr\<close>, \<^verbatim>\<open>send_signal_to_all\<close>), handlers registered by the user
  (\<^verbatim>\<open>sys_signal\<close>), and what \<^verbatim>\<open>trap\<close> does with a suspended, killed or signalled process on its
  way back to user space.
\<close>

definition SIGINT :: int where "SIGINT = 1"
definition SIGBG :: int where "SIGBG = 2"
definition SIGFG :: int where "SIGFG = 3"
definition SIGCUSTOM :: int where "SIGCUSTOM = 4"

text \<open>\<open>signal_proc\<close> is what the \<^verbatim>\<open>switch\<close> of \<^verbatim>\<open>send_signal_to_all\<close> does to the process it has
  reached, \<open>orphan_all\<close> the inner loop of its case \<^verbatim>\<open>SIGBG\<close>.\<close>

definition signal_proc :: "int \<Rightarrow> proc \<Rightarrow> proc" where
  "signal_proc sig p =
     (if sig = SIGINT then
        (let p = p\<lparr>killed := True\<rparr> in
         if pstate p = SLEEPING \<or> pstate p = SUSPENDED \<or> pstate p = WAITING_TO_START \<or> pstate p = RUNNABLE
         then p\<lparr>pstate := RUNNABLE\<rparr> else p)
      else if sig = SIGBG then
        if pstate p = RUNNING \<or> pstate p = RUNNABLE \<or> pstate p = SLEEPING \<or> pstate p = WAITING_TO_START \<or>
           pstate p = STOPPED
        then p\<lparr>pstate := SUSPENDED, suspended := True\<rparr> else p
      else if sig = SIGFG then
        if pstate p = SUSPENDED then p\<lparr>suspended := False, pstate := RUNNABLE\<rparr> else p
      else if sig = SIGCUSTOM then
        if signal_handler p \<noteq> 0 then
          let p = p\<lparr>pending_signal := SIGCUSTOM\<rparr> in
          if pstate p = SLEEPING then p\<lparr>pstate := RUNNABLE\<rparr> else p
        else p
      else p)"

definition orphan_all :: "'a sched_scheme \<Rightarrow> 'a sched_scheme" where
  "orphan_all s = s\<lparr>ptable := map (\<lambda>p. if pid p > 2 then p\<lparr>parent := initproc s\<rparr> else p) (ptable s)\<rparr>"

definition signal_one :: "int \<Rightarrow> nat \<Rightarrow> 'a sched_scheme \<Rightarrow> 'a sched_scheme" where
  "signal_one sig i s =
     (let p = ptable s ! i in
      if pid p = 1 then s
      else if pid p = 2 then upd_proc i (\<lambda>p. p\<lparr>suspended := False, pstate := RUNNABLE\<rparr>) s
      else if pstate p = UNUSED then s
      else
        let s = upd_proc i (signal_proc sig) s
        in if sig = SIGBG then orphan_all s else s)"

fun signal_from :: "int \<Rightarrow> nat \<Rightarrow> nat \<Rightarrow> 'a sched_scheme \<Rightarrow> 'a sched_scheme" where
  "signal_from sig 0 i s = s"
| "signal_from sig (Suc n) i s = signal_from sig n (i + 1) (signal_one sig i s)"

definition send_signal_to_all :: "int \<Rightarrow> 'a sched_scheme \<Rightarrow> 'a sched_scheme" where
  "send_signal_to_all sig s = wakeup1 (ChanProc 1) (signal_from sig NPROC 0 s)"

text \<open>\<^verbatim>\<open>sys_signal\<close> with the result of \<^verbatim>\<open>argptr\<close>.\<close>

definition sys_signal :: "u32 option \<Rightarrow> 'a sched_scheme \<Rightarrow> (int \<times> 'a sched_scheme) outcome" where
  "sys_signal a s =
     (case a of
        None \<Rightarrow> Ret (-1, s)
      | Some h \<Rightarrow> bindR (myproc s) (\<lambda>i. Ret (0, upd_proc i (\<lambda>p. p\<lparr>signal_handler := h\<rparr>) s)))"

subsection \<open>The console\<close>

definition input_char :: "int \<Rightarrow> 'a sched_scheme \<Rightarrow> 'a sched_scheme outcome" where
  "input_char c s =
     (if c \<noteq> 0 \<and> in_e (cons s) - in_r (cons s) < of_nat INPUT_BUF then
        let c = (if c = 13 then 10 else c);
            k = cons s;
            k = k\<lparr>ibuf := (ibuf k)[unat (in_e k) mod INPUT_BUF := word_of_int c], in_e := in_e k + 1\<rparr>
        in bindR (consputc c k) (\<lambda>k.
             if c = 10 \<or> c = 4 \<or> in_e k = in_r k + of_nat INPUT_BUF
             then Ret (wakeup ChanInput (s\<lparr>cons := k\<lparr>in_w := in_e k\<rparr>\<rparr>))
             else Ret (s\<lparr>cons := k\<rparr>))
      else Ret s)"

definition control_key :: "string \<Rightarrow> int \<Rightarrow> 'a sched_scheme \<Rightarrow> 'a sched_scheme outcome" where
  "control_key t sig s =
     bindR (cprint (ascii t @ [10]) s) (\<lambda>s. Ret (send_signal_to_all sig s))"

text \<open>The loop of \<^verbatim>\<open>consoleintr\<close> on what \<^verbatim>\<open>getc\<close> returns, up to the first negative number; the
  boolean is \<^verbatim>\<open>doprocdump\<close>.\<close>

fun consoleintr_loop :: "int list \<Rightarrow> bool \<Rightarrow> 'a sched_scheme \<Rightarrow> (bool \<times> 'a sched_scheme) outcome" where
  "consoleintr_loop [] dump s = Ret (dump, s)"
| "consoleintr_loop (c # cs) dump s =
     (if c < 0 then Ret (dump, s)
      else if c = 16 then consoleintr_loop cs True s
      else bindR
        (if c = 21 then
           bindR (kill_line (unat (in_e (cons s) - in_w (cons s))) (cons s)) (\<lambda>k. Ret (s\<lparr>cons := k\<rparr>))
         else if c = 8 \<or> c = 0x7f then
           if in_e (cons s) \<noteq> in_w (cons s)
           then bindR (consputc BACKSPACE ((cons s)\<lparr>in_e := in_e (cons s) - 1\<rparr>)) (\<lambda>k. Ret (s\<lparr>cons := k\<rparr>))
           else Ret s
         else if c = 3 then control_key ''Ctrl-C is detected by xv6'' SIGINT s
         else if c = 2 then control_key ''Ctrl-B is detected by xv6'' SIGBG s
         else if c = 6 then control_key ''Ctrl-F is detected by xv6'' SIGFG s
         else if c = 7 then control_key ''Ctrl-G is detected by xv6'' SIGCUSTOM s
         else input_char c s)
        (consoleintr_loop cs dump))"

subsection \<open>Back from a trap\<close>

datatype trap_out = Returns | Yields | Exits

text \<open>The timer and the serial port's part of the \<^verbatim>\<open>switch\<close> of \<^verbatim>\<open>trap\<close> that concerns processes,
  and what follows the \<^verbatim>\<open>switch\<close>: \<open>user\<close> says that the trap came from user space, \<open>timer\<close> that
  it was the clock's.  \<open>Exits\<close> stands for the call of \<^verbatim>\<open>exit\<close>, \<open>Yields\<close> for one of \<^verbatim>\<open>yield\<close>,
  with the state at its \<^verbatim>\<open>sched\<close>.\<close>

definition trap_timer :: "nat \<Rightarrow> 'a sched_scheme \<Rightarrow> 'a sched_scheme" where
  "trap_timer cpu s = (if cpu = 0 then wakeup ChanTicks (s\<lparr>ticks := ticks s + 1\<rparr>) else s)"

definition trap_com1 :: "'a sched_scheme \<Rightarrow> 'a sched_scheme" where
  "trap_com1 s =
     (case cur s of
        None \<Rightarrow> s
      | Some i \<Rightarrow> if suspended (ptable s ! i) \<and> pstate (ptable s ! i) = SLEEPING
                  then upd_proc i (\<lambda>p. p\<lparr>pstate := RUNNABLE\<rparr>) s else s)"

definition trap_tail :: "bool \<Rightarrow> bool \<Rightarrow> 'a sched_scheme \<Rightarrow> (trap_out \<times> 'a sched_scheme) outcome" where
  "trap_tail user timer s =
     (case cur s of
        None \<Rightarrow> Ret (Returns, s)
      | Some i \<Rightarrow>
          if suspended (ptable s ! i) \<and> pid (ptable s ! i) > 2 \<and> user
          then bindR (yield s) (\<lambda>s. Ret (Yields, s))
          else if killed (ptable s ! i) \<and> user then Ret (Exits, s)
          else
            let s = (if user \<and> pending_signal (ptable s ! i) = SIGCUSTOM \<and> signal_handler (ptable s ! i) \<noteq> 0
                     then upd_proc i (\<lambda>p. p\<lparr>pending_signal := 0, backup_eip := eip p,
                       eip := signal_handler p\<rparr>) s
                     else s)
            in if pstate (ptable s ! i) = RUNNING \<and> timer then bindR (yield s) (\<lambda>s. Ret (Yields, s))
               else Ret (Returns, s))"

subsection \<open>A signal as a map over the table\<close>

text \<open>A signal acts on each slot by itself, but for the parents, which \<^verbatim>\<open>SIGBG\<close> resets.\<close>

definition orphaned :: "proc \<Rightarrow> proc" where
  "orphaned p = p\<lparr>parent := None\<rparr>"

definition signalled :: "int \<Rightarrow> proc \<Rightarrow> proc" where
  "signalled sig p =
     (if pid p = 1 then p
      else if pid p = 2 then p\<lparr>suspended := False, pstate := RUNNABLE\<rparr>
      else if pstate p = UNUSED then p else signal_proc sig p)"

lemma signalled_orphaned: "signalled sig (orphaned p) = orphaned (signalled sig p)"
  by (simp add: signalled_def orphaned_def signal_proc_def Let_def)

lemma orphan_all_orphaned: "map orphaned (ptable (orphan_all s)) = map orphaned (ptable s)"
  by (simp add: orphan_all_def orphaned_def)

lemma signal_one_orphaned:
  assumes "i < length (ptable s)"
  shows "map orphaned (ptable (signal_one sig i s)) =
    (map orphaned (ptable s))[i := signalled sig (map orphaned (ptable s) ! i)]"
proof -
  have "map orphaned (ptable (signal_one sig i s)) =
      map orphaned ((ptable s)[i := signalled sig (ptable s ! i)])"
    by (simp add: signal_one_def Let_def upd_proc_def orphan_all_orphaned signalled_def)
  then show ?thesis
    using assms by (simp add: map_update signalled_orphaned)
qed

lemma signal_one_frame:
  "length (ptable (signal_one sig i s)) = length (ptable s)" "cur (signal_one sig i s) = cur s"
  "initproc (signal_one sig i s) = initproc s" "nextpid (signal_one sig i s) = nextpid s"
  "ticks (signal_one sig i s) = ticks s" "cons (signal_one sig i s) = cons s"
  by (simp_all add: signal_one_def Let_def upd_proc_def orphan_all_def)

lemma signal_from_frame:
  "length (ptable (signal_from sig n i s)) = length (ptable s)" "cur (signal_from sig n i s) = cur s"
  "initproc (signal_from sig n i s) = initproc s" "nextpid (signal_from sig n i s) = nextpid s"
  "ticks (signal_from sig n i s) = ticks s" "cons (signal_from sig n i s) = cons s"
  by (induction n arbitrary: i s) (simp_all add: signal_one_frame)

lemma signal_from_orphaned:
  assumes "i + n = length (ptable s)"
  shows "map orphaned (ptable (signal_from sig n i s)) =
    take i (map orphaned (ptable s)) @ map (signalled sig) (drop i (map orphaned (ptable s)))"
  using assms
proof (induction n arbitrary: i s)
  case (Suc n)
  let ?xs = "map orphaned (ptable s)"
  have i: "i < length ?xs" using Suc.prems by simp
  have "map orphaned (ptable (signal_from sig (Suc n) i s)) =
      take (i + 1) (?xs[i := signalled sig (?xs ! i)]) @
      map (signalled sig) (drop (i + 1) (?xs[i := signalled sig (?xs ! i)]))"
    using Suc.IH [of "i + 1" "signal_one sig i s"] Suc.prems
    by (simp add: signal_one_frame signal_one_orphaned)
  also have "\<dots> = take i ?xs @ map (signalled sig) (drop i ?xs)"
    using i by (simp add: take_Suc_conv_app_nth Cons_nth_drop_Suc [symmetric] drop_update_swap)
  finally show ?case .
qed simp

text \<open>With the wakeup at the end, of those that sleep on the second slot of the table.\<close>

definition woken :: "chan \<Rightarrow> proc \<Rightarrow> proc" where
  "woken c p = (if pstate p = SLEEPING \<and> chan p = c \<and> \<not> suspended p then p\<lparr>pstate := RUNNABLE\<rparr> else p)"

lemma wakeup1_orphaned: "map orphaned (ptable (wakeup1 c s)) = map (woken c) (map orphaned (ptable s))"
  by (simp add: wakeup1_def orphaned_def woken_def)

lemma send_signal_orphaned:
  assumes "length (ptable s) = NPROC"
  shows "map orphaned (ptable (send_signal_to_all sig s)) =
    map (woken (ChanProc 1)) (map (signalled sig) (map orphaned (ptable s)))"
  using signal_from_orphaned [of 0 NPROC s sig] assms
  unfolding send_signal_to_all_def wakeup1_orphaned by (simp only: drop_0 take_0 append_Nil add_0)

lemma send_signal_nth:
  assumes "length (ptable s) = NPROC" and "i < NPROC"
  shows "orphaned (ptable (send_signal_to_all sig s) ! i) =
    woken (ChanProc 1) (signalled sig (orphaned (ptable s ! i)))"
  using arg_cong [OF send_signal_orphaned [OF assms(1), of sig], of "\<lambda>xs. xs ! i"] assms
  by (simp add: send_signal_to_all_def wakeup1_def signal_from_frame)

lemma send_signal_frame [simp]:
  "length (ptable (send_signal_to_all sig s)) = length (ptable s)" "cur (send_signal_to_all sig s) = cur s"
  "initproc (send_signal_to_all sig s) = initproc s" "nextpid (send_signal_to_all sig s) = nextpid s"
  "ticks (send_signal_to_all sig s) = ticks s" "cons (send_signal_to_all sig s) = cons s"
  by (simp_all add: send_signal_to_all_def wakeup1_def signal_from_frame)

text \<open>The same for the fields other than the parent, one process at a time.\<close>

lemma orphaned_eq:
  assumes "orphaned p = q"
  shows "pstate p = pstate q" "pid p = pid q" "killed p = killed q" "suspended p = suspended q"
    "chan p = chan q" "kstack p = kstack q" "pgdir p = pgdir q" "eip p = eip q"
    "pending_signal p = pending_signal q" "signal_handler p = signal_handler q"
    "creation_time p = creation_time q" "total_run_time p = total_run_time q"
    "total_sleeping_time p = total_sleeping_time q" "start_run_tick p = start_run_tick q"
    "sleep_start p = sleep_start q"
  using assms by (auto simp: orphaned_def)

lemmas send_signal_fields = orphaned_eq [OF send_signal_nth]

subsection \<open>Suspend and resume\<close>

text \<open>A process the signals are for: not init, not the shell.\<close>

definition active :: "proc \<Rightarrow> bool" where
  "active p \<longleftrightarrow> pstate p \<in> {SLEEPING, WAITING_TO_START, RUNNABLE, RUNNING, STOPPED}"

lemma suspend_nth:
  assumes "length (ptable s) = NPROC" and "i < NPROC" and "pid (ptable s ! i) \<notin> {1, 2}"
  shows "orphaned (ptable (send_signal_to_all SIGBG s) ! i) =
    (let p = orphaned (ptable s ! i) in
     if active p then p\<lparr>pstate := SUSPENDED, suspended := True\<rparr> else p)"
  using assms(3) unfolding send_signal_nth [OF assms(1,2)]
  by (cases "pstate (ptable s ! i)")
    (simp_all add: signalled_def signal_proc_def woken_def orphaned_def active_def Let_def SIGBG_def SIGINT_def)

lemma resume_other:
  "pid p \<notin> {1, 2} \<Longrightarrow> pstate p \<notin> {SUSPENDED, SLEEPING} \<Longrightarrow> woken c (signalled SIGFG p) = p"
  by (simp add: signalled_def signal_proc_def woken_def SIGINT_def SIGBG_def SIGFG_def)

text \<open>C16: control-B takes the machine away from every process but init and the shell: those that
  slept, ran or waited to be started are suspended, and after it none of them is ready.
  Control-F after it makes each of them ready again, also one that was asleep or still had to be
  started, and leaves the rest of the process as it was but for the parent; embryos, zombies and
  free slots stay what they were through both.\<close>
theorem background_foreground:
  assumes "length (ptable s) = NPROC" and "i < NPROC" and "pid (ptable s ! i) \<notin> {1, 2}"
  shows "\<not> ready (ptable (send_signal_to_all SIGBG s) ! i) \<and>
    (active (ptable s ! i) \<longrightarrow>
      pstate (ptable (send_signal_to_all SIGBG s) ! i) = SUSPENDED \<and>
      ready (ptable (send_signal_to_all SIGFG (send_signal_to_all SIGBG s)) ! i) \<and>
      orphaned (ptable (send_signal_to_all SIGFG (send_signal_to_all SIGBG s)) ! i) =
        orphaned ((ptable s ! i)\<lparr>pstate := RUNNABLE, suspended := False\<rparr>)) \<and>
    (pstate (ptable s ! i) \<in> {UNUSED, EMBRYO, ZOMBIE} \<longrightarrow>
      orphaned (ptable (send_signal_to_all SIGFG (send_signal_to_all SIGBG s)) ! i) =
        orphaned (ptable s ! i))"
proof -
  let ?p = "ptable s ! i" and ?b = "ptable (send_signal_to_all SIGBG s) ! i"
    and ?f = "ptable (send_signal_to_all SIGFG (send_signal_to_all SIGBG s)) ! i"
  have b: "orphaned ?b = (let p = orphaned ?p in
      if active p then p\<lparr>pstate := SUSPENDED, suspended := True\<rparr> else p)"
    by (rule suspend_nth [OF assms])
  have f: "orphaned ?f = woken (ChanProc 1) (signalled SIGFG (orphaned ?b))"
    by (rule send_signal_nth) (simp_all add: assms(1,2))
  have 1: "pstate ?b = (if active ?p then SUSPENDED else pstate ?p)"
    using arg_cong [OF b, of pstate] by (simp add: orphaned_def active_def Let_def)
  have 2: "orphaned ?f = orphaned (?p\<lparr>pstate := RUNNABLE, suspended := False\<rparr>)" if "active ?p"
    using that assms(3) unfolding f b
    by (simp add: signalled_def signal_proc_def woken_def orphaned_def active_def Let_def SIGBG_def
        SIGINT_def SIGFG_def)
  have 3: "orphaned ?f = orphaned ?p" if "pstate ?p \<in> {UNUSED, EMBRYO, ZOMBIE}"
  proof -
    have "\<not> active (orphaned ?p)" using that by (auto simp: active_def orphaned_def)
    then have "orphaned ?b = orphaned ?p" by (simp add: b)
    then show ?thesis
      using that assms(3) resume_other [of "orphaned ?p"] unfolding f by (auto simp: orphaned_def)
  qed
  have 4: "ready ?f" if "active ?p"
    using orphaned_eq(1,4) [OF 2 [OF that]] by (simp add: ready_def orphaned_def)
  have 5: "\<not> ready ?b"
    using 1 by (cases "active ?p") (auto simp: ready_def active_def)
  show ?thesis
    by (intro conjI impI 2 3 4 5) (simp_all add: 1)
qed

text \<open>The demo's second child waits to be started.\<close>

definition demo_held :: sched where
  "demo_held = demo_sched\<lparr>ptable := (ptable demo_sched)[3 := (ptable demo_sched ! 3)\<lparr>pstate := WAITING_TO_START\<rparr>]\<rparr>"

theorem background_foreground_witness:
  "ready (ptable (send_signal_to_all SIGFG (send_signal_to_all SIGBG demo_held)) ! 3)"
proof -
  have "length (ptable demo_held) = NPROC" "3 < NPROC" "pid (ptable demo_held ! 3) \<notin> {1, 2}"
      "active (ptable demo_held ! 3)"
    by (simp_all add: demo_held_def demo_sched_def demo_procs_def NPROC_def active_def)
  then show ?thesis using background_foreground [of demo_held 3] by blast
qed

subsection \<open>Handlers\<close>

text \<open>C18: nothing resets the handler of a slot of the process table: neither \<^verbatim>\<open>wait\<close>, which frees
  the slot of a zombie child, nor \<^verbatim>\<open>fork\<close> with its \<^verbatim>\<open>allocproc\<close>, which makes a new process in it.  Let
  a process wait for a child that had registered a handler, and then fork into the slot this frees.
  At control-G the new process, which never asked for a handler, jumps on its way back to user space
  to that address of its own memory.\<close>
theorem stale_signal_handler:
  assumes "length (ptable s) = NPROC" and "cur s = Some me" and "pstate (ptable s ! me) = RUNNING"
    and "find_index (\<lambda>p. parent p = Some me \<and> pstate p = ZOMBIE) (ptable s) = Some i"
    and "\<forall>j < i. pstate (ptable s ! j) \<noteq> UNUSED"
    and "signal_handler (ptable s ! i) = h" and "h \<noteq> 0"
    and "nextpid s > 2" and "k \<noteq> 0" and "d \<noteq> 0"
  shows "\<exists>s1 s2 s3. wait_turn s = Ret (Some (pid (ptable s ! i)), s1) \<and>
    fork k d s1 = Ret (nextpid s, s2) \<and>
    pid (ptable s2 ! i) = nextpid s \<and> signal_handler (ptable s2 ! i) = h \<and>
    trap_tail True False ((send_signal_to_all SIGCUSTOM s2)\<lparr>cur := Some i\<rparr>) = Ret (Returns, s3) \<and>
    eip (ptable s3 ! i) = h"
proof -
  have i: "i < NPROC" "i < length (ptable s)" "pstate (ptable s ! i) = ZOMBIE"
    using find_index_SomeD [OF assms(4)] assms(1) by auto
  then have me: "i \<noteq> me" using assms(3) by auto
  define s1 where "s1 = upd_proc i (\<lambda>p. p\<lparr>kstack := 0, pid := 0, parent := None, killed := False, pstate := UNUSED\<rparr>) s"
  have w: "wait_turn s = Ret (Some (pid (ptable s ! i)), s1)"
    by (simp add: wait_turn_def myproc_def assms(2,4) s1_def)
  have s1: "length (ptable s1) = NPROC" "cur s1 = Some me" "nextpid s1 = nextpid s"
      "signal_handler (ptable s1 ! i) = h" "\<not> killed (ptable s1 ! i)"
    using assms(1,2,6) i by (simp_all add: s1_def upd_proc_def)
  have f1: "find_index (\<lambda>p. pstate p = UNUSED) (ptable s1) = Some i"
    using assms(5) i by (auto simp: find_index_Some s1_def upd_proc_def)
  obtain s2 where s2: "fork k d s1 = Ret (nextpid s, s2)" "length (ptable s2) = NPROC"
      "pid (ptable s2 ! i) = nextpid s" "pstate (ptable s2 ! i) = RUNNABLE" "signal_handler (ptable s2 ! i) = h"
      "\<not> suspended (ptable s2 ! i)" "\<not> killed (ptable s2 ! i)"
    using f1 s1 me i(1) assms(9,10) by (simp add: fork_def myproc_def allocproc_def Let_def upd_proc_def)
  let ?t = "send_signal_to_all SIGCUSTOM s2"
  have t: "length (ptable ?t) = NPROC" "pstate (ptable ?t ! i) = RUNNABLE" "signal_handler (ptable ?t ! i) = h"
      "pending_signal (ptable ?t ! i) = SIGCUSTOM" "\<not> suspended (ptable ?t ! i)" "\<not> killed (ptable ?t ! i)"
    using s2(2-) assms(7,8) by (simp_all add: send_signal_fields [OF s2(2) i(1)]
        signalled_def signal_proc_def woken_def orphaned_def Let_def
        SIGINT_def SIGBG_def SIGFG_def SIGCUSTOM_def)
  then show ?thesis
    using w s2(1,3,5) i(1) assms(7) by (auto simp: trap_tail_def Let_def upd_proc_def)
qed

text \<open>The demo's shell waits for a child in slot 4 that had registered the handler at 0x40.\<close>

definition demo_waits :: sched where
  "demo_waits = demo_sched\<lparr>cur := Some 1, ptable := (ptable demo_sched)
     [1 := (ptable demo_sched ! 1)\<lparr>pstate := RUNNING\<rparr>,
      4 := no_proc\<lparr>pstate := ZOMBIE, pid := 4, parent := Some 1, killed := True, signal_handler := 0x40\<rparr>]\<rparr>"

theorem stale_signal_handler_witness:
  "\<exists>s1 s2 s3. wait_turn demo_waits = Ret (Some 4, s1) \<and> fork 1 1 s1 = Ret (5, s2) \<and>
    trap_tail True False ((send_signal_to_all SIGCUSTOM s2)\<lparr>cur := Some 4\<rparr>) = Ret (Returns, s3) \<and>
    eip (ptable s3 ! 4) = 0x40"
proof -
  have f: "find_index (\<lambda>p. parent p = Some 1 \<and> pstate p = ZOMBIE) (ptable demo_waits) = Some 4" by code_simp
  have "list_all (\<lambda>p. pstate p \<noteq> UNUSED) (take 4 (ptable demo_waits))" by code_simp
  then have u: "\<forall>j < 4. pstate (ptable demo_waits ! j) \<noteq> UNUSED"
    by (simp add: list_all_length demo_waits_def demo_length NPROC_def)
  have p: "length (ptable demo_waits) = NPROC" "cur demo_waits = Some 1" "pstate (ptable demo_waits ! 1) = RUNNING"
      "signal_handler (ptable demo_waits ! 4) = 0x40" "nextpid demo_waits = 5" "pid (ptable demo_waits ! 4) = 4"
    using demo_length by (simp_all add: demo_waits_def demo_sched_def demo_procs_def)
  show ?thesis
    using stale_signal_handler [OF p(1-3) f u p(4), of 1 1] unfolding p(5,6) by auto
qed

end
