(* ===== verification/Fairness.thy ===== *)
theory Fairness
  imports Signals
begin

text \<open>
  How the processes of the second assignment live together: everything that can happen while one
  of them has the CPU as a step relation (\<open>event\<close>) over the operations of \<open>Sched\<close> and \<open>Signals\<close>,
  the dispatches between them (\<open>sys_step\<close>), and what holds of every run: the clocks kept of a
  process stay sane, a ready process is passed over only so often, and a process that is
  suspended when control-C hits it never runs again.
\<close>

subsection \<open>What can happen while a process runs\<close>

text \<open>\<open>G\<close> is the set of signals the console may send.  The clock and the counter of pids are C
  integers: the relation describes the system up to the tick, and the \<^verbatim>\<open>fork\<close>, at which they would
  wrap.\<close>

inductive event :: "int set \<Rightarrow> 'a sched_scheme \<Rightarrow> 'a sched_scheme \<Rightarrow> bool" for G where
  tick: "now s < 2 ^ 31 - 1 \<Longrightarrow> event G s (trap_timer 0 s)"
| forks: "nextpid s < 2 ^ 31 - 1 \<Longrightarrow> fork k d s = Ret (n, s') \<Longrightarrow> event G s s'"
| custom_forks: "nextpid s < 2 ^ 31 - 1 \<Longrightarrow> sys_custom_fork a b e k d s = Ret (n, s') \<Longrightarrow> event G s s'"
| starts: "event G s (snd (sys_scheduler_start s))"
| wakes: "event G s (wakeup c s)"
| kills: "event G s (snd (kill n s))"
| exits: "exit s = Ret s' \<Longrightarrow> event G s s'"
| waits: "wait_turn s = Ret (r, s') \<Longrightarrow> event G s s'"
| sleeps: "c \<noteq> NoChan \<Longrightarrow> sleep c s = Ret s' \<Longrightarrow> event G s s'"
| slept: "cur s = Some i \<Longrightarrow> chan (ptable s ! i) \<noteq> NoChan \<Longrightarrow> sleep_return s = Ret s' \<Longrightarrow> event G s s'"
| yields: "yield s = Ret s' \<Longrightarrow> event G s s'"
| signals: "g \<in> G \<Longrightarrow> event G s (send_signal_to_all g s)"
| handles: "sys_signal a s = Ret (r, s') \<Longrightarrow> event G s s'"
| traps: "trap_tail u t s = Ret (q, s') \<Longrightarrow> event G s s'"
| com1: "event G s (trap_com1 s)"

subsection \<open>Operations that leave the clocks alone\<close>

definition clk :: "proc \<Rightarrow> int \<times> int \<times> int \<times> int \<times> int \<times> chan" where
  "clk p = (creation_time p, total_run_time p, total_sleeping_time p, start_run_tick p, sleep_start p, chan p)"

text \<open>Killed, runnable and yet kept from running by the suspended mark.\<close>

definition stuck :: "proc \<Rightarrow> bool" where
  "stuck p \<longleftrightarrow> killed p \<and> pstate p = RUNNABLE \<and> suspended p \<and> pid p \<notin> {1, 2}"

definition alive :: "proc \<Rightarrow> bool" where
  "alive p \<longleftrightarrow> pstate p \<notin> {UNUSED, ZOMBIE}"

definition calm_slot :: "bool \<Rightarrow> proc \<Rightarrow> proc \<Rightarrow> bool" where
  "calm_slot own p q \<longleftrightarrow> clk q = clk p \<and> (pid q = pid p \<or> pid q = 0) \<and>
     (\<not> own \<longrightarrow> (alive p \<longrightarrow> alive q \<and> pid q = pid p) \<and> (stuck p \<longrightarrow> stuck q))"

definition calm_step :: "'a sched_scheme \<Rightarrow> 'a sched_scheme \<Rightarrow> bool" where
  "calm_step s s' \<longleftrightarrow> length (ptable s') = length (ptable s) \<and> ticks s' = ticks s \<and> cur s' = cur s \<and>
     nextpid s' = nextpid s \<and>
     (\<forall>i < length (ptable s). calm_slot (cur s = Some i) (ptable s ! i) (ptable s' ! i))"

text \<open>The same without the promise about stuck processes, for the one operation that breaks it.\<close>

definition mild_slot :: "bool \<Rightarrow> proc \<Rightarrow> proc \<Rightarrow> bool" where
  "mild_slot own p q \<longleftrightarrow> clk q = clk p \<and> (pid q = pid p \<or> pid q = 0) \<and>
     (\<not> own \<longrightarrow> alive p \<longrightarrow> alive q \<and> pid q = pid p)"

definition mild_step :: "'a sched_scheme \<Rightarrow> 'a sched_scheme \<Rightarrow> bool" where
  "mild_step s s' \<longleftrightarrow> length (ptable s') = length (ptable s) \<and> ticks s' = ticks s \<and> cur s' = cur s \<and>
     nextpid s' = nextpid s \<and>
     (\<forall>i < length (ptable s). mild_slot (cur s = Some i) (ptable s ! i) (ptable s' ! i))"

lemma calm_mild: "calm_step s s' \<Longrightarrow> mild_step s s'"
  by (simp add: calm_step_def mild_step_def calm_slot_def mild_slot_def)

lemma calm_slot_refl [simp]: "calm_slot own p p"
  by (simp add: calm_slot_def)

lemma calm_slot_trans: "calm_slot own p q \<Longrightarrow> calm_slot own q r \<Longrightarrow> calm_slot own p r"
  by (auto simp: calm_slot_def)

lemma calm_slot_own: "calm_slot False p q \<Longrightarrow> calm_slot own p q"
  by (auto simp: calm_slot_def)

lemma calm_refl [simp]: "calm_step s s"
  by (simp add: calm_step_def)

lemma calm_trans:
  assumes "calm_step s t" and "calm_step t u"
  shows "calm_step s u"
  using assms calm_slot_trans unfolding calm_step_def by metis

lemma calm_upd:
  assumes "calm_slot (cur s = Some i) (ptable s ! i) (f (ptable s ! i))"
  shows "calm_step s (upd_proc i f s)"
proof -
  have "calm_slot (cur s = Some j) (ptable s ! j) ((ptable s)[i := f (ptable s ! i)] ! j)"
    if "j < length (ptable s)" for j
    using assms that by (cases "j = i") simp_all
  then show ?thesis by (simp add: calm_step_def upd_proc_def)
qed

lemma calm_map:
  assumes "\<And>p. p \<in> set (ptable s) \<Longrightarrow> calm_slot False p (f p)"
  shows "calm_step s (s\<lparr>ptable := map f (ptable s)\<rparr>)"
proof -
  have "calm_slot own (ptable s ! j) (f (ptable s ! j))" if "j < length (ptable s)" for own j
    by (rule calm_slot_own [OF assms]) (simp add: that)
  then show ?thesis by (simp add: calm_step_def)
qed

lemma calm_cons [simp]: "calm_step s (s\<lparr>cons := k\<rparr>)"
  by (simp add: calm_step_def)

lemmas slot_simps = calm_slot_def clk_def alive_def stuck_def

lemma calm_wakeup1: "calm_step s (wakeup1 c s)"
  unfolding wakeup1_def by (rule calm_map) (simp add: slot_simps)

lemma calm_wakeup: "calm_step s (wakeup c s)"
  by (simp add: wakeup_def calm_wakeup1)

lemma calm_starts: "calm_step s (snd (sys_scheduler_start s))"
  unfolding sys_scheduler_start_def snd_conv by (rule calm_map) (auto simp: slot_simps)

lemma calm_kill: "calm_step s (snd (kill n s))"
  by (auto simp: kill_def split: option.splits intro!: calm_upd) (auto simp: slot_simps)

lemma calm_reparent: "calm_step s (reparent me n i s)"
proof (induction n arbitrary: i s)
  case (Suc n)
  have p: "calm_step s (upd_proc i (\<lambda>p. p\<lparr>parent := initproc s\<rparr>) s)"
    by (rule calm_upd) (simp add: slot_simps)
  show ?case
    unfolding reparent.simps(2) Let_def
    by (rule calm_trans [OF _ Suc.IH]) (auto intro: p calm_trans [OF p calm_wakeup1])
qed simp

lemma calm_cprint: "cprint bs s = Ret s' \<Longrightarrow> calm_step s s'"
  by (auto simp: cprint_def)

lemma calm_exit:
  assumes "exit s = Ret s'"
  shows "calm_step s s'"
proof -
  obtain me where me: "cur s = Some me"
    using assms by (auto simp: exit_def myproc_def split: option.splits)
  define s1 where "s1 = wakeup1 (case parent (ptable s ! me) of None \<Rightarrow> NoChan | Some k \<Rightarrow> ChanProc k) s"
  define s2 where "s2 = reparent me NPROC 0 s1"
  define s3 where "s3 = upd_proc me (\<lambda>p. p\<lparr>end_time := now s2\<rparr>) s2"
  obtain s4 where s4: "cprint (report (ptable s3 ! me)) s3 = Ret s4"
      "s' = upd_proc me (\<lambda>p. p\<lparr>pstate := ZOMBIE\<rparr>) s4"
    using assms me by (auto simp: exit_def myproc_def Let_def s1_def s2_def s3_def split: if_splits)
  have 1: "calm_step s s1" "calm_step s1 s2" "calm_step s2 s3"
    unfolding s1_def s2_def s3_def
    by (rule calm_wakeup1 calm_reparent calm_upd | simp add: slot_simps)+
  have "calm_step s s4"
    using calm_trans [OF calm_trans [OF calm_trans [OF 1(1,2)] 1(3)] calm_cprint [OF s4(1)]] .
  moreover from this have "cur s4 = Some me" using me by (simp add: calm_step_def)
  then have "calm_step s4 s'"
    unfolding s4(2) by (intro calm_upd) (simp add: slot_simps)
  ultimately show ?thesis by (rule calm_trans)
qed

lemma calm_yield: "yield s = Ret s' \<Longrightarrow> calm_step s s'"
  by (auto simp: yield_def myproc_def split: option.splits if_splits intro!: calm_upd) (auto simp: slot_simps)

lemma calm_handles: "sys_signal a s = Ret (r, s') \<Longrightarrow> calm_step s s'"
  by (auto simp: sys_signal_def myproc_def split: option.splits intro!: calm_upd) (auto simp: slot_simps)

lemma calm_com1: "calm_step s (trap_com1 s)"
  by (auto simp: trap_com1_def split: option.splits intro!: calm_upd) (auto simp: slot_simps)

lemma calm_traps:
  assumes "trap_tail u t s = Ret (q, s')"
  shows "calm_step s s'"
proof (cases "cur s")
  case None
  then show ?thesis using assms by (simp add: trap_tail_def)
next
  case (Some i)
  define s1 where "s1 = (if u \<and> pending_signal (ptable s ! i) = SIGCUSTOM \<and> signal_handler (ptable s ! i) \<noteq> 0
    then upd_proc i (\<lambda>p. p\<lparr>pending_signal := 0, backup_eip := eip p, eip := signal_handler p\<rparr>) s else s)"
  have 1: "calm_step s s1"
    unfolding s1_def by (auto intro!: calm_upd simp: slot_simps)
  have e: "trap_tail u t s =
      (if suspended (ptable s ! i) \<and> pid (ptable s ! i) > 2 \<and> u then bindR (yield s) (\<lambda>s. Ret (Yields, s))
       else if killed (ptable s ! i) \<and> u then Ret (Exits, s)
       else if pstate (ptable s1 ! i) = RUNNING \<and> t then bindR (yield s1) (\<lambda>s. Ret (Yields, s))
       else Ret (Returns, s1))"
    unfolding trap_tail_def Let_def s1_def Some by (simp only: option.case)
  have "s' = s \<or> yield s = Ret s' \<or> s' = s1 \<or> yield s1 = Ret s'"
    using assms unfolding e by (auto split: if_splits)
  then show ?thesis
    using calm_yield [of s s'] calm_trans [OF 1 calm_yield [of s1 s']] 1 by auto
qed

lemma wait_cases:
  assumes "wait_turn s = Ret (r, s')"
  obtains "calm_step s s'" | me where "sleep (ChanProc me) s = Ret s'"
proof -
  obtain me where me: "cur s = Some me"
    using assms by (auto simp: wait_turn_def myproc_def split: option.splits)
  show thesis
  proof (cases "find_index (\<lambda>p. parent p = Some me \<and> pstate p = ZOMBIE) (ptable s)")
    case None
    then show thesis using assms me that by (auto simp: wait_turn_def myproc_def split: if_splits)
  next
    case (Some i)
    then have "pstate (ptable s ! i) = ZOMBIE" by (auto dest: find_index_SomeD)
    then have "calm_step s (upd_proc i (\<lambda>p. p\<lparr>kstack := 0, pid := 0, parent := None, killed := False,
        pstate := UNUSED\<rparr>) s)"
      by (intro calm_upd) (auto simp: slot_simps)
    then show thesis using that(1) assms me Some by (simp add: wait_turn_def myproc_def)
  qed
qed

text \<open>A new process, or what a failed \<^verbatim>\<open>fork\<close> leaves of its slot.\<close>

definition newborn :: "int \<Rightarrow> int \<Rightarrow> proc \<Rightarrow> proc \<Rightarrow> bool" where
  "newborn t n p q \<longleftrightarrow> pstate p = UNUSED \<and> pid q = n \<and> chan q = chan p \<and> sleep_start q = sleep_start p \<and>
     (clk q = clk p \<or>
      creation_time q = t \<and> total_run_time q = 0 \<and> total_sleeping_time q = 0 \<and> start_run_tick q = 0)"

definition forked :: "'a sched_scheme \<Rightarrow> 'a sched_scheme \<Rightarrow> bool" where
  "forked s s' \<longleftrightarrow> length (ptable s') = length (ptable s) \<and> ticks s' = ticks s \<and> cur s' = cur s \<and>
     (nextpid s' = nextpid s \<and> ptable s' = ptable s \<or>
      nextpid s' = nextpid s + 1 \<and>
      (\<exists>i < length (ptable s). newborn (now s) (nextpid s) (ptable s ! i) (ptable s' ! i) \<and>
         (\<forall>j < length (ptable s). j \<noteq> i \<longrightarrow> ptable s' ! j = ptable s ! j)))"

lemma fork_forked:
  assumes "fork k d s = Ret (n, s')" and "0 < nextpid s" and "nextpid s < 2 ^ 31 - 1"
  shows "forked s s' \<and> (n \<noteq> -1 \<longrightarrow> nextpid s' = nextpid s + 1 \<and> n = nextpid s)"
proof -
  obtain me where me: "cur s = Some me"
    using assms(1) by (auto simp: fork_def myproc_def split: option.splits)
  have n: "int32 (nextpid s + 1) = nextpid s + 1" using assms(2,3) by (intro int32_id) simp_all
  show ?thesis
  proof (cases "find_index (\<lambda>p. pstate p = UNUSED) (ptable s)")
    case None
    then show ?thesis using assms(1) me by (simp add: fork_def myproc_def allocproc_def forked_def)
  next
    case (Some i)
    then have "i < length (ptable s)" "pstate (ptable s ! i) = UNUSED" by (auto dest: find_index_SomeD)
    then show ?thesis
      using assms(1) me Some
      by (auto simp: n fork_def myproc_def allocproc_def Let_def upd_proc_def forked_def newborn_def now_def
          clk_def split: if_splits intro!: exI [of _ i])
  qed
qed

text \<open>Pids are handed out in order, so \<^verbatim>\<open>sys_custom_fork\<close> finds the child it has just made.\<close>

definition pids_below :: "'a sched_scheme \<Rightarrow> bool" where
  "pids_below s \<longleftrightarrow> 0 < nextpid s \<and> (\<forall>p \<in> set (ptable s). pid p < nextpid s)"

lemma pids_belowD: "pids_below s \<Longrightarrow> i < length (ptable s) \<Longrightarrow> pid (ptable s ! i) < nextpid s"
  by (simp add: pids_below_def)

lemma pids_belowI:
  "0 < nextpid s \<Longrightarrow> (\<And>i. i < length (ptable s) \<Longrightarrow> pid (ptable s ! i) < nextpid s) \<Longrightarrow> pids_below s"
  by (auto simp: pids_below_def in_set_conv_nth)

lemma custom_fork_forked:
  assumes "sys_custom_fork a b e k d s = Ret (n, s')" and "pids_below s" and "nextpid s < 2 ^ 31 - 1"
  shows "forked s s'"
proof (cases a)
  case None
  then show ?thesis using assms(1) by (simp add: sys_custom_fork_def forked_def)
next
  case (Some later)
  define m where "m = (case b of None \<Rightarrow> e | Some n \<Rightarrow> n)"
  define f where "f = (\<lambda>p :: proc. p\<lparr>start_later := later, exec_time := m,
    pstate := if later = 1 then WAITING_TO_START else RUNNABLE\<rparr>)"
  obtain n1 s1 where fk: "fork k d s = Ret (n1, s1)"
    using assms(1) Some by (auto simp: sys_custom_fork_def)
  have f1: "forked s s1" "n1 \<noteq> -1 \<Longrightarrow> nextpid s1 = nextpid s + 1 \<and> n1 = nextpid s"
    using fork_forked [OF fk _ assms(3)] assms(2) by (auto simp: pids_below_def)
  have s': "s' = (if n1 \<le> 0 then s1 else
      case find_index (\<lambda>p. pid p = n1) (ptable s1) of None \<Rightarrow> s1 | Some i \<Rightarrow> upd_proc i f s1)"
    using assms(1) unfolding sys_custom_fork_def Some f_def m_def by (auto simp: fk split: if_splits)
  show ?thesis
  proof (cases "n1 \<le> 0 \<or> find_index (\<lambda>p. pid p = n1) (ptable s1) = None")
    case True
    then show ?thesis using f1(1) s' by auto
  next
    case False
    then obtain i where i: "find_index (\<lambda>p. pid p = n1) (ptable s1) = Some i" by auto
    have n: "nextpid s1 = nextpid s + 1" "n1 = nextpid s" using f1(2) False by auto
    obtain i' where i': "i' < length (ptable s)"
        "newborn (now s) (nextpid s) (ptable s ! i') (ptable s1 ! i')"
        "\<And>j. j < length (ptable s) \<Longrightarrow> j \<noteq> i' \<Longrightarrow> ptable s1 ! j = ptable s ! j"
      and l: "length (ptable s1) = length (ptable s)" "ticks s1 = ticks s" "cur s1 = cur s"
      using f1(1) n(1) by (auto simp: forked_def)
    have "i = i'"
    proof (rule ccontr)
      assume ne: "i \<noteq> i'"
      have "i < length (ptable s)" "pid (ptable s1 ! i) = nextpid s"
        using find_index_SomeD [OF i] l n(2) by auto
      then have "i < length (ptable s) \<and> pid (ptable s ! i) = nextpid s" using i'(3) ne by simp
      then show False using pids_belowD [OF assms(2), of i] by simp
    qed
    then have e: "s' = upd_proc i' f s1" using s' i False by simp
    have "newborn (now s) (nextpid s) (ptable s ! i') (f (ptable s1 ! i'))"
      using i'(2) by (auto simp: newborn_def clk_def f_def)
    then show ?thesis
      using n i' l unfolding e forked_def
      by (auto simp: upd_proc_def intro!: exI [of _ i'])
  qed
qed

subsection \<open>The clocks of a process\<close>

definition clock_ok :: "int \<Rightarrow> proc \<Rightarrow> bool" where
  "clock_ok t p \<longleftrightarrow> 0 \<le> creation_time p \<and> creation_time p \<le> t \<and> 0 \<le> total_run_time p \<and> total_run_time p \<le> t \<and>
     0 \<le> total_sleeping_time p \<and> total_sleeping_time p \<le> t \<and> 0 \<le> start_run_tick p \<and> start_run_tick p \<le> t \<and>
     0 \<le> sleep_start p \<and> sleep_start p \<le> t \<and> (chan p \<noteq> NoChan \<longrightarrow> total_sleeping_time p \<le> sleep_start p)"

definition clocks_ok :: "'a sched_scheme \<Rightarrow> bool" where
  "clocks_ok s \<longleftrightarrow> 0 \<le> now s \<and> pids_below s \<and> (\<forall>i < length (ptable s). clock_ok (now s) (ptable s ! i)) \<and>
     (\<forall>i. cur s = Some i \<longrightarrow> i < length (ptable s) \<and> total_run_time (ptable s ! i) \<le> start_run_tick (ptable s ! i))"

text \<open>A priority is the age of the system plus a key that only falls: by three for every tick the
  process runs, by two for every tick it sleeps.\<close>

definition sched_key :: "proc \<Rightarrow> int" where
  "sched_key p = INIT_PRIORITY - (ALPHA + BETA) * total_run_time p - BETA * total_sleeping_time p
     - BETA * creation_time p"







text \<open>How a slot may change while another process, or its own, runs: its times of running stay and
  its key does not grow, or its key is below \<open>K\<close>, as a new process's is in an old system.\<close>

definition older :: "int \<Rightarrow> proc \<Rightarrow> proc \<Rightarrow> bool" where
  "older K p q \<longleftrightarrow> sched_key q < K \<or>
     total_run_time q = total_run_time p \<and> start_run_tick q = start_run_tick p \<and> sched_key q \<le> sched_key p"

lemma older_refl [simp]: "older K p p"
  by (simp add: older_def)




lemma mild_pids:
  assumes "mild_step s s'" and "pids_below s"
  shows "pids_below s'"
proof (rule pids_belowI)
  have c: "length (ptable s') = length (ptable s)" "nextpid s' = nextpid s"
      "\<And>i. i < length (ptable s) \<Longrightarrow> pid (ptable s' ! i) = pid (ptable s ! i) \<or> pid (ptable s' ! i) = 0"
    using assms(1) by (auto simp: mild_step_def mild_slot_def)
  show n: "0 < nextpid s'" using assms(2) c(2) by (simp add: pids_below_def)
  show "pid (ptable s' ! i) < nextpid s'" if "i < length (ptable s')" for i
    using c(3) [of i] that n pids_belowD [OF assms(2), of i] c(1,2) by auto
qed










lemma orphaned_slot:
  "clk (orphaned p) = clk p" "alive (orphaned p) = alive p" "stuck (orphaned p) = stuck p" "pid (orphaned p) = pid p"
  by (simp_all add: orphaned_def clk_def alive_def stuck_def)

lemma signalled_slot:
  "clk (signalled sig p) = clk p" "pid (signalled sig p) = pid p" "alive p \<Longrightarrow> alive (signalled sig p)"
  "sig \<noteq> SIGBG \<Longrightarrow> stuck p \<Longrightarrow> stuck (signalled sig p)"
  by (simp_all add: signalled_def signal_proc_def Let_def clk_def alive_def stuck_def)

lemma woken_slot:
  "clk (woken c p) = clk p" "pid (woken c p) = pid p" "alive p \<Longrightarrow> alive (woken c p)" "stuck p \<Longrightarrow> stuck (woken c p)"
  by (simp_all add: woken_def clk_def alive_def stuck_def)

lemma send_signal_slot:
  assumes "length (ptable s) = NPROC" and "i < NPROC"
  shows "clk (ptable (send_signal_to_all sig s) ! i) = clk (ptable s ! i)"
    "pid (ptable (send_signal_to_all sig s) ! i) = pid (ptable s ! i)"
    "alive (ptable s ! i) \<Longrightarrow> alive (ptable (send_signal_to_all sig s) ! i)"
    "sig \<noteq> SIGBG \<Longrightarrow> stuck (ptable s ! i) \<Longrightarrow> stuck (ptable (send_signal_to_all sig s) ! i)"
  using send_signal_nth [OF assms, of sig] orphaned_slot [of "ptable s ! i"]
    orphaned_slot [of "ptable (send_signal_to_all sig s) ! i"]
    signalled_slot [where sig = sig and p = "orphaned (ptable s ! i)"]
    woken_slot [where c = "ChanProc 1" and p = "signalled sig (orphaned (ptable s ! i))"]
  by metis+

lemma mild_signal: "length (ptable s) = NPROC \<Longrightarrow> mild_step s (send_signal_to_all sig s)"
  by (simp add: mild_step_def mild_slot_def send_signal_slot)

lemma calm_signal: "length (ptable s) = NPROC \<Longrightarrow> sig \<noteq> SIGBG \<Longrightarrow> calm_step s (send_signal_to_all sig s)"
  by (simp add: calm_step_def calm_slot_def send_signal_slot)



subsection \<open>A ready process is passed over only so often\<close>








lemma noted_clk: "noted p q \<Longrightarrow> clk q = clk p" "noted p q \<Longrightarrow> alive q = alive p" "noted p q \<Longrightarrow> stuck q = stuck p"
  by (simp_all add: clk_def alive_def stuck_def noted_fields)









text \<open>The demo's first child, with priority 57, is passed over once for the second, with 62.\<close>

lemma demo_clocks: "clocks_ok demo_sched"
proof -
  have "list_all (clock_ok 10) (ptable demo_sched)" by code_simp
  moreover have "list_all (\<lambda>p. pid p < 5) (ptable demo_sched)" by code_simp
  ultimately show ?thesis
    by (simp add: clocks_ok_def pids_below_def list_all_iff) (simp add: demo_sched_def now_def)
qed



subsection \<open>Control-C on a suspended process\<close>

text \<open>A run of the system: events of the running process, dispatches and returns to the scheduler.\<close>

inductive sys_step :: "int set \<Rightarrow> 'a sched_scheme \<Rightarrow> 'a sched_scheme \<Rightarrow> bool" for G where
  ev: "event G s s' \<Longrightarrow> sys_step G s s'"
| switch: "cur s = None \<Longrightarrow> scheduler_step prev s = Ret (r, s') \<Longrightarrow> sys_step G s s'"
| resched: "cur s = Some i \<Longrightarrow> sys_step G s (scheduler_return i s)"

definition stranded :: "nat \<Rightarrow> 'a sched_scheme \<Rightarrow> bool" where
  "stranded i s \<longleftrightarrow> length (ptable s) = NPROC \<and> pids_below s \<and> cur s \<noteq> Some i \<and> stuck (ptable s ! i)"

lemma calm_stranded:
  assumes "calm_step s s'" and "stranded i s" and "i < NPROC"
  shows "stranded i s'"
proof -
  have "pids_below s'" using mild_pids [OF calm_mild [OF assms(1)]] assms(2) by (simp add: stranded_def)
  then show ?thesis using assms by (simp add: stranded_def calm_step_def calm_slot_def)
qed

lemma forked_stranded:
  assumes "forked s s'" and "stranded i s" and "i < NPROC"
  shows "stranded i s'"
proof -
  have s: "length (ptable s) = NPROC" "pids_below s" "cur s \<noteq> Some i" "stuck (ptable s ! i)"
    using assms(2) by (simp_all add: stranded_def)
  have p: "pids_below s'"
  proof (rule pids_belowI)
    show "0 < nextpid s'" using assms(1) s(2) by (auto simp: forked_def pids_below_def)
    show "pid (ptable s' ! k) < nextpid s'" if "k < length (ptable s')" for k
    proof (cases "ptable s' ! k = ptable s ! k")
      case True
      then show ?thesis using assms(1) that pids_belowD [OF s(2), of k] by (auto simp: forked_def)
    next
      case False
      then show ?thesis using assms(1) that by (auto simp: forked_def newborn_def)
    qed
  qed
  have "ptable s' ! i = ptable s ! i"
    using assms(1,3) s(1,4) by (auto simp: forked_def newborn_def stuck_def)
  then show ?thesis using assms(1) s p by (auto simp: stranded_def forked_def)
qed

lemma own_stranded:
  assumes "cur s = Some k" and "stranded i s" and "pid (f (ptable s ! k)) = pid (ptable s ! k)"
  shows "stranded i (upd_proc k f s)"
proof -
  have s: "length (ptable s) = NPROC" "pids_below s" "k \<noteq> i" "stuck (ptable s ! i)"
    using assms(1,2) by (auto simp: stranded_def)
  have "pids_below (upd_proc k f s)"
  proof (rule pids_belowI)
    show "0 < nextpid (upd_proc k f s)" using s(2) by (simp add: pids_below_def upd_proc_def)
    show "pid (ptable (upd_proc k f s) ! j) < nextpid (upd_proc k f s)" if "j < length (ptable (upd_proc k f s))" for j
      using that assms(3) pids_belowD [OF s(2), of j] by (cases "j = k") (simp_all add: upd_proc_def)
  qed
  then show ?thesis using assms(1,2) s by (simp add: stranded_def upd_proc_def)
qed

lemma sleep_stranded:
  assumes "sleep c s = Ret s'" and "stranded i s"
  shows "stranded i s'"
  using assms by (auto simp: sleep_def split: option.splits intro!: own_stranded)

lemma slept_stranded:
  assumes "sleep_return s = Ret s'" and "stranded i s" and "i < NPROC"
  shows "stranded i s'"
proof -
  obtain k where k: "cur s = Some k"
    using assms(1) by (auto simp: sleep_return_def myproc_def split: option.splits)
  define s1 where "s1 = upd_proc k (\<lambda>p. p\<lparr>total_sleeping_time := add_since s (sleep_start p) (total_sleeping_time p)\<rparr>) s"
  define s2 where "s2 = upd_proc k (\<lambda>p. p\<lparr>chan := NoChan\<rparr>) s1"
  have "stranded i s1" unfolding s1_def by (rule own_stranded [OF k assms(2)]) simp
  moreover have "cur s1 = Some k" using k by (simp add: s1_def upd_proc_def)
  ultimately have 2: "stranded i s2" unfolding s2_def by (intro own_stranded) simp_all
  have "exit s2 = Ret s' \<or> s' = s2"
    using assms(1) unfolding sleep_return_def Let_def myproc_def k option.case bindR.simps
      s1_def [symmetric] s2_def [symmetric] by (auto split: if_splits)
  then show ?thesis using 2 calm_stranded [OF calm_exit _ assms(3)] by blast
qed

lemma event_stranded:
  assumes "event G s s'" and "SIGBG \<notin> G" and "stranded i s" and "i < NPROC"
  shows "stranded i s'"
  using assms(1)
proof cases
  case tick
  have "stranded i (s\<lparr>ticks := ticks s + 1\<rparr>)" using assms(3) by (simp add: stranded_def pids_below_def)
  then show ?thesis using calm_stranded [OF calm_wakeup _ assms(4)] by (simp add: tick(1) trap_timer_def)
next
  case (forks k d n)
  moreover have "0 < nextpid s" using assms(3) by (simp add: stranded_def pids_below_def)
  ultimately show ?thesis using fork_forked forked_stranded assms(3,4) by blast
next
  case (custom_forks a b e k d n)
  moreover have "pids_below s" using assms(3) by (simp add: stranded_def)
  ultimately show ?thesis using custom_fork_forked forked_stranded assms(3,4) by blast
next
  case (waits r)
  then show ?thesis using wait_cases calm_stranded sleep_stranded assms(3,4) by metis
next
  case (sleeps c)
  then show ?thesis using sleep_stranded assms(3) by blast
next
  case (slept k)
  then show ?thesis using slept_stranded assms(3,4) by blast
next
  case (signals g)
  then have "calm_step s s'" using assms(2,3) by (auto simp: stranded_def intro: calm_signal)
  then show ?thesis using calm_stranded assms(3,4) by blast
qed (auto intro: calm_stranded [OF _ assms(3,4)] calm_starts calm_wakeup calm_kill calm_exit calm_yield calm_handles
    calm_traps calm_com1)

lemma sys_step_stranded:
  assumes "sys_step G s s'" and "SIGBG \<notin> G" and "stranded i s" and "i < NPROC"
  shows "stranded i s'"
  using assms(1)
proof cases
  case ev
  then show ?thesis using event_stranded assms(2-4) by blast
next
  case (switch prev r)
  have s: "length (ptable s) = NPROC" "pids_below s" "stuck (ptable s ! i)"
    using assms(3) by (simp_all add: stranded_def)
  note st = scheduler_stepD [OF s(1) switch(2)]
  obtain best where b: "best_upto NPROC (-1000000000) s best r"
    using scheduler_step_best [OF s(1) switch(2)] by blast
  have r: "r \<noteq> Some i" using b s(3) by (auto simp: best_upto_def stuck_def ready_def)
  have "cur s' = r"
  proof (cases r)
    case None
    then have "sched_scan NPROC 0 (-1000000000) None s = (None, s')"
      using switch(2) by (auto simp: scheduler_step_def Let_def split: option.splits if_splits prod.splits)
    then show ?thesis using scannedD(2) [OF sched_scan_from_start(1) [OF s(1)]] switch(1) None by simp
  next
    case (Some k)
    then show ?thesis using st(6) [of k] b by (simp add: best_upto_def)
  qed
  moreover have "pids_below s'"
  proof (rule pids_belowI)
    show "0 < nextpid s'" using s(2) st(3) by (simp add: pids_below_def)
    show "pid (ptable s' ! k) < nextpid s'" if "k < length (ptable s')" for k
    proof -
      have k: "k < NPROC" using that st(1) by simp
      have "pid (ptable s' ! k) = pid (ptable s ! k)"
      proof (cases "r = Some k")
        case True
        obtain q where "noted (ptable s ! k) q" "pid (ptable s' ! k) = pid q"
          using st(6) [OF True k] by auto
        then show ?thesis by (simp add: noted_fields)
      next
        case False
        then show ?thesis by (rule noted_fields(2) [OF st(5) [OF k]])
      qed
      then show ?thesis using pids_belowD [OF s(2), of k] k s(1) st(3) by simp
    qed
  qed
  moreover have "stuck (ptable s' ! i)" using noted_clk(3) [OF st(5) [OF assms(4) r]] s(3) by simp
  ultimately show ?thesis using r st(1) by (simp add: stranded_def)
next
  case (resched k)
  define s1 where "s1 = upd_proc k (\<lambda>p. p\<lparr>total_run_time := add_since s (start_run_tick p) (total_run_time p)\<rparr>) s"
  have c: "cur s1 = Some k" using resched(2) by (simp add: s1_def upd_proc_def)
  have 1: "stranded i s1" unfolding s1_def by (rule own_stranded [OF resched(2) assms(3)]) simp
  have "stranded i (upd_proc k (\<lambda>p. p\<lparr>killed := True\<rparr>) s1)" by (rule own_stranded [OF c 1]) simp
  then show ?thesis
    using 1 unfolding resched(1) scheduler_return_def Let_def s1_def [symmetric]
    by (auto simp: stranded_def pids_below_def)
qed

text \<open>Control-B, if no other key comes between, leaves a process that is not on the CPU in the state
  from which the next property starts.\<close>

lemma suspend_off_cpu:
  assumes "length (ptable s) = NPROC" and "i < NPROC" and "pid (ptable s ! i) \<notin> {1, 2}"
    and "active (ptable s ! i)" and "pids_below s"
  shows "pstate (ptable (send_signal_to_all SIGBG s) ! i) = SUSPENDED"
    and "suspended (ptable (send_signal_to_all SIGBG s) ! i)"
    and "pid (ptable (send_signal_to_all SIGBG s) ! i) = pid (ptable s ! i)"
    and "pids_below (send_signal_to_all SIGBG s)"
proof -
  have b: "orphaned (ptable (send_signal_to_all SIGBG s) ! i) =
      orphaned (ptable s ! i)\<lparr>pstate := SUSPENDED, suspended := True\<rparr>"
    using suspend_nth [OF assms(1-3)] assms(4) by (simp add: orphaned_def active_def Let_def)
  show "pstate (ptable (send_signal_to_all SIGBG s) ! i) = SUSPENDED"
    and "suspended (ptable (send_signal_to_all SIGBG s) ! i)"
    and "pid (ptable (send_signal_to_all SIGBG s) ! i) = pid (ptable s ! i)"
    using orphaned_eq(1,2,4) [OF b] by (simp_all add: orphaned_def)
  show "pids_below (send_signal_to_all SIGBG s)" by (rule mild_pids [OF mild_signal [OF assms(1)] assms(5)])
qed

text \<open>C17: control-C does not kill a process that control-B has suspended while it was off the CPU.
  Let slot \<open>i\<close>, not the one on the CPU and neither init nor the shell, be in the state
  \<^verbatim>\<open>SUSPENDED\<close> with its mark set when control-C comes, whatever happened since control-B.  The signal
  makes the process killed and runnable without taking the mark off, which the scheduler respects
  and which control-F, that looks for the state \<^verbatim>\<open>SUSPENDED\<close>, no longer removes.  So in every run
  without another control-B the process stays killed, runnable and marked, and never gets the CPU
  on which it would exit.  A process that is on the CPU when control-B comes is another matter: it
  may still exit at the end of its system call.\<close>
theorem ctrl_c_strands_suspended:
  assumes "length (ptable s) = NPROC" and "i < NPROC" and "pids_below s" and "pid (ptable s ! i) \<notin> {1, 2}"
    and "pstate (ptable s ! i) = SUSPENDED" and "suspended (ptable s ! i)" and "cur s \<noteq> Some i"
    and "SIGBG \<notin> G" and "(sys_step G)\<^sup>*\<^sup>* (send_signal_to_all SIGINT s) t"
  shows "killed (ptable t ! i) \<and> pstate (ptable t ! i) = RUNNABLE \<and> suspended (ptable t ! i) \<and>
    cur t \<noteq> Some i"
proof -
  let ?c = "send_signal_to_all SIGINT s"
  have "orphaned (ptable ?c ! i) = woken (ChanProc 1) (signalled SIGINT (orphaned (ptable s ! i)))"
    by (rule send_signal_nth [OF assms(1,2)])
  then have "stuck (orphaned (ptable ?c ! i))"
    using assms(4-6) by (simp add: signalled_def signal_proc_def woken_def stuck_def orphaned_def Let_def)
  moreover have "pids_below ?c" by (rule mild_pids [OF mild_signal [OF assms(1)] assms(3)])
  ultimately have "stranded i ?c"
    using assms(1,7) by (simp add: stranded_def orphaned_slot)
  with assms(9) have "stranded i t"
    by induction (auto intro: sys_step_stranded [OF _ assms(8) _ assms(2)])
  then show ?thesis by (simp add: stranded_def stuck_def)
qed

text \<open>The demo: control-B, control-C and control-F with nobody on the CPU, then a turn of the
  scheduler, which does not choose the process.\<close>

theorem ctrl_c_strands_suspended_witness:
  "let s = send_signal_to_all SIGFG (send_signal_to_all SIGINT (send_signal_to_all SIGBG demo_sched)) in
     killed (ptable s ! 3) \<and> pstate (ptable s ! 3) = RUNNABLE \<and> suspended (ptable s ! 3) \<and>
     (\<forall>r t. scheduler_step None s = Ret (r, t) \<longrightarrow>
        killed (ptable t ! 3) \<and> suspended (ptable t ! 3) \<and> cur t \<noteq> Some 3)"
proof -
  let ?G = "{SIGINT, SIGFG, SIGCUSTOM}" and ?b = "send_signal_to_all SIGBG demo_sched"
  let ?c = "send_signal_to_all SIGINT ?b"
  let ?f = "send_signal_to_all SIGFG ?c"
  have d: "pids_below demo_sched" "pid (ptable demo_sched ! 3) \<notin> {1, 2}" "active (ptable demo_sched ! 3)"
      "cur demo_sched = None" "(3 :: nat) < NPROC" "SIGBG \<notin> ?G"
    using demo_clocks
    by (simp_all add: clocks_ok_def demo_sched_def demo_procs_def active_def NPROC_def SIGBG_def SIGINT_def
        SIGFG_def SIGCUSTOM_def)
  note b = suspend_off_cpu [OF demo_length d(5,2,3,1)]
  have run: "killed (ptable t ! 3) \<and> pstate (ptable t ! 3) = RUNNABLE \<and> suspended (ptable t ! 3) \<and> cur t \<noteq> Some 3"
    if "(sys_step ?G)\<^sup>*\<^sup>* ?c t" for t
    by (rule ctrl_c_strands_suspended [OF _ d(5) b(4) _ b(1,2) _ d(6) that])
      (use d b(3) demo_length in simp_all)
  have "sys_step ?G ?c ?f" by (intro sys_step.ev event.signals) simp
  then have f: "(sys_step ?G)\<^sup>*\<^sup>* ?c ?f" by blast
  have "(sys_step ?G)\<^sup>*\<^sup>* ?c t" if "scheduler_step None ?f = Ret (r, t)" for r t
    using f sys_step.switch [OF _ that, of ?G] d(4) by (simp add: rtranclp.rtrancl_into_rtrancl)
  then show ?thesis unfolding Let_def using run f by blast
qed

end
