(* ===== verification/Umalloc.thy ===== *)
theory Umalloc
  imports Prelude
begin

text \<open>
  The allocator of user programs (\<^verbatim>\<open>umalloc.c\<close>): Kernighan and Ritchie's list of free blocks.  The memory
  of the process is a function from the address of a word to the word; a header is two words, the
  pointer to the next free block and the size of the block in headers, its own included.  The list is
  a ring through \<^verbatim>\<open>base\<close>, whose size is 0; \<open>brk\<close> is the end of the process's memory, and
  \<open>grant b n\<close> says whether the kernel's \<^verbatim>\<open>sbrk\<close> moves it from \<open>b\<close> by \<open>n\<close>.
  The loops need not end on an arbitrary memory: a run that does not end is \<open>None\<close>.
\<close>

record uheap =
  hmem :: "u32 \<Rightarrow> u32"
  base :: u32
  freep :: u32
  brk :: u32

text \<open>The search of \<^verbatim>\<open>free\<close> for the free block after which \<open>bp\<close> belongs.\<close>

partial_function (option) free_loop :: "(u32 \<Rightarrow> u32) \<Rightarrow> u32 \<Rightarrow> u32 \<Rightarrow> u32 option" where
  "free_loop m bp p =
     (if bp > p \<and> bp < m p then Some p
      else if p \<ge> m p \<and> (bp > p \<or> bp < m p) then Some p
      else free_loop m bp (m p))"

definition free_upper :: "u32 \<Rightarrow> u32 \<Rightarrow> (u32 \<Rightarrow> u32) \<Rightarrow> u32 \<Rightarrow> u32" where
  "free_upper bp p m =
     (if bp + 8 * m (bp + 4) = m p then
        let m = m(bp + 4 := m (bp + 4) + m (m p + 4)) in m(bp := m (m p))
      else m(bp := m p))"

definition free_lower :: "u32 \<Rightarrow> u32 \<Rightarrow> (u32 \<Rightarrow> u32) \<Rightarrow> u32 \<Rightarrow> u32" where
  "free_lower bp p m =
     (if p + 8 * m (p + 4) = bp then
        let m = m(p + 4 := m (p + 4) + m (bp + 4)) in m(p := m bp)
      else m(p := bp))"

definition free :: "u32 \<Rightarrow> uheap \<Rightarrow> uheap option" where
  "free ap s =
     (let bp = ap - 8 in
      case free_loop (hmem s) bp (freep s) of
        None \<Rightarrow> None
      | Some p \<Rightarrow> Some (s\<lparr>hmem := free_lower bp p (free_upper bp p (hmem s)), freep := p\<rparr>))"

definition sbrk :: "(u32 \<Rightarrow> u32 \<Rightarrow> bool) \<Rightarrow> u32 \<Rightarrow> uheap \<Rightarrow> u32 \<times> uheap" where
  "sbrk grant n s = (if grant (brk s) n then (brk s, s\<lparr>brk := brk s + n\<rparr>) else (-1, s))"

definition morecore :: "(u32 \<Rightarrow> u32 \<Rightarrow> bool) \<Rightarrow> u32 \<Rightarrow> uheap \<Rightarrow> (u32 \<times> uheap) option" where
  "morecore grant nu s =
     (let nu = (if nu < 4096 then 4096 else nu);
          (hp, s) = sbrk grant (nu * 8) s
      in if hp = -1 then Some (0, s)
         else
           let s = s\<lparr>hmem := (hmem s)(hp + 4 := nu)\<rparr>
           in case free (hp + 8) s of None \<Rightarrow> None | Some s \<Rightarrow> Some (freep s, s))"

text \<open>Taking \<open>n\<close> headers from the free block \<open>p\<close> behind \<open>prevp\<close>: all of it, or its tail.\<close>

definition carve :: "u32 \<Rightarrow> u32 \<Rightarrow> u32 \<Rightarrow> uheap \<Rightarrow> u32 \<times> uheap" where
  "carve n prevp p s =
     (let m = hmem s in
      if m (p + 4) = n then (p + 8, s\<lparr>hmem := m(prevp := m p), freep := prevp\<rparr>)
      else
        let m = m(p + 4 := m (p + 4) - n);
            p = p + 8 * m (p + 4);
            m = m(p + 4 := n)
        in (p + 8, s\<lparr>hmem := m, freep := prevp\<rparr>))"

partial_function (option) malloc_loop :: "(u32 \<Rightarrow> u32 \<Rightarrow> bool) \<Rightarrow> u32 \<Rightarrow> u32 \<Rightarrow> u32 \<Rightarrow> uheap \<Rightarrow>
    (u32 \<times> uheap) option" where
  "malloc_loop grant n prevp p s =
     (if hmem s (p + 4) \<ge> n then Some (carve n prevp p s)
      else if p = freep s then
        Option.bind (morecore grant n s) (\<lambda>(p, s).
          if p = 0 then Some (0, s) else malloc_loop grant n p (hmem s p) s)
      else malloc_loop grant n p (hmem s p) s)"

definition malloc :: "(u32 \<Rightarrow> u32 \<Rightarrow> bool) \<Rightarrow> u32 \<Rightarrow> uheap \<Rightarrow> (u32 \<times> uheap) option" where
  "malloc grant nbytes s =
     (let n = (nbytes + 8 - 1) div 8 + 1;
          s = (if freep s = 0 then s\<lparr>hmem := (hmem s)(base s := base s, base s + 4 := 0), freep := base s\<rparr> else s)
      in malloc_loop grant n (freep s) (hmem s (freep s)) s)"

subsection \<open>The ring of free blocks\<close>

text \<open>\<open>chain m a xs z\<close>: following the pointers from \<open>a\<close> leads through \<open>xs\<close> to \<open>z\<close>.\<close>

fun chain :: "(u32 \<Rightarrow> u32) \<Rightarrow> u32 \<Rightarrow> u32 list \<Rightarrow> u32 \<Rightarrow> bool" where
  "chain m a [] z \<longleftrightarrow> a = z"
| "chain m a (x # xs) z \<longleftrightarrow> a = x \<and> chain m (m x) xs z"

lemma chain_append [simp]: "chain m a (xs @ ys) z \<longleftrightarrow> (\<exists>c. chain m a xs c \<and> chain m c ys z)"
  by (induction xs arbitrary: a) auto

lemma chain_upd [simp]: "w \<notin> set xs \<Longrightarrow> chain (m(w := v)) a xs z = chain m a xs z"
  by (induction xs arbitrary: a) auto

definition units :: "(u32 \<Rightarrow> u32) \<Rightarrow> u32 \<Rightarrow> nat" where
  "units m x = unat (m (x + 4))"

definition fin_at :: "(u32 \<Rightarrow> u32) \<Rightarrow> u32 \<Rightarrow> nat" where
  "fin_at m x = unat x + 8 * units m x"

definition blk :: "(u32 \<Rightarrow> u32) \<Rightarrow> u32 \<Rightarrow> nat set" where
  "blk m x = {unat x ..< fin_at m x}"

text \<open>The free blocks \<open>xs\<close> lie in the order of their addresses with gaps between them, above the
  header \<open>b\<close> and below \<open>e\<close>.\<close>

definition blocks_ok :: "(u32 \<Rightarrow> u32) \<Rightarrow> u32 \<Rightarrow> nat \<Rightarrow> u32 list \<Rightarrow> bool" where
  "blocks_ok m b e xs \<longleftrightarrow> sorted_wrt (\<lambda>x y. fin_at m x < unat y) xs \<and>
     (\<forall>x \<in> set xs. unat b + 8 \<le> unat x \<and> 1 \<le> units m x \<and> fin_at m x \<le> e)"

definition ring_ok :: "uheap \<Rightarrow> u32 list \<Rightarrow> bool" where
  "ring_ok s xs \<longleftrightarrow> blocks_ok (hmem s) (base s) (unat (brk s)) xs \<and>
     chain (hmem s) (base s) (base s # xs) (base s) \<and> hmem s (base s + 4) = 0 \<and>
     freep s \<in> set (base s # xs) \<and> unat (base s) + 8 \<le> unat (brk s) \<and> base s \<noteq> 0"

definition free_bytes :: "(u32 \<Rightarrow> u32) \<Rightarrow> u32 list \<Rightarrow> nat set" where
  "free_bytes m xs = (\<Union>x \<in> set xs. blk m x)"

text \<open>Two headers that do not overlap have four different words.\<close>

definition hdr_apart :: "u32 \<Rightarrow> u32 \<Rightarrow> bool" where
  "hdr_apart x y \<longleftrightarrow> unat x + 8 \<le> unat y \<and> unat y + 8 \<le> 2 ^ 32 \<or> unat y + 8 \<le> unat x \<and> unat x + 8 \<le> 2 ^ 32"

lemma unat_add_4: "unat (x :: u32) + 8 \<le> 2 ^ 32 \<Longrightarrow> unat (x + 4) = unat x + 4"
  using unat_plus_of_nat [of x 4] by simp

lemma hdr_apart_sym: "hdr_apart x y \<Longrightarrow> hdr_apart y x"
  by (auto simp: hdr_apart_def)

lemma hdr_apartD:
  assumes "hdr_apart x y"
  shows "x \<noteq> y" "x + 4 \<noteq> y" "x \<noteq> y + 4" "x + 4 \<noteq> y + 4"
proof -
  have u: "unat x + 8 \<le> 2 ^ 32" "unat y + 8 \<le> 2 ^ 32" using assms unat_u32_less [of x] unat_u32_less [of y]
    by (auto simp: hdr_apart_def)
  note e = unat_add_4 [OF u(1)] unat_add_4 [OF u(2)]
  show "x \<noteq> y" using assms by (auto simp: hdr_apart_def)
  show "x + 4 \<noteq> y" using assms e(1) by (auto simp: hdr_apart_def)
  show "x \<noteq> y + 4" using assms e(2) by (auto simp: hdr_apart_def)
  show "x + 4 \<noteq> y + 4" using assms by (auto simp: hdr_apart_def)
qed

lemma header_words: "x \<noteq> x + (4 :: u32)" "x + (4 :: u32) \<noteq> x"
  by simp_all

lemma units_upd:
  "w \<noteq> x + 4 \<Longrightarrow> units (m(w := v)) x = units m x" "units (m(x + 4 := v)) x = unat v"
  by (simp_all add: units_def)

lemma fin_at_upd: "w \<noteq> x + 4 \<Longrightarrow> fin_at (m(w := v)) x = fin_at m x"
  by (simp add: fin_at_def units_upd)

subsection \<open>The search of free\<close>

lemma free_loop_below:
  assumes "chain m f (f # mid @ vs) b" and "b \<le> f" and "\<forall>x \<in> set (f # mid). x < bp" and "\<forall>v \<in> set vs. bp < v"
    and "sorted_wrt (<) (f # mid)"
  shows "free_loop m bp f = Some (last (f # mid))"
  using assms
proof (induction mid arbitrary: f)
  case Nil
  then show ?case by (cases vs) (auto simp: free_loop.simps [of m bp f])
next
  case (Cons y mid)
  then have n: "m f = y" "f < y" "y < bp" by auto
  have "free_loop m bp y = Some (last (y # mid))"
    using Cons.prems n by (intro Cons.IH) auto
  moreover have "\<not> bp < y" "\<not> y \<le> f" using n by auto
  then have "free_loop m bp f = free_loop m bp y" by (subst free_loop.simps) (simp add: n)
  ultimately show ?case by simp
qed

lemma free_loop_above:
  assumes "chain m f (f # mid) b" and "free_loop m bp b = Some r" and "\<forall>x \<in> set (f # mid). bp < x" and "b < bp"
    and "sorted_wrt (<) (f # mid)"
  shows "free_loop m bp f = Some r"
  using assms
proof (induction mid arbitrary: f)
  case Nil
  then have "m f = b" "\<not> f < bp" "\<not> bp < b" by simp_all
  then have "free_loop m bp f = free_loop m bp b" by (subst free_loop.simps) simp
  then show ?case using Nil.prems(2) by simp
next
  case (Cons y mid)
  then have n: "m f = y" "f < y" "bp < f" by simp_all
  have "free_loop m bp y = Some r"
    by (rule Cons.IH [OF _ Cons.prems(2) _ Cons.prems(4)]) (use Cons.prems(1,3,5) n in simp_all)
  moreover have "\<not> f < bp" "\<not> y \<le> f" using n by auto
  then have "free_loop m bp f = free_loop m bp y" by (subst free_loop.simps) (simp add: n)
  ultimately show ?case by simp
qed

lemma free_loop_finds:
  assumes "chain m b (b # us @ vs) b" and "sorted_wrt (<) (b # us @ vs)" and "f \<in> set (b # us @ vs)"
    and "\<forall>u \<in> set us. u < bp" and "b < bp" and "\<forall>v \<in> set vs. bp < v"
  shows "free_loop m bp f = Some (last (b # us))"
proof -
  have b: "free_loop m bp b = Some (last (b # us))"
    by (rule free_loop_below [OF assms(1)]) (use assms in \<open>auto simp: sorted_wrt_append\<close>)
  consider "f \<in> set (b # us)" | "f \<in> set vs" using assms(3) by auto
  then show ?thesis
  proof cases
    case 1
    then obtain pre mid where s: "b # us = pre @ f # mid" by (meson split_list)
    have "chain m b ((pre @ f # mid) @ vs) b" using assms(1) s by (metis append_Cons)
    then have "chain m f (f # mid @ vs) b" by auto
    moreover have "sorted_wrt (<) ((pre @ f # mid) @ vs)" using assms(2) s by (metis append_Cons)
    moreover have "b \<le> f" using assms(2) 1 by (auto simp: sorted_wrt_append intro: less_imp_le)
    moreover have "\<forall>x \<in> set (f # mid). x < bp"
    proof -
      have "set (f # mid) \<subseteq> set (b # us)" unfolding s by auto
      then show ?thesis using assms(4,5) by auto
    qed
    ultimately have "free_loop m bp f = Some (last (f # mid))"
      using assms(6) by (intro free_loop_below) (auto simp: sorted_wrt_append)
    then show ?thesis by (simp only: s last_append) simp
  next
    case 2
    then obtain pre mid where s: "vs = pre @ f # mid" by (meson split_list)
    have "chain m f (f # mid) b" using assms(1) unfolding s by auto
    then show ?thesis
      by (rule free_loop_above [OF _ b]) (use assms(2,5,6) in \<open>auto simp: s sorted_wrt_append\<close>)
  qed
qed

subsection \<open>Putting a block back\<close>

lemma blocks_ok_cong:
  assumes "\<And>x. x \<in> set xs \<Longrightarrow> units m' x = units m x"
  shows "blocks_ok m' b e xs = blocks_ok m b e xs" and "free_bytes m' xs = free_bytes m xs"
proof -
  have u: "fin_at m' x = fin_at m x" if "x \<in> set xs" for x using assms [OF that] by (simp add: fin_at_def)
  have "sorted_wrt (\<lambda>x y. fin_at m' x < unat y) xs = sorted_wrt (\<lambda>x y. fin_at m x < unat y) xs"
    using u by (induction xs) (auto simp: fin_at_def)
  then show "blocks_ok m' b e xs = blocks_ok m b e xs" using assms u by (auto simp: blocks_ok_def)
  show "free_bytes m' xs = free_bytes m xs" using u by (auto simp: free_bytes_def blk_def)
qed

lemma blocks_ok_append:
  "blocks_ok m b e (xs @ ys) \<longleftrightarrow> blocks_ok m b e xs \<and> blocks_ok m b e ys \<and>
     (\<forall>x \<in> set xs. \<forall>y \<in> set ys. fin_at m x < unat y)"
  by (auto simp: blocks_ok_def sorted_wrt_append)

lemma blocks_ok_Cons:
  "blocks_ok m b e (x # xs) \<longleftrightarrow> unat b + 8 \<le> unat x \<and> 1 \<le> units m x \<and> fin_at m x \<le> e \<and> blocks_ok m b e xs \<and>
     (\<forall>y \<in> set xs. fin_at m x < unat y)"
  by (auto simp: blocks_ok_def)

lemma blocks_ok_Nil [simp]: "blocks_ok m b e []"
  by (simp add: blocks_ok_def)

lemma free_bytes_simps [simp]:
  "free_bytes m [] = {}" "free_bytes m (x # xs) = blk m x \<union> free_bytes m xs"
  "free_bytes m (xs @ ys) = free_bytes m xs \<union> free_bytes m ys"
  by (auto simp: free_bytes_def)

lemma fin_at_gt: "1 \<le> units m x \<Longrightarrow> unat x + 8 \<le> fin_at m x"
  by (simp add: fin_at_def)

lemma blk_disjoint:
  assumes "blk m x \<inter> blk m y = {}" and "1 \<le> units m x" and "1 \<le> units m y"
  shows "fin_at m x \<le> unat y \<or> fin_at m y \<le> unat x"
proof (rule ccontr)
  assume "\<not> ?thesis"
  then have "max (unat x) (unat y) \<in> blk m x \<inter> blk m y"
    using fin_at_gt [OF assms(2)] fin_at_gt [OF assms(3)] by (auto simp: blk_def)
  then show False using assms(1) by simp
qed

lemma split_at:
  assumes "blocks_ok m b e xs" and "blk m p \<inter> free_bytes m xs = {}" and "1 \<le> units m p"
  obtains us vs where "xs = us @ vs" "\<forall>u \<in> set us. fin_at m u \<le> unat p" "\<forall>v \<in> set vs. fin_at m p \<le> unat v"
proof -
  have "\<exists>us vs. xs = us @ vs \<and> (\<forall>u \<in> set us. fin_at m u \<le> unat p) \<and> (\<forall>v \<in> set vs. fin_at m p \<le> unat v)"
    using assms(1,2)
  proof (induction xs)
    case (Cons x xs)
    then have x: "1 \<le> units m x" "\<forall>y \<in> set xs. fin_at m x < unat y" by (simp_all add: blocks_ok_Cons)
    have "blk m p \<inter> blk m x = {}" using Cons.prems(2) by auto
    then have "fin_at m p \<le> unat x \<or> fin_at m x \<le> unat p" using blk_disjoint assms(3) x(1) by blast
    then show ?case
    proof
      assume l: "fin_at m p \<le> unat x"
      then have "\<forall>v \<in> set (x # xs). fin_at m p \<le> unat v"
        using x(2) fin_at_gt [OF x(1)] by fastforce
      then show ?case by (intro exI [of _ "[]"] exI [of _ "x # xs"]) simp
    next
      assume u: "fin_at m x \<le> unat p"
      obtain us vs where "xs = us @ vs" "\<forall>u \<in> set us. fin_at m u \<le> unat p" "\<forall>v \<in> set vs. fin_at m p \<le> unat v"
        using Cons.IH Cons.prems by (auto simp: blocks_ok_Cons)
      then show ?case using u by (intro exI [of _ "x # us"] exI [of _ vs]) simp
    qed
  qed simp
  then show thesis using that by blast
qed

lemma unat_end:
  assumes "fin_at m x < 2 ^ 32"
  shows "unat (x + 8 * m (x + 4)) = fin_at m x"
proof -
  have "x + 8 * m (x + 4) = x + of_nat (8 * units m x)" by (simp add: units_def)
  then show ?thesis using assms unat_plus_of_nat [of x "8 * units m x"] by (simp add: fin_at_def)
qed

lemma end_eq_iff:
  assumes "fin_at m x < 2 ^ 32"
  shows "x + 8 * m (x + 4) = y \<longleftrightarrow> fin_at m x = unat y"
  using unat_end [OF assms] by (metis word_unat_eq_iff)

lemma unat_sum:
  assumes "units m x + units m y < 2 ^ 32"
  shows "unat (m (x + 4) + m (y + 4)) = units m x + units m y"
  using assms unat_word_ariths(1) [of "m (x + 4)" "m (y + 4)"] by (simp add: units_def)

text \<open>The first half of \<^verbatim>\<open>free\<close>: the block takes its place before the blocks above, and swallows the
  first of them if it touches it.\<close>

lemma free_upper:
  assumes ok: "blocks_ok m b e vs" and lt: "e < 2 ^ 32" and ch: "chain m (m p) vs b"
    and bp: "unat b + 8 \<le> unat bp" "1 \<le> units m bp" "fin_at m bp \<le> e"
    and above: "\<forall>v \<in> set vs. fin_at m bp \<le> unat v" and ap_p: "hdr_apart p bp"
  defines "m1 \<equiv> free_upper bp p m"
  obtains vs1 where "chain m1 (m1 bp) vs1 b" "blocks_ok m1 b e (bp # vs1)" "set vs1 \<subseteq> set vs"
    "free_bytes m1 (bp # vs1) = blk m bp \<union> free_bytes m vs" "blk m bp \<subseteq> blk m1 bp"
    "\<And>w. w \<noteq> bp \<Longrightarrow> w \<noteq> bp + 4 \<Longrightarrow> m1 w = m w"
proof -
  have e: "fin_at m bp < 2 ^ 32" using bp(3) lt by simp
  have ap: "hdr_apart bp v" if "v \<in> set vs" for v
    using above that fin_at_gt [OF bp(2)] ok lt fin_at_gt [of m v]
    by (fastforce simp: hdr_apart_def blocks_ok_def)
  have w: "m1 w = m w" if "w \<noteq> bp" "w \<noteq> bp + 4" for w
    using that by (simp add: m1_def free_upper_def Let_def)
  have un: "units m1 v = units m v" if "v \<in> set vs" for v
    using w [of "v + 4"] hdr_apartD(3,4) [OF ap [OF that]] by (simp add: units_def)
  show thesis
  proof (cases "bp + 8 * m (bp + 4) = m p")
    case False
    have m1: "m1 = m(bp := m p)" using False by (simp add: m1_def free_upper_def)
    have "bp \<notin> set vs" using hdr_apartD(1) [OF ap] by blast
    then have "chain m1 (m1 bp) vs b" using ch by (simp add: m1)
    moreover have u: "units m1 bp = units m bp" by (simp add: m1 units_def)
    moreover have "\<forall>v \<in> set vs. fin_at m bp < unat v"
    proof
      fix v assume v: "v \<in> set vs"
      show "fin_at m bp < unat v"
      proof (cases vs)
        case (Cons v0 vs0)
        then have "m p = v0" using ch by simp
        then have "fin_at m bp < unat v0"
          using False end_eq_iff [OF e] above Cons by (fastforce simp: nat_less_le)
        then show ?thesis
          using v ok Cons fin_at_gt [of m v0] by (auto simp: blocks_ok_Cons)
      qed (use v in simp)
    qed
    ultimately show thesis
      using that [of vs] w blocks_ok_cong [of vs m1 m, OF un] bp ok
      by (simp add: blocks_ok_Cons fin_at_def blk_def)
  next
    case True
    have ne: "vs \<noteq> []"
    proof
      assume "vs = []"
      then have "unat b = fin_at m bp" using ch True end_eq_iff [OF e, of b] by simp
      then show False using bp(1) fin_at_gt [OF bp(2)] by simp
    qed
    then obtain v vs0 where vs: "vs = v # vs0" by (cases vs) auto
    have v: "m p = v" "fin_at m bp = unat v" "chain m (m v) vs0 b" "fin_at m v \<le> e" "1 \<le> units m v"
        "blocks_ok m b e vs0" "\<forall>y \<in> set vs0. fin_at m v < unat y"
      using ch True end_eq_iff [OF e, of v] ok by (auto simp: vs blocks_ok_Cons)
    have av: "hdr_apart bp v" using ap by (simp add: vs)
    have m1: "m1 = m(bp + 4 := m (bp + 4) + m (v + 4), bp := m v)"
      using True v(1) hdr_apartD(1,2) [OF av] hdr_apartD(1,3) [OF ap_p]
      unfolding m1_def free_upper_def Let_def by (simp add: fun_upd_def)
    have u: "units m1 bp = units m bp + units m v"
    proof -
      have "units m bp + units m v < 2 ^ 32" using v(2,4) lt by (simp add: fin_at_def)
      then show ?thesis using unat_sum [of m bp v] by (simp add: m1 units_def)
    qed
    then have up: "fin_at m1 bp = fin_at m v" using v(2) by (simp add: fin_at_def)
    have "bp \<notin> set vs0" "bp + 4 \<notin> set vs0"
      using hdr_apartD(1,2) [OF ap] by (auto simp: vs)
    then have "chain m1 (m1 bp) vs0 b" using v(3) by (simp add: m1)
    moreover have "blocks_ok m1 b e (bp # vs0)"
      using v(4,6,7) bp u up blocks_ok_cong(1) [of vs0 m1 m, OF un] by (simp add: blocks_ok_Cons vs)
    moreover have "blk m1 bp = blk m bp \<union> blk m v"
      unfolding blk_def up v(2) [symmetric] using fin_at_gt [OF bp(2)] fin_at_gt [OF v(5)] v(2) by auto
    ultimately show thesis
      using that [of vs0] w blocks_ok_cong(2) [of vs0 m1 m, OF un] by (auto simp: vs Un_assoc)
  qed
qed

text \<open>The second half: the free block below is linked to it, or swallows it.\<close>

lemma free_lower:
  assumes ok: "blocks_ok m b e us" "blocks_ok m b e (bp # vs)" "\<forall>u \<in> set us. fin_at m u \<le> unat bp"
    and lt: "e < 2 ^ 32" and sz: "m (b + 4) = 0" and ch: "chain m b (b # us) x" "chain m (m bp) vs b"
  defines "m1 \<equiv> free_lower bp (last (b # us)) m"
  obtains xs' where "chain m1 b (b # xs') b" "blocks_ok m1 b e xs'" "last (b # us) \<in> set (b # xs')"
    "free_bytes m1 xs' = free_bytes m us \<union> free_bytes m (bp # vs)" "\<exists>x \<in> set xs'. blk m bp \<subseteq> blk m1 x"
    "m1 (b + 4) = 0" "\<And>w. w \<noteq> last (b # us) \<Longrightarrow> w \<noteq> last (b # us) + 4 \<Longrightarrow> m1 w = m w"
proof -
  let ?p = "last (b # us)"
  have o: "unat b + 8 \<le> unat bp" "1 \<le> units m bp" "fin_at m bp \<le> e" "blocks_ok m b e vs"
      "\<forall>v \<in> set vs. fin_at m bp < unat v"
    using ok(2) by (auto simp: blocks_ok_Cons)
  have bnd: "unat x + 8 \<le> 2 ^ 32" if "x \<in> set (us @ bp # vs)" for x
    using ok(1,2) that fin_at_gt [of m x] lt by (fastforce simp: blocks_ok_def)
  have apb: "hdr_apart b x" if "x \<in> set (us @ bp # vs)" for x
    using ok(1,2) that bnd [OF that] by (auto simp: hdr_apart_def blocks_ok_def)
  have apu: "hdr_apart u v" if "u \<in> set us" "v \<in> set (bp # vs)" for u v
  proof -
    have "unat u + 8 \<le> fin_at m u" using that(1) ok(1) fin_at_gt by (auto simp: blocks_ok_def)
    also have "\<dots> \<le> unat v" using that ok(3) o(2,5) fin_at_gt [OF o(2)] by fastforce
    finally show ?thesis using bnd [of v] that(2) by (auto simp: hdr_apart_def)
  qed
  have apbp: "hdr_apart bp v" if "v \<in> set vs" for v
    using that o(5) fin_at_gt [OF o(2)] bnd [of v] by (fastforce simp: hdr_apart_def)
  have w: "m1 w = m w" if "w \<noteq> ?p" "w \<noteq> ?p + 4" for w
    using that by (simp add: m1_def free_lower_def Let_def)
  show thesis
  proof (cases us rule: rev_cases)
    case Nil
    then have p: "?p = b" by simp
    have m1: "m1 = m(b := bp)" using sz hdr_apartD(1) [OF apb [of bp]] unfolding m1_def p free_lower_def by simp
    have "b \<notin> set (bp # vs)" using hdr_apartD(1) apb Nil by fastforce
    then have 1: "chain m1 b (b # bp # vs) b" using ch(2) by (auto simp: m1)
    have un: "units m1 x = units m x" if "x \<in> set (bp # vs)" for x
      using hdr_apartD(3) [OF apb [of x]] that Nil by (auto simp: units_def m1)
    show thesis
      using that [of "bp # vs"] 1 w blocks_ok_cong [of "bp # vs" m1 m, OF un] ok(2) sz Nil un [of bp]
      by (auto simp: blk_def fin_at_def m1)
  next
    case (snoc us' p)
    then have p: "?p = p" "p \<in> set us" by simp_all
    have pa: "hdr_apart b p" "hdr_apart p bp" using apb apu p(2) by auto
    have up: "fin_at m p \<le> e" "1 \<le> units m p" "fin_at m p \<le> unat bp"
      using ok(1,3) p(2) by (auto simp: blocks_ok_def)
    have us': "blocks_ok m b e us'" "\<forall>u \<in> set us'. fin_at m u < unat p" "unat b + 8 \<le> unat p"
      using ok(1) by (auto simp: snoc blocks_ok_append blocks_ok_Cons)
    have apu': "hdr_apart u p" if "u \<in> set us'" for u
      using that us'(1,2) fin_at_gt [of m u] bnd [of p] p(2) by (fastforce simp: hdr_apart_def blocks_ok_def)
    have chp: "chain m b (b # us') p" "p \<notin> set (b # us')" "p + 4 \<notin> set (b # us')"
      using ch(1) hdr_apartD [OF pa(1)] hdr_apartD(1-3) [OF apu'] by (auto simp: snoc)
    have pvs: "p \<notin> set (bp # vs)" "p + 4 \<notin> set (bp # vs)"
      using hdr_apartD(1,2) [OF apu [OF p(2)]] by blast+
    have b4: "p \<noteq> b + 4" "p + 4 \<noteq> b + 4" using hdr_apartD(2,4) [OF pa(1)] by auto
    have iff: "p + 8 * m (p + 4) = bp \<longleftrightarrow> fin_at m p = unat bp"
      using end_eq_iff [of m p bp] up(1) lt by simp
    have un': "units m1 x = units m x" if "x \<in> set us' \<or> x \<in> set (bp # vs)" for x
    proof -
      have a: "hdr_apart x p" using that apu' hdr_apart_sym [OF apu [OF p(2)]] by blast
      show ?thesis
        using w [unfolded p(1), OF hdr_apartD(2) [OF a] hdr_apartD(4) [OF a]] by (simp add: units_def)
    qed
    show thesis
    proof (cases "p + 8 * m (p + 4) = bp")
      case False
      have m1: "m1 = m(p := bp)" using False unfolding m1_def p(1) free_lower_def by simp
      have "chain m1 b (b # us' @ p # bp # vs) b"
        using chp pvs ch(2) by (auto simp: m1)
      moreover have "units m1 p = units m p" by (simp add: m1 units_def)
      then have un: "units m1 x = units m x" if "x \<in> set (us @ bp # vs)" for x
        using that un' by (auto simp: snoc)
      have "fin_at m u < unat bp" if "u \<in> set us" for u
        using that us'(2) up(3) iff False fin_at_gt [OF up(2)] by (auto simp: snoc)
      then have "blocks_ok m b e (us @ bp # vs)"
        using ok(1,2) o(5) fin_at_gt [OF o(2)] unfolding blocks_ok_append by fastforce
      ultimately show thesis
        using that [of "us @ bp # vs"] w blocks_ok_cong [of "us @ bp # vs" m1 m, OF un] sz un [of bp] b4
        by (auto simp: snoc blk_def fin_at_def m1)
    next
      case True
      have m1: "m1 = m(p + 4 := m (p + 4) + m (bp + 4), p := m bp)"
        using True pvs unfolding m1_def p(1) free_lower_def Let_def by auto
      have pb: "fin_at m p = unat bp" using True iff by simp
      have u: "units m1 p = units m p + units m bp"
      proof -
        have "units m p + units m bp < 2 ^ 32" using pb o(3) lt by (simp add: fin_at_def)
        then show ?thesis using unat_sum [of m p bp] by (simp add: m1 units_def)
      qed
      then have upp: "fin_at m1 p = fin_at m bp" using pb by (simp add: fin_at_def)
      have "chain m1 b (b # us' @ p # vs) b"
        using chp pvs ch(2) by (auto simp: m1)
      moreover have "blocks_ok m1 b e (us' @ p # vs)"
        using us' o(3-5) up(2) u upp pb fin_at_gt [OF o(2)] fin_at_gt [OF up(2)] un'
          blocks_ok_cong(1) [of us' m1 m] blocks_ok_cong(1) [of vs m1 m]
        by (fastforce simp: blocks_ok_append blocks_ok_Cons fin_at_def)
      moreover have "blk m1 p = blk m p \<union> blk m bp"
        unfolding blk_def upp pb [symmetric] using fin_at_gt [OF up(2)] fin_at_gt [OF o(2)] pb by auto
      ultimately show thesis
        using that [of "us' @ p # vs"] w un' blocks_ok_cong(2) [of us' m1 m] blocks_ok_cong(2) [of vs m1 m] sz b4
        by (auto simp: snoc m1)
    qed
  qed
qed

lemma ring_okD:
  assumes "ring_ok s xs"
  shows "blocks_ok (hmem s) (base s) (unat (brk s)) xs" "chain (hmem s) (base s) (base s # xs) (base s)"
    "hmem s (base s + 4) = 0" "freep s \<in> set (base s # xs)" "unat (base s) + 8 \<le> unat (brk s)" "base s \<noteq> 0"
  using assms by (simp_all add: ring_ok_def)

lemma blocks_sorted: "blocks_ok m b e xs \<Longrightarrow> sorted_wrt (<) xs"
  unfolding blocks_ok_def
  by (elim conjE, rule sorted_wrt_mono_rel [rotated], assumption)
     (auto simp: word_less_nat_alt fin_at_def)

text \<open>A block to be freed lies between \<open>base\<close> and \<open>brk\<close>.\<close>

definition at_home :: "uheap \<Rightarrow> u32 \<Rightarrow> bool" where
  "at_home s p \<longleftrightarrow> unat (base s) + 8 \<le> unat p \<and> 1 \<le> units (hmem s) p \<and> fin_at (hmem s) p \<le> unat (brk s)"

text \<open>The search ends at the last free block below the one to be freed.\<close>

lemma free_search:
  assumes "ring_ok s (us @ vs)" and "\<forall>u \<in> set us. unat u < unat p" and "\<forall>v \<in> set vs. unat p < unat v"
    and "unat (base s) + 8 \<le> unat p"
  shows "free_loop (hmem s) p (freep s) = Some (last (base s # us))"
proof (rule free_loop_finds)
  note r = ring_okD [OF assms(1)]
  show "chain (hmem s) (base s) (base s # us @ vs) (base s)" "freep s \<in> set (base s # us @ vs)" by (rule r(2), rule r(4))
  have "base s < x" if "x \<in> set (us @ vs)" for x
  proof -
    have "unat (base s) + 8 \<le> unat x" using r(1) that unfolding blocks_ok_def by blast
    then show ?thesis by (simp add: word_less_nat_alt)
  qed
  then show "sorted_wrt (<) (base s # us @ vs)" using blocks_sorted [OF r(1)] by simp
  show "\<forall>u \<in> set us. u < p" "\<forall>v \<in> set vs. p < v" "base s < p"
    using assms(2-4) by (simp_all add: word_less_nat_alt)
qed

lemma free_ring:
  assumes "ring_ok s xs" and "at_home s p" and "blk (hmem s) p \<inter> free_bytes (hmem s) xs = {}"
  obtains s' xs' where "free (p + 8) s = Some s'" "ring_ok s' xs'" "base s' = base s" "brk s' = brk s"
    "free_bytes (hmem s') xs' = free_bytes (hmem s) xs \<union> blk (hmem s) p"
    "\<exists>x \<in> set xs'. blk (hmem s) p \<subseteq> blk (hmem s') x"
    "\<And>w. unat w \<notin> free_bytes (hmem s') xs' \<Longrightarrow> w \<noteq> base s \<Longrightarrow> hmem s' w = hmem s w"
proof -
  let ?m = "hmem s" and ?b = "base s" and ?e = "unat (brk s)"
  note r = ring_okD [OF assms(1)]
  have h: "unat ?b + 8 \<le> unat p" "1 \<le> units ?m p" "fin_at ?m p \<le> ?e" using assms(2) by (simp_all add: at_home_def)
  have lt: "?e < 2 ^ 32" by (rule unat_u32_less)
  obtain us vs where xs: "xs = us @ vs" and us: "\<forall>u \<in> set us. fin_at ?m u \<le> unat p"
    and vs: "\<forall>v \<in> set vs. fin_at ?m p \<le> unat v"
    using split_at [OF r(1) assms(3) h(2)] .
  have ok: "blocks_ok ?m ?b ?e us" "blocks_ok ?m ?b ?e vs" "\<forall>u \<in> set us. \<forall>v \<in> set vs. fin_at ?m u < unat v"
    using r(1) by (simp_all add: xs blocks_ok_append)
  have ug: "unat u + 8 \<le> unat p" if "u \<in> set us" for u
    using us ok(1) that fin_at_gt [of ?m u] by (fastforce simp: blocks_ok_def)
  let ?l = "last (?b # us)"
  have l: "unat ?l + 8 \<le> unat p" using ug h(1) by (cases us rule: rev_cases) auto
  have fl: "free_loop ?m p (freep s) = Some ?l"
    using free_search [OF assms(1) [unfolded xs] _ _ h(1)] ug vs fin_at_gt [OF h(2)] by fastforce
  define m1 where "m1 = free_upper p ?l ?m"
  define m2 where "m2 = free_lower p ?l m1"
  have f: "free (p + 8) s = Some (s\<lparr>hmem := m2, freep := ?l\<rparr>)"
    using fl by (simp add: free_def m1_def m2_def)
  obtain c where c: "chain ?m ?b (?b # us) c" "chain ?m c vs ?b" using r(2) by (auto simp: xs)
  have cl: "c = ?m ?l" using c(1) by (cases us rule: rev_cases) auto
  have pe: "unat p + 8 \<le> 2 ^ 32" using fin_at_gt [OF h(2)] h(3) lt by simp
  have apl: "hdr_apart ?l p" using l pe by (simp add: hdr_apart_def)
  obtain vs1 where v1: "chain m1 (m1 p) vs1 ?b" "blocks_ok m1 ?b ?e (p # vs1)" "set vs1 \<subseteq> set vs"
      "free_bytes m1 (p # vs1) = blk ?m p \<union> free_bytes ?m vs" "blk ?m p \<subseteq> blk m1 p"
      "\<And>w. w \<noteq> p \<Longrightarrow> w \<noteq> p + 4 \<Longrightarrow> m1 w = ?m w"
    using free_upper [OF ok(2) lt c(2) [unfolded cl] h vs apl] unfolding m1_def by blast
  have apu: "hdr_apart u p" if "u \<in> set (?b # us)" for u
    using that ug h(1) pe by (auto simp: hdr_apart_def)
  have un: "units m1 u = units ?m u" if "u \<in> set us" for u
    using v1(6) [OF hdr_apartD(2,4) [OF apu]] that by (simp add: units_def)
  have us1: "blocks_ok m1 ?b ?e us" "free_bytes m1 us = free_bytes ?m us" "\<forall>u \<in> set us. fin_at m1 u \<le> unat p"
    using blocks_ok_cong [of us m1 ?m, OF un] ok(1) us un by (auto simp: fin_at_def)
  have b1: "m1 (?b + 4) = 0" using v1(6) [OF hdr_apartD(2,4) [OF apu [of ?b]]] r(3) by simp
  have "chain m1 ?b (?b # us) c = chain ?m ?b (?b # us) c"
  proof -
    have "m1 u = ?m u" if "u \<in> set (?b # us)" for u
      using v1(6) [OF hdr_apartD(1,3) [OF apu [OF that]]] .
    then have "chain m1 a ys z = chain ?m a ys z" if "set ys \<subseteq> set (?b # us)" for a ys z
      using that by (induction ys arbitrary: a) auto
    then show ?thesis by blast
  qed
  then have c1: "chain m1 ?b (?b # us) c" using c(1) by simp
  obtain xs' where x: "chain m2 ?b (?b # xs') ?b" "blocks_ok m2 ?b ?e xs'" "?l \<in> set (?b # xs')"
      "free_bytes m2 xs' = free_bytes m1 us \<union> free_bytes m1 (p # vs1)" "\<exists>x \<in> set xs'. blk m1 p \<subseteq> blk m2 x"
      "m2 (?b + 4) = 0" "\<And>w. w \<noteq> ?l \<Longrightarrow> w \<noteq> ?l + 4 \<Longrightarrow> m2 w = m1 w"
    using free_lower [OF us1(1) v1(2) us1(3) lt b1 c1 v1(1)] unfolding m2_def by blast
  let ?s = "s\<lparr>hmem := m2, freep := ?l\<rparr>"
  have fb: "free_bytes m2 xs' = free_bytes ?m xs \<union> blk ?m p"
    using x(4) v1(4) us1(2) by (auto simp: xs)
  have same: "m2 w = ?m w" if w: "unat w \<notin> free_bytes m2 xs'" "w \<noteq> ?b" for w
  proof (cases "w = ?b + 4")
    case True
    then show ?thesis using x(6) r(3) by simp
  next
    case False
    have "unat p \<in> blk ?m p" "unat (p + 4) \<in> blk ?m p"
      using fin_at_gt [OF h(2)] unat_add_4 [OF pe] by (simp_all add: blk_def)
    then have "w \<noteq> p" "w \<noteq> p + 4" using w(1) fb by auto
    moreover have "w \<noteq> ?l \<and> w \<noteq> ?l + 4"
    proof (cases us rule: rev_cases)
      case Nil
      then show ?thesis using w(2) False by simp
    next
      case (snoc us' u)
      then have u: "u \<in> set us" "?l = u" by simp_all
      have "1 \<le> units ?m u" using ok(1) u(1) by (auto simp: blocks_ok_def)
      then have "unat u \<in> blk ?m u" "unat (u + 4) \<in> blk ?m u"
        using fin_at_gt [of ?m u] unat_add_4 [of u] ug [OF u(1)] pe by (simp_all add: blk_def)
      then have "unat u \<in> free_bytes m2 xs'" "unat (u + 4) \<in> free_bytes m2 xs'"
        using u(1) unfolding fb xs by (auto simp: free_bytes_def)
      then show ?thesis using w(1) u(2) by auto
    qed
    ultimately show ?thesis using x(7) v1(6) by simp
  qed
  have rs: "ring_ok ?s xs'" using x(1-3,6) r(5,6) by (simp add: ring_ok_def)
  have sub: "\<exists>x \<in> set xs'. blk ?m p \<subseteq> blk m2 x" using x(5) v1(5) by blast
  show thesis
    by (rule that [OF f rs]) (use fb sub same in simp_all)
qed

subsection \<open>Taking a block\<close>

lemma chain_last: "chain m (m f) zs z \<Longrightarrow> m (last (f # zs)) = z"
  by (induction zs arbitrary: f) auto

lemma ring_distinct:
  assumes "ring_ok s xs"
  shows "distinct (base s # xs)"
proof -
  have "distinct xs" using blocks_sorted [OF ring_okD(1) [OF assms]] strict_sorted_iff by blast
  moreover have "base s \<notin> set xs" using ring_okD(1) [OF assms] by (auto simp: blocks_ok_def)
  ultimately show ?thesis by simp
qed

lemma ring_room:
  assumes "ring_ok s xs" and "y \<in> set (base s # xs)"
  shows "unat y + 8 \<le> unat (brk s)"
  using assms(2) ring_okD(1,5) [OF assms(1)] fin_at_gt [of "hmem s" y] by (fastforce simp: blocks_ok_def)

lemma ring_apart:
  assumes "ring_ok s xs" and "y \<in> set (base s # xs)" and "z \<in> set (base s # xs)" and "y \<noteq> z"
  shows "hdr_apart y z"
proof -
  have ne: "unat x + 8 \<le> unat (brk s)" if "x \<in> set (base s # xs)" for x
    by (rule ring_room [OF assms(1) that])
  have lt: "unat (brk s) < 2 ^ 32" by (rule unat_u32_less)
  have two: "hdr_apart y z" if yz: "y \<in> set xs" "z \<in> set xs" "y \<noteq> z" for y z
  proof -
    obtain i where i: "i < length xs" "xs ! i = y" using yz(1) unfolding in_set_conv_nth by blast
    obtain j where j: "j < length xs" "xs ! j = z" using yz(2) unfolding in_set_conv_nth by blast
    note ij = i(1) j(1) i(2) j(2)
    have "i \<noteq> j" using yz(3) ij by auto
    have so: "sorted_wrt (\<lambda>x y. fin_at (hmem s) x < unat y) xs"
      using ring_okD(1) [OF assms(1)] by (simp add: blocks_ok_def)
    have "fin_at (hmem s) y < unat z \<or> fin_at (hmem s) z < unat y"
      using \<open>i \<noteq> j\<close> sorted_wrt_nth_less [OF so, of i j] sorted_wrt_nth_less [OF so, of j i] ij
      by (simp only: nat_neq_iff) blast
    moreover have "1 \<le> units (hmem s) y" "1 \<le> units (hmem s) z"
      using ring_okD(1) [OF assms(1)] yz by (auto simp: blocks_ok_def)
    ultimately show ?thesis
      using fin_at_gt [of "hmem s" y] fin_at_gt [of "hmem s" z] ne [of y] ne [of z] yz lt
      by (auto simp: hdr_apart_def)
  qed
  have one: "hdr_apart (base s) y" if "y \<in> set xs" for y
    using ring_okD(1) [OF assms(1)] ne [of y] that lt by (auto simp: hdr_apart_def blocks_ok_def)
  show ?thesis using assms(2-4) two one hdr_apart_sym by auto
qed

lemma ring_pred:
  assumes "ring_ok s xs" and "x \<in> set xs" and "prevp \<in> set (base s # xs)" and "hmem s prevp = x"
  obtains us vs where "xs = us @ x # vs" "prevp = last (base s # us)"
proof -
  obtain pre post where s: "base s # xs = pre @ prevp # post" using assms(3) by (meson split_list)
  have "chain (hmem s) (base s) (pre @ prevp # post) (base s)" using ring_okD(2) [OF assms(1)] s by metis
  then have c: "chain (hmem s) x post (base s)" using assms(4) by auto
  have "base s \<noteq> x" using ring_distinct [OF assms(1)] assms(2) by auto
  then obtain vs where post: "post = x # vs" using c by (cases post) auto
  show thesis
  proof (cases pre)
    case Nil
    then show thesis using that [of "[]" vs] s post by simp
  next
    case (Cons a us')
    then have "xs = (us' @ [prevp]) @ x # vs" using s post by simp
    then show thesis using that [of "us' @ [prevp]" vs] by simp
  qed
qed

lemma carve_sets:
  "B \<inter> Q = {} \<Longrightarrow> Q \<inter> A = {} \<Longrightarrow> Q \<inter> C = {} \<Longrightarrow> A \<union> (B \<union> C) = A \<union> (B \<union> Q \<union> C) - Q"
  by blast

text \<open>A ring seen from one of its blocks.\<close>

lemma ring_at:
  assumes "ring_ok s (us @ x # vs)"
  shows "blocks_ok (hmem s) (base s) (unat (brk s)) us" "blocks_ok (hmem s) (base s) (unat (brk s)) vs"
    "unat (base s) + 8 \<le> unat x" "1 \<le> units (hmem s) x" "fin_at (hmem s) x \<le> unat (brk s)"
    "\<forall>u \<in> set us. fin_at (hmem s) u < unat x" "\<forall>v \<in> set vs. fin_at (hmem s) x < unat v"
    "\<forall>u \<in> set us. \<forall>v \<in> set vs. fin_at (hmem s) u < unat v"
    "chain (hmem s) (base s) (base s # us) x" "chain (hmem s) (hmem s x) vs (base s)"
  using ring_okD(1,2) [OF assms] by (auto simp: blocks_ok_append blocks_ok_Cons)

lemma ring_pred_bytes:
  assumes "ring_ok s (us @ x # vs)" and "last (base s # us) \<noteq> base s"
  shows "unat (last (base s # us)) \<in> free_bytes (hmem s) (us @ x # vs)"
proof -
  let ?p = "last (base s # us)"
  have u: "?p \<in> set us" using assms(2) by (cases us rule: rev_cases) auto
  then have "1 \<le> units (hmem s) ?p" using ring_at(1) [OF assms(1)] by (auto simp: blocks_ok_def)
  then have "unat ?p \<in> blk (hmem s) ?p" using fin_at_gt [of "hmem s" ?p] by (simp add: blk_def)
  then show ?thesis using u by (auto simp: free_bytes_def)
qed

text \<open>\<open>carved s xs n s' xs' a\<close>: the block \<open>a\<close> of \<open>n\<close> headers has left the free blocks, and no other memory
  has changed.\<close>

definition carved :: "uheap \<Rightarrow> u32 list \<Rightarrow> u32 \<Rightarrow> uheap \<Rightarrow> u32 list \<Rightarrow> u32 \<Rightarrow> bool" where
  "carved s xs n s' xs' a \<longleftrightarrow> ring_ok s' xs' \<and> base s' = base s \<and> brk s' = brk s \<and>
     at_home s' a \<and> units (hmem s') a = unat n \<and> blk (hmem s') a \<subseteq> free_bytes (hmem s) xs \<and>
     free_bytes (hmem s') xs' = free_bytes (hmem s) xs - blk (hmem s') a \<and>
     (\<forall>w. unat w \<notin> free_bytes (hmem s) xs \<longrightarrow> w \<noteq> base s \<longrightarrow> hmem s' w = hmem s w)"

text \<open>Where the tail of a block begins.\<close>

lemma tail_block:
  assumes "fin_at m x < 2 ^ 32" and "n < m (x + 4)"
  shows "unat n < units m x" "unat (m (x + 4) - n) = units m x - unat n"
    "unat x + 8 \<le> unat (x + 8 * (m (x + 4) - n))"
    "unat (x + 8 * (m (x + 4) - n)) + 8 * unat n = fin_at m x"
proof -
  let ?k = "m (x + 4) - n"
  show nk: "unat n < units m x" using assms(2) by (simp add: units_def word_less_nat_alt)
  show k: "unat ?k = units m x - unat n"
    using assms(2) by (simp add: unat_sub units_def less_imp_le)
  have "x + 8 * ?k = x + of_nat (8 * unat ?k)" by simp
  moreover have "unat x + 8 * unat ?k < 2 ^ 32" using assms(1) nk unfolding k fin_at_def by simp
  ultimately have uq: "unat (x + 8 * ?k) = unat x + 8 * (units m x - unat n)"
    using unat_plus_of_nat [of x "8 * unat ?k"] k by simp
  show "unat x + 8 \<le> unat (x + 8 * ?k)" "unat (x + 8 * ?k) + 8 * unat n = fin_at m x"
    using nk uq by (simp_all add: fin_at_def)
qed

lemma carve_whole:
  assumes rg: "ring_ok s (us @ x # vs)" and pr: "prevp = last (base s # us)" and eq: "hmem s (x + 4) = n"
  shows "\<exists>s'. carve n prevp x s = (x + 8, s') \<and> carved s (us @ x # vs) n s' (us @ vs) x"
proof -
  let ?m = "hmem s" and ?b = "base s" and ?e = "unat (brk s)" and ?xs = "us @ x # vs"
  note r = ring_okD [OF rg] and o = ring_at [OF rg]
  let ?m' = "?m(prevp := ?m x)" and ?s = "s\<lparr>hmem := ?m(prevp := ?m x), freep := prevp\<rparr>"
  have c: "carve n prevp x s = (x + 8, ?s)" using eq by (simp add: carve_def Let_def)
  have psx: "prevp \<in> set (?b # us)" unfolding pr by (rule last_in_set) simp
  have pne: "prevp \<noteq> y + 4" if "y \<in> set (?b # ?xs)" for y
    using psx hdr_apartD(3) [OF ring_apart [OF rg _ that, of prevp]] by (cases "y = prevp") auto
  have un: "units ?m' y = units ?m y" if "y \<in> set (?b # ?xs)" for y
    using pne [OF that] by (simp add: units_def)
  have "chain ?m' ?b (?b # us @ vs) ?b"
  proof (cases us rule: rev_cases)
    case Nil
    have "?b \<notin> set vs" using ring_distinct [OF rg] by simp
    then show ?thesis using Nil o(10) pr by simp
  next
    case (snoc us' u)
    have d: "u \<notin> set (?b # us')" "u \<notin> set vs"
      using ring_distinct [OF rg] by (auto simp: snoc)
    have "prevp = u" using pr by (simp add: snoc)
    moreover have "chain ?m ?b (?b # us') u" using o(9) by (auto simp: snoc)
    ultimately show ?thesis using d o(10) by (auto simp: snoc)
  qed
  moreover have "blocks_ok ?m' ?b ?e (us @ vs)"
    using o(1-8) blocks_ok_cong(1) [of "us @ vs" ?m' ?m] un by (auto simp: blocks_ok_append)
  moreover have "?m' (?b + 4) = 0" using pne [of ?b] r(3) by simp
  moreover have "prevp \<in> set (?b # us @ vs)" using psx by auto
  ultimately have rs: "ring_ok ?s (us @ vs)" using r(5,6) by (simp add: ring_ok_def)
  have bx: "blk ?m' x = blk ?m x" using un [of x] by (simp add: blk_def fin_at_def)
  have fb: "free_bytes ?m' (us @ vs) = free_bytes ?m (us @ vs)"
    by (rule blocks_ok_cong(2)) (use un in auto)
  have "blk ?m x \<inter> blk ?m y = {}" if "y \<in> set us \<or> y \<in> set vs" for y
    using that o(6,7) by (auto simp: blk_def)
  then have "blk ?m x \<inter> free_bytes ?m (us @ vs) = {}" by (auto simp: free_bytes_def)
  then have "free_bytes ?m' (us @ vs) = free_bytes ?m ?xs - blk ?m' x"
    unfolding fb bx by auto
  moreover have "units ?m' x = unat n" using un [of x] eq by (simp add: units_def)
  moreover have "at_home ?s x"
    using o(3-5) un [of x] by (simp add: at_home_def fin_at_def)
  moreover have "?m' w = ?m w" if "unat w \<notin> free_bytes ?m ?xs" "w \<noteq> ?b" for w
    using ring_pred_bytes [OF rg] pr that by auto
  moreover have "blk ?m' x \<subseteq> free_bytes ?m ?xs" using bx by auto
  ultimately show ?thesis using c rs by (auto simp: carved_def)
qed

lemma carve_tail:
  assumes rg: "ring_ok s (us @ x # vs)" and pr: "prevp = last (base s # us)" and n: "1 \<le> unat n" "n < hmem s (x + 4)"
  shows "\<exists>a s'. carve n prevp x s = (a + 8, s') \<and> carved s (us @ x # vs) n s' (us @ x # vs) a"
proof -
  let ?m = "hmem s" and ?b = "base s" and ?e = "unat (brk s)" and ?xs = "us @ x # vs"
  note r = ring_okD [OF rg] and o = ring_at [OF rg]
  have lt: "?e < 2 ^ 32" by (rule unat_u32_less)
  have bnd: "unat y + 8 \<le> 2 ^ 32" if "y \<in> set (?b # ?xs)" for y
    using ring_room [OF rg that] lt by simp
  let ?k = "?m (x + 4) - n"
  let ?q = "x + 8 * ?k"
  let ?m' = "?m(x + 4 := ?k, ?q + 4 := n)"
  let ?s = "s\<lparr>hmem := ?m', freep := prevp\<rparr>"
  have c: "carve n prevp x s = (?q + 8, ?s)" using n(2) by (auto simp: carve_def Let_def)
  have e32: "fin_at ?m x < 2 ^ 32" using o(5) lt by simp
  note tl = tail_block [OF e32 n(2)]
  have nk: "unat n < units ?m x" and k: "unat ?k = units ?m x - unat n" by (rule tl(1), rule tl(2))
  have qx: "unat x + 8 \<le> unat ?q" "unat ?q + 8 * unat n = fin_at ?m x" by (rule tl(3), rule tl(4))
  have apq: "hdr_apart y ?q" if "y \<in> set (?b # ?xs)" for y
  proof -
    have qe: "unat ?q + 8 \<le> fin_at ?m x" using qx(2) n(1) by simp
    then have q2: "unat ?q + 8 \<le> 2 ^ 32" using o(5) lt by simp
    have ord: "unat y + 8 \<le> unat x \<or> y = x \<or> fin_at ?m x < unat y"
      using that o(1,3,6,7) fin_at_gt [of ?m y] by (fastforce simp: blocks_ok_def)
    then show ?thesis using qx(1) q2 qe bnd [OF that] by (auto simp: hdr_apart_def)
  qed
  have x4: "x + 4 \<noteq> y" "y \<noteq> x \<Longrightarrow> x + 4 \<noteq> y + 4" if "y \<in> set (?b # ?xs)" for y
    using hdr_apartD(2,4) [OF ring_apart [OF rg _ that], of x] by (cases "y = x", auto)
  have q4: "?q + 4 \<noteq> y" "?q + 4 \<noteq> y + 4" if "y \<in> set (?b # ?xs)" for y
    using hdr_apartD(3,4) [OF apq [OF that]] by auto
  have un: "units ?m' y = units ?m y" if "y \<in> set (?b # ?xs)" "y \<noteq> x" for y
    using x4(2) [OF that] q4(2) [OF that(1)] by (simp add: units_def)
  have ux: "units ?m' x = units ?m x - unat n"
    using q4(2) [of x] k by (simp add: units_def)
  have uq': "units ?m' ?q = unat n" by (simp add: units_def)
  have fx: "fin_at ?m' x = unat ?q" using ux qx(2) nk by (simp add: fin_at_def)
  have xn: "x \<notin> set us" "x \<notin> set vs" using ring_distinct [OF rg] by auto
  have unu: "units ?m' y = units ?m y" if "y \<in> set us" for y using un [of y] that xn by auto
  have unv: "units ?m' y = units ?m y" if "y \<in> set vs" for y using un [of y] that xn by auto
  have fle: "fin_at ?m' x \<le> fin_at ?m x" using fx qx(2) by simp
  have bo: "blocks_ok ?m' ?b ?e ?xs"
    using o(1-8) nk ux fle unu blocks_ok_cong(1) [of us ?m' ?m, OF unu] blocks_ok_cong(1) [of vs ?m' ?m, OF unv]
    unfolding blocks_ok_append blocks_ok_Cons by (fastforce simp: fin_at_def)
  have "x + 4 \<notin> set (?b # ?xs)" "?q + 4 \<notin> set (?b # ?xs)" using x4(1) q4(1) by blast+
  then have "chain ?m' ?b (?b # ?xs) ?b" using r(2) by (simp del: chain.simps)
  moreover have "?m' (?b + 4) = 0"
  proof -
    have "?b \<noteq> x" using ring_distinct [OF rg] by auto
    then show ?thesis using un [of ?b] r(3) by (simp add: units_def unat_eq_zero del: fun_upd_apply)
  qed
  moreover have "prevp \<in> set (?b # ?xs)" unfolding pr by (cases us rule: rev_cases) auto
  ultimately have rs: "ring_ok ?s ?xs" using bo r(5,6) by (simp add: ring_ok_def)
  have bq: "blk ?m' ?q = {unat ?q ..< fin_at ?m x}" using uq' qx(2) by (simp add: blk_def fin_at_def)
  have bx: "blk ?m x = blk ?m' x \<union> blk ?m' ?q" "blk ?m' x \<inter> blk ?m' ?q = {}"
    unfolding bq using fx qx by (auto simp: blk_def)
  have "blk ?m' ?q \<inter> blk ?m y = {}" if "y \<in> set us \<or> y \<in> set vs" for y
    unfolding bq using that o(6,7) qx(1) by (auto simp: blk_def)
  then have dj: "blk ?m' ?q \<inter> free_bytes ?m us = {}" "blk ?m' ?q \<inter> free_bytes ?m vs = {}"
    by (auto simp: free_bytes_def)
  have fb: "free_bytes ?m' ?xs = free_bytes ?m ?xs - blk ?m' ?q"
  proof -
    have "free_bytes ?m' us = free_bytes ?m us" by (rule blocks_ok_cong(2) [OF unu])
    moreover have "free_bytes ?m' vs = free_bytes ?m vs" by (rule blocks_ok_cong(2) [OF unv])
    ultimately show ?thesis
      unfolding free_bytes_simps using carve_sets [OF bx(2) dj] bx(1) by metis
  qed
  have sub: "blk ?m' ?q \<subseteq> free_bytes ?m ?xs" using bx(1) by auto
  have ah: "at_home ?s ?q"
    using o(3,5) qx uq' n(1) by (simp add: at_home_def fin_at_def)
  have "unat (?q + 4) \<in> blk ?m' ?q"
    using unat_add_4 [of ?q] apq [of ?b] n(1) qx(2) o(5) lt unfolding bq by simp
  then have q4in: "unat (?q + 4) \<in> free_bytes ?m ?xs" using sub by blast
  have inx: "unat (x + 4) \<in> blk ?m x"
    using unat_add_4 [of x] bnd [of x] fin_at_gt [OF o(4)] by (simp add: blk_def)
  have x4in: "unat (x + 4) \<in> free_bytes ?m ?xs" using inx by simp
  have same: "?m' w = ?m w" if "unat w \<notin> free_bytes ?m ?xs" for w
  proof -
    have "w \<noteq> x + 4" "w \<noteq> ?q + 4" using that x4in q4in by metis+
    then show ?thesis by (simp only: fun_upd_apply if_False simp_thms)
  qed
  show ?thesis
    unfolding c carved_def by (intro exI [of _ ?q] exI [of _ ?s]) (use rs ah uq' sub fb same in simp)
qed

lemma carve_ring:
  assumes "ring_ok s xs" and "x \<in> set xs" and "prevp \<in> set (base s # xs)" and "hmem s prevp = x"
    and "1 \<le> unat n" and "n \<le> hmem s (x + 4)"
  shows "\<exists>a s' xs'. carve n prevp x s = (a + 8, s') \<and> carved s xs n s' xs' a"
proof -
  obtain us vs where xs: "xs = us @ x # vs" and pr: "prevp = last (base s # us)"
    using ring_pred [OF assms(1-4)] .
  show ?thesis
    using carve_whole [OF assms(1) [unfolded xs] pr] carve_tail [OF assms(1) [unfolded xs] pr assms(5)] assms(6)
    unfolding xs by (metis le_less)
qed

lemma ring_freep:
  assumes "ring_ok s xs"
  shows "freep s \<noteq> 0"
proof
  assume "freep s = 0"
  then have "freep s \<in> set xs" using ring_okD(4,6) [OF assms] by auto
  then have "unat (base s) + 8 \<le> unat (freep s)" using ring_okD(1) [OF assms] unfolding blocks_ok_def by blast
  then show False using \<open>freep s = 0\<close> by simp
qed

text \<open>From \<^verbatim>\<open>freep\<close> the search walks round the ring and comes to \<^verbatim>\<open>freep\<close> last.\<close>

lemma ring_walk:
  assumes "ring_ok s xs"
  obtains zs where "chain (hmem s) (hmem s (freep s)) (zs @ [freep s]) (hmem s (freep s))" "freep s \<notin> set zs"
    "set (zs @ [freep s]) = set (base s # xs)"
proof -
  note r = ring_okD [OF assms]
  obtain pre post where s: "base s # xs = pre @ freep s # post" using r(4) by (meson split_list)
  have "chain (hmem s) (base s) (pre @ freep s # post) (base s)" using r(2) s by metis
  then have "chain (hmem s) (hmem s (freep s)) ((post @ pre) @ [freep s]) (hmem s (freep s))" by auto
  moreover have "distinct (pre @ freep s # post)" using ring_distinct [OF assms] s by metis
  then have "freep s \<notin> set (post @ pre)" by auto
  moreover have "set ((post @ pre) @ [freep s]) = set (pre @ freep s # post)" by auto
  then have "set ((post @ pre) @ [freep s]) = set (base s # xs)" using s by metis
  ultimately show thesis by (rule that)
qed

lemma malloc_skips:
  assumes "chain (hmem s) p zs q" and "\<forall>z \<in> set zs. hmem s (z + 4) < n" and "freep s \<notin> set zs"
  shows "malloc_loop grant n prevp p s = malloc_loop grant n (last (prevp # zs)) q s"
  using assms
proof (induction zs arbitrary: prevp p)
  case (Cons z zs)
  then have "p = z" "\<not> n \<le> hmem s (z + 4)" "z \<noteq> freep s" by auto
  then have "malloc_loop grant n prevp p s = malloc_loop grant n z (hmem s z) s"
    by (subst malloc_loop.simps) simp
  also have "\<dots> = malloc_loop grant n (last (z # zs)) q s" using Cons by (intro Cons.IH) auto
  finally show ?case by simp
qed simp

text \<open>With a free block that is large enough, the search finds the first of them.\<close>

lemma malloc_finds:
  assumes "ring_ok s xs" and "1 \<le> unat n" and "\<exists>x \<in> set xs. n \<le> hmem s (x + 4)"
  obtains x prevp where "malloc_loop grant n (freep s) (hmem s (freep s)) s = Some (carve n prevp x s)"
    "x \<in> set xs" "prevp \<in> set (base s # xs)" "hmem s prevp = x" "n \<le> hmem s (x + 4)"
proof -
  let ?f = "freep s" and ?m = "hmem s"
  obtain zs where z: "chain ?m (?m ?f) (zs @ [?f]) (?m ?f)" "?f \<notin> set zs" "set (zs @ [?f]) = set (base s # xs)"
    using ring_walk [OF assms(1)] .
  have "\<exists>x \<in> set (zs @ [?f]). n \<le> ?m (x + 4)" using assms(3) z(3) by auto
  then obtain pre x post where sp: "zs @ [?f] = pre @ x # post" "n \<le> ?m (x + 4)" "\<forall>y \<in> set pre. \<not> n \<le> ?m (y + 4)"
    by (rule split_list_first_propE)
  have "set pre \<subseteq> set (butlast (zs @ [?f]))"
    unfolding sp(1) by (auto simp: butlast_append)
  then have pz: "set pre \<subseteq> set zs" by simp
  have c: "chain ?m (?m ?f) pre x" using z(1) unfolding sp(1) by auto
  have "malloc_loop grant n ?f (?m ?f) s = malloc_loop grant n (last (?f # pre)) x s"
    by (rule malloc_skips [OF c]) (use sp(3) pz z(2) in auto)
  also have "\<dots> = Some (carve n (last (?f # pre)) x s)"
    by (subst malloc_loop.simps) (simp add: sp(2))
  finally have l: "malloc_loop grant n ?f (?m ?f) s = Some (carve n (last (?f # pre)) x s)" .
  have "x \<noteq> base s" using sp(2) ring_okD(3) [OF assms(1)] assms(2) by auto
  moreover have "x \<in> set (base s # xs)" unfolding z(3) [symmetric] sp(1) by simp
  ultimately have x: "x \<in> set xs" by simp
  have "set (?f # pre) \<subseteq> set (base s # xs)" using pz z(3) ring_okD(4) [OF assms(1)] by auto
  moreover have "last (?f # pre) \<in> set (?f # pre)" by (rule last_in_set) simp
  ultimately have "last (?f # pre) \<in> set (base s # xs)" by blast
  then show thesis using l x sp(2) chain_last [OF c] by (intro that)
qed

text \<open>Without one the search ends at \<^verbatim>\<open>freep\<close> and asks for more memory.\<close>

lemma malloc_asks:
  assumes "ring_ok s xs" and "1 \<le> unat n" and "\<not> (\<exists>x \<in> set xs. n \<le> hmem s (x + 4))"
  shows "malloc_loop grant n (freep s) (hmem s (freep s)) s = Option.bind (morecore grant n s) (\<lambda>(p, s).
    if p = 0 then Some (0, s) else malloc_loop grant n p (hmem s p) s)"
proof -
  let ?f = "freep s" and ?m = "hmem s"
  obtain zs where z: "chain ?m (?m ?f) (zs @ [?f]) (?m ?f)" "?f \<notin> set zs" "set (zs @ [?f]) = set (base s # xs)"
    using ring_walk [OF assms(1)] .
  have "0 < n" using assms(2) by (simp add: word_less_nat_alt)
  then have small: "?m (x + 4) < n" if "x \<in> set (zs @ [?f])" for x
    using that assms(3) ring_okD(3) [OF assms(1)] unfolding z(3) by auto
  have "chain ?m (?m ?f) zs ?f" using z(1) by auto
  then have "malloc_loop grant n ?f (?m ?f) s = malloc_loop grant n (last (?f # zs)) ?f s"
    by (rule malloc_skips) (use small z(2) in auto)
  also have "\<dots> = Option.bind (morecore grant n s) (\<lambda>(p, s).
    if p = 0 then Some (0, s) else malloc_loop grant n p (hmem s p) s)"
    using small [of ?f] by (subst malloc_loop.simps) (simp add: not_le [symmetric])
  finally show ?thesis .
qed

text \<open>Memory that \<^verbatim>\<open>sbrk\<close> adds is a block behind all others; it joins the ring.\<close>

lemma ring_grow:
  fixes v :: u32
  assumes "ring_ok s xs" and "unat (brk s) + unat k < 2 ^ 32" and "8 \<le> unat k"
  defines "s1 \<equiv> s\<lparr>brk := brk s + k, hmem := (hmem s)(brk s + 4 := v)\<rparr>"
  shows "ring_ok s1 xs" and "free_bytes (hmem s1) xs = free_bytes (hmem s) xs"
    and "unat (brk s1) = unat (brk s) + unat k"
proof -
  note r = ring_okD [OF assms(1)]
  have b: "unat (brk s + 4) = unat (brk s) + 4" using assms(2,3) unat_add_4 [of "brk s"] by simp
  have w: "brk s + 4 \<noteq> y" "brk s + 4 \<noteq> y + 4" if "y \<in> set (base s # xs)" for y
  proof -
    have "unat y + 8 \<le> unat (brk s)" by (rule ring_room [OF assms(1) that])
    moreover have "unat (y + 4) = unat y + 4"
      using calculation unat_u32_less [of "brk s"] by (intro unat_add_4) simp
    ultimately show "brk s + 4 \<noteq> y" "brk s + 4 \<noteq> y + 4" using b by auto
  qed
  show k: "unat (brk s1) = unat (brk s) + unat k"
    using assms(2) unat_word_ariths(1) [of "brk s" k] by (simp add: s1_def)
  have un: "units (hmem s1) y = units (hmem s) y" if "y \<in> set xs" for y
    using w(2) [of y] that by (simp add: units_def s1_def)
  show "free_bytes (hmem s1) xs = free_bytes (hmem s) xs" by (rule blocks_ok_cong(2) [OF un])
  have "blocks_ok (hmem s1) (base s) (unat (brk s)) xs"
    using r(1) blocks_ok_cong(1) [of xs "hmem s1" "hmem s", OF un] by simp
  then have "blocks_ok (hmem s1) (base s1) (unat (brk s1)) xs"
    unfolding blocks_ok_def k by (auto simp: s1_def)
  moreover have "brk s + 4 \<notin> set (base s # xs)" using w(1) by blast
  then have "chain (hmem s1) (base s) (base s # xs) (base s)"
    using r(2) unfolding s1_def by (simp del: chain.simps)
  moreover have "hmem s1 (base s + 4) = 0" using w(2) [of "base s"] r(3) by (simp add: s1_def)
  ultimately show "ring_ok s1 xs" using r(4-6) k by (simp add: ring_ok_def s1_def)
qed

lemma free_bytes_below: "ring_ok s xs \<Longrightarrow> y \<in> free_bytes (hmem s) xs \<Longrightarrow> y < unat (brk s)"
  using ring_okD(1) [of s xs] by (fastforce simp: free_bytes_def blk_def blocks_ok_def)

lemma morecore_ring:
  assumes "ring_ok s xs" and "unat n < 2 ^ 28"
    and g: "\<forall>k. k < 2 ^ 31 \<longrightarrow> grant (brk s) k \<longrightarrow> unat (brk s) + unat k < 2 ^ 32"
  shows "morecore grant n s = Some (0, s) \<and> \<not> grant (brk s) ((if n < 4096 then 4096 else n) * 8) \<or>
    (\<exists>s' xs'. morecore grant n s = Some (freep s', s') \<and> ring_ok s' xs' \<and> base s' = base s \<and> brk s \<le> brk s' \<and>
       (\<exists>x \<in> set xs'. n \<le> hmem s' (x + 4)) \<and>
       free_bytes (hmem s') xs' = free_bytes (hmem s) xs \<union> {unat (brk s) ..< unat (brk s')} \<and>
       (\<forall>w. unat w \<notin> free_bytes (hmem s') xs' \<longrightarrow> w \<noteq> base s \<longrightarrow> hmem s' w = hmem s w))"
proof -
  let ?nu = "if n < 4096 then 4096 else n" and ?b = "brk s"
  let ?k = "?nu * 8"
  have nu: "unat ?nu < 2 ^ 28" "4096 \<le> unat ?nu" "n \<le> ?nu"
    using assms(2) by (auto simp: word_less_nat_alt word_le_nat_alt)
  then have uk: "unat ?k = 8 * unat ?nu" using unat_word_ariths(2) [of ?nu 8] by simp
  then have k: "?k < 2 ^ 31" using nu(1) by (simp add: word_less_nat_alt)
  show ?thesis
  proof (cases "grant ?b ?k")
    case False
    then show ?thesis by (simp add: morecore_def sbrk_def Let_def)
  next
    case True
    have lt: "unat ?b + unat ?k < 2 ^ 32" using g k True by blast
    have ne: "?b \<noteq> -1"
    proof
      assume "?b = -1"
      then have "unat (?b + 1) = 0" by simp
      moreover have "unat (?b + 1) = unat ?b + 1"
        using unat_plus_of_nat [of ?b 1] lt uk nu(2) by simp
      ultimately show False by simp
    qed
    define s1 where "s1 = s\<lparr>brk := ?b + ?k, hmem := (hmem s)(?b + 4 := ?nu)\<rparr>"
    have k8: "8 \<le> unat ?k" using uk nu(2) by simp
    note gr = ring_grow [OF assms(1) lt k8, of ?nu, folded s1_def]
    have un: "units (hmem s1) ?b = unat ?nu" by (simp add: units_def s1_def)
    have bk: "blk (hmem s1) ?b = {unat ?b ..< unat (brk s1)}"
      using un gr(3) uk by (simp add: blk_def fin_at_def)
    have ah: "at_home s1 ?b"
      using un nu(2) gr(3) uk ring_okD(5) [OF assms(1)] by (simp add: at_home_def fin_at_def) (simp add: s1_def)
    have dj: "blk (hmem s1) ?b \<inter> free_bytes (hmem s1) xs = {}"
      using free_bytes_below [OF assms(1)] unfolding bk gr(2) by fastforce
    obtain s' xs' where f: "free (?b + 8) s1 = Some s'" "ring_ok s' xs'" "base s' = base s1" "brk s' = brk s1"
        "free_bytes (hmem s') xs' = free_bytes (hmem s1) xs \<union> blk (hmem s1) ?b"
        "\<exists>x \<in> set xs'. blk (hmem s1) ?b \<subseteq> blk (hmem s') x"
        "\<And>w. unat w \<notin> free_bytes (hmem s') xs' \<Longrightarrow> w \<noteq> base s1 \<Longrightarrow> hmem s' w = hmem s1 w"
      using free_ring [OF gr(1) ah dj] by metis
    have m: "morecore grant n s = Some (freep s', s')"
      using True ne f(1) by (simp add: morecore_def sbrk_def Let_def s1_def)
    obtain x where x: "x \<in> set xs'" "blk (hmem s1) ?b \<subseteq> blk (hmem s') x" using f(6) by blast
    have "n \<le> hmem s' (x + 4)"
    proof -
      have "{unat ?b ..< unat ?b + 8 * unat ?nu} \<subseteq> {unat x ..< fin_at (hmem s') x}"
        using x(2) gr(3) uk unfolding bk by (simp add: blk_def)
      then have "unat x \<le> unat ?b" "unat ?b + 8 * unat ?nu \<le> fin_at (hmem s') x"
        using nu(2) by (auto simp: atLeastLessThan_subset_iff)
      then have "unat ?nu \<le> units (hmem s') x" by (simp add: fin_at_def)
      then show ?thesis using nu(3) by (simp add: units_def word_le_nat_alt)
    qed
    moreover have "unat (?b + 4) \<in> free_bytes (hmem s') xs'"
      using f(5) bk gr(3) uk nu(2) unat_add_4 [of ?b] lt by auto
    then have "hmem s' w = hmem s w" if "unat w \<notin> free_bytes (hmem s') xs'" "w \<noteq> base s" for w
      using f(7) [of w] that by (auto simp: s1_def)
    moreover have "base s1 = base s" by (simp add: s1_def)
    moreover have "?b \<le> brk s1" using gr(3) by (simp add: word_le_nat_alt)
    ultimately show ?thesis
      using m f(2-5) x(1) gr(2) bk by auto
  qed
qed

subsection \<open>The allocator\<close>

text \<open>\<open>live s xs al\<close>: the free blocks \<open>xs\<close> and the blocks \<open>al\<close> that the program holds share the memory
  between \<open>base\<close> and \<open>brk\<close>.  Before the first call there is no list.\<close>

definition live :: "uheap \<Rightarrow> u32 list \<Rightarrow> u32 list \<Rightarrow> bool" where
  "live s xs al \<longleftrightarrow> ring_ok s xs \<and> (\<forall>a \<in> set al. at_home s a \<and> blk (hmem s) a \<inter> free_bytes (hmem s) xs = {}) \<and>
     sorted_wrt (\<lambda>a b. blk (hmem s) a \<inter> blk (hmem s) b = {}) al"

definition fresh_heap :: "uheap \<Rightarrow> bool" where
  "fresh_heap s \<longleftrightarrow> freep s = 0 \<and> base s \<noteq> 0 \<and> unat (base s) + 8 \<le> unat (brk s)"

definition heap_inv :: "uheap \<Rightarrow> u32 list \<Rightarrow> bool" where
  "heap_inv s al \<longleftrightarrow> fresh_heap s \<and> al = [] \<or> (\<exists>xs. live s xs al)"

lemma block_kept:
  assumes "at_home s a" and "blk (hmem s) a \<inter> F = {}"
    and "\<forall>w. unat w \<notin> F \<longrightarrow> w \<noteq> base s \<longrightarrow> m' w = hmem s w"
  shows "\<forall>w. unat w \<in> blk (hmem s) a \<longrightarrow> m' w = hmem s w" and "units m' a = units (hmem s) a"
    and "blk m' a = blk (hmem s) a"
proof -
  have h: "unat (base s) + 8 \<le> unat a" "1 \<le> units (hmem s) a" "fin_at (hmem s) a < 2 ^ 32"
    using assms(1) unat_u32_less [of "brk s"] by (auto simp: at_home_def)
  show k: "\<forall>w. unat w \<in> blk (hmem s) a \<longrightarrow> m' w = hmem s w"
  proof (intro allI impI)
    fix w :: u32 assume w: "unat w \<in> blk (hmem s) a"
    then have "unat w \<notin> F" "w \<noteq> base s" using assms(2) h(1) by (auto simp: blk_def)
    then show "m' w = hmem s w" using assms(3) by blast
  qed
  have "unat (a + 4) \<in> blk (hmem s) a"
    using h fin_at_gt [OF h(2)] unat_add_4 [of a] by (simp add: blk_def)
  then show u: "units m' a = units (hmem s) a" using k by (simp add: units_def)
  show "blk m' a = blk (hmem s) a" using u by (simp add: blk_def fin_at_def)
qed

lemma live_moves:
  assumes "live s xs al" and "ring_ok s' xs'" and "base s' = base s" and "brk s \<le> brk s'"
    and fb: "\<forall>a \<in> set al. blk (hmem s) a \<inter> free_bytes (hmem s') xs' = {}"
    and "\<forall>w. unat w \<notin> F \<longrightarrow> w \<noteq> base s \<longrightarrow> hmem s' w = hmem s w"
    and F: "\<forall>a \<in> set al. blk (hmem s) a \<inter> F = {}"
  shows "live s' xs' al" and "\<forall>a \<in> set al. \<forall>w. unat w \<in> blk (hmem s) a \<longrightarrow> hmem s' w = hmem s w"
    and "\<forall>a \<in> set al. blk (hmem s') a = blk (hmem s) a"
proof -
  have ah: "at_home s a" if "a \<in> set al" for a using assms(1) that by (simp add: live_def)
  have k: "(\<forall>w. unat w \<in> blk (hmem s) a \<longrightarrow> hmem s' w = hmem s w) \<and> units (hmem s') a = units (hmem s) a \<and>
      blk (hmem s') a = blk (hmem s) a" if "a \<in> set al" for a
    using block_kept [OF ah [OF that] _ assms(6)] F that by simp
  show "\<forall>a \<in> set al. \<forall>w. unat w \<in> blk (hmem s) a \<longrightarrow> hmem s' w = hmem s w" using k by blast
  show b: "\<forall>a \<in> set al. blk (hmem s') a = blk (hmem s) a" using k by blast
  have "at_home s' a" if "a \<in> set al" for a
    using ah [OF that] k [OF that] assms(3,4) by (simp add: at_home_def fin_at_def word_le_nat_alt)
  moreover have "sorted_wrt (\<lambda>a b. blk (hmem s') a \<inter> blk (hmem s') b = {}) al"
  proof (rule sorted_wrt_mono_rel)
    show "sorted_wrt (\<lambda>a b. blk (hmem s) a \<inter> blk (hmem s) b = {}) al" using assms(1) by (simp add: live_def)
  qed (use b in auto)
  ultimately show "live s' xs' al" using assms(2) fb b by (simp add: live_def)
qed

lemma carve_live:
  assumes "live s xs al" and "1 \<le> unat n" and "\<exists>x \<in> set xs. n \<le> hmem s (x + 4)"
  obtains a s' where "malloc_loop grant n (freep s) (hmem s (freep s)) s = Some (a + 8, s')" "heap_inv s' (a # al)"
    "at_home s' a" "units (hmem s') a = unat n"
    "\<forall>a \<in> set al. \<forall>w. unat w \<in> blk (hmem s) a \<longrightarrow> hmem s' w = hmem s w"
proof -
  have rg: "ring_ok s xs" and ah: "\<And>b. b \<in> set al \<Longrightarrow> blk (hmem s) b \<inter> free_bytes (hmem s) xs = {}"
    using assms(1) by (simp_all add: live_def)
  obtain x prevp where f: "malloc_loop grant n (freep s) (hmem s (freep s)) s = Some (carve n prevp x s)"
      "x \<in> set xs" "prevp \<in> set (base s # xs)" "hmem s prevp = x" "n \<le> hmem s (x + 4)"
    using malloc_finds [OF rg assms(2,3), of grant] .
  obtain a s' xs' where c: "carve n prevp x s = (a + 8, s')" "ring_ok s' xs'" "base s' = base s" "brk s' = brk s"
    "at_home s' a" "units (hmem s') a = unat n" "blk (hmem s') a \<subseteq> free_bytes (hmem s) xs"
    "free_bytes (hmem s') xs' = free_bytes (hmem s) xs - blk (hmem s') a"
    "\<forall>w. unat w \<notin> free_bytes (hmem s) xs \<longrightarrow> w \<noteq> base s \<longrightarrow> hmem s' w = hmem s w"
    using carve_ring [OF rg f(2-4) assms(2) f(5)] unfolding carved_def by blast
  have le: "brk s \<le> brk s'" using c(4) by simp
  have fb: "\<forall>b \<in> set al. blk (hmem s) b \<inter> free_bytes (hmem s') xs' = {}" using ah unfolding c(8) by blast
  have fr: "\<forall>w. unat w \<notin> free_bytes (hmem s) xs \<longrightarrow> w \<noteq> base s \<longrightarrow> hmem s' w = hmem s w"
    and dj: "\<forall>b \<in> set al. blk (hmem s) b \<inter> free_bytes (hmem s) xs = {}" using c(9) ah by blast+
  note l = live_moves [OF assms(1) c(2,3) le fb fr dj]
  have "live s' xs' (a # al)"
    using l(1,3) c(5,7,8) ah unfolding live_def by fastforce
  then have "heap_inv s' (a # al)" unfolding heap_inv_def by blast
  then show thesis using f(1) c(1,5,6) l(2) by (intro that) simp_all
qed

lemma malloc_live:
  assumes "live s xs al" and n: "1 \<le> unat n" "unat n < 2 ^ 28"
    and g: "\<forall>b k. k < 2 ^ 31 \<longrightarrow> grant b k \<longrightarrow> unat b + unat k < 2 ^ 32"
  shows "\<exists>r s'. malloc_loop grant n (freep s) (hmem s (freep s)) s = Some (r, s') \<and>
    (r = 0 \<and> heap_inv s' al \<and> \<not> grant (brk s) ((if n < 4096 then 4096 else n) * 8) \<or>
     (\<exists>a. r = a + 8 \<and> heap_inv s' (a # al) \<and> at_home s' a \<and> units (hmem s') a = unat n)) \<and>
    (\<forall>a \<in> set al. \<forall>w. unat w \<in> blk (hmem s) a \<longrightarrow> hmem s' w = hmem s w)"
proof (cases "\<exists>x \<in> set xs. n \<le> hmem s (x + 4)")
  case True
  show ?thesis by (rule carve_live [OF assms(1) n(1) True, of grant]) blast
next
  case False
  have rg: "ring_ok s xs" using assms(1) by (simp add: live_def)
  note as = malloc_asks [OF rg n(1) False, of grant]
  consider "morecore grant n s = Some (0, s)" "\<not> grant (brk s) ((if n < 4096 then 4096 else n) * 8)"
    | s' xs' where "morecore grant n s = Some (freep s', s')" "ring_ok s' xs'" "base s' = base s" "brk s \<le> brk s'"
        "\<exists>x \<in> set xs'. n \<le> hmem s' (x + 4)"
        "free_bytes (hmem s') xs' = free_bytes (hmem s) xs \<union> {unat (brk s) ..< unat (brk s')}"
        "\<forall>w. unat w \<notin> free_bytes (hmem s') xs' \<longrightarrow> w \<noteq> base s \<longrightarrow> hmem s' w = hmem s w"
    using morecore_ring [OF rg n(2), of grant] g by blast
  then show ?thesis
  proof cases
    case 1
    then show ?thesis using as assms(1) by (auto simp: heap_inv_def)
  next
    case 2
    have dj: "\<forall>a \<in> set al. blk (hmem s) a \<inter> free_bytes (hmem s') xs' = {}"
    proof
      fix a assume a: "a \<in> set al"
      then have "blk (hmem s) a \<inter> free_bytes (hmem s) xs = {}" "fin_at (hmem s) a \<le> unat (brk s)"
        using assms(1) by (simp_all add: live_def at_home_def)
      then show "blk (hmem s) a \<inter> free_bytes (hmem s') xs' = {}" unfolding 2(6) by (auto simp: blk_def)
    qed
    note l = live_moves [OF assms(1) 2(2-4) dj 2(7) dj]
    have "freep s' \<noteq> 0" by (rule ring_freep [OF 2(2)])
    then have m: "malloc_loop grant n (freep s) (hmem s (freep s)) s = malloc_loop grant n (freep s') (hmem s' (freep s')) s'"
      using as 2(1) by simp
    show ?thesis unfolding m
      by (rule carve_live [OF l(1) n(1) 2(5), of grant]) (use l(2,3) in metis)
  qed
qed

lemma fresh_live:
  assumes "fresh_heap s"
  shows "live (s\<lparr>hmem := (hmem s)(base s := base s, base s + 4 := 0), freep := base s\<rparr>) [] []"
  using assms header_words [of "base s"] by (simp add: live_def ring_ok_def fresh_heap_def)

text \<open>The number of headers of a request, with the wrap-around of its sum out of reach.\<close>

lemma malloc_units:
  assumes "nbytes < 2 ^ 31 - 16"
  shows "unat ((nbytes + 8 - 1) div 8 + 1 :: u32) = (unat nbytes + 7) div 8 + 1"
proof -
  have b: "unat nbytes < 2 ^ 31 - 16" using assms by (simp add: word_less_nat_alt)
  have "nbytes + 8 - 1 = nbytes + of_nat 7" by simp
  then have "unat (nbytes + 8 - 1) = unat nbytes + 7"
    using unat_plus_of_nat [of nbytes 7] b by (simp only:) simp
  then have "unat ((nbytes + 8 - 1) div 8) = (unat nbytes + 7) div 8" by (simp add: unat_div)
  then show ?thesis using unat_plus_of_nat [of "(nbytes + 8 - 1) div 8" 1] b by simp
qed

lemma block_end:
  assumes "at_home s a" and "units (hmem s) a = (unat k + 7) div 8 + 1"
  shows "a + 8 \<noteq> 0 \<and> unat (a + 8) + unat k \<le> fin_at (hmem s) a"
proof -
  have f: "fin_at (hmem s) a < 2 ^ 32" using assms(1) unat_u32_less [of "brk s"] by (simp add: at_home_def)
  have k: "8 + unat k \<le> 8 * units (hmem s) a" unfolding assms(2) by simp
  then have "unat a + 8 < 2 ^ 32" using f by (simp add: fin_at_def)
  then have "unat (a + 8) = unat a + 8" using unat_plus_of_nat [of a 8] by simp
  then show ?thesis using k unat_eq_zero [of "a + 8"] by (auto simp: fin_at_def)
qed

text \<open>C19: \<^verbatim>\<open>malloc\<close> always returns.  It returns 0 only when no free block is large enough and \<^verbatim>\<open>sbrk\<close>
  refuses the bytes it is asked for, 4096 headers or the request if that is more.  Otherwise it returns a block that
  holds the bytes asked for, whose size in its header is the request rounded up, and that overlaps
  neither a free block nor a block the program holds already; the words of those are as they were, and the
  free blocks are still an ordered ring without two that touch.  The request must be below \<open>2^31 - 16\<close>
  bytes, as \<^verbatim>\<open>sbrk\<close> takes a signed number.\<close>

theorem malloc_gives_block:
  fixes nbytes :: u32
  assumes "heap_inv s al" and "nbytes < 2 ^ 31 - 16"
    and "\<forall>b k. k < 2 ^ 31 \<longrightarrow> grant b k \<longrightarrow> unat b + unat k < 2 ^ 32"
  defines "n \<equiv> (nbytes + 7) div 8 + 1"
  shows "\<exists>r s'. malloc grant nbytes s = Some (r, s') \<and>
    (r = 0 \<and> heap_inv s' al \<and> \<not> grant (brk s) ((if n < 4096 then 4096 else n) * 8) \<and>
       (\<forall>xs. live s xs al \<longrightarrow> (\<forall>x \<in> set xs. units (hmem s) x < unat n)) \<or>
     r \<noteq> 0 \<and> heap_inv s' ((r - 8) # al) \<and> units (hmem s') (r - 8) = (unat nbytes + 7) div 8 + 1 \<and>
     unat r + unat nbytes \<le> fin_at (hmem s') (r - 8)) \<and>
    (\<forall>a \<in> set al. \<forall>w. unat w \<in> blk (hmem s) a \<longrightarrow> hmem s' w = hmem s w)"
proof -
  let ?s = "if freep s = 0 then s\<lparr>hmem := (hmem s)(base s := base s, base s + 4 := 0), freep := base s\<rparr> else s"
  have nn: "(nbytes + 8 - 1) div 8 + 1 = n" by (simp add: n_def add.commute)
  have un: "unat n = (unat nbytes + 7) div 8 + 1" using malloc_units [OF assms(2)] by (simp only: nn)
  then have n: "1 \<le> unat n" "unat n < 2 ^ 28" using assms(2) by (simp_all add: word_less_nat_alt)
  have dead: "\<not> live s xs al" if "freep s = 0" for xs
    using that ring_freep [of s xs] by (auto simp: live_def)
  obtain xs where l: "live ?s xs al" "al = [] \<or> ?s = s"
  proof (cases "freep s = 0")
    case True
    then have "fresh_heap s" "al = []" using assms(1) dead by (auto simp: heap_inv_def)
    then show thesis using fresh_live [of s] that [of "[]"] True by simp
  next
    case False
    then show thesis using assms(1) that by (auto simp: heap_inv_def fresh_heap_def)
  qed
  have m: "malloc grant nbytes s = malloc_loop grant n (freep ?s) (hmem ?s (freep ?s)) ?s"
    by (simp only: malloc_def Let_def nn)
  have b: "brk ?s = brk s" by simp
  obtain r s' where r: "malloc grant nbytes s = Some (r, s')"
      "r = 0 \<and> heap_inv s' al \<and> \<not> grant (brk s) ((if n < 4096 then 4096 else n) * 8) \<or>
       (\<exists>a. r = a + 8 \<and> heap_inv s' (a # al) \<and> at_home s' a \<and> units (hmem s') a = unat n)"
      "\<forall>a \<in> set al. \<forall>w. unat w \<in> blk (hmem ?s) a \<longrightarrow> hmem s' w = hmem ?s w"
    using malloc_live [OF l(1) n assms(3)] unfolding m b by blast
  have fit: "units (hmem s) x < unat n" if r0: "r = 0" and lv: "live s ys al" and x: "x \<in> set ys" for ys x
  proof (rule ccontr)
    assume "\<not> units (hmem s) x < unat n"
    then have e: "\<exists>x \<in> set ys. n \<le> hmem s (x + 4)" using x
      by (intro bexI [of _ x]) (auto simp: units_def word_le_nat_alt)
    obtain a t where c: "malloc_loop grant n (freep s) (hmem s (freep s)) s = Some (a + 8, t)" "at_home t a"
        "units (hmem t) a = unat n"
      by (rule carve_live [OF lv n(1) e, of grant])
    have "freep s \<noteq> 0" using dead lv by blast
    then have "malloc grant nbytes s = Some (a + 8, t)" using c(1) unfolding m by simp
    then show False using block_end [of t a nbytes] c(2,3) r(1) r0 un by simp
  qed
  show ?thesis
  proof (cases "r = 0")
    case True
    then have "heap_inv s' al \<and> \<not> grant (brk s) ((if n < 4096 then 4096 else n) * 8)"
      using r(2) block_end [of s' _ nbytes] un by auto
    then show ?thesis using r(1,3) l(2) True fit by auto
  next
    case False
    then obtain a where "r = a + 8" "heap_inv s' (a # al)" "at_home s' a" "units (hmem s') a = unat n" using r(2) by blast
    then show ?thesis using r(1,3) l(2) False block_end [of s' a nbytes] un by auto
  qed
qed

definition sample_heap :: uheap where
  "sample_heap = \<lparr>hmem = (\<lambda>w. 0), base = 0x1000, freep = 0, brk = 0x3000\<rparr>"

definition sample_grant :: "u32 \<Rightarrow> u32 \<Rightarrow> bool" where
  "sample_grant b k \<longleftrightarrow> b \<le> 0x80000 \<and> k \<le> 0x80000"

theorem malloc_gives_block_witness:
  "\<exists>r s'. malloc sample_grant 24 sample_heap = Some (r, s') \<and> r \<noteq> 0 \<and> heap_inv s' [r - 8] \<and>
     units (hmem s') (r - 8) = 4 \<and> unat r + 24 \<le> fin_at (hmem s') (r - 8)"
proof -
  have i: "heap_inv sample_heap []" by (simp add: heap_inv_def fresh_heap_def sample_heap_def)
  have g: "\<forall>b k. k < 2 ^ 31 \<longrightarrow> sample_grant b k \<longrightarrow> unat b + unat k < 2 ^ 32"
    by (auto simp: sample_grant_def word_le_nat_alt)
  have b: "(24 :: u32) < 2 ^ 31 - 16" by simp
  have "sample_grant (brk sample_heap) 0x8000" by (simp add: sample_grant_def sample_heap_def)
  then show ?thesis using malloc_gives_block [OF i b g] by simp
qed

text \<open>C20: \<^verbatim>\<open>free\<close> always returns when it is given a block that \<^verbatim>\<open>malloc\<close> returned and that has not been freed.
  The block joins the free blocks, merged with those it touches, so that the free blocks are again an
  ordered ring without two that touch; no other byte becomes free, and the words of the blocks that the
  program still holds are as they were.\<close>

theorem free_joins_ring:
  assumes "live s xs al" and "a \<in> set al"
  shows "\<exists>s' xs'. free (a + 8) s = Some s' \<and> live s' xs' (remove1 a al) \<and> brk s' = brk s \<and>
    free_bytes (hmem s') xs' = free_bytes (hmem s) xs \<union> blk (hmem s) a \<and>
    (\<forall>b \<in> set (remove1 a al). \<forall>w. unat w \<in> blk (hmem s) b \<longrightarrow> hmem s' w = hmem s w)"
proof -
  have rg: "ring_ok s xs" and ah: "at_home s a" "blk (hmem s) a \<inter> free_bytes (hmem s) xs = {}"
    using assms by (simp_all add: live_def)
  obtain s' xs' where f: "free (a + 8) s = Some s'" "ring_ok s' xs'" "base s' = base s" "brk s' = brk s"
    "free_bytes (hmem s') xs' = free_bytes (hmem s) xs \<union> blk (hmem s) a"
    "\<And>w. unat w \<notin> free_bytes (hmem s') xs' \<Longrightarrow> w \<noteq> base s \<Longrightarrow> hmem s' w = hmem s w"
    using free_ring [OF rg ah] by metis
  obtain as bs where sp: "al = as @ a # bs" "a \<notin> set as" using assms(2) by (meson split_list_first)
  then have rem: "remove1 a al = as @ bs" by (simp add: remove1_append)
  have lv: "live s xs (as @ bs)" using assms(1) by (auto simp: live_def sp sorted_wrt_append)
  have dj: "\<forall>b \<in> set (as @ bs). blk (hmem s) b \<inter> free_bytes (hmem s') xs' = {}"
    using assms(1) unfolding f(5) live_def sp sorted_wrt_append by auto
  have le: "brk s \<le> brk s'" using f(4) by simp
  have fr: "\<forall>w. unat w \<notin> free_bytes (hmem s') xs' \<longrightarrow> w \<noteq> base s \<longrightarrow> hmem s' w = hmem s w"
    using f(6) by blast
  note l = live_moves [OF lv f(2,3) le dj fr dj]
  show ?thesis unfolding rem using f(1,4,5) l(1,2) by blast
qed

definition sample_held :: uheap where
  "sample_held = \<lparr>hmem = (\<lambda>w. 0)(0x1000 := 0x1000, 0x2004 := 2), base = 0x1000, freep = 0x1000, brk = 0x3000\<rparr>"

theorem free_joins_ring_witness:
  "\<exists>s' xs'. free 0x2008 sample_held = Some s' \<and> live s' xs' [] \<and>
     free_bytes (hmem s') xs' = {0x2000 ..< 0x2010}"
proof -
  have l: "live sample_held [] [0x2000]"
    by (simp add: live_def ring_ok_def at_home_def fin_at_def units_def sample_held_def)
  have "blk (hmem sample_held) 0x2000 = {0x2000 ..< 0x2010}"
    by (simp add: blk_def fin_at_def units_def sample_held_def)
  then show ?thesis using free_joins_ring [OF l, of "0x2000"] by auto
qed

end
