(* ===== verification/Boot.thy ===== *)
theory Boot
  imports CString Bytes Ide
begin

text \<open>
  The boot loader (\<^verbatim>\<open>bootmain.c\<close>): it reads the ELF image of the kernel from the disk and jumps to its entry
  point.  Memory is a function from addresses to bytes, the disk one from sector numbers to the 512 bytes
  of the sector; the kernel starts at sector 1.  The drive is taken to get ready (\<^verbatim>\<open>waitdisk\<close>); the number of
  the sector is put together from the registers as in the driver's model (\<open>ide_lba\<close>).
\<close>

subsection \<open>The program\<close>

definition SECTSIZE :: nat where
  "SECTSIZE = 512"

text \<open>\<^verbatim>\<open>insl\<close>: the data register read into consecutive addresses.\<close>

definition insl :: "bytemem \<Rightarrow> u32 \<Rightarrow> u8 list \<Rightarrow> bytemem" where
  "insl m a bs = (\<lambda>w. if unat (w - a) < length bs then bs ! unat (w - a) else m w)"

definition readsect :: "(u32 \<Rightarrow> u8 list) \<Rightarrow> u32 \<Rightarrow> u32 \<Rightarrow> bytemem \<Rightarrow> bytemem" where
  "readsect dk dst off m = insl m dst (dk (ide_lba off))"

partial_function (option) readseg_loop :: "(u32 \<Rightarrow> u8 list) \<Rightarrow> u32 \<Rightarrow> u32 \<Rightarrow> u32 \<Rightarrow> bytemem \<Rightarrow> bytemem option" where
  "readseg_loop dk pa epa off m =
     (if pa < epa then readseg_loop dk (pa + of_nat SECTSIZE) epa (off + 1) (readsect dk pa off m) else Some m)"

definition readseg :: "(u32 \<Rightarrow> u8 list) \<Rightarrow> u32 \<Rightarrow> u32 \<Rightarrow> u32 \<Rightarrow> bytemem \<Rightarrow> bytemem option" where
  "readseg dk pa count off m =
     (let epa = pa + count;
          pa = pa - off mod of_nat SECTSIZE;
          off = off div of_nat SECTSIZE + 1
      in readseg_loop dk pa epa off m)"

definition bytes_at :: "bytemem \<Rightarrow> u32 \<Rightarrow> nat \<Rightarrow> u8 list" where
  "bytes_at m a n = map (\<lambda>i. m (a + of_nat i)) [0..<n]"

record bhdr =
  ph_off :: u32
  ph_paddr :: u32
  ph_filesz :: u32
  ph_memsz :: u32

definition get_bhdr :: "u8 list \<Rightarrow> bhdr" where
  "get_bhdr x = \<lparr>ph_off = get32 x 4, ph_paddr = get32 x 12, ph_filesz = get32 x 16, ph_memsz = get32 x 20\<rparr>"

text \<open>The sizes are read again after the segment has been loaded, from whatever the memory then holds.\<close>

partial_function (option) load_loop :: "(u32 \<Rightarrow> u8 list) \<Rightarrow> u32 \<Rightarrow> u32 \<Rightarrow> bytemem \<Rightarrow> bytemem option" where
  "load_loop dk ph eph m =
     (if ph < eph then
        let h = get_bhdr (bytes_at m ph 32); pa = ph_paddr h in
        Option.bind (readseg dk pa (ph_filesz h) (ph_off h) m) (\<lambda>m.
          let h = get_bhdr (bytes_at m ph 32) in
          load_loop dk (ph + 32) eph
            (if ph_memsz h > ph_filesz h
             then stosb m (pa + ph_filesz h) 0 (unat (ph_memsz h - ph_filesz h)) else m))
      else Some m)"

definition ELF_SCRATCH :: u32 where
  "ELF_SCRATCH = 0x10000"

text \<open>The result is the address \<^verbatim>\<open>bootmain\<close> calls with the memory at that moment, or \<open>None\<close> for a return to
  \<^verbatim>\<open>bootasm.S\<close>.\<close>

definition bootmain :: "(u32 \<Rightarrow> u8 list) \<Rightarrow> bytemem \<Rightarrow> (u32 option \<times> bytemem) option" where
  "bootmain dk m =
     Option.bind (readseg dk ELF_SCRATCH 4096 0 m) (\<lambda>m.
       let elf = bytes_at m ELF_SCRATCH 52 in
       if get32 elf 0 \<noteq> 0x464C457F then Some (None, m)
       else
         let ph = ELF_SCRATCH + get32 elf 28;
             eph = ph + 32 * ucast (get16 elf 44)
         in Option.bind (load_loop dk ph eph m) (\<lambda>m.
              Some (Some (get32 (bytes_at m ELF_SCRATCH 52) 24), m)))"

subsection \<open>Reading a segment\<close>

text \<open>The bytes of the file that starts at sector 1.\<close>

definition file_byte :: "(u32 \<Rightarrow> u8 list) \<Rightarrow> nat \<Rightarrow> u8" where
  "file_byte dk n = dk (of_nat (n div SECTSIZE + 1)) ! (n mod SECTSIZE)"

lemma SECTSIZE_pos [simp]: "0 < SECTSIZE" by (simp add: SECTSIZE_def)

lemma unat_diff_less_iff:
  assumes "unat (a :: u32) + k \<le> 2 ^ 32"
  shows "unat (w - a) < k \<longleftrightarrow> unat a \<le> unat w \<and> unat w < unat a + k"
    and "unat a \<le> unat w \<Longrightarrow> unat (w - a) = unat w - unat a"
proof -
  show u: "unat (w - a) = unat w - unat a" if "unat a \<le> unat w"
    using that by (simp add: unat_sub word_le_nat_alt)
  show "unat (w - a) < k \<longleftrightarrow> unat a \<le> unat w \<and> unat w < unat a + k"
  proof (cases "unat a \<le> unat w")
    case True
    then show ?thesis using u by auto
  next
    case False
    then have "unat (w - a) = 2 ^ 32 - (unat a - unat w)"
      using unat_sub_if' [of w a] by (simp add: word_le_nat_alt)
    then show ?thesis using False assms unat_u32_less [of a] by auto
  qed
qed

lemma readseg_loop_file:
  assumes "\<forall>k. length (dk k) = SECTSIZE" and "unat off + n \<le> 2 ^ 28" and "1 \<le> unat off"
    and "unat epa \<le> unat pa + SECTSIZE * n" and "n = 0 \<or> unat pa + SECTSIZE * (n - 1) < unat epa"
    and "unat epa + SECTSIZE \<le> 2 ^ 32"
  shows "readseg_loop dk pa epa off m = Some (\<lambda>w. if unat pa \<le> unat w \<and> unat w < unat pa + SECTSIZE * n
      then file_byte dk (SECTSIZE * (unat off - 1) + (unat w - unat pa)) else m w)"
  using assms(2-5)
proof (induction n arbitrary: pa off m)
  case 0
  then have "\<not> pa < epa" by (simp add: word_less_nat_alt)
  then show ?case by (subst readseg_loop.simps) (auto simp: fun_eq_iff)
next
  case (Suc n)
  let ?m = "readsect dk pa off m"
  have lt: "unat pa < unat epa" using Suc.prems(4) by simp
  have up: "unat (pa + of_nat SECTSIZE) = unat pa + SECTSIZE"
    using lt assms(6) by (intro unat_plus_of_nat) simp
  have uo: "unat (off + 1) = unat off + 1"
    using unat_plus_of_nat [of off 1] Suc.prems(1) by simp
  have "readseg_loop dk pa epa off m = readseg_loop dk (pa + of_nat SECTSIZE) epa (off + 1) ?m"
    using lt by (subst readseg_loop.simps) (simp add: word_less_nat_alt)
  also have "\<dots> = Some (\<lambda>w. if unat pa + SECTSIZE \<le> unat w \<and> unat w < unat pa + SECTSIZE + SECTSIZE * n
      then file_byte dk (SECTSIZE * unat off + (unat w - (unat pa + SECTSIZE))) else ?m w)"
    using Suc.IH [of "off + 1" "pa + of_nat SECTSIZE" ?m] Suc.prems lt unfolding up uo add_diff_cancel_right' by (cases n) simp_all
  also have "\<dots> = Some (\<lambda>w. if unat pa \<le> unat w \<and> unat w < unat pa + SECTSIZE * Suc n
      then file_byte dk (SECTSIZE * (unat off - 1) + (unat w - unat pa)) else m w)"
  proof (intro arg_cong [of _ _ Some] ext)
    fix w :: u32
    have ins: "?m w = (if unat pa \<le> unat w \<and> unat w < unat pa + SECTSIZE then dk off ! (unat w - unat pa) else m w)"
      using unat_diff_less_iff [of pa SECTSIZE w] lt assms(1,6) Suc.prems(1) ide_lba_28 [of off]
      by (simp add: readsect_def insl_def)
    have fb: "file_byte dk (SECTSIZE * (unat off - 1) + k) = dk off ! k" if "k < SECTSIZE" for k
    proof -
      have "(SECTSIZE * (unat off - 1) + k) div SECTSIZE = unat off - 1" using that by (simp add: div_add1_eq)
      moreover have "(SECTSIZE * (unat off - 1) + k) mod SECTSIZE = k" using that by simp
      ultimately show ?thesis using Suc.prems(2) by (simp add: file_byte_def)
    qed
    have e: "SECTSIZE * unat off + (unat w - (unat pa + SECTSIZE)) = SECTSIZE * (unat off - 1) + (unat w - unat pa)"
      if "unat pa + SECTSIZE \<le> unat w"
      using that Suc.prems(2) by (cases "unat off") (simp_all add: algebra_simps)
    show "(if unat pa + SECTSIZE \<le> unat w \<and> unat w < unat pa + SECTSIZE + SECTSIZE * n
       then file_byte dk (SECTSIZE * unat off + (unat w - (unat pa + SECTSIZE))) else ?m w) =
      (if unat pa \<le> unat w \<and> unat w < unat pa + SECTSIZE * Suc n
       then file_byte dk (SECTSIZE * (unat off - 1) + (unat w - unat pa)) else m w)"
      unfolding ins using e fb [of "unat w - unat pa"] by auto
  qed
  finally show ?case .
qed

text \<open>A segment is read whole; what lies more than a sector away from it is left alone.\<close>

lemma readseg_file:
  assumes "\<forall>k. length (dk k) = SECTSIZE" and "unat off mod SECTSIZE \<le> unat pa"
    and "unat pa + unat count + SECTSIZE \<le> 2 ^ 32"
  obtains m' where "readseg dk pa count off m = Some m'"
    "\<And>w. unat pa \<le> unat w \<Longrightarrow> unat w < unat pa + unat count \<Longrightarrow> m' w = file_byte dk (unat off + (unat w - unat pa))"
    "\<And>w. unat w < unat pa - unat off mod SECTSIZE \<or> unat pa + unat count + SECTSIZE \<le> unat w \<Longrightarrow> m' w = m w"
proof -
  define d where "d = unat off mod SECTSIZE"
  define n where "n = (d + unat count + 511) div SECTSIZE"
  have d: "d < SECTSIZE" "d \<le> unat pa" using assms(2) by (simp_all add: d_def)
  have ss: "unat (of_nat SECTSIZE :: u32) = SECTSIZE" by (simp add: SECTSIZE_def)
  have um: "unat (off mod of_nat SECTSIZE) = d" by (simp add: unat_mod ss d_def)
  have up: "unat (pa - off mod of_nat SECTSIZE) = unat pa - d"
    using d(2) um by (simp add: unat_sub word_le_nat_alt)
  have ue: "unat (pa + count) = unat pa + unat count"
    using assms(3) unat_word_ariths(1) [of pa count] by (simp add: SECTSIZE_def)
  have od: "unat (off div of_nat SECTSIZE) = unat off div SECTSIZE" by (simp add: unat_div ss)
  have ol: "unat off div SECTSIZE < 2 ^ 23" using unat_u32_less [of off] by (simp add: SECTSIZE_def less_mult_imp_div_less)
  have uo: "unat (off div of_nat SECTSIZE + 1) = unat off div SECTSIZE + 1"
    using unat_plus_of_nat [of "off div of_nat SECTSIZE" 1] od ol by simp
  have nb: "n \<le> 2 ^ 24" using unat_u32_less [of count] d(1) by (simp add: n_def SECTSIZE_def)
  have n1: "unat pa + unat count \<le> unat pa - d + SECTSIZE * n"
    "SECTSIZE * n < d + unat count + 512" "n = 0 \<or> unat pa - d + SECTSIZE * (n - 1) < unat pa + unat count"
    using d by (auto simp: n_def SECTSIZE_def)
  let ?m = "\<lambda>w. if unat pa - d \<le> unat w \<and> unat w < unat pa - d + SECTSIZE * n
      then file_byte dk (SECTSIZE * (unat off div SECTSIZE) + (unat w - (unat pa - d))) else m w"
  have "readseg dk pa count off m = Some ?m"
    using readseg_loop_file [OF assms(1), of "off div of_nat SECTSIZE + 1" n "pa + count" "pa - off mod of_nat SECTSIZE" m]
      n1 nb ol assms(3) unfolding readseg_def Let_def up ue uo add_diff_cancel_right' by simp
  moreover have "?m w = file_byte dk (unat off + (unat w - unat pa))"
    if "unat pa \<le> unat w" "unat w < unat pa + unat count" for w :: u32
  proof -
    have "SECTSIZE * (unat off div SECTSIZE) + (unat w - (unat pa - d)) = unat off + (unat w - unat pa)"
      using that d(2) mult_div_mod_eq [of SECTSIZE "unat off"] by (simp add: d_def)
    moreover have "unat w < unat pa - d + SECTSIZE * n" using that(2) n1(1) by linarith
    moreover have "unat pa - d \<le> unat w" using that(1) by linarith
    ultimately show ?thesis by simp
  qed
  moreover have "?m w = m w"
    if "unat w < unat pa - d \<or> unat pa + unat count + SECTSIZE \<le> unat w" for w :: u32
    using that n1(2) d(2) by (auto simp: SECTSIZE_def)
  ultimately show thesis by (intro that [of ?m]) (simp_all add: d_def)
qed

subsection \<open>Loading the kernel\<close>

text \<open>The fields of the file's header and of its program headers.\<close>

definition file_bytes :: "(u32 \<Rightarrow> u8 list) \<Rightarrow> nat \<Rightarrow> nat \<Rightarrow> u8 list" where
  "file_bytes dk k n = map (\<lambda>i. file_byte dk (k + i)) [0..<n]"

definition phoff :: "(u32 \<Rightarrow> u8 list) \<Rightarrow> nat" where
  "phoff dk = unat (get32 (file_bytes dk 0 52) 28)"

definition phnum :: "(u32 \<Rightarrow> u8 list) \<Rightarrow> nat" where
  "phnum dk = unat (get16 (file_bytes dk 0 52) 44)"

definition seg :: "(u32 \<Rightarrow> u8 list) \<Rightarrow> nat \<Rightarrow> bhdr" where
  "seg dk i = get_bhdr (file_bytes dk (phoff dk + 32 * i) 32)"

definition seg_size :: "bhdr \<Rightarrow> nat" where
  "seg_size h = max (unat (ph_filesz h)) (unat (ph_memsz h))"

text \<open>Where the sectors of a segment begin: at most a sector before the segment.\<close>

definition seg_low :: "bhdr \<Rightarrow> nat" where
  "seg_low h = unat (ph_paddr h) - unat (ph_off h) mod SECTSIZE"

definition seg_loaded :: "(u32 \<Rightarrow> u8 list) \<Rightarrow> bhdr \<Rightarrow> bytemem \<Rightarrow> bool" where
  "seg_loaded dk h m \<longleftrightarrow>
     (\<forall>x < unat (ph_filesz h). m (ph_paddr h + of_nat x) = file_byte dk (unat (ph_off h) + x)) \<and>
     (\<forall>x < unat (ph_memsz h). unat (ph_filesz h) \<le> x \<longrightarrow> m (ph_paddr h + of_nat x) = 0)"

text \<open>An image the loader can load: an ELF file with its program headers in the first page, and segments in
  ascending order, each with room for the part of a sector that is read before it.\<close>

definition loadable :: "(u32 \<Rightarrow> u8 list) \<Rightarrow> bool" where
  "loadable dk \<longleftrightarrow> (\<forall>k. length (dk k) = SECTSIZE) \<and> get32 (file_bytes dk 0 52) 0 = 0x464C457F \<and>
     phoff dk + 32 * phnum dk \<le> 4096 \<and>
     (\<forall>i < phnum dk. unat (ph_off (seg dk i)) mod SECTSIZE \<le> unat (ph_paddr (seg dk i)) \<and>
        0x11000 \<le> seg_low (seg dk i) \<and> unat (ph_paddr (seg dk i)) + seg_size (seg dk i) + SECTSIZE \<le> 2 ^ 32) \<and>
     (\<forall>j < phnum dk. \<forall>i < j. unat (ph_paddr (seg dk i)) + seg_size (seg dk i) \<le> seg_low (seg dk j))"

text \<open>The first page of the file is in memory.\<close>

definition page_read :: "(u32 \<Rightarrow> u8 list) \<Rightarrow> bytemem \<Rightarrow> bool" where
  "page_read dk m \<longleftrightarrow> (\<forall>x < 4096. m (ELF_SCRATCH + of_nat x) = file_byte dk x)"

lemma page_read_bytes:
  assumes "page_read dk m" and "k + n \<le> 4096"
  shows "bytes_at m (ELF_SCRATCH + of_nat k) n = file_bytes dk k n"
proof -
  have "m (ELF_SCRATCH + of_nat k + of_nat i) = file_byte dk (k + i)" if "i < n" for i
  proof -
    have "m (ELF_SCRATCH + of_nat (k + i)) = file_byte dk (k + i)"
      using assms that by (simp add: page_read_def del: of_nat_add)
    then show ?thesis by (simp add: ac_simps)
  qed
  then show ?thesis by (simp add: bytes_at_def file_bytes_def)
qed

lemma unat_scratch: "x \<le> 4096 \<Longrightarrow> unat (ELF_SCRATCH + of_nat x) = 0x10000 + x"
  using unat_plus_of_nat [of ELF_SCRATCH x] by (simp add: ELF_SCRATCH_def)

lemma page_read_below:
  assumes "page_read dk m" and "\<And>w. unat w < 0x11000 \<Longrightarrow> m' w = m w"
  shows "page_read dk m'"
  using assms(1) assms(2) unat_scratch by (simp add: page_read_def)

lemma seg_loaded_below:
  assumes "seg_loaded dk h m" and "unat (ph_paddr h) + seg_size h \<le> k" and "k < 2 ^ 32"
    and "\<And>w. unat w < k \<Longrightarrow> m' w = m w"
  shows "seg_loaded dk h m'"
proof -
  have "m' (ph_paddr h + of_nat x) = m (ph_paddr h + of_nat x)" if "x < seg_size h" for x
    using assms(2,3) that by (intro assms(4)) (simp add: unat_plus_of_nat)
  then show ?thesis using assms(1) by (simp add: seg_loaded_def seg_size_def)
qed

text \<open>One turn of the loop: the sizes it reads again are unchanged, as the segment lies above them.\<close>

lemma load_segment:
  assumes l: "loadable dk" and i: "i < phnum dk" and pg: "page_read dk m"
  defines "ph \<equiv> \<lambda>i. ELF_SCRATCH + of_nat (phoff dk + 32 * i)"
  obtains m' where "load_loop dk (ph i) (ph (phnum dk)) m = load_loop dk (ph (Suc i)) (ph (phnum dk)) m'"
    "seg_loaded dk (seg dk i) m'" "\<And>w. unat w < seg_low (seg dk i) \<Longrightarrow> m' w = m w"
proof -
  let ?h = "seg dk i"
  have hb: "phoff dk + 32 * i + 32 \<le> phoff dk + 32 * phnum dk" "phoff dk + 32 * phnum dk \<le> 4096"
    and len: "\<forall>k. length (dk k) = SECTSIZE"
    and o: "unat (ph_off ?h) mod SECTSIZE \<le> unat (ph_paddr ?h)" "0x11000 \<le> seg_low ?h"
      "unat (ph_paddr ?h) + seg_size ?h + SECTSIZE \<le> 2 ^ 32"
    using l i by (simp_all add: loadable_def)
  have lt: "ph i < ph (phnum dk)" unfolding ph_def using hb by (simp add: word_less_nat_alt unat_scratch del: of_nat_add of_nat_mult)
  have nx: "ph i + 32 = ph (Suc i)" by (simp add: ph_def)
  have hd: "get_bhdr (bytes_at m (ph i) 32) = ?h" if "page_read dk m" for m
    using page_read_bytes [OF that, of "phoff dk + 32 * i" 32] hb by (simp add: seg_def ph_def)
  have fsz: "unat (ph_paddr ?h) + unat (ph_filesz ?h) + SECTSIZE \<le> 2 ^ 32" using o(3) by (simp add: seg_size_def)
  obtain m1 where m1: "readseg dk (ph_paddr ?h) (ph_filesz ?h) (ph_off ?h) m = Some m1"
    "\<And>w. unat (ph_paddr ?h) \<le> unat w \<Longrightarrow> unat w < unat (ph_paddr ?h) + unat (ph_filesz ?h) \<Longrightarrow>
        m1 w = file_byte dk (unat (ph_off ?h) + (unat w - unat (ph_paddr ?h)))"
    "\<And>w. unat w < seg_low ?h \<or> unat (ph_paddr ?h) + unat (ph_filesz ?h) + SECTSIZE \<le> unat w \<Longrightarrow> m1 w = m w"
    using readseg_file [OF len o(1) fsz, of m] unfolding seg_low_def by metis
  have pg1: "page_read dk m1" by (rule page_read_below [OF pg]) (use m1(3) o(2) in simp)
  define m2 where "m2 = (if ph_memsz ?h > ph_filesz ?h
    then stosb m1 (ph_paddr ?h + ph_filesz ?h) 0 (unat (ph_memsz ?h - ph_filesz ?h)) else m1)"
  have ll: "load_loop dk (ph i) (ph (phnum dk)) m = load_loop dk (ph (Suc i)) (ph (phnum dk)) m2"
    using lt m1(1) by (subst load_loop.simps) (simp add: hd [OF pg] hd [OF pg1] Let_def nx m2_def)
  have ue: "unat (ph_paddr ?h + ph_filesz ?h) = unat (ph_paddr ?h) + unat (ph_filesz ?h)"
    using o(3) unat_plus_of_nat [of "ph_paddr ?h" "unat (ph_filesz ?h)"] by (simp add: seg_size_def SECTSIZE_def)
  have m2: "m2 w = (if unat (ph_paddr ?h) + unat (ph_filesz ?h) \<le> unat w \<and> unat w < unat (ph_paddr ?h) + unat (ph_memsz ?h)
      then 0 else m1 w)" for w
  proof (cases "ph_memsz ?h > ph_filesz ?h")
    case True
    then have us: "unat (ph_memsz ?h - ph_filesz ?h) = unat (ph_memsz ?h) - unat (ph_filesz ?h)"
      by (simp add: unat_sub)
    have "unat (ph_paddr ?h + ph_filesz ?h) + unat (ph_memsz ?h - ph_filesz ?h) \<le> 2 ^ 32"
      using True o(3) unfolding ue us by (simp add: seg_size_def word_less_nat_alt)
    note d = unat_diff_less_iff(1) [OF this, of w]
    have "unat (ph_memsz ?h) - unat (ph_filesz ?h) \<le> 2 ^ 32"
      by (rule le_trans [OF diff_le_self less_imp_le [OF unat_u32_less]])
    note st = stosb_apply [OF this, of m1 "ph_paddr ?h + ph_filesz ?h" 0 w]
    show ?thesis
      using True d unfolding m2_def ue us by (simp add: us st word_less_nat_alt)
  next
    case False
    then show ?thesis by (auto simp: m2_def word_less_nat_alt)
  qed
  have at: "unat (ph_paddr ?h + of_nat x) = unat (ph_paddr ?h) + x" if "x < seg_size ?h" for x
    using o(3) that by (intro unat_plus_of_nat) (simp add: SECTSIZE_def)
  have "seg_loaded dk ?h m2"
    using at m1(2) unfolding seg_loaded_def m2 seg_size_def by simp
  moreover have "m2 w = m w" if "unat w < seg_low ?h" for w
    using that m1(3) unfolding m2 seg_low_def by auto
  ultimately show thesis using that ll by blast
qed

lemma load_segments_upto:
  assumes "loadable dk" and "page_read dk m" and "i \<le> phnum dk" and "\<forall>k < i. seg_loaded dk (seg dk k) m"
  defines "ph \<equiv> \<lambda>i. ELF_SCRATCH + of_nat (phoff dk + 32 * i)"
  shows "\<exists>m'. load_loop dk (ph i) (ph (phnum dk)) m = Some m' \<and> page_read dk m' \<and>
    (\<forall>k < phnum dk. seg_loaded dk (seg dk k) m')"
  using assms(2-4)
proof (induction "phnum dk - i" arbitrary: i m)
  case 0
  then have "i = phnum dk" by simp
  then show ?case using 0 by (subst load_loop.simps) simp
next
  case (Suc n)
  then have i: "i < phnum dk" by simp
  obtain m' where m': "load_loop dk (ph i) (ph (phnum dk)) m = load_loop dk (ph (Suc i)) (ph (phnum dk)) m'"
    "seg_loaded dk (seg dk i) m'" "\<And>w. unat w < seg_low (seg dk i) \<Longrightarrow> m' w = m w"
    using load_segment [OF assms(1) i Suc.prems(1)] unfolding ph_def by metis
  have lo: "0x11000 \<le> seg_low (seg dk i)" using assms(1) i unfolding loadable_def by blast
  have lt: "seg_low (seg dk i) < 2 ^ 32"
    using unat_u32_less [of "ph_paddr (seg dk i)"] unfolding seg_low_def by (rule less_imp_diff_less)
  have "seg_loaded dk (seg dk k) m'" if "k < i" for k
  proof (rule seg_loaded_below [OF _ _ lt m'(3)])
    show "seg_loaded dk (seg dk k) m" using Suc.prems(3) that by blast
    show "unat (ph_paddr (seg dk k)) + seg_size (seg dk k) \<le> seg_low (seg dk i)"
      using assms(1) i that unfolding loadable_def by blast
  qed
  then have "\<forall>k < Suc i. seg_loaded dk (seg dk k) m'" using m'(2) less_Suc_eq by auto
  moreover have "page_read dk m'" by (rule page_read_below [OF Suc.prems(1) m'(3)]) (use lo in linarith)
  ultimately show ?case unfolding m'(1) using Suc.hyps i by (intro Suc.hyps(1)) auto
qed

text \<open>C21: The boot loader loads an ELF image whole: it returns from every read, and when it calls the entry
  point of the file's header, each segment is at its physical address, byte for byte the file's, with the rest up
  to its size in memory zero, although whole sectors are read and spill over both ends of a segment.  The segments
  must ascend, lie above the scratch page and leave room for the spill before each.\<close>

theorem bootmain_loads_kernel:
  assumes "loadable dk"
  shows "\<exists>m'. bootmain dk m = Some (Some (get32 (file_bytes dk 0 52) 24), m') \<and>
    (\<forall>i < phnum dk. seg_loaded dk (seg dk i) m')"
proof -
  have len: "\<forall>k. length (dk k) = SECTSIZE" and ma: "get32 (file_bytes dk 0 52) 0 = 0x464C457F"
    and ph: "phoff dk + 32 * phnum dk \<le> 4096"
    using assms by (simp_all add: loadable_def)
  have s: "unat ELF_SCRATCH = 0x10000" by (simp add: ELF_SCRATCH_def)
  have c: "unat (0 :: u32) mod SECTSIZE \<le> unat ELF_SCRATCH"
    "unat ELF_SCRATCH + unat (4096 :: u32) + SECTSIZE \<le> 2 ^ 32"
    unfolding s by (simp_all add: SECTSIZE_def)
  obtain m1 where m1: "readseg dk ELF_SCRATCH 4096 0 m = Some m1"
      "\<And>w. unat ELF_SCRATCH \<le> unat w \<Longrightarrow> unat w < unat ELF_SCRATCH + unat (4096 :: u32) \<Longrightarrow>
        m1 w = file_byte dk (unat (0 :: u32) + (unat w - unat ELF_SCRATCH))"
    using readseg_file [OF len c, of m] by metis
  have pg: "page_read dk m1" unfolding page_read_def
  proof (intro allI impI)
    fix x :: nat assume x: "x < 4096"
    then have u: "unat (ELF_SCRATCH + of_nat x) = 0x10000 + x" by (simp add: unat_scratch)
    show "m1 (ELF_SCRATCH + of_nat x) = file_byte dk x"
      using m1(2) [of "ELF_SCRATCH + of_nat x"] x unfolding u s by simp
  qed
  have eb: "bytes_at m ELF_SCRATCH 52 = file_bytes dk 0 52" if "page_read dk m" for m
    using page_read_bytes [OF that, of 0 52] by simp
  have "ELF_SCRATCH + get32 (file_bytes dk 0 52) 28 = ELF_SCRATCH + of_nat (phoff dk + 32 * 0)"
    by (simp add: phoff_def)
  moreover have "ELF_SCRATCH + get32 (file_bytes dk 0 52) 28 + 32 * ucast (get16 (file_bytes dk 0 52) 44) =
      ELF_SCRATCH + of_nat (phoff dk + 32 * phnum dk)"
    by (simp add: phoff_def phnum_def)
  moreover obtain m2 where "load_loop dk (ELF_SCRATCH + of_nat (phoff dk + 32 * 0))
        (ELF_SCRATCH + of_nat (phoff dk + 32 * phnum dk)) m1 = Some m2" "page_read dk m2"
      "\<forall>k < phnum dk. seg_loaded dk (seg dk k) m2"
    using load_segments_upto [OF assms pg, of 0] by auto
  ultimately show ?thesis
    unfolding bootmain_def m1(1) by (simp only: Option.bind.bind_lunit Let_def eb [OF pg] ma) (simp add: eb)
qed

text \<open>A disk with one segment of 16 bytes, at byte 4100 of the file, for address \<open>0x100004\<close>, and 16 bytes of zeros.\<close>

definition sample_header :: "u8 list" where
  "sample_header = put32 (put32 (put32 (put32 (put16 (put32 (put32 (put32 (replicate 512 0) 0 0x464C457F)
     24 0x10000C) 28 52) 44 1) 56 4100) 64 0x100004) 68 16) 72 32"

definition sample_disk :: "u32 \<Rightarrow> u8 list" where
  "sample_disk k = (if k = 1 then sample_header else replicate 512 7)"

lemma sample_bytes:
  assumes "k + n \<le> 512"
  shows "file_bytes sample_disk k n = take n (drop k sample_header)"
proof -
  have "length sample_header = 512" by (simp add: sample_header_def)
  then show ?thesis using assms
    by (intro nth_equalityI) (simp_all add: file_bytes_def file_byte_def SECTSIZE_def sample_disk_def)
qed

lemma sample_disk_loadable: "loadable sample_disk"
proof -
  note b = sample_bytes [of 0 52, simplified] sample_bytes [of 52 32, simplified]
  have "get32 (file_bytes sample_disk 0 52) 0 = 0x464C457F" unfolding b by code_simp
  moreover have o: "phoff sample_disk = 52" unfolding phoff_def b by code_simp
  moreover have "phnum sample_disk = 1" unfolding phnum_def b by code_simp
  moreover have "seg sample_disk 0 = \<lparr>ph_off = 4100, ph_paddr = 0x100004, ph_filesz = 16, ph_memsz = 32\<rparr>"
    unfolding seg_def o mult_0_right add_0_right b by code_simp
  moreover have "length (sample_disk k) = SECTSIZE" for k
    by (simp add: sample_disk_def sample_header_def SECTSIZE_def)
  ultimately show ?thesis by (simp add: loadable_def seg_low_def seg_size_def SECTSIZE_def)
qed

theorem bootmain_loads_kernel_witness:
  "\<exists>m'. bootmain sample_disk (\<lambda>w. 1) = Some (Some (get32 (file_bytes sample_disk 0 52) 24), m') \<and>
    (\<forall>i < phnum sample_disk. seg_loaded sample_disk (seg sample_disk i) m')"
  by (rule bootmain_loads_kernel [OF sample_disk_loadable])

end
