(* ===== verification/Mp.thy ===== *)
theory Mp
  imports Boot Kalloc
begin

text \<open>
  Finding the processors (\<^verbatim>\<open>mp.c\<close>, \<^verbatim>\<open>mp.h\<close>): the search of the BIOS memory for the floating pointer, the checks
  of the configuration table, and the walk over its entries.  Memory is a function from virtual addresses to
  bytes; the interrupt mode register behind the ports \<^verbatim>\<open>0x22\<close> and \<^verbatim>\<open>0x23\<close> is a field of the state.  A loop that
  does not end is \<open>None\<close>.
\<close>

subsection \<open>The program\<close>

definition NCPU :: nat where "NCPU = 8"
definition MPPROC :: u8 where "MPPROC = 0"
definition MPBUS :: u8 where "MPBUS = 1"
definition MPIOAPIC :: u8 where "MPIOAPIC = 2"
definition MPIOINTR :: u8 where "MPIOINTR = 3"
definition MPLINTR :: u8 where "MPLINTR = 4"

lemmas mp_types = MPPROC_def MPBUS_def MPIOAPIC_def MPIOINTR_def MPLINTR_def

record mpstate =
  apicids :: "u8 list"
  ncpu :: nat
  ioapicid :: u8
  lapic :: u32
  imcr :: u8

text \<open>The sum is an \<^verbatim>\<open>int\<close> that is returned as \<^verbatim>\<open>uchar\<close>.\<close>

definition sum_bytes :: "bytemem \<Rightarrow> u32 \<Rightarrow> nat \<Rightarrow> u8" where
  "sum_bytes m addr len = of_nat (sum_list (map unat (bytes_at m addr len)))"

definition same_tag :: "bytemem \<Rightarrow> u32 \<Rightarrow> u8 list \<Rightarrow> bool" where
  "same_tag m p t \<longleftrightarrow> memcmp (\<lambda>i. m (p + of_nat i)) (\<lambda>i. t ! i) 4 = 0"

partial_function (option) mpsearch_loop :: "bytemem \<Rightarrow> u32 \<Rightarrow> u32 \<Rightarrow> u32 option" where
  "mpsearch_loop m e p =
     (if p < e then
        if same_tag m p [0x5F, 0x4D, 0x50, 0x5F] \<and> sum_bytes m p 16 = 0 then Some p
        else mpsearch_loop m e (p + 16)
      else Some 0)"

definition mpsearch1 :: "bytemem \<Rightarrow> u32 \<Rightarrow> u32 \<Rightarrow> u32 option" where
  "mpsearch1 m a len = (let addr = P2V a in mpsearch_loop m (addr + len) addr)"

definition mpsearch :: "bytemem \<Rightarrow> u32 option" where
  "mpsearch m =
     (let bda = P2V 0x400;
          byte = (\<lambda>k. ucast (m (bda + k)) :: u32);
          p = push_bit 4 (push_bit 8 (byte 0x0F) OR byte 0x0E)
      in Option.bind
           (if p \<noteq> 0 then mpsearch1 m p 1024
            else mpsearch1 m ((push_bit 8 (byte 0x14) OR byte 0x13) * 1024 - 1024) 1024)
           (\<lambda>mp. if mp \<noteq> 0 then Some mp else mpsearch1 m 0xF0000 0x10000))"

definition field32 :: "bytemem \<Rightarrow> u32 \<Rightarrow> u32" where
  "field32 m a = get32 (bytes_at m a 4) 0"

definition field16 :: "bytemem \<Rightarrow> u32 \<Rightarrow> u16" where
  "field16 m a = get16 (bytes_at m a 2) 0"

text \<open>The result is \<^verbatim>\<open>conf\<close> and \<^verbatim>\<open>mp\<close>, or \<open>None\<close> inside for a null pointer.\<close>

definition mpconfig :: "bytemem \<Rightarrow> (u32 \<times> u32) option option" where
  "mpconfig m =
     Option.bind (mpsearch m) (\<lambda>mp. Some
       (if mp = 0 \<or> field32 m (mp + 4) = 0 then None
        else
          let conf = P2V (field32 m (mp + 4)) in
          if \<not> same_tag m conf [0x50, 0x43, 0x4D, 0x50] then None
          else if m (conf + 6) \<noteq> 1 \<and> m (conf + 6) \<noteq> 4 then None
          else if sum_bytes m conf (unat (field16 m (conf + 4))) \<noteq> 0 then None
          else Some (conf, mp)))"

definition add_cpu :: "u8 \<Rightarrow> mpstate \<Rightarrow> mpstate" where
  "add_cpu a s = (if ncpu s < NCPU then s\<lparr>apicids := (apicids s)[ncpu s := a], ncpu := ncpu s + 1\<rparr> else s)"

text \<open>The \<^verbatim>\<open>break\<close> of the last case leaves the \<^verbatim>\<open>switch\<close>, and the loop goes on with the same \<^verbatim>\<open>p\<close>.\<close>

partial_function (option) mpinit_loop :: "bytemem \<Rightarrow> u32 \<Rightarrow> u32 \<Rightarrow> bool \<Rightarrow> mpstate \<Rightarrow> (bool \<times> mpstate) option" where
  "mpinit_loop m e p ismp s =
     (if p < e then
        if m p = MPPROC then mpinit_loop m e (p + 20) ismp (add_cpu (m (p + 1)) s)
        else if m p = MPIOAPIC then mpinit_loop m e (p + 8) ismp (s\<lparr>ioapicid := m (p + 1)\<rparr>)
        else if m p = MPBUS \<or> m p = MPIOINTR \<or> m p = MPLINTR then mpinit_loop m e (p + 8) ismp s
        else mpinit_loop m e p False s
      else Some (ismp, s))"

definition no_machine :: string where
  "no_machine = ''Didn'' @ [CHR 0x27] @ ''t find a suitable machine''"

definition mpinit :: "bytemem \<Rightarrow> mpstate \<Rightarrow> mpstate outcome option" where
  "mpinit m s =
     Option.bind (mpconfig m) (\<lambda>c. case c of
       None \<Rightarrow> Some (Panic ''Expect to run on an SMP'')
     | Some (conf, mp) \<Rightarrow>
         Option.bind (mpinit_loop m (conf + ucast (field16 m (conf + 4))) (conf + 44) True
             (s\<lparr>lapic := field32 m (conf + 36)\<rparr>)) (\<lambda>(ismp, s).
           Some (if \<not> ismp then Panic no_machine
                 else Ret (if m (mp + 12) \<noteq> 0 then s\<lparr>imcr := imcr s OR 1\<rparr> else s))))"

subsection \<open>The entries of the table\<close>

datatype entry = Proc u8 | IOApic u8 | Other u8

fun entry_size :: "entry \<Rightarrow> nat" where
  "entry_size (Proc a) = 20"
| "entry_size (IOApic a) = 8"
| "entry_size (Other t) = 8"

fun entry_at :: "bytemem \<Rightarrow> u32 \<Rightarrow> entry \<Rightarrow> bool" where
  "entry_at m p (Proc a) \<longleftrightarrow> m p = MPPROC \<and> m (p + 1) = a"
| "entry_at m p (IOApic a) \<longleftrightarrow> m p = MPIOAPIC \<and> m (p + 1) = a"
| "entry_at m p (Other t) \<longleftrightarrow> m p = t \<and> t \<in> {MPBUS, MPIOINTR, MPLINTR}"

text \<open>\<open>entries m p es\<close>: the entries \<open>es\<close> stand one behind the other from \<open>p\<close> on.\<close>

fun entries :: "bytemem \<Rightarrow> u32 \<Rightarrow> entry list \<Rightarrow> bool" where
  "entries m p [] \<longleftrightarrow> True"
| "entries m p (x # es) \<longleftrightarrow> entry_at m p x \<and> entries m (p + of_nat (entry_size x)) es"

definition table_size :: "entry list \<Rightarrow> nat" where
  "table_size es = sum_list (map entry_size es)"

fun note_entry :: "entry \<Rightarrow> mpstate \<Rightarrow> mpstate" where
  "note_entry (Proc a) s = add_cpu a s"
| "note_entry (IOApic a) s = s\<lparr>ioapicid := a\<rparr>"
| "note_entry (Other t) s = s"

lemma table_size_simps [simp]:
  "table_size [] = 0" "table_size (x # es) = entry_size x + table_size es"
  by (simp_all add: table_size_def)

lemma mpinit_entries:
  assumes "entries m p es" and "unat p + table_size es \<le> unat e"
  shows "mpinit_loop m e p b s = mpinit_loop m e (p + of_nat (table_size es)) b (fold note_entry es s)"
  using assms
proof (induction es arbitrary: p s)
  case (Cons x es)
  have sz: "0 < entry_size x" by (cases x) simp_all
  then have lt: "p < e" using Cons.prems(2) by (simp add: word_less_nat_alt)
  have "unat (p + of_nat (entry_size x)) = unat p + entry_size x"
    using Cons.prems(2) unat_u32_less [of e] by (intro unat_plus_of_nat) simp
  then have "mpinit_loop m e (p + of_nat (entry_size x)) b (note_entry x s) =
      mpinit_loop m e (p + of_nat (table_size (x # es))) b (fold note_entry (x # es) s)"
    using Cons.IH [of "p + of_nat (entry_size x)" "note_entry x s"] Cons.prems by (simp add: ac_simps)
  moreover have "mpinit_loop m e p b s = mpinit_loop m e (p + of_nat (entry_size x)) b (note_entry x s)"
    using lt Cons.prems(1) by (subst mpinit_loop.simps) (cases x, auto simp: mp_types)
  ultimately show ?case by simp
qed simp

text \<open>What the walk leaves behind: the first \<open>NCPU\<close> processors and the last I/O APIC.\<close>

fun procs :: "entry list \<Rightarrow> u8 list" where
  "procs [] = []"
| "procs (Proc a # es) = a # procs es"
| "procs (_ # es) = procs es"

fun ioapics :: "entry list \<Rightarrow> u8 list" where
  "ioapics [] = []"
| "ioapics (IOApic a # es) = a # ioapics es"
| "ioapics (_ # es) = ioapics es"

lemma fold_entries:
  fixes es :: "entry list"
  assumes "length (apicids s) = NCPU" and "ncpu s \<le> NCPU"
  defines "t \<equiv> fold note_entry es s"
  shows "ncpu t = min NCPU (ncpu s + length (procs es)) \<and> length (apicids t) = NCPU \<and>
    take (ncpu t) (apicids t) = take NCPU (take (ncpu s) (apicids s) @ procs es) \<and>
    ioapicid t = last (ioapicid s # ioapics es) \<and> lapic t = lapic s \<and> imcr t = imcr s"
  using assms(1,2) unfolding t_def
proof (induction es arbitrary: s)
  case (Cons x es)
  show ?case
  proof (cases x)
    case (Proc a)
    show ?thesis
    proof (cases "ncpu s < NCPU")
      case True
      let ?s = "s\<lparr>apicids := (apicids s)[ncpu s := a], ncpu := ncpu s + 1\<rparr>"
      have "take (ncpu ?s) (apicids ?s) = take (ncpu s) (apicids s) @ [a]"
        using True Cons.prems(1) by (simp add: take_Suc_conv_app_nth)
      then show ?thesis using Cons.IH [of ?s] Cons.prems True by (auto simp: Proc add_cpu_def)
    next
      case False
      then show ?thesis using Cons.IH [of s] Cons.prems by (auto simp: Proc add_cpu_def)
    qed
  next
    case (IOApic a)
    then show ?thesis using Cons.IH [of "s\<lparr>ioapicid := a\<rparr>"] Cons.prems by auto
  next
    case (Other a)
    then show ?thesis using Cons.IH [of s] Cons.prems by auto
  qed
qed (simp add: min_def)

text \<open>C22: On a configuration table of entries of the known types, \<^verbatim>\<open>mpinit\<close> ends, and afterwards \<^verbatim>\<open>cpus\<close> lists the
  local APICs of the first \<open>NCPU\<close> processor entries in the order of the table, \<^verbatim>\<open>ncpu\<close> is their number,
  \<^verbatim>\<open>ioapicid\<close> is that of the last I/O APIC entry and \<^verbatim>\<open>lapic\<close> the address in the table.\<close>

theorem mpinit_finds_cpus:
  assumes "mpconfig m = Some (Some (conf, mp))" and "entries m (conf + 44) es"
    and "unat (field16 m (conf + 4)) = 44 + table_size es"
    and "unat conf + 44 + table_size es < 2 ^ 32" and "length (apicids s) = NCPU" and "ncpu s = 0"
  shows "\<exists>t. mpinit m s = Some (Ret t) \<and> ncpu t = min NCPU (length (procs es)) \<and>
    take (ncpu t) (apicids t) = take NCPU (procs es) \<and> ioapicid t = last (ioapicid s # ioapics es) \<and>
    lapic t = field32 m (conf + 36) \<and> imcr t = (if m (mp + 12) \<noteq> 0 then imcr s OR 1 else imcr s)"
proof -
  let ?s = "s\<lparr>lapic := field32 m (conf + 36)\<rparr>" and ?e = "conf + ucast (field16 m (conf + 4))"
  have e: "?e = conf + 44 + of_nat (table_size es)"
  proof -
    have "?e = conf + of_nat (unat (field16 m (conf + 4)))" by simp
    then show ?thesis unfolding assms(3) by (simp add: ac_simps)
  qed
  have u44: "unat (conf + 44) = unat conf + 44" using unat_plus_of_nat [of conf 44] assms(4) by simp
  have ue: "unat ?e = unat conf + 44 + table_size es"
    unfolding e using unat_plus_of_nat [of "conf + 44" "table_size es"] assms(4) u44 by simp
  have "mpinit_loop m ?e (conf + 44) True ?s = mpinit_loop m ?e ?e True (fold note_entry es ?s)"
    using mpinit_entries [OF assms(2), of ?e True ?s] ue u44 unfolding e by simp
  also have "\<dots> = Some (True, fold note_entry es ?s)" by (subst mpinit_loop.simps) simp
  finally have l: "mpinit_loop m ?e (conf + 44) True ?s = Some (True, fold note_entry es ?s)" .
  let ?t = "fold note_entry es ?s"
  have "mpinit m s = Some (Ret (if m (mp + 12) \<noteq> 0 then ?t\<lparr>imcr := imcr ?t OR 1\<rparr> else ?t))"
    by (simp only: mpinit_def assms(1) Option.bind.bind_lunit option.case prod.case l if_False simp_thms)
  then show ?thesis using fold_entries [of ?s es] assms(5,6) by auto
qed

text \<open>A floating pointer at \<open>0x410\<close> and a table at \<open>0x420\<close> with two processors, an entry of type \<open>t\<close> and an I/O APIC.\<close>

definition sample_table :: "u8 \<Rightarrow> u8 list" where
  "sample_table t =
     [0x5F, 0x4D, 0x50, 0x5F, 0x20, 4, 0, 0, 1, 4, 0xFC, 0, 0x80, 0, 0, 0] @
     [0x50, 0x43, 0x4D, 0x50, 100, 0, 4, 0x81 - t] @ replicate 26 0 @ [4, 0, 0, 0, 0xE0, 0xFE, 0, 0, 0, 0] @
     replicate 20 0 @ [0, 1] @ replicate 18 0 @ [t] @ replicate 7 0 @ [2, 2] @ replicate 6 0"

definition sample_bios :: "u8 \<Rightarrow> bytemem" where
  "sample_bios t w =
     (let i = unat (w - 0x80000410) in
      if w = 0x8000040E then 0x41 else if i < length (sample_table t) then sample_table t ! i else 0)"

definition sample_state :: mpstate where
  "sample_state = \<lparr>apicids = replicate 8 0, ncpu = 0, ioapicid = 0, lapic = 0, imcr = 0\<rparr>"

lemma sample_byte:
  assumes "k < 116"
  shows "sample_bios t (0x80000410 + of_nat k) = sample_table t ! k"
proof -
  have "(0x80000410 + of_nat k :: u32) - 0x80000410 = of_nat k" by simp
  then have u: "unat ((0x80000410 + of_nat k :: u32) - 0x80000410) = k"
    using assms unat_of_nat_less [of k, where 'a = 32] by simp
  have v: "unat (0x80000410 + of_nat k :: u32) = 0x80000410 + k"
    using unat_plus_of_nat [of "0x80000410 :: u32" k] assms by simp
  have "0x80000410 + of_nat k \<noteq> (0x8000040E :: u32)"
  proof
    assume "0x80000410 + of_nat k = (0x8000040E :: u32)"
    then have "unat (0x80000410 + of_nat k :: u32) = unat (0x8000040E :: u32)" by (rule arg_cong)
    then show False unfolding v by simp
  qed
  then show ?thesis using assms by (simp only: sample_bios_def Let_def u) (simp add: sample_table_def)
qed

lemma sample_bytes_at:
  assumes "k + n \<le> 116"
  shows "bytes_at (sample_bios t) (0x80000410 + of_nat k) n = take n (drop k (sample_table t))"
proof -
  have l: "length (sample_table t) = 116" by (simp add: sample_table_def)
  have "sample_bios t (0x80000410 + of_nat k + of_nat i) = sample_table t ! (k + i)" if "i < n" for i
    using sample_byte [of "k + i" t] assms that by (simp add: ac_simps)
  then show ?thesis
    by (intro nth_equalityI) (use assms l in \<open>simp_all add: bytes_at_def\<close>)
qed

lemma same_tag_bytes: "same_tag m p [a, b, c, d] \<longleftrightarrow> bytes_at m p 4 = [a, b, c, d]"
  by (auto simp: same_tag_def bytes_at_def eval_nat_numeral uint_eq_iff)

lemmas sample_parts = sample_bytes_at [of 0 4, simplified] sample_bytes_at [of 0 16, simplified]
  sample_bytes_at [of 4 4, simplified] sample_bytes_at [of 16 4, simplified] sample_bytes_at [of 16 100, simplified]
  sample_bytes_at [of 20 2, simplified]

lemma sample_length: "field16 (sample_bios t) 0x80000424 = 100"
proof -
  have "take 2 (drop 20 (sample_table t)) = [100, 0]" by (simp add: sample_table_def)
  then show ?thesis by (simp add: field16_def sample_parts get16_def)
qed

lemma sample_search:
  assumes "t \<in> {1, 9}"
  shows "mpsearch (sample_bios t) = Some 0x80000410"
proof -
  have t: "take 4 (sample_table t) = [0x5F, 0x4D, 0x50, 0x5F]" "take 16 (sample_table t) =
    [0x5F, 0x4D, 0x50, 0x5F, 0x20, 4, 0, 0, 1, 4, 0xFC, 0, 0x80, 0, 0, 0]"
    by (simp_all add: sample_table_def)
  have "same_tag (sample_bios t) 0x80000410 [0x5F, 0x4D, 0x50, 0x5F]" "sum_bytes (sample_bios t) 0x80000410 16 = 0"
    by (simp_all add: same_tag_bytes sum_bytes_def sample_parts t)
  then have "mpsearch_loop (sample_bios t) 0x80000810 0x80000410 = Some 0x80000410"
    by (subst mpsearch_loop.simps) simp
  moreover have "sample_bios t 0x8000040E = 0x41" "sample_bios t 0x8000040F = 0"
    by (simp_all add: sample_bios_def sample_table_def Let_def unat_minus_1_u32)
  ultimately show ?thesis by (simp add: mpsearch_def mpsearch1_def P2V_def KERNBASE_def)
qed

lemma sample_config:
  assumes "t \<in> {1, 9}"
  shows "mpconfig (sample_bios t) = Some (Some (0x80000420, 0x80000410))"
proof -
  have p: "take 4 (drop 4 (sample_table t)) = [0x20, 4, 0, 0]"
    "take 4 (drop 16 (sample_table t)) = [0x50, 0x43, 0x4D, 0x50]"
    by (simp_all add: sample_table_def)
  have v: "sample_bios t 0x80000426 = 4"
    using sample_byte [of 22 t] by (simp add: sample_table_def)
  have s: "sum_bytes (sample_bios t) 0x80000420 100 = 0"
  proof -
    have "of_nat (sum_list (map unat (take 100 (drop 16 (sample_table 1))))) = (0 :: u8)"
      "of_nat (sum_list (map unat (take 100 (drop 16 (sample_table 9))))) = (0 :: u8)" by code_simp+
    then show ?thesis using assms by (auto simp: sum_bytes_def sample_parts)
  qed
  show ?thesis
    by (simp add: mpconfig_def sample_search [OF assms] field32_def sample_parts p get32_def P2V_def KERNBASE_def
        same_tag_bytes v sample_length s)
qed

lemma sample_entry_bytes:
  "sample_bios t 0x8000044C = 0" "sample_bios t 0x8000044D = 0" "sample_bios t 0x80000460 = 0"
  "sample_bios t 0x80000461 = 1" "sample_bios t 0x80000474 = t" "sample_bios t 0x8000047C = 2" "sample_bios t 0x8000047D = 2"
  using sample_byte [of 60 t] sample_byte [of 61 t] sample_byte [of 80 t] sample_byte [of 81 t] sample_byte [of 100 t]
    sample_byte [of 108 t] sample_byte [of 109 t]
  by (simp_all add: sample_table_def nth_append)

theorem mpinit_finds_cpus_witness:
  "\<exists>t. mpinit (sample_bios 1) sample_state = Some (Ret t) \<and> ncpu t = 2 \<and> take (ncpu t) (apicids t) = [0, 1] \<and>
     ioapicid t = 2"
proof -
  let ?es = "[Proc 0, Proc 1, Other 1, IOApic 2]"
  have c: "mpconfig (sample_bios 1) = Some (Some (0x80000420, 0x80000410))" by (simp add: sample_config)
  have e: "entries (sample_bios 1) (0x80000420 + 44) ?es" by (simp add: sample_entry_bytes mp_types)
  have l: "unat (field16 (sample_bios 1) (0x80000420 + 4)) = 44 + table_size ?es"
    by (simp add: sample_length)
  have b: "unat (0x80000420 :: u32) + 44 + table_size ?es < 2 ^ 32" by simp
  have s: "length (apicids sample_state) = NCPU" "ncpu sample_state = 0" by (simp_all add: sample_state_def NCPU_def)
  obtain t where t: "mpinit (sample_bios 1) sample_state = Some (Ret t)" "ncpu t = min NCPU (length (procs ?es))"
      "take (ncpu t) (apicids t) = take NCPU (procs ?es)" "ioapicid t = last (ioapicid sample_state # ioapics ?es)"
    using mpinit_finds_cpus [OF c e l b s] by blast
  show ?thesis using t(1) t(2-4) by (intro exI [of _ t]) (simp add: NCPU_def)
qed

text \<open>An entry of another type stops the walk for good.\<close>

lemma mpinit_loop_flag:
  assumes "mpinit_loop m e p b s = Some r"
  shows "fst r = b \<and> \<not> (p < e \<and> MPLINTR < m p)"
proof (rule mpinit_loop.raw_induct [where P = "\<lambda>m e p b s r. fst r = b \<and> \<not> (p < e \<and> MPLINTR < m p)", OF _ assms])
  fix f m e p b s r
  assume IH: "\<And>m e p b s r. f m e p b s = Some r \<Longrightarrow> fst r = b \<and> \<not> (p < e \<and> MPLINTR < m p)"
    and eq: "(if p < e then
        if m p = MPPROC then f m e (p + 20) b (add_cpu (m (p + 1)) s)
        else if m p = MPIOAPIC then f m e (p + 8) b (s\<lparr>ioapicid := m (p + 1)\<rparr>)
        else if m p = MPBUS \<or> m p = MPIOINTR \<or> m p = MPLINTR then f m e (p + 8) b s
        else f m e p False s
      else Some (b, s)) = Some r"
  have ty: "\<not> MPLINTR < t" if "t = MPPROC \<or> t = MPIOAPIC \<or> t = MPBUS \<or> t = MPIOINTR \<or> t = MPLINTR" for t
    using that by (auto simp: mp_types)
  show "fst r = b \<and> \<not> (p < e \<and> MPLINTR < m p)"
  proof (cases "p < e")
    case True
    show ?thesis
    proof (cases "m p = MPPROC \<or> m p = MPIOAPIC \<or> m p = MPBUS \<or> m p = MPIOINTR \<or> m p = MPLINTR")
      case known: True
      then have "fst r = b" using eq True IH by (simp split: if_splits)
      then show ?thesis using ty [OF known] by simp
    next
      case False
      then have "f m e p False s = Some r" using eq True by simp
      moreover have "MPLINTR < m p"
      proof (rule ccontr)
        assume "\<not> MPLINTR < m p"
        then have "unat (m p) \<le> 4" by (simp add: mp_types word_less_nat_alt)
        then have "unat (m p) \<in> {0, 1, 2, 3, 4}" by auto
        then have "m p \<in> {0, 1, 2, 3, 4}" by (auto simp: word_unat_eq_iff)
        then show False using False by (auto simp: mp_types)
      qed
      ultimately show ?thesis using IH [of m e p False s r] True by simp
    qed
  qed (use eq in auto)
qed

text \<open>C23: \<^verbatim>\<open>mpinit\<close> never reports an unsuitable machine: an entry of a type it does not know, behind any
  number of entries that it does, keeps it in its loop for ever, as the \<^verbatim>\<open>break\<close> of the last case leaves only the
  \<^verbatim>\<open>switch\<close>; and no table at all makes it reach the second panic.\<close>

theorem mpinit_hangs_on_unknown_entry:
  "mpinit m s \<noteq> Some (Panic no_machine) \<and>
   (\<forall>conf mp es. mpconfig m = Some (Some (conf, mp)) \<longrightarrow> entries m (conf + 44) es \<longrightarrow>
      unat conf + unat (field16 m (conf + 4)) < 2 ^ 32 \<longrightarrow> 44 + table_size es < unat (field16 m (conf + 4)) \<longrightarrow>
      MPLINTR < m (conf + 44 + of_nat (table_size es)) \<longrightarrow> mpinit m s = None)"
proof (intro conjI allI impI)
  show "mpinit m s \<noteq> Some (Panic no_machine)"
    using mpinit_loop_flag by (fastforce simp: mpinit_def no_machine_def bind_eq_Some_conv split: option.splits)
next
  fix conf mp es
  let ?s = "s\<lparr>lapic := field32 m (conf + 36)\<rparr>" and ?e = "conf + ucast (field16 m (conf + 4))"
  let ?q = "conf + 44 + of_nat (table_size es)"
  assume c: "mpconfig m = Some (Some (conf, mp))" and es: "entries m (conf + 44) es"
    and b: "unat conf + unat (field16 m (conf + 4)) < 2 ^ 32" "44 + table_size es < unat (field16 m (conf + 4))"
    and un: "MPLINTR < m ?q"
  have u44: "unat (conf + 44) = unat conf + 44" using unat_plus_of_nat [of conf 44] b by simp
  have ue: "unat ?e = unat conf + unat (field16 m (conf + 4))"
    using unat_plus_of_nat [of conf "unat (field16 m (conf + 4))"] b(1) by simp
  have uq: "unat ?q = unat conf + 44 + table_size es"
    using unat_plus_of_nat [of "conf + 44" "table_size es"] b u44 by simp
  have w: "mpinit_loop m ?e (conf + 44) True ?s = mpinit_loop m ?e ?q True (fold note_entry es ?s)"
    using b(2) by (intro mpinit_entries [OF es]) (simp add: u44 ue)
  have "?q < ?e" using uq ue b(2) by (simp add: word_less_nat_alt)
  then have "mpinit_loop m ?e ?q True (fold note_entry es ?s) = None"
    using mpinit_loop_flag [of m ?e ?q True] un by (meson not_None_eq)
  then show "mpinit m s = None"
    by (simp only: mpinit_def c Option.bind.bind_lunit option.case prod.case w Option.bind.bind_lzero)
qed

theorem mpinit_hangs_on_unknown_entry_witness:
  "mpinit (sample_bios 9) sample_state \<noteq> Some (Panic no_machine) \<and> mpinit (sample_bios 9) sample_state = None"
proof -
  have "mpconfig (sample_bios 9) = Some (Some (0x80000420, 0x80000410))" by (simp add: sample_config)
  moreover have "entries (sample_bios 9) (0x80000420 + 44) [Proc 0, Proc 1]" by (simp add: sample_entry_bytes mp_types)
  moreover have "unat (0x80000420 :: u32) + unat (field16 (sample_bios 9) (0x80000420 + 4)) < 2 ^ 32"
    "44 + table_size [Proc 0, Proc 1] < unat (field16 (sample_bios 9) (0x80000420 + 4))"
    by (simp_all add: sample_length)
  moreover have "MPLINTR < sample_bios 9 (0x80000420 + 44 + of_nat (table_size [Proc 0, Proc 1]))"
    by (simp add: sample_entry_bytes mp_types)
  ultimately show ?thesis
    using mpinit_hangs_on_unknown_entry [of "sample_bios 9" sample_state] by blast
qed

end
