(* ===== verification/Spec2Isabelle.thy ===== *)
theory Spec2Isabelle
  imports Prelude CString Printf Spinlock Kalloc Ptable Vm Sleeplock Ide Bio Bytes Log Recovery Ring Pipe Fs Console File Process Sysfile Syscall Textutil Shell Mkfs Swap Kbd Trap Frames Descriptors Filerefs Editor Args Family Txn Blocks Inode Content Files Dirs Sched Signals Fairness Umalloc Boot Mp
begin

text \<open>
  A verification development for the xv6 kernels of this repository: the Unix-like teaching kernel as
  three course assignments extend it.  Paths are below \<^verbatim>\<open>src/Assignment\<close>.

  \<^bold>\<open>The program.\<close>
  \<^verbatim>\<open>cs236-xv6-mac\<close> is the kernel with an adaptive swapper and a memory listing behind control-I; it is the
  source of every theory below unless another is named.
  \<^verbatim>\<open>Assignment_3/cs236-xv6-mac\<close> is the same kernel with an earlier swapper (\<^verbatim>\<open>pageswap.c\<close>) and with the resident
  set sizes; its \<^verbatim>\<open>proc.c\<close>, \<^verbatim>\<open>vm.c\<close> and \<^verbatim>\<open>trap.c\<close> are the sources of \<open>Ptable\<close>, \<open>Vm\<close>, \<open>Process\<close>
  and \<open>Trap\<close>.
  \<^verbatim>\<open>Assignment_2/cs236-xv6-mac-a2\<close> is the kernel with dynamic priorities, held and time-limited processes and
  signals from the console (\<open>Sched\<close>, \<open>Signals\<close>, \<open>Fairness\<close>).
  The other trees are copies of these and the graders' scripts.
  System calls enter through \<^verbatim>\<open>trap.c\<close> and \<^verbatim>\<open>syscall.c\<close>; \<^verbatim>\<open>sysfile.c\<close> and \<^verbatim>\<open>sysproc.c\<close> check the arguments and
  call the process code, the file layer (\<^verbatim>\<open>file.c\<close>, \<^verbatim>\<open>pipe.c\<close>) and through it the file system (\<^verbatim>\<open>fs.c\<close>), which
  runs in transactions of the log (\<^verbatim>\<open>log.c\<close>) over the buffer cache (\<^verbatim>\<open>bio.c\<close>) and the disk driver
  (\<^verbatim>\<open>ide.c\<close>).  Memory comes from \<^verbatim>\<open>kalloc.c\<close> and is mapped by \<^verbatim>\<open>vm.c\<close>.

  \<^bold>\<open>How the code is modelled.\<close>
  The state of a component is a record with the fields of the C structures, extended from layer to layer:
  \<open>kmem\<close> (pages), \<open>ksys\<close> (process table), \<open>psys\<close> (pipes), \<open>csys\<close> (console) on one side; \<open>iosys\<close> (buffers and
  disk), \<open>logsys\<close>, \<open>fssys\<close> on the other; \<open>kernel\<close> and \<open>mach\<close> hold both.  A function of the code is a definition
  of its name that takes the state and returns an \<open>outcome\<close>: \<open>Ret\<close>, \<open>Panic\<close> with the message, or
  \<open>Blocked\<close> where the call would wait for an event that the modelled run does not deliver.  A null pointer is
  \<open>None\<close> or 0; following it is \<open>Panic ''trap''\<close>.  Unsigned C integers are words and wrap; a C \<^verbatim>\<open>int\<close> is an
  \<open>int\<close>, converted where the code converts; \<^verbatim>\<open>nextpid\<close>, which \<^verbatim>\<open>nextpid++\<close> drives through its whole range,
  is reduced to 32 bits by \<open>Prelude.int32\<close>.  Two computations on \<^verbatim>\<open>int\<close> are left without a width: the
  priority of \<open>Sched.dynamic_priority\<close>, which is the code's below about \<open>2 ^ 30\<close> ticks of waiting, and the sum
  in \<open>CString.atoi_from\<close>, whose intermediate value may pass the end of the range for the largest numbers and is back in
  it in the same expression.  A function that sleeps is cut there: what it does up to
  the sleep is one definition, what it does when it runs again the other.
  A file layer call of a device is in \<open>File\<close>: \<open>console_write\<close> and \<open>console_read\<close> unlock and lock the inode around
  \<open>Console.consolewrite\<close> and \<open>Console.consoleread\<close>.
  Critical sections are their bodies; where the interleaving itself is the matter (\<open>Spinlock\<close>, \<open>Sleeplock\<close>) the
  code is cut at its accesses to shared memory and the cuts are an inductive step relation.

  \<^bold>\<open>The theories.\<close>
  \<^item> \<open>Prelude\<close>, \<open>Bytes\<close>, \<open>Ring\<close>: outcomes, words, lists; little-endian fields; byte queues in circular arrays,
    with the interface \<open>fifo\<close> that \<open>Pipe\<close> interprets.
  \<^item> \<open>CString\<close> (\<^verbatim>\<open>string.c\<close>, \<^verbatim>\<open>ulib.c\<close>) and \<open>Printf\<close> (\<^verbatim>\<open>printf.c\<close>, \<^verbatim>\<open>console.c\<close>): memory and string routines on
    a byte memory, and formatted output as the list of bytes printed.
  \<^item> \<open>Spinlock\<close>, \<open>Sleeplock\<close>: the locks, the nesting of \<^verbatim>\<open>pushcli\<close>, mutual exclusion over all interleavings of
    two CPUs, and no lost wakeup between \<^verbatim>\<open>sleep\<close> and \<^verbatim>\<open>wakeup\<close>.
  \<^item> \<open>Kalloc\<close>: the page allocator, with the interface \<open>page_alloc\<close> and its promise that no page has two owners.
    \<open>Vm\<close>: page tables.  \<open>Swap\<close>: the adaptive swapper,
    its choice of victims and the blocks of the disk its pages go to.
  \<^item> \<open>Ptable\<close>, \<open>Process\<close>, \<open>Trap\<close>, \<open>Family\<close>: process table, scheduler, \<^verbatim>\<open>fork\<close>, \<^verbatim>\<open>exit\<close>, \<^verbatim>\<open>wait\<close>, \<^verbatim>\<open>kill\<close>, page
    faults; \<open>Family\<close> proves the table well formed over whole lives (pids unique, parents alive)
    up to the \<^verbatim>\<open>fork\<close> at which \<^verbatim>\<open>nextpid\<close> would wrap.
  \<^item> \<open>Ide\<close>, \<open>Bio\<close>, \<open>Log\<close>, \<open>Recovery\<close>: driver, cache, redo log.  \<open>Bio\<close> states the interface \<open>block_store\<close>;
    \<open>Recovery\<close> cuts a commit at any disk write and proves that the disk after recovery holds all of the
    transaction or nothing of it.
  \<^item> \<open>Fs\<close> models \<^verbatim>\<open>fs.c\<close>; \<open>Txn\<close>, \<open>Blocks\<close>, \<open>Inode\<close>, \<open>Content\<close>, \<open>Files\<close>, \<open>Dirs\<close> prove it layer by layer: what
    a transaction may do (\<open>work\<close>), the bitmap, the blocks of an inode, the bytes of a file, crash-safe writes, directories
    as finite maps, paths.  \<open>Mkfs\<close> is the tool that builds the first image.
  \<^item> \<open>Pipe\<close>, \<open>File\<close>, \<open>Sysfile\<close>, \<open>Syscall\<close>, \<open>Args\<close>: pipes, open files, the system calls, \<^verbatim>\<open>exec\<close>, and what the
    argument checks guarantee.  \<open>Frames\<close>, \<open>Descriptors\<close>, \<open>Filerefs\<close>: what each layer leaves alone, and that the
    reference count of every open file is the number of descriptors that name it, over all calls.
  \<^item> \<open>Console\<close>, \<open>Editor\<close>, \<open>Kbd\<close>: screen, line editor, keyboard; \<open>Editor\<close> refines the circular buffer to a line and
    a queue of committed bytes.
  \<^item> \<open>Sched\<close>, \<open>Signals\<close>, \<open>Fairness\<close>: the second assignment.  \<open>Sched\<close> has the scheduler and the accounting, and that the
    scheduler picks the highest priority; \<open>Signals\<close> the control keys as maps over the process table; \<open>Fairness\<close>
    the runs of the system: no starvation, and the processes that control-C fails to kill, as long as the clock and \<^verbatim>\<open>nextpid\<close>
    have not wrapped.
  \<^item> \<open>Textutil\<close>, \<open>Shell\<close>: \<^verbatim>\<open>grep\<close> against a specification of its patterns by languages, \<^verbatim>\<open>wc\<close>, and the shell's
    parser with its inverse.
  \<^item> \<open>Umalloc\<close> (\<^verbatim>\<open>umalloc.c\<close>): the allocator of user programs as a ring of blocks in the memory's words; its blocks never
    overlap, and freed blocks merge with their neighbours.
  \<^item> \<open>Boot\<close> (\<^verbatim>\<open>bootmain.c\<close>), \<open>Mp\<close> (\<^verbatim>\<open>mp.c\<close>): the boot loader puts the segments of the kernel's file in place; the
    walk over the BIOS's configuration table finds the processors, and does not end on an entry it does not know.

  \<^bold>\<open>Bounds and fuel.\<close>
  A loop whose end the code does not make evident has a fuel argument that runs out as \<open>Blocked\<close>, or is a
  \<open>partial_function\<close> whose \<open>None\<close> is a run that does not end.  The fuel is: for the scans of the buffer ring one turn
  more than buffers and head (\<open>Bio.scan\<close>; a well-formed ring is back at the head by then); for \<^verbatim>\<open>balloc\<close>
  and \<^verbatim>\<open>ialloc\<close> the number of bitmap blocks and inodes and one; for directories the number of entries and
  one; for the driver's wait the length of its queue.  The theorems that promise a result show that it is enough.

  \<^bold>\<open>Not modelled.\<close>
  The assembly files and the interrupt controllers (\<^verbatim>\<open>lapic.c\<close>, \<^verbatim>\<open>ioapic.c\<close>, \<^verbatim>\<open>picirq.c\<close>) program devices; their effect on
  the kernel's state is where the modelled code starts.  \<^verbatim>\<open>swtch\<close>, segment descriptors and the descriptor table are processor
  state that no modelled function reads.  Memory barriers are not modelled: the interleavings are sequentially consistent.
  User programs that only call the system (\<^verbatim>\<open>cat\<close>, \<^verbatim>\<open>ls\<close>, \<^verbatim>\<open>init\<close>, and so on), the shell's \<^verbatim>\<open>runcmd\<close>, and the
  test programs have no logic of their own.
\<close>

end
